(* ===== verification/Prelude.thy ===== *)
theory Prelude
  imports Main "HOL-Library.Word" "HOL-Library.Signed_Division"
begin

unbundle bit_operations_syntax

section \<open>Prelude: shared facts and hint collections\<close>

text \<open>
  This theory holds what the components share and what is about none of them: the collections of
  proof hints (\<open>bv_simps\<close> for the reference bit-vector semantics, \<open>wt_intros\<close> for typing facts),
  the signed view of a bit pattern of a given width, and generic lemmas on bounded integers,
  truncation and lists.
\<close>

named_theorems bv_simps \<open>unfolding of the reference bit-vector operations\<close>
named_theorems wt_intros \<open>introduction rules for well-typed expressions\<close>

subsection \<open>Bounded integers\<close>

text \<open>\<open>inr w v\<close>: \<open>v\<close> is the unsigned value of a \<open>w\<close>-bit pattern.\<close>

definition inr :: "nat \<Rightarrow> int \<Rightarrow> bool" where
  "inr w v \<longleftrightarrow> 0 \<le> v \<and> v < 2 ^ w"

lemma inrI [intro]: "0 \<le> v \<Longrightarrow> v < 2 ^ w \<Longrightarrow> inr w v"
  by (simp add: inr_def)

lemma inr_nonneg: "inr w v \<Longrightarrow> 0 \<le> v"
  by (simp add: inr_def)

lemma inr_less: "inr w v \<Longrightarrow> v < 2 ^ w"
  by (simp add: inr_def)

lemma inr_take_bit [simp]: "inr w (take_bit w v)"
  by (simp add: inr_def)

lemma take_bit_inr: "inr w v \<Longrightarrow> take_bit w v = v"
  by (simp add: inr_def take_bit_int_eq_self)

lemma inr_iff_take_bit: "inr w v \<longleftrightarrow> take_bit w v = v"
  by (metis inr_take_bit take_bit_inr)

lemma inr_mono: "inr w v \<Longrightarrow> w \<le> w' \<Longrightarrow> inr w' v"
  by (metis inr_iff_take_bit min.absorb1 take_bit_take_bit min.commute)

lemma inr_0 [simp]: "inr w 0"
  by (simp add: inr_def)

lemma inr_1 [simp]: "0 < w \<Longrightarrow> inr w 1"
  by (simp add: inr_def)

lemma inr_of_bool [simp]: "0 < w \<Longrightarrow> inr w (of_bool b)"
  by (cases b) auto

lemma inr_Suc0D: "inr (Suc 0) v \<Longrightarrow> v = 0 \<or> v = 1"
  by (auto simp: inr_def)

lemma inr_bool_cases:
  assumes "inr (Suc 0) v" obtains "v = 0" | "v = 1"
  using assms inr_Suc0D by blast

lemma inr_and: "inr w a \<Longrightarrow> inr w b \<Longrightarrow> inr w (a AND b)"
  by (simp add: inr_iff_take_bit)

lemma inr_or: "inr w a \<Longrightarrow> inr w b \<Longrightarrow> inr w (a OR b)"
  by (simp add: inr_iff_take_bit)

lemma inr_xor: "inr w a \<Longrightarrow> inr w b \<Longrightarrow> inr w (a XOR b)"
  by (simp add: inr_iff_take_bit)

lemma inr_div: "inr w a \<Longrightarrow> inr w b \<Longrightarrow> inr w (a div b)"
  by (cases "a = 0")
    (auto simp: inr_def pos_imp_zdiv_nonneg_iff div_int_pos_iff intro: le_less_trans [OF int_div_le_self])

lemma inr_mod: "inr w a \<Longrightarrow> inr w b \<Longrightarrow> inr w (a mod b)"
  by (cases "b = 0")
    (auto simp: inr_def intro: less_le_trans [OF pos_mod_bound] less_imp_le)

lemma inr_drop_bit: "inr w a \<Longrightarrow> inr w (drop_bit n a)"
  by (metis inr_iff_take_bit inr_mono le_add1 take_bit_drop_bit)

subsection \<open>The signed view\<close>

text \<open>\<open>sval w v\<close> reads the \<open>w\<close>-bit pattern \<open>v\<close> as two's complement.\<close>

definition sval :: "nat \<Rightarrow> int \<Rightarrow> int" where
  "sval w v = signed_take_bit (w - 1) v"

lemma take_bit_sval: "0 < w \<Longrightarrow> take_bit w (sval w v) = take_bit w v"
  by (simp add: sval_def take_bit_signed_take_bit)

lemma sval_inject: "0 < w \<Longrightarrow> inr w a \<Longrightarrow> inr w b \<Longrightarrow> sval w a = sval w b \<longleftrightarrow> a = b"
  by (metis take_bit_inr take_bit_sval)

lemma sval_bounds: "0 < w \<Longrightarrow> - (2 ^ (w - 1)) \<le> sval w v \<and> sval w v < 2 ^ (w - 1)"
  by (simp add: sval_def)

lemma sval_1: "sval (Suc 0) v = - (v mod 2)"
  by (simp add: sval_def)

end
