(* ===== verification/APInt.thy ===== *)
theory APInt
  imports Prelude
begin

section \<open>The bit-vector library: llvm::APInt as an interface\<close>

text \<open>
  The constants of KLEE's expressions are \<^verbatim>\<open>llvm::APInt\<close> values. That class is not part of the
  repository: its operations are a parameter of the model (the record \<open>apint_ops\<close>), and the
  locale \<open>apint\<close> states what LLVM documents of them: two's complement arithmetic modulo the width,
  for operands of one width, with the divisor not zero, and shifts filling with zeros (or with the
  sign bit) also when the amount exceeds the width. The reference functions \<open>bv_arith\<close> and \<open>bv_cmp\<close>
  write that meaning out on unsigned values; they also give the expressions of theory \<open>Expr\<close> their
  meaning.
\<close>

subsection \<open>Operators\<close>

text \<open>The binary operators of \<^verbatim>\<open>enum Expr::Kind\<close> (\<^verbatim>\<open>BinaryKindFirst .. BinaryKindLast\<close>).\<close>

datatype binop = Add | Sub | Mul | UDiv | SDiv | URem | SRem
  | And | Or | Xor | Shl | LShr | AShr
  | Eq | Ne | Ult | Ule | Ugt | Uge | Slt | Sle | Sgt | Sge

text \<open>\<^verbatim>\<open>CmpKindFirst .. CmpKindLast\<close>: the result is a boolean.\<close>

fun is_cmp :: "binop \<Rightarrow> bool" where
  "is_cmp Eq = True" | "is_cmp Ne = True" | "is_cmp Ult = True" | "is_cmp Ule = True"
| "is_cmp Ugt = True" | "is_cmp Uge = True" | "is_cmp Slt = True" | "is_cmp Sle = True"
| "is_cmp Sgt = True" | "is_cmp Sge = True" | "is_cmp _ = False"

fun is_div :: "binop \<Rightarrow> bool" where
  "is_div UDiv = True" | "is_div SDiv = True" | "is_div URem = True" | "is_div SRem = True"
| "is_div _ = False"

subsection \<open>The reference meaning\<close>

fun bv_arith :: "binop \<Rightarrow> nat \<Rightarrow> int \<Rightarrow> int \<Rightarrow> int" where
  "bv_arith Add w a b = take_bit w (a + b)"
| "bv_arith Sub w a b = take_bit w (a - b)"
| "bv_arith Mul w a b = take_bit w (a * b)"
| "bv_arith UDiv w a b = a div b"
| "bv_arith URem w a b = a mod b"
| "bv_arith SDiv w a b = take_bit w (sval w a sdiv sval w b)"
| "bv_arith SRem w a b = take_bit w (sval w a smod sval w b)"
| "bv_arith And w a b = a AND b"
| "bv_arith Or w a b = a OR b"
| "bv_arith Xor w a b = a XOR b"
| "bv_arith Shl w a b = take_bit w (push_bit (nat b) a)"
| "bv_arith LShr w a b = drop_bit (nat b) a"
| "bv_arith AShr w a b = take_bit w (drop_bit (nat b) (sval w a))"
| "bv_arith _ w a b = 0"

fun bv_cmp :: "binop \<Rightarrow> nat \<Rightarrow> int \<Rightarrow> int \<Rightarrow> bool" where
  "bv_cmp Eq w a b = (a = b)"
| "bv_cmp Ne w a b = (a \<noteq> b)"
| "bv_cmp Ult w a b = (a < b)"
| "bv_cmp Ule w a b = (a \<le> b)"
| "bv_cmp Ugt w a b = (b < a)"
| "bv_cmp Uge w a b = (b \<le> a)"
| "bv_cmp Slt w a b = (sval w a < sval w b)"
| "bv_cmp Sle w a b = (sval w a \<le> sval w b)"
| "bv_cmp Sgt w a b = (sval w b < sval w a)"
| "bv_cmp Sge w a b = (sval w b \<le> sval w a)"
| "bv_cmp _ w a b = False"

text \<open>Width and value of the result of a binary operator on operands of width \<open>w\<close>.\<close>

definition bv_width :: "binop \<Rightarrow> nat \<Rightarrow> nat" where
  "bv_width k w = (if is_cmp k then 1 else w)"

definition bv_bin :: "binop \<Rightarrow> nat \<Rightarrow> int \<Rightarrow> int \<Rightarrow> int" where
  "bv_bin k w a b = (if is_cmp k then of_bool (bv_cmp k w a b) else bv_arith k w a b)"

lemma bv_arith_inr:
  assumes "inr w a" "inr w b"
  shows "inr w (bv_arith k w a b)"
  using assms by (cases k) (auto intro: inr_and inr_or inr_xor inr_div inr_mod inr_drop_bit)

lemma bv_bin_inr:
  "inr w a \<Longrightarrow> inr w b \<Longrightarrow> inr (bv_width k w) (bv_bin k w a b)"
  by (auto simp: bv_bin_def bv_width_def bv_arith_inr)

lemma bv_width_pos [simp]: "0 < w \<Longrightarrow> 0 < bv_width k w"
  by (simp add: bv_width_def)

subsection \<open>APInt values and operations\<close>

text \<open>An \<^verbatim>\<open>APInt\<close> has a bit width and the bits, read here as an unsigned value.\<close>

datatype apint = APInt (getBitWidth: nat) (getZExtValue: int)

definition wf_ap :: "apint \<Rightarrow> bool" where
  "wf_ap x \<longleftrightarrow> 0 < getBitWidth x \<and> inr (getBitWidth x) (getZExtValue x)"

lemma wf_ap_APInt [simp]: "wf_ap (APInt w v) \<longleftrightarrow> 0 < w \<and> inr w v"
  by (simp add: wf_ap_def)

text \<open>
  The constructor \<^verbatim>\<open>APInt(numBits, val)\<close> truncates. The operators and methods used in the source:
  \<open>ap_arith k\<close> is \<^verbatim>\<open>+ - * udiv sdiv urem srem & | ^ shl lshr ashr\<close> by operator, \<open>ap_cmp k\<close> is
  \<^verbatim>\<open>== != ult ule ugt uge slt sle sgt sge\<close>; \<open>ap_shl_n\<close> is \<^verbatim>\<open><<= unsigned\<close> and \<open>ap_ashr_n\<close> is
  \<^verbatim>\<open>ashr(unsigned)\<close>.
\<close>

record apint_ops =
  ap_make :: "nat \<Rightarrow> int \<Rightarrow> apint"
  ap_arith :: "binop \<Rightarrow> apint \<Rightarrow> apint \<Rightarrow> apint"
  ap_cmp :: "binop \<Rightarrow> apint \<Rightarrow> apint \<Rightarrow> bool"
  ap_neg :: "apint \<Rightarrow> apint"
  ap_not :: "apint \<Rightarrow> apint"
  ap_zext :: "apint \<Rightarrow> nat \<Rightarrow> apint"
  ap_zextOrTrunc :: "apint \<Rightarrow> nat \<Rightarrow> apint"
  ap_sextOrTrunc :: "apint \<Rightarrow> nat \<Rightarrow> apint"
  ap_shl_n :: "apint \<Rightarrow> nat \<Rightarrow> apint"
  ap_ashr_n :: "apint \<Rightarrow> nat \<Rightarrow> apint"

locale apint =
  fixes A :: "'z apint_ops_scheme"
  assumes make: "0 < w \<Longrightarrow> ap_make A w v = APInt w (take_bit w v)"
    and arith: "\<lbrakk>wf_ap x; wf_ap y; getBitWidth x = getBitWidth y; \<not> is_cmp k;
        is_div k \<longrightarrow> getZExtValue y \<noteq> 0\<rbrakk> \<Longrightarrow>
      ap_arith A k x y = APInt (getBitWidth x)
        (bv_arith k (getBitWidth x) (getZExtValue x) (getZExtValue y))"
    and cmp: "\<lbrakk>wf_ap x; wf_ap y; getBitWidth x = getBitWidth y; is_cmp k\<rbrakk> \<Longrightarrow>
      ap_cmp A k x y = bv_cmp k (getBitWidth x) (getZExtValue x) (getZExtValue y)"
    and neg: "wf_ap x \<Longrightarrow>
      ap_neg A x = APInt (getBitWidth x) (take_bit (getBitWidth x) (- getZExtValue x))"
    and not: "wf_ap x \<Longrightarrow>
      ap_not A x = APInt (getBitWidth x) (take_bit (getBitWidth x) (NOT (getZExtValue x)))"
    and zext: "wf_ap x \<Longrightarrow> getBitWidth x < w \<Longrightarrow> ap_zext A x w = APInt w (getZExtValue x)"
    and zextOrTrunc: "wf_ap x \<Longrightarrow> 0 < w \<Longrightarrow>
      ap_zextOrTrunc A x w = APInt w (take_bit w (getZExtValue x))"
    and sextOrTrunc: "wf_ap x \<Longrightarrow> 0 < w \<Longrightarrow>
      ap_sextOrTrunc A x w = APInt w (take_bit w (sval (getBitWidth x) (getZExtValue x)))"
    and shl_n: "wf_ap x \<Longrightarrow> n \<le> getBitWidth x \<Longrightarrow>
      ap_shl_n A x n = APInt (getBitWidth x) (take_bit (getBitWidth x) (push_bit n (getZExtValue x)))"
    and ashr_n: "wf_ap x \<Longrightarrow> n \<le> getBitWidth x \<Longrightarrow>
      ap_ashr_n A x n = APInt (getBitWidth x)
        (take_bit (getBitWidth x) (drop_bit n (sval (getBitWidth x) (getZExtValue x))))"
begin

lemmas ap_simps = make arith cmp neg not zext zextOrTrunc sextOrTrunc shl_n ashr_n

lemma arith_wf:
  "\<lbrakk>wf_ap x; wf_ap y; getBitWidth x = getBitWidth y; \<not> is_cmp k;
    is_div k \<longrightarrow> getZExtValue y \<noteq> 0\<rbrakk> \<Longrightarrow>
   wf_ap (ap_arith A k x y) \<and> getBitWidth (ap_arith A k x y) = getBitWidth x"
  by (simp add: arith) (simp add: wf_ap_def bv_arith_inr)

end

text \<open>
  An instance that computes: the documented operations themselves, with the signed and unsigned
  readings of theory \<open>Prelude\<close>. It shows that the interface can be met and lets concrete expressions
  be evaluated.
\<close>

definition std_apint :: "apint_ops" where
  "std_apint = \<lparr>
     ap_make = (\<lambda>w v. APInt w (take_bit w v)),
     ap_arith = (\<lambda>k x y. APInt (getBitWidth x)
       (bv_arith k (getBitWidth x) (getZExtValue x) (getZExtValue y))),
     ap_cmp = (\<lambda>k x y. bv_cmp k (getBitWidth x) (getZExtValue x) (getZExtValue y)),
     ap_neg = (\<lambda>x. APInt (getBitWidth x) (take_bit (getBitWidth x) (- getZExtValue x))),
     ap_not = (\<lambda>x. APInt (getBitWidth x) (take_bit (getBitWidth x) (NOT (getZExtValue x)))),
     ap_zext = (\<lambda>x w. APInt w (getZExtValue x)),
     ap_zextOrTrunc = (\<lambda>x w. APInt w (take_bit w (getZExtValue x))),
     ap_sextOrTrunc = (\<lambda>x w. APInt w (take_bit w (sval (getBitWidth x) (getZExtValue x)))),
     ap_shl_n = (\<lambda>x n. APInt (getBitWidth x)
       (take_bit (getBitWidth x) (push_bit n (getZExtValue x)))),
     ap_ashr_n = (\<lambda>x n. APInt (getBitWidth x)
       (take_bit (getBitWidth x) (drop_bit n (sval (getBitWidth x) (getZExtValue x)))))\<rparr>"

interpretation std: apint std_apint
  by unfold_locales (simp_all add: std_apint_def)

lemma apint_std: "apint std_apint"
  by (rule std.apint_axioms)

end
