(* ===== verification/Expr.thy ===== *)
theory Expr
  imports APInt
begin

section \<open>Expressions (klee/Expr.h, lib/Expr/Expr.cpp, lib/Expr/Updates.cpp)\<close>

text \<open>
  The expression classes of \<^verbatim>\<open>klee/Expr.h\<close> as a datatype, arrays and their update lists, the accessors
  the rest of the program uses (\<open>getKind\<close>, \<open>getWidth\<close>, \<open>getNumKids\<close>, \<open>getKid\<close>, \<open>isZero\<close>, \<open>is_true\<close>,
  \<open>is_false\<close>), the typing discipline that the source's assertions state (\<open>wt\<close>), and the meaning of an
  expression as the unsigned value it denotes under an assignment of array contents (\<open>eval\<close>).
\<close>

subsection \<open>Arrays, updates and expressions\<close>

text \<open>
  \<^verbatim>\<open>class Array\<close>. \<open>arr_addr\<close> stands for the object's address: arrays are compared by pointer.
\<close>

record array =
  arr_addr :: nat
  arr_name :: string
  arr_size :: nat
  arr_domain :: nat
  arr_range :: nat
  constantValues :: "apint list"

definition isSymbolicArray :: "array \<Rightarrow> bool" where
  "isSymbolicArray a \<longleftrightarrow> constantValues a = []"

definition isConstantArray :: "array \<Rightarrow> bool" where
  "isConstantArray a \<longleftrightarrow> \<not> isSymbolicArray a"

text \<open>
  One constructor per class. An \<^verbatim>\<open>UpdateList\<close> is the pair of the root array and the chain of
  \<^verbatim>\<open>UpdateNode\<close>s from its head (the newest write) on; the 23 subclasses of \<^verbatim>\<open>BinaryExpr\<close> are told
  apart by their kind. References are shared, immutable and compared structurally, so an expression
  is the tree it denotes.
\<close>

datatype expr =
    ConstantExpr apint
  | NotOptimizedExpr expr
  | ReadExpr array updates expr
  | SelectExpr expr expr expr
  | ConcatExpr expr expr
  | ExtractExpr expr nat nat
  | ZExtExpr expr nat
  | SExtExpr expr nat
  | NotExpr expr
  | BinaryExpr binop expr expr
and updates =
    UpdateNil
  | UpdateNode expr expr updates \<comment> \<open>index, value, next\<close>

datatype kind = Constant | NotOptimized | Read | Select | Concat | Extract | ZExt | SExt | Not
  | Binary binop

fun getKind :: "expr \<Rightarrow> kind" where
  "getKind (ConstantExpr c) = Constant"
| "getKind (NotOptimizedExpr e) = NotOptimized"
| "getKind (ReadExpr a us i) = Read"
| "getKind (SelectExpr c t f) = Select"
| "getKind (ConcatExpr l r) = Concat"
| "getKind (ExtractExpr e off w) = Extract"
| "getKind (ZExtExpr e w) = ZExt"
| "getKind (SExtExpr e w) = SExt"
| "getKind (NotExpr e) = Not"
| "getKind (BinaryExpr k l r) = Binary k"

text \<open>\<^verbatim>\<open>getWidth\<close>, virtual, per class.\<close>

primrec getWidth :: "expr \<Rightarrow> nat" where
  "getWidth (ConstantExpr c) = getBitWidth c"
| "getWidth (NotOptimizedExpr e) = getWidth e"
| "getWidth (ReadExpr a us i) = arr_range a"
| "getWidth (SelectExpr c t f) = getWidth t"
| "getWidth (ConcatExpr l r) = getWidth l + getWidth r"
| "getWidth (ExtractExpr e off w) = w"
| "getWidth (ZExtExpr e w) = w"
| "getWidth (SExtExpr e w) = w"
| "getWidth (NotExpr e) = getWidth e"
| "getWidth (BinaryExpr k l r) = bv_width k (getWidth l)"

fun kids :: "expr \<Rightarrow> expr list" where
  "kids (ConstantExpr c) = []"
| "kids (NotOptimizedExpr e) = [e]"
| "kids (ReadExpr a us i) = [i]"
| "kids (SelectExpr c t f) = [c, t, f]"
| "kids (ConcatExpr l r) = [l, r]"
| "kids (ExtractExpr e off w) = [e]"
| "kids (ZExtExpr e w) = [e]"
| "kids (SExtExpr e w) = [e]"
| "kids (NotExpr e) = [e]"
| "kids (BinaryExpr k l r) = [l, r]"

fun getNumKids :: "expr \<Rightarrow> nat" where
  "getNumKids (ConstantExpr c) = 0"
| "getNumKids (NotOptimizedExpr e) = 1"
| "getNumKids (ReadExpr a us i) = 1"
| "getNumKids (SelectExpr c t f) = 3"
| "getNumKids (ConcatExpr l r) = 2"
| "getNumKids (ExtractExpr e off w) = 1"
| "getNumKids (ZExtExpr e w) = 1"
| "getNumKids (SExtExpr e w) = 1"
| "getNumKids (NotExpr e) = 1"
| "getNumKids (BinaryExpr k l r) = 2"

text \<open>\<^verbatim>\<open>getKid(i)\<close> per class: out of range a null reference, or the only kid whatever \<open>i\<close> is.\<close>

fun getKid :: "expr \<Rightarrow> nat \<Rightarrow> expr option" where
  "getKid (ConstantExpr c) n = None"
| "getKid (NotOptimizedExpr e) n = Some e"
| "getKid (ReadExpr a us i) n = (if n = 0 then Some i else None)"
| "getKid (SelectExpr c t f) n =
     (if n = 0 then Some c else if n = 1 then Some t else if n = 2 then Some f else None)"
| "getKid (ConcatExpr l r) n = (if n = 0 then Some l else if n = 1 then Some r else None)"
| "getKid (ExtractExpr e off w) n = Some e"
| "getKid (ZExtExpr e w) n = (if n = 0 then Some e else None)"
| "getKid (SExtExpr e w) n = (if n = 0 then Some e else None)"
| "getKid (NotExpr e) n = Some e"
| "getKid (BinaryExpr k l r) n = (if n = 0 then Some l else if n = 1 then Some r else None)"

text \<open>The kids in order, the way the loops over \<^verbatim>\<open>0 .. getNumKids() - 1\<close> see them.\<close>

lemma kids_getKid: "map Some (kids e) = map (getKid e) [0..<getNumKids e]"
  by (cases e) (simp_all add: upt_rec numeral_2_eq_2 numeral_3_eq_3)

fun is_constant :: "expr \<Rightarrow> bool" where
  "is_constant (ConstantExpr c) = True"
| "is_constant _ = False"

text \<open>\<^verbatim>\<open>dyn_cast<ConstantExpr>(e)\<close>\<close>

fun as_const :: "expr \<Rightarrow> apint option" where
  "as_const (ConstantExpr c) = Some c"
| "as_const _ = None"

lemma as_const_Some [simp]: "as_const e = Some c \<longleftrightarrow> e = ConstantExpr c"
  by (cases e) auto

lemma as_const_None: "as_const e = None \<longleftrightarrow> \<not> is_constant e"
  by (cases e) auto

lemma is_constantE:
  assumes "is_constant e" obtains c where "e = ConstantExpr c"
  using assms by (cases e) auto

lemma is_constant_iff: "is_constant e \<longleftrightarrow> (\<exists>c. e = ConstantExpr c)"
  by (cases e) auto

subsection \<open>Constants\<close>

definition ap_isZero :: "apint \<Rightarrow> bool" where
  "ap_isZero c \<longleftrightarrow> getZExtValue c = 0"

text \<open>\<^verbatim>\<open>getLimitedValue(Limit)\<close>: the value, or the limit (\<^verbatim>\<open>~0ULL\<close> by default) when it is larger.\<close>

definition ap_getLimitedValue :: "apint \<Rightarrow> int \<Rightarrow> int" where
  "ap_getLimitedValue c lim = (if lim < getZExtValue c then lim else getZExtValue c)"

definition ap_isOne :: "apint \<Rightarrow> bool" where
  "ap_isOne c \<longleftrightarrow> ap_getLimitedValue c (2 ^ 64 - 1) = 1"

definition ap_isTrue :: "apint \<Rightarrow> bool" where
  "ap_isTrue c \<longleftrightarrow> getBitWidth c = 1 \<and> getZExtValue c \<noteq> 0"

definition ap_isFalse :: "apint \<Rightarrow> bool" where
  "ap_isFalse c \<longleftrightarrow> getBitWidth c = 1 \<and> getZExtValue c = 0"

definition ap_isAllOnes :: "apint \<Rightarrow> bool" where
  "ap_isAllOnes c \<longleftrightarrow> getZExtValue c = 2 ^ getBitWidth c - 1"

fun isZero :: "expr \<Rightarrow> bool" where
  "isZero (ConstantExpr c) = ap_isZero c"
| "isZero _ = False"

text \<open>The values of \<^verbatim>\<open>Expr::isTrue\<close> and \<^verbatim>\<open>Expr::isFalse\<close>.\<close>

fun is_true :: "expr \<Rightarrow> bool" where
  "is_true (ConstantExpr c) = ap_isTrue c"
| "is_true _ = False"

fun is_false :: "expr \<Rightarrow> bool" where
  "is_false (ConstantExpr c) = ap_isFalse c"
| "is_false _ = False"

text \<open>\<^verbatim>\<open>Expr::isTrue\<close> and \<^verbatim>\<open>Expr::isFalse\<close> assert that the width is \<^verbatim>\<open>Bool\<close>: \<open>None\<close> is the failed assertion.\<close>

definition isTrue :: "expr \<Rightarrow> bool option" where
  "isTrue e = (if getWidth e = 1 then Some (is_true e) else None)"

definition isFalse :: "expr \<Rightarrow> bool option" where
  "isFalse e = (if getWidth e = 1 then Some (is_false e) else None)"

lemma isTrue_bool [simp]: "getWidth e = 1 \<Longrightarrow> isTrue e = Some (is_true e)"
  by (simp add: isTrue_def)

lemma isFalse_bool [simp]: "getWidth e = 1 \<Longrightarrow> isFalse e = Some (is_false e)"
  by (simp add: isFalse_def)

lemma isTrue_Some: "isTrue e = Some b \<longleftrightarrow> getWidth e = 1 \<and> b = is_true e"
  by (auto simp: isTrue_def)

lemma isFalse_Some: "isFalse e = Some b \<longleftrightarrow> getWidth e = 1 \<and> b = is_false e"
  by (auto simp: isFalse_def)

lemma ap_isOne_iff [simp]: "ap_isOne c \<longleftrightarrow> getZExtValue c = 1"
  by (simp add: ap_isOne_def ap_getLimitedValue_def)

lemmas ap_tests = ap_isZero_def ap_isTrue_def ap_isFalse_def ap_isAllOnes_def

subsection \<open>Update lists (Updates.cpp)\<close>

fun updates_getSize :: "updates \<Rightarrow> nat" where
  "updates_getSize UpdateNil = 0"
| "updates_getSize (UpdateNode i v n) = 1 + updates_getSize n"

text \<open>
  \<^verbatim>\<open>UpdateList::extend\<close> puts a new node in front of the chain. Its assertions, on the widths of the
  index and of the value, make it partial.
\<close>

definition extend :: "array \<Rightarrow> updates \<Rightarrow> expr \<Rightarrow> expr \<Rightarrow> updates option" where
  "extend root head index v =
     (if arr_domain root = getWidth index \<and> arr_range root = getWidth v
      then Some (UpdateNode index v head) else None)"

subsection \<open>Well-typed expressions\<close>

text \<open>\<open>wf_array\<close> is what the constructor of \<^verbatim>\<open>Array\<close> asserts; \<open>wt\<close> what the classes assert or rely on.\<close>

definition wf_array :: "array \<Rightarrow> bool" where
  "wf_array a \<longleftrightarrow> 0 < arr_domain a \<and> 0 < arr_range a \<and>
     (constantValues a = [] \<or> length (constantValues a) = arr_size a) \<and>
     (\<forall>c \<in> set (constantValues a). wf_ap c \<and> getBitWidth c = arr_range a)"

primrec wt :: "expr \<Rightarrow> bool" and wt_updates :: "updates \<Rightarrow> array \<Rightarrow> bool" where
  "wt (ConstantExpr c) = wf_ap c"
| "wt (NotOptimizedExpr e) = wt e"
| "wt (ReadExpr a us i) = (wf_array a \<and> wt_updates us a \<and> wt i \<and> getWidth i = arr_domain a)"
| "wt (SelectExpr c t f) = (wt c \<and> wt t \<and> wt f \<and> getWidth c = 1 \<and> getWidth t = getWidth f)"
| "wt (ConcatExpr l r) = (wt l \<and> wt r)"
| "wt (ExtractExpr e off w) = (wt e \<and> 0 < w \<and> off + w \<le> getWidth e)"
| "wt (ZExtExpr e w) = (wt e \<and> getWidth e \<le> w)"
| "wt (SExtExpr e w) = (wt e \<and> getWidth e \<le> w)"
| "wt (NotExpr e) = wt e"
| "wt (BinaryExpr k l r) = (wt l \<and> wt r \<and> getWidth l = getWidth r)"
| "wt_updates UpdateNil a = True"
| "wt_updates (UpdateNode i v n) a =
     (wt i \<and> wt v \<and> getWidth i = arr_domain a \<and> getWidth v = arr_range a \<and> wt_updates n a)"

lemma wt_width_pos: "wt e \<Longrightarrow> 0 < getWidth e"
  by (induction e rule: expr.induct [where ?P2.0 = "\<lambda>_. True"])
    (auto simp: wf_ap_def wf_array_def intro: bv_width_pos)

subsection \<open>Meaning\<close>

text \<open>
  An assignment gives the initial contents of every array at every index. A constant array holds its
  values, within its size.
\<close>

type_synonym assignment = "array \<Rightarrow> int \<Rightarrow> int"

definition initial_value :: "assignment \<Rightarrow> array \<Rightarrow> int \<Rightarrow> int" where
  "initial_value \<sigma> a i =
     (if isConstantArray a \<and> 0 \<le> i \<and> i < int (arr_size a)
      then getZExtValue (constantValues a ! nat i) else \<sigma> a i)"

primrec eval :: "assignment \<Rightarrow> expr \<Rightarrow> int"
  and eval_read :: "assignment \<Rightarrow> updates \<Rightarrow> array \<Rightarrow> int \<Rightarrow> int" where
  "eval \<sigma> (ConstantExpr c) = getZExtValue c"
| "eval \<sigma> (NotOptimizedExpr e) = eval \<sigma> e"
| "eval \<sigma> (ReadExpr a us i) = eval_read \<sigma> us a (eval \<sigma> i)"
| "eval \<sigma> (SelectExpr c t f) = (if eval \<sigma> c \<noteq> 0 then eval \<sigma> t else eval \<sigma> f)"
| "eval \<sigma> (ConcatExpr l r) = concat_bit (getWidth r) (eval \<sigma> r) (eval \<sigma> l)"
| "eval \<sigma> (ExtractExpr e off w) = take_bit w (drop_bit off (eval \<sigma> e))"
| "eval \<sigma> (ZExtExpr e w) = take_bit w (eval \<sigma> e)"
| "eval \<sigma> (SExtExpr e w) = take_bit w (sval (getWidth e) (eval \<sigma> e))"
| "eval \<sigma> (NotExpr e) = take_bit (getWidth e) (NOT (eval \<sigma> e))"
| "eval \<sigma> (BinaryExpr k l r) = bv_bin k (getWidth l) (eval \<sigma> l) (eval \<sigma> r)"
| "eval_read \<sigma> UpdateNil a i = initial_value \<sigma> a i"
| "eval_read \<sigma> (UpdateNode ui uv n) a i =
     (if eval \<sigma> ui = i then eval \<sigma> uv else eval_read \<sigma> n a i)"

definition assign_ok :: "assignment \<Rightarrow> bool" where
  "assign_ok \<sigma> \<longleftrightarrow> (\<forall>a i. inr (arr_range a) (\<sigma> a i))"

lemma initial_value_inr:
  assumes "assign_ok \<sigma>" "wf_array a"
  shows "inr (arr_range a) (initial_value \<sigma> a i)"
proof (cases "isConstantArray a \<and> 0 \<le> i \<and> i < int (arr_size a)")
  case True
  with assms have "constantValues a ! nat i \<in> set (constantValues a)"
    by (auto simp: isConstantArray_def isSymbolicArray_def wf_array_def nat_less_iff intro!: nth_mem)
  with True assms show ?thesis
    by (auto simp: initial_value_def wf_array_def wf_ap_def)
next
  case False
  with assms show ?thesis by (auto simp: initial_value_def assign_ok_def)
qed

lemma inr_concat_bit:
  assumes "inr m a" "inr n b" shows "inr (n + m) (concat_bit n b a)"
proof -
  have "take_bit (n + m) (concat_bit n b a) = concat_bit n b (take_bit m a)"
    by (rule bit_eqI) (auto simp: bit_simps)
  with assms show ?thesis by (simp add: inr_iff_take_bit)
qed

lemma eval_inr_aux:
  assumes "assign_ok \<sigma>"
  shows "wt e \<Longrightarrow> inr (getWidth e) (eval \<sigma> e)"
    and "wf_array a \<Longrightarrow> wt_updates us a \<Longrightarrow> inr (arr_range a) (eval_read \<sigma> us a i)"
proof (induction e and us arbitrary: and a i)
  case (ConcatExpr l r)
  then show ?case using inr_concat_bit [of "getWidth l" _ "getWidth r"] by (simp add: add.commute)
next
  case (UpdateNil a)
  then show ?case using initial_value_inr assms by simp
qed (auto simp: wf_ap_def bv_bin_inr)

lemmas eval_inr = eval_inr_aux(1)

lemma eval_bool: "assign_ok \<sigma> \<Longrightarrow> wt e \<Longrightarrow> getWidth e = 1 \<Longrightarrow> eval \<sigma> e = 0 \<or> eval \<sigma> e = 1"
  using eval_inr [of \<sigma> e] inr_Suc0D by simp

end
