(* ===== verification/ExprCreate.thy ===== *)
theory ExprCreate
  imports Expr
begin

section \<open>Expression construction (lib/Expr/Expr.cpp)\<close>

text \<open>
  The smart constructors of \<^verbatim>\<open>lib/Expr/Expr.cpp\<close>: constant folding, the canonicalising static
  functions \<open>..._create\<close>, \<open>..._createPartial\<close>, \<open>..._createPartialR\<close>, and the class methods
  \<^verbatim>\<open>XExpr::create\<close>, which are called \<open>X_make\<close> here because the source has a static function
  \<open>XExpr_create\<close> beside the method. The method's width assertions are the typing hypotheses of the
  theorems; that every expression built is well typed again (theory \<open>ExprCreateSound\<close>) says that no
  nested call breaks them.

  The environment of the construction is the bit-vector library and the command line option
  \<open>ConstArrayOpt\<close>.
\<close>

record expr_env = apint_ops +
  ConstArrayOpt :: bool

subsection \<open>Operations on constants\<close>

definition ConstantExpr_alloc :: "'z expr_env_scheme \<Rightarrow> int \<Rightarrow> nat \<Rightarrow> apint" where
  "ConstantExpr_alloc K v w = ap_make K w v"

definition CE_Concat :: "'z expr_env_scheme \<Rightarrow> apint \<Rightarrow> apint \<Rightarrow> apint" where
  "CE_Concat K l r =
     (let W = getBitWidth l + getBitWidth r;
          tmp = ap_zext K l W;
          tmp2 = ap_shl_n K tmp (getBitWidth r)
      in ap_arith K Or tmp2 (ap_zext K r W))"

definition CE_Extract :: "'z expr_env_scheme \<Rightarrow> apint \<Rightarrow> nat \<Rightarrow> nat \<Rightarrow> apint" where
  "CE_Extract K c off w = ap_zextOrTrunc K (ap_ashr_n K c off) w"

definition CE_ZExt :: "'z expr_env_scheme \<Rightarrow> apint \<Rightarrow> nat \<Rightarrow> apint" where
  "CE_ZExt K c w = ap_zextOrTrunc K c w"

definition CE_SExt :: "'z expr_env_scheme \<Rightarrow> apint \<Rightarrow> nat \<Rightarrow> apint" where
  "CE_SExt K c w = ap_sextOrTrunc K c w"

text \<open>\<^verbatim>\<open>ConstantExpr::Add .. AShr\<close> and \<^verbatim>\<open>ConstantExpr::Eq .. Sge\<close>, whose result is a boolean.\<close>

definition CE_binary :: "'z expr_env_scheme \<Rightarrow> binop \<Rightarrow> apint \<Rightarrow> apint \<Rightarrow> apint" where
  "CE_binary K k l r =
     (if is_cmp k then ConstantExpr_alloc K (of_bool (ap_cmp K k l r)) 1 else ap_arith K k l r)"

definition CE_Neg :: "'z expr_env_scheme \<Rightarrow> apint \<Rightarrow> apint" where
  "CE_Neg K c = ap_neg K c"

definition CE_Not :: "'z expr_env_scheme \<Rightarrow> apint \<Rightarrow> apint" where
  "CE_Not K c = ap_not K c"

subsection \<open>The method macros\<close>

text \<open>
  \<^verbatim>\<open>BCREATE_R\<close> and \<^verbatim>\<open>CMPCREATE_T\<close> define a method from a folding operation and three static functions,
  \<^verbatim>\<open>BCREATE\<close> and \<^verbatim>\<open>CMPCREATE\<close> from one.
\<close>

definition BCREATE_R :: "'z expr_env_scheme \<Rightarrow> binop \<Rightarrow> (expr \<Rightarrow> expr \<Rightarrow> expr) \<Rightarrow>
    (expr \<Rightarrow> apint \<Rightarrow> expr) \<Rightarrow> (apint \<Rightarrow> expr \<Rightarrow> expr) \<Rightarrow> expr \<Rightarrow> expr \<Rightarrow> expr" where
  "BCREATE_R K k create partialL partialR l r =
     (case as_const l of
        Some cl \<Rightarrow>
          (case as_const r of Some cr \<Rightarrow> ConstantExpr (CE_binary K k cl cr)
           | None \<Rightarrow> partialR cl r)
      | None \<Rightarrow>
          (case as_const r of Some cr \<Rightarrow> partialL l cr
           | None \<Rightarrow> create l r))"

definition BCREATE :: "'z expr_env_scheme \<Rightarrow> binop \<Rightarrow> (expr \<Rightarrow> expr \<Rightarrow> expr) \<Rightarrow>
    expr \<Rightarrow> expr \<Rightarrow> expr" where
  "BCREATE K k create l r =
     (case as_const l of
        Some cl \<Rightarrow>
          (case as_const r of Some cr \<Rightarrow> ConstantExpr (CE_binary K k cl cr)
           | None \<Rightarrow> create l r)
      | None \<Rightarrow> create l r)"

subsection \<open>And, Or\<close>

definition AndExpr_createPartial :: "expr \<Rightarrow> apint \<Rightarrow> expr" where
  "AndExpr_createPartial l cr =
     (if ap_isAllOnes cr then l
      else if ap_isZero cr then ConstantExpr cr
      else BinaryExpr And l (ConstantExpr cr))"

definition AndExpr_createPartialR :: "apint \<Rightarrow> expr \<Rightarrow> expr" where
  "AndExpr_createPartialR cl r = AndExpr_createPartial r cl"

definition AndExpr_create :: "expr \<Rightarrow> expr \<Rightarrow> expr" where
  "AndExpr_create l r = BinaryExpr And l r"

definition And_make :: "'z expr_env_scheme \<Rightarrow> expr \<Rightarrow> expr \<Rightarrow> expr" where
  "And_make K = BCREATE_R K And AndExpr_create AndExpr_createPartial AndExpr_createPartialR"

definition OrExpr_createPartial :: "expr \<Rightarrow> apint \<Rightarrow> expr" where
  "OrExpr_createPartial l cr =
     (if ap_isAllOnes cr then ConstantExpr cr
      else if ap_isZero cr then l
      else BinaryExpr Or l (ConstantExpr cr))"

definition OrExpr_createPartialR :: "apint \<Rightarrow> expr \<Rightarrow> expr" where
  "OrExpr_createPartialR cl r = OrExpr_createPartial r cl"

definition OrExpr_create :: "expr \<Rightarrow> expr \<Rightarrow> expr" where
  "OrExpr_create l r = BinaryExpr Or l r"

definition Or_make :: "'z expr_env_scheme \<Rightarrow> expr \<Rightarrow> expr \<Rightarrow> expr" where
  "Or_make K = BCREATE_R K Or OrExpr_create OrExpr_createPartial OrExpr_createPartialR"

subsection \<open>Eq\<close>

definition EqExpr_create :: "'z expr_env_scheme \<Rightarrow> expr \<Rightarrow> expr \<Rightarrow> expr" where
  "EqExpr_create K l r =
     (if l = r then ConstantExpr (ConstantExpr_alloc K 1 1) else BinaryExpr Eq l r)"

text \<open>
  \<open>EqExpr_createPartialR\<close> with \<^verbatim>\<open>TryConstArrayOpt\<close> (the positions of a constant array that hold the
  constant, as a disjunction of equalities on the index, unless there are more than 100), and the
  method \<^verbatim>\<open>EqExpr::create\<close>. \<^verbatim>\<open>createIsZero(e)\<close> is \<open>Eq_make K e 0\<close>, written out here because it is part
  of the recursion.
\<close>

definition const_matches :: "apint \<Rightarrow> array \<Rightarrow> nat list" where
  "const_matches cl a = filter (\<lambda>i. cl = constantValues a ! i) [0..<arr_size a]"

function EqExpr_createPartialR :: "'z expr_env_scheme \<Rightarrow> apint \<Rightarrow> expr \<Rightarrow> expr"
  and Eq_make :: "'z expr_env_scheme \<Rightarrow> expr \<Rightarrow> expr \<Rightarrow> expr" where
  "EqExpr_createPartialR K cl r =
     (if getBitWidth cl = 1 then
        if ap_isTrue cl then r
        else (case r of
            BinaryExpr Eq left right \<Rightarrow>
              (case as_const left of
                 Some ce \<Rightarrow>
                   if getBitWidth ce = 1 \<and> ap_isFalse ce then right
                   else EqExpr_create K (ConstantExpr cl) r
               | None \<Rightarrow> EqExpr_create K (ConstantExpr cl) r)
          | BinaryExpr Or left right \<Rightarrow>
              And_make K
                (Eq_make K left (ConstantExpr (ConstantExpr_alloc K 0 (getWidth left))))
                (Eq_make K right (ConstantExpr (ConstantExpr_alloc K 0 (getWidth right))))
          | _ \<Rightarrow> EqExpr_create K (ConstantExpr cl) r)
      else (case r of
            SExtExpr src w \<Rightarrow>
              (let trunc = CE_ZExt K cl (getWidth src) in
               if cl = CE_SExt K trunc (getBitWidth cl)
               then Eq_make K src (ConstantExpr trunc)
               else ConstantExpr (ConstantExpr_alloc K 0 1))
          | ZExtExpr src w \<Rightarrow>
              (let trunc = CE_ZExt K cl (getWidth src) in
               if cl = CE_ZExt K trunc (getBitWidth cl)
               then Eq_make K src (ConstantExpr trunc)
               else ConstantExpr (ConstantExpr_alloc K 0 1))
          | BinaryExpr Add left right \<Rightarrow>
              (case as_const left of
                 Some c1 \<Rightarrow> EqExpr_createPartialR K (CE_binary K Sub cl c1) right
               | None \<Rightarrow> EqExpr_create K (ConstantExpr cl) r)
          | BinaryExpr Sub left right \<Rightarrow>
              (case as_const left of
                 Some c1 \<Rightarrow> EqExpr_createPartialR K (CE_binary K Sub c1 cl) right
               | None \<Rightarrow> EqExpr_create K (ConstantExpr cl) r)
          | ReadExpr a us index \<Rightarrow>
              if ConstArrayOpt K then
                if isSymbolicArray a \<or> updates_getSize us \<noteq> 0 \<or> 100 < length (const_matches cl a)
                then EqExpr_create K (ConstantExpr cl) r
                else foldl (Or_make K) (ConstantExpr (ConstantExpr_alloc K 0 1))
                  (map (\<lambda>i. Eq_make K index (ConstantExpr (ConstantExpr_alloc K (int i) (getWidth index))))
                    (const_matches cl a))
              else EqExpr_create K (ConstantExpr cl) r
          | _ \<Rightarrow> EqExpr_create K (ConstantExpr cl) r))"
| "Eq_make K l r =
     (case as_const l of
        Some cl \<Rightarrow>
          (case as_const r of Some cr \<Rightarrow> ConstantExpr (CE_binary K Eq cl cr)
           | None \<Rightarrow> EqExpr_createPartialR K cl r)
      | None \<Rightarrow>
          (case as_const r of Some cr \<Rightarrow> EqExpr_createPartialR K cr l
           | None \<Rightarrow> EqExpr_create K l r))"
  by pat_completeness auto
termination
  by (relation "measure (\<lambda>x. case x of
      Inl (K, cl, r) \<Rightarrow> 2 * size r | Inr (K, l, r) \<Rightarrow> 2 * (size l + size r) + 1)") auto

declare EqExpr_createPartialR.simps [simp del] Eq_make.simps [simp del]

definition EqExpr_createPartial :: "'z expr_env_scheme \<Rightarrow> expr \<Rightarrow> apint \<Rightarrow> expr" where
  "EqExpr_createPartial K l cr = EqExpr_createPartialR K cr l"

definition createIsZero :: "'z expr_env_scheme \<Rightarrow> expr \<Rightarrow> expr" where
  "createIsZero K e = Eq_make K e (ConstantExpr (ConstantExpr_alloc K 0 (getWidth e)))"

lemma Eq_make_macro:
  "Eq_make K = BCREATE_R K Eq (EqExpr_create K) (EqExpr_createPartial K) (EqExpr_createPartialR K)"
  by (rule ext, rule ext)
    (simp add: Eq_make.simps BCREATE_R_def EqExpr_createPartial_def split: option.split)

subsection \<open>Xor\<close>

definition XorExpr_createPartialR :: "'z expr_env_scheme \<Rightarrow> apint \<Rightarrow> expr \<Rightarrow> expr" where
  "XorExpr_createPartialR K cl r =
     (if ap_isZero cl then r
      else if getBitWidth cl = 1
      then EqExpr_createPartial K r (ConstantExpr_alloc K 0 1)
      else BinaryExpr Xor (ConstantExpr cl) r)"

definition XorExpr_createPartial :: "'z expr_env_scheme \<Rightarrow> expr \<Rightarrow> apint \<Rightarrow> expr" where
  "XorExpr_createPartial K l cr = XorExpr_createPartialR K cr l"

definition XorExpr_create :: "expr \<Rightarrow> expr \<Rightarrow> expr" where
  "XorExpr_create l r = BinaryExpr Xor l r"

definition Xor_make :: "'z expr_env_scheme \<Rightarrow> expr \<Rightarrow> expr \<Rightarrow> expr" where
  "Xor_make K =
     BCREATE_R K Xor XorExpr_create (XorExpr_createPartial K) (XorExpr_createPartialR K)"

subsection \<open>Add, Sub\<close>

text \<open>
  The two methods and their static functions call one another. The recursion is layered: with a
  constant on the left every call goes to a subexpression of the other operand
  (\<open>Add_const K c d\<close> is \<^verbatim>\<open>AddExpr::create(c, d)\<close>, \<open>Sub_const K c d\<close> is \<^verbatim>\<open>SubExpr::create(c, d)\<close>),
  and without one the result of the inner call is only ever combined with a constant. The lemmas
  \<open>AddExpr_create_source\<close> and \<open>SubExpr_create_source\<close> give the equations as the source writes them.
\<close>

text \<open>\<open>const_lhs k e\<close>: \<open>e\<close> is a \<open>k\<close> expression with a constant left operand; its operands.\<close>

fun const_lhs :: "binop \<Rightarrow> expr \<Rightarrow> (apint \<times> expr) option" where
  "const_lhs k (BinaryExpr k' (ConstantExpr c) d) = (if k = k' then Some (c, d) else None)"
| "const_lhs k _ = None"

lemma const_lhs_Some:
  "const_lhs k e = Some (c, d) \<longleftrightarrow> e = BinaryExpr k (ConstantExpr c) d"
  by (cases "(k, e)" rule: const_lhs.cases) auto

lemma const_lhs_size [termination_simp]: "const_lhs k e = Some (c, d) \<Longrightarrow> size d < size e"
  by (simp add: const_lhs_Some)

function AddExpr_createPartialR :: "'z expr_env_scheme \<Rightarrow> apint \<Rightarrow> expr \<Rightarrow> expr"
  and Add_const :: "'z expr_env_scheme \<Rightarrow> apint \<Rightarrow> expr \<Rightarrow> expr"
  and SubExpr_createPartialR :: "'z expr_env_scheme \<Rightarrow> apint \<Rightarrow> expr \<Rightarrow> expr"
  and Sub_const :: "'z expr_env_scheme \<Rightarrow> apint \<Rightarrow> expr \<Rightarrow> expr" where
  "AddExpr_createPartialR K cl r =
     (if getBitWidth cl = 1 then XorExpr_createPartialR K cl r
      else if ap_isZero cl then r
      else (case const_lhs Add r of Some (c, d) \<Rightarrow> Add_const K (CE_binary K Add cl c) d
      | None \<Rightarrow> (case const_lhs Sub r of Some (c, d) \<Rightarrow> Sub_const K (CE_binary K Add cl c) d
      | None \<Rightarrow> BinaryExpr Add (ConstantExpr cl) r)))"
| "Add_const K cl r =
     (case as_const r of Some cr \<Rightarrow> ConstantExpr (CE_binary K Add cl cr)
      | None \<Rightarrow> AddExpr_createPartialR K cl r)"
| "SubExpr_createPartialR K cl r =
     (if getBitWidth cl = 1 then XorExpr_createPartialR K cl r
      else (case const_lhs Add r of Some (c, d) \<Rightarrow> Sub_const K (CE_binary K Sub cl c) d
      | None \<Rightarrow> (case const_lhs Sub r of Some (c, d) \<Rightarrow> Add_const K (CE_binary K Sub cl c) d
      | None \<Rightarrow> BinaryExpr Sub (ConstantExpr cl) r)))"
| "Sub_const K cl r =
     (case as_const r of Some cr \<Rightarrow> ConstantExpr (CE_binary K Sub cl cr)
      | None \<Rightarrow> SubExpr_createPartialR K cl r)"
  by pat_completeness auto
termination
  by (relation "measure (\<lambda>x. case x of
      Inl (Inl (K, cl, r)) \<Rightarrow> 2 * size r | Inl (Inr (K, cl, r)) \<Rightarrow> 2 * size r + 1
    | Inr (Inl (K, cl, r)) \<Rightarrow> 2 * size r | Inr (Inr (K, cl, r)) \<Rightarrow> 2 * size r + 1)")
    (auto dest!: const_lhs_size)

declare AddExpr_createPartialR.simps [simp del] Add_const.simps [simp del]
  SubExpr_createPartialR.simps [simp del] Sub_const.simps [simp del]

definition AddExpr_createPartial :: "'z expr_env_scheme \<Rightarrow> expr \<Rightarrow> apint \<Rightarrow> expr" where
  "AddExpr_createPartial K l cr = AddExpr_createPartialR K cr l"

text \<open>\<^verbatim>\<open>l - c => l + (-c)\<close>\<close>

definition SubExpr_createPartial :: "'z expr_env_scheme \<Rightarrow> expr \<Rightarrow> apint \<Rightarrow> expr" where
  "SubExpr_createPartial K l cr =
     AddExpr_createPartial K l (CE_binary K Sub (ConstantExpr_alloc K 0 (getBitWidth cr)) cr)"

text \<open>\<open>Sub_constR K l c\<close> is \<^verbatim>\<open>SubExpr::create(l, c)\<close>.\<close>

definition Sub_constR :: "'z expr_env_scheme \<Rightarrow> expr \<Rightarrow> apint \<Rightarrow> expr" where
  "Sub_constR K l cr =
     (case as_const l of Some cl \<Rightarrow> ConstantExpr (CE_binary K Sub cl cr)
      | None \<Rightarrow> SubExpr_createPartial K l cr)"

function AddExpr_create :: "'z expr_env_scheme \<Rightarrow> expr \<Rightarrow> expr \<Rightarrow> expr"
  and Add_make :: "'z expr_env_scheme \<Rightarrow> expr \<Rightarrow> expr \<Rightarrow> expr"
  and SubExpr_create :: "'z expr_env_scheme \<Rightarrow> expr \<Rightarrow> expr \<Rightarrow> expr"
  and Sub_make :: "'z expr_env_scheme \<Rightarrow> expr \<Rightarrow> expr \<Rightarrow> expr" where
  "AddExpr_create K l r =
     (if getWidth l = 1 then XorExpr_create l r
      else (case const_lhs Add l of Some (k, a) \<Rightarrow> Add_const K k (Add_make K a r)
      | None \<Rightarrow> (case const_lhs Sub l of Some (k, a) \<Rightarrow> Add_const K k (Sub_make K r a)
      | None \<Rightarrow> (case const_lhs Add r of Some (k, b) \<Rightarrow> Add_const K k (Add_make K l b)
      | None \<Rightarrow> (case const_lhs Sub r of Some (k, b) \<Rightarrow> Add_const K k (Sub_make K l b)
      | None \<Rightarrow> BinaryExpr Add l r)))))"
| "Add_make K l r =
     (case as_const l of
        Some cl \<Rightarrow>
          (case as_const r of Some cr \<Rightarrow> ConstantExpr (CE_binary K Add cl cr)
           | None \<Rightarrow> AddExpr_createPartialR K cl r)
      | None \<Rightarrow>
          (case as_const r of Some cr \<Rightarrow> AddExpr_createPartial K l cr
           | None \<Rightarrow> AddExpr_create K l r))"
| "SubExpr_create K l r =
     (if getWidth l = 1 then XorExpr_create l r
      else if l = r then ConstantExpr (ConstantExpr_alloc K 0 (getWidth l))
      else (case const_lhs Add l of Some (k, a) \<Rightarrow> Add_const K k (Sub_make K a r)
      | None \<Rightarrow> (case const_lhs Sub l of Some (k, a) \<Rightarrow> Sub_const K k (Add_make K a r)
      | None \<Rightarrow> (case const_lhs Add r of Some (k, b) \<Rightarrow> Sub_constR K (Sub_make K l b) k
      | None \<Rightarrow> (case const_lhs Sub r of Some (k, b) \<Rightarrow> Sub_constR K (Add_make K l b) k
      | None \<Rightarrow> BinaryExpr Sub l r)))))"
| "Sub_make K l r =
     (case as_const l of
        Some cl \<Rightarrow>
          (case as_const r of Some cr \<Rightarrow> ConstantExpr (CE_binary K Sub cl cr)
           | None \<Rightarrow> SubExpr_createPartialR K cl r)
      | None \<Rightarrow>
          (case as_const r of Some cr \<Rightarrow> SubExpr_createPartial K l cr
           | None \<Rightarrow> SubExpr_create K l r))"
  by pat_completeness auto
termination
  by (relation "measure (\<lambda>x. case x of
      Inl (Inl (K, l, r)) \<Rightarrow> 2 * (size l + size r) | Inl (Inr (K, l, r)) \<Rightarrow> 2 * (size l + size r) + 1
    | Inr (Inl (K, l, r)) \<Rightarrow> 2 * (size l + size r) | Inr (Inr (K, l, r)) \<Rightarrow> 2 * (size l + size r) + 1)")
    (auto dest!: const_lhs_size)

declare AddExpr_create.simps [simp del] Add_make.simps [simp del]
  SubExpr_create.simps [simp del] Sub_make.simps [simp del]

lemma Add_make_macro:
  "Add_make K = BCREATE_R K Add (AddExpr_create K) (AddExpr_createPartial K) (AddExpr_createPartialR K)"
  by (rule ext, rule ext) (simp add: Add_make.simps BCREATE_R_def)

lemma Sub_make_macro:
  "Sub_make K = BCREATE_R K Sub (SubExpr_create K) (SubExpr_createPartial K) (SubExpr_createPartialR K)"
  by (rule ext, rule ext) (simp add: Sub_make.simps BCREATE_R_def)

lemma Add_const_method: "Add_const K c d = Add_make K (ConstantExpr c) d"
  by (simp add: Add_make.simps Add_const.simps)

lemma Sub_const_method: "Sub_const K c d = Sub_make K (ConstantExpr c) d"
  by (simp add: Sub_make.simps Sub_const.simps)

lemma Sub_constR_method: "Sub_constR K l c = Sub_make K l (ConstantExpr c)"
  by (cases l) (simp_all add: Sub_make.simps Sub_constR_def)

text \<open>The static functions with every call of a method as in the source.\<close>

lemma AddExpr_createPartialR_source:
  "AddExpr_createPartialR K cl r =
     (if getBitWidth cl = 1 then XorExpr_createPartialR K cl r
      else if ap_isZero cl then r
      else (case const_lhs Add r of
          Some (c, d) \<Rightarrow> Add_make K (Add_make K (ConstantExpr cl) (ConstantExpr c)) d
      | None \<Rightarrow> (case const_lhs Sub r of
          Some (c, d) \<Rightarrow> Sub_make K (Add_make K (ConstantExpr cl) (ConstantExpr c)) d
      | None \<Rightarrow> BinaryExpr Add (ConstantExpr cl) r)))"
  by (subst AddExpr_createPartialR.simps)
    (simp add: Add_const_method Sub_const_method Add_make.simps [of K "ConstantExpr _" "ConstantExpr _"]
      split: option.split prod.split)

lemma AddExpr_create_source:
  "AddExpr_create K l r =
     (if getWidth l = 1 then XorExpr_create l r
      else (case const_lhs Add l of Some (k, a) \<Rightarrow> Add_make K (ConstantExpr k) (Add_make K a r)
      | None \<Rightarrow> (case const_lhs Sub l of Some (k, a) \<Rightarrow> Add_make K (ConstantExpr k) (Sub_make K r a)
      | None \<Rightarrow> (case const_lhs Add r of Some (k, b) \<Rightarrow> Add_make K (ConstantExpr k) (Add_make K l b)
      | None \<Rightarrow> (case const_lhs Sub r of Some (k, b) \<Rightarrow> Add_make K (ConstantExpr k) (Sub_make K l b)
      | None \<Rightarrow> BinaryExpr Add l r)))))"
  by (subst AddExpr_create.simps) (simp add: Add_const_method split: option.split)

lemma SubExpr_createPartialR_source:
  "SubExpr_createPartialR K cl r =
     (if getBitWidth cl = 1 then XorExpr_createPartialR K cl r
      else (case const_lhs Add r of
          Some (c, d) \<Rightarrow> Sub_make K (Sub_make K (ConstantExpr cl) (ConstantExpr c)) d
      | None \<Rightarrow> (case const_lhs Sub r of
          Some (c, d) \<Rightarrow> Add_make K (Sub_make K (ConstantExpr cl) (ConstantExpr c)) d
      | None \<Rightarrow> BinaryExpr Sub (ConstantExpr cl) r)))"
  by (subst SubExpr_createPartialR.simps)
    (simp add: Add_const_method Sub_const_method Sub_make.simps [of K "ConstantExpr _" "ConstantExpr _"]
      split: option.split prod.split)

lemma SubExpr_create_source:
  "SubExpr_create K l r =
     (if getWidth l = 1 then XorExpr_create l r
      else if l = r then ConstantExpr (ConstantExpr_alloc K 0 (getWidth l))
      else (case const_lhs Add l of Some (k, a) \<Rightarrow> Add_make K (ConstantExpr k) (Sub_make K a r)
      | None \<Rightarrow> (case const_lhs Sub l of Some (k, a) \<Rightarrow> Sub_make K (ConstantExpr k) (Add_make K a r)
      | None \<Rightarrow> (case const_lhs Add r of Some (k, b) \<Rightarrow> Sub_make K (Sub_make K l b) (ConstantExpr k)
      | None \<Rightarrow> (case const_lhs Sub r of Some (k, b) \<Rightarrow> Sub_make K (Add_make K l b) (ConstantExpr k)
      | None \<Rightarrow> BinaryExpr Sub l r)))))"
  by (subst SubExpr_create.simps)
    (simp add: Add_const_method Sub_const_method Sub_constR_method split: option.split)

subsection \<open>Mul, division, shifts\<close>

definition MulExpr_createPartialR :: "apint \<Rightarrow> expr \<Rightarrow> expr" where
  "MulExpr_createPartialR cl r =
     (if getBitWidth cl = 1 then AndExpr_createPartialR cl r
      else if ap_isOne cl then r
      else if ap_isZero cl then ConstantExpr cl
      else BinaryExpr Mul (ConstantExpr cl) r)"

definition MulExpr_createPartial :: "expr \<Rightarrow> apint \<Rightarrow> expr" where
  "MulExpr_createPartial l cr = MulExpr_createPartialR cr l"

definition MulExpr_create :: "expr \<Rightarrow> expr \<Rightarrow> expr" where
  "MulExpr_create l r = (if getWidth l = 1 then BinaryExpr And l r else BinaryExpr Mul l r)"

definition Mul_make :: "'z expr_env_scheme \<Rightarrow> expr \<Rightarrow> expr \<Rightarrow> expr" where
  "Mul_make K = BCREATE_R K Mul MulExpr_create MulExpr_createPartial MulExpr_createPartialR"

text \<open>Division of booleans: \<^verbatim>\<open>r must be 1\<close>.\<close>

definition UDivExpr_create :: "expr \<Rightarrow> expr \<Rightarrow> expr" where
  "UDivExpr_create l r = (if getWidth l = 1 then l else BinaryExpr UDiv l r)"

definition SDivExpr_create :: "expr \<Rightarrow> expr \<Rightarrow> expr" where
  "SDivExpr_create l r = (if getWidth l = 1 then l else BinaryExpr SDiv l r)"

definition URemExpr_create :: "'z expr_env_scheme \<Rightarrow> expr \<Rightarrow> expr \<Rightarrow> expr" where
  "URemExpr_create K l r =
     (if getWidth l = 1 then ConstantExpr (ConstantExpr_alloc K 0 1) else BinaryExpr URem l r)"

definition SRemExpr_create :: "'z expr_env_scheme \<Rightarrow> expr \<Rightarrow> expr \<Rightarrow> expr" where
  "SRemExpr_create K l r =
     (if getWidth l = 1 then ConstantExpr (ConstantExpr_alloc K 0 1) else BinaryExpr SRem l r)"

definition ShlExpr_create :: "'z expr_env_scheme \<Rightarrow> expr \<Rightarrow> expr \<Rightarrow> expr" where
  "ShlExpr_create K l r =
     (if getWidth l = 1 then And_make K l (createIsZero K r) else BinaryExpr Shl l r)"

definition LShrExpr_create :: "'z expr_env_scheme \<Rightarrow> expr \<Rightarrow> expr \<Rightarrow> expr" where
  "LShrExpr_create K l r =
     (if getWidth l = 1 then And_make K l (createIsZero K r) else BinaryExpr LShr l r)"

definition AShrExpr_create :: "expr \<Rightarrow> expr \<Rightarrow> expr" where
  "AShrExpr_create l r = (if getWidth l = 1 then l else BinaryExpr AShr l r)"

subsection \<open>Comparisons\<close>

definition UltExpr_create :: "'z expr_env_scheme \<Rightarrow> expr \<Rightarrow> expr \<Rightarrow> expr" where
  "UltExpr_create K l r =
     (if getWidth l = 1 then And_make K (createIsZero K l) r else BinaryExpr Ult l r)"

definition UleExpr_create :: "'z expr_env_scheme \<Rightarrow> expr \<Rightarrow> expr \<Rightarrow> expr" where
  "UleExpr_create K l r =
     (if getWidth l = 1 then Or_make K (createIsZero K l) r else BinaryExpr Ule l r)"

definition SltExpr_create :: "'z expr_env_scheme \<Rightarrow> expr \<Rightarrow> expr \<Rightarrow> expr" where
  "SltExpr_create K l r =
     (if getWidth l = 1 then And_make K l (createIsZero K r) else BinaryExpr Slt l r)"

definition SleExpr_create :: "'z expr_env_scheme \<Rightarrow> expr \<Rightarrow> expr \<Rightarrow> expr" where
  "SleExpr_create K l r =
     (if getWidth l = 1 then Or_make K l (createIsZero K r) else BinaryExpr Sle l r)"

definition Ne_make :: "'z expr_env_scheme \<Rightarrow> expr \<Rightarrow> expr \<Rightarrow> expr" where
  "Ne_make K l r = Eq_make K (ConstantExpr (ConstantExpr_alloc K 0 1)) (Eq_make K l r)"

text \<open>
  The \<^verbatim>\<open>create\<close> method of every binary class: the macro instances, and \<^verbatim>\<open>Ugt\<close>, \<^verbatim>\<open>Uge\<close>, \<^verbatim>\<open>Sgt\<close>,
  \<^verbatim>\<open>Sge\<close> with the operands swapped.
\<close>

fun Binary_make :: "'z expr_env_scheme \<Rightarrow> binop \<Rightarrow> expr \<Rightarrow> expr \<Rightarrow> expr" where
  "Binary_make K Add l r = Add_make K l r"
| "Binary_make K Sub l r = Sub_make K l r"
| "Binary_make K Mul l r = Mul_make K l r"
| "Binary_make K And l r = And_make K l r"
| "Binary_make K Or l r = Or_make K l r"
| "Binary_make K Xor l r = Xor_make K l r"
| "Binary_make K UDiv l r = BCREATE K UDiv UDivExpr_create l r"
| "Binary_make K SDiv l r = BCREATE K SDiv SDivExpr_create l r"
| "Binary_make K URem l r = BCREATE K URem (URemExpr_create K) l r"
| "Binary_make K SRem l r = BCREATE K SRem (SRemExpr_create K) l r"
| "Binary_make K Shl l r = BCREATE K Shl (ShlExpr_create K) l r"
| "Binary_make K LShr l r = BCREATE K LShr (LShrExpr_create K) l r"
| "Binary_make K AShr l r = BCREATE K AShr AShrExpr_create l r"
| "Binary_make K Eq l r = Eq_make K l r"
| "Binary_make K Ne l r = Ne_make K l r"
| "Binary_make K Ult l r = BCREATE K Ult (UltExpr_create K) l r"
| "Binary_make K Ule l r = BCREATE K Ule (UleExpr_create K) l r"
| "Binary_make K Ugt l r = BCREATE K Ult (UltExpr_create K) r l"
| "Binary_make K Uge l r = BCREATE K Ule (UleExpr_create K) r l"
| "Binary_make K Slt l r = BCREATE K Slt (SltExpr_create K) l r"
| "Binary_make K Sle l r = BCREATE K Sle (SleExpr_create K) l r"
| "Binary_make K Sgt l r = BCREATE K Slt (SltExpr_create K) r l"
| "Binary_make K Sge l r = BCREATE K Sle (SleExpr_create K) r l"

definition createImplies :: "'z expr_env_scheme \<Rightarrow> expr \<Rightarrow> expr \<Rightarrow> expr" where
  "createImplies K hyp conc = Or_make K (createIsZero K hyp) conc"

subsection \<open>Concat, Extract, casts, Not\<close>

text \<open>
  \<^verbatim>\<open>ExtractExpr::create\<close> and \<^verbatim>\<open>ConcatExpr::create\<close>. An extract of a concatenation goes to the kids; a
  concatenation of two contiguous extracts of one expression goes back to an extract of it.
\<close>

function (domintros) Extract_make :: "'z expr_env_scheme \<Rightarrow> expr \<Rightarrow> nat \<Rightarrow> nat \<Rightarrow> expr"
  and Concat_make :: "'z expr_env_scheme \<Rightarrow> expr \<Rightarrow> expr \<Rightarrow> expr" where
  "Extract_make K e off w =
     (if w = getWidth e then e
      else (case e of
          ConstantExpr c \<Rightarrow> ConstantExpr (CE_Extract K c off w)
        | ConcatExpr l r \<Rightarrow>
            (if getWidth r \<le> off then Extract_make K l (off - getWidth r) w
             else if off + w \<le> getWidth r then Extract_make K r off w
             else Concat_make K (Extract_make K l 0 (w + off - getWidth r))
                    (Extract_make K r off (getWidth r - off)))
        | _ \<Rightarrow> ExtractExpr e off w))"
| "Concat_make K l r =
     (case (l, r) of
        (ConstantExpr lc, ConstantExpr rc) \<Rightarrow> ConstantExpr (CE_Concat K lc rc)
      | (ExtractExpr el ol wl, ExtractExpr er orr wr) \<Rightarrow>
          (if el = er \<and> orr + wr = ol then Extract_make K el orr (getWidth l + getWidth r)
           else ConcatExpr l r)
      | _ \<Rightarrow> ConcatExpr l r)"
  by pat_completeness auto

lemma extract_base_size:
  "Extract_make_Concat_make_dom (Inl (K, e, off, w)) \<Longrightarrow>
     Extract_make K e off w = ExtractExpr b off' w' \<Longrightarrow> size b \<le> size e"
  "Extract_make_Concat_make_dom (Inr (K, l, r)) \<Longrightarrow>
     Concat_make K l r = ExtractExpr b off' w' \<Longrightarrow>
     \<exists>b' off'' w''. l = ExtractExpr b' off'' w'' \<and> size b \<le> size b'"
proof (induction arbitrary: b off' w' and b off' w' rule: Extract_make_Concat_make.pinduct)
  case (1 K e off w)
  show ?case
  proof (cases "w = getWidth e")
    case True
    with "1.prems" "1.hyps" show ?thesis by (simp add: Extract_make.psimps)
  next
    case w: False
    show ?thesis
    proof (cases e)
      case (ConcatExpr l r)
      note IH = "1.IH" [OF w ConcatExpr]
      consider "getWidth r \<le> off" | "\<not> getWidth r \<le> off" "off + w \<le> getWidth r"
        | "\<not> getWidth r \<le> off" "\<not> off + w \<le> getWidth r" by blast
      then show ?thesis
      proof cases
        case 3
        then obtain b' off'' w'' where
          l: "Extract_make K l 0 (w + off - getWidth r) = ExtractExpr b' off'' w''" and "size b \<le> size b'"
          using "1.prems" "1.hyps" w ConcatExpr IH(5) by (auto simp: Extract_make.psimps)
        with IH(3) [OF 3 l] ConcatExpr show ?thesis by simp
      qed (use "1.prems" "1.hyps" w ConcatExpr IH(1,2) in \<open>fastforce simp: Extract_make.psimps\<close>)+
    qed (use "1.prems" "1.hyps" w in \<open>simp_all add: Extract_make.psimps\<close>)
  qed
next
  case (2 K l r)
  from "2.prems" "2.hyps" obtain el ol wl orr wr where
    l: "l = ExtractExpr el ol wl" and r: "r = ExtractExpr el orr wr" and ol: "orr + wr = ol"
    and m: "Extract_make K el orr (getWidth l + getWidth r) = ExtractExpr b off' w'"
    by (auto simp: Concat_make.psimps split: expr.splits if_splits)
  from "2.IH" [OF refl l r _ m] ol l show ?case by simp
qed

termination Extract_make
proof (relation "measure (\<lambda>x. case x of
      Inl (K, e, off, w) \<Rightarrow> 2 * size e + 1
    | Inr (K, l, r) \<Rightarrow> (case l of ExtractExpr b off w \<Rightarrow> 2 * size b + 2 | _ \<Rightarrow> 0))", goal_cases)
  case (6 K e off w l r)
  then show ?case by (auto split: expr.split dest: extract_base_size(1))
qed auto

declare Extract_make.simps [simp del] Concat_make.simps [simp del]

text \<open>\<^verbatim>\<open>ConcatExpr::createN\<close> (at least one kid), \<open>create4\<close>, \<open>create8\<close>: chains to the right.\<close>

fun Concat_createN :: "'z expr_env_scheme \<Rightarrow> expr list \<Rightarrow> expr option" where
  "Concat_createN K [] = None"
| "Concat_createN K [k] = Some k"
| "Concat_createN K (k # k' # ks) = map_option (Concat_make K k) (Concat_createN K (k' # ks))"

definition Concat_create4 :: "'z expr_env_scheme \<Rightarrow> expr \<Rightarrow> expr \<Rightarrow> expr \<Rightarrow> expr \<Rightarrow> expr" where
  "Concat_create4 K k1 k2 k3 k4 = Concat_make K k1 (Concat_make K k2 (Concat_make K k3 k4))"

definition Concat_create8 :: "'z expr_env_scheme \<Rightarrow> expr \<Rightarrow> expr \<Rightarrow> expr \<Rightarrow> expr \<Rightarrow>
    expr \<Rightarrow> expr \<Rightarrow> expr \<Rightarrow> expr \<Rightarrow> expr" where
  "Concat_create8 K k1 k2 k3 k4 k5 k6 k7 k8 =
     Concat_make K k1 (Concat_make K k2 (Concat_make K k3
       (Concat_make K k4 (Concat_create4 K k5 k6 k7 k8))))"

definition Not_make :: "'z expr_env_scheme \<Rightarrow> expr \<Rightarrow> expr" where
  "Not_make K e = (case as_const e of Some c \<Rightarrow> ConstantExpr (CE_Not K c) | None \<Rightarrow> NotExpr e)"

definition ZExt_make :: "'z expr_env_scheme \<Rightarrow> expr \<Rightarrow> nat \<Rightarrow> expr" where
  "ZExt_make K e w =
     (let kBits = getWidth e in
      if w = kBits then e
      else if w < kBits then Extract_make K e 0 w
      else (case as_const e of Some c \<Rightarrow> ConstantExpr (CE_ZExt K c w) | None \<Rightarrow> ZExtExpr e w))"

definition SExt_make :: "'z expr_env_scheme \<Rightarrow> expr \<Rightarrow> nat \<Rightarrow> expr" where
  "SExt_make K e w =
     (let kBits = getWidth e in
      if w = kBits then e
      else if w < kBits then Extract_make K e 0 w
      else (case as_const e of Some c \<Rightarrow> ConstantExpr (CE_SExt K c w) | None \<Rightarrow> SExtExpr e w))"

subsection \<open>Read, Select\<close>

text \<open>
  The loop of \<^verbatim>\<open>ReadExpr::create\<close>: rolls the index back through the writes whose index it provably
  differs from, and returns the value of the first write it provably hits.
\<close>

fun Read_scan :: "'z expr_env_scheme \<Rightarrow> expr \<Rightarrow> updates \<Rightarrow> expr option" where
  "Read_scan K index UpdateNil = None"
| "Read_scan K index (UpdateNode ui uv un) =
     (case as_const (Eq_make K index ui) of
        Some ce \<Rightarrow> if ap_isTrue ce then Some uv else Read_scan K index un
      | None \<Rightarrow> None)"

definition Read_make :: "'z expr_env_scheme \<Rightarrow> array \<Rightarrow> updates \<Rightarrow> expr \<Rightarrow> expr" where
  "Read_make K root head index =
     (case Read_scan K index head of Some v \<Rightarrow> v | None \<Rightarrow> ReadExpr root head index)"

definition Select_make :: "'z expr_env_scheme \<Rightarrow> expr \<Rightarrow> expr \<Rightarrow> expr \<Rightarrow> expr" where
  "Select_make K c t f =
     (case as_const c of
        Some ce \<Rightarrow> if ap_isTrue ce then t else f
      | None \<Rightarrow>
         if t = f then t
         else if getWidth t = 1 then
           (case as_const t of
              Some ce \<Rightarrow> if ap_isTrue ce then Or_make K c f else And_make K (createIsZero K c) f
            | None \<Rightarrow>
               (case as_const f of
                  Some ce \<Rightarrow> if ap_isTrue ce then Or_make K (createIsZero K c) t else And_make K c t
                | None \<Rightarrow> SelectExpr c t f))
         else SelectExpr c t f)"

subsection \<open>rebuild, createFromKind, createTempRead\<close>

text \<open>The virtual method \<^verbatim>\<open>rebuild(kids)\<close> of every class.\<close>

fun rebuild :: "'z expr_env_scheme \<Rightarrow> expr \<Rightarrow> expr list \<Rightarrow> expr" where
  "rebuild K (ConstantExpr c) ks = ConstantExpr c"
| "rebuild K (NotOptimizedExpr e) ks = NotOptimizedExpr (ks ! 0)"
| "rebuild K (ReadExpr a us i) ks = Read_make K a us (ks ! 0)"
| "rebuild K (SelectExpr c t f) ks = Select_make K (ks ! 0) (ks ! 1) (ks ! 2)"
| "rebuild K (ConcatExpr l r) ks = Concat_make K (ks ! 0) (ks ! 1)"
| "rebuild K (ExtractExpr e off w) ks = Extract_make K (ks ! 0) off w"
| "rebuild K (ZExtExpr e w) ks = ZExt_make K (ks ! 0) w"
| "rebuild K (SExtExpr e w) ks = SExt_make K (ks ! 0) w"
| "rebuild K (NotExpr e) ks = Not_make K (ks ! 0)"
| "rebuild K (BinaryExpr k l r) ks = Binary_make K k (ks ! 0) (ks ! 1)"

text \<open>
  \<^verbatim>\<open>struct CreateArg\<close>: an expression (with an offset), or a width. \<open>createFromKind\<close> asserts the number
  and the sort of its arguments, and that the kind can be created.
\<close>

record create_arg =
  ca_expr :: "expr option"
  ca_width :: nat
  ca_offset :: nat

definition isWidth :: "create_arg \<Rightarrow> bool" where
  "isWidth a \<longleftrightarrow> ca_width a \<noteq> 0"

definition arg_expr :: "create_arg \<Rightarrow> expr option" where
  "arg_expr a = (if isWidth a then None else ca_expr a)"

fun createFromKind :: "'z expr_env_scheme \<Rightarrow> kind \<Rightarrow> create_arg list \<Rightarrow> expr option" where
  "createFromKind K Extract [a, b] =
     (case arg_expr a of
        Some e \<Rightarrow> if isWidth b then Some (Extract_make K e (ca_offset a) (ca_width b)) else None
      | None \<Rightarrow> None)"
| "createFromKind K NotOptimized [a] = map_option NotOptimizedExpr (arg_expr a)"
| "createFromKind K Select [a, b, c] =
     (case (arg_expr a, arg_expr b, arg_expr c) of
        (Some e1, Some e2, Some e3) \<Rightarrow> Some (Select_make K e1 e2 e3)
      | _ \<Rightarrow> None)"
| "createFromKind K Concat [a, b] =
     (case (arg_expr a, arg_expr b) of
        (Some e1, Some e2) \<Rightarrow> Some (Concat_make K e1 e2)
      | _ \<Rightarrow> None)"
| "createFromKind K ZExt [a, b] =
     (case arg_expr a of
        Some e \<Rightarrow> if isWidth b then Some (ZExt_make K e (ca_width b)) else None
      | None \<Rightarrow> None)"
| "createFromKind K SExt [a, b] =
     (case arg_expr a of
        Some e \<Rightarrow> if isWidth b then Some (SExt_make K e (ca_width b)) else None
      | None \<Rightarrow> None)"
| "createFromKind K (Binary k) [a, b] =
     (case (arg_expr a, arg_expr b) of
        (Some e1, Some e2) \<Rightarrow> Some (Binary_make K k e1 e2)
      | _ \<Rightarrow> None)"
| "createFromKind K _ _ = None"

definition read_at :: "'z expr_env_scheme \<Rightarrow> array \<Rightarrow> int \<Rightarrow> expr" where
  "read_at K a i = Read_make K a UpdateNil (ConstantExpr (ConstantExpr_alloc K i 32))"

definition createTempRead :: "'z expr_env_scheme \<Rightarrow> array \<Rightarrow> nat \<Rightarrow> expr option" where
  "createTempRead K a w =
     (if w = 1 then Some (ZExt_make K (read_at K a 0) 1)
      else if w = 8 then Some (read_at K a 0)
      else if w = 16 then Some (Concat_make K (read_at K a 1) (read_at K a 0))
      else if w = 32 then
        Some (Concat_create4 K (read_at K a 3) (read_at K a 2) (read_at K a 1) (read_at K a 0))
      else if w = 64 then
        Some (Concat_create8 K (read_at K a 7) (read_at K a 6) (read_at K a 5) (read_at K a 4)
          (read_at K a 3) (read_at K a 2) (read_at K a 1) (read_at K a 0))
      else None)"

end
