(* ===== verification/ExprCreateSound.thy ===== *)
theory ExprCreateSound
  imports ExprCreate
begin

unbundle bit_operations_syntax

section \<open>The constructors build what they are named after\<close>

text \<open>
  The correctness of theory \<open>ExprCreate\<close>: every \<^verbatim>\<open>create\<close> method returns a well-typed expression of the
  method's width that denotes the method's operator applied to the arguments, whatever rewriting took
  place, under every assignment. \<open>means \<sigma> e w v\<close> packs the three. Locale \<open>env\<close> is a construction
  environment whose bit-vector library keeps its documented laws; \<open>default_env\<close> is one with
  \<^verbatim>\<open>-const-array-opt\<close> off, its default (with the option on an out-of-range read of a constant array
  is decided by the array's contents alone).
\<close>

definition std_env :: "bool \<Rightarrow> expr_env" where
  "std_env opt = apint_ops.extend std_apint (expr_env.fields opt)"

definition means :: "assignment \<Rightarrow> expr \<Rightarrow> nat \<Rightarrow> int \<Rightarrow> bool" where
  "means \<sigma> e w v \<longleftrightarrow> wt e \<and> getWidth e = w \<and> eval \<sigma> e = v"

lemma means_self: "wt e \<Longrightarrow> means \<sigma> e (getWidth e) (eval \<sigma> e)"
  by (simp add: means_def)

lemma mask_and: "inr w a \<Longrightarrow> a AND (2 ^ w - 1) = a"
  by (simp add: inr_iff_take_bit take_bit_eq_mask mask_eq_exp_minus_1)

lemma mask_or: "inr w a \<Longrightarrow> a OR (2 ^ w - 1) = 2 ^ w - 1"
proof -
  have "take_bit w a OR mask w = mask w"
    by (rule bit_eqI) (auto simp: bit_simps)
  then show "inr w a \<Longrightarrow> a OR (2 ^ w - 1) = 2 ^ w - 1"
    by (simp add: inr_iff_take_bit mask_eq_exp_minus_1)
qed

lemma ap_eq: "x = APInt (getBitWidth x) v \<longleftrightarrow> getZExtValue x = v"
  by (cases x) auto

lemma take_bit_move_add:
  assumes "inr w c" "inr w d" "inr w b"
  shows "take_bit w (d - c) = b \<longleftrightarrow> d = take_bit w (c + b)"
proof
  assume "take_bit w (d - c) = b"
  then have "take_bit w (c + b) = take_bit w (c + (d - c))" by (metis take_bit_add take_bit_take_bit min.idem)
  with assms show "d = take_bit w (c + b)" by (simp add: inr_iff_take_bit)
next
  assume d: "d = take_bit w (c + b)"
  have "take_bit w (d - c) = take_bit w (c + b - c)"
    unfolding d by (simp add: take_bit_eq_mod mod_diff_left_eq)
  with assms show "take_bit w (d - c) = b" by (simp add: inr_iff_take_bit)
qed

lemma take_bit_move_sub:
  assumes "inr w c" "inr w d" "inr w b"
  shows "take_bit w (c - d) = b \<longleftrightarrow> d = take_bit w (c - b)"
proof
  assume b: "take_bit w (c - d) = b"
  have "take_bit w (c - b) = take_bit w (c - (c - d))"
    unfolding b [symmetric] by (simp add: take_bit_eq_mod mod_diff_right_eq)
  with assms show "d = take_bit w (c - b)" by (simp add: inr_iff_take_bit)
next
  assume d: "d = take_bit w (c - b)"
  have "take_bit w (c - d) = take_bit w (c - (c - b))"
    unfolding d by (simp add: take_bit_eq_mod mod_diff_right_eq)
  with assms show "take_bit w (c - d) = b" by (simp add: inr_iff_take_bit)
qed

locale env = apint K for K :: "'z expr_env_scheme"
begin

lemma alloc [simp]: "0 < w \<Longrightarrow> ConstantExpr_alloc K v w = APInt w (take_bit w v)"
  by (simp add: ConstantExpr_alloc_def make)

lemma CE_binary_eq:
  "\<lbrakk>wf_ap x; wf_ap y; getBitWidth x = getBitWidth y; is_div k \<longrightarrow> getZExtValue y \<noteq> 0\<rbrakk> \<Longrightarrow>
   CE_binary K k x y = APInt (bv_width k (getBitWidth x))
     (bv_bin k (getBitWidth x) (getZExtValue x) (getZExtValue y))"
  by (cases "bv_cmp k (getBitWidth y) (getZExtValue x) (getZExtValue y)")
    (simp_all add: CE_binary_def bv_width_def bv_bin_def arith cmp)

lemma CE_Concat_eq:
  assumes "wf_ap x" "wf_ap y"
  shows "CE_Concat K x y = APInt (getBitWidth x + getBitWidth y)
    (concat_bit (getBitWidth y) (getZExtValue y) (getZExtValue x))"
proof -
  let ?wx = "getBitWidth x" and ?wy = "getBitWidth y"
  have x: "inr ?wx (getZExtValue x)" "0 < ?wx" and y: "inr ?wy (getZExtValue y)" "0 < ?wy"
    using assms by (auto simp: wf_ap_def)
  have "inr (?wx + ?wy) (concat_bit ?wy (getZExtValue y) (getZExtValue x))"
    using inr_concat_bit [OF x(1) y(1)] by (simp add: add.commute)
  moreover have "take_bit (?wx + ?wy) (push_bit ?wy (getZExtValue x)) = push_bit ?wy (getZExtValue x)"
    using x by (simp add: take_bit_push_bit inr_iff_take_bit)
  moreover have "inr (?wx + ?wy) (getZExtValue x)" "inr (?wx + ?wy) (getZExtValue y)"
    using x y inr_mono by auto
  moreover have "inr (?wx + ?wy) (push_bit ?wy (getZExtValue x))"
    using calculation(2) inr_iff_take_bit by blast
  ultimately show ?thesis
    using assms x y by (simp add: CE_Concat_def Let_def zext shl_n arith concat_bit_def
      inr_iff_take_bit [of "?wy"] or.commute)
qed

lemma sval_bits: "n < w \<Longrightarrow> bit (sval w v) n = bit v n"
  by (cases "n = w - 1") (auto simp: sval_def bit_signed_take_bit_iff min_def)

lemma CE_Extract_eq:
  assumes "wf_ap x" "off + w \<le> getBitWidth x" "0 < w"
  shows "CE_Extract K x off w = APInt w (take_bit w (drop_bit off (getZExtValue x)))"
proof -
  have "take_bit w (take_bit (getBitWidth x) (drop_bit off (sval (getBitWidth x) (getZExtValue x)))) =
    take_bit w (drop_bit off (getZExtValue x))"
    using assms by (auto intro!: bit_eqI simp: bit_simps sval_bits)
  with assms show ?thesis
    by (simp add: CE_Extract_def ashr_n zextOrTrunc wf_ap_def)
qed

lemma CE_ZExt_eq: "wf_ap x \<Longrightarrow> 0 < w \<Longrightarrow> CE_ZExt K x w = APInt w (take_bit w (getZExtValue x))"
  by (simp add: CE_ZExt_def zextOrTrunc)

lemma CE_SExt_eq: "wf_ap x \<Longrightarrow> 0 < w \<Longrightarrow>
  CE_SExt K x w = APInt w (take_bit w (sval (getBitWidth x) (getZExtValue x)))"
  by (simp add: CE_SExt_def sextOrTrunc)

lemma CE_Not_eq: "wf_ap x \<Longrightarrow>
  CE_Not K x = APInt (getBitWidth x) (take_bit (getBitWidth x) (NOT (getZExtValue x)))"
  by (simp add: CE_Not_def not)

lemma CE_Neg_eq: "wf_ap x \<Longrightarrow>
  CE_Neg K x = APInt (getBitWidth x) (take_bit (getBitWidth x) (- getZExtValue x))"
  by (simp add: CE_Neg_def neg)

lemma BCREATE_R_cases:
  assumes "\<And>cl cr. l = ConstantExpr cl \<Longrightarrow> r = ConstantExpr cr \<Longrightarrow> P (ConstantExpr (CE_binary K k cl cr))"
    and "\<And>cl. l = ConstantExpr cl \<Longrightarrow> as_const r = None \<Longrightarrow> P (pR cl r)"
    and "\<And>cr. r = ConstantExpr cr \<Longrightarrow> as_const l = None \<Longrightarrow> P (pL l cr)"
    and "as_const l = None \<Longrightarrow> as_const r = None \<Longrightarrow> P (c l r)"
  shows "P (BCREATE_R K k c pL pR l r)"
  using assms by (auto simp: BCREATE_R_def split: option.split)

lemma BCREATE_cases:
  assumes "\<And>cl cr. l = ConstantExpr cl \<Longrightarrow> r = ConstantExpr cr \<Longrightarrow> P (ConstantExpr (CE_binary K k cl cr))"
    and "P (c l r)"
  shows "P (BCREATE K k c l r)"
  using assms by (auto simp: BCREATE_def split: option.split)

lemma means_fold:
  "\<lbrakk>wf_ap cl; wf_ap cr; getBitWidth cl = getBitWidth cr; is_div k \<longrightarrow> getZExtValue cr \<noteq> 0\<rbrakk> \<Longrightarrow>
   means \<sigma> (ConstantExpr (CE_binary K k cl cr)) (bv_width k (getBitWidth cl))
     (bv_bin k (getBitWidth cl) (getZExtValue cl) (getZExtValue cr))"
  by (simp add: means_def CE_binary_eq bv_bin_inr wf_ap_def)

subsection \<open>And, Or, Eq, Xor\<close>

text \<open>\<open>bin \<sigma> k l r e\<close>: the expression \<open>e\<close> denotes the operator \<open>k\<close> applied to \<open>l\<close> and \<open>r\<close>.\<close>

abbreviation (input) bin :: "assignment \<Rightarrow> binop \<Rightarrow> expr \<Rightarrow> expr \<Rightarrow> expr \<Rightarrow> bool" where
  "bin \<sigma> k l r e \<equiv> means \<sigma> e (bv_width k (getWidth l)) (bv_bin k (getWidth l) (eval \<sigma> l) (eval \<sigma> r))"

lemma bin_alloc: "\<lbrakk>wt l; wt r; getWidth l = getWidth r\<rbrakk> \<Longrightarrow> bin \<sigma> k l r (BinaryExpr k l r)"
  by (simp add: means_def)

lemma and_partial:
  assumes "assign_ok \<sigma>" "wt e" "wf_ap c" "getWidth e = getBitWidth c"
  shows "means \<sigma> (AndExpr_createPartial e c) (getWidth e) (eval \<sigma> e AND getZExtValue c)"
  using assms eval_inr [OF assms(1,2)] mask_and [of "getBitWidth c" "eval \<sigma> e"]
  by (auto simp: AndExpr_createPartial_def means_def bv_width_def bv_bin_def ap_tests)

lemma and_make:
  assumes "assign_ok \<sigma>" "wt l" "wt r" "getWidth l = getWidth r"
  shows "bin \<sigma> And l r (And_make K l r)"
  unfolding And_make_def
  by (rule BCREATE_R_cases)
    (use assms and_partial [of \<sigma> l] and_partial [of \<sigma> r] in
      \<open>auto simp: AndExpr_createPartialR_def AndExpr_create_def bv_width_def bv_bin_def and.commute
        means_def CE_binary_eq inr_and wf_ap_def\<close>)

lemma or_partial:
  assumes "assign_ok \<sigma>" "wt e" "wf_ap c" "getWidth e = getBitWidth c"
  shows "means \<sigma> (OrExpr_createPartial e c) (getWidth e) (eval \<sigma> e OR getZExtValue c)"
  using assms eval_inr [OF assms(1,2)] mask_or [of "getBitWidth c" "eval \<sigma> e"]
  by (auto simp: OrExpr_createPartial_def means_def bv_width_def bv_bin_def ap_tests)

lemma or_make:
  assumes "assign_ok \<sigma>" "wt l" "wt r" "getWidth l = getWidth r"
  shows "bin \<sigma> Or l r (Or_make K l r)"
  unfolding Or_make_def
  by (rule BCREATE_R_cases)
    (use assms or_partial [of \<sigma> l] or_partial [of \<sigma> r] in
      \<open>auto simp: OrExpr_createPartialR_def OrExpr_create_def bv_width_def bv_bin_def or.commute
        means_def CE_binary_eq inr_or wf_ap_def\<close>)

lemma eq_plain:
  assumes "wt l" "wt r" "getWidth l = getWidth r"
  shows "means \<sigma> (EqExpr_create K l r) 1 (of_bool (eval \<sigma> l = eval \<sigma> r))"
  using assms by (auto simp: EqExpr_create_def means_def bv_width_def bv_bin_def)

lemma ext_test:
  assumes "n \<le> w" "inr n s" "inr w c" "0 < n"
    and ext: "\<And>x. take_bit n (f x) = take_bit n x"
  shows "c = take_bit w (f s) \<longleftrightarrow> c = take_bit w (f (take_bit n c)) \<and> s = take_bit n c"
proof -
  have "take_bit n (take_bit w (f s)) = s"
    using assms by (simp add: ext min_def inr_iff_take_bit)
  then show ?thesis by metis
qed

lemma make_const:
  assumes "wt e" "wf_ap c" "getWidth e = getBitWidth c"
    and "as_const e = None \<Longrightarrow>
      means \<sigma> (EqExpr_createPartialR K c e) 1 (of_bool (getZExtValue c = eval \<sigma> e))"
  shows "means \<sigma> (Eq_make K e (ConstantExpr c)) 1 (of_bool (eval \<sigma> e = getZExtValue c))"
proof (cases "as_const e")
  case None
  with assms show ?thesis by (simp add: Eq_make.simps eq_commute [of "eval \<sigma> e"])
next
  case (Some c')
  with assms show ?thesis
    using means_fold [of c' c Eq \<sigma>] by (simp add: Eq_make.simps bv_width_def bv_bin_def)
qed

end

subsection \<open>Concatenation, extraction, casts\<close>

lemma concat_extract:
  assumes "n \<le> off" shows "drop_bit off (concat_bit n b a) = drop_bit (off - n) (a :: int)"
  using assms by (auto intro!: bit_eqI simp: bit_simps)

lemma concat_extract_low:
  assumes "off + w \<le> n" shows "take_bit w (drop_bit off (concat_bit n b a)) = take_bit w (drop_bit off (b :: int))"
  using assms by (auto intro!: bit_eqI simp: bit_simps)

lemma concat_extract_both:
  assumes "off < n" "n < off + w"
  shows "take_bit w (drop_bit off (concat_bit n b a)) =
    concat_bit (n - off) (take_bit (n - off) (drop_bit off b)) (take_bit (w + off - n) (drop_bit 0 (a :: int)))"
proof (rule bit_eqI)
  fix k
  show "bit (take_bit w (drop_bit off (concat_bit n b a))) k \<longleftrightarrow>
    bit (concat_bit (n - off) (take_bit (n - off) (drop_bit off b)) (take_bit (w + off - n) (drop_bit 0 a))) k"
  proof (cases "k < n - off")
    case False
    with assms have "off + k - n = k - (n - off)" by linarith
    with assms False show ?thesis by (auto simp: bit_simps)
  qed (use assms in \<open>auto simp: bit_simps\<close>)
qed

lemma extract_concat:
  fixes x :: int
  shows "concat_bit wr (take_bit wr (drop_bit orr x)) (take_bit wl (drop_bit (orr + wr) x)) =
    take_bit (wl + wr) (drop_bit orr x)"
  by (auto intro!: bit_eqI simp: bit_simps)

lemma extract_concat_sound:
  shows "env K \<Longrightarrow> assign_ok \<sigma> \<Longrightarrow> wt e \<Longrightarrow> 0 < w \<Longrightarrow> off + w \<le> getWidth e \<Longrightarrow>
      means \<sigma> (Extract_make K e off w) w (take_bit w (drop_bit off (eval \<sigma> e)))"
    and "env K \<Longrightarrow> assign_ok \<sigma> \<Longrightarrow> wt l \<Longrightarrow> wt r \<Longrightarrow>
      means \<sigma> (Concat_make K l r) (getWidth l + getWidth r)
        (concat_bit (getWidth r) (eval \<sigma> r) (eval \<sigma> l))"
proof (induction K e off w and K l r rule: Extract_make_Concat_make.induct)
  case (1 K e off w)
  show ?case
  proof (cases "w = getWidth e")
    case True
    with 1 show ?thesis
      using eval_inr [of \<sigma> e] by (simp add: Extract_make.simps means_def take_bit_inr)
  next
    case False
    show ?thesis
    proof (cases e)
      case (ConstantExpr c)
      with 1 False show ?thesis
        by (simp add: Extract_make.simps env.CE_Extract_eq means_def)
    next
      case (ConcatExpr l r)
      note IH = "1.IH" [OF False ConcatExpr]
      have w: "wt l" "wt r" "off + w \<le> getWidth l + getWidth r" using 1 ConcatExpr by auto
      consider "getWidth r \<le> off" | "\<not> getWidth r \<le> off" "off + w \<le> getWidth r"
        | "\<not> getWidth r \<le> off" "\<not> off + w \<le> getWidth r" by blast
      then show ?thesis
      proof cases
        case 1
        with IH(1) [OF 1] w "1.prems" ConcatExpr False show ?thesis
          by (simp add: Extract_make.simps concat_extract)
      next
        case 2
        with IH(2) [OF 2] w "1.prems" ConcatExpr False show ?thesis
          by (simp add: Extract_make.simps concat_extract_low)
      next
        case 3
        have "means \<sigma> (Extract_make K l 0 (w + off - getWidth r)) (w + off - getWidth r)
            (take_bit (w + off - getWidth r) (drop_bit 0 (eval \<sigma> l)))"
          using 3 IH(3) [OF 3] w "1.prems" by simp
        moreover have "means \<sigma> (Extract_make K r off (getWidth r - off)) (getWidth r - off)
            (take_bit (getWidth r - off) (drop_bit off (eval \<sigma> r)))"
          using 3 IH(4) [OF 3] w "1.prems" by simp
        ultimately show ?thesis
          using 3 IH(5) [OF 3] w "1.prems" ConcatExpr False
            concat_extract_both [of off "getWidth r" w "eval \<sigma> r" "eval \<sigma> l"]
          by (simp add: Extract_make.simps means_def)
      qed
    qed (use 1 False in \<open>simp_all add: Extract_make.simps means_def\<close>)
  qed
next
  case (2 K l r)
  have plain: ?case if "Concat_make K l r = ConcatExpr l r"
    using that 2 by (simp add: means_def)
  show ?case
  proof (cases "\<exists>x ol wl orr wr. l = ExtractExpr x ol wl \<and> r = ExtractExpr x orr wr \<and> orr + wr = ol")
    case True
    then obtain x ol wl orr wr where l: "l = ExtractExpr x ol wl" and r: "r = ExtractExpr x orr wr"
      and ol: "orr + wr = ol" by blast
    with 2 have "means \<sigma> (Extract_make K x orr (getWidth l + getWidth r)) (getWidth l + getWidth r)
        (take_bit (getWidth l + getWidth r) (drop_bit orr (eval \<sigma> x)))"
      by (intro "2.IH" [OF refl l r]) auto
    with l r ol show ?thesis
      using extract_concat [of wr orr "eval \<sigma> x" wl]
      by (simp add: Concat_make.simps add.commute)
  next
    case no: False
    show ?thesis
    proof (cases "\<exists>lc rc. l = ConstantExpr lc \<and> r = ConstantExpr rc")
      case True
      with 2 show ?thesis
        by (auto simp: Concat_make.simps env.CE_Concat_eq means_def wf_ap_def
            intro: inr_concat_bit [of _ _ "getBitWidth _", simplified add.commute])
    next
      case False
      with no have "Concat_make K l r = ConcatExpr l r"
        by (auto simp: Concat_make.simps split: expr.split)
      then show ?thesis by (rule plain)
    qed
  qed
qed

context env
begin

lemmas extract_make = extract_concat_sound(1) [OF env_axioms]
lemmas concat_make = extract_concat_sound(2) [OF env_axioms]

lemma not_make:
  assumes "assign_ok \<sigma>" "wt e"
  shows "means \<sigma> (Not_make K e) (getWidth e) (take_bit (getWidth e) (NOT (eval \<sigma> e)))"
  using assms by (auto simp: Not_make_def means_def CE_Not_eq wf_ap_def split: option.split)

lemma zext_make:
  assumes "assign_ok \<sigma>" "wt e" "0 < w"
  shows "means \<sigma> (ZExt_make K e w) w (take_bit w (eval \<sigma> e))"
  using assms extract_make [of \<sigma> e w 0] eval_inr [of \<sigma> e]
  by (auto simp: ZExt_make_def Let_def means_def CE_ZExt_eq take_bit_inr split: option.split)

lemma sext_make:
  assumes "assign_ok \<sigma>" "wt e" "0 < w"
  shows "means \<sigma> (SExt_make K e w) w (take_bit w (sval (getWidth e) (eval \<sigma> e)))"
proof -
  have "take_bit w (eval \<sigma> e) = take_bit w (sval (getWidth e) (eval \<sigma> e))" if "w \<le> getWidth e"
    using that wt_width_pos [OF assms(2)] by (auto intro!: bit_eqI simp: bit_simps sval_bits)
  with assms extract_make [of \<sigma> e w 0] eval_inr [of \<sigma> e] show ?thesis
    by (auto simp: SExt_make_def Let_def means_def CE_SExt_eq take_bit_inr split: option.split)
qed

end

locale default_env = env +
  assumes no_opt: "\<not> ConstArrayOpt K"
begin

lemma eq_partial:
  assumes ok: "assign_ok \<sigma>"
  shows "\<lbrakk>wf_ap cl; wt r; getWidth r = getBitWidth cl\<rbrakk> \<Longrightarrow>
    means \<sigma> (EqExpr_createPartialR K cl r) 1 (of_bool (getZExtValue cl = eval \<sigma> r))"
proof (induction r arbitrary: cl rule: measure_induct_rule [where f = size])
  case (less r)
  note prems = less.prems
  have plain: "means \<sigma> (EqExpr_create K (ConstantExpr cl) r) 1 (of_bool (getZExtValue cl = eval \<sigma> r))"
    using eq_plain [of "ConstantExpr cl" r \<sigma>] prems by simp
  then have fallback: ?case
    if "EqExpr_createPartialR K cl r = EqExpr_create K (ConstantExpr cl) r"
    using that by simp
  have make: "means \<sigma> (Eq_make K e (ConstantExpr c)) 1 (of_bool (eval \<sigma> e = getZExtValue c))"
    if "size e < size r" "wt e" "wf_ap c" "getWidth e = getBitWidth c" for e c
    using make_const [OF that(2,3,4)] less.IH [OF that(1,3,2,4)] by (auto simp: eq_commute)
  have r_inr: "inr (getBitWidth cl) (eval \<sigma> r)" using eval_inr [OF ok prems(2)] prems(3) by simp
  show ?case
  proof (cases "getBitWidth cl = 1")
    case True
    show ?thesis
    proof (cases "ap_isTrue cl")
      case T: True
      with True prems r_inr have "getZExtValue cl = 1" "eval \<sigma> r = 0 \<or> eval \<sigma> r = 1"
        by (auto simp: ap_tests wf_ap_def dest: inr_Suc0D)
      with True T prems show ?thesis
        by (subst EqExpr_createPartialR.simps) (auto simp: means_def)
    next
      case F: False
      with True prems have cl: "cl = APInt 1 0"
        by (cases cl) (auto simp: ap_tests wf_ap_def)
      have w: "getWidth r = 1" using prems True by simp
      note unf = EqExpr_createPartialR.simps [of K cl r]
      show ?thesis
      proof (cases r)
        case (BinaryExpr k a b)
        note r = this
        show ?thesis
        proof (cases "k = Eq \<and> (\<exists>ce. a = ConstantExpr ce \<and> getBitWidth ce = 1 \<and> ap_isFalse ce)")
          case True
          with r prems eval_bool [OF ok, of b] have "eval \<sigma> b = 0 \<or> eval \<sigma> b = 1" by auto
          with True r prems cl show ?thesis
            by (subst unf) (auto simp: ap_tests means_def bv_bin_def)
        next
          case False
          show ?thesis
          proof (cases "k = Or")
            case True
            have wts: "wt a" "wt b" "getWidth a = 1" "getWidth b = 1"
              using r True prems w by (auto simp: bv_width_def)
            have a: "means \<sigma> (Eq_make K a (ConstantExpr (ConstantExpr_alloc K 0 (getWidth a)))) 1
                (of_bool (eval \<sigma> a = 0))" (is "means \<sigma> ?ea 1 _")
              using make [of a "APInt 1 0"] r wts by simp
            have b: "means \<sigma> (Eq_make K b (ConstantExpr (ConstantExpr_alloc K 0 (getWidth b)))) 1
                (of_bool (eval \<sigma> b = 0))" (is "means \<sigma> ?eb 1 _")
              using make [of b "APInt 1 0"] r wts by simp
            have "bin \<sigma> And ?ea ?eb (And_make K ?ea ?eb)"
              using a b by (intro and_make) (auto simp: means_def ok)
            moreover have "EqExpr_createPartialR K cl r = And_make K ?ea ?eb"
              using r True cl by (subst unf) (simp add: ap_tests)
            ultimately show ?thesis
              using a b cl r True w wts eval_bool [OF ok, of a] eval_bool [OF ok, of b]
              by (auto simp: means_def bv_bin_def bv_width_def)
          next
            case no: False
            from False no r cl have "EqExpr_createPartialR K cl r = EqExpr_create K (ConstantExpr cl) r"
              by (subst unf) (auto simp: ap_tests split: binop.splits option.splits)
            with plain show ?thesis by simp
          qed
        qed
      qed (rule fallback, subst EqExpr_createPartialR.simps, simp add: cl ap_tests)+
    qed
  next
    case False
    note unf = EqExpr_createPartialR.simps [of K cl r]
    have cl: "inr (getBitWidth cl) (getZExtValue cl)" "0 < getBitWidth cl"
      using prems by (auto simp: wf_ap_def)
    show ?thesis
    proof (cases r)
      case (SExtExpr e w)
      let ?n = "getWidth e" and ?c = "getZExtValue cl"
      have e: "wt e" "?n \<le> w" "w = getBitWidth cl" "0 < ?n" "inr ?n (eval \<sigma> e)"
        using SExtExpr prems wt_width_pos eval_inr [OF ok] by auto
      let ?t = "APInt ?n (take_bit ?n ?c)"
      have "CE_ZExt K cl ?n = ?t" "CE_SExt K ?t w = APInt w (take_bit w (sval ?n (take_bit ?n ?c)))"
        using prems e by (simp_all add: CE_ZExt_eq CE_SExt_eq)
      moreover have "?c = take_bit w (sval ?n (eval \<sigma> e)) \<longleftrightarrow>
          ?c = take_bit w (sval ?n (take_bit ?n ?c)) \<and> eval \<sigma> e = take_bit ?n ?c"
        using e cl by (intro ext_test) (auto simp: take_bit_sval)
      moreover have "EqExpr_createPartialR K cl r = (if ?c = take_bit w (sval ?n (take_bit ?n ?c))
          then Eq_make K e (ConstantExpr ?t) else ConstantExpr (APInt 1 0))"
        using calculation(1,2) e SExtExpr False by (subst unf) (simp add: Let_def ap_eq)
      moreover have "means \<sigma> (Eq_make K e (ConstantExpr ?t)) 1 (of_bool (eval \<sigma> e = take_bit ?n ?c))"
        using make [of e ?t] e SExtExpr by simp
      ultimately show ?thesis
        using SExtExpr by (simp add: means_def)
    next
      case (ZExtExpr e w)
      let ?n = "getWidth e" and ?c = "getZExtValue cl"
      have e: "wt e" "?n \<le> w" "w = getBitWidth cl" "0 < ?n" "inr ?n (eval \<sigma> e)"
        using ZExtExpr prems wt_width_pos eval_inr [OF ok] by auto
      let ?t = "APInt ?n (take_bit ?n ?c)"
      have "CE_ZExt K cl ?n = ?t" "CE_ZExt K ?t w = APInt w (take_bit w (take_bit ?n ?c))"
        using prems e by (simp_all add: CE_ZExt_eq)
      moreover have "?c = take_bit w (eval \<sigma> e) \<longleftrightarrow>
          ?c = take_bit w (take_bit ?n ?c) \<and> eval \<sigma> e = take_bit ?n ?c"
        using e cl by (intro ext_test [where f = "\<lambda>x. x"]) auto
      moreover have "EqExpr_createPartialR K cl r = (if ?c = take_bit w (take_bit ?n ?c)
          then Eq_make K e (ConstantExpr ?t) else ConstantExpr (APInt 1 0))"
        using calculation(1,2) e ZExtExpr False by (subst unf) (simp add: Let_def ap_eq)
      moreover have "means \<sigma> (Eq_make K e (ConstantExpr ?t)) 1 (of_bool (eval \<sigma> e = take_bit ?n ?c))"
        using make [of e ?t] e ZExtExpr by simp
      ultimately show ?thesis
        using ZExtExpr by (simp add: means_def)
    next
      case (ReadExpr a us i)
      with plain no_opt False show ?thesis by (subst unf) simp
    next
      case (BinaryExpr k a b)
      note r = this
      show ?thesis
      proof (cases "\<exists>c. (k = Add \<or> k = Sub) \<and> a = ConstantExpr c")
        case True
        then obtain c where k: "k = Add \<or> k = Sub" and a: "a = ConstantExpr c" by blast
        let ?w = "getBitWidth cl"
        have wfs: "wf_ap c" "getBitWidth c = ?w" "wt b" "getWidth b = ?w" "size b < size r"
          using r k a prems by (auto simp: bv_width_def)
        have inrs: "inr ?w (getZExtValue c)" "inr ?w (getZExtValue cl)" "inr ?w (eval \<sigma> b)"
          using wfs prems eval_inr [OF ok wfs(3)] by (auto simp: wf_ap_def)
        have IH: "means \<sigma> (EqExpr_createPartialR K (APInt ?w (take_bit ?w v)) b) 1
            (of_bool (take_bit ?w v = eval \<sigma> b))" for v
          using less.IH [of b "APInt ?w (take_bit ?w v)"] wfs cl by simp
        from k show ?thesis
        proof
          assume k: "k = Add"
          have "EqExpr_createPartialR K cl r =
              EqExpr_createPartialR K (APInt ?w (take_bit ?w (getZExtValue cl - getZExtValue c))) b"
            using r a k False wfs prems
            by (subst unf) (simp add: CE_binary_eq bv_width_def bv_bin_def)
          moreover have "take_bit ?w (getZExtValue cl - getZExtValue c) = eval \<sigma> b \<longleftrightarrow>
              getZExtValue cl = take_bit ?w (getZExtValue c + eval \<sigma> b)"
            using inrs by (rule take_bit_move_add)
          ultimately show ?thesis
            using IH [of "getZExtValue cl - getZExtValue c"] r a k wfs by (simp add: bv_bin_def)
        next
          assume k: "k = Sub"
          have "EqExpr_createPartialR K cl r =
              EqExpr_createPartialR K (APInt ?w (take_bit ?w (getZExtValue c - getZExtValue cl))) b"
            using r a k False wfs prems
            by (subst unf) (simp add: CE_binary_eq bv_width_def bv_bin_def)
          moreover have "take_bit ?w (getZExtValue c - getZExtValue cl) = eval \<sigma> b \<longleftrightarrow>
              getZExtValue cl = take_bit ?w (getZExtValue c - eval \<sigma> b)"
            using inrs by (rule take_bit_move_sub)
          ultimately show ?thesis
            using IH [of "getZExtValue c - getZExtValue cl"] r a k wfs by (simp add: bv_bin_def)
        qed
      next
        case no: False
        then have "EqExpr_createPartialR K cl r = EqExpr_create K (ConstantExpr cl) r"
          using r False by (subst unf) (auto split: binop.splits option.splits)
        with plain show ?thesis by simp
      qed
    qed (rule fallback, subst EqExpr_createPartialR.simps, simp add: False [simplified])+
  qed
qed

lemma eq_partialL:
  "\<lbrakk>assign_ok \<sigma>; wf_ap cr; wt l; getWidth l = getBitWidth cr\<rbrakk> \<Longrightarrow>
    means \<sigma> (EqExpr_createPartial K l cr) 1 (of_bool (eval \<sigma> l = getZExtValue cr))"
  unfolding EqExpr_createPartial_def by (subst eq_commute) (rule eq_partial)

lemma eq_make:
  assumes "assign_ok \<sigma>" "wt l" "wt r" "getWidth l = getWidth r"
  shows "bin \<sigma> Eq l r (Eq_make K l r)"
  unfolding Eq_make_macro
  by (rule BCREATE_R_cases)
    (use assms eq_partial [OF assms(1), of _ r] eq_partialL [OF assms(1), of _ l] eq_plain [of l r \<sigma>] in
      \<open>auto simp: bv_width_def bv_bin_def means_def CE_binary_eq\<close>)

lemma is_zero:
  "\<lbrakk>assign_ok \<sigma>; wt e\<rbrakk> \<Longrightarrow> means \<sigma> (createIsZero K e) 1 (of_bool (eval \<sigma> e = 0))"
  using eq_make [of \<sigma> e "ConstantExpr (APInt (getWidth e) 0)"] wt_width_pos [of e]
  by (simp add: createIsZero_def bv_width_def bv_bin_def)

lemma xor_partial:
  assumes "assign_ok \<sigma>" "wf_ap c" "wt r" "getWidth r = getBitWidth c"
  shows "means \<sigma> (XorExpr_createPartialR K c r) (getWidth r) (getZExtValue c XOR eval \<sigma> r)"
proof -
  have "getBitWidth c = 1 \<Longrightarrow> getZExtValue c \<noteq> 0 \<Longrightarrow> getZExtValue c = 1"
    using assms(2) by (auto simp: wf_ap_def dest: inr_Suc0D)
  then show ?thesis
    using assms eval_bool [of \<sigma> r] eq_partial [of \<sigma> "APInt 1 0" r]
    by (auto simp: XorExpr_createPartialR_def EqExpr_createPartial_def ap_tests means_def
      bv_width_def bv_bin_def)
qed

lemma xor_make:
  assumes "assign_ok \<sigma>" "wt l" "wt r" "getWidth l = getWidth r"
  shows "bin \<sigma> Xor l r (Xor_make K l r)"
  unfolding Xor_make_def
  by (rule BCREATE_R_cases)
    (use assms xor_partial [of \<sigma> _ r] xor_partial [of \<sigma> _ l] in
      \<open>auto simp: XorExpr_createPartial_def XorExpr_create_def bv_width_def bv_bin_def
        means_def CE_binary_eq inr_xor wf_ap_def xor.commute\<close>)


subsection \<open>Add, Sub\<close>

lemma bool_add_sub:
  assumes "inr 1 a" "inr 1 b"
  shows "take_bit 1 (a + b) = a XOR b" "take_bit 1 (a - b) = a XOR b"
  using assms by (auto dest!: inr_Suc0D simp: take_bit_eq_mod)

text \<open>A constant of width \<open>w\<close>, written with a value modulo \<open>2 ^ w\<close>.\<close>

abbreviation (input) cst :: "nat \<Rightarrow> int \<Rightarrow> apint" where
  "cst w v \<equiv> APInt w (v mod 2 ^ w)"

lemma inr_mod2 [simp]: "inr w (v mod 2 ^ w)"
  by (simp add: inr_def)

lemma cst_wf: "0 < w \<Longrightarrow> wf_ap (cst w v)"
  by simp

lemma cst_add: "0 < w \<Longrightarrow> wf_ap d \<Longrightarrow> getBitWidth d = w \<Longrightarrow>
    CE_binary K Add (cst w v) d = cst w (v + getZExtValue d)"
  by (simp add: CE_binary_eq cst_wf bv_width_def bv_bin_def take_bit_eq_mod mod_simps)

lemma cst_sub: "0 < w \<Longrightarrow> wf_ap d \<Longrightarrow> getBitWidth d = w \<Longrightarrow>
    CE_binary K Sub (cst w v) d = cst w (v - getZExtValue d)"
  by (simp add: CE_binary_eq cst_wf bv_width_def bv_bin_def take_bit_eq_mod mod_simps)

lemma const_add_sub:
  assumes ok: "assign_ok \<sigma>"
  shows "wt r \<Longrightarrow> getWidth r = w \<Longrightarrow>
      means \<sigma> (AddExpr_createPartialR K (cst w v) r) w ((v + eval \<sigma> r) mod 2 ^ w) \<and>
      means \<sigma> (Add_const K (cst w v) r) w ((v + eval \<sigma> r) mod 2 ^ w) \<and>
      means \<sigma> (SubExpr_createPartialR K (cst w v) r) w ((v - eval \<sigma> r) mod 2 ^ w) \<and>
      means \<sigma> (Sub_const K (cst w v) r) w ((v - eval \<sigma> r) mod 2 ^ w)"
    (is "_ \<Longrightarrow> _ \<Longrightarrow> ?P v r")
proof (induction r arbitrary: v rule: measure_induct_rule [where f = size])
  case (less r)
  note r = \<open>wt r\<close> \<open>getWidth r = w\<close>
  have w: "0 < w" and r_inr: "inr w (eval \<sigma> r)"
    using r wt_width_pos eval_inr [OF ok, of r] by auto
  have r_mod: "eval \<sigma> r mod 2 ^ w = eval \<sigma> r"
    using r_inr by (simp add: inr_def)
  have IH: "?P v b" if "size b < size r" "wt b" "getWidth b = w" for v b
    using less.IH that by blast
  have xor: "means \<sigma> (XorExpr_createPartialR K (cst w v) r) w ((v + eval \<sigma> r) mod 2 ^ w)"
      "means \<sigma> (XorExpr_createPartialR K (cst w v) r) w ((v - eval \<sigma> r) mod 2 ^ w)" if "w = 1"
    using xor_partial [OF ok cst_wf [of 1 v] r(1)] bool_add_sub [of "v mod 2" "eval \<sigma> r"] that r_inr r
    by (simp_all add: inr_def take_bit_eq_mod mod_simps)
  have zero: "(v + eval \<sigma> r) mod 2 ^ w = eval \<sigma> r" if "v mod 2 ^ w = 0"
    using that r_mod by (metis add_0 mod_add_left_eq)
  have plain: "means \<sigma> (BinaryExpr Add (ConstantExpr (cst w v)) r) w ((v + eval \<sigma> r) mod 2 ^ w)"
      "means \<sigma> (BinaryExpr Sub (ConstantExpr (cst w v)) r) w ((v - eval \<sigma> r) mod 2 ^ w)"
    using r w by (simp_all add: means_def bv_width_def bv_bin_def take_bit_eq_mod mod_simps)
  have fold: "means \<sigma> (Add_const K (CE_binary K Add (cst w v) d) b) w ((v + getZExtValue d + eval \<sigma> b) mod 2 ^ w)"
      "means \<sigma> (Add_const K (CE_binary K Sub (cst w v) d) b) w ((v - getZExtValue d + eval \<sigma> b) mod 2 ^ w)"
      "means \<sigma> (Sub_const K (CE_binary K Add (cst w v) d) b) w ((v + getZExtValue d - eval \<sigma> b) mod 2 ^ w)"
      "means \<sigma> (Sub_const K (CE_binary K Sub (cst w v) d) b) w ((v - getZExtValue d - eval \<sigma> b) mod 2 ^ w)"
      if "r = BinaryExpr k (ConstantExpr d) b" "\<not> is_cmp k" for k d b
    using IH [of b] that r w by (simp_all add: bv_width_def cst_add cst_sub)
  have parts: "means \<sigma> (AddExpr_createPartialR K (cst w v) r) w ((v + eval \<sigma> r) mod 2 ^ w) \<and>
      means \<sigma> (SubExpr_createPartialR K (cst w v) r) w ((v - eval \<sigma> r) mod 2 ^ w)"
  proof (cases "w = 1")
    case True
    with xor show ?thesis by (simp add: AddExpr_createPartialR.simps SubExpr_createPartialR.simps)
  next
    case w1: False
    have zero': "means \<sigma> r w ((v + eval \<sigma> r) mod 2 ^ w)" if "v mod 2 ^ w = 0"
      using zero [OF that] r by (simp add: means_def)
    note unf = AddExpr_createPartialR.simps [of K "cst w v"] SubExpr_createPartialR.simps [of K "cst w v"]
    consider (a) d b where "r = BinaryExpr Add (ConstantExpr d) b"
      | (s) d b where "r = BinaryExpr Sub (ConstantExpr d) b"
      | (n) "const_lhs Add r = None" "const_lhs Sub r = None"
      by (cases "const_lhs Add r"; cases "const_lhs Sub r") (auto simp: const_lhs_Some)
    then show ?thesis
    proof cases
      case n
      then show ?thesis using plain zero' w1 by (simp add: unf ap_isZero_def)
    next
      case a
      then have v: "bv_bin Add (getBitWidth d) (getZExtValue d) (eval \<sigma> b) =
          (getZExtValue d + eval \<sigma> b) mod 2 ^ w"
        using r by (simp add: bv_width_def bv_bin_def take_bit_eq_mod)
      have "means \<sigma> (AddExpr_createPartialR K (cst w v) r) w ((v + eval \<sigma> r) mod 2 ^ w)"
        using fold(1) [OF a] zero' w1 a by (simp add: unf ap_isZero_def v mod_simps algebra_simps)
      moreover have "means \<sigma> (SubExpr_createPartialR K (cst w v) r) w ((v - eval \<sigma> r) mod 2 ^ w)"
        using fold(4) [OF a] w1 a by (simp add: unf v mod_simps algebra_simps)
      ultimately show ?thesis ..
    next
      case s
      then have v: "bv_bin Sub (getBitWidth d) (getZExtValue d) (eval \<sigma> b) =
          (getZExtValue d - eval \<sigma> b) mod 2 ^ w"
        using r by (simp add: bv_width_def bv_bin_def take_bit_eq_mod)
      have "means \<sigma> (AddExpr_createPartialR K (cst w v) r) w ((v + eval \<sigma> r) mod 2 ^ w)"
        using fold(3) [OF s] zero' w1 s by (simp add: unf ap_isZero_def v mod_simps algebra_simps)
      moreover have "means \<sigma> (SubExpr_createPartialR K (cst w v) r) w ((v - eval \<sigma> r) mod 2 ^ w)"
        using fold(2) [OF s] w1 s by (simp add: unf v mod_simps algebra_simps)
      ultimately show ?thesis ..
    qed
  qed
  note add = parts [THEN conjunct1] and sub = parts [THEN conjunct2]
  show ?case
  proof (cases "as_const r")
    case None
    then show ?thesis using add sub by (simp add: Add_const.simps Sub_const.simps)
  next
    case (Some c)
    with r w have "Add_const K (cst w v) r = ConstantExpr (cst w (v + getZExtValue c))"
      "Sub_const K (cst w v) r = ConstantExpr (cst w (v - getZExtValue c))"
      by (simp_all add: Add_const.simps Sub_const.simps cst_add cst_sub)
    with Some add sub w show ?thesis by (simp add: means_def)
  qed
qed

lemma ap_cst: "wf_ap c \<Longrightarrow> cst (getBitWidth c) (getZExtValue c) = c"
  by (cases c) (simp add: inr_def)

lemma const_left:
  assumes "assign_ok \<sigma>" "wt r" "getWidth r = w" "wf_ap c" "getBitWidth c = w"
  shows add_partialR: "means \<sigma> (AddExpr_createPartialR K c r) w ((getZExtValue c + eval \<sigma> r) mod 2 ^ w)"
    and add_const: "means \<sigma> (Add_const K c r) w ((getZExtValue c + eval \<sigma> r) mod 2 ^ w)"
    and sub_partialR: "means \<sigma> (SubExpr_createPartialR K c r) w ((getZExtValue c - eval \<sigma> r) mod 2 ^ w)"
    and sub_const: "means \<sigma> (Sub_const K c r) w ((getZExtValue c - eval \<sigma> r) mod 2 ^ w)"
  using const_add_sub [OF assms(1,2,3), of "getZExtValue c"] ap_cst [OF assms(4)] assms(5) by auto

lemma sub_partial:
  assumes "assign_ok \<sigma>" "wt l" "getWidth l = w" "wf_ap c" "getBitWidth c = w"
  shows "means \<sigma> (SubExpr_createPartial K l c) w ((eval \<sigma> l - getZExtValue c) mod 2 ^ w)"
proof -
  have "0 < w" using assms wt_width_pos by auto
  with assms have "CE_binary K Sub (ConstantExpr_alloc K 0 (getBitWidth c)) c = cst w (- getZExtValue c)"
    using cst_sub [of w c 0] by simp
  with assms \<open>0 < w\<close> show ?thesis
    using add_partialR [OF assms(1-3), of "cst w (- getZExtValue c)"]
    by (simp add: SubExpr_createPartial_def AddExpr_createPartial_def mod_simps)
qed

lemma sub_constR:
  assumes "assign_ok \<sigma>" "wt l" "getWidth l = w" "wf_ap c" "getBitWidth c = w"
  shows "means \<sigma> (Sub_constR K l c) w ((eval \<sigma> l - getZExtValue c) mod 2 ^ w)"
  using sub_partial [OF assms] assms
  by (auto simp: Sub_constR_def CE_binary_eq means_def bv_width_def bv_bin_def take_bit_eq_mod wf_ap_def
    split: option.split)

text \<open>The combinations of a constant with the result of a nested call.\<close>

lemma combine:
  assumes ok: "assign_ok \<sigma>" and c: "wf_ap c" "getBitWidth c = w" and e: "means \<sigma> e w (x mod 2 ^ w)"
  shows "means \<sigma> (Add_const K c e) w ((getZExtValue c + x) mod 2 ^ w)"
    and "means \<sigma> (Sub_const K c e) w ((getZExtValue c - x) mod 2 ^ w)"
    and "means \<sigma> (Sub_constR K e c) w ((x - getZExtValue c) mod 2 ^ w)"
  using add_const [OF ok _ _ c, of e] sub_const [OF ok _ _ c, of e] sub_constR [OF ok _ _ c, of e] e
  by (simp_all add: means_def mod_simps)

lemma const_lhs_cases:
  assumes "wt e" "getWidth e = w"
  obtains (a) d b where "const_lhs Add e = Some (d, b)" "wf_ap d" "getBitWidth d = w" "wt b"
      "getWidth b = w" "size b < size e" "\<And>\<sigma>. eval \<sigma> e = (getZExtValue d + eval \<sigma> b) mod 2 ^ w"
  | (s) d b where "const_lhs Add e = None" "const_lhs Sub e = Some (d, b)" "wf_ap d" "getBitWidth d = w"
      "wt b" "getWidth b = w" "size b < size e" "\<And>\<sigma>. eval \<sigma> e = (getZExtValue d - eval \<sigma> b) mod 2 ^ w"
  | (n) "const_lhs Add e = None" "const_lhs Sub e = None"
proof (cases "const_lhs Add e")
  case (Some p)
  then obtain d b where "e = BinaryExpr Add (ConstantExpr d) b"
    by (cases p) (auto simp: const_lhs_Some)
  with assms show ?thesis by (intro a [of d b]) (auto simp: bv_width_def bv_bin_def take_bit_eq_mod)
next
  case None
  show ?thesis
  proof (cases "const_lhs Sub e")
    case (Some p)
    then obtain d b where "e = BinaryExpr Sub (ConstantExpr d) b"
      by (cases p) (auto simp: const_lhs_Some)
    with assms show ?thesis by (intro s [of d b]) (auto simp: bv_width_def bv_bin_def take_bit_eq_mod)
  qed (use None n in blast)
qed

lemma add_sub_make:
  assumes ok: "assign_ok \<sigma>"
  shows "wt l \<Longrightarrow> wt r \<Longrightarrow> getWidth l = w \<Longrightarrow> getWidth r = w \<Longrightarrow>
      means \<sigma> (Add_make K l r) w ((eval \<sigma> l + eval \<sigma> r) mod 2 ^ w) \<and>
      means \<sigma> (Sub_make K l r) w ((eval \<sigma> l - eval \<sigma> r) mod 2 ^ w)"
    (is "_ \<Longrightarrow> _ \<Longrightarrow> _ \<Longrightarrow> _ \<Longrightarrow> ?P l r")
proof (induction "(l, r)" arbitrary: l r rule: measure_induct_rule [where f = "\<lambda>(l, r). size l + size r"])
  case (less l r)
  note wt = less.prems
  have w: "0 < w" and inrs: "inr w (eval \<sigma> l)" "inr w (eval \<sigma> r)"
    using wt wt_width_pos [of l] eval_inr [OF ok, of l] eval_inr [OF ok, of r] by auto
  have IH: "?P a b" if "size a + size b < size l + size r" "wt a" "wt b" "getWidth a = w" "getWidth b = w" for a b
    using less.hyps [of a b] that by simp
  have xor: "means \<sigma> (XorExpr_create l r) w ((eval \<sigma> l + eval \<sigma> r) mod 2 ^ w)"
    "means \<sigma> (XorExpr_create l r) w ((eval \<sigma> l - eval \<sigma> r) mod 2 ^ w)" if "w = 1"
    using that wt inrs bool_add_sub [of "eval \<sigma> l" "eval \<sigma> r"]
    by (simp_all add: XorExpr_create_def means_def bv_width_def bv_bin_def take_bit_eq_mod)
  have plain: "means \<sigma> (BinaryExpr Add l r) w ((eval \<sigma> l + eval \<sigma> r) mod 2 ^ w)"
    "means \<sigma> (BinaryExpr Sub l r) w ((eval \<sigma> l - eval \<sigma> r) mod 2 ^ w)"
    using wt by (simp_all add: means_def bv_width_def bv_bin_def take_bit_eq_mod)
  have parts: "means \<sigma> (AddExpr_create K l r) w ((eval \<sigma> l + eval \<sigma> r) mod 2 ^ w) \<and>
      (l \<noteq> r \<longrightarrow> means \<sigma> (SubExpr_create K l r) w ((eval \<sigma> l - eval \<sigma> r) mod 2 ^ w))"
  proof (cases "w = 1")
    case True
    with xor wt show ?thesis by (simp add: AddExpr_create.simps SubExpr_create.simps)
  next
    case w1: False
    note unf = AddExpr_create.simps [of K l r] SubExpr_create.simps [of K l r] wt(3,4) w1 [simplified]
    show ?thesis
    proof (cases rule: const_lhs_cases [OF wt(1,3)])
      case (1 d b)
      note c = combine [OF ok 1(2,3)] and ih = IH [OF _ 1(4) wt(2) 1(5) wt(4)]
      show ?thesis
        using 1(6) ih c(1) [of "Add_make K b r" "eval \<sigma> b + eval \<sigma> r"]
          c(1) [of "Sub_make K b r" "eval \<sigma> b - eval \<sigma> r"] w
        by (simp add: unf 1(1,7) mod_simps algebra_simps)
    next
      case (2 d b)
      note c = combine [OF ok 2(3,4)] and ih = IH [OF _ wt(2) 2(5) wt(4) 2(6)] IH [OF _ 2(5) wt(2) 2(6) wt(4)]
      show ?thesis
        using 2(7) ih c(1) [of "Sub_make K r b" "eval \<sigma> r - eval \<sigma> b"]
          c(2) [of "Add_make K b r" "eval \<sigma> b + eval \<sigma> r"] w
        by (simp add: unf 2(1,2,8) mod_simps algebra_simps)
    next
      case l: 3
      show ?thesis
      proof (cases rule: const_lhs_cases [OF wt(2,4)])
        case (1 d b)
        note c = combine [OF ok 1(2,3)] and ih = IH [OF _ wt(1) 1(4) wt(3) 1(5)]
        show ?thesis
          using 1(6) ih c(1) [of "Add_make K l b" "eval \<sigma> l + eval \<sigma> b"]
            c(3) [of "Sub_make K l b" "eval \<sigma> l - eval \<sigma> b"] w
          by (simp add: unf l 1(1,7) mod_simps algebra_simps)
      next
        case (2 d b)
        note c = combine [OF ok 2(3,4)] and ih = IH [OF _ wt(1) 2(5) wt(3) 2(6)]
        show ?thesis
          using 2(7) ih c(1) [of "Sub_make K l b" "eval \<sigma> l - eval \<sigma> b"]
            c(3) [of "Add_make K l b" "eval \<sigma> l + eval \<sigma> b"] w
          by (simp add: unf l 2(1,2,8) mod_simps algebra_simps)
      next
        case 3
        then show ?thesis using plain w by (simp add: unf l)
      qed
    qed
  qed
  note add = parts [THEN conjunct1]
  have sub: "means \<sigma> (SubExpr_create K l r) w ((eval \<sigma> l - eval \<sigma> r) mod 2 ^ w)"
    using parts xor wt w by (cases "l = r") (simp_all add: SubExpr_create.simps [of K r r] means_def)
  have "means \<sigma> (Add_make K l r) w ((eval \<sigma> l + eval \<sigma> r) mod 2 ^ w)"
    unfolding Add_make_macro
    by (rule BCREATE_R_cases)
      (use add wt w add_partialR [OF ok, of r w] add_partialR [OF ok, of l w] in
        \<open>auto simp: AddExpr_createPartial_def means_def CE_binary_eq bv_width_def bv_bin_def take_bit_eq_mod add.commute\<close>)
  moreover have "means \<sigma> (Sub_make K l r) w ((eval \<sigma> l - eval \<sigma> r) mod 2 ^ w)"
    unfolding Sub_make_macro
    by (rule BCREATE_R_cases)
      (use sub wt w sub_partialR [OF ok, of r w] sub_partial [OF ok, of l w] in
        \<open>auto simp: means_def CE_binary_eq bv_width_def bv_bin_def take_bit_eq_mod\<close>)
  ultimately show ?case ..
qed


subsection \<open>The other binary operators\<close>

lemma mul_partial:
  assumes "assign_ok \<sigma>" "wt r" "wf_ap c" "getWidth r = getBitWidth c"
  shows "means \<sigma> (MulExpr_createPartialR c r) (getWidth r)
    (take_bit (getWidth r) (getZExtValue c * eval \<sigma> r))"
  using assms eval_inr [OF assms(1,2)] and_partial [OF assms] eval_bool [OF assms(1,2)]
  by (cases "getBitWidth c = 1")
    (auto simp: MulExpr_createPartialR_def AndExpr_createPartialR_def means_def bv_width_def bv_bin_def
      ap_isZero_def take_bit_inr wf_ap_def dest!: inr_Suc0D)

lemma mul_make:
  assumes "assign_ok \<sigma>" "wt l" "wt r" "getWidth l = getWidth r"
  shows "bin \<sigma> Mul l r (Mul_make K l r)"
  unfolding Mul_make_def
  by (rule BCREATE_R_cases)
    (use assms mul_partial [of \<sigma> l] mul_partial [of \<sigma> r] eval_bool [of \<sigma> l] eval_bool [of \<sigma> r] in
      \<open>auto simp: MulExpr_createPartial_def MulExpr_create_def bv_width_def bv_bin_def mult.commute
        means_def CE_binary_eq wf_ap_def\<close>)

lemma fold_make:
  assumes "wt l" "wt r" "getWidth l = getWidth r" "is_div k \<longrightarrow> eval \<sigma> r \<noteq> 0"
    and "bin \<sigma> k l r (c l r)"
  shows "bin \<sigma> k l r (BCREATE K k c l r)"
  by (rule BCREATE_cases) (use assms means_fold in \<open>auto simp: wf_ap_def\<close>)

text \<open>The booleans: every operator on one bit.\<close>

lemma bool_ops:
  assumes "inr 1 a" "inr 1 b" "is_div k \<longrightarrow> b \<noteq> 0"
  shows "bv_bin k 1 a b = (case k of
      Add \<Rightarrow> a XOR b | Sub \<Rightarrow> a XOR b | Mul \<Rightarrow> a AND b | UDiv \<Rightarrow> a | SDiv \<Rightarrow> a | URem \<Rightarrow> 0 | SRem \<Rightarrow> 0
    | And \<Rightarrow> a AND b | Or \<Rightarrow> a OR b | Xor \<Rightarrow> a XOR b
    | Shl \<Rightarrow> a AND of_bool (b = 0) | LShr \<Rightarrow> a AND of_bool (b = 0) | AShr \<Rightarrow> a
    | Eq \<Rightarrow> of_bool (a = b) | Ne \<Rightarrow> of_bool (a \<noteq> b)
    | Ult \<Rightarrow> of_bool (a = 0) AND b | Ule \<Rightarrow> of_bool (a = 0) OR b
    | Ugt \<Rightarrow> of_bool (b = 0) AND a | Uge \<Rightarrow> of_bool (b = 0) OR a
    | Slt \<Rightarrow> a AND of_bool (b = 0) | Sle \<Rightarrow> a OR of_bool (b = 0)
    | Sgt \<Rightarrow> b AND of_bool (a = 0) | Sge \<Rightarrow> b OR of_bool (a = 0))"
  using assms
  by (cases k) (auto dest!: inr_Suc0D simp: bv_bin_def sval_1 take_bit_eq_mod push_bit_eq_mult signed_modulo_int_def)

lemma and_make_m: "\<lbrakk>assign_ok \<sigma>; means \<sigma> e w a; means \<sigma> f w b\<rbrakk> \<Longrightarrow> means \<sigma> (And_make K e f) w (a AND b)"
  using and_make [of \<sigma> e f] by (auto simp: means_def bv_width_def bv_bin_def)

lemma or_make_m: "\<lbrakk>assign_ok \<sigma>; means \<sigma> e w a; means \<sigma> f w b\<rbrakk> \<Longrightarrow> means \<sigma> (Or_make K e f) w (a OR b)"
  using or_make [of \<sigma> e f] by (auto simp: means_def bv_width_def bv_bin_def)

lemma bool_inr: "assign_ok \<sigma> \<Longrightarrow> wt e \<Longrightarrow> getWidth e = 1 \<Longrightarrow> inr 1 (eval \<sigma> e)"
  using eval_inr [of \<sigma> e] by simp

lemma bool_case:
  assumes ok: "assign_ok \<sigma>" and wt: "wt l" "wt r" "getWidth l = getWidth r"
    and div: "is_div k \<longrightarrow> eval \<sigma> r \<noteq> 0"
    and e: "\<lbrakk>getWidth l = 1; getWidth r = 1; means \<sigma> l 1 (eval \<sigma> l); means \<sigma> r 1 (eval \<sigma> r);
        means \<sigma> (createIsZero K l) 1 (of_bool (eval \<sigma> l = 0));
        means \<sigma> (createIsZero K r) 1 (of_bool (eval \<sigma> r = 0))\<rbrakk> \<Longrightarrow> means \<sigma> e 1 v"
    and v: "\<lbrakk>getWidth l = 1; getWidth r = 1\<rbrakk> \<Longrightarrow> bv_bin k 1 (eval \<sigma> l) (eval \<sigma> r) = v"
  shows "bin \<sigma> k l r (if getWidth l = 1 then e else BinaryExpr k l r)"
proof (cases "getWidth l = 1")
  case True
  have "means \<sigma> e 1 v"
    using True wt is_zero [OF ok, of l] is_zero [OF ok, of r]
    by (intro e) (auto simp: means_def)
  with True v wt show ?thesis by (auto simp: bv_width_def)
qed (use wt bin_alloc in simp)

lemma bool_create:
  assumes ok: "assign_ok \<sigma>" and wt: "wt l" "wt r" "getWidth l = getWidth r"
  shows "eval \<sigma> r \<noteq> 0 \<Longrightarrow> bin \<sigma> UDiv l r (UDivExpr_create l r)"
    and "eval \<sigma> r \<noteq> 0 \<Longrightarrow> bin \<sigma> SDiv l r (SDivExpr_create l r)"
    and "eval \<sigma> r \<noteq> 0 \<Longrightarrow> bin \<sigma> URem l r (URemExpr_create K l r)"
    and "eval \<sigma> r \<noteq> 0 \<Longrightarrow> bin \<sigma> SRem l r (SRemExpr_create K l r)"
    and "bin \<sigma> Shl l r (ShlExpr_create K l r)"
    and "bin \<sigma> LShr l r (LShrExpr_create K l r)"
    and "bin \<sigma> AShr l r (AShrExpr_create l r)"
    and "bin \<sigma> Ult l r (UltExpr_create K l r)"
    and "bin \<sigma> Ule l r (UleExpr_create K l r)"
    and "bin \<sigma> Slt l r (SltExpr_create K l r)"
    and "bin \<sigma> Sle l r (SleExpr_create K l r)"
proof -
  note b = bool_ops [OF bool_inr [OF ok wt(1)] bool_inr [OF ok wt(2)]]
  note defs = UDivExpr_create_def SDivExpr_create_def URemExpr_create_def SRemExpr_create_def
    ShlExpr_create_def LShrExpr_create_def AShrExpr_create_def UltExpr_create_def UleExpr_create_def
    SltExpr_create_def SleExpr_create_def
  note step = bool_case [OF ok wt] 
  show "eval \<sigma> r \<noteq> 0 \<Longrightarrow> bin \<sigma> UDiv l r (UDivExpr_create l r)"
    unfolding defs by (rule step, simp, assumption, simp add: b [of UDiv, simplified])
  show "eval \<sigma> r \<noteq> 0 \<Longrightarrow> bin \<sigma> SDiv l r (SDivExpr_create l r)"
    unfolding defs by (rule step, simp, assumption, simp add: b [of SDiv, simplified])
  show "eval \<sigma> r \<noteq> 0 \<Longrightarrow> bin \<sigma> URem l r (URemExpr_create K l r)"
    unfolding defs by (rule step [where v = 0], simp, simp add: means_def, simp add: b [of URem, simplified])
  show "eval \<sigma> r \<noteq> 0 \<Longrightarrow> bin \<sigma> SRem l r (SRemExpr_create K l r)"
    unfolding defs by (rule step [where v = 0], simp, simp add: means_def, simp add: b [of SRem, simplified])
  show "bin \<sigma> Shl l r (ShlExpr_create K l r)"
    unfolding defs by (rule step, simp, rule and_make_m [OF ok], assumption, assumption, simp add: b [of Shl, simplified])
  show "bin \<sigma> LShr l r (LShrExpr_create K l r)"
    unfolding defs by (rule step, simp, rule and_make_m [OF ok], assumption, assumption, simp add: b [of LShr, simplified])
  show "bin \<sigma> AShr l r (AShrExpr_create l r)"
    unfolding defs by (rule step, simp, assumption, simp add: b [of AShr, simplified])
  show "bin \<sigma> Ult l r (UltExpr_create K l r)"
    unfolding defs by (rule step, simp, rule and_make_m [OF ok], assumption, assumption, simp add: b [of Ult, simplified])
  show "bin \<sigma> Ule l r (UleExpr_create K l r)"
    unfolding defs by (rule step, simp, rule or_make_m [OF ok], assumption, assumption, simp add: b [of Ule, simplified])
  show "bin \<sigma> Slt l r (SltExpr_create K l r)"
    unfolding defs by (rule step, simp, rule and_make_m [OF ok], assumption, assumption, simp add: b [of Slt, simplified])
  show "bin \<sigma> Sle l r (SleExpr_create K l r)"
    unfolding defs by (rule step, simp, rule or_make_m [OF ok], assumption, assumption, simp add: b [of Sle, simplified])
qed

lemma ne_make:
  assumes ok: "assign_ok \<sigma>" and wt: "wt l" "wt r" "getWidth l = getWidth r"
  shows "bin \<sigma> Ne l r (Ne_make K l r)"
  using eq_make [OF ok wt] eq_make [OF ok, of "ConstantExpr (APInt 1 0)" "Eq_make K l r"]
  by (auto simp: Ne_make_def means_def bv_width_def bv_bin_def)

lemma bin_swap:
  assumes "bin \<sigma> k r l e" "getWidth l = getWidth r" "(k, k') \<in> {(Ult, Ugt), (Ule, Uge), (Slt, Sgt), (Sle, Sge)}"
  shows "bin \<sigma> k' l r e"
  using assms by (auto simp: bv_width_def bv_bin_def)

lemma binary_make:
  assumes ok: "assign_ok \<sigma>" and wt: "wt l" "wt r" "getWidth l = getWidth r"
    and div: "is_div k \<longrightarrow> eval \<sigma> r \<noteq> 0"
  shows "bin \<sigma> k l r (Binary_make K k l r)"
proof -
  note wt' = wt(2,1) wt(3) [symmetric]
  note fold = fold_make [OF wt, of _ \<sigma>] and fold' = fold_make [OF wt']
  note create = bool_create [OF ok wt] and create' = bool_create [OF ok wt']
  have arith: "bin \<sigma> Add l r (Add_make K l r)" "bin \<sigma> Sub l r (Sub_make K l r)"
    using add_sub_make [OF ok wt(1,2) refl] wt(3) by (simp_all add: bv_width_def bv_bin_def take_bit_eq_mod)
  show ?thesis
  proof (cases k)
    case Ugt then show ?thesis
      using bin_swap [OF fold' [of Ult \<sigma> "UltExpr_create K"], of k] create'(8) wt by simp
  next
    case Uge then show ?thesis
      using bin_swap [OF fold' [of Ule \<sigma> "UleExpr_create K"], of k] create'(9) wt by simp
  next
    case Sgt then show ?thesis
      using bin_swap [OF fold' [of Slt \<sigma> "SltExpr_create K"], of k] create'(10) wt by simp
  next
    case Sge then show ?thesis
      using bin_swap [OF fold' [of Sle \<sigma> "SleExpr_create K"], of k] create'(11) wt by simp
  qed (use arith div mul_make [OF ok wt] and_make [OF ok wt] or_make [OF ok wt] xor_make [OF ok wt]
      eq_make [OF ok wt] ne_make [OF ok wt] in \<open>simp_all add: fold create\<close>)
qed

subsection \<open>Reads, selections, rebuilding\<close>

lemma read_scan:
  assumes ok: "assign_ok \<sigma>" and i: "wt i" "getWidth i = arr_domain a"
  shows "wt_updates us a \<Longrightarrow> Read_scan K i us = Some v \<Longrightarrow>
    means \<sigma> v (arr_range a) (eval_read \<sigma> us a (eval \<sigma> i))"
proof (induction us rule: updates.induct [where ?P1.0 = "\<lambda>_. True"])
  case (UpdateNode ui uv un)
  then obtain ce where ce: "Eq_make K i ui = ConstantExpr ce"
    by (auto split: option.splits)
  have "means \<sigma> (Eq_make K i ui) 1 (of_bool (eval \<sigma> i = eval \<sigma> ui))"
    using eq_make [OF ok, of i ui] i UpdateNode.prems by (simp add: bv_width_def bv_bin_def)
  with ce have "ap_isTrue ce \<longleftrightarrow> eval \<sigma> i = eval \<sigma> ui"
    by (auto simp: means_def ap_tests)
  with UpdateNode ce show ?case
    by (auto simp: means_def split: if_splits)
qed auto

lemma read_make:
  assumes ok: "assign_ok \<sigma>" and "wt (ReadExpr a us i)"
  shows "means \<sigma> (Read_make K a us i) (arr_range a) (eval_read \<sigma> us a (eval \<sigma> i))"
proof (cases "Read_scan K i us")
  case None
  with assms show ?thesis by (simp add: Read_make_def means_def)
next
  case (Some v)
  with assms read_scan [OF ok, of i a us v] show ?thesis by (simp add: Read_make_def)
qed

lemma ap_isTrue_iff: "getBitWidth c = 1 \<Longrightarrow> ap_isTrue c \<longleftrightarrow> getZExtValue c \<noteq> 0"
  by (simp add: ap_tests)

lemma select_make:
  assumes ok: "assign_ok \<sigma>" and wt: "wt (SelectExpr c t f)"
  shows "means \<sigma> (Select_make K c t f) (getWidth t) (if eval \<sigma> c \<noteq> 0 then eval \<sigma> t else eval \<sigma> f)"
proof -
  have c: "wt c" "wt t" "wt f" "getWidth c = 1" "getWidth f = getWidth t" using wt by auto
  have vals: "eval \<sigma> c = 0 \<or> eval \<sigma> c = 1" "getWidth t = 1 \<longrightarrow> eval \<sigma> t = 0 \<or> eval \<sigma> t = 1"
    "getWidth t = 1 \<longrightarrow> eval \<sigma> f = 0 \<or> eval \<sigma> f = 1"
    using c eval_bool [OF ok, of c] eval_bool [OF ok, of t] eval_bool [OF ok, of f] by auto
  have bools: "means \<sigma> (Or_make K c f) 1 (eval \<sigma> c OR eval \<sigma> f)"
    "means \<sigma> (And_make K (createIsZero K c) f) 1 (of_bool (eval \<sigma> c = 0) AND eval \<sigma> f)"
    "means \<sigma> (Or_make K (createIsZero K c) t) 1 (of_bool (eval \<sigma> c = 0) OR eval \<sigma> t)"
    "means \<sigma> (And_make K c t) 1 (eval \<sigma> c AND eval \<sigma> t)" if "getWidth t = 1"
    using that c or_make [OF ok, of c f] and_make [OF ok, of c t]
      or_make_m [OF ok is_zero [OF ok c(1)], of t "eval \<sigma> t"] and_make_m [OF ok is_zero [OF ok c(1)], of f "eval \<sigma> f"]
    by (simp_all add: bv_width_def bv_bin_def means_def)
  have sel: "means \<sigma> (SelectExpr c t f) (getWidth t) (if eval \<sigma> c \<noteq> 0 then eval \<sigma> t else eval \<sigma> f)"
    using wt by (simp add: means_def)
  show ?thesis
  proof (cases "as_const c = None \<and> t \<noteq> f \<and> getWidth t = 1")
    case False
    show ?thesis
    proof (cases "as_const c")
      case (Some ce)
      with c show ?thesis by (simp add: Select_make_def ap_isTrue_iff means_def)
    next
      case None
      have "Select_make K c t f = (if t = f then t else SelectExpr c t f)"
        using None False by (auto simp: Select_make_def)
      with sel means_self [OF c(2), of \<sigma>] show ?thesis by (cases "t = f") auto
    qed
  next
    case True
    with bools have b: "means \<sigma> (Or_make K c f) 1 (eval \<sigma> c OR eval \<sigma> f)"
      "means \<sigma> (And_make K (createIsZero K c) f) 1 (of_bool (eval \<sigma> c = 0) AND eval \<sigma> f)"
      "means \<sigma> (Or_make K (createIsZero K c) t) 1 (of_bool (eval \<sigma> c = 0) OR eval \<sigma> t)"
      "means \<sigma> (And_make K c t) 1 (eval \<sigma> c AND eval \<sigma> t)" by auto
    show ?thesis
    proof (cases "as_const t")
      case (Some tc)
      with True have "Select_make K c t f =
          (if ap_isTrue tc then Or_make K c f else And_make K (createIsZero K c) f)"
        by (simp add: Select_make_def)
      with Some True vals c b(1,2) show ?thesis
        by (auto simp: ap_isTrue_iff)
    next
      case t: None
      show ?thesis
      proof (cases "as_const f")
        case (Some fc)
        with True t have "Select_make K c t f =
            (if ap_isTrue fc then Or_make K (createIsZero K c) t else And_make K c t)"
          by (simp add: Select_make_def)
        with Some True vals c b(3,4) show ?thesis
          by (auto simp: ap_isTrue_iff)
      next
        case None
        with True t sel show ?thesis by (simp add: Select_make_def)
      qed
    qed
  qed
qed

text \<open>\<^verbatim>\<open>rebuild\<close> with kids that mean the same.\<close>

lemma rebuild_make:
  assumes ok: "assign_ok \<sigma>" and wt: "wt e"
    and div: "\<And>k l r. e = BinaryExpr k l r \<Longrightarrow> is_div k \<Longrightarrow> eval \<sigma> r \<noteq> 0"
    and ks: "list_all2 (\<lambda>k k'. means \<sigma> k' (getWidth k) (eval \<sigma> k)) (kids e) ks"
  shows "means \<sigma> (rebuild K e ks) (getWidth e) (eval \<sigma> e)"
proof (cases e)
  case (ConstantExpr c)
  with wt show ?thesis by (simp add: means_def)
next
  case (NotOptimizedExpr x)
  with ks show ?thesis by (auto simp: list_all2_Cons1 means_def)
next
  case (ReadExpr a us i)
  with ks obtain i' where "ks = [i']" "means \<sigma> i' (getWidth i) (eval \<sigma> i)"
    by (auto simp: list_all2_Cons1)
  with ReadExpr wt read_make [OF ok, of a us i'] show ?thesis by (simp add: means_def)
next
  case (SelectExpr c t f)
  with ks obtain c' t' f' where "ks = [c', t', f']" "means \<sigma> c' (getWidth c) (eval \<sigma> c)"
    "means \<sigma> t' (getWidth t) (eval \<sigma> t)" "means \<sigma> f' (getWidth f) (eval \<sigma> f)"
    by (auto simp: list_all2_Cons1)
  with SelectExpr wt select_make [OF ok, of c' t' f'] show ?thesis by (simp add: means_def)
next
  case (ConcatExpr l r)
  with ks obtain l' r' where "ks = [l', r']" "means \<sigma> l' (getWidth l) (eval \<sigma> l)"
    "means \<sigma> r' (getWidth r) (eval \<sigma> r)" by (auto simp: list_all2_Cons1)
  with ConcatExpr concat_make [OF ok, of l' r'] show ?thesis by (simp add: means_def)
next
  case (ExtractExpr x off w)
  with ks obtain x' where "ks = [x']" "means \<sigma> x' (getWidth x) (eval \<sigma> x)"
    by (auto simp: list_all2_Cons1)
  with ExtractExpr wt extract_make [OF ok, of x' w off] show ?thesis by (simp add: means_def)
next
  case (ZExtExpr x w)
  with ks obtain x' where "ks = [x']" "means \<sigma> x' (getWidth x) (eval \<sigma> x)"
    by (auto simp: list_all2_Cons1)
  with ZExtExpr wt zext_make [OF ok, of x' w] wt_width_pos [of x] show ?thesis by (simp add: means_def)
next
  case (SExtExpr x w)
  with ks obtain x' where "ks = [x']" "means \<sigma> x' (getWidth x) (eval \<sigma> x)"
    by (auto simp: list_all2_Cons1)
  with SExtExpr wt sext_make [OF ok, of x' w] wt_width_pos [of x] show ?thesis by (simp add: means_def)
next
  case (NotExpr x)
  with ks obtain x' where "ks = [x']" "means \<sigma> x' (getWidth x) (eval \<sigma> x)"
    by (auto simp: list_all2_Cons1)
  with NotExpr wt not_make [OF ok, of x'] show ?thesis by (simp add: means_def)
next
  case (BinaryExpr k l r)
  with ks obtain l' r' where "ks = [l', r']" "means \<sigma> l' (getWidth l) (eval \<sigma> l)"
    "means \<sigma> r' (getWidth r) (eval \<sigma> r)" by (auto simp: list_all2_Cons1)
  with BinaryExpr wt div binary_make [OF ok, of l' r' k] show ?thesis by (simp add: means_def)
qed

lemma implies_make:
  assumes "assign_ok \<sigma>" "wt h" "wt c" "getWidth h = 1" "getWidth c = 1"
  shows "means \<sigma> (createImplies K h c) 1 (of_bool (eval \<sigma> h \<noteq> 0 \<longrightarrow> eval \<sigma> c \<noteq> 0))"
proof -
  have "means \<sigma> (createImplies K h c) 1 (of_bool (eval \<sigma> h = 0) OR eval \<sigma> c)"
    using or_make_m [OF assms(1) is_zero [OF assms(1,2)], of c "eval \<sigma> c"] assms
    by (simp add: createImplies_def means_def)
  moreover have "of_bool (eval \<sigma> h = 0) OR eval \<sigma> c = of_bool (eval \<sigma> h \<noteq> 0 \<longrightarrow> eval \<sigma> c \<noteq> 0)"
    using eval_bool [of \<sigma> c] assms by auto
  ultimately show ?thesis by (simp only:)
qed


end

subsection \<open>The environment that computes\<close>

interpretation std_e: env "std_env opt"
  by unfold_locales
    (simp_all add: std_env_def apint_ops.extend_def expr_env.fields_def std_apint_def)

interpretation std_d: default_env "std_env False"
  by unfold_locales (simp add: std_env_def apint_ops.extend_def expr_env.fields_def)

section \<open>Properties of the constructors\<close>

text \<open>C1: for every binary kind, the expression that \<^verbatim>\<open>XExpr::create(l, r)\<close> returns is well typed, has
  the width of the kind's result and denotes the operator applied to the operands, however the
  canonicalisation rewrote it, for every assignment in which a division does not have divisor zero.\<close>

theorem Binary_make_sound:
  assumes "default_env K" "assign_ok \<sigma>" "wt l" "wt r" "getWidth l = getWidth r"
    and "is_div k \<longrightarrow> eval \<sigma> r \<noteq> 0"
  shows "wt (Binary_make K k l r) \<and> getWidth (Binary_make K k l r) = bv_width k (getWidth l) \<and>
    eval \<sigma> (Binary_make K k l r) = bv_bin k (getWidth l) (eval \<sigma> l) (eval \<sigma> r)"
  using default_env.binary_make [OF assms] by (simp add: means_def)

text \<open>Concrete data for the witnesses: an array of bytes, an assignment, reads of the array.\<close>

definition sym_array :: array where
  "sym_array = \<lparr>arr_addr = 1, arr_name = ''a'', arr_size = 4, arr_domain = 32, arr_range = 8,
     constantValues = []\<rparr>"

definition seq_assignment :: assignment where
  "seq_assignment a i = take_bit (arr_range a) (i + 3)"

abbreviation rd :: "int \<Rightarrow> expr" where
  "rd i \<equiv> ReadExpr sym_array UpdateNil (ConstantExpr (APInt 32 i))"

lemma sym_array_simps [simp]:
  "wf_array sym_array" "arr_domain sym_array = 32" "arr_range sym_array = 8" "arr_size sym_array = 4"
  "isSymbolicArray sym_array" "constantValues sym_array = []"
  by (simp_all add: sym_array_def wf_array_def isSymbolicArray_def)

lemma seq_assign_ok [simp]: "assign_ok seq_assignment"
  by (simp add: assign_ok_def seq_assignment_def)

lemma eval_rd [simp]: "eval seq_assignment (rd i) = take_bit 8 (i + 3)"
  by (simp add: initial_value_def isConstantArray_def seq_assignment_def)

lemma wt_rd [simp]: "0 \<le> i \<Longrightarrow> i < 4 \<Longrightarrow> wt (rd i)"
  by (simp add: inr_def)

theorem Binary_make_sound_witness:
  "eval seq_assignment (Binary_make (std_env False) Sub (Binary_make (std_env False) Add (ConstantExpr (APInt 8 7)) (rd 1)) (rd 2)) = 6"
proof -
  have 1: "wt (Binary_make (std_env False) Add (ConstantExpr (APInt 8 7)) (rd 1)) \<and>
    getWidth (Binary_make (std_env False) Add (ConstantExpr (APInt 8 7)) (rd 1)) = 8 \<and>
    eval seq_assignment (Binary_make (std_env False) Add (ConstantExpr (APInt 8 7)) (rd 1)) = 11"
    using Binary_make_sound [OF std_d.default_env_axioms seq_assign_ok, of "ConstantExpr (APInt 8 7)" "rd 1" Add]
    by (simp add: inr_def bv_width_def bv_bin_def take_bit_eq_mod del: eval.simps(3) Binary_make.simps)
  then show ?thesis
    using Binary_make_sound [OF std_d.default_env_axioms seq_assign_ok _ _ _, of _ "rd 2" Sub]
    by (simp add: inr_def bv_width_def bv_bin_def take_bit_eq_mod del: eval.simps(3) Binary_make.simps)
qed

text \<open>\<^verbatim>\<open>ExtractExpr::create\<close> denotes the \<open>w\<close> bits from offset \<open>off\<close>, also after it has been pushed
  through nested concatenations, and is well typed at width \<open>w\<close>.\<close>

lemma Extract_make_sound:
  assumes "env K" "assign_ok \<sigma>" "wt e" "0 < w" "off + w \<le> getWidth e"
  shows "wt (Extract_make K e off w) \<and> getWidth (Extract_make K e off w) = w \<and>
    eval \<sigma> (Extract_make K e off w) = take_bit w (drop_bit off (eval \<sigma> e))"
  using env.extract_make [OF assms] by (simp add: means_def)

text \<open>\<^verbatim>\<open>ConcatExpr::create(l, r)\<close> denotes \<open>l\<close> above \<open>r\<close>, also when it merges two contiguous
  extracts of one expression.\<close>

lemma Concat_make_sound:
  assumes "env K" "assign_ok \<sigma>" "wt l" "wt r"
  shows "wt (Concat_make K l r) \<and> getWidth (Concat_make K l r) = getWidth l + getWidth r \<and>
    eval \<sigma> (Concat_make K l r) = concat_bit (getWidth r) (eval \<sigma> r) (eval \<sigma> l)"
  using env.concat_make [OF assms] by (simp add: means_def)

text \<open>\<^verbatim>\<open>ReadExpr::create\<close> denotes the value of the newest write at the index, or the initial
  contents, although it walks back through the writes whose index provably differs.\<close>

lemma Read_make_sound:
  assumes "default_env K" "assign_ok \<sigma>" "wt (ReadExpr a us i)"
  shows "wt (Read_make K a us i) \<and> getWidth (Read_make K a us i) = arr_range a \<and>
    eval \<sigma> (Read_make K a us i) = eval_read \<sigma> us a (eval \<sigma> i)"
  using default_env.read_make [OF assms] by (simp add: means_def)

text \<open>\<^verbatim>\<open>SelectExpr::create\<close> denotes the arm the condition picks, also in the boolean cases, where it
  builds a conjunction or a disjunction.\<close>

lemma Select_make_sound:
  assumes "default_env K" "assign_ok \<sigma>" "wt (SelectExpr c t f)"
  shows "wt (Select_make K c t f) \<and> getWidth (Select_make K c t f) = getWidth t \<and>
    eval \<sigma> (Select_make K c t f) = (if eval \<sigma> c \<noteq> 0 then eval \<sigma> t else eval \<sigma> f)"
  using default_env.select_make [OF assms] by (simp add: means_def)

text \<open>\<^verbatim>\<open>NotExpr::create\<close>, \<^verbatim>\<open>ZExtExpr::create\<close> and \<^verbatim>\<open>SExtExpr::create\<close> denote the complement, the zero
  extension and the sign extension at the requested width, which may also be narrower.\<close>

lemma casts_sound:
  assumes "env K" "assign_ok \<sigma>" "wt e" "0 < w"
  shows "wt (ZExt_make K e w) \<and> getWidth (ZExt_make K e w) = w \<and>
      eval \<sigma> (ZExt_make K e w) = take_bit w (eval \<sigma> e) \<and>
    wt (SExt_make K e w) \<and> getWidth (SExt_make K e w) = w \<and>
      eval \<sigma> (SExt_make K e w) = take_bit w (sval (getWidth e) (eval \<sigma> e)) \<and>
    wt (Not_make K e) \<and> getWidth (Not_make K e) = getWidth e \<and>
      eval \<sigma> (Not_make K e) = take_bit (getWidth e) (NOT (eval \<sigma> e))"
  using env.zext_make [OF assms] env.sext_make [OF assms] env.not_make [OF assms(1-3)]
  by (simp_all add: means_def)

text \<open>C2: \<^verbatim>\<open>create\<close> of \<^verbatim>\<open>ExtractExpr\<close>, \<^verbatim>\<open>ConcatExpr\<close>, \<^verbatim>\<open>ZExtExpr\<close>, \<^verbatim>\<open>SExtExpr\<close> and \<^verbatim>\<open>NotExpr\<close>
  return well-typed expressions of the requested widths that denote the extracted bits, \<open>l\<close> above \<open>r\<close>, the two
  extensions (also to a narrower width) and the complement, through the pushing of extracts into concatenations
  and the merging of contiguous extracts.\<close>

theorem slices_casts_sound:
  assumes "env K" "assign_ok \<sigma>" "wt e" "wt r" "0 < w"
  shows "(off + w \<le> getWidth e \<longrightarrow> wt (Extract_make K e off w) \<and> getWidth (Extract_make K e off w) = w \<and>
      eval \<sigma> (Extract_make K e off w) = take_bit w (drop_bit off (eval \<sigma> e))) \<and>
    (wt (Concat_make K e r) \<and> getWidth (Concat_make K e r) = getWidth e + getWidth r \<and>
      eval \<sigma> (Concat_make K e r) = concat_bit (getWidth r) (eval \<sigma> r) (eval \<sigma> e)) \<and>
    (wt (ZExt_make K e w) \<and> getWidth (ZExt_make K e w) = w \<and> eval \<sigma> (ZExt_make K e w) = take_bit w (eval \<sigma> e)) \<and>
    (wt (SExt_make K e w) \<and> getWidth (SExt_make K e w) = w \<and>
      eval \<sigma> (SExt_make K e w) = take_bit w (sval (getWidth e) (eval \<sigma> e))) \<and>
    (wt (Not_make K e) \<and> getWidth (Not_make K e) = getWidth e \<and>
      eval \<sigma> (Not_make K e) = take_bit (getWidth e) (NOT (eval \<sigma> e)))"
  using Extract_make_sound [OF assms(1-3,5)] Concat_make_sound [OF assms(1-4)] casts_sound [OF assms(1-3,5)] by simp

theorem slices_casts_sound_witness:
  "eval seq_assignment (Extract_make (std_env True) (ConcatExpr (rd 1) (rd 2)) 4 8) = 64 \<and>
   Extract_make (std_env True) (ConcatExpr (rd 1) (rd 2)) 4 8 =
     ConcatExpr (ExtractExpr (rd 1) 0 4) (ExtractExpr (rd 2) 4 4)"
proof -
  have "eval seq_assignment (Extract_make (std_env True) (ConcatExpr (rd 1) (rd 2)) 4 8) = 64"
    using slices_casts_sound [OF std_e.env_axioms seq_assign_ok, of "ConcatExpr (rd 1) (rd 2)" "rd 1" 8 4]
    by (simp add: inr_def take_bit_eq_mod drop_bit_eq_div concat_bit_eq push_bit_eq_mult del: eval.simps(3))
  moreover have "Extract_make (std_env True) (ConcatExpr (rd 1) (rd 2)) 4 8 =
     ConcatExpr (ExtractExpr (rd 1) 0 4) (ExtractExpr (rd 2) 4 4)"
    by (simp add: Extract_make.simps Concat_make.simps)
  ultimately show ?thesis ..
qed

text \<open>C3: \<^verbatim>\<open>ReadExpr::create\<close> denotes the value of the newest write at the index, or the initial contents, although
  it walks back through the writes whose index provably differs; \<^verbatim>\<open>SelectExpr::create\<close> denotes the arm that the
  condition picks, also where it builds a conjunction or a disjunction.\<close>

theorem read_select_sound:
  assumes "default_env K" "assign_ok \<sigma>"
  shows "(wt (ReadExpr a us i) \<longrightarrow> wt (Read_make K a us i) \<and> getWidth (Read_make K a us i) = arr_range a \<and>
      eval \<sigma> (Read_make K a us i) = eval_read \<sigma> us a (eval \<sigma> i)) \<and>
    (wt (SelectExpr c t f) \<longrightarrow> wt (Select_make K c t f) \<and> getWidth (Select_make K c t f) = getWidth t \<and>
      eval \<sigma> (Select_make K c t f) = (if eval \<sigma> c \<noteq> 0 then eval \<sigma> t else eval \<sigma> f))"
  using Read_make_sound [OF assms] Select_make_sound [OF assms] by blast

theorem read_select_sound_witness:
  "eval seq_assignment (Read_make (std_env False) sym_array
     (UpdateNode (ConstantExpr (APInt 32 1)) (rd 0) (UpdateNode (ConstantExpr (APInt 32 2)) (rd 3) UpdateNil))
     (ConstantExpr (APInt 32 2))) = 6 \<and>
   eval seq_assignment (Select_make (std_env False) (BinaryExpr Ult (rd 0) (rd 1))
     (ConstantExpr (APInt 1 0)) (BinaryExpr Eq (rd 2) (rd 3))) = 0"
  using read_select_sound [OF std_d.default_env_axioms seq_assign_ok, of sym_array
      "UpdateNode (ConstantExpr (APInt 32 1)) (rd 0) (UpdateNode (ConstantExpr (APInt 32 2)) (rd 3) UpdateNil)"
      "ConstantExpr (APInt 32 2)" "BinaryExpr Ult (rd 0) (rd 1)" "ConstantExpr (APInt 1 0)" "BinaryExpr Eq (rd 2) (rd 3)"]
  by (simp add: inr_def bv_width_def bv_bin_def take_bit_eq_mod del: eval.simps(3))

text \<open>\<^verbatim>\<open>rebuild(kids)\<close>, the virtual method with which the rewriters put an expression together
  again, keeps the meaning of the expression when every new kid means what the old one meant.\<close>

lemma rebuild_sound:
  assumes "default_env K" "assign_ok \<sigma>" "wt e"
    and "\<And>k l r. e = BinaryExpr k l r \<Longrightarrow> is_div k \<Longrightarrow> eval \<sigma> r \<noteq> 0"
    and "list_all2 (\<lambda>k k'. wt k' \<and> getWidth k' = getWidth k \<and> eval \<sigma> k' = eval \<sigma> k) (kids e) ks"
  shows "wt (rebuild K e ks) \<and> getWidth (rebuild K e ks) = getWidth e \<and>
    eval \<sigma> (rebuild K e ks) = eval \<sigma> e"
  using default_env.rebuild_make [OF assms(1-4)] assms(5) by (simp add: means_def)

end
