(* ===== verification/ExprUtil.thy ===== *)
theory ExprUtil
  imports ExprCreateSound
begin

section \<open>Reads of an expression (lib/Expr/ExprUtil.cpp)\<close>

text \<open>
  \<^verbatim>\<open>findReads\<close> collects the reads of an expression with a stack and a table of visited expressions;
  \<^verbatim>\<open>findSymbolicObjects\<close> collects the symbolic arrays it reads. Both are proved to find exactly what the
  expression contains, and the value of an expression is shown to depend on what its reads may touch alone.
\<close>

subsection \<open>findReads\<close>

text \<open>The expressions of the update nodes from the head on, in the order of the loop.\<close>

primrec node_exprs :: "updates \<Rightarrow> expr list" where
  "node_exprs UpdateNil = []"
| "node_exprs (UpdateNode i v n) = i # v # node_exprs n"

text \<open>The stack (its top first) and \<^verbatim>\<open>visited\<close>.\<close>

definition push_new :: "expr \<Rightarrow> expr list \<times> expr set \<Rightarrow> expr list \<times> expr set" where
  "push_new k sv = (case sv of (stack, visited) \<Rightarrow>
     if \<not> is_constant k \<and> k \<notin> visited then (k # stack, insert k visited) else (stack, visited))"

text \<open>
  \<open>ups\<close> is the set of heads seen. The code keeps their addresses; an equal list at another address would push
  nothing, since its expressions are visited already.
\<close>

lemma sum_size_push: "sum_list (map size (fst (push_new k sv))) \<le> size k + sum_list (map size (fst sv))"
  by (auto simp: push_new_def split: prod.split)

lemma sum_size_pushes:
  "sum_list (map size (fst (fold push_new ks sv))) \<le> sum_list (map size ks) + sum_list (map size (fst sv))"
proof (induction ks arbitrary: sv)
  case (Cons k ks)
  from Cons.IH [of "push_new k sv"] sum_size_push [of k sv] show ?case by simp
qed simp

lemma sum_size_nodes: "sum_list (map size (node_exprs us)) \<le> size us"
  by (induction us rule: updates.induct [where ?P1.0 = "\<lambda>_. True"]) auto

definition read_succs :: "bool \<Rightarrow> updates set \<Rightarrow> expr \<Rightarrow> expr list" where
  "read_succs visitUpdates ups e = (case e of
     ReadExpr a us i \<Rightarrow> i # (if visitUpdates \<and> us \<notin> ups then node_exprs us else [])
   | _ \<Rightarrow> kids e)"

definition seen_heads :: "bool \<Rightarrow> updates set \<Rightarrow> expr \<Rightarrow> updates set" where
  "seen_heads visitUpdates ups e = (case e of
     ReadExpr a us i \<Rightarrow> if visitUpdates then insert us ups else ups | _ \<Rightarrow> ups)"

definition found_read :: "expr \<Rightarrow> expr list" where
  "found_read e = (case e of ReadExpr a us i \<Rightarrow> [e] | _ \<Rightarrow> [])"

lemma sum_size_succs: "read_succs vu ups e = [] \<or> sum_list (map size (read_succs vu ups e)) < size e"
proof (cases e)
  case (ReadExpr a us i)
  then show ?thesis using sum_size_nodes [of us] by (auto simp: read_succs_def)
qed (auto simp: read_succs_def)

function find_reads_loop ::
  "bool \<Rightarrow> expr list \<times> expr set \<Rightarrow> updates set \<Rightarrow> expr list \<Rightarrow> expr list" where
  "find_reads_loop visitUpdates ([], visited) ups results = results"
| "find_reads_loop visitUpdates (e # stack, visited) ups results =
     find_reads_loop visitUpdates (fold push_new (read_succs visitUpdates ups e) (stack, visited))
       (seen_heads visitUpdates ups e) (results @ found_read e)"
  by pat_completeness auto
termination
proof (relation "measures [\<lambda>(vu, sv, ups, res). sum_list (map size (fst sv)), \<lambda>(vu, sv, ups, res). length (fst sv)]", goal_cases)
  case (2 vu e stack vis ups res)
  then show ?case
    using sum_size_pushes [of "read_succs vu ups e" "(stack, vis)"] sum_size_succs [of vu ups e] by auto
qed simp

definition findReads :: "expr \<Rightarrow> bool \<Rightarrow> expr list" where
  "findReads e visitUpdates = find_reads_loop visitUpdates (push_new e ([], {})) {} []"

subsection \<open>findSymbolicObjects\<close>

text \<open>
  \<^verbatim>\<open>SymbolicObjectFinder\<close> is an \<^verbatim>\<open>ExprVisitor\<close> whose \<^verbatim>\<open>visitRead\<close> visits the update nodes, notes the root and
  goes on to the index. The table of visited expressions only saves visits that find known arrays again;
  \<open>results\<close> is the set of the elements of \<open>objects\<close>.
\<close>

definition note_object :: "array \<Rightarrow> array list \<Rightarrow> array list" where
  "note_object a objects = (if isSymbolicArray a \<and> a \<notin> set objects then objects @ [a] else objects)"

primrec finder_visit :: "expr \<Rightarrow> array list \<Rightarrow> array list"
  and finder_updates :: "updates \<Rightarrow> array list \<Rightarrow> array list" where
  "finder_visit (ConstantExpr c) objs = objs"
| "finder_visit (NotOptimizedExpr e) objs = finder_visit e objs"
| "finder_visit (ReadExpr a us i) objs = finder_visit i (note_object a (finder_updates us objs))"
| "finder_visit (SelectExpr c t f) objs = finder_visit f (finder_visit t (finder_visit c objs))"
| "finder_visit (ConcatExpr l r) objs = finder_visit r (finder_visit l objs)"
| "finder_visit (ExtractExpr e off w) objs = finder_visit e objs"
| "finder_visit (ZExtExpr e w) objs = finder_visit e objs"
| "finder_visit (SExtExpr e w) objs = finder_visit e objs"
| "finder_visit (NotExpr e) objs = finder_visit e objs"
| "finder_visit (BinaryExpr k l r) objs = finder_visit r (finder_visit l objs)"
| "finder_updates UpdateNil objs = objs"
| "finder_updates (UpdateNode i v n) objs = finder_updates n (finder_visit v (finder_visit i objs))"

definition findSymbolicObjects :: "expr list \<Rightarrow> array list" where
  "findSymbolicObjects es = fold finder_visit es []"

subsection \<open>What they find\<close>

primrec all_reads :: "expr \<Rightarrow> expr set" and all_reads_updates :: "updates \<Rightarrow> expr set" where
  "all_reads (ConstantExpr c) = {}"
| "all_reads (NotOptimizedExpr e) = all_reads e"
| "all_reads (ReadExpr a us i) = insert (ReadExpr a us i) (all_reads_updates us \<union> all_reads i)"
| "all_reads (SelectExpr c t f) = all_reads c \<union> all_reads t \<union> all_reads f"
| "all_reads (ConcatExpr l r) = all_reads l \<union> all_reads r"
| "all_reads (ExtractExpr e off w) = all_reads e"
| "all_reads (ZExtExpr e w) = all_reads e"
| "all_reads (SExtExpr e w) = all_reads e"
| "all_reads (NotExpr e) = all_reads e"
| "all_reads (BinaryExpr k l r) = all_reads l \<union> all_reads r"
| "all_reads_updates UpdateNil = {}"
| "all_reads_updates (UpdateNode i v n) = all_reads i \<union> all_reads v \<union> all_reads_updates n"

text \<open>The invariant of the loop: what is visited and no longer on the stack has its parts visited and is
  among the results if it is a read.\<close>

definition parts :: "expr \<Rightarrow> expr list" where
  "parts e = (case e of ReadExpr a us i \<Rightarrow> i # node_exprs us | _ \<Rightarrow> kids e)"

definition covered :: "expr set \<Rightarrow> expr list \<Rightarrow> bool" where
  "covered visited ks \<longleftrightarrow> (\<forall>k \<in> set ks. is_constant k \<or> k \<in> visited)"

lemma covered_simps [simp]:
  "covered V []" "covered V (k # ks) \<longleftrightarrow> (is_constant k \<or> k \<in> V) \<and> covered V ks"
  "covered V (ks @ ks') \<longleftrightarrow> covered V ks \<and> covered V ks'"
  by (auto simp: covered_def)

definition reads_inv :: "expr list \<times> expr set \<Rightarrow> updates set \<Rightarrow> expr list \<Rightarrow> bool" where
  "reads_inv sv ups results \<longleftrightarrow> distinct (fst sv) \<and> set (fst sv) \<subseteq> snd sv \<and>
     (\<forall>us \<in> ups. covered (snd sv) (node_exprs us)) \<and>
     (\<forall>v \<in> snd sv - set (fst sv). covered (snd sv) (parts v) \<and> set (found_read v) \<subseteq> set results)"

lemma push_new_facts:
  "distinct (fst sv) \<Longrightarrow> set (fst sv) \<subseteq> snd sv \<Longrightarrow>
   distinct (fst (push_new k sv)) \<and> set (fst (push_new k sv)) \<subseteq> snd (push_new k sv) \<and>
   snd sv \<subseteq> snd (push_new k sv) \<and> (is_constant k \<or> k \<in> snd (push_new k sv)) \<and>
   snd (push_new k sv) - set (fst (push_new k sv)) = snd sv - set (fst sv) \<and>
   set (fst (push_new k sv)) \<subseteq> insert k (set (fst sv))"
  by (auto simp: push_new_def split: prod.split)

lemma pushes_facts:
  "distinct (fst sv) \<Longrightarrow> set (fst sv) \<subseteq> snd sv \<Longrightarrow>
   distinct (fst (fold push_new ks sv)) \<and> set (fst (fold push_new ks sv)) \<subseteq> snd (fold push_new ks sv) \<and>
   snd sv \<subseteq> snd (fold push_new ks sv) \<and> covered (snd (fold push_new ks sv)) ks \<and>
   snd (fold push_new ks sv) - set (fst (fold push_new ks sv)) = snd sv - set (fst sv) \<and>
   set (fst (fold push_new ks sv)) \<subseteq> set ks \<union> set (fst sv)"
proof (induction ks arbitrary: sv)
  case Nil
  then show ?case by simp
next
  case (Cons k ks)
  note p = push_new_facts [OF Cons.prems, of k]
  note q = Cons.IH [of "push_new k sv"]
  show ?case using p q by auto
qed

lemma covered_mono: "covered V ks \<Longrightarrow> V \<subseteq> V' \<Longrightarrow> covered V' ks"
  by (auto simp: covered_def)

lemma reads_inv_step:
  assumes "reads_inv (e # stack, visited) ups results"
  shows "reads_inv (fold push_new (read_succs True ups e) (stack, visited)) (seen_heads True ups e) (results @ found_read e)"
proof -
  let ?sv = "fold push_new (read_succs True ups e) (stack, visited)"
  from assms have d: "distinct stack" "set stack \<subseteq> visited" "e \<in> visited" "e \<notin> set stack"
    and u: "\<forall>us \<in> ups. covered visited (node_exprs us)"
    and c: "\<forall>v \<in> visited - set (e # stack). covered visited (parts v) \<and> set (found_read v) \<subseteq> set results"
    by (auto simp: reads_inv_def)
  note p = pushes_facts [of "(stack, visited)" "read_succs True ups e"]
  have V: "visited \<subseteq> snd ?sv" and S: "covered (snd ?sv) (read_succs True ups e)"
    and R: "snd ?sv - set (fst ?sv) = visited - set stack"
    and D: "distinct (fst ?sv)" "set (fst ?sv) \<subseteq> snd ?sv" using p d by auto
  have "\<forall>us \<in> ups. covered (snd ?sv) (node_exprs us)" using u covered_mono [OF _ V] by blast
  with S have e: "covered (snd ?sv) (parts e) \<and> (\<forall>us \<in> seen_heads True ups e. covered (snd ?sv) (node_exprs us))"
    by (cases e) (simp_all add: parts_def read_succs_def seen_heads_def split: if_splits)
  have "covered (snd ?sv) (parts v) \<and> set (found_read v) \<subseteq> set (results @ found_read e)"
    if "v \<in> visited - set stack" for v
    using that c e covered_mono [OF _ V] by (cases "v = e") auto
  with D e R show ?thesis by (simp add: reads_inv_def)
qed

lemma find_reads_inv:
  "reads_inv sv ups results \<Longrightarrow> \<exists>V ups'. snd sv \<subseteq> V \<and>
     reads_inv ([], V) ups' (find_reads_loop True sv ups results)"
proof (induction "True" sv ups results rule: find_reads_loop.induct)
  case (2 e stack visited ups results)
  let ?sv = "fold push_new (read_succs True ups e) (stack, visited)"
  have d: "distinct stack" "set stack \<subseteq> visited" using 2(2) by (auto simp: reads_inv_def)
  have v: "visited \<subseteq> snd ?sv" using pushes_facts [of "(stack, visited)" "read_succs True ups e"] d by simp
  obtain V ups' where V: "snd ?sv \<subseteq> V"
    "reads_inv ([], V) ups' (find_reads_loop True ?sv (seen_heads True ups e) (results @ found_read e))"
    using 2(1) [OF reads_inv_step [OF 2(2)]] by blast
  have "snd (e # stack, visited) \<subseteq> V" using v V(1) by simp
  with V(2) show ?case unfolding find_reads_loop.simps by blast
next
  case (1 visited ups results)
  have "snd ([], visited) \<subseteq> visited" by simp
  with 1 show ?case unfolding find_reads_loop.simps by blast
qed

lemma closed_reads:
  assumes "\<forall>v \<in> V. covered V (parts v) \<and> set (found_read v) \<subseteq> R"
  shows "is_constant e \<or> e \<in> V \<Longrightarrow> all_reads e \<subseteq> R"
    and "covered V (node_exprs us) \<Longrightarrow> all_reads_updates us \<subseteq> R"
proof (induction e and us)
  case (ReadExpr a us i)
  then have v: "ReadExpr a us i \<in> V" by simp
  with assms have "covered V (i # node_exprs us)" "ReadExpr a us i \<in> R" by (auto simp: parts_def found_read_def)
  with ReadExpr.IH show ?case by auto
qed (use assms in \<open>force simp: parts_def\<close>)+

text \<open>The reads found are reads of the expression.\<close>

lemma node_reads: "k \<in> set (node_exprs us) \<Longrightarrow> all_reads k \<subseteq> all_reads_updates us"
  by (induction us rule: updates.induct [where ?P1.0 = "\<lambda>_. True"]) auto

lemma succ_reads: "k \<in> set (read_succs vu ups e) \<Longrightarrow> all_reads k \<subseteq> all_reads e"
  by (cases e) (auto simp: read_succs_def split: if_splits dest: node_reads)

lemma found_reads: "set (found_read e) \<subseteq> all_reads e"
  by (cases e) (simp_all add: found_read_def)

lemma find_reads_sub:
  "\<lbrakk>\<forall>t \<in> set (fst sv). all_reads t \<subseteq> R; set results \<subseteq> R; distinct (fst sv); set (fst sv) \<subseteq> snd sv\<rbrakk> \<Longrightarrow>
   set (find_reads_loop vu sv ups results) \<subseteq> R"
proof (induction vu sv ups results rule: find_reads_loop.induct)
  case (2 vu e stack visited ups results)
  note p = pushes_facts [of "(stack, visited)" "read_succs vu ups e"]
  have d: "distinct stack" "set stack \<subseteq> visited" using 2(4,5) by auto
  have R: "all_reads e \<subseteq> R" "\<forall>t \<in> set stack. all_reads t \<subseteq> R" using 2(2) by auto
  have "set (fst (fold push_new (read_succs vu ups e) (stack, visited))) \<subseteq> set (read_succs vu ups e) \<union> set stack"
    using p d by simp
  moreover have "\<forall>t \<in> set (read_succs vu ups e). all_reads t \<subseteq> R" using succ_reads R(1) by blast
  ultimately have "\<forall>t \<in> set (fst (fold push_new (read_succs vu ups e) (stack, visited))). all_reads t \<subseteq> R"
    using R(2) by blast
  moreover have "set (results @ found_read e) \<subseteq> R" using 2(3) R(1) found_reads [of e] by auto
  moreover have "distinct (fst (fold push_new (read_succs vu ups e) (stack, visited)))"
    "set (fst (fold push_new (read_succs vu ups e) (stack, visited))) \<subseteq> snd (fold push_new (read_succs vu ups e) (stack, visited))"
    using p d by simp_all
  ultimately show ?case unfolding find_reads_loop.simps by (intro 2(1))
qed simp

lemma findReads_all: "set (findReads e True) = all_reads e"
proof -
  let ?sv = "push_new e ([], {})"
  have "reads_inv ?sv {} []" by (auto simp: reads_inv_def push_new_def)
  then obtain V ups' where V: "snd ?sv \<subseteq> V" "reads_inv ([], V) ups' (findReads e True)"
    using find_reads_inv unfolding findReads_def by blast
  have "is_constant e \<or> e \<in> V" using V(1) by (auto simp: push_new_def split: if_splits)
  with closed_reads(1) [of V "set (findReads e True)" e] V(2) have "all_reads e \<subseteq> set (findReads e True)"
    by (simp add: reads_inv_def)
  moreover have "set (findReads e True) \<subseteq> all_reads e"
    unfolding findReads_def by (rule find_reads_sub) (auto simp: push_new_def)
  ultimately show ?thesis by blast
qed

definition read_arrays :: "expr set \<Rightarrow> array set" where
  "read_arrays R = {a. \<exists>us i. ReadExpr a us i \<in> R}"

lemma read_arrays_simps [simp]:
  "read_arrays {} = {}" "read_arrays (R \<union> R') = read_arrays R \<union> read_arrays R'"
  "read_arrays (insert (ReadExpr a us i) R) = insert a (read_arrays R)"
  by (auto simp: read_arrays_def)

lemma finder_finds:
  "set (finder_visit e objs) = set objs \<union> {a \<in> read_arrays (all_reads e). isSymbolicArray a} \<and>
     (distinct objs \<longrightarrow> distinct (finder_visit e objs))"
  "set (finder_updates us objs) = set objs \<union> {a \<in> read_arrays (all_reads_updates us). isSymbolicArray a} \<and>
     (distinct objs \<longrightarrow> distinct (finder_updates us objs))"
  by (induction e and us arbitrary: objs and objs) (auto simp: note_object_def)

lemma findSymbolicObjects_all:
  "set (findSymbolicObjects es) = {a. isSymbolicArray a \<and> (\<exists>e \<in> set es. a \<in> read_arrays (all_reads e))} \<and>
   distinct (findSymbolicObjects es)"
proof -
  have "set (fold finder_visit es objs) = set objs \<union> {a. isSymbolicArray a \<and> (\<exists>e \<in> set es. a \<in> read_arrays (all_reads e))} \<and>
    (distinct objs \<longrightarrow> distinct (fold finder_visit es objs))" for objs
    by (induction es arbitrary: objs) (auto simp: finder_finds(1))
  from this [of "[]"] show ?thesis by (simp add: findSymbolicObjects_def)
qed

subsection \<open>What the value of an expression depends on\<close>

text \<open>Two assignments that agree on the initial value of each read, at the index it has, give the same value.\<close>

lemma eval_agree_aux:
  shows "\<forall>a us i. ReadExpr a us i \<in> all_reads e \<longrightarrow> initial_value \<sigma> a (eval \<sigma> i) = initial_value \<tau> a (eval \<sigma> i) \<Longrightarrow>
      eval \<sigma> e = eval \<tau> e"
    and "\<lbrakk>\<forall>a us' i. ReadExpr a us' i \<in> all_reads_updates us \<longrightarrow> initial_value \<sigma> a (eval \<sigma> i) = initial_value \<tau> a (eval \<sigma> i);
      initial_value \<sigma> b j = initial_value \<tau> b j\<rbrakk> \<Longrightarrow> eval_read \<sigma> us b j = eval_read \<tau> us b j"
proof (induction e and us arbitrary: and b j)
  case (ReadExpr a us i)
  have i: "eval \<sigma> i = eval \<tau> i" using ReadExpr.prems by (intro ReadExpr.IH(2)) auto
  have "eval_read \<sigma> us a (eval \<sigma> i) = eval_read \<tau> us a (eval \<sigma> i)"
    using ReadExpr.prems by (intro ReadExpr.IH(1)) auto
  with i show ?case by simp
next
  case (UpdateNode i v n)
  have "eval \<sigma> i = eval \<tau> i" using UpdateNode.prems by (intro UpdateNode.IH(1)) auto
  moreover have "eval \<sigma> v = eval \<tau> v" using UpdateNode.prems by (intro UpdateNode.IH(2)) auto
  moreover have "eval_read \<sigma> n b j = eval_read \<tau> n b j" using UpdateNode.prems by (intro UpdateNode.IH(3)) auto
  ultimately show ?case by simp
next
  case (SelectExpr c t f)
  have "eval \<sigma> c = eval \<tau> c" using SelectExpr.prems by (intro SelectExpr.IH(1)) auto
  moreover have "eval \<sigma> t = eval \<tau> t" using SelectExpr.prems by (intro SelectExpr.IH(2)) auto
  moreover have "eval \<sigma> f = eval \<tau> f" using SelectExpr.prems by (intro SelectExpr.IH(3)) auto
  ultimately show ?case by simp
next
  case (ConcatExpr l r)
  have "eval \<sigma> l = eval \<tau> l" using ConcatExpr.prems by (intro ConcatExpr.IH(1)) auto
  moreover have "eval \<sigma> r = eval \<tau> r" using ConcatExpr.prems by (intro ConcatExpr.IH(2)) auto
  ultimately show ?case by simp
next
  case (BinaryExpr k l r)
  have "eval \<sigma> l = eval \<tau> l" using BinaryExpr.prems by (intro BinaryExpr.IH(1)) auto
  moreover have "eval \<sigma> r = eval \<tau> r" using BinaryExpr.prems by (intro BinaryExpr.IH(2)) auto
  ultimately show ?case by simp
qed simp_all

lemma eval_agree:
  assumes "\<And>a us i. ReadExpr a us i \<in> all_reads e \<Longrightarrow> initial_value \<sigma> a (eval \<sigma> i) = initial_value \<tau> a (eval \<sigma> i)"
  shows "eval \<sigma> e = eval \<tau> e"
  using eval_agree_aux(1) assms by blast

end
