(* ===== verification/Bits.thy ===== *)
theory Bits
  imports APInt
begin

unbundle bit_operations_syntax

section \<open>Bit tricks and fixed-width integers (klee/util/Bits.h, IntEvaluation.h)\<close>

text \<open>
  The functions of namespaces \<^verbatim>\<open>bits32\<close>, \<^verbatim>\<open>bits64\<close> and \<^verbatim>\<open>ints\<close> on machine words. A name of
  \<^verbatim>\<open>bits32\<close> ends in 32, one of \<^verbatim>\<open>ints\<close> starts with \<open>ints_\<close>. Shifts by the width of the type or more
  and the signed division overflow at 64 bits are undefined in C++: the theorems exclude them by
  hypothesis. The main result is that \<^verbatim>\<open>ints\<close> computes the reference bit-vector operators of theory
  \<open>APInt\<close> on \<open>inWidth\<close>-bit patterns held in 64-bit words.
\<close>

subsection \<open>bits32, bits64\<close>

definition maxValueOfNBits32 :: "nat \<Rightarrow> 32 word" where
  "maxValueOfNBits32 N = (if N = 0 then 0 else drop_bit (32 - N) (- 1))"

definition truncateToNBits32 :: "32 word \<Rightarrow> nat \<Rightarrow> 32 word" where
  "truncateToNBits32 x N = x AND drop_bit (32 - N) (- 1)"

definition withoutRightmostBit32 :: "32 word \<Rightarrow> 32 word" where
  "withoutRightmostBit32 x = x AND (x - 1)"

definition isolateRightmostBit32 :: "32 word \<Rightarrow> 32 word" where
  "isolateRightmostBit32 x = x AND - x"

definition isPowerOfTwo32 :: "32 word \<Rightarrow> bool" where
  "isPowerOfTwo32 x = (if x = 0 then False else x AND (x - 1) = 0)"

definition indexOfSingleBit32 :: "32 word \<Rightarrow> 32 word" where
  "indexOfSingleBit32 x =
     (let res = 0;
          res = (if x AND 0xFFFF0000 \<noteq> 0 then res + 16 else res);
          res = (if x AND 0xFF00FF00 \<noteq> 0 then res + 8 else res);
          res = (if x AND 0xF0F0F0F0 \<noteq> 0 then res + 4 else res);
          res = (if x AND 0xCCCCCCCC \<noteq> 0 then res + 2 else res);
          res = (if x AND 0xAAAAAAAA \<noteq> 0 then res + 1 else res)
      in res)"

definition indexOfRightmostBit32 :: "32 word \<Rightarrow> 32 word" where
  "indexOfRightmostBit32 x = indexOfSingleBit32 (isolateRightmostBit32 x)"

definition maxValueOfNBits :: "nat \<Rightarrow> 64 word" where
  "maxValueOfNBits N = (if N = 0 then 0 else drop_bit (64 - N) (- 1))"

definition truncateToNBits :: "64 word \<Rightarrow> nat \<Rightarrow> 64 word" where
  "truncateToNBits x N = x AND drop_bit (64 - N) (- 1)"

definition withoutRightmostBit :: "64 word \<Rightarrow> 64 word" where
  "withoutRightmostBit x = x AND (x - 1)"

definition isolateRightmostBit :: "64 word \<Rightarrow> 64 word" where
  "isolateRightmostBit x = x AND - x"

definition isPowerOfTwo :: "64 word \<Rightarrow> bool" where
  "isPowerOfTwo x = (if x = 0 then False else x AND (x - 1) = 0)"

definition indexOfSingleBit :: "64 word \<Rightarrow> 32 word" where
  "indexOfSingleBit x =
     (let res = indexOfSingleBit32 (ucast (x OR drop_bit 32 x));
          res = (if x AND push_bit 32 0xFFFFFFFF \<noteq> 0 then res + 32 else res)
      in res)"

definition indexOfRightmostBit :: "64 word \<Rightarrow> 32 word" where
  "indexOfRightmostBit x = indexOfSingleBit (isolateRightmostBit x)"

lemma mask_drop: "N \<le> LENGTH('a) \<Longrightarrow> drop_bit (LENGTH('a) - N) (- 1 :: 'a::len word) = mask N"
  by (rule bit_word_eqI) (auto simp: bit_simps)

lemma truncate_take_bit: "N \<le> 64 \<Longrightarrow> truncateToNBits x N = take_bit N x"
  using mask_drop [of N, where ?'a = 64] by (simp add: truncateToNBits_def take_bit_eq_mask)

lemma uint_truncate: "N \<le> 64 \<Longrightarrow> uint (truncateToNBits x N) = take_bit N (uint x)"
  by (simp add: truncate_take_bit unsigned_take_bit_eq)

lemma maxValue_mask: "N \<le> 64 \<Longrightarrow> maxValueOfNBits N = mask N"
  using mask_drop [of N, where ?'a = 64] by (simp add: maxValueOfNBits_def)

subsection \<open>The rightmost bit\<close>

lemma isolate_int: "push_bit k (2 * m + 1) AND - push_bit k (2 * m + 1 :: int) = 2 ^ k"
proof -
  have "- push_bit k (2 * m + 1) = push_bit k (2 * NOT m + 1)"
    by (simp add: push_bit_eq_mult not_int_def algebra_simps)
  moreover have "(2 * m + 1) AND (2 * NOT m + 1) = 1"
  proof (rule bit_eqI)
    fix n show "bit ((2 * m + 1) AND (2 * NOT m + 1)) n \<longleftrightarrow> bit (1::int) n"
      unfolding bit_and_iff by (cases n) (simp_all add: bit_0 bit_Suc bit_not_iff)
  qed
  ultimately show ?thesis by (metis push_bit_and push_bit_of_1)
qed

lemma odd_part:
  assumes "bit (x::int) k" "\<forall>j<k. \<not> bit x j" shows "\<exists>m. x = push_bit k (2 * m + 1)"
proof -
  have "x = push_bit k (drop_bit k x)"
  proof (rule bit_eqI)
    fix n show "bit x n \<longleftrightarrow> bit (push_bit k (drop_bit k x)) n"
      using assms(2) by (cases "k \<le> n") (auto simp: bit_simps)
  qed
  moreover have "odd (drop_bit k x)"
    using assms(1) by (simp add: bit_iff_odd_drop_bit)
  ultimately show ?thesis by (metis oddE)
qed

lemma isolate_lowest:
  assumes "bit (x::int) k" "\<forall>j<k. \<not> bit x j"
  shows "x AND - x = 2 ^ k"
  using odd_part [OF assms] isolate_int by metis

lemma lowest_bit:
  assumes "x \<noteq> (0::64 word)"
  obtains k where "bit x k" "\<forall>j<k. \<not> bit x j" "k < 64"
proof -
  have "\<exists>n. bit x n" using assms bit_eqI [of x 0] by auto
  then have "bit x (LEAST n. bit x n)" "\<forall>j<(LEAST n. bit x n). \<not> bit x j"
    by (auto intro: LeastI_ex dest: not_less_Least)
  moreover have "(LEAST n. bit x n) < 64" using bit_imp_le_length [OF calculation(1)] by simp
  ultimately show ?thesis using that by blast
qed

lemma isolateRightmostBit_eq:
  assumes "bit x k" "\<forall>j<k. \<not> bit x j"
  shows "isolateRightmostBit x = 2 ^ k"
proof -
  have k: "k < 64" using bit_imp_le_length [OF assms(1)] by simp
  have "uint (isolateRightmostBit x) = uint x AND take_bit 64 (- uint x)"
    by (simp add: isolateRightmostBit_def unsigned_and_eq uint_word_ariths take_bit_eq_mod)
  also have "\<dots> = take_bit 64 (uint x AND - uint x)"
    by (rule bit_eqI) (auto simp: bit_simps)
  also have "uint x AND - uint x = 2 ^ k"
    using assms k by (intro isolate_lowest) (auto simp: bit_uint_iff)
  also have "take_bit 64 (2 ^ k :: int) = 2 ^ k"
    using k by (simp add: take_bit_int_eq_self)
  finally show ?thesis
    by (metis word_of_int_uint of_int_power of_int_numeral)
qed

lemma withoutRightmostBit_eq: "withoutRightmostBit x = x - isolateRightmostBit x"
proof -
  have "x AND (x - 1) = x AND NOT (- x)"
    by (simp add: not_eq_complement)
  also have "\<dots> = x - (x AND - x)"
    using word_plus_and_or [of "x AND NOT (- x)" "x AND - x"]
    by (simp add: bit.conj_disj_distrib [symmetric] and.assoc and.left_commute eq_diff_eq)
  finally show ?thesis by (simp add: withoutRightmostBit_def isolateRightmostBit_def)
qed

lemma isPowerOfTwo_iff: "isPowerOfTwo x \<longleftrightarrow> (\<exists>k<64. x = 2 ^ k)"
proof
  assume p: "isPowerOfTwo x"
  then have "x \<noteq> 0" by (auto simp: isPowerOfTwo_def)
  then obtain k where k: "bit x k" "\<forall>j<k. \<not> bit x j" "k < 64" by (rule lowest_bit)
  have "withoutRightmostBit x = 0"
    using p by (auto simp: isPowerOfTwo_def withoutRightmostBit_def split: if_splits)
  then show "\<exists>k<64. x = 2 ^ k"
    using withoutRightmostBit_eq [of x] isolateRightmostBit_eq [OF k(1,2)] k(3) by auto
next
  assume "\<exists>k<64. x = 2 ^ k"
  then obtain k where k: "k < 64" "x = 2 ^ k" by blast
  then have "bit x n \<longleftrightarrow> n = k" for n by (auto simp: bit_simps)
  then have "isolateRightmostBit x = x" using isolateRightmostBit_eq [of x k] k by auto
  then have "withoutRightmostBit x = 0" by (simp add: withoutRightmostBit_eq)
  moreover have "x \<noteq> 0" using k by (simp add: exp_eq_zero_iff)
  ultimately show "isPowerOfTwo x" by (simp add: isPowerOfTwo_def withoutRightmostBit_def)
qed

subsection \<open>The index of a bit\<close>

lemma index_all32: "list_all (\<lambda>k. indexOfSingleBit32 (2 ^ k) = of_nat k) [0..<32]"
  by (simp add: indexOfSingleBit32_def upt_rec)

lemma indexOfSingleBit32_eq: "k < 32 \<Longrightarrow> indexOfSingleBit32 (2 ^ k) = of_nat k"
  using index_all32 by (simp add: list_all_iff)

lemma fold_halves: "k < 64 \<Longrightarrow> ucast (2 ^ k OR drop_bit 32 (2 ^ k :: 64 word)) = (2 ^ (k mod 32) :: 32 word)"
  by (rule bit_word_eqI) (auto simp: bit_simps mod_if)

lemma indexOfSingleBit_eq:
  assumes "k < 64" shows "indexOfSingleBit (2 ^ k) = of_nat k"
proof -
  have "(2 ^ k :: 64 word) AND push_bit 32 0xFFFFFFFF \<noteq> 0 \<longleftrightarrow> bit (push_bit 32 0xFFFFFFFF :: 64 word) k"
    by (simp add: and.commute [of "2 ^ k"] and_exp_eq_0_iff_not_bit)
  also have "\<dots> \<longleftrightarrow> 32 \<le> k"
  proof -
    have m: "(0xFFFFFFFF :: 64 word) = mask 32" by (simp add: mask_eq_decr_exp)
    show ?thesis unfolding m bit_push_bit_iff bit_mask_iff using assms by auto
  qed
  finally show ?thesis
    using assms by (simp add: indexOfSingleBit_def Let_def fold_halves indexOfSingleBit32_eq)
      (auto simp: mod_if of_nat_diff)
qed

subsection \<open>Fixed-width integers in 64-bit words\<close>

definition ints_add :: "64 word \<Rightarrow> 64 word \<Rightarrow> nat \<Rightarrow> 64 word" where
  "ints_add l r inWidth = truncateToNBits (l + r) inWidth"

definition ints_sub :: "64 word \<Rightarrow> 64 word \<Rightarrow> nat \<Rightarrow> 64 word" where
  "ints_sub l r inWidth = truncateToNBits (l - r) inWidth"

definition ints_mul :: "64 word \<Rightarrow> 64 word \<Rightarrow> nat \<Rightarrow> 64 word" where
  "ints_mul l r inWidth = truncateToNBits (l * r) inWidth"

definition ints_trunc :: "64 word \<Rightarrow> nat \<Rightarrow> nat \<Rightarrow> 64 word" where
  "ints_trunc l outWidth inWidth = truncateToNBits l outWidth"

definition ints_zext :: "64 word \<Rightarrow> nat \<Rightarrow> nat \<Rightarrow> 64 word" where
  "ints_zext l outWidth inWidth = l"

text \<open>The shift right of an \<^verbatim>\<open>int64_t\<close> is arithmetic.\<close>

definition ints_sext :: "64 word \<Rightarrow> nat \<Rightarrow> nat \<Rightarrow> 64 word" where
  "ints_sext l outWidth inWidth =
     (let numInvalidBits = 64 - inWidth
      in truncateToNBits (signed_drop_bit numInvalidBits (push_bit numInvalidBits l)) outWidth)"

definition ints_udiv :: "64 word \<Rightarrow> 64 word \<Rightarrow> nat \<Rightarrow> 64 word" where
  "ints_udiv l r inWidth = truncateToNBits (l div r) inWidth"

definition ints_urem :: "64 word \<Rightarrow> 64 word \<Rightarrow> nat \<Rightarrow> 64 word" where
  "ints_urem l r inWidth = truncateToNBits (l mod r) inWidth"

definition ints_sdiv :: "64 word \<Rightarrow> 64 word \<Rightarrow> nat \<Rightarrow> 64 word" where
  "ints_sdiv l r inWidth =
     (let sl = sint (ints_sext l 64 inWidth);
          sr = sint (ints_sext r 64 inWidth)
      in truncateToNBits (word_of_int (sl sdiv sr)) inWidth)"

definition ints_srem :: "64 word \<Rightarrow> 64 word \<Rightarrow> nat \<Rightarrow> 64 word" where
  "ints_srem l r inWidth =
     (let sl = sint (ints_sext l 64 inWidth);
          sr = sint (ints_sext r 64 inWidth)
      in truncateToNBits (word_of_int (sl smod sr)) inWidth)"

definition ints_ashr :: "64 word \<Rightarrow> 64 word \<Rightarrow> nat \<Rightarrow> 64 word" where
  "ints_ashr l shift inWidth =
     (let sl = ints_sext l 64 inWidth
      in truncateToNBits (signed_drop_bit (unat shift) sl) inWidth)"

definition ints_lshr :: "64 word \<Rightarrow> 64 word \<Rightarrow> nat \<Rightarrow> 64 word" where
  "ints_lshr l shift inWidth = drop_bit (unat shift) l"

definition ints_shl :: "64 word \<Rightarrow> 64 word \<Rightarrow> nat \<Rightarrow> 64 word" where
  "ints_shl l shift inWidth = truncateToNBits (push_bit (unat shift) l) inWidth"

definition ints_land :: "64 word \<Rightarrow> 64 word \<Rightarrow> nat \<Rightarrow> 64 word" where
  "ints_land l r inWidth = l AND r"

definition ints_lor :: "64 word \<Rightarrow> 64 word \<Rightarrow> nat \<Rightarrow> 64 word" where
  "ints_lor l r inWidth = l OR r"

definition ints_lxor :: "64 word \<Rightarrow> 64 word \<Rightarrow> nat \<Rightarrow> 64 word" where
  "ints_lxor l r inWidth = l XOR r"

text \<open>The comparisons \<^verbatim>\<open>eq .. sge\<close>; a boolean converts to 0 or 1.\<close>

fun ints_cmp :: "binop \<Rightarrow> 64 word \<Rightarrow> 64 word \<Rightarrow> nat \<Rightarrow> 64 word" where
  "ints_cmp Eq l r w = of_bool (l = r)"
| "ints_cmp Ne l r w = of_bool (l \<noteq> r)"
| "ints_cmp Ult l r w = of_bool (l < r)"
| "ints_cmp Ule l r w = of_bool (l \<le> r)"
| "ints_cmp Ugt l r w = of_bool (l > r)"
| "ints_cmp Uge l r w = of_bool (l \<ge> r)"
| "ints_cmp Slt l r w = of_bool (sint (ints_sext l 64 w) < sint (ints_sext r 64 w))"
| "ints_cmp Sle l r w = of_bool (sint (ints_sext l 64 w) \<le> sint (ints_sext r 64 w))"
| "ints_cmp Sgt l r w = of_bool (sint (ints_sext l 64 w) > sint (ints_sext r 64 w))"
| "ints_cmp Sge l r w = of_bool (sint (ints_sext l 64 w) \<ge> sint (ints_sext r 64 w))"
| "ints_cmp _ l r w = 0"

text \<open>The function of the namespace that a binary kind stands for.\<close>

fun ints_op :: "binop \<Rightarrow> 64 word \<Rightarrow> 64 word \<Rightarrow> nat \<Rightarrow> 64 word" where
  "ints_op Add l r w = ints_add l r w"
| "ints_op Sub l r w = ints_sub l r w"
| "ints_op Mul l r w = ints_mul l r w"
| "ints_op UDiv l r w = ints_udiv l r w"
| "ints_op SDiv l r w = ints_sdiv l r w"
| "ints_op URem l r w = ints_urem l r w"
| "ints_op SRem l r w = ints_srem l r w"
| "ints_op And l r w = ints_land l r w"
| "ints_op Or l r w = ints_lor l r w"
| "ints_op Xor l r w = ints_lxor l r w"
| "ints_op Shl l r w = ints_shl l r w"
| "ints_op LShr l r w = ints_lshr l r w"
| "ints_op AShr l r w = ints_ashr l r w"
| "ints_op k l r w = ints_cmp k l r w"

lemma sext_sint:
  assumes "0 < w" "w \<le> 64"
  shows "sint (ints_sext l 64 w) = sval w (uint l)"
proof -
  have "sint (signed_drop_bit (64 - w) (push_bit (64 - w) l)) = sval w (uint l)"
  proof (rule bit_eqI)
    fix n
    consider "n < w - 1" | "n = w - 1" | "w \<le> n" by linarith
    then show "bit (sint (signed_drop_bit (64 - w) (push_bit (64 - w) l))) n \<longleftrightarrow> bit (sval w (uint l)) n"
      using assms by cases (auto simp: bit_simps sval_def min_def dest: le_neq_implies_less)
  qed
  then show ?thesis by (simp add: ints_sext_def Let_def truncate_take_bit take_bit_word_eq_self)
qed

text \<open>Where the C++ expression is defined: shifts below 64, no division by zero, no overflow of the
  64-bit signed division.\<close>

definition ints_defined :: "binop \<Rightarrow> 64 word \<Rightarrow> 64 word \<Rightarrow> nat \<Rightarrow> bool" where
  "ints_defined k l r w \<longleftrightarrow>
     (is_div k \<longrightarrow> r \<noteq> 0) \<and> (k \<in> {Shl, LShr, AShr} \<longrightarrow> uint r < 64) \<and>
     (k \<in> {SDiv, SRem} \<longrightarrow> \<not> (w = 64 \<and> sint l = - (2 ^ 63) \<and> sint r = - 1))"

lemma ints_cmp_eq:
  assumes "0 < w" "w \<le> 64" "is_cmp k"
  shows "uint (ints_cmp k l r w) = of_bool (bv_cmp k w (uint l) (uint r))"
  using assms by (cases k) (simp_all add: sext_sint word_less_def word_le_def word_uint_eq_iff)

lemma ints_op_cmp: "is_cmp k \<Longrightarrow> ints_op k l r w = ints_cmp k l r w"
  by (cases k) simp_all

lemma ints_arith_eq:
  assumes "0 < w" "w \<le> 64" "inr w (uint l)" "inr w (uint r)" "\<not> is_cmp k"
  shows "uint (ints_op k l r w) = bv_arith k w (uint l) (uint r)"
proof -
  have w: "take_bit w (take_bit 64 x) = take_bit w x" for x :: int
    using assms by (simp add: min_def)
  note [simp] = uint_truncate [OF assms(2)] take_bit_inr sext_sint [OF assms(1,2)]
  have ops: "uint (l + r) = take_bit 64 (uint l + uint r)" "uint (l - r) = take_bit 64 (uint l - uint r)"
    "uint (l * r) = take_bit 64 (uint l * uint r)" "take_bit 64 (uint l) = uint l"
    using take_bit_inr [of 64 "uint l"] uint_bounded [of l]
    by (simp_all add: uint_word_ariths inr_def take_bit_eq_mod)
  show ?thesis
  proof (cases k)
    case AShr
    have "sint (signed_drop_bit (unat r) (ints_sext l 64 w)) = drop_bit (unat r) (sval w (uint l))"
      by (simp add: sint_signed_drop_bit_eq)
    then have "uint (signed_drop_bit (unat r) (ints_sext l 64 w)) = take_bit 64 (drop_bit (unat r) (sval w (uint l)))"
      using uint_sint [of "signed_drop_bit (unat r) (ints_sext l 64 w)"] by simp
    with AShr assms(2) show ?thesis by (simp add: ints_ashr_def Let_def min_def)
  qed (use assms in \<open>simp_all add: ints_add_def ints_sub_def ints_mul_def ints_udiv_def ints_urem_def
    ints_sdiv_def ints_srem_def ints_land_def ints_lor_def ints_lxor_def ints_shl_def ints_lshr_def Let_def
    ops uint_div uint_mod unsigned_and_eq unsigned_or_eq unsigned_xor_eq w inr_div inr_mod
    unsigned_push_bit_eq unsigned_drop_bit_eq uint_word_of_int_eq flip: take_bit_eq_mod\<close>)
qed

subsection \<open>Properties\<close>

text \<open>C4: on \<open>w\<close>-bit patterns, \<open>0 < w \<le> 64\<close>, every function of namespace \<^verbatim>\<open>ints\<close> computes the
  reference bit-vector operator of its width, where the C++ expression is defined; in particular the
  result is a pattern of the result's width again, the invariant the header states as its ASSUMPTION.\<close>

theorem ints_op_correct:
  assumes "0 < w" "w \<le> 64" "inr w (uint l)" "inr w (uint r)" "ints_defined k l r w"
  shows "uint (ints_op k l r w) = bv_bin k w (uint l) (uint r) \<and>
    inr (bv_width k w) (uint (ints_op k l r w))"
proof -
  have "uint (ints_op k l r w) = bv_bin k w (uint l) (uint r)"
    using ints_arith_eq [OF assms(1-4), of k] ints_cmp_eq [OF assms(1,2), of k l r] ints_op_cmp [of k]
    by (simp add: bv_bin_def)
  with bv_bin_inr [OF assms(3,4)] show ?thesis by simp
qed

theorem ints_op_correct_witness:
  "uint (ints_op SDiv 0xF9 2 8) = bv_bin SDiv 8 0xF9 2 \<and> bv_bin SDiv 8 0xF9 2 = 0xFD"
proof
  show "uint (ints_op SDiv 0xF9 2 8) = bv_bin SDiv 8 0xF9 2"
    using ints_op_correct [of 8 "0xF9" 2 SDiv] by (simp add: inr_def ints_defined_def)
  show "bv_bin SDiv 8 0xF9 2 = 0xFD"
    by (simp add: bv_bin_def sval_def signed_take_bit_eq_take_bit_shift take_bit_eq_mod signed_divide_int_def)
qed

text \<open>\<^verbatim>\<open>trunc\<close>, \<^verbatim>\<open>zext\<close> and \<^verbatim>\<open>sext\<close> give the low bits, the same value and the two's complement value
  at the output width.\<close>

lemma ints_casts_correct:
  assumes "0 < w" "w \<le> 64" "v \<le> 64"
  shows "uint (ints_trunc l v w) = take_bit v (uint l) \<and> uint (ints_zext l v w) = uint l \<and>
    uint (ints_sext l v w) = take_bit v (sval w (uint l))"
proof -
  have "ints_sext l v w = truncateToNBits (ints_sext l 64 w) v"
    by (simp add: ints_sext_def Let_def truncate_take_bit [OF order_refl] take_bit_word_eq_self)
  moreover have "uint (ints_sext l 64 w) = take_bit 64 (sval w (uint l))"
    using uint_sint [of "ints_sext l 64 w"] sext_sint [OF assms(1,2)] by simp
  ultimately show ?thesis
    using assms by (simp add: ints_trunc_def ints_zext_def uint_truncate min_def)
qed

text \<open>C5: the bit tricks of \<^verbatim>\<open>bits64\<close>: for a non-zero word whose lowest set bit is \<open>k\<close>,
  \<^verbatim>\<open>isolateRightmostBit\<close> is \<open>2 ^ k\<close>, \<^verbatim>\<open>withoutRightmostBit\<close> clears that bit, \<^verbatim>\<open>indexOfRightmostBit\<close> finds
  \<open>k\<close>, and \<^verbatim>\<open>isPowerOfTwo\<close> decides whether it is the only one.\<close>

theorem rightmost_bit_correct:
  assumes "bit x k" "\<forall>j<k. \<not> bit x j"
  shows "isolateRightmostBit x = 2 ^ k \<and> withoutRightmostBit x = x - 2 ^ k \<and>
    indexOfRightmostBit x = of_nat k \<and> (isPowerOfTwo x \<longleftrightarrow> x = 2 ^ k)"
proof -
  have k: "k < 64" using bit_imp_le_length [OF assms(1)] by simp
  note iso = isolateRightmostBit_eq [OF assms]
  have "j = k" if "x = 2 ^ j" "j < 64" for j
    using that assms by (auto simp: bit_simps)
  then have "isPowerOfTwo x \<longleftrightarrow> x = 2 ^ k"
    using k by (auto simp: isPowerOfTwo_iff)
  with iso k show ?thesis
    by (simp add: withoutRightmostBit_eq indexOfRightmostBit_def indexOfSingleBit_eq)
qed

theorem rightmost_bit_correct_witness:
  "indexOfRightmostBit 40 = 3 \<and> isolateRightmostBit 40 = 8 \<and> withoutRightmostBit 40 = 32 \<and> \<not> isPowerOfTwo 40"
  using rightmost_bit_correct [of 40 3]
  by (auto simp: less_Suc_eq numeral_3_eq_3)

end
