(* ===== verification/ImmutableTree.thy ===== *)
theory ImmutableTree
  imports Prelude
begin

section \<open>Persistent balanced trees (klee/Internal/ADT/ImmutableTree.h, ImmutableMap.h)\<close>

text \<open>
  \<^verbatim>\<open>ImmutableTree<K, V, KOV, CMP>\<close>, the persistent search tree behind the address spaces and the
  independence and caching code. Nodes are immutable, so a node is the tree below it; reference counts
  do not show in the results. The template parameters \<^verbatim>\<open>KOV\<close> and \<^verbatim>\<open>CMP\<close> are the record \<open>tree_ops\<close>, and
  locale \<open>tree_order\<close> states what the tree needs of them: a strict weak order. The theory proves that
  every operation keeps the search order and the balance (sibling heights differ by at most two), what
  set of elements it leaves, what lookups return, and that iteration lists the elements in order with a
  stack that never outgrows its fixed size.
\<close>

subsection \<open>Nodes\<close>

datatype 'v node = Terminator
  | Node (node_left: "'v node") (node_right: "'v node") (node_value: 'v) (node_height: nat)
  where
    "node_left Terminator = Terminator"
  | "node_right Terminator = Terminator"
  | "node_height Terminator = 0"

fun isTerminator :: "'v node \<Rightarrow> bool" where
  "isTerminator Terminator = True"
| "isTerminator (Node l r v h) = False"

record ('k, 'v) tree_ops =
  key_of_value :: "'v \<Rightarrow> 'k"
  key_compare :: "'k \<Rightarrow> 'k \<Rightarrow> bool"

text \<open>\<^verbatim>\<open>Node(left, right, value)\<close>\<close>

definition newNode :: "'v node \<Rightarrow> 'v node \<Rightarrow> 'v \<Rightarrow> 'v node" where
  "newNode l r v = Node l r v (max (node_height l) (node_height r) + 1)"

definition balance :: "'v node \<Rightarrow> 'v \<Rightarrow> 'v node \<Rightarrow> 'v node" where
  "balance l v r =
     (if node_height l > node_height r + 2 then
        (let ll = node_left l; lr = node_right l in
         if node_height ll \<ge> node_height lr
         then newNode ll (newNode lr r v) (node_value l)
         else
           (let lrl = node_left lr; lrr = node_right lr in
            newNode (newNode ll lrl (node_value l)) (newNode lrr r v) (node_value lr)))
      else if node_height r > node_height l + 2 then
        (let rl = node_left r; rr = node_right r in
         if node_height rr \<ge> node_height rl
         then newNode (newNode l rl v) rr (node_value r)
         else
           (let rll = node_left rl; rlr = node_right rl in
            newNode (newNode l rll v) (newNode rlr rr (node_value r)) (node_value rl)))
      else newNode l r v)"

fun node_size :: "'v node \<Rightarrow> nat" where
  "node_size Terminator = 0"
| "node_size (Node l r v h) = node_size l + 1 + node_size r"

text \<open>\<^verbatim>\<open>popMin(valueOut)\<close>: the value and the new root. On the terminator \<open>valueOut\<close> gets the terminator's
  own, unspecified value.\<close>

fun popMin :: "'v node \<Rightarrow> 'v \<times> 'v node" where
  "popMin Terminator = (node_value Terminator, Terminator)"
| "popMin (Node l r v h) =
     (if isTerminator l then (v, r)
      else (let (out, l') = popMin l in (out, balance l' v r)))"

fun popMax :: "'v node \<Rightarrow> 'v \<times> 'v node" where
  "popMax Terminator = (node_value Terminator, Terminator)"
| "popMax (Node l r v h) =
     (if isTerminator r then (v, l)
      else (let (out, r') = popMax r in (out, balance l v r')))"

fun tree_insert :: "('k, 'v) tree_ops \<Rightarrow> 'v \<Rightarrow> 'v node \<Rightarrow> 'v node" where
  "tree_insert C v Terminator = newNode Terminator Terminator v"
| "tree_insert C v (Node l r x h) =
     (if key_compare C (key_of_value C v) (key_of_value C x) then balance (tree_insert C v l) x r
      else if key_compare C (key_of_value C x) (key_of_value C v) then balance l x (tree_insert C v r)
      else Node l r x h)"

fun tree_replace :: "('k, 'v) tree_ops \<Rightarrow> 'v \<Rightarrow> 'v node \<Rightarrow> 'v node" where
  "tree_replace C v Terminator = newNode Terminator Terminator v"
| "tree_replace C v (Node l r x h) =
     (if key_compare C (key_of_value C v) (key_of_value C x) then balance (tree_replace C v l) x r
      else if key_compare C (key_of_value C x) (key_of_value C v) then balance l x (tree_replace C v r)
      else newNode l r v)"

fun tree_remove :: "('k, 'v) tree_ops \<Rightarrow> 'k \<Rightarrow> 'v node \<Rightarrow> 'v node" where
  "tree_remove C k Terminator = Terminator"
| "tree_remove C k (Node l r x h) =
     (if key_compare C k (key_of_value C x) then balance (tree_remove C k l) x r
      else if key_compare C (key_of_value C x) k then balance l x (tree_remove C k r)
      else if isTerminator l then r
      else if isTerminator r then l
      else (let (min, nr) = popMin r in balance l min nr))"

subsection \<open>Lookups\<close>

fun tree_count :: "('k, 'v) tree_ops \<Rightarrow> 'k \<Rightarrow> 'v node \<Rightarrow> nat" where
  "tree_count C k Terminator = 0"
| "tree_count C k (Node l r x h) =
     (if key_compare C k (key_of_value C x) then tree_count C k l
      else if key_compare C (key_of_value C x) k then tree_count C k r
      else 1)"

fun tree_lookup :: "('k, 'v) tree_ops \<Rightarrow> 'k \<Rightarrow> 'v node \<Rightarrow> 'v option" where
  "tree_lookup C k Terminator = None"
| "tree_lookup C k (Node l r x h) =
     (if key_compare C k (key_of_value C x) then tree_lookup C k l
      else if key_compare C (key_of_value C x) k then tree_lookup C k r
      else Some x)"

text \<open>The loop of \<^verbatim>\<open>lookup_previous\<close>, with its local \<open>result\<close>.\<close>

fun lookup_previous_loop :: "('k, 'v) tree_ops \<Rightarrow> 'k \<Rightarrow> 'v option \<Rightarrow> 'v node \<Rightarrow> 'v option" where
  "lookup_previous_loop C k result Terminator = result"
| "lookup_previous_loop C k result (Node l r x h) =
     (if key_compare C k (key_of_value C x) then lookup_previous_loop C k result l
      else if key_compare C (key_of_value C x) k then lookup_previous_loop C k (Some x) r
      else Some x)"

definition lookup_previous :: "('k, 'v) tree_ops \<Rightarrow> 'k \<Rightarrow> 'v node \<Rightarrow> 'v option" where
  "lookup_previous C k t = lookup_previous_loop C k None t"

text \<open>\<^verbatim>\<open>min\<close>, \<^verbatim>\<open>max\<close>: the assertion excludes the empty tree.\<close>

fun tree_min :: "'v node \<Rightarrow> 'v option" where
  "tree_min Terminator = None"
| "tree_min (Node l r x h) = (if isTerminator l then Some x else tree_min l)"

fun tree_max :: "'v node \<Rightarrow> 'v option" where
  "tree_max Terminator = None"
| "tree_max (Node l r x h) = (if isTerminator r then Some x else tree_max r)"

subsection \<open>Iterators\<close>

text \<open>
  An iterator is its root and a \<^verbatim>\<open>FixedStack\<close> of nodes, here the list with the top first; the empty
  stack is \<^verbatim>\<open>end()\<close>. \<open>push_left\<close> and \<open>push_right\<close> are the loops that push a spine, \<open>climb_left\<close> and
  \<open>climb_right\<close> the loops that pop until they come up from a left (right) child. The pointer comparison
  \<^verbatim>\<open>prev==n->left\<close> is equality of subtrees: in a search tree only one child of a node can be a given
  non-empty subtree.
\<close>

type_synonym 'v stack = "'v node list"

fun push_left :: "'v node \<Rightarrow> 'v stack \<Rightarrow> 'v stack" where
  "push_left Terminator st = st"
| "push_left (Node l r v h) st = push_left l (Node l r v h # st)"

fun push_right :: "'v node \<Rightarrow> 'v stack \<Rightarrow> 'v stack" where
  "push_right Terminator st = st"
| "push_right (Node l r v h) st = push_right r (Node l r v h # st)"

definition it_begin :: "'v node \<Rightarrow> 'v stack" where
  "it_begin root = push_left root []"

definition it_end :: "'v node \<Rightarrow> 'v stack" where
  "it_end root = []"

fun it_deref :: "'v stack \<Rightarrow> 'v option" where
  "it_deref [] = None"
| "it_deref (n # st) = Some (node_value n)"

fun climb_left :: "'v node \<Rightarrow> 'v stack \<Rightarrow> 'v stack" where
  "climb_left prev [] = []"
| "climb_left prev (n # st) = (if prev = node_left n then n # st else climb_left n st)"

fun climb_right :: "'v node \<Rightarrow> 'v stack \<Rightarrow> 'v stack" where
  "climb_right prev [] = []"
| "climb_right prev (n # st) = (if prev = node_right n then n # st else climb_right n st)"

text \<open>\<^verbatim>\<open>operator++\<close>; it asserts that the stack is not empty, so at \<^verbatim>\<open>end()\<close> it aborts, which is \<open>None\<close>.
  \<open>advance\<close> is its body, with the top of the stack taken apart.\<close>

definition advance :: "'v node \<Rightarrow> 'v stack \<Rightarrow> 'v stack" where
  "advance n st =
     (if isTerminator (node_right n) then climb_left n st else push_left (node_right n) (n # st))"

fun it_next :: "'v stack \<Rightarrow> 'v stack option" where
  "it_next [] = None"
| "it_next (n # st) = Some (advance n st)"

text \<open>\<^verbatim>\<open>operator--\<close>: from the end to the last element.\<close>

fun it_prev :: "'v node \<Rightarrow> 'v stack \<Rightarrow> 'v stack" where
  "it_prev root [] = push_right root []"
| "it_prev root (n # st) =
     (if isTerminator (node_left n) then climb_right n st else push_right (node_left n) (n # st))"

text \<open>The descent of \<^verbatim>\<open>lower_bound\<close>, with whether it met an equivalent key, and the step after it. There and
  in \<^verbatim>\<open>upper_bound\<close> the \<^verbatim>\<open>++it\<close> stands behind a test that the stack is not empty, so it is \<open>advance\<close>.\<close>

fun lb_descend :: "('k, 'v) tree_ops \<Rightarrow> 'k \<Rightarrow> 'v node \<Rightarrow> 'v stack \<Rightarrow> 'v stack \<times> bool" where
  "lb_descend C k Terminator st = (st, False)"
| "lb_descend C k (Node l r x h) st =
     (let st' = Node l r x h # st in
      if key_compare C k (key_of_value C x) then lb_descend C k l st'
      else if key_compare C (key_of_value C x) k then lb_descend C k r st'
      else (st', True))"

fun lb_final :: "('k, 'v) tree_ops \<Rightarrow> 'k \<Rightarrow> 'v stack \<times> bool \<Rightarrow> 'v stack" where
  "lb_final C k (st, found) =
     (if found then st
      else (case st of
          [] \<Rightarrow> st
        | n # ns \<Rightarrow> if key_compare C (key_of_value C (node_value n)) k then advance n ns else st))"

definition lower_bound :: "('k, 'v) tree_ops \<Rightarrow> 'k \<Rightarrow> 'v node \<Rightarrow> 'v stack" where
  "lower_bound C k root = lb_final C k (lb_descend C k root [])"

definition it_find :: "('k, 'v) tree_ops \<Rightarrow> 'k \<Rightarrow> 'v node \<Rightarrow> 'v stack" where
  "it_find C k root =
     (let it = lower_bound C k root in
      case it_deref it of
        None \<Rightarrow> it_end root
      | Some v \<Rightarrow> if key_compare C k (key_of_value C v) then it_end root else it)"

definition upper_bound :: "('k, 'v) tree_ops \<Rightarrow> 'k \<Rightarrow> 'v node \<Rightarrow> 'v stack" where
  "upper_bound C k root =
     (let it = lower_bound C k root in
      case it of
        [] \<Rightarrow> it
      | n # ns \<Rightarrow> if \<not> key_compare C k (key_of_value C (node_value n)) then advance n ns else it)"

subsection \<open>Balance\<close>

text \<open>Heights are stored correctly and siblings differ by at most two.\<close>

fun bal :: "'v node \<Rightarrow> bool" where
  "bal Terminator = True"
| "bal (Node l r v h) \<longleftrightarrow> bal l \<and> bal r \<and> h = max (node_height l) (node_height r) + 1 \<and>
     node_height l \<le> node_height r + 2 \<and> node_height r \<le> node_height l + 2"

lemma height_pos: "bal t \<Longrightarrow> 0 < node_height t \<Longrightarrow> \<exists>l r v. t = Node l r v (node_height t)"
  by (cases t) auto

lemma balance_bal:
  assumes "bal l" "bal r" "node_height l \<le> node_height r + 3" "node_height r \<le> node_height l + 3"
  shows "bal (balance l v r) \<and>
    max (node_height l) (node_height r) \<le> node_height (balance l v r) \<and>
    node_height (balance l v r) \<le> max (node_height l) (node_height r) + 1 \<and>
    (node_height l \<le> node_height r + 2 \<and> node_height r \<le> node_height l + 2 \<longrightarrow>
      node_height (balance l v r) = max (node_height l) (node_height r) + 1)"
proof -
  consider (n) "node_height l \<le> node_height r + 2" "node_height r \<le> node_height l + 2"
    | (l) "node_height l = node_height r + 3" | (r) "node_height r = node_height l + 3"
    using assms by linarith
  then show ?thesis
  proof cases
    case n
    with assms show ?thesis by (auto simp: balance_def newNode_def)
  next
    case l
    then obtain ll lr lv hl where L: "l = Node ll lr lv hl" by (cases l) auto
    show ?thesis
    proof (cases "node_height ll \<ge> node_height lr")
      case True
      with l L assms show ?thesis by (auto simp: balance_def newNode_def Let_def max_def split: if_splits)
    next
      case False
      then obtain lrl lrr lrv hlr where LR: "lr = Node lrl lrr lrv hlr" by (cases lr) auto
      with False l L assms show ?thesis by (auto simp: balance_def newNode_def Let_def max_def split: if_splits)
    qed
  next
    case r
    then obtain rl rr rv hr where R: "r = Node rl rr rv hr" by (cases r) auto
    show ?thesis
    proof (cases "node_height rr \<ge> node_height rl")
      case True
      with r R assms show ?thesis by (auto simp: balance_def newNode_def Let_def max_def split: if_splits)
    next
      case False
      then obtain rll rlr rlv hrl where RL: "rl = Node rll rlr rlv hrl" by (cases rl) auto
      with False r R assms show ?thesis by (auto simp: balance_def newNode_def Let_def max_def split: if_splits)
    qed
  qed
qed

lemma newNode_simps [simp]:
  "set_node (newNode l r v) = insert v (set_node l \<union> set_node r)"
  "bal (newNode l r v) \<longleftrightarrow> bal l \<and> bal r \<and> node_height l \<le> node_height r + 2 \<and> node_height r \<le> node_height l + 2"
  by (auto simp: newNode_def)

lemma isTerminator_iff [simp]: "isTerminator t \<longleftrightarrow> t = Terminator"
  by (cases t) auto

text \<open>One step of rebalancing: a subtree has changed its height by at most one.\<close>

lemma balance_step:
  assumes "bal (Node l r v h)"
  shows "bal l' \<Longrightarrow> node_height l \<le> node_height l' + 1 \<Longrightarrow> node_height l' \<le> node_height l + 1 \<Longrightarrow>
      bal (balance l' x r) \<and> h \<le> node_height (balance l' x r) + 1 \<and> node_height (balance l' x r) \<le> h + 1 \<and>
      (node_height l \<le> node_height l' \<longrightarrow> h \<le> node_height (balance l' x r)) \<and>
      (node_height l' \<le> node_height l \<longrightarrow> node_height (balance l' x r) \<le> h)"
    and "bal r' \<Longrightarrow> node_height r \<le> node_height r' + 1 \<Longrightarrow> node_height r' \<le> node_height r + 1 \<Longrightarrow>
      bal (balance l x r') \<and> h \<le> node_height (balance l x r') + 1 \<and> node_height (balance l x r') \<le> h + 1 \<and>
      (node_height r \<le> node_height r' \<longrightarrow> h \<le> node_height (balance l x r')) \<and>
      (node_height r' \<le> node_height r \<longrightarrow> node_height (balance l x r') \<le> h)"
  using assms balance_bal [of l' r x] balance_bal [of l r' x] by auto

lemma insert_bal:
  "bal t \<Longrightarrow> bal (tree_insert C v t) \<and> node_height t \<le> node_height (tree_insert C v t) \<and>
    node_height (tree_insert C v t) \<le> node_height t + 1"
proof (induction t)
  case (Node l r x h)
  note step = balance_step [OF Node.prems, of _ x]
  show ?case using Node step(1) [of "tree_insert C v l"] step(2) [of "tree_insert C v r"] by auto
qed (simp add: newNode_def)

lemma replace_bal:
  "bal t \<Longrightarrow> bal (tree_replace C v t) \<and> node_height t \<le> node_height (tree_replace C v t) \<and>
    node_height (tree_replace C v t) \<le> node_height t + 1"
proof (induction t)
  case (Node l r x h)
  note step = balance_step [OF Node.prems, of _ x]
  show ?case using Node step(1) [of "tree_replace C v l"] step(2) [of "tree_replace C v r"]
    by (auto simp: newNode_def)
qed (simp add: newNode_def)

lemma popMin_bal:
  "bal t \<Longrightarrow> bal (snd (popMin t)) \<and> node_height t \<le> node_height (snd (popMin t)) + 1 \<and>
    node_height (snd (popMin t)) \<le> node_height t"
proof (induction t)
  case (Node l r x h)
  show ?case using Node balance_step(1) [OF Node.prems, of "snd (popMin l)" x]
    by (auto simp: split_beta Let_def)
qed simp

lemma popMax_bal:
  "bal t \<Longrightarrow> bal (snd (popMax t)) \<and> node_height t \<le> node_height (snd (popMax t)) + 1 \<and>
    node_height (snd (popMax t)) \<le> node_height t"
proof (induction t)
  case (Node l r x h)
  show ?case using Node balance_step(2) [OF Node.prems, of "snd (popMax r)" x]
    by (auto simp: split_beta Let_def)
qed simp

lemma remove_bal:
  "bal t \<Longrightarrow> bal (tree_remove C k t) \<and> node_height t \<le> node_height (tree_remove C k t) + 1 \<and>
    node_height (tree_remove C k t) \<le> node_height t"
proof (induction t)
  case (Node l r x h)
  note step = balance_step [OF Node.prems, of _ x]
  have "bal (snd (popMin r))" "node_height r \<le> node_height (snd (popMin r)) + 1"
    "node_height (snd (popMin r)) \<le> node_height r"
    using popMin_bal [of r] Node.prems by auto
  with Node step(1) [of "tree_remove C k l"] step(2) [of "tree_remove C k r"]
    balance_step(2) [OF Node.prems, of "snd (popMin r)" "fst (popMin r)"]
  show ?case by (auto simp: split_beta Let_def)
qed simp

text \<open>A tree of height \<open>h\<close> has at least \<open>2 ^ (h div 3) - 1\<close> elements.\<close>

lemma bal_size: "bal t \<Longrightarrow> node_height t \<ge> h \<Longrightarrow> 2 ^ (h div 3) \<le> node_size t + 1"
proof (induction h arbitrary: t rule: less_induct)
  case (less h)
  show ?case
  proof (cases "h < 3")
    case True
    then show ?thesis by (simp add: div_less)
  next
    case False
    then obtain l r v where t: "t = Node l r v (node_height t)"
      using height_pos [OF less.prems(1)] less.prems(2) by auto
    have b: "bal l" "bal r" "node_height t = max (node_height l) (node_height r) + 1"
      "node_height l \<le> node_height r + 2" "node_height r \<le> node_height l + 2"
      using less.prems(1) by (subst (asm) t, simp)+
    then have "h - 3 \<le> node_height l" "h - 3 \<le> node_height r" using less.prems(2) by auto
    then have "2 ^ ((h - 3) div 3) \<le> node_size l + 1" "2 ^ ((h - 3) div 3) \<le> node_size r + 1"
      using less.IH [of "h - 3"] b False by auto
    moreover have "(2::nat) ^ (h div 3) = 2 * 2 ^ ((h - 3) div 3)"
      using False by (simp add: le_div_geq [of 3 h])
    moreover have "node_size t = node_size l + 1 + node_size r" by (subst t) simp
    ultimately show ?thesis by simp
  qed
qed

text \<open>The trees a client can make, and the depth of a tree, whatever heights its nodes store.\<close>

inductive built :: "('k, 'v) tree_ops \<Rightarrow> 'v node \<Rightarrow> bool" for C where
  empty: "built C Terminator"
| insert: "built C t \<Longrightarrow> built C (tree_insert C v t)"
| replace: "built C t \<Longrightarrow> built C (tree_replace C v t)"
| remove: "built C t \<Longrightarrow> built C (tree_remove C k t)"
| pop_min: "built C t \<Longrightarrow> t \<noteq> Terminator \<Longrightarrow> built C (snd (popMin t))"
| pop_max: "built C t \<Longrightarrow> t \<noteq> Terminator \<Longrightarrow> built C (snd (popMax t))"

fun depth :: "'v node \<Rightarrow> nat" where
  "depth Terminator = 0"
| "depth (Node l r v h) = max (depth l) (depth r) + 1"

lemma built_bal: "built C t \<Longrightarrow> bal t"
  by (induction rule: built.induct) (simp_all add: insert_bal replace_bal remove_bal popMin_bal popMax_bal)

lemma bal_depth: "bal t \<Longrightarrow> depth t = node_height t"
  by (induction t) auto

subsection \<open>Search order\<close>

lemma set_balance [simp]: "set_node (balance l v r) = insert v (set_node l \<union> set_node r)"
  by (cases l; cases "node_right l"; cases r; cases "node_left r")
    (auto simp: balance_def Let_def)

fun inorder :: "'v node \<Rightarrow> 'v list" where
  "inorder Terminator = []"
| "inorder (Node l r v h) = inorder l @ v # inorder r"

lemma set_inorder [simp]: "set (inorder t) = set_node t"
  by (induction t) auto

lemma length_inorder: "length (inorder t) = node_size t"
  by (induction t) auto

text \<open>The elements are strictly increasing in the key order.\<close>

definition key_less :: "('k, 'v) tree_ops \<Rightarrow> 'v \<Rightarrow> 'v \<Rightarrow> bool" where
  "key_less C a b \<longleftrightarrow> key_compare C (key_of_value C a) (key_of_value C b)"

fun bst :: "('k, 'v) tree_ops \<Rightarrow> 'v node \<Rightarrow> bool" where
  "bst C Terminator = True"
| "bst C (Node l r v h) \<longleftrightarrow> bst C l \<and> bst C r \<and>
     (\<forall>x \<in> set_node l. key_less C x v) \<and> (\<forall>x \<in> set_node r. key_less C v x)"

text \<open>Equivalent keys: neither is below the other.\<close>

definition key_equiv :: "('k, 'v) tree_ops \<Rightarrow> 'k \<Rightarrow> 'k \<Rightarrow> bool" where
  "key_equiv C a b \<longleftrightarrow> \<not> key_compare C a b \<and> \<not> key_compare C b a"

locale tree_order =
  fixes C :: "('k, 'v) tree_ops"
  assumes irrefl: "\<not> key_compare C a a"
    and trans: "key_compare C a b \<Longrightarrow> key_compare C b c \<Longrightarrow> key_compare C a c"
    and cotrans: "key_compare C a b \<Longrightarrow> key_compare C a c \<or> key_compare C c b"
begin

abbreviation (input) lt :: "'k \<Rightarrow> 'k \<Rightarrow> bool" where "lt a b \<equiv> key_compare C a b"
abbreviation (input) key :: "'v \<Rightarrow> 'k" where "key v \<equiv> key_of_value C v"

lemma kless_trans: "key_less C a b \<Longrightarrow> key_less C b c \<Longrightarrow> key_less C a c"
  unfolding key_less_def by (rule trans)

lemma equiv_less_left: "key_equiv C a b \<Longrightarrow> lt a c \<longleftrightarrow> lt b c"
  unfolding key_equiv_def using cotrans by blast

lemma equiv_less_right: "key_equiv C a b \<Longrightarrow> lt c a \<longleftrightarrow> lt c b"
  unfolding key_equiv_def using cotrans by blast

lemma equiv_refl: "key_equiv C a a"
  by (simp add: key_equiv_def irrefl)

lemma equiv_sym: "key_equiv C a b \<Longrightarrow> key_equiv C b a"
  by (simp add: key_equiv_def)

lemma bst_newNode: "bst C (newNode l r v) \<longleftrightarrow> bst C l \<and> bst C r \<and>
     (\<forall>x \<in> set_node l. key_less C x v) \<and> (\<forall>x \<in> set_node r. key_less C v x)"
  by (simp add: newNode_def)

lemma bst_balance:
  "bst C l \<Longrightarrow> bst C r \<Longrightarrow> \<forall>x \<in> set_node l. key_less C x v \<Longrightarrow> \<forall>x \<in> set_node r. key_less C v x \<Longrightarrow>
    bst C (balance l v r)"
  by (cases l; cases "node_right l"; cases r; cases "node_left r")
    (auto simp: balance_def Let_def bst_newNode intro: kless_trans)

text \<open>At a node, a key below the node's is not in the right subtree, one above not in the left.\<close>

lemma node_sides:
  assumes "bst C (Node l r x h)"
  shows "lt k (key x) \<Longrightarrow> u \<in> insert x (set_node r) \<Longrightarrow> \<not> key_equiv C (key u) k"
    and "lt (key x) k \<Longrightarrow> u \<in> insert x (set_node l) \<Longrightarrow> \<not> key_equiv C (key u) k"
    and "key_equiv C (key x) k \<Longrightarrow> u \<in> set_node l \<union> set_node r \<Longrightarrow> \<not> key_equiv C (key u) k"
  using assms trans [of k "key x" "key u"] trans [of "key u" "key x" k]
    equiv_less_left [of "key x" k "key u"] equiv_less_right [of "key x" k "key u"]
  by (auto simp: key_equiv_def key_less_def)

lemma cmp_cases:
  obtains "lt k (key x)" "\<not> lt (key x) k" | "lt (key x) k" "\<not> lt k (key x)" | "key_equiv C (key x) k" "\<not> lt k (key x)" "\<not> lt (key x) k"
  using trans irrefl unfolding key_equiv_def by blast

lemma insert_set:
  "bst C t \<Longrightarrow> bst C (tree_insert C v t) \<and>
    set_node (tree_insert C v t) =
      (if \<exists>u \<in> set_node t. key_equiv C (key u) (key v) then set_node t else insert v (set_node t))"
proof (induction t)
  case Terminator
  then show ?case by (simp add: bst_newNode)
next
  case (Node l r x h)
  note sides = node_sides [OF Node.prems, where k = "key v"]
  show ?case
  proof (cases rule: cmp_cases [of "key v" x])
    case 1
    then have ex: "(\<exists>u \<in> set_node (Node l r x h). key_equiv C (key u) (key v)) \<longleftrightarrow>
        (\<exists>u \<in> set_node l. key_equiv C (key u) (key v))" using sides(1) by auto
    have "\<forall>u \<in> set_node (tree_insert C v l). key_less C u x"
      using Node 1 by (auto simp: key_less_def split: if_splits)
    with Node 1 show ?thesis unfolding ex by (auto intro!: bst_balance)
  next
    case 2
    then have ex: "(\<exists>u \<in> set_node (Node l r x h). key_equiv C (key u) (key v)) \<longleftrightarrow>
        (\<exists>u \<in> set_node r. key_equiv C (key u) (key v))" using sides(2) by auto
    have "\<forall>u \<in> set_node (tree_insert C v r). key_less C x u"
      using Node 2 by (auto simp: key_less_def split: if_splits)
    with Node 2 show ?thesis unfolding ex by (auto intro!: bst_balance)
  next
    case 3
    with Node.prems show ?thesis by auto
  qed
qed

lemma replace_set:
  "bst C t \<Longrightarrow> bst C (tree_replace C v t) \<and>
    set_node (tree_replace C v t) = insert v {u \<in> set_node t. \<not> key_equiv C (key u) (key v)}"
proof (induction t)
  case Terminator
  then show ?case by (simp add: bst_newNode)
next
  case (Node l r x h)
  note sides = node_sides [OF Node.prems, where k = "key v"]
  show ?case
  proof (cases rule: cmp_cases [of "key v" x])
    case 1
    have "\<forall>u \<in> set_node (tree_replace C v l). key_less C u x"
      using Node 1 by (auto simp: key_less_def)
    with Node 1 sides(1) show ?thesis by (auto intro!: bst_balance)
  next
    case 2
    have "\<forall>u \<in> set_node (tree_replace C v r). key_less C x u"
      using Node 2 by (auto simp: key_less_def)
    with Node 2 sides(2) show ?thesis by (auto intro!: bst_balance)
  next
    case 3
    have "\<forall>u \<in> set_node l. key_less C u v" "\<forall>u \<in> set_node r. key_less C v u"
      using Node.prems 3 equiv_less_left equiv_less_right by (auto simp: key_less_def)
    with Node.prems 3 sides(3) show ?thesis by (auto simp: bst_newNode)
  qed
qed

lemma popMin_set:
  "bst C t \<Longrightarrow> t \<noteq> Terminator \<Longrightarrow> bst C (snd (popMin t)) \<and>
    set_node t = insert (fst (popMin t)) (set_node (snd (popMin t))) \<and>
    (\<forall>x \<in> set_node (snd (popMin t)). key_less C (fst (popMin t)) x)"
proof (induction t)
  case (Node l r x h)
  show ?case
  proof (cases "l = Terminator")
    case False
    obtain m l' where p: "popMin l = (m, l')" by force
    from Node False have IH: "bst C l'" "set_node l = insert m (set_node l')" "\<forall>x \<in> set_node l'. key_less C m x"
      by (simp_all add: p)
    with Node.prems False show ?thesis
      by (auto simp: p intro: kless_trans intro!: bst_balance)
  qed (use Node.prems in auto)
qed simp

lemma popMax_set:
  "bst C t \<Longrightarrow> t \<noteq> Terminator \<Longrightarrow> bst C (snd (popMax t)) \<and>
    set_node t = insert (fst (popMax t)) (set_node (snd (popMax t))) \<and>
    (\<forall>x \<in> set_node (snd (popMax t)). key_less C x (fst (popMax t)))"
proof (induction t)
  case (Node l r x h)
  show ?case
  proof (cases "r = Terminator")
    case False
    obtain m r' where p: "popMax r = (m, r')" by force
    from Node False have IH: "bst C r'" "set_node r = insert m (set_node r')" "\<forall>x \<in> set_node r'. key_less C x m"
      by (simp_all add: p)
    with Node.prems False show ?thesis
      by (auto simp: p intro: kless_trans intro!: bst_balance)
  qed (use Node.prems in auto)
qed simp

lemma remove_set:
  "bst C t \<Longrightarrow> bst C (tree_remove C k t) \<and>
    set_node (tree_remove C k t) = {u \<in> set_node t. \<not> key_equiv C (key u) k}"
proof (induction t)
  case (Node l r x h)
  note sides = node_sides [OF Node.prems, where k = k]
  show ?case
  proof (cases rule: cmp_cases [of k x])
    case 1
    with Node sides(1) show ?thesis by (auto intro!: bst_balance)
  next
    case 2
    with Node sides(2) show ?thesis by (auto intro!: bst_balance)
  next
    case 3
    have no: "{u \<in> set_node (Node l r x h). \<not> key_equiv C (key u) k} = set_node l \<union> set_node r"
      using 3 sides(3) by auto
    show ?thesis
    proof (cases "l = Terminator \<or> r = Terminator")
      case True
      with Node.prems 3 show ?thesis unfolding no by auto
    next
      case False
      obtain m r' where p: "popMin r = (m, r')" by force
      have "bst C r'" "set_node r = insert m (set_node r')" "\<forall>x \<in> set_node r'. key_less C m x"
        using popMin_set [of r] Node.prems False by (simp_all add: p)
      with Node.prems 3 False show ?thesis
        unfolding no by (auto simp: p intro: kless_trans intro!: bst_balance)
    qed
  qed
qed simp

text \<open>Lookups.\<close>

lemma lookup_Some:
  "bst C t \<Longrightarrow> tree_lookup C k t = Some v \<longleftrightarrow> v \<in> set_node t \<and> key_equiv C (key v) k"
proof (induction t)
  case (Node l r x h)
  note sides = node_sides [OF Node.prems, where k = k]
  show ?case
    by (cases rule: cmp_cases [of k x]) (use Node sides in auto)
qed simp

lemma count_lookup: "tree_count C k t = (if tree_lookup C k t = None then 0 else 1)"
  by (induction t) auto

lemma lookup_None:
  "bst C t \<Longrightarrow> tree_lookup C k t = None \<longleftrightarrow> (\<forall>v \<in> set_node t. \<not> key_equiv C (key v) k)"
  using lookup_Some [of t k] by (metis not_None_eq option.distinct(1))

text \<open>\<^verbatim>\<open>lookup_previous\<close> is the last element whose key is not above.\<close>

lemma previous_loop:
  "bst C t \<Longrightarrow> lookup_previous_loop C k res t =
    (if filter (\<lambda>u. \<not> lt k (key u)) (inorder t) = [] then res
     else Some (last (filter (\<lambda>u. \<not> lt k (key u)) (inorder t))))"
proof (induction t arbitrary: res)
  case (Node l r x h)
  have prems: "bst C l" "bst C r" "\<And>u. u \<in> set_node l \<Longrightarrow> lt (key u) (key x)"
    "\<And>u. u \<in> set_node r \<Longrightarrow> lt (key x) (key u)"
    using Node.prems by (auto simp: key_less_def)
  show ?case
  proof (cases rule: cmp_cases [of k x])
    case 1
    then have "filter (\<lambda>u. \<not> lt k (key u)) (inorder r) = []"
      using prems(4) trans by (auto simp: filter_empty_conv)
    with 1 Node.IH(1) [OF prems(1)] show ?thesis by simp
  next
    case 2
    then show ?thesis
      using Node.IH(2) [OF prems(2), of "Some x"]
      by (simp add: last_append)
  next
    case 3
    then have "filter (\<lambda>u. \<not> lt k (key u)) (inorder r) = []"
      using prems(4) equiv_less_left by (auto simp: filter_empty_conv)
    with 3 show ?thesis by (simp add: last_append)
  qed
qed simp

end

subsection \<open>Iteration\<close>

text \<open>A stack is a path from the root to its top.\<close>

fun path :: "'v node \<Rightarrow> 'v stack \<Rightarrow> bool" where
  "path t [] \<longleftrightarrow> True"
| "path t [n] \<longleftrightarrow> n = t \<and> n \<noteq> Terminator"
| "path t (n # p # ps) \<longleftrightarrow> n \<noteq> Terminator \<and> (n = node_left p \<or> n = node_right p) \<and> path t (p # ps)"

lemma path_height:
  "path t (n # ps) \<Longrightarrow> bal t \<Longrightarrow> bal n \<and> length ps + node_height n \<le> node_height t"
proof (induction t "n # ps" arbitrary: n ps rule: path.induct)
  case (3 t n p ps)
  then show ?case by (cases p) auto
qed auto

text \<open>The fixed stack of \<open>node_height t\<close> places is large enough.\<close>

lemma path_length: "path t st \<Longrightarrow> bal t \<Longrightarrow> length st \<le> node_height t"
proof (cases st)
  case (Cons n ps)
  assume "path t st" "bal t"
  with Cons path_height [of t n ps] have "bal n" "length ps + node_height n \<le> node_height t" "n \<noteq> Terminator"
    by (auto elim: path.elims)
  then show ?thesis using Cons by (cases n) auto
qed simp

lemma path_tl: "path t (n # st) \<Longrightarrow> path t st"
  by (cases st) auto

lemma path_push_left:
  "path t st \<Longrightarrow> (n = Terminator \<or> path t (n # st)) \<Longrightarrow> path t (push_left n st)"
  by (induction n arbitrary: st) auto

lemma path_push_right:
  "path t st \<Longrightarrow> (n = Terminator \<or> path t (n # st)) \<Longrightarrow> path t (push_right n st)"
  by (induction n arbitrary: st) auto

lemma path_climb: "path t st \<Longrightarrow> path t (climb_left n st) \<and> path t (climb_right n st)"
  by (induction st arbitrary: n) (auto dest: path_tl)

lemma path_begin: "path t (it_begin t)"
  unfolding it_begin_def by (rule path_push_left) auto

lemma path_advance: "path t (n # st) \<Longrightarrow> path t (advance n st)"
  by (auto simp: advance_def dest: path_tl intro!: path_push_left path_climb [THEN conjunct1])

lemma path_prev: "path t st \<Longrightarrow> path t (it_prev t st)"
  by (cases st) (auto dest: path_tl intro!: path_push_right path_climb [THEN conjunct2])

text \<open>The elements from the iterator's position on, and those before it.\<close>

fun up :: "'v node \<Rightarrow> 'v stack \<Rightarrow> 'v list" where
  "up n [] = []"
| "up n (p # ps) =
     (if n = node_left p then node_value p # inorder (node_right p) @ up p ps else up p ps)"

fun remaining :: "'v stack \<Rightarrow> 'v list" where
  "remaining [] = []"
| "remaining (n # ps) = node_value n # inorder (node_right n) @ up n ps"

fun before :: "'v node \<Rightarrow> 'v stack \<Rightarrow> 'v list" where
  "before n [] = []"
| "before n (p # ps) =
     (if n = node_left p then before p ps else before p ps @ inorder (node_left p) @ [node_value p])"

fun preceding :: "'v node \<Rightarrow> 'v stack \<Rightarrow> 'v list" where
  "preceding t [] = inorder t"
| "preceding t (n # ps) = before n ps @ inorder (node_left n)"

lemma remaining_push_left: "n \<noteq> Terminator \<Longrightarrow> remaining (push_left n st) = inorder n @ up n st"
proof (induction n arbitrary: st)
  case (Node l r v h)
  then show ?case by (cases "l = Terminator") auto
qed simp

lemma remaining_climb: "remaining (climb_left n st) = up n st"
  by (induction st arbitrary: n) auto

lemma remaining_begin: "remaining (it_begin t) = inorder t"
  by (cases t) (simp_all add: it_begin_def remaining_push_left del: push_left.simps(2))

lemma deref_remaining: "it_deref st = (case remaining st of [] \<Rightarrow> None | v # vs \<Rightarrow> Some v)"
  by (cases st) auto

text \<open>\<open>i\<close> increments in a row.\<close>

primrec it_steps :: "nat \<Rightarrow> 'v stack \<Rightarrow> 'v stack option" where
  "it_steps 0 st = Some st"
| "it_steps (Suc i) st = Option.bind (it_steps i st) it_next"

context tree_order
begin

text \<open>The children of a node of a search tree differ.\<close>

lemma asym: "lt a b \<Longrightarrow> \<not> lt b a"
  using trans irrefl by blast

lemma children_differ: "bst C p \<Longrightarrow> node_right p \<noteq> Terminator \<Longrightarrow> node_right p \<noteq> node_left p"
proof
  assume p: "bst C p" "node_right p \<noteq> Terminator" "node_right p = node_left p"
  have "set_node t \<noteq> {}" if "t \<noteq> Terminator" for t :: "'v node" using that by (cases t) auto
  with p(2) obtain x where x: "x \<in> set_node (node_right p)" by blast
  obtain v where "key_less C x v" "key_less C v x" using p x by (cases p) auto
  then show False using asym by (auto simp: key_less_def)
qed

lemma path_bst: "path t (n # ps) \<Longrightarrow> bst C t \<Longrightarrow> bst C n"
proof (induction t "n # ps" arbitrary: n ps rule: path.induct)
  case (3 t n p ps)
  then show ?case by (cases p) auto
qed auto

lemma next_remaining:
  assumes "path t (n # ps)" "bst C t"
  shows "remaining (advance n ps) = tl (remaining (n # ps))"
proof (cases "node_right n = Terminator")
  case True
  then show ?thesis by (simp add: advance_def remaining_climb)
next
  case False
  then show ?thesis
    using children_differ [OF path_bst [OF assms]] by (simp add: advance_def remaining_push_left)
qed

lemma steps_remaining:
  "bst C t \<Longrightarrow> i \<le> node_size t \<Longrightarrow>
    \<exists>st. it_steps i (it_begin t) = Some st \<and> path t st \<and> remaining st = drop i (inorder t)"
proof (induction i)
  case (Suc i)
  then obtain st where st: "it_steps i (it_begin t) = Some st" "path t st" "remaining st = drop i (inorder t)"
    by auto
  obtain n ps where c: "st = n # ps"
    using st(3) Suc.prems(2) by (cases st) (auto simp: length_inorder [symmetric])
  have "drop (Suc i) (inorder t) = tl (remaining st)" using st(3) by (simp add: drop_Suc tl_drop)
  with c next_remaining [of t n ps] path_advance [of t n ps] st(1,2) Suc.prems(1) show ?case
    by (simp del: remaining.simps)
qed (simp add: path_begin remaining_begin)

lemma steps_too_many: "bst C t \<Longrightarrow> it_steps (Suc (node_size t) + d) (it_begin t) = None"
proof (induction d)
  case 0
  then obtain st where "it_steps (node_size t) (it_begin t) = Some st" "remaining st = drop (node_size t) (inorder t)"
    using steps_remaining [of t "node_size t"] by auto
  then show ?case by (cases st) (simp_all add: length_inorder [symmetric])
qed simp

text \<open>\<^verbatim>\<open>operator--\<close> goes one element back.\<close>

lemma preceding_push_right:
  "n \<noteq> Terminator \<Longrightarrow> bst C n \<Longrightarrow>
    preceding t (push_right n st) = butlast (before n st @ inorder n)"
proof (induction n arbitrary: st)
  case (Node l r v h)
  show ?case
  proof (cases "r = Terminator")
    case False
    with children_differ [of "Node l r v h"] Node show ?thesis by (auto simp: butlast_append)
  qed (simp add: butlast_append)
qed simp

lemma preceding_climb:
  "path t (n # st) \<Longrightarrow> bst C t \<Longrightarrow> (climb_right n st = [] \<longrightarrow> before n st = []) \<and>
    (climb_right n st \<noteq> [] \<longrightarrow> preceding t (climb_right n st) = butlast (before n st))"
proof (induction st arbitrary: n)
  case (Cons p ps)
  have p: "path t (p # ps)" using Cons.prems(1) by (rule path_tl)
  show ?case
  proof (cases "n = node_right p")
    case True
    then have "n \<noteq> node_left p"
      using children_differ [OF path_bst [OF p Cons.prems(2)]] Cons.prems(1) by auto
    with True show ?thesis by (simp add: butlast_append)
  next
    case False
    with Cons.prems(1) have "n = node_left p" by auto
    with False Cons.IH [OF p Cons.prems(2)] show ?thesis by auto
  qed
qed simp

lemma prev_preceding:
  assumes "path t st" "bst C t" "preceding t st \<noteq> []"
  shows "preceding t (it_prev t st) = butlast (preceding t st) \<and> it_prev t st \<noteq> []"
proof -
  have ne: "push_right m st \<noteq> []" if "st \<noteq> []" for m and st :: "'v stack"
    using that by (induction m arbitrary: st) auto
  show ?thesis
  proof (cases st)
  case Nil
  with assms Nil preceding_push_right [of t t "[]"] ne show ?thesis by (cases t) auto
next
  case (Cons n ps)
  have n: "bst C n" using path_bst assms Cons by blast
  then have l: "bst C (node_left n)" by (cases n) auto
  show ?thesis
  proof (cases "node_left n = Terminator")
    case True
    with assms Cons preceding_climb [of t n ps] show ?thesis by auto
  next
    case False
    with l assms Cons preceding_push_right [of "node_left n" t "n # ps"] ne show ?thesis by simp
  qed
  qed
qed

lemma before_up: "path t (n # st) \<Longrightarrow> bst C t \<Longrightarrow> before n st @ inorder n @ up n st = inorder t"
proof (induction st arbitrary: n)
  case (Cons p ps)
  have p: "path t (p # ps)" using Cons.prems(1) by (rule path_tl)
  note IH = Cons.IH [OF p Cons.prems(2)]
  have "p \<noteq> Terminator" using p by (cases ps) auto
  with IH Cons.prems(1) children_differ [OF path_bst [OF p Cons.prems(2)]] show ?case
    by (cases p) auto
qed simp

lemma preceding_remaining:
  "path t st \<Longrightarrow> bst C t \<Longrightarrow> preceding t st @ remaining st = inorder t"
proof (cases st)
  case (Cons n ps)
  assume "path t st" "bst C t"
  with Cons before_up [of t n ps] show ?thesis by (cases n; cases ps) auto
qed simp

lemma prev_remaining:
  assumes "bst C t" "path t st" "remaining st = drop i (inorder t)" "0 < i" "i \<le> node_size t"
  shows "remaining (it_prev t st) = drop (i - 1) (inorder t)"
proof -
  have "preceding t st @ drop i (inorder t) = take i (inorder t) @ drop i (inorder t)"
    using preceding_remaining [OF assms(2,1)] assms(3) by simp
  then have pre: "preceding t st = take i (inorder t)" by (simp only: append_same_eq)
  have "preceding t (it_prev t st) = butlast (take i (inorder t))"
    using prev_preceding [OF assms(2,1)] pre assms(4,5)
    by (cases "inorder t") (auto simp: length_inorder [symmetric])
  also have "\<dots> = take (i - 1) (inorder t)"
    using assms(4,5) by (simp add: butlast_take length_inorder)
  finally have "take (i - 1) (inorder t) @ remaining (it_prev t st) =
      take (i - 1) (inorder t) @ drop (i - 1) (inorder t)"
    using preceding_remaining [OF path_prev [OF assms(2)] assms(1)] by simp
  then show ?thesis by (simp only: same_append_eq)
qed

text \<open>\<^verbatim>\<open>lower_bound\<close> finds the first element whose key is not below.\<close>

lemma lb_remaining:
  "n \<noteq> Terminator \<Longrightarrow> bst C n \<Longrightarrow>
    remaining (lb_final C k (lb_descend C k n st)) =
      filter (\<lambda>u. \<not> lt (key u) k) (inorder n) @ up n st"
proof (induction n arbitrary: st)
  case (Node l r x h)
  have prems: "bst C l" "bst C r" "\<And>u. u \<in> set_node l \<Longrightarrow> lt (key u) (key x)"
    "\<And>u. u \<in> set_node r \<Longrightarrow> lt (key x) (key u)"
    using Node.prems by (auto simp: key_less_def)
  show ?case
  proof (cases rule: cmp_cases [of k x])
    case 1
    then have "filter (\<lambda>u. \<not> lt (key u) k) (inorder r) = inorder r"
      using 1 prems(4) trans asym by (intro filter_True) (metis set_inorder)
    with 1 Node.IH(1) [of "Node l r x h # st"] prems show ?thesis
      by (cases "l = Terminator") (simp_all add: Let_def)
  next
    case 2
    then have "filter (\<lambda>u. \<not> lt (key u) k) (inorder l) = []"
      using prems(3) trans by (auto simp: filter_empty_conv)
    with 2 Node.IH(2) [of "Node l r x h # st"] prems children_differ [OF Node.prems(2)] show ?thesis
      by (cases "r = Terminator") (simp_all add: Let_def advance_def remaining_climb)
  next
    case 3
    then have "filter (\<lambda>u. \<not> lt (key u) k) (inorder l) = []" "filter (\<lambda>u. \<not> lt (key u) k) (inorder r) = inorder r"
      using prems(3,4) equiv_less_right equiv_less_left asym
      by (auto simp: filter_empty_conv intro!: filter_True)
    with 3 show ?thesis by (simp add: Let_def)
  qed
qed simp

lemma lower_bound_remaining:
  "bst C t \<Longrightarrow> remaining (lower_bound C k t) = filter (\<lambda>u. \<not> lt (key u) k) (inorder t)"
proof (cases "t = Terminator")
  case False
  assume "bst C t"
  with False lb_remaining [of t k "[]"] show ?thesis
    by (simp add: lower_bound_def)
qed (simp add: lower_bound_def)

lemma path_descend: "path t (n # st) \<or> (n = Terminator \<and> path t st) \<Longrightarrow> path t (fst (lb_descend C k n st))"
proof (induction n arbitrary: st)
  case (Node l r x h)
  then show ?case
    using Node.IH(1) [of "Node l r x h # st"] Node.IH(2) [of "Node l r x h # st"]
    by (cases "l = Terminator"; cases "r = Terminator") (auto simp: Let_def)
qed (auto dest: path_tl)

lemma path_lower_bound: "path t (lower_bound C k t)"
  using path_descend [of t t "[]" k] path_advance [of t]
  by (cases "lb_descend C k t []"; cases t) (auto simp: lower_bound_def split: list.split)

lemma set_linear:
  "bst C t \<Longrightarrow> u \<in> set_node t \<Longrightarrow> v \<in> set_node t \<Longrightarrow> u = v \<or> key_less C u v \<or> key_less C v u"
proof (induction t)
  case (Node l r x h)
  then have "bst C l" "bst C r" "\<And>y. y \<in> set_node l \<Longrightarrow> key_less C y x" "\<And>y. y \<in> set_node r \<Longrightarrow> key_less C x y"
    "u = x \<or> u \<in> set_node l \<or> u \<in> set_node r" "v = x \<or> v \<in> set_node l \<or> v \<in> set_node r" by auto
  with Node.IH kless_trans show ?case by metis
qed simp

lemma set_unique:
  "bst C t \<Longrightarrow> u \<in> set_node t \<Longrightarrow> v \<in> set_node t \<Longrightarrow> key_equiv C (key u) (key v) \<Longrightarrow> u = v"
  using set_linear [of t u v] by (auto simp: key_less_def key_equiv_def)

lemma inorder_sorted: "bst C t \<Longrightarrow> sorted_wrt (key_less C) (inorder t)"
  by (induction t) (auto simp: sorted_wrt_append intro: kless_trans)

text \<open>The elements not below \<open>k\<close>, by the first of them.\<close>

lemma filter_from:
  assumes "bst C t" "filter (\<lambda>u. \<not> lt (key u) k) (inorder t) = v # vs"
  shows "filter (\<lambda>u. lt k (key u)) (inorder t) = (if lt k (key v) then v # vs else vs)"
    and "tree_lookup C k t = (if lt k (key v) then None else Some v)"
proof -
  let ?xs = "inorder t"
  have "sorted_wrt (key_less C) (v # vs)"
    using inorder_sorted [OF assms(1)] assms(2) sorted_wrt_filter by metis
  then have vs: "\<forall>u \<in> set vs. lt (key v) (key u)" by (simp add: key_less_def)
  have v: "v \<in> set_node t" "\<not> lt (key v) k" and sub: "\<And>u. u \<in> set_node t \<Longrightarrow> \<not> lt (key u) k \<longleftrightarrow> u \<in> set (v # vs)"
    using assms(2) [symmetric] by (auto simp flip: set_inorder dest!: arg_cong [where f = set])
  have "lt k (key u)" if "u \<in> set vs" for u
    using vs v(2) that cotrans by blast
  moreover have "filter (\<lambda>u. lt k (key u)) ?xs = filter (\<lambda>u. lt k (key u)) (filter (\<lambda>u. \<not> lt (key u) k) ?xs)"
    using asym by (simp add: filter_filter) (metis asym)
  ultimately show "filter (\<lambda>u. lt k (key u)) ?xs = (if lt k (key v) then v # vs else vs)"
    by (simp add: assms(2))
  show "tree_lookup C k t = (if lt k (key v) then None else Some v)"
  proof (cases "lt k (key v)")
    case True
    have "\<not> key_equiv C (key u) k" if "u \<in> set_node t" for u
      using sub [OF that] True vs trans by (auto simp: key_equiv_def)
    with True show ?thesis by (simp add: lookup_None [OF assms(1)])
  next
    case False
    with v show ?thesis by (simp add: lookup_Some [OF assms(1)] key_equiv_def)
  qed
qed

lemma filter_none:
  assumes "bst C t" "filter (\<lambda>u. \<not> lt (key u) k) (inorder t) = []"
  shows "filter (\<lambda>u. lt k (key u)) (inorder t) = []" "tree_lookup C k t = None"
  using assms(2) asym by (auto simp: filter_empty_conv lookup_None [OF assms(1)] key_equiv_def)

lemma upper_bound_remaining:
  assumes "bst C t"
  shows "remaining (upper_bound C k t) = filter (\<lambda>u. lt k (key u)) (inorder t)"
proof (cases "lower_bound C k t")
  case Nil
  then have "filter (\<lambda>u. \<not> lt (key u) k) (inorder t) = []"
    using lower_bound_remaining [OF assms, of k] by simp
  with Nil filter_none [OF assms] show ?thesis by (simp add: upper_bound_def)
next
  case (Cons n ps)
  then have f: "filter (\<lambda>u. \<not> lt (key u) k) (inorder t) = node_value n # inorder (node_right n) @ up n ps"
    using lower_bound_remaining [OF assms, of k] by simp
  have p: "path t (n # ps)" using path_lower_bound [of t k] Cons by simp
  show ?thesis
    using Cons filter_from(1) [OF assms f] next_remaining [OF p assms]
    by (simp add: upper_bound_def Let_def)
qed

lemma find_lookup:
  assumes "bst C t" shows "it_deref (it_find C k t) = tree_lookup C k t"
proof (cases "lower_bound C k t")
  case Nil
  then have "filter (\<lambda>u. \<not> lt (key u) k) (inorder t) = []"
    using lower_bound_remaining [OF assms, of k] by simp
  with Nil filter_none [OF assms] show ?thesis by (simp add: it_find_def it_end_def)
next
  case (Cons n ps)
  then have f: "filter (\<lambda>u. \<not> lt (key u) k) (inorder t) = node_value n # inorder (node_right n) @ up n ps"
    using lower_bound_remaining [OF assms, of k] by simp
  show ?thesis
    using Cons filter_from(2) [OF assms f] by (simp add: it_find_def it_end_def)
qed

lemma equiv_trans: "key_equiv C a b \<Longrightarrow> key_equiv C b c \<Longrightarrow> key_equiv C a c"
  unfolding key_equiv_def using cotrans by blast

end

subsection \<open>The orders of the program\<close>

text \<open>\<^verbatim>\<open>ImmutableMap\<close> takes the first component as the key, \<^verbatim>\<open>ImmutableSet\<close> the element; the map of an
  address space orders memory objects by address (\<^verbatim>\<open>MemoryObjectLT\<close>).\<close>

record memory_object =
  mo_id :: nat
  mo_address :: "64 word"
  mo_size :: "32 word"
  isUserSpecified :: bool

definition MemoryObjectLT :: "memory_object \<Rightarrow> memory_object \<Rightarrow> bool" where
  "MemoryObjectLT a b \<longleftrightarrow> mo_address a < mo_address b"

definition map_ops :: "('k \<Rightarrow> 'k \<Rightarrow> bool) \<Rightarrow> ('k, 'k \<times> 'd) tree_ops" where
  "map_ops cmp = \<lparr>key_of_value = fst, key_compare = cmp\<rparr>"

definition set_ops :: "('a \<Rightarrow> 'a \<Rightarrow> bool) \<Rightarrow> ('a, 'a) tree_ops" where
  "set_ops cmp = \<lparr>key_of_value = (\<lambda>x. x), key_compare = cmp\<rparr>"

interpretation memory_map: tree_order "map_ops MemoryObjectLT"
  by unfold_locales (auto simp: map_ops_def MemoryObjectLT_def)

interpretation less_set: tree_order "set_ops ((<) :: 'a::linorder \<Rightarrow> 'a \<Rightarrow> bool)"
  by unfold_locales (auto simp: set_ops_def)

subsection \<open>Properties\<close>

lemma option_eqI: "(\<And>v. x = Some v \<longleftrightarrow> y = Some v) \<Longrightarrow> x = y"
  by (cases x; cases y) auto

text \<open>C6: \<^verbatim>\<open>insert\<close> keeps the search order and the balance and maps the value's key to the value, unless
  an equivalent key is present already: then every lookup stays as it was.\<close>

theorem tree_insert_correct:
  assumes "tree_order C" "bst C t" "bal t"
  shows "bst C (tree_insert C v t) \<and> bal (tree_insert C v t) \<and>
    (\<forall>k. tree_lookup C k (tree_insert C v t) =
      (if key_equiv C (key_of_value C v) k \<and> tree_lookup C k t = None then Some v else tree_lookup C k t))"
proof -
  note ins = tree_order.insert_set [OF assms(1,2), of v]
  note look = tree_order.lookup_Some [OF assms(1)] and none = tree_order.lookup_None [OF assms(1)]
  note tr = tree_order.equiv_trans [OF assms(1)] and sy = tree_order.equiv_sym [OF assms(1)]
  have "tree_lookup C k (tree_insert C v t) =
      (if key_equiv C (key_of_value C v) k \<and> tree_lookup C k t = None then Some v else tree_lookup C k t)" for k
  proof (cases "\<exists>u \<in> set_node t. key_equiv C (key_of_value C u) (key_of_value C v)")
    case True
    then have "set_node (tree_insert C v t) = set_node t" using ins by simp
    then have "tree_lookup C k (tree_insert C v t) = tree_lookup C k t"
      using ins look assms(2) by (intro option_eqI) simp
    moreover have "\<not> (key_equiv C (key_of_value C v) k \<and> tree_lookup C k t = None)"
      using True none [OF assms(2)] tr by blast
    ultimately show ?thesis by simp
  next
    case False
    then have s: "set_node (tree_insert C v t) = insert v (set_node t)" using ins by simp
    have eq: "tree_lookup C k (tree_insert C v t) = Some u \<longleftrightarrow>
        (u = v \<or> u \<in> set_node t) \<and> key_equiv C (key_of_value C u) k" for u
      using ins look [of "tree_insert C v t" k u] s by auto
    show ?thesis
    proof (cases "key_equiv C (key_of_value C v) k")
      case True
      then have "\<forall>u \<in> set_node t. \<not> key_equiv C (key_of_value C u) k" using False tr sy by blast
      then have "tree_lookup C k t = None" using none [OF assms(2)] by simp
      moreover have "tree_lookup C k (tree_insert C v t) = Some v" using eq True by simp
      ultimately show ?thesis using True by simp
    next
      case no: False
      have "tree_lookup C k (tree_insert C v t) = tree_lookup C k t"
      proof (rule option_eqI)
        show "tree_lookup C k (tree_insert C v t) = Some u \<longleftrightarrow> tree_lookup C k t = Some u" for u
          using eq [of u] look [OF assms(2), of k u] no by auto
      qed
      with no show ?thesis by simp
    qed
  qed
  with ins insert_bal [OF assms(3)] show ?thesis by blast
qed

text \<open>The tree of the witnesses.\<close>

abbreviation int_set :: "(int, int) tree_ops" where "int_set \<equiv> set_ops (<)"

definition sample_tree :: "int node" where
  "sample_tree = foldl (\<lambda>t v. tree_insert int_set v t) Terminator [1, 2, 3, 4, 5, 6, 7]"

lemma sample_tree_eval:
  "sample_tree = Node
     (Node (Node Terminator Terminator 1 1) (Node Terminator Terminator 3 1) 2 2)
     (Node Terminator (Node Terminator (Node Terminator Terminator 7 1) 6 2) 5 3) 4 4"
  by (simp add: sample_tree_def set_ops_def newNode_def balance_def Let_def)

lemma sample_tree_ok [simp]: "bst int_set sample_tree" "bal sample_tree"
  unfolding sample_tree_eval by (simp_all add: set_ops_def key_less_def)

lemma sample_tree_built: "built int_set sample_tree"
  unfolding sample_tree_def foldl.simps by (intro built.intros)

theorem tree_insert_correct_witness:
  "tree_lookup int_set 9 (tree_insert int_set 9 sample_tree) = Some 9 \<and>
   bal (tree_insert int_set 9 sample_tree)"
  using tree_insert_correct [OF less_set.tree_order_axioms sample_tree_ok, of 9]
  by (auto simp: sample_tree_eval set_ops_def key_equiv_def)

text \<open>\<^verbatim>\<open>replace\<close> keeps the order and the balance and maps the key to the new value, present or not;
  \<^verbatim>\<open>remove\<close> unmaps exactly the equivalent key.\<close>

lemma tree_replace_remove_correct:
  assumes "tree_order C" "bst C t" "bal t"
  shows "bst C (tree_replace C v t) \<and> bal (tree_replace C v t) \<and>
    bst C (tree_remove C k t) \<and> bal (tree_remove C k t) \<and>
    (\<forall>k'. tree_lookup C k' (tree_replace C v t) =
      (if key_equiv C (key_of_value C v) k' then Some v else tree_lookup C k' t)) \<and>
    (\<forall>k'. tree_lookup C k' (tree_remove C k t) = (if key_equiv C k k' then None else tree_lookup C k' t))"
proof -
  note rep = tree_order.replace_set [OF assms(1,2), of v] and rem = tree_order.remove_set [OF assms(1,2), of k]
  note look = tree_order.lookup_Some [OF assms(1)]
  note tr = tree_order.equiv_trans [OF assms(1)] and sy = tree_order.equiv_sym [OF assms(1)]
  have "tree_lookup C k' (tree_replace C v t) =
      (if key_equiv C (key_of_value C v) k' then Some v else tree_lookup C k' t)" for k'
  proof (rule option_eqI)
    show "tree_lookup C k' (tree_replace C v t) = Some u \<longleftrightarrow>
      (if key_equiv C (key_of_value C v) k' then Some v else tree_lookup C k' t) = Some u" for u
      using look [of "tree_replace C v t" k' u] look [OF assms(2), of k' u] rep
        tr [of "key_of_value C u" k' "key_of_value C v"] sy [of "key_of_value C v" k']
        tr [of "key_of_value C v" "key_of_value C u" k'] sy [of "key_of_value C u" "key_of_value C v"]
      by (cases "key_equiv C (key_of_value C v) k'") auto
  qed
  moreover have "tree_lookup C k' (tree_remove C k t) = (if key_equiv C k k' then None else tree_lookup C k' t)" for k'
  proof (rule option_eqI)
    show "tree_lookup C k' (tree_remove C k t) = Some u \<longleftrightarrow>
      (if key_equiv C k k' then None else tree_lookup C k' t) = Some u" for u
      using look [of "tree_remove C k t" k' u] look [OF assms(2), of k' u] rem
        tr [of "key_of_value C u" k' k] sy [of k k'] tr [of k "key_of_value C u" k'] sy [of "key_of_value C u" k]
      by (cases "key_equiv C k k'") auto
  qed
  ultimately show ?thesis
    using rep rem replace_bal [OF assms(3), of C v] remove_bal [OF assms(3), of C k] by simp
qed

text \<open>\<^verbatim>\<open>popMin\<close> (\<^verbatim>\<open>popMax\<close>) of a non-empty tree takes out the first (last) element in order and leaves a
  balanced search tree of the others.\<close>

lemma tree_pop_correct:
  assumes "tree_order C" "bst C t" "bal t" "t \<noteq> Terminator"
  shows "bst C (snd (popMin t)) \<and> bal (snd (popMin t)) \<and>
    set_node t = insert (fst (popMin t)) (set_node (snd (popMin t))) \<and>
    (\<forall>x \<in> set_node (snd (popMin t)). key_less C (fst (popMin t)) x) \<and>
    bst C (snd (popMax t)) \<and> bal (snd (popMax t)) \<and>
    set_node t = insert (fst (popMax t)) (set_node (snd (popMax t))) \<and>
    (\<forall>x \<in> set_node (snd (popMax t)). key_less C x (fst (popMax t)))"
  using tree_order.popMin_set [OF assms(1,2,4)] tree_order.popMax_set [OF assms(1,2,4)]
    popMin_bal [OF assms(3)] popMax_bal [OF assms(3)] by blast

text \<open>C7: \<^verbatim>\<open>replace\<close>, \<^verbatim>\<open>remove\<close>, \<^verbatim>\<open>popMin\<close> and \<^verbatim>\<open>popMax\<close> keep the order and the balance. \<^verbatim>\<open>replace\<close> maps the key
  to the new value, present or not; \<^verbatim>\<open>remove\<close> unmaps exactly the equivalent key; \<^verbatim>\<open>popMin\<close> (\<^verbatim>\<open>popMax\<close>) takes out the
  first (last) element in order and leaves the others.\<close>

theorem tree_deletions_correct:
  assumes "tree_order C" "bst C t" "bal t" "t \<noteq> Terminator"
  shows "(bst C (tree_replace C v t) \<and> bal (tree_replace C v t) \<and>
      (\<forall>k'. tree_lookup C k' (tree_replace C v t) =
        (if key_equiv C (key_of_value C v) k' then Some v else tree_lookup C k' t))) \<and>
    (bst C (tree_remove C k t) \<and> bal (tree_remove C k t) \<and>
      (\<forall>k'. tree_lookup C k' (tree_remove C k t) = (if key_equiv C k k' then None else tree_lookup C k' t))) \<and>
    (bst C (snd (popMin t)) \<and> bal (snd (popMin t)) \<and> set_node t = insert (fst (popMin t)) (set_node (snd (popMin t))) \<and>
      (\<forall>x \<in> set_node (snd (popMin t)). key_less C (fst (popMin t)) x)) \<and>
    (bst C (snd (popMax t)) \<and> bal (snd (popMax t)) \<and> set_node t = insert (fst (popMax t)) (set_node (snd (popMax t))) \<and>
      (\<forall>x \<in> set_node (snd (popMax t)). key_less C x (fst (popMax t))))"
  using tree_replace_remove_correct [OF assms(1-3), of v k] tree_pop_correct [OF assms] by (elim conjE) (intro conjI; assumption)

theorem tree_deletions_correct_witness:
  "tree_lookup int_set 4 (tree_remove int_set 2 sample_tree) = Some 4 \<and>
   tree_lookup int_set 2 (tree_remove int_set 2 sample_tree) = None \<and>
   tree_lookup int_set 3 (tree_replace int_set 3 sample_tree) = Some 3 \<and> bal (snd (popMin sample_tree))"
  using tree_deletions_correct [OF less_set.tree_order_axioms sample_tree_ok, of 3 2]
  by (auto simp: sample_tree_eval set_ops_def key_equiv_def)

text \<open>C8: every tree made from the empty one by \<^verbatim>\<open>insert\<close>, \<^verbatim>\<open>replace\<close>, \<^verbatim>\<open>remove\<close>, \<^verbatim>\<open>popMin\<close> and \<^verbatim>\<open>popMax\<close> in
  any order stores its true depth as the height of its root, and that depth is logarithmic in the number
  of elements: depth \<open>d\<close> needs at least \<open>2 ^ (d div 3) - 1\<close> of them. So the fixed stack of an iterator,
  which has \<^verbatim>\<open>height\<close> places, can hold every path of the tree.\<close>

theorem tree_height_logarithmic:
  assumes "built C t"
  shows "depth t = node_height t \<and> 2 ^ (depth t div 3) \<le> node_size t + 1"
  using built_bal [OF assms] bal_depth [of t] bal_size [of t "depth t"] by simp

theorem tree_height_logarithmic_witness:
  "depth (tree_remove int_set 3 sample_tree) = 4 \<and> (2::nat) ^ (4 div 3) \<le> 7"
  using tree_height_logarithmic [OF built.remove [OF sample_tree_built, of 3]]
  by (simp add: sample_tree_eval set_ops_def newNode_def balance_def)

text \<open>C9: iteration. Up to \<open>i = size()\<close> increments from \<^verbatim>\<open>begin()\<close> succeed, and one more runs into the assertion
  of \<^verbatim>\<open>operator++\<close>. After \<open>i\<close> of them the iterator points at the element of position \<open>i\<close> of the increasing
  sequence of all elements and stands before the rest of it, it is \<^verbatim>\<open>end()\<close> exactly after all of them, and
  its stack never needs more than the \<^verbatim>\<open>height\<close> places it was given; a decrement goes back one element.\<close>

theorem iteration_correct:
  assumes "tree_order C" "bst C t" "bal t"
  shows "(node_size t < i \<longrightarrow> it_steps i (it_begin t) = None) \<and>
    (i \<le> node_size t \<longrightarrow> (\<exists>st. it_steps i (it_begin t) = Some st \<and>
      remaining st = drop i (inorder t) \<and>
      it_deref st = (if i < node_size t then Some (inorder t ! i) else None) \<and>
      (st = it_end t \<longleftrightarrow> i = node_size t) \<and>
      length st \<le> node_height t \<and>
      (0 < i \<longrightarrow> remaining (it_prev t st) = drop (i - 1) (inorder t))))"
proof (intro conjI impI)
  assume "node_size t < i"
  then have "i = Suc (node_size t) + (i - Suc (node_size t))" by simp
  then show "it_steps i (it_begin t) = None" using tree_order.steps_too_many [OF assms(1,2)] by metis
next
  assume i: "i \<le> node_size t"
  obtain st where st: "it_steps i (it_begin t) = Some st" and p: "path t st"
    and r: "remaining st = drop i (inorder t)"
    using tree_order.steps_remaining [OF assms(1,2) i] by blast
  have e: "st = it_end t \<longleftrightarrow> i = node_size t"
    using r i by (cases st) (auto simp: it_end_def length_inorder [symmetric])
  have d: "it_deref st = (if i < node_size t then Some (inorder t ! i) else None)"
    using r i by (simp add: deref_remaining Cons_nth_drop_Suc [symmetric] length_inorder)
  have b: "remaining (it_prev t st) = drop (i - 1) (inorder t)" if "0 < i"
    using tree_order.prev_remaining [OF assms(1,2) p r that i] .
  show "\<exists>st. it_steps i (it_begin t) = Some st \<and> remaining st = drop i (inorder t) \<and>
      it_deref st = (if i < node_size t then Some (inorder t ! i) else None) \<and>
      (st = it_end t \<longleftrightarrow> i = node_size t) \<and> length st \<le> node_height t \<and>
      (0 < i \<longrightarrow> remaining (it_prev t st) = drop (i - 1) (inorder t))"
    using st r d e path_length [OF p assms(3)] b by blast
qed

theorem iteration_correct_witness:
  "(\<exists>st. it_steps 3 (it_begin sample_tree) = Some st \<and> it_deref st = Some 4 \<and> remaining st = [4, 5, 6, 7] \<and>
     remaining (it_prev sample_tree st) = [3, 4, 5, 6, 7]) \<and>
   it_steps 8 (it_begin sample_tree) = None"
proof -
  note it = iteration_correct [OF less_set.tree_order_axioms sample_tree_ok]
  have s: "node_size sample_tree = 7" "inorder sample_tree = [1, 2, 3, 4, 5, 6, 7]" by (simp_all add: sample_tree_eval)
  show ?thesis using it [of 3] it [of 8] unfolding s by (simp del: it_steps.simps) blast
qed

text \<open>C10: the searches. \<^verbatim>\<open>lower_bound(k)\<close> stands at the first element not below \<open>k\<close>, \<^verbatim>\<open>upper_bound(k)\<close> at
  the first above, \<^verbatim>\<open>find(k)\<close> at the element with an equivalent key or at the end, and
  \<^verbatim>\<open>lookup_previous(k)\<close> is the last element not above \<open>k\<close>.\<close>

theorem searches_correct:
  assumes "tree_order C" "bst C t"
  shows "remaining (lower_bound C k t) =
      filter (\<lambda>u. \<not> key_compare C (key_of_value C u) k) (inorder t) \<and>
    remaining (upper_bound C k t) = filter (\<lambda>u. key_compare C k (key_of_value C u)) (inorder t) \<and>
    it_deref (it_find C k t) = tree_lookup C k t \<and>
    lookup_previous C k t =
      (let us = filter (\<lambda>u. \<not> key_compare C k (key_of_value C u)) (inorder t)
       in if us = [] then None else Some (last us))"
  using tree_order.lower_bound_remaining [OF assms] tree_order.upper_bound_remaining [OF assms]
    tree_order.find_lookup [OF assms] tree_order.previous_loop [OF assms, of k None]
  by (simp add: lookup_previous_def Let_def)

theorem searches_correct_witness:
  "remaining (lower_bound int_set 3 sample_tree) = [3, 4, 5, 6, 7] \<and>
   remaining (upper_bound int_set 3 sample_tree) = [4, 5, 6, 7] \<and>
   it_deref (it_find int_set 8 sample_tree) = None \<and> lookup_previous int_set 8 sample_tree = Some 7"
  using searches_correct [OF less_set.tree_order_axioms sample_tree_ok(1), of 3]
    searches_correct [OF less_set.tree_order_axioms sample_tree_ok(1), of 8]
  by (simp add: sample_tree_eval set_ops_def)

end
