(* ===== verification/MapOfSets.thy ===== *)
theory MapOfSets
  imports Prelude "HOL-Library.Sublist"
begin

section \<open>Maps indexed by sets (klee/Internal/ADT/MapOfSets.h)\<close>

text \<open>
  \<^verbatim>\<open>MapOfSets<K, V>\<close>, the set trie (UBTree) in which the counterexample cache looks up assignments by
  sets of constraints. A \<^verbatim>\<open>std::set<K>\<close> that is searched or inserted is the list of its elements in
  iteration order, so a strictly increasing list; a \<^verbatim>\<open>std::map<K, Node>\<close> is the list of its entries in
  iteration order (\<open>MNil\<close>, \<open>MCons\<close>). \<open>d\<close> is the value \<^verbatim>\<open>V()\<close> of a new node. The theory proves what
  each search finds, soundness and completeness, on every trie that insertions build.
\<close>

subsection \<open>The trie\<close>

datatype ('k, 'v) mnode = MNode (mvalue: 'v) (isEndOfSet: bool) (mchildren: "('k, 'v) mchildren")
  and ('k, 'v) mchildren = MNil | MCons 'k "('k, 'v) mnode" "('k, 'v) mchildren"

definition newMNode :: "'v \<Rightarrow> ('k, 'v) mnode" where
  "newMNode d = MNode d False MNil"

text \<open>\<^verbatim>\<open>children.find(k)\<close> and \<^verbatim>\<open>children.lower_bound(k)\<close>\<close>

fun child :: "'k \<Rightarrow> ('k, 'v) mchildren \<Rightarrow> ('k, 'v) mnode option" where
  "child k MNil = None"
| "child k (MCons k' c cs) = (if k = k' then Some c else child k cs)"

fun children_from :: "'k::linorder \<Rightarrow> ('k, 'v) mchildren \<Rightarrow> ('k, 'v) mchildren" where
  "children_from k MNil = MNil"
| "children_from k (MCons k' c cs) = (if k' < k then children_from k cs else MCons k' c cs)"

lemma child_size [termination_simp]: "child k cs = Some c \<Longrightarrow> size c < size cs"
  by (induction k cs rule: child.induct) (auto split: if_splits)

lemma children_from_size: "size (children_from k cs) \<le> size cs"
  by (induction k cs rule: children_from.induct) auto

lemma children_from_size2 [termination_simp]: "children_from k cs = MCons k' c cs' \<Longrightarrow> size c < size cs \<and> size cs' < size cs"
  using children_from_size [of k cs] by simp

subsection \<open>insert, lookup, clear\<close>

text \<open>\<open>insert_child\<close> is \<^verbatim>\<open>children.insert(make_pair(k, Node()))\<close> (which keeps an existing child) followed
  by the rest of the walk in the child.\<close>

function mos_insert :: "'v \<Rightarrow> 'k::linorder list \<Rightarrow> 'v \<Rightarrow> ('k, 'v) mnode \<Rightarrow> ('k, 'v) mnode"
  and insert_child :: "'v \<Rightarrow> 'k \<Rightarrow> 'k list \<Rightarrow> 'v \<Rightarrow> ('k, 'v) mchildren \<Rightarrow> ('k, 'v) mchildren" where
  "mos_insert d [] v (MNode val e cs) = MNode v True cs"
| "mos_insert d (k # ks) v (MNode val e cs) = MNode val e (insert_child d k ks v cs)"
| "insert_child d k ks v MNil = MCons k (mos_insert d ks v (newMNode d)) MNil"
| "insert_child d k ks v (MCons k' c cs) =
     (if k < k' then MCons k (mos_insert d ks v (newMNode d)) (MCons k' c cs)
      else if k = k' then MCons k' (mos_insert d ks v c) cs
      else MCons k' c (insert_child d k ks v cs))"
  by pat_completeness auto
termination
  by (relation "measures [\<lambda>x. case x of Inl (d, ks, v, n) \<Rightarrow> 2 * length ks | Inr (d, k, ks, v, cs) \<Rightarrow> 2 * length ks + 1,
      \<lambda>x. case x of Inl (d, ks, v, n) \<Rightarrow> 0 | Inr (d, k, ks, v, cs) \<Rightarrow> size cs]") auto

fun mos_lookup :: "'k list \<Rightarrow> ('k, 'v) mnode \<Rightarrow> 'v option" where
  "mos_lookup [] n = (if isEndOfSet n then Some (mvalue n) else None)"
| "mos_lookup (k # ks) n =
     (case child k (mchildren n) of None \<Rightarrow> None | Some c \<Rightarrow> mos_lookup ks c)"

definition mos_clear :: "'v \<Rightarrow> ('k, 'v) mnode \<Rightarrow> ('k, 'v) mnode" where
  "mos_clear d n = MNode d False MNil"

subsection \<open>All subsets, all supersets\<close>

function (sequential) findSubsets :: "('k, 'v) mnode \<Rightarrow> 'k set \<Rightarrow> 'k list \<Rightarrow> ('k set \<times> 'v) list"
  and subsets_loop :: "('k, 'v) mnode \<Rightarrow> 'k set \<Rightarrow> 'k list \<Rightarrow> ('k set \<times> 'v) list" where
  "findSubsets n accum ks =
     (if isEndOfSet n then [(accum, mvalue n)] else []) @ subsets_loop n accum ks"
| "subsets_loop n accum [] = []"
| "subsets_loop n accum (elt # it) =
     (case child elt (mchildren n) of
        Some c \<Rightarrow> findSubsets c (insert elt accum) it
      | None \<Rightarrow> []) @ subsets_loop n accum it"
  by pat_completeness auto
termination
  by (relation "measure (\<lambda>x. case x of Inl (n, a, ks) \<Rightarrow> 2 * length ks + 1 | Inr (n, a, ks) \<Rightarrow> 2 * length ks)") auto

definition subsets :: "'k list \<Rightarrow> ('k, 'v) mnode \<Rightarrow> ('k set \<times> 'v) list" where
  "subsets ks root = findSubsets root {} ks"

fun findSupersets :: "('k::linorder, 'v) mnode \<Rightarrow> 'k set \<Rightarrow> 'k list \<Rightarrow> ('k set \<times> 'v) list"
  and supersets_all :: "('k, 'v) mchildren \<Rightarrow> 'k set \<Rightarrow> ('k set \<times> 'v) list"
  and supersets_loop :: "('k, 'v) mchildren \<Rightarrow> 'k set \<Rightarrow> 'k \<Rightarrow> 'k list \<Rightarrow> ('k set \<times> 'v) list" where
  "findSupersets (MNode v e cs) accum [] = (if e then [(accum, v)] else []) @ supersets_all cs accum"
| "findSupersets (MNode v e cs) accum (elt # next) = supersets_loop cs accum elt next"
| "supersets_all MNil accum = []"
| "supersets_all (MCons k c cs) accum = findSupersets c (insert k accum) [] @ supersets_all cs accum"
| "supersets_loop MNil accum elt next = []"
| "supersets_loop (MCons k c cs) accum elt next =
     (if elt = k then findSupersets c (insert k accum) next @ supersets_loop cs accum elt next
      else if k < elt then findSupersets c (insert k accum) (elt # next) @ supersets_loop cs accum elt next
      else [])"

definition supersets :: "'k::linorder list \<Rightarrow> ('k, 'v) mnode \<Rightarrow> ('k set \<times> 'v) list" where
  "supersets ks root = findSupersets root {} ks"

subsection \<open>One subset, one superset with a predicate\<close>

text \<open>
  The merge loop of \<^verbatim>\<open>findSubset\<close>. At its end \<^verbatim>\<open>*it\<close> is above the current key, because the elements
  of a \<^verbatim>\<open>std::set\<close> increase, so that the last inner loop steps over the current child: the model
  searches the children after it (lemma \<open>subset_loop_source\<close> has the loop as written).
\<close>

function (sequential) findSubset :: "('v \<Rightarrow> bool) \<Rightarrow> ('k::linorder, 'v) mnode \<Rightarrow> 'k list \<Rightarrow> 'v option"
  and subset_loop :: "('v \<Rightarrow> bool) \<Rightarrow> 'k list \<Rightarrow> ('k, 'v) mchildren \<Rightarrow> 'v option" where
  "findSubset p (MNode v e cs) ks =
     (if e \<and> p v then Some v
      else if ks = [] then None
      else subset_loop p ks (children_from (hd ks) cs))"
| "subset_loop p it MNil = None"
| "subset_loop p it (MCons k c cs) =
     (case dropWhile (\<lambda>x. x < k) it of
        [] \<Rightarrow> None
      | x # it' \<Rightarrow>
          if x = k then
            (let res = findSubset p c it' in
             if res \<noteq> None \<or> it' = [] then res else subset_loop p it' (children_from (hd it') cs))
          else subset_loop p (x # it') (children_from x cs))"
  by pat_completeness auto
termination
proof (relation "measure (\<lambda>x. case x of Inl (p, n, ks) \<Rightarrow> size n | Inr (p, it, cs) \<Rightarrow> size cs)", goal_cases)
  case (2 p v e cs ks)
  then show ?case using children_from_size [of "hd ks" cs] by (simp add: le_imp_less_Suc)
next
  case (4 p it k c cs x it' y)
  then show ?case using children_from_size [of "hd it'" cs] by (simp add: le_imp_less_Suc trans_le_add2)
next
  case (5 p it k c cs x it')
  then show ?case using children_from_size [of x cs] by (simp add: le_imp_less_Suc trans_le_add2)
qed auto

fun findSuperset :: "('v \<Rightarrow> bool) \<Rightarrow> ('k::linorder, 'v) mnode \<Rightarrow> 'k list \<Rightarrow> 'v option"
  and superset_any :: "('v \<Rightarrow> bool) \<Rightarrow> ('k, 'v) mchildren \<Rightarrow> 'k list \<Rightarrow> 'v option" where
  "findSuperset p (MNode v e cs) [] =
     (if e \<and> p v then Some v else superset_any p cs [])"
| "findSuperset p (MNode v e cs) (b # ks) =
     (case superset_any p cs (b # ks) of
        Some res \<Rightarrow> Some res
      | None \<Rightarrow>
         (case children_from b cs of
            MNil \<Rightarrow> None
          | MCons k c cs' \<Rightarrow> if b = k then findSuperset p c ks else None))"
| "superset_any p MNil ks = None"
| "superset_any p (MCons k c cs) ks =
     (case findSuperset p c ks of Some res \<Rightarrow> Some res | None \<Rightarrow> superset_any p cs ks)"

subsection \<open>Well-formed tries\<close>

text \<open>The keys increase among siblings and downwards; \<open>lo\<close> is a strict lower bound, when there is one.\<close>

definition lo_less :: "'k::linorder option \<Rightarrow> 'k \<Rightarrow> bool" where
  "lo_less lo k \<longleftrightarrow> (case lo of None \<Rightarrow> True | Some l \<Rightarrow> l < k)"

primrec wf_mnode :: "('k::linorder, 'v) mnode \<Rightarrow> 'k option \<Rightarrow> bool"
  and wf_mchildren :: "('k, 'v) mchildren \<Rightarrow> 'k option \<Rightarrow> bool" where
  "wf_mnode (MNode v e cs) lo = wf_mchildren cs lo"
| "wf_mchildren MNil lo = True"
| "wf_mchildren (MCons k c cs) lo \<longleftrightarrow> lo_less lo k \<and> wf_mnode c (Some k) \<and> wf_mchildren cs (Some k)"

abbreviation increasing :: "'k::linorder list \<Rightarrow> bool" where
  "increasing ks \<equiv> sorted_wrt (<) ks"

lemma lo_less_trans: "lo_less lo k \<Longrightarrow> k < k' \<Longrightarrow> lo_less lo k'"
  by (auto simp: lo_less_def split: option.splits)

lemma lo_less_Some [simp]: "lo_less (Some l) k \<longleftrightarrow> l < k" and lo_less_None [simp]: "lo_less None k"
  by (simp_all add: lo_less_def)

lemma wf_mono: "wf_mchildren cs lo \<Longrightarrow> (\<And>k. lo_less lo k \<Longrightarrow> lo_less lo' k) \<Longrightarrow> wf_mchildren cs lo'"
  by (cases cs) auto

lemma child_wf: "wf_mchildren cs lo \<Longrightarrow> child k cs = Some c \<Longrightarrow> lo_less lo k \<and> wf_mnode c (Some k)"
proof (induction k cs arbitrary: lo rule: child.induct)
  case (2 k k' c' cs)
  then show ?case using "2.IH" [of "Some k'"] by (auto split: if_splits intro: lo_less_trans)
qed simp

lemma child_above: "wf_mchildren cs (Some l) \<Longrightarrow> k \<le> l \<Longrightarrow> child k cs = None"
  using child_wf [of cs "Some l" k] by (cases "child k cs") auto

lemma child_insert:
  "wf_mchildren cs lo \<Longrightarrow> child k' (insert_child d k ks v cs) =
    (if k' = k then Some (mos_insert d ks v (case child k cs of Some c \<Rightarrow> c | None \<Rightarrow> newMNode d))
     else child k' cs)"
  by (induction cs arbitrary: lo rule: mchildren.induct [where ?P1.0 = "\<lambda>_. True"])
    (auto simp: child_above)

lemma insert_wf:
  "wf_mnode n lo \<Longrightarrow> increasing ks \<Longrightarrow> (\<forall>k \<in> set ks. lo_less lo k) \<Longrightarrow> wf_mnode (mos_insert d ks v n) lo"
  "wf_mchildren cs lo \<Longrightarrow> increasing (k # ks) \<Longrightarrow> lo_less lo k \<Longrightarrow> wf_mchildren (insert_child d k ks v cs) lo"
  by (induction d ks v n and d k ks v cs arbitrary: lo and lo rule: mos_insert_insert_child.induct)
    (auto simp: newMNode_def intro: wf_mono)

lemma mos_lookup_insert:
  "wf_mnode n lo \<Longrightarrow>
    mos_lookup ks' (mos_insert d ks v n) = (if ks' = ks then Some v else mos_lookup ks' n)"
proof (induction ks arbitrary: n ks' lo)
  case Nil
  then show ?case by (cases n; cases ks') auto
next
  case (Cons k ks)
  obtain val e cs where n: "n = MNode val e cs" by (cases n)
  show ?case
  proof (cases ks')
    case (Cons k' r)
    show ?thesis
    proof (cases "k' = k")
      case True
      let ?c = "case child k cs of Some c \<Rightarrow> c | None \<Rightarrow> newMNode d"
      have "wf_mnode ?c (Some k)"
        using Cons.prems child_wf [of cs lo k] n by (auto simp: newMNode_def split: option.split)
      then have "mos_lookup r (mos_insert d ks v ?c) = (if r = ks then Some v else mos_lookup r ?c)"
        by (rule Cons.IH)
      moreover have "mos_lookup r (newMNode d) = None" by (cases r) (simp_all add: newMNode_def)
      ultimately show ?thesis
        using Cons True Cons.prems n child_insert [of cs lo k d k ks v]
        by (auto split: option.splits)
    qed (use Cons Cons.prems n child_insert [of cs lo k' d k ks v] in \<open>auto split: option.splits\<close>)
  qed (simp add: n)
qed

subsection \<open>What the searches find\<close>

text \<open>The entries below a list of children: non-empty paths.\<close>

fun lookup_c :: "'k list \<Rightarrow> ('k, 'v) mchildren \<Rightarrow> 'v option" where
  "lookup_c [] cs = None"
| "lookup_c (k # ks) cs = (case child k cs of None \<Rightarrow> None | Some c \<Rightarrow> mos_lookup ks c)"

lemma lookup_node:
  "mos_lookup ks (MNode v e cs) = (if ks = [] then if e then Some v else None else lookup_c ks cs)"
  by (cases ks) auto

lemma lookup_increasing:
  "mos_lookup ks n = Some v \<Longrightarrow> wf_mnode n lo \<Longrightarrow> increasing ks \<and> (\<forall>k \<in> set ks. lo_less lo k)"
proof (induction ks arbitrary: n lo)
  case (Cons k ks)
  then obtain c where c: "child k (mchildren n) = Some c" "mos_lookup ks c = Some v"
    by (auto split: option.splits)
  have "lo_less lo k" "wf_mnode c (Some k)"
    using child_wf [OF _ c(1)] Cons.prems(2) by (cases n; auto)+
  with Cons.IH [OF c(2), of "Some k"] show ?case by (auto intro: lo_less_trans)
qed simp

lemma lookup_c_increasing:
  "lookup_c ks cs = Some v \<Longrightarrow> wf_mchildren cs lo \<Longrightarrow> increasing ks \<and> (\<forall>k \<in> set ks. lo_less lo k)"
  using lookup_increasing [of ks "MNode v False cs" v lo] by (cases ks) auto

lemma lookup_c_MNil: "lookup_c r MNil = None"
  by (cases r) auto

lemma lookup_c_MCons:
  "wf_mchildren (MCons k c cs) lo \<Longrightarrow> lookup_c ks (MCons k c cs) = Some v \<longleftrightarrow>
    (\<exists>r. ks = k # r \<and> mos_lookup r c = Some v) \<or> lookup_c ks cs = Some v"
  by (cases ks) (auto simp: child_above split: option.splits)

lemma lookup_c_node: "r \<noteq> [] \<Longrightarrow> lookup_c r (mchildren n) = mos_lookup r n"
  by (cases r) auto

lemma lookup_node_ex:
  "(\<exists>r. mos_lookup r (MNode v' e cs) = Some v \<and> Q r) \<longleftrightarrow>
    (e \<and> v' = v \<and> Q []) \<or> (\<exists>r. lookup_c r cs = Some v \<and> Q r)"
proof -
  have "lookup_c [] cs \<noteq> Some v" by simp
  then show ?thesis unfolding lookup_node by (metis option.distinct(1) option.inject)
qed

declare findSubsets.simps [simp del]

lemma findSubsets_iff:
  "(S, v) \<in> set (findSubsets n acc ks) \<longleftrightarrow>
    (\<exists>r. mos_lookup r n = Some v \<and> subseq r ks \<and> S = acc \<union> set r)"
  "(S, v) \<in> set (subsets_loop n acc ks) \<longleftrightarrow>
    (\<exists>r. r \<noteq> [] \<and> mos_lookup r n = Some v \<and> subseq r ks \<and> S = acc \<union> set r)"
proof (induction n acc ks and n acc ks arbitrary: S v and S v rule: findSubsets_subsets_loop.induct)
  case (1 n acc ks)
  have "(S, v) \<in> set (findSubsets n acc ks) \<longleftrightarrow>
      (mos_lookup [] n = Some v \<and> S = acc) \<or>
      (\<exists>r. r \<noteq> [] \<and> mos_lookup r n = Some v \<and> subseq r ks \<and> S = acc \<union> set r)"
    using "1.IH" [of S v] by (auto simp: findSubsets.simps)
  also have "\<dots> \<longleftrightarrow> (\<exists>r. mos_lookup r n = Some v \<and> subseq r ks \<and> S = acc \<union> set r)"
    by (metis list_emb_Nil list.set(1) sup_bot_right)
  finally show ?case .
next
  case (3 n acc elt it)
  have cons: "r \<noteq> [] \<and> subseq r (elt # it) \<longleftrightarrow>
      (\<exists>r'. r = elt # r' \<and> subseq r' it) \<or> r \<noteq> [] \<and> subseq r it" for r
    by (cases r) (auto simp: subseq_Cons2_iff dest: subseq_Cons')
  have child: "(S, v) \<in> set (case child elt (mchildren n) of Some c \<Rightarrow> findSubsets c (insert elt acc) it | None \<Rightarrow> []) \<longleftrightarrow>
      (\<exists>r'. mos_lookup (elt # r') n = Some v \<and> subseq r' it \<and> S = acc \<union> set (elt # r'))"
  proof (cases "child elt (mchildren n)")
    case (Some c)
    with "3.IH"(1) [OF Some, of S v] show ?thesis by simp
  qed simp
  have "(\<exists>r. r \<noteq> [] \<and> mos_lookup r n = Some v \<and> subseq r (elt # it) \<and> S = acc \<union> set r) \<longleftrightarrow>
      (\<exists>r'. mos_lookup (elt # r') n = Some v \<and> subseq r' it \<and> S = acc \<union> set (elt # r')) \<or>
      (\<exists>r. r \<noteq> [] \<and> mos_lookup r n = Some v \<and> subseq r it \<and> S = acc \<union> set r)"
  proof -
    have "r \<noteq> [] \<and> mos_lookup r n = Some v \<and> subseq r (elt # it) \<and> S = acc \<union> set r \<longleftrightarrow>
        (\<exists>r'. r = elt # r' \<and> mos_lookup (elt # r') n = Some v \<and> subseq r' it \<and> S = acc \<union> set (elt # r')) \<or>
        (r \<noteq> [] \<and> mos_lookup r n = Some v \<and> subseq r it \<and> S = acc \<union> set r)" for r
      using cons [of r] by metis
    then show ?thesis by (simp only: ex_disj_distrib) blast
  qed
  with child "3.IH"(2) [of S v] show ?case by simp
qed auto

lemma findSupersets_iff:
  "wf_mnode n lo \<Longrightarrow> increasing ks \<Longrightarrow> (S, v) \<in> set (findSupersets n acc ks) \<longleftrightarrow>
    (\<exists>r. mos_lookup r n = Some v \<and> subseq ks r \<and> S = acc \<union> set r)"
  "wf_mchildren cs lo \<Longrightarrow> (S, v) \<in> set (supersets_all cs acc) \<longleftrightarrow>
    (\<exists>r. lookup_c r cs = Some v \<and> S = acc \<union> set r)"
  "wf_mchildren cs lo \<Longrightarrow> increasing (elt # next) \<Longrightarrow> (S, v) \<in> set (supersets_loop cs acc elt next) \<longleftrightarrow>
    (\<exists>r. lookup_c r cs = Some v \<and> subseq (elt # next) r \<and> S = acc \<union> set r)"
proof (induction n acc ks and cs acc and cs acc elt "next" arbitrary: S v lo and S v lo and S v lo
    rule: findSupersets_supersets_all_supersets_loop.induct)
  case (1 v' e cs accum)
  show ?case unfolding lookup_node_ex using "1.IH" [of lo S v] "1.prems" by auto
next
  case (2 v' e cs accum elt "next")
  show ?case unfolding lookup_node_ex using "2.IH" [of lo S v] "2.prems" by auto
next
  case (3 accum)
  then show ?case by (auto elim: lookup_c.elims)
next
  case (4 k c cs accum)
  have "(S, v) \<in> set (supersets_all (MCons k c cs) accum) \<longleftrightarrow>
      (\<exists>r. mos_lookup r c = Some v \<and> S = accum \<union> set (k # r)) \<or>
      (\<exists>r. lookup_c r cs = Some v \<and> S = accum \<union> set r)"
    using "4.IH"(1) [of "Some k" S v] "4.IH"(2) [of "Some k" S v] "4.prems" by auto
  also have "\<dots> \<longleftrightarrow> (\<exists>r. lookup_c r (MCons k c cs) = Some v \<and> S = accum \<union> set r)"
    unfolding lookup_c_MCons [OF "4.prems"] by blast
  finally show ?case .
next
  case (5 accum elt "next")
  then show ?case by (auto elim: lookup_c.elims)
next
  case (6 k c cs accum elt "next")
  let ?Q = "\<lambda>r. subseq (elt # next) r \<and> S = accum \<union> set r"
  have split: "(\<exists>r. lookup_c r (MCons k c cs) = Some v \<and> ?Q r) \<longleftrightarrow>
      (\<exists>r. mos_lookup r c = Some v \<and> ?Q (k # r)) \<or> (\<exists>r. lookup_c r cs = Some v \<and> ?Q r)"
    unfolding lookup_c_MCons [OF "6.prems"(1)] by blast
  have wf: "wf_mnode c (Some k)" "wf_mchildren cs (Some k)" using "6.prems" by auto
  consider "elt = k" | "elt \<noteq> k" "k < elt" | "elt < k" by fastforce
  then show ?case
  proof cases
    case 1
    then show ?thesis
      using split "6.IH"(1) [OF 1 wf(1)] "6.IH"(2) [OF 1 wf(2)] "6.prems" by auto
  next
    case 2
    then show ?thesis
      using split "6.IH"(3) [OF 2 wf(1)] "6.IH"(4) [OF 2 wf(2)] "6.prems" by auto
  next
    case 3
    have "\<not> (lookup_c r (MCons k c cs) = Some v \<and> subseq (elt # next) r)" for r
    proof
      assume a: "lookup_c r (MCons k c cs) = Some v \<and> subseq (elt # next) r"
      have "elt \<in> set r" using a list_emb_set [of "(=)" "elt # next" r elt] by auto
      moreover have "\<forall>x \<in> set r. k \<le> x"
        using a lookup_c_MCons [OF "6.prems"(1), of r v] lookup_increasing [OF _ wf(1)] lookup_c_increasing [OF _ wf(2)]
        by fastforce
      ultimately show False using 3 by auto
    qed
    with 3 show ?thesis by auto
  qed
qed

text \<open>A search with a predicate finds \<open>Q\<close>: a result satisfies \<open>Q\<close>, no result means that nothing does.\<close>

definition finds :: "'v option \<Rightarrow> ('v \<Rightarrow> bool) \<Rightarrow> bool" where
  "finds res Q \<longleftrightarrow> (case res of Some v \<Rightarrow> Q v | None \<Rightarrow> \<forall>v. \<not> Q v)"

lemma finds_cong: "finds res Q \<Longrightarrow> (\<And>v. Q v \<longleftrightarrow> Q' v) \<Longrightarrow> finds res Q'"
  by (auto simp: finds_def split: option.splits)

lemma finds_orelse:
  "finds a Q \<Longrightarrow> (a = None \<Longrightarrow> finds b R) \<Longrightarrow>
    finds (case a of Some v \<Rightarrow> Some v | None \<Rightarrow> b) (\<lambda>v. Q v \<or> R v)"
  by (auto simp: finds_def split: option.splits)

lemma finds_None: "(\<And>v. \<not> Q v) \<Longrightarrow> finds None Q"
  by (simp add: finds_def)

lemma lookup_children_from:
  "wf_mchildren cs lo \<Longrightarrow> lookup_c r (children_from b cs) = Some v \<longleftrightarrow>
    lookup_c r cs = Some v \<and> b \<le> hd r"
proof (induction b cs arbitrary: lo rule: children_from.induct)
  case (1 k)
  then show ?case by (cases r) auto
next
  case (2 b k c cs)
  note IH = "2.IH" [of "Some k"]
  note m = lookup_c_MCons [OF "2.prems", of r v]
  have above: "lookup_c r cs = Some v \<Longrightarrow> k < hd r"
    using lookup_c_increasing [of r cs v "Some k"] "2.prems" by (cases r) auto
  show ?case
  proof (cases "k < b")
    case True
    with IH "2.prems" m show ?thesis by auto
  next
    case False
    have "b \<le> hd r" if "lookup_c r (MCons k c cs) = Some v"
      using that m above False by auto
    with False show ?thesis by auto
  qed
qed

lemma children_from_wf: "wf_mchildren cs lo \<Longrightarrow> wf_mchildren (children_from b cs) lo"
proof (induction b cs arbitrary: lo rule: children_from.induct)
  case (2 b k c cs)
  then show ?case using wf_mono [of cs "Some k" lo] by (auto intro: lo_less_trans)
qed simp

lemma children_from_subseq:
  assumes "wf_mchildren cs lo" "increasing it" "it \<noteq> []"
  shows "lookup_c r (children_from (hd it) cs) = Some v \<and> subseq r it \<longleftrightarrow>
    lookup_c r cs = Some v \<and> subseq r it"
proof -
  have "hd it \<le> hd r" if "subseq r it" "r \<noteq> []"
  proof -
    have "hd r \<in> set it" using that list_emb_set [of "(=)" r it "hd r"] by auto
    with assms(2,3) show ?thesis by (cases it) auto
  qed
  moreover have "r \<noteq> []" if "lookup_c r cs = Some v" using that by auto
  ultimately show ?thesis unfolding lookup_children_from [OF assms(1)] by blast
qed

lemma subseq_skip: "\<forall>y \<in> set r. y \<noteq> x \<Longrightarrow> subseq r (x # it) \<longleftrightarrow> subseq r it"
  by (cases r) (auto simp: subseq_Cons2_neq)

lemma subseq_dropWhile:
  "\<forall>x \<in> set r. \<not> P x \<Longrightarrow> subseq r (dropWhile P it) \<longleftrightarrow> subseq r it"
proof (induction it)
  case (Cons x it)
  then show ?case using subseq_skip [of r x it] by auto
qed simp

lemma findSubset_finds:
  "wf_mnode n lo \<Longrightarrow> increasing ks \<Longrightarrow>
    finds (findSubset p n ks) (\<lambda>v. p v \<and> (\<exists>r. mos_lookup r n = Some v \<and> subseq r ks))"
  "wf_mchildren cs lo \<Longrightarrow> increasing it \<Longrightarrow>
    finds (subset_loop p it cs) (\<lambda>v. p v \<and> (\<exists>r. lookup_c r cs = Some v \<and> subseq r it))"
proof (induction p n ks and p it cs arbitrary: lo and lo rule: findSubset_subset_loop.induct)
  case (1 p v e cs ks)
  show ?case
  proof (cases "e \<and> p v \<or> ks = []")
    case True
    have "lookup_c [] cs \<noteq> Some v'" for v' by simp
    with True show ?thesis by (auto simp: finds_def lookup_node_ex dest!: list_emb_Nil2)
  next
    case False
    have "finds (subset_loop p ks (children_from (hd ks) cs))
      (\<lambda>v. p v \<and> (\<exists>r. lookup_c r (children_from (hd ks) cs) = Some v \<and> subseq r ks))"
      using "1.IH" "1.prems" False children_from_wf by auto
    then show ?thesis
      using False children_from_subseq [of cs lo ks] "1.prems" by (auto simp: lookup_node_ex elim!: finds_cong)
  qed
next
  case (2 p it)
  show ?case by (simp add: finds_def lookup_c_MNil)
next
  case (3 p it k c cs)
  have wf: "wf_mnode c (Some k)" "wf_mchildren cs (Some k)" using "3.prems" by auto
  have below: "\<forall>x \<in> set r. k < x" if "lookup_c r cs = Some v" for r v
    using lookup_c_increasing [OF that wf(2)] by auto
  have ge: "\<forall>x \<in> set r. \<not> x < k" if "lookup_c r (MCons k c cs) = Some v" for r v
    using that lookup_c_MCons [OF "3.prems"(1), of r v] below lookup_increasing [OF _ wf(1)] by fastforce
  let ?D = "dropWhile (\<lambda>x. x < k) it"
  have drop: "lookup_c r (MCons k c cs) = Some v \<and> subseq r it \<longleftrightarrow> lookup_c r (MCons k c cs) = Some v \<and> subseq r ?D" for r v
    using subseq_dropWhile [of r "\<lambda>x. x < k" it] ge by blast
  have inc: "increasing ?D" using "3.prems"(2) by (metis sorted_wrt_append takeWhile_dropWhile_id)
  show ?case
  proof (cases ?D)
    case Nil
    have "\<not> (lookup_c r (MCons k c cs) = Some v \<and> subseq r it)" for r v
      unfolding drop by (cases r) (simp_all add: Nil)
    moreover have "subset_loop p it (MCons k c cs) = None"
      using Nil by (simp del: dropWhile_eq_Nil_conv)
    ultimately show ?thesis unfolding finds_def by auto
  next
    case (Cons x it')
    have x: "k \<le> x" using Cons by (metis dropWhile_eq_Cons_conv not_le)
    have it': "increasing it'" using inc Cons by simp
    show ?thesis
    proof (cases "x = k")
      case True
      have sub: "lookup_c r (MCons k c cs) = Some v \<and> subseq r it \<longleftrightarrow>
          (\<exists>r'. r = k # r' \<and> mos_lookup r' c = Some v \<and> subseq r' it') \<or> (lookup_c r cs = Some v \<and> subseq r it')" for r v
        unfolding drop unfolding Cons True lookup_c_MCons [OF "3.prems"(1)]
        using subseq_skip [of r k it'] below [of r v] by auto
      have c: "finds (findSubset p c it') (\<lambda>v. p v \<and> (\<exists>r. mos_lookup r c = Some v \<and> subseq r it'))"
        using "3.IH"(1) [OF Cons True wf(1) it'] .
      show ?thesis
      proof (cases "findSubset p c it' \<noteq> None \<or> it' = []")
        case fin: True
        have "\<not> (lookup_c r cs = Some v \<and> subseq r [])" for r v by (auto dest!: list_emb_Nil2)
        with fin c Cons True show ?thesis
          unfolding sub by (auto simp: finds_def split: option.splits)
      next
        case False
        have "finds (subset_loop p it' (children_from (hd it') cs))
            (\<lambda>v. p v \<and> (\<exists>r. lookup_c r (children_from (hd it') cs) = Some v \<and> subseq r it'))"
          using "3.IH"(2) [OF Cons True refl False] children_from_wf [OF wf(2)] it' by blast
        then have "finds (subset_loop p it' (children_from (hd it') cs))
            (\<lambda>v. p v \<and> (\<exists>r. lookup_c r cs = Some v \<and> subseq r it'))"
          using children_from_subseq [OF wf(2) it'] False by simp
        with c False Cons True show ?thesis
          unfolding sub by (auto simp: finds_def Let_def split: option.splits)
      qed
    next
      case False
      have sub: "lookup_c r (MCons k c cs) = Some v \<and> subseq r it \<longleftrightarrow> lookup_c r cs = Some v \<and> subseq r (x # it')" for r v
      proof -
        have "\<not> subseq (k # r') (x # it')" for r'
          using list_emb_set [of "(=)" "k # r'" "x # it'" k] False x inc Cons by fastforce
        then show ?thesis unfolding drop unfolding Cons lookup_c_MCons [OF "3.prems"(1)] by auto
      qed
      have "finds (subset_loop p (x # it') (children_from x cs))
          (\<lambda>v. p v \<and> (\<exists>r. lookup_c r (children_from x cs) = Some v \<and> subseq r (x # it')))"
        using "3.IH"(3) [OF Cons False children_from_wf [OF wf(2)]] inc Cons by simp
      then show ?thesis
        using children_from_subseq [OF wf(2), of "x # it'"] inc Cons False unfolding sub by simp
    qed
  qed
qed

lemma lookup_c_child_ex:
  "(\<exists>r. lookup_c r cs = Some v \<and> Q r) \<longleftrightarrow>
    (\<exists>k c r. child k cs = Some c \<and> mos_lookup r c = Some v \<and> Q (k # r))"
proof
  assume "\<exists>r. lookup_c r cs = Some v \<and> Q r"
  then obtain r where r: "lookup_c r cs = Some v" "Q r" by blast
  then show "\<exists>k c r. child k cs = Some c \<and> mos_lookup r c = Some v \<and> Q (k # r)"
    by (cases r) (auto split: option.splits)
next
  assume "\<exists>k c r. child k cs = Some c \<and> mos_lookup r c = Some v \<and> Q (k # r)"
  then obtain k c r where "child k cs = Some c" "mos_lookup r c = Some v" "Q (k # r)" by blast
  then show "\<exists>r. lookup_c r cs = Some v \<and> Q r" by (intro exI [of _ "k # r"]) simp
qed

lemma children_from_child:
  "wf_mchildren cs lo \<Longrightarrow>
    (case children_from b cs of MNil \<Rightarrow> None | MCons k c cs' \<Rightarrow> if b = k then Some c else None) = child b cs"
  by (induction b cs arbitrary: lo rule: children_from.induct) (auto simp: child_above)

lemma findSuperset_finds:
  "wf_mnode n lo \<Longrightarrow>
    finds (findSuperset p n ks) (\<lambda>v. p v \<and> (\<exists>r. mos_lookup r n = Some v \<and> subseq ks r))"
  "wf_mchildren cs lo \<Longrightarrow>
    finds (superset_any p cs ks) (\<lambda>v. p v \<and> (\<exists>k c r. child k cs = Some c \<and> mos_lookup r c = Some v \<and> subseq ks r))"
proof (induction p n ks and p cs ks arbitrary: lo and lo rule: findSuperset_superset_any.induct)
  case (1 p v e cs)
  show ?case
    unfolding lookup_node_ex lookup_c_child_ex using "1.IH" [of lo] "1.prems"
    by (cases "e \<and> p v") (auto simp: finds_def split: option.splits)
next
  case (2 p v e cs b ks)
  have wf: "wf_mchildren cs lo" using "2.prems" by simp
  let ?last = "case children_from b cs of MNil \<Rightarrow> None | MCons k c cs' \<Rightarrow> if b = k then findSuperset p c ks else None"
  have "?last = (case child b cs of None \<Rightarrow> None | Some c \<Rightarrow> findSuperset p c ks)"
    unfolding children_from_child [OF wf, of b, symmetric] by (simp split: mchildren.split)
  moreover have "finds ?last (\<lambda>v. p v \<and> (\<exists>c r. child b cs = Some c \<and> mos_lookup r c = Some v \<and> subseq ks r))"
    if none: "superset_any p cs (b # ks) = None"
  proof (cases "children_from b cs")
    case MNil
    with children_from_child [OF wf, of b] show ?thesis by (simp add: finds_def)
  next
    case (MCons k c cs')
    show ?thesis
    proof (cases "b = k")
      case True
      then have c: "child b cs = Some c" using children_from_child [OF wf, of b] MCons by simp
      have "wf_mnode c (Some b)" using child_wf [OF wf c] by blast
      with "2.IH"(2) [OF none MCons True] c MCons True show ?thesis by simp
    next
      case False
      with MCons children_from_child [OF wf, of b] show ?thesis by (simp add: finds_def)
    qed
  qed
  ultimately have "finds (findSuperset p (MNode v e cs) (b # ks))
      (\<lambda>v. (p v \<and> (\<exists>k c r. child k cs = Some c \<and> mos_lookup r c = Some v \<and> subseq (b # ks) r)) \<or>
        (p v \<and> (\<exists>c r. child b cs = Some c \<and> mos_lookup r c = Some v \<and> subseq ks r)))"
    unfolding findSuperset.simps by (intro finds_orelse "2.IH"(1) [OF wf]) auto
  then show ?case
  proof (rule finds_cong)
    fix v'
    have "subseq (b # ks) (k # r) \<longleftrightarrow> subseq (b # ks) r \<or> b = k \<and> subseq ks r" for k r
      by (auto simp: subseq_Cons2_iff dest: subseq_Cons')
    then show "(p v' \<and> (\<exists>k c r. child k cs = Some c \<and> mos_lookup r c = Some v' \<and> subseq (b # ks) r)) \<or>
        (p v' \<and> (\<exists>c r. child b cs = Some c \<and> mos_lookup r c = Some v' \<and> subseq ks r)) \<longleftrightarrow>
      p v' \<and> (\<exists>r. mos_lookup r (MNode v e cs) = Some v' \<and> subseq (b # ks) r)"
      unfolding lookup_node_ex lookup_c_child_ex by auto
  qed
next
  case (3 p ks)
  then show ?case by (simp add: finds_def)
next
  case (4 p k c cs ks)
  have wf: "wf_mnode c (Some k)" "wf_mchildren cs (Some k)" using "4.prems" by auto
  have "finds (superset_any p (MCons k c cs) ks)
      (\<lambda>v. (p v \<and> (\<exists>r. mos_lookup r c = Some v \<and> subseq ks r)) \<or>
        (p v \<and> (\<exists>k c r. child k cs = Some c \<and> mos_lookup r c = Some v \<and> subseq ks r)))"
    unfolding superset_any.simps by (intro finds_orelse "4.IH"(1) [OF wf(1)] "4.IH"(2) [OF _ wf(2)])
  then show ?case
  proof (rule finds_cong)
    fix v
    have "child k' (MCons k c cs) = Some c' \<longleftrightarrow> k' = k \<and> c' = c \<or> child k' cs = Some c'" for k' c'
      using child_above [OF wf(2) order_refl] by auto
    note ex = this
    show "(p v \<and> (\<exists>r. mos_lookup r c = Some v \<and> subseq ks r)) \<or>
        (p v \<and> (\<exists>k c r. child k cs = Some c \<and> mos_lookup r c = Some v \<and> subseq ks r)) \<longleftrightarrow>
      p v \<and> (\<exists>k' c' r. child k' (MCons k c cs) = Some c' \<and> mos_lookup r c' = Some v \<and> subseq ks r)"
      unfolding ex by blast
  qed
qed

subsection \<open>Tries that insertions build\<close>

text \<open>The contents of the trie: an abstract map from sets (as increasing lists).\<close>

inductive reachable :: "'v \<Rightarrow> ('k::linorder list \<rightharpoonup> 'v) \<Rightarrow> ('k, 'v) mnode \<Rightarrow> bool" for d :: 'v where
  empty: "reachable d Map.empty (newMNode d)"
| insert: "reachable d M n \<Longrightarrow> increasing ks \<Longrightarrow> reachable d (M(ks \<mapsto> v)) (mos_insert d ks v n)"
| clear: "reachable d M n \<Longrightarrow> reachable d Map.empty (mos_clear d n)"

inductive_cases reachable_cases: "reachable d M n"

lemma reachable_wf: "reachable d M n \<Longrightarrow> wf_mnode n None"
  by (induction rule: reachable.induct) (auto simp: newMNode_def mos_clear_def intro: insert_wf)

lemma empty_lookup: "mos_lookup ks (MNode d False MNil) = None"
  by (cases ks) auto

lemma reachable_lookup: "reachable d M n \<Longrightarrow> mos_lookup ks n = M ks"
proof (induction rule: reachable.induct)
  case (insert M n ks' v)
  with mos_lookup_insert [OF reachable_wf [OF insert.hyps(1)], of ks d ks' v] show ?case by simp
qed (simp_all add: newMNode_def mos_clear_def empty_lookup)

lemma reachable_increasing: "reachable d M n \<Longrightarrow> M ks = Some v \<Longrightarrow> increasing ks"
  using reachable_lookup [of d M n ks] lookup_increasing [OF _ reachable_wf [of d M n]] by simp

text \<open>On increasing lists, being a subsequence is being a subset.\<close>

lemma subseq_iff_subset:
  assumes "increasing xs" "increasing ys"
  shows "subseq xs ys \<longleftrightarrow> set xs \<subseteq> set ys"
proof
  assume "subseq xs ys"
  then show "set xs \<subseteq> set ys" using list_emb_set [of "(=)" xs ys] by blast
next
  assume "set xs \<subseteq> set ys"
  with assms show "subseq xs ys"
  proof (induction ys arbitrary: xs)
    case (Cons y ys)
    show ?case
    proof (cases xs)
      case xs: (Cons x xs')
      show ?thesis
      proof (cases "x = y")
        case True
        have "set xs' \<subseteq> set ys" using Cons.prems xs True by auto
        with Cons xs True show ?thesis by simp
      next
        case False
        then have "y \<notin> set xs" using Cons.prems xs by fastforce
        with Cons.prems have "set xs \<subseteq> set ys" by auto
        with Cons have "subseq xs ys" by simp
        then show ?thesis by (rule list_emb_Cons)
      qed
    qed simp
  qed simp
qed

lemma reachable_ex:
  assumes "reachable d M n" "increasing ks"
  shows "(\<exists>r. mos_lookup r n = Some v \<and> subseq r ks \<and> Q r) \<longleftrightarrow> (\<exists>r. M r = Some v \<and> set r \<subseteq> set ks \<and> Q r)"
    and "(\<exists>r. mos_lookup r n = Some v \<and> subseq ks r \<and> Q r) \<longleftrightarrow> (\<exists>r. M r = Some v \<and> set ks \<subseteq> set r \<and> Q r)"
proof -
  have "M r = Some v \<and> subseq r ks \<longleftrightarrow> M r = Some v \<and> set r \<subseteq> set ks"
      "M r = Some v \<and> subseq ks r \<longleftrightarrow> M r = Some v \<and> set ks \<subseteq> set r" for r
    using reachable_increasing [OF assms(1), of r v] subseq_iff_subset [OF _ assms(2), of r]
      subseq_iff_subset [OF assms(2), of r] by auto
  then show "(\<exists>r. mos_lookup r n = Some v \<and> subseq r ks \<and> Q r) \<longleftrightarrow> (\<exists>r. M r = Some v \<and> set r \<subseteq> set ks \<and> Q r)"
    "(\<exists>r. mos_lookup r n = Some v \<and> subseq ks r \<and> Q r) \<longleftrightarrow> (\<exists>r. M r = Some v \<and> set ks \<subseteq> set r \<and> Q r)"
    unfolding reachable_lookup [OF assms(1)] by metis+
qed

subsection \<open>Properties\<close>

text \<open>C11: on every trie that insertions and \<^verbatim>\<open>clear\<close> build, \<^verbatim>\<open>lookup\<close> is the map of the insertions: the
  value inserted last under exactly the set.\<close>

theorem mos_lookup_correct:
  assumes "reachable d M n"
  shows "mos_lookup ks n = M ks"
  using reachable_lookup [OF assms] .

text \<open>\<^verbatim>\<open>subsets\<close> and \<^verbatim>\<open>supersets\<close> collect exactly the stored sets below and above the given one, with
  their values.\<close>

lemma mos_subsets_supersets_correct:
  assumes "reachable d M n" "increasing ks"
  shows "set (subsets ks n) = {(set r, v) | r v. M r = Some v \<and> set r \<subseteq> set ks} \<and>
    set (supersets ks n) = {(set r, v) | r v. M r = Some v \<and> set ks \<subseteq> set r}"
proof -
  note ex = reachable_ex [OF assms]
  have "(S, v) \<in> set (subsets ks n) \<longleftrightarrow> (\<exists>r. M r = Some v \<and> set r \<subseteq> set ks \<and> S = set r)" for S v
    unfolding subsets_def findSubsets_iff ex by simp
  moreover have "(S, v) \<in> set (supersets ks n) \<longleftrightarrow> (\<exists>r. M r = Some v \<and> set ks \<subseteq> set r \<and> S = set r)" for S v
    unfolding supersets_def findSupersets_iff(1) [OF reachable_wf [OF assms(1)] assms(2)] ex by simp
  ultimately show ?thesis by auto
qed

text \<open>\<^verbatim>\<open>findSubset\<close> and \<^verbatim>\<open>findSuperset\<close> are sound and complete: what they return is stored under a
  subset (superset) of the given set and satisfies the predicate, and they return nothing only when no
  such entry exists.\<close>

lemma mos_find_correct:
  assumes "reachable d M n" "increasing ks"
  shows "(case findSubset p n ks of
      Some v \<Rightarrow> p v \<and> (\<exists>r. M r = Some v \<and> set r \<subseteq> set ks)
    | None \<Rightarrow> \<forall>r v. M r = Some v \<and> set r \<subseteq> set ks \<longrightarrow> \<not> p v) \<and>
   (case findSuperset p n ks of
      Some v \<Rightarrow> p v \<and> (\<exists>r. M r = Some v \<and> set ks \<subseteq> set r)
    | None \<Rightarrow> \<forall>r v. M r = Some v \<and> set ks \<subseteq> set r \<longrightarrow> \<not> p v)"
proof -
  note ex = reachable_ex [OF assms, where Q = "\<lambda>_. True", simplified]
  show ?thesis
    using findSubset_finds(1) [OF reachable_wf [OF assms(1)] assms(2), of p]
      findSuperset_finds(1) [OF reachable_wf [OF assms(1)], of p ks]
    unfolding ex finds_def by (auto split: option.splits)
qed

text \<open>C12: the searches of a trie that insertions and \<^verbatim>\<open>clear\<close> build: \<^verbatim>\<open>subsets\<close> and \<^verbatim>\<open>supersets\<close> collect exactly
  the stored sets below and above the given one, with their values; \<^verbatim>\<open>findSubset\<close> and \<^verbatim>\<open>findSuperset\<close> return a value
  stored under such a set that satisfies the predicate, and nothing only when there is none.\<close>

theorem mos_searches_correct:
  assumes "reachable d M n" "increasing ks"
  shows "set (subsets ks n) = {(set r, v) | r v. M r = Some v \<and> set r \<subseteq> set ks} \<and>
    set (supersets ks n) = {(set r, v) | r v. M r = Some v \<and> set ks \<subseteq> set r} \<and>
    (case findSubset p n ks of
      Some v \<Rightarrow> p v \<and> (\<exists>r. M r = Some v \<and> set r \<subseteq> set ks)
    | None \<Rightarrow> \<forall>r v. M r = Some v \<and> set r \<subseteq> set ks \<longrightarrow> \<not> p v) \<and>
   (case findSuperset p n ks of
      Some v \<Rightarrow> p v \<and> (\<exists>r. M r = Some v \<and> set ks \<subseteq> set r)
    | None \<Rightarrow> \<forall>r v. M r = Some v \<and> set ks \<subseteq> set r \<longrightarrow> \<not> p v)"
  using mos_subsets_supersets_correct [OF assms] mos_find_correct [OF assms, of p] by blast

text \<open>A trie with four sets, for the witnesses.\<close>

definition sample_map :: "nat list \<rightharpoonup> int" where
  "sample_map = Map.empty([1, 3] \<mapsto> 10, [2] \<mapsto> 20, [1, 2, 4] \<mapsto> 30, [] \<mapsto> 40)"

definition sample_trie :: "(nat, int) mnode" where
  "sample_trie = mos_insert 0 [] 40 (mos_insert 0 [1, 2, 4] 30
     (mos_insert 0 [2] 20 (mos_insert 0 [1, 3] 10 (newMNode 0))))"

lemma sample_reachable: "reachable 0 sample_map sample_trie"
  unfolding sample_map_def sample_trie_def by (intro reachable.intros) auto

theorem mos_lookup_correct_witness:
  "mos_lookup [1, 2, 4] sample_trie = Some 30 \<and> mos_lookup [1, 2] sample_trie = None"
  using mos_lookup_correct [OF sample_reachable] by (simp add: sample_map_def)

theorem mos_searches_correct_witness:
  "({2}, 20) \<in> set (subsets [1, 2, 3] sample_trie) \<and> ({1, 2, 4}, 30) \<in> set (supersets [1, 2] sample_trie) \<and>
   (case findSuperset (\<lambda>v. 15 < v) sample_trie [2, 4] of
      Some v \<Rightarrow> 15 < v \<and> (\<exists>r. sample_map r = Some v \<and> set [2, 4] \<subseteq> set r) | None \<Rightarrow> False) \<and>
   findSuperset (\<lambda>v. 15 < v) sample_trie [2, 4] = Some 30 \<and> findSubset (\<lambda>v. v < 0) sample_trie [2, 4] = None"
proof -
  note c = mos_searches_correct [OF sample_reachable, where p = "\<lambda>v. 15 < v"]
  have m: "sample_map [2] = Some 20" "sample_map [1, 2, 4] = Some 30" by (simp_all add: sample_map_def)
  have f: "findSuperset (\<lambda>v. 15 < v) sample_trie [2, 4] = Some 30" "findSubset (\<lambda>v. v < 0) sample_trie [2, 4] = None"
    by (simp_all add: sample_trie_def newMNode_def)
  have "({2}, 20) \<in> set (subsets [1, 2, 3] sample_trie)"
    using c [of "[1, 2, 3]"] m(1) by (simp, intro exI [of _ "[2]"], simp)
  moreover have "({1, 2, 4}, 30) \<in> set (supersets [1, 2] sample_trie)"
    using c [of "[1, 2]"] m(2) by (simp, intro exI [of _ "[1, 2, 4]"], simp)
  ultimately show ?thesis using c [of "[2, 4]"] f by simp
qed

end
