(* ===== verification/BitBounds.thy ===== *)
theory BitBounds
  imports Bits
begin

unbundle bit_operations_syntax

section \<open>Bounds of bitwise operations (FastCexSolver.cpp: minOR, maxOR, minAND, maxAND)\<close>

text \<open>
  The four loops that bound \<open>x OR y\<close> and \<open>x AND y\<close> for \<open>x\<close> and \<open>y\<close> in two intervals of 64-bit words,
  with the mask \<open>m\<close> as the loop counter: each is a function on \<open>m\<close> that ends since \<open>m\<close> halves. The
  lemmas follow the loop from bit \<open>k\<close> on, for values that agree with the tracked bounds from that bit
  up; the loops for AND are the complements of those for OR.
\<close>

type_synonym u64 = "64 word"

lemma unat_drop_bit: "unat (drop_bit k (x::u64)) = unat x div 2 ^ k"
  using unat_drop_bit_eq [of k x] by (simp only: drop_bit_eq_div)

lemma unat_take_bit: "unat (take_bit k (x::u64)) = unat x mod 2 ^ k"
  using unsigned_take_bit_eq [of k x, where ?'a = nat] by (simp only: take_bit_eq_mod)

lemma half_less: "(m::u64) \<noteq> 0 \<Longrightarrow> unat (drop_bit (Suc 0) m) < unat m"
proof -
  assume "m \<noteq> 0"
  then have "unat m div 2 ^ Suc 0 < unat m" by (simp add: unat_gt_0)
  then show ?thesis by (simp only: unat_drop_bit)
qed

function minOR_loop :: "u64 \<Rightarrow> u64 \<Rightarrow> u64 \<Rightarrow> u64 \<Rightarrow> u64 \<Rightarrow> u64" where
  "minOR_loop m a b c d =
     (if m = 0 then a OR c
      else if NOT a AND c AND m \<noteq> 0 then
        (let temp = (a OR m) AND - m
         in if temp \<le> b then temp OR c else minOR_loop (drop_bit 1 m) a b c d)
      else if a AND NOT c AND m \<noteq> 0 then
        (let temp = (c OR m) AND - m
         in if temp \<le> d then a OR temp else minOR_loop (drop_bit 1 m) a b c d)
      else minOR_loop (drop_bit 1 m) a b c d)"
  by pat_completeness auto
termination minOR_loop
  by (relation "measure (\<lambda>(m, _). unat m)") (auto simp: half_less)

function maxOR_loop :: "u64 \<Rightarrow> u64 \<Rightarrow> u64 \<Rightarrow> u64 \<Rightarrow> u64 \<Rightarrow> u64" where
  "maxOR_loop m a b c d =
     (if m = 0 then b OR d
      else if b AND d AND m \<noteq> 0 then
        (let temp = (b - m) OR (m - 1)
         in if temp \<ge> a then temp OR d
            else let temp = (d - m) OR (m - 1)
              in if temp \<ge> c then b OR temp else maxOR_loop (drop_bit 1 m) a b c d)
      else maxOR_loop (drop_bit 1 m) a b c d)"
  by pat_completeness auto
termination maxOR_loop
  by (relation "measure (\<lambda>(m, _). unat m)") (auto simp: half_less)

declare minOR_loop.simps [simp del] maxOR_loop.simps [simp del]

lemma hi_Suc:
  assumes "drop_bit (Suc k) x = drop_bit (Suc k) (y::u64)" "bit x k = bit y k"
  shows "drop_bit k x = drop_bit k y"
proof (rule bit_word_eqI)
  fix n
  show "bit (drop_bit k x) n = bit (drop_bit k y) n"
  proof (cases n)
    case (Suc j)
    have "bit (drop_bit (Suc k) x) j = bit (drop_bit (Suc k) y) j" using assms(1) by simp
    then show ?thesis by (simp add: bit_drop_bit_eq Suc)
  qed (use assms(2) in \<open>simp add: bit_drop_bit_eq\<close>)
qed

lemma hi_le: "drop_bit k x \<le> drop_bit k (y::u64) \<longleftrightarrow> unat x div 2 ^ k \<le> unat y div 2 ^ k"
  by (simp only: word_le_nat_alt unat_drop_bit)

lemma hi_mono: "x \<le> (y::u64) \<Longrightarrow> drop_bit k x \<le> drop_bit k y"
  unfolding hi_le by (rule div_le_mono) (simp only: word_le_nat_alt)

lemma hi_less: "drop_bit k x < drop_bit k (y::u64) \<Longrightarrow> x < y"
  using hi_mono [of y x k] by (meson leD not_less)

lemma hi_bit: "unat (drop_bit k x) = 2 * unat (drop_bit (Suc k) x) + of_bool (bit (x::u64) k)"
proof -
  have "unat x div 2 ^ k = 2 * (unat x div 2 ^ Suc k) + unat x div 2 ^ k mod 2"
    using div_mult_mod_eq [of "unat x div 2 ^ k" 2] by (simp add: div_mult2_eq mult.commute [of 2])
  moreover have "unat x div 2 ^ k mod 2 = of_bool (bit x k)"
    using bit_unsigned_iff [of x k, where ?'a = nat] by (simp add: bit_iff_odd mod_2_eq_odd)
  ultimately show ?thesis by (simp only: unat_drop_bit)
qed

lemma bit_less:
  assumes "drop_bit (Suc k) x = drop_bit (Suc k) (y::u64)" "\<not> bit x k" "bit y k"
  shows "x < y"
  by (rule hi_less [of k]) (use assms in \<open>simp only: word_less_nat_alt hi_bit [of k], simp\<close>)

lemma bit_step:
  assumes "drop_bit (Suc k) x = drop_bit (Suc k) (y::u64)" "x \<le> y" "bit x k"
  shows "bit y k"
  using assms bit_less [of k y x] by (metis leD)

text \<open>The two candidate values of the loops at bit \<open>k\<close>.\<close>

definition up_at :: "nat \<Rightarrow> u64 \<Rightarrow> u64" where
  "up_at k a = (a OR 2 ^ k) AND - (2 ^ k)"

definition down_at :: "nat \<Rightarrow> u64 \<Rightarrow> u64" where
  "down_at k b = (b - 2 ^ k) OR (2 ^ k - 1)"

lemma up_bits: "k < 64 \<Longrightarrow> bit (up_at k a) n \<longleftrightarrow> n = k \<or> k < n \<and> bit a n"
  by (auto simp: up_at_def minus_exp_eq_not_mask bit_simps dest: bit_imp_le_length)

lemma down_eq: "bit b k \<Longrightarrow> b - (2 ^ k :: u64) = unset_bit k b"
  by (simp add: unset_bit_eq)

lemma down_bits: "bit b k \<Longrightarrow> k < 64 \<Longrightarrow> bit (down_at k b) n \<longleftrightarrow> n < k \<or> k < n \<and> bit b n"
  by (auto simp: down_at_def down_eq mask_eq_exp_minus_1 [symmetric] bit_simps)

lemma up_hi: "k < 64 \<Longrightarrow> drop_bit (Suc k) (up_at k a) = drop_bit (Suc k) a"
  by (rule bit_word_eqI) (auto simp: bit_drop_bit_eq up_bits)

lemma down_hi: "bit b k \<Longrightarrow> k < 64 \<Longrightarrow> drop_bit (Suc k) (down_at k b) = drop_bit (Suc k) b"
  by (rule bit_word_eqI) (auto simp: bit_drop_bit_eq down_bits)

lemma le_lowI:
  assumes "drop_bit k x = drop_bit k (y::u64)" "take_bit k x \<le> take_bit k y"
  shows "x \<le> y"
proof -
  have s: "unat z = unat (drop_bit k z) * 2 ^ k + unat (take_bit k z)" for z :: u64
    by (simp only: unat_drop_bit unat_take_bit div_mult_mod_eq)
  show ?thesis
    using assms s [of x] s [of y] unfolding word_le_nat_alt by simp
qed

lemma le_low:
  assumes "drop_bit k x = drop_bit k (y::u64)" "x \<le> y"
  shows "take_bit k x \<le> take_bit k y"
proof (rule ccontr)
  assume "\<not> take_bit k x \<le> take_bit k y"
  then have "take_bit k y \<le> take_bit k x" "take_bit k x \<noteq> take_bit k y" by auto
  then have "y \<le> x" using assms(1) le_lowI [of k y x] by simp
  with assms(2) have "x = y" by simp
  with \<open>take_bit k x \<noteq> take_bit k y\<close> show False by simp
qed

lemma up_le:
  assumes "k < 64" "drop_bit (Suc k) a = drop_bit (Suc k) x" "bit x k"
  shows "up_at k a \<le> x"
proof (rule le_lowI [of k])
  show "drop_bit k (up_at k a) = drop_bit k x"
    by (rule hi_Suc) (use assms in \<open>simp_all add: up_hi up_bits\<close>)
  have "take_bit k (up_at k a) = 0"
    using assms(1) by (intro bit_word_eqI) (simp add: bit_take_bit_iff up_bits)
  then show "take_bit k (up_at k a) \<le> take_bit k x" by (simp only: word_zero_le)
qed

lemma down_ge:
  assumes "k < 64" "drop_bit (Suc k) b = drop_bit (Suc k) x" "bit b k" "\<not> bit x k"
  shows "x \<le> down_at k b"
proof (rule le_lowI [of k])
  show "drop_bit k x = drop_bit k (down_at k b)"
    by (rule hi_Suc) (use assms in \<open>simp_all add: down_hi down_bits\<close>)
  have t: "take_bit k (down_at k b) = mask k"
    using assms by (intro bit_word_eqI) (auto simp: bit_take_bit_iff down_bits bit_mask_iff)
  show "take_bit k x \<le> take_bit k (down_at k b)"
    unfolding t by (simp add: take_bit_eq_mask word_and_le1)
qed

lemma step_m: "k < 64 \<Longrightarrow> drop_bit (Suc 0) (2 ^ k :: u64) = (if k = 0 then 0 else 2 ^ (k - 1))"
  by (rule bit_word_eqI) (auto simp: bit_drop_bit_eq bit_exp_iff)

lemma test_bit: "k < 64 \<Longrightarrow> x AND 2 ^ k = (0::u64) \<longleftrightarrow> \<not> bit x k"
  by (simp add: and_exp_eq_0_iff_not_bit)

text \<open>The loop from bit \<open>k - 1\<close> on; \<open>k = 0\<close> is the end of the loop.\<close>

definition from_bit :: "nat \<Rightarrow> u64" where
  "from_bit k = (if k = 0 then 0 else 2 ^ (k - 1))"

lemma minOR_0: "minOR_loop (from_bit 0) a b c d = a OR c"
  by (simp add: minOR_loop.simps from_bit_def)

lemma minOR_Suc: "k < 64 \<Longrightarrow> minOR_loop (from_bit (Suc k)) a b c d =
  (if \<not> bit a k \<and> bit c k \<and> up_at k a \<le> b then up_at k a OR c
      else if bit a k \<and> \<not> bit c k \<and> up_at k c \<le> d then a OR up_at k c
      else minOR_loop (from_bit k) a b c d)"
  by (subst minOR_loop.simps)
    (simp add: from_bit_def step_m Let_def up_at_def [symmetric] down_at_def [symmetric] and.assoc [symmetric] test_bit bit_and_iff bit_not_iff)

lemma maxOR_0: "maxOR_loop (from_bit 0) a b c d = b OR d"
  by (simp add: maxOR_loop.simps from_bit_def)

lemma maxOR_Suc: "k < 64 \<Longrightarrow> maxOR_loop (from_bit (Suc k)) a b c d =
  (if bit b k \<and> bit d k \<and> a \<le> down_at k b then down_at k b OR d
      else if bit b k \<and> bit d k \<and> c \<le> down_at k d then b OR down_at k d
      else maxOR_loop (from_bit k) a b c d)"
  by (subst maxOR_loop.simps)
    (simp add: from_bit_def step_m Let_def up_at_def [symmetric] down_at_def [symmetric] and.assoc [symmetric] test_bit bit_and_iff)

lemma minOR_hi: "k \<le> 64 \<Longrightarrow> drop_bit k (minOR_loop (from_bit k) a b c d) = drop_bit k (a OR c)"
proof (induction k)
  case (Suc k)
  then have IH: "drop_bit (Suc k) (minOR_loop (from_bit k) a b c d) = drop_bit (Suc k) (a OR c)"
    by (metis Suc_leD drop_bit_drop_bit plus_1_eq_Suc)
  show ?case
    using Suc.prems IH by (simp add: minOR_Suc Let_def drop_bit_or up_hi)
qed (simp add: minOR_0)

lemma maxOR_hi: "k \<le> 64 \<Longrightarrow> drop_bit k (maxOR_loop (from_bit k) a b c d) = drop_bit k (b OR d)"
proof (induction k)
  case (Suc k)
  then have IH: "drop_bit (Suc k) (maxOR_loop (from_bit k) a b c d) = drop_bit (Suc k) (b OR d)"
    by (metis Suc_leD drop_bit_drop_bit plus_1_eq_Suc)
  show ?case
    using Suc.prems IH by (simp add: maxOR_Suc Let_def drop_bit_or down_hi)
qed (simp add: maxOR_0)


lemma or_ge2: "(y::u64) \<le> x OR y"
  using or_greater_eq [of "uint x" "uint y"] by (simp add: word_le_def unsigned_or_eq or.commute)

lemma hi_weaken:
  assumes "drop_bit k x = drop_bit k (y::u64)"
  shows "drop_bit (Suc k) x = drop_bit (Suc k) y" and "bit x k = bit y k"
proof -
  show "drop_bit (Suc k) x = drop_bit (Suc k) y"
    using arg_cong [OF assms, of "drop_bit 1"] by (simp only: drop_bit_drop_bit plus_1_eq_Suc)
  show "bit x k = bit y k"
    using arg_cong [OF assms, of "\<lambda>z. bit z 0"] by (simp only: bit_drop_bit_eq comp_apply add_0_right)
qed

lemma up_or:
  assumes "k < 64" "drop_bit (Suc k) x = drop_bit (Suc k) a" "drop_bit (Suc k) y = drop_bit (Suc k) c"
    "c \<le> y" "bit c k"
  shows "up_at k a OR c \<le> x OR y"
proof (rule le_lowI [of k])
  have y: "bit y k" using bit_step [of k c y] assms by simp
  then show "drop_bit k (up_at k a OR c) = drop_bit k (x OR y)"
    using assms by (intro hi_Suc [of k "up_at k a OR c"]) (simp_all add: drop_bit_or up_hi bit_or_iff)
  have "drop_bit k c = drop_bit k y" by (rule hi_Suc) (use y assms in simp_all)
  then have "take_bit k c \<le> take_bit k y" using le_low assms(4) by blast
  moreover have "take_bit k (up_at k a) = 0"
    using assms(1) by (intro bit_word_eqI) (simp add: bit_take_bit_iff up_bits)
  ultimately show "take_bit k (up_at k a OR c) \<le> take_bit k (x OR y)"
    using or_ge2 [of "take_bit k y" "take_bit k x"] by (simp add: take_bit_or)
qed

lemma down_or:
  assumes "k < 64" "drop_bit (Suc k) x = drop_bit (Suc k) b" "drop_bit (Suc k) y = drop_bit (Suc k) d"
    "bit b k" "bit d k"
  shows "x OR y \<le> down_at k b OR d"
proof (cases "bit (x OR y) k")
  case True
  show ?thesis
  proof (rule le_lowI [of k])
    show "drop_bit k (x OR y) = drop_bit k (down_at k b OR d)"
      by (rule hi_Suc) (use assms True in \<open>simp_all add: drop_bit_or down_hi bit_or_iff\<close>)
    have t: "take_bit k (down_at k b OR d) = mask k"
      using assms by (intro bit_word_eqI) (auto simp: bit_take_bit_iff bit_or_iff down_bits bit_mask_iff)
    show "take_bit k (x OR y) \<le> take_bit k (down_at k b OR d)"
      unfolding t by (simp add: take_bit_eq_mask word_and_le1)
  qed
next
  case False
  have "x OR y < down_at k b OR d"
    by (rule bit_less [of k]) (use assms False in \<open>simp_all add: drop_bit_or down_hi bit_or_iff\<close>)
  then show ?thesis by simp
qed

lemma minOR_le:
  assumes "k \<le> 64" "drop_bit k x = drop_bit k a" "drop_bit k y = drop_bit k c"
    "a \<le> x" "x \<le> b" "c \<le> y" "y \<le> d"
  shows "minOR_loop (from_bit k) a b c d \<le> x OR y"
  using assms
proof (induction k)
  case 0
  then show ?case by (simp add: minOR_0)
next
  case (Suc k)
  let ?r = "minOR_loop (from_bit k) a b c d"
  have k: "k < 64" using Suc.prems(1) by simp
  have ax: "bit x k" if "bit a k" using bit_step [of k a x] Suc.prems that by simp
  have cy: "bit y k" if "bit c k" using bit_step [of k c y] Suc.prems that by simp
  have IH: "?r \<le> x OR y" if "bit x k = bit a k" "bit y k = bit c k"
    using Suc hi_Suc [of k x a] hi_Suc [of k y c] that by simp
  have up: "p OR q \<le> x OR y"
    if "p = up_at k a \<and> q = c \<and> \<not> bit a k \<and> bit c k \<or> p = a \<and> q = up_at k c \<and> bit a k \<and> \<not> bit c k" for p q
    using that up_or [of k x a y c] up_or [of k y c x a] k Suc.prems by (auto simp: or.commute)
  show ?case
  proof (cases "\<not> bit a k \<and> \<not> bit c k \<and> (bit x k \<or> bit y k)")
    case True
    have "drop_bit (Suc k) ?r = drop_bit (Suc k) (a OR c)"
      using hi_weaken(1) [OF minOR_hi] k by simp
    then have "drop_bit (Suc k) ?r = drop_bit (Suc k) (x OR y)"
      using Suc.prems by (simp add: drop_bit_or)
    moreover have "bit ?r k = bit (a OR c) k"
      using hi_weaken(2) [OF minOR_hi] k by simp
    ultimately have "?r < x OR y"
      by (intro bit_less [of k ?r "x OR y"]) (use True in \<open>auto simp only: bit_or_iff\<close>)
    with True k show ?thesis by (simp add: minOR_Suc)
  next
    case False
    have "up_at k a \<le> b" if "bit x k" "\<not> bit a k"
      using up_le [of k a x] Suc.prems k that by simp
    moreover have "up_at k c \<le> d" if "bit y k" "\<not> bit c k"
      using up_le [of k c y] Suc.prems k that by simp
    ultimately show ?thesis
      using k False IH ax cy up [of "up_at k a" c] up [of a "up_at k c"]
      by (simp add: minOR_Suc) blast
  qed
qed

lemma maxOR_ge:
  assumes "k \<le> 64" "drop_bit k x = drop_bit k b" "drop_bit k y = drop_bit k d"
    "a \<le> x" "x \<le> b" "c \<le> y" "y \<le> d"
  shows "x OR y \<le> maxOR_loop (from_bit k) a b c d"
  using assms
proof (induction k)
  case 0
  then show ?case by (simp add: maxOR_0)
next
  case (Suc k)
  let ?r = "maxOR_loop (from_bit k) a b c d"
  have k: "k < 64" using Suc.prems(1) by simp
  have xb: "bit b k" if "bit x k" using bit_step [of k x b] Suc.prems that by simp
  have yd: "bit d k" if "bit y k" using bit_step [of k y d] Suc.prems that by simp
  have IH: "x OR y \<le> ?r" if "bit x k = bit b k" "bit y k = bit d k"
    using Suc hi_Suc [of k x b] hi_Suc [of k y d] that by simp
  have down: "x OR y \<le> p OR q"
    if "p = down_at k b \<and> q = d \<or> p = b \<and> q = down_at k d" "bit b k" "bit d k" for p q
    using that down_or [of k x b y d] down_or [of k y d x b] k Suc.prems by (auto simp: or.commute)
  show ?case
  proof (cases "bit b k \<noteq> bit d k \<and> (bit b k \<noteq> bit x k \<or> bit d k \<noteq> bit y k)")
    case True
    have "drop_bit (Suc k) ?r = drop_bit (Suc k) (b OR d)"
      using hi_weaken(1) [OF maxOR_hi] k by simp
    then have "drop_bit (Suc k) (x OR y) = drop_bit (Suc k) ?r"
      using Suc.prems by (simp add: drop_bit_or)
    moreover have "bit ?r k = bit (b OR d) k"
      using hi_weaken(2) [OF maxOR_hi] k by simp
    ultimately have "x OR y < ?r"
      by (intro bit_less [of k "x OR y" ?r]) (use True xb yd in \<open>auto simp only: bit_or_iff\<close>)
    with True k show ?thesis by (auto simp: maxOR_Suc)
  next
    case False
    have "a \<le> down_at k b" if "\<not> bit x k" "bit b k"
      using down_ge [of k b x] Suc.prems k that by simp
    moreover have "c \<le> down_at k d" if "\<not> bit y k" "bit d k"
      using down_ge [of k d y] Suc.prems k that by simp
    ultimately show ?thesis
      using k False IH xb yd down [of "down_at k b" d] down [of b "down_at k d"]
      by (simp add: maxOR_Suc) blast
  qed
qed


lemma up_gt: "k < 64 \<Longrightarrow> \<not> bit a k \<Longrightarrow> a < up_at k a"
  by (rule bit_less [of k]) (simp_all add: up_hi up_bits)

lemma down_lt: "k < 64 \<Longrightarrow> bit b k \<Longrightarrow> down_at k b < b"
  by (rule bit_less [of k]) (simp_all add: down_hi down_bits)

lemma minOR_attained:
  assumes "k \<le> 64" "a \<le> b" "c \<le> d"
  shows "\<exists>x y. minOR_loop (from_bit k) a b c d = x OR y \<and> a \<le> x \<and> x \<le> b \<and> c \<le> y \<and> y \<le> d"
  using assms
proof (induction k)
  case (Suc k)
  have "a \<le> up_at k a" if "\<not> bit a k" using up_gt [of k a] that Suc.prems by simp
  moreover have "c \<le> up_at k c" if "\<not> bit c k" using up_gt [of k c] that Suc.prems by simp
  ultimately show ?case
    using Suc by (simp add: minOR_Suc) blast
qed (auto simp: minOR_0)

lemma maxOR_attained:
  assumes "k \<le> 64" "a \<le> b" "c \<le> d"
  shows "\<exists>x y. maxOR_loop (from_bit k) a b c d = x OR y \<and> a \<le> x \<and> x \<le> b \<and> c \<le> y \<and> y \<le> d"
  using assms
proof (induction k)
  case (Suc k)
  have "down_at k b \<le> b" if "bit b k" using down_lt [of k b] that Suc.prems by simp
  moreover have "down_at k d \<le> d" if "bit d k" using down_lt [of k d] that Suc.prems by simp
  ultimately show ?case
    using Suc by (simp add: maxOR_Suc) blast
qed (auto simp: maxOR_0)

definition minOR :: "u64 \<Rightarrow> u64 \<Rightarrow> u64 \<Rightarrow> u64 \<Rightarrow> u64" where
  "minOR a b c d = minOR_loop (push_bit 63 1) a b c d"

definition maxOR :: "u64 \<Rightarrow> u64 \<Rightarrow> u64 \<Rightarrow> u64 \<Rightarrow> u64" where
  "maxOR a b c d = maxOR_loop (push_bit 63 1) a b c d"

function minAND_loop :: "u64 \<Rightarrow> u64 \<Rightarrow> u64 \<Rightarrow> u64 \<Rightarrow> u64 \<Rightarrow> u64" where
  "minAND_loop m a b c d =
     (if m = 0 then a AND c
      else if NOT a AND NOT c AND m \<noteq> 0 then
        (let temp = (a OR m) AND - m
         in if temp \<le> b then temp AND c
            else let temp = (c OR m) AND - m
              in if temp \<le> d then a AND temp else minAND_loop (drop_bit 1 m) a b c d)
      else minAND_loop (drop_bit 1 m) a b c d)"
  by pat_completeness auto
termination minAND_loop
  by (relation "measure (\<lambda>(m, _). unat m)") (auto simp: half_less)

function maxAND_loop :: "u64 \<Rightarrow> u64 \<Rightarrow> u64 \<Rightarrow> u64 \<Rightarrow> u64 \<Rightarrow> u64" where
  "maxAND_loop m a b c d =
     (if m = 0 then b AND d
      else if b AND NOT d AND m \<noteq> 0 then
        (let temp = (b AND NOT m) OR (m - 1)
         in if temp \<ge> a then temp AND d else maxAND_loop (drop_bit 1 m) a b c d)
      else if NOT b AND d AND m \<noteq> 0 then
        (let temp = (d AND NOT m) OR (m - 1)
         in if temp \<ge> c then b AND temp else maxAND_loop (drop_bit 1 m) a b c d)
      else maxAND_loop (drop_bit 1 m) a b c d)"
  by pat_completeness auto
termination maxAND_loop
  by (relation "measure (\<lambda>(m, _). unat m)") (auto simp: half_less)

declare minAND_loop.simps [simp del] maxAND_loop.simps [simp del]

definition minAND :: "u64 \<Rightarrow> u64 \<Rightarrow> u64 \<Rightarrow> u64 \<Rightarrow> u64" where
  "minAND a b c d = minAND_loop (push_bit 63 1) a b c d"

definition maxAND :: "u64 \<Rightarrow> u64 \<Rightarrow> u64 \<Rightarrow> u64 \<Rightarrow> u64" where
  "maxAND a b c d = maxAND_loop (push_bit 63 1) a b c d"

lemma not_le_not: "NOT (x::u64) \<le> NOT y \<longleftrightarrow> y \<le> x"
  using uint_bounded [of x] uint_bounded [of y]
  by (simp add: word_le_def unsigned_not_eq take_bit_not_eq_mask_diff take_bit_int_eq_self)

lemma minAND_dual:
  "k \<le> 64 \<Longrightarrow> minAND_loop (from_bit k) a b c d =
     NOT (maxOR_loop (from_bit k) (NOT b) (NOT a) (NOT d) (NOT c))"
proof (induction k)
  case 0
  then show ?case by (simp add: from_bit_def minAND_loop.simps maxOR_loop.simps)
next
  case (Suc k)
  then have k: "k < 64" and IH: "minAND_loop (from_bit k) a b c d =
     NOT (maxOR_loop (from_bit k) (NOT b) (NOT a) (NOT d) (NOT c))" by simp_all
  have d: "down_at k (NOT x) = NOT (up_at k x)" if "\<not> bit x k" for x
    using that k by (intro bit_word_eqI) (auto simp: bit_not_iff down_bits up_bits)
  show ?case
    by (subst minAND_loop.simps)
      (use k in \<open>simp add: from_bit_def step_m Let_def up_at_def [symmetric] and.assoc [symmetric]
        test_bit bit_and_iff bit_not_iff IH [unfolded from_bit_def] maxOR_Suc [unfolded from_bit_def, simplified] d not_le_not\<close>)
qed


lemma down_not: "k < 64 \<Longrightarrow> \<not> bit x k \<Longrightarrow> down_at k (NOT x) = NOT (up_at k x)"
  by (rule bit_word_eqI) (auto simp: bit_not_iff down_bits up_bits)

lemma clear_bit: "bit b k \<Longrightarrow> b AND NOT (2 ^ k :: u64) = b - 2 ^ k"
  using unset_bit_eq_and_not [of k b] down_eq [of b k] by (simp add: push_bit_of_1)

lemma maxAND_dual:
  "k \<le> 64 \<Longrightarrow> maxAND_loop (from_bit k) a b c d =
     NOT (minOR_loop (from_bit k) (NOT b) (NOT a) (NOT d) (NOT c))"
proof (induction k)
  case 0
  then show ?case by (simp add: from_bit_def maxAND_loop.simps minOR_loop.simps)
next
  case (Suc k)
  then have k: "k < 64" and IH: "maxAND_loop (from_bit k) a b c d =
     NOT (minOR_loop (from_bit k) (NOT b) (NOT a) (NOT d) (NOT c))" by simp_all
  have d: "up_at k (NOT x) = NOT (down_at k x)" if "bit x k" for x
    using that k by (intro bit_word_eqI) (auto simp: bit_not_iff down_bits up_bits)
  have c: "(x AND NOT (2 ^ k)) OR (2 ^ k - 1) = down_at k x" if "bit x k" for x
    using that by (simp add: clear_bit down_at_def)
  show ?case
    by (subst maxAND_loop.simps)
      (use k in \<open>simp add: from_bit_def step_m Let_def and.assoc [symmetric]
        test_bit bit_and_iff bit_not_iff IH [unfolded from_bit_def] minOR_Suc [unfolded from_bit_def, simplified] d c not_le_not\<close>)
qed

lemma top_bit: "push_bit 63 1 = from_bit 64"
  by (simp add: from_bit_def)

lemma minOR_min:
  assumes "a \<le> x" "x \<le> b" "c \<le> y" "y \<le> d" shows "minOR a b c d \<le> x OR y"
  unfolding minOR_def top_bit by (rule minOR_le) (use assms in \<open>simp_all add: drop_bit_word_beyond\<close>)

lemma maxOR_max:
  assumes "a \<le> x" "x \<le> b" "c \<le> y" "y \<le> d" shows "x OR y \<le> maxOR a b c d"
  unfolding maxOR_def top_bit by (rule maxOR_ge) (use assms in \<open>simp_all add: drop_bit_word_beyond\<close>)

lemma minOR_box:
  assumes "a \<le> b" "c \<le> d"
  shows "\<exists>x y. minOR a b c d = x OR y \<and> a \<le> x \<and> x \<le> b \<and> c \<le> y \<and> y \<le> d"
  unfolding minOR_def top_bit by (rule minOR_attained) (use assms in simp_all)

lemma maxOR_box:
  assumes "a \<le> b" "c \<le> d"
  shows "\<exists>x y. maxOR a b c d = x OR y \<and> a \<le> x \<and> x \<le> b \<and> c \<le> y \<and> y \<le> d"
  unfolding maxOR_def top_bit by (rule maxOR_attained) (use assms in simp_all)

lemma minAND_eq: "minAND a b c d = NOT (maxOR (NOT b) (NOT a) (NOT d) (NOT c))"
  unfolding minAND_def maxOR_def top_bit by (rule minAND_dual) simp

lemma maxAND_eq: "maxAND a b c d = NOT (minOR (NOT b) (NOT a) (NOT d) (NOT c))"
  unfolding maxAND_def minOR_def top_bit by (rule maxAND_dual) simp

lemma minAND_min:
  assumes "a \<le> x" "x \<le> b" "c \<le> y" "y \<le> d" shows "minAND a b c d \<le> x AND y"
  using maxOR_max [of "NOT b" "NOT x" "NOT a" "NOT d" "NOT y" "NOT c"] assms
  by (metis (no_types) minAND_eq not_le_not bit.de_Morgan_disj bit.double_compl)

lemma maxAND_max:
  assumes "a \<le> x" "x \<le> b" "c \<le> y" "y \<le> d" shows "x AND y \<le> maxAND a b c d"
  using minOR_min [of "NOT b" "NOT x" "NOT a" "NOT d" "NOT y" "NOT c"] assms
  by (metis (no_types) maxAND_eq not_le_not bit.de_Morgan_disj bit.double_compl)

lemma box_not:
  "(a \<le> NOT x \<and> NOT x \<le> b) \<longleftrightarrow> (NOT b \<le> x \<and> x \<le> NOT (a::u64))"
  using not_le_not [of "NOT x" a] not_le_not [of b "NOT x"] by auto

lemma minAND_attained:
  assumes "a \<le> b" "c \<le> d"
  shows "\<exists>x y. minAND a b c d = x AND y \<and> a \<le> x \<and> x \<le> b \<and> c \<le> y \<and> y \<le> d"
proof -
  obtain x y where "maxOR (NOT b) (NOT a) (NOT d) (NOT c) = x OR y"
    "NOT b \<le> x \<and> x \<le> NOT a" "NOT d \<le> y \<and> y \<le> NOT c"
    unfolding maxOR_def top_bit using maxOR_attained [of 64 "NOT b" "NOT a" "NOT d" "NOT c"] assms
    by (auto simp: not_le_not)
  then show ?thesis
    unfolding box_not [symmetric]
    by (intro exI [of _ "NOT x"] exI [of _ "NOT y"]) (simp add: minAND_eq bit.de_Morgan_disj)
qed

lemma maxAND_attained:
  assumes "a \<le> b" "c \<le> d"
  shows "\<exists>x y. maxAND a b c d = x AND y \<and> a \<le> x \<and> x \<le> b \<and> c \<le> y \<and> y \<le> d"
proof -
  obtain x y where "minOR (NOT b) (NOT a) (NOT d) (NOT c) = x OR y"
    "NOT b \<le> x \<and> x \<le> NOT a" "NOT d \<le> y \<and> y \<le> NOT c"
    unfolding minOR_def top_bit using minOR_attained [of 64 "NOT b" "NOT a" "NOT d" "NOT c"] assms
    by (auto simp: not_le_not)
  then show ?thesis
    unfolding box_not [symmetric]
    by (intro exI [of _ "NOT x"] exI [of _ "NOT y"]) (simp add: maxAND_eq bit.de_Morgan_disj)
qed

end
