(* ===== verification/ValueRange.thy ===== *)
theory ValueRange
  imports BitBounds Expr
begin

unbundle bit_operations_syntax

section \<open>Ranges of values (FastCexSolver.cpp: ValueRange)\<close>

text \<open>
  An interval of 64-bit words with the operations of \<^verbatim>\<open>class ValueRange\<close>. Overloads have names of their
  own: \<open>range_\<close> is put before names the library uses. Assertions and the loop of \<^verbatim>\<open>binaryXor\<close>, which may
  not end, make an operation partial. \<open>in_range\<close> reads a range as the set of its values, and
  \<open>range_of r w v\<close> says that \<open>v\<close> is one of them and all of them are \<open>w\<close>-bit values.
\<close>

subsection \<open>class ValueRange\<close>

record value_range =
  m_min :: u64
  m_max :: u64

text \<open>The constructors: the empty range, a constant, a value, bounds.\<close>

definition range_empty :: value_range where
  "range_empty = \<lparr>m_min = 1, m_max = 0\<rparr>"

definition range_value :: "u64 \<Rightarrow> value_range" where
  "range_value v = \<lparr>m_min = v, m_max = v\<rparr>"

definition range_bounds :: "u64 \<Rightarrow> u64 \<Rightarrow> value_range" where
  "range_bounds l h = \<lparr>m_min = l, m_max = h\<rparr>"

definition range_const :: "apint \<Rightarrow> value_range" where
  "range_const c = (let v = word_of_int (ap_getLimitedValue c (2 ^ 64 - 1)) in \<lparr>m_min = v, m_max = v\<rparr>)"

definition isEmpty :: "value_range \<Rightarrow> bool" where
  "isEmpty r \<longleftrightarrow> m_min r > m_max r"

definition set_intersection :: "value_range \<Rightarrow> value_range \<Rightarrow> value_range" where
  "set_intersection r b = range_bounds (max (m_min r) (m_min b)) (min (m_max r) (m_max b))"

definition intersects :: "value_range \<Rightarrow> value_range \<Rightarrow> bool" where
  "intersects r b \<longleftrightarrow> \<not> isEmpty (set_intersection r b)"

definition range_contains :: "value_range \<Rightarrow> u64 \<Rightarrow> bool" where
  "range_contains r v \<longleftrightarrow> intersects r (range_value v)"

definition isFullRange :: "value_range \<Rightarrow> nat \<Rightarrow> bool" where
  "isFullRange r bits \<longleftrightarrow> m_min r = 0 \<and> m_max r = maxValueOfNBits bits"

definition set_union :: "value_range \<Rightarrow> value_range \<Rightarrow> value_range" where
  "set_union r b = range_bounds (min (m_min r) (m_min b)) (max (m_max r) (m_max b))"

definition set_difference :: "value_range \<Rightarrow> value_range \<Rightarrow> value_range" where
  "set_difference r b =
     (if isEmpty b \<or> m_min b > m_max r \<or> m_max b < m_min r then r
      else if m_min b \<le> m_min r \<and> m_max b \<ge> m_max r then range_bounds 1 0
      else if m_min b \<le> m_min r then range_bounds (m_max b + 1) (m_max r)
      else if m_max b \<ge> m_max r then range_bounds (m_min r) (m_min b - 1)
      else range_bounds (m_min r) (m_min b - 1))"

definition isFixed :: "value_range \<Rightarrow> bool" where
  "isFixed r \<longleftrightarrow> m_min r = m_max r"

text \<open>\<^verbatim>\<open>binaryAnd\<close>, \<^verbatim>\<open>binaryOr\<close>: \<open>None\<close> is the failed assertion that no argument is empty.\<close>

definition range_and :: "value_range \<Rightarrow> value_range \<Rightarrow> value_range option" where
  "range_and r b =
     (if isEmpty r \<or> isEmpty b then None
      else if isFixed r \<and> isFixed b then Some (range_value (m_min r AND m_min b))
      else Some (range_bounds (minAND (m_min r) (m_max r) (m_min b) (m_max b))
                              (maxAND (m_min r) (m_max r) (m_min b) (m_max b))))"

definition range_or :: "value_range \<Rightarrow> value_range \<Rightarrow> value_range option" where
  "range_or r b =
     (if isEmpty r \<or> isEmpty b then None
      else if isFixed r \<and> isFixed b then Some (range_value (m_min r OR m_min b))
      else Some (range_bounds (minOR (m_min r) (m_max r) (m_min b) (m_max b))
                              (maxOR (m_min r) (m_max r) (m_min b) (m_max b))))"

text \<open>The loop of \<^verbatim>\<open>binaryXor\<close> does not end at \<open>t = 0\<close>.\<close>

partial_function (option) xor_loop :: "u64 \<Rightarrow> u64 option" where
  "xor_loop t = (if isPowerOfTwo t then Some t else xor_loop (withoutRightmostBit t))"

definition range_xor :: "value_range \<Rightarrow> value_range \<Rightarrow> value_range option" where
  "range_xor r b =
     (if isFixed r \<and> isFixed b then Some (range_value (m_min r XOR m_min b))
      else map_option (\<lambda>t. range_bounds 0 (push_bit 1 t - 1)) (xor_loop (m_max r OR m_max b)))"

definition binaryShiftLeft :: "value_range \<Rightarrow> nat \<Rightarrow> value_range" where
  "binaryShiftLeft r bits = range_bounds (push_bit bits (m_min r)) (push_bit bits (m_max r))"

definition binaryShiftRight :: "value_range \<Rightarrow> nat \<Rightarrow> value_range" where
  "binaryShiftRight r bits = range_bounds (drop_bit bits (m_min r)) (drop_bit bits (m_max r))"

definition range_concat :: "value_range \<Rightarrow> value_range \<Rightarrow> nat \<Rightarrow> value_range option" where
  "range_concat r b bits = range_or (binaryShiftLeft r bits) b"

definition range_extract :: "value_range \<Rightarrow> nat \<Rightarrow> nat \<Rightarrow> value_range option" where
  "range_extract r lowBit maxBit =
     range_and (binaryShiftRight r lowBit) (range_value (maxValueOfNBits (maxBit - lowBit)))"

text \<open>\<^verbatim>\<open>add\<close>, \<^verbatim>\<open>sub\<close>, \<^verbatim>\<open>mul\<close>, \<^verbatim>\<open>udiv\<close>, \<^verbatim>\<open>sdiv\<close>, \<^verbatim>\<open>urem\<close>, \<^verbatim>\<open>srem\<close> have the same body.\<close>

definition range_arith :: "binop \<Rightarrow> value_range \<Rightarrow> value_range \<Rightarrow> nat \<Rightarrow> value_range" where
  "range_arith k r b width = range_bounds 0 (maxValueOfNBits width)"

definition mustEqual_value :: "value_range \<Rightarrow> u64 \<Rightarrow> bool" where
  "mustEqual_value r b \<longleftrightarrow> m_min r = m_max r \<and> m_min r = b"

definition mayEqual_value :: "value_range \<Rightarrow> u64 \<Rightarrow> bool" where
  "mayEqual_value r b \<longleftrightarrow> m_min r \<le> b \<and> m_max r \<ge> b"

definition mustEqual :: "value_range \<Rightarrow> value_range \<Rightarrow> bool" where
  "mustEqual r b \<longleftrightarrow> isFixed r \<and> isFixed b \<and> m_min r = m_min b"

definition mayEqual :: "value_range \<Rightarrow> value_range \<Rightarrow> bool" where
  "mayEqual r b \<longleftrightarrow> intersects r b"

definition range_min :: "value_range \<Rightarrow> u64 option" where
  "range_min r = (if isEmpty r then None else Some (m_min r))"

definition range_max :: "value_range \<Rightarrow> u64 option" where
  "range_max r = (if isEmpty r then None else Some (m_max r))"

text \<open>
  \<^verbatim>\<open>minSigned\<close>, \<^verbatim>\<open>maxSigned\<close>. The assertion shifts by \<open>bits\<close>, which C++ defines below 64 only.
\<close>

definition range_within :: "value_range \<Rightarrow> nat \<Rightarrow> bool" where
  "range_within r bits \<longleftrightarrow> bits < 64 \<and> drop_bit bits (m_min r) = 0 \<and> drop_bit bits (m_max r) = 0"

definition minSigned :: "value_range \<Rightarrow> nat \<Rightarrow> int option" where
  "minSigned r bits =
     (if \<not> range_within r bits then None
      else let smallest = push_bit (bits - 1) 1
        in if m_max r \<ge> smallest then Some (sint (ints_sext smallest 64 bits))
           else Some (sint (m_min r)))"

definition maxSigned :: "value_range \<Rightarrow> nat \<Rightarrow> int option" where
  "maxSigned r bits =
     (if \<not> range_within r bits then None
      else let smallest = push_bit (bits - 1) 1
        in if m_min r < smallest \<and> m_max r \<ge> smallest then Some (sint (smallest - 1))
           else Some (sint (ints_sext (m_max r) 64 bits)))"


subsection \<open>What a range stands for\<close>

text \<open>The values in a range, and ranges of \<open>w\<close>-bit values.\<close>

definition in_range :: "value_range \<Rightarrow> int \<Rightarrow> bool" where
  "in_range r v \<longleftrightarrow> uint (m_min r) \<le> v \<and> v \<le> uint (m_max r)"

definition below :: "value_range \<Rightarrow> nat \<Rightarrow> bool" where
  "below r w \<longleftrightarrow> uint (m_max r) < 2 ^ w"

definition range_of :: "value_range \<Rightarrow> nat \<Rightarrow> int \<Rightarrow> bool" where
  "range_of r w v \<longleftrightarrow> in_range r v \<and> below r w"

lemma in_range_word: "in_range r (uint x) \<longleftrightarrow> m_min r \<le> x \<and> x \<le> m_max r"
  by (simp add: in_range_def word_le_def)

lemma in_rangeE:
  assumes "in_range r v"
  obtains x where "v = uint x" "m_min r \<le> x" "x \<le> m_max r"
proof -
  have "0 \<le> v" "v < 2 ^ 64"
    using assms uint_bounded [of "m_max r"] unsigned_greater_eq [of "m_min r", where ?'a = int]
    using order_trans by (auto simp: in_range_def)
  then have "v = uint (word_of_int v :: u64)" by (simp add: uint_word_of_int_eq take_bit_int_eq_self)
  with assms that show ?thesis by (metis in_range_word)
qed

lemma in_range_nonempty: "in_range r v \<Longrightarrow> \<not> isEmpty r"
  by (auto simp: isEmpty_def in_range_def word_less_def)

lemma range_fields [simp]:
  "m_min (range_bounds l h) = l" "m_max (range_bounds l h) = h"
  "m_min (range_value x) = x" "m_max (range_value x) = x" "m_min range_empty = 1" "m_max range_empty = 0"
  by (simp_all add: range_bounds_def range_value_def range_empty_def)

lemma in_range_simps [simp]:
  "in_range (range_bounds l h) v \<longleftrightarrow> uint l \<le> v \<and> v \<le> uint h"
  "in_range (range_value x) v \<longleftrightarrow> v = uint x"
  "\<not> in_range range_empty v"
  "below (range_bounds l h) w \<longleftrightarrow> uint h < 2 ^ w"
  "below (range_value x) w \<longleftrightarrow> uint x < 2 ^ w"
  by (auto simp: in_range_def below_def)

lemma below_inr: "uint (x::u64) < 2 ^ w \<longleftrightarrow> inr w (uint x)"
  by (simp add: inr_def)

lemma range_ofD: "range_of r w v \<Longrightarrow> inr w v"
  by (auto simp: range_of_def in_range_def below_def inr_def intro: order_trans [OF unsigned_greater_eq])

lemma in_range_const:
  "wf_ap c \<Longrightarrow> getBitWidth c \<le> 64 \<Longrightarrow> range_const c = range_value (word_of_int (getZExtValue c)) \<and>
    range_of (range_const c) (getBitWidth c) (getZExtValue c)"
proof -
  assume c: "wf_ap c" "getBitWidth c \<le> 64"
  then have "inr 64 (getZExtValue c)" by (auto simp: wf_ap_def intro: inr_mono)
  then have v: "0 \<le> getZExtValue c" "getZExtValue c < 2 ^ 64" by (auto simp: inr_def)
  then have e: "range_const c = range_value (word_of_int (getZExtValue c))"
    by (simp add: range_const_def ap_getLimitedValue_def range_value_def Let_def)
  have "uint (word_of_int (getZExtValue c) :: u64) = getZExtValue c"
    using v by (simp add: uint_word_of_int_eq take_bit_int_eq_self)
  with c show ?thesis by (simp add: e range_of_def wf_ap_def inr_def)
qed

lemma in_range_intersection:
  "in_range (set_intersection a b) v \<longleftrightarrow> in_range a v \<and> in_range b v"
  by (auto simp: set_intersection_def in_range_def word_le_def max_def min_def)

lemma in_range_union: "in_range a v \<or> in_range b v \<Longrightarrow> in_range (set_union a b) v"
  by (auto simp: set_union_def in_range_def word_le_def max_def min_def)

lemma below_union: "below a w \<Longrightarrow> below b w \<Longrightarrow> below (set_union a b) w"
  by (auto simp: set_union_def below_def max_def)

lemma nonempty_in_range: "\<not> isEmpty r \<longleftrightarrow> (\<exists>v. in_range r v)"
  by (auto simp: isEmpty_def in_range_def word_less_def not_less intro: exI [of _ "uint (m_min r)"])

lemma intersects_iff: "intersects a b \<longleftrightarrow> (\<exists>v. in_range a v \<and> in_range b v)"
  by (simp add: intersects_def nonempty_in_range in_range_intersection)

lemma in_range_difference:
  "(in_range (set_difference a b) v \<longrightarrow> in_range a v \<and> \<not> in_range b v) \<and>
   (\<not> (m_min a < m_min b \<and> m_max b < m_max a) \<longrightarrow> in_range a v \<longrightarrow> \<not> in_range b v \<longrightarrow>
      in_range (set_difference a b) v)"
proof -
  have s: "uint (m_max b + 1) = uint (m_max b) + 1" if "m_max b < m_max a"
    using that uint_bounded [of "m_max a"] by (simp add: uint_word_ariths word_less_def)
  have p: "uint (m_min b - 1) = uint (m_min b) - 1" if "m_min a < m_min b"
  proof -
    have "uint (m_min b - 1) = (uint (m_min b) - 1) mod 2 ^ 64" by (simp add: uint_word_ariths)
    also have "\<dots> = uint (m_min b) - 1"
    proof (rule mod_pos_pos_trivial)
      show "0 \<le> uint (m_min b) - 1"
        using that order_le_less_trans [OF unsigned_greater_eq [of "m_min a", where ?'a = int]]
        by (simp add: word_less_def)
      show "uint (m_min b) - 1 < 2 ^ 64" using uint_bounded [of "m_min b"] by simp
    qed
    finally show ?thesis .
  qed
  show ?thesis
    unfolding set_difference_def
    by (simp add: isEmpty_def) (auto simp: in_range_def word_le_def word_less_def not_le not_less s p)
qed

lemma isFixedD: "isFixed r \<Longrightarrow> in_range r v \<longleftrightarrow> v = uint (m_min r)"
  by (auto simp: isFixed_def in_range_def)

lemma mustEqualD: "mustEqual a b \<Longrightarrow> in_range a v \<Longrightarrow> in_range b w \<Longrightarrow> v = w"
  by (simp add: mustEqual_def isFixedD)

lemma mayEqualI: "in_range a v \<Longrightarrow> in_range b v \<Longrightarrow> mayEqual a b"
  by (auto simp: mayEqual_def intersects_iff)

lemma mustEqual_valueD: "mustEqual_value a b \<Longrightarrow> in_range a v \<Longrightarrow> v = uint b"
  by (auto simp: mustEqual_value_def in_range_def)

lemma uint_mask_64: "w \<le> 64 \<Longrightarrow> uint (mask w :: u64) = 2 ^ w - 1"
proof -
  assume w: "w \<le> 64"
  have "uint (mask w :: u64) = take_bit 64 (mask w)"
    by (rule bit_eqI) (auto simp: bit_simps)
  also have "\<dots> = mask w" using w by (intro bit_eqI) (auto simp: bit_simps)
  finally show ?thesis by (simp add: mask_eq_exp_minus_1)
qed

lemma uint_maxValue: "w \<le> 64 \<Longrightarrow> uint (maxValueOfNBits w) = 2 ^ w - 1"
  by (simp add: maxValue_mask uint_mask_64)

lemma full_range: "w \<le> 64 \<Longrightarrow> inr w v \<Longrightarrow> range_of (range_bounds 0 (maxValueOfNBits w)) w v"
  by (simp add: range_of_def uint_maxValue inr_def)

lemma isFullRangeD: "isFullRange r w \<Longrightarrow> w \<le> 64 \<Longrightarrow> inr w v \<Longrightarrow> in_range r v"
  by (auto simp: isFullRange_def in_range_def uint_maxValue inr_def)

subsection \<open>The bitwise operations are sound\<close>

lemma uint_and_le: "uint (x AND y :: u64) \<le> uint x" "uint (x AND y) \<le> uint y"
  using AND_upper1 [of "uint x" "uint y"] AND_upper2 [of "uint y" "uint x"] by (simp_all add: unsigned_and_eq)

lemma range_and_sound:
  assumes "in_range a v" "in_range b u"
  shows "\<exists>r. range_and a b = Some r \<and> in_range r (v AND u) \<and> (below a w \<or> below b w \<longrightarrow> below r w)"
proof -
  obtain x y where x: "v = uint x" "m_min a \<le> x" "x \<le> m_max a" and y: "u = uint y" "m_min b \<le> y" "y \<le> m_max b"
    using assms by (metis in_rangeE)
  have vu: "v AND u = uint (x AND y)" using x y by (simp add: unsigned_and_eq)
  obtain p q where pq: "maxAND (m_min a) (m_max a) (m_min b) (m_max b) = p AND q" "p \<le> m_max a" "q \<le> m_max b"
    using maxAND_attained [of "m_min a" "m_max a" "m_min b" "m_max b"] x y by (meson order_trans)
  have bnd: "below a w \<or> below b w \<longrightarrow> uint (p AND q) < 2 ^ w" if "p \<le> m_max a" "q \<le> m_max b" for p q
    using that uint_and_le [of p q] by (auto simp: below_def word_le_def)
  have "x = m_min a \<and> y = m_min b \<and> m_min a \<le> m_max a \<and> m_min b \<le> m_max b" if "isFixed a" "isFixed b"
    using that x y by (auto simp: isFixed_def)
  then show ?thesis
    using in_range_nonempty [OF assms(1)] in_range_nonempty [OF assms(2)] bnd [OF pq(2,3)]
      bnd [of "m_min a" "m_min b"] minAND_min [OF x(2,3) y(2,3)] maxAND_max [OF x(2,3) y(2,3)] pq(1)
    by (auto simp: range_and_def vu word_le_def)
qed

lemma range_or_sound:
  assumes "in_range a v" "in_range b u"
  shows "\<exists>r. range_or a b = Some r \<and> in_range r (v OR u) \<and> (below a w \<longrightarrow> below b w \<longrightarrow> below r w)"
proof -
  obtain x y where x: "v = uint x" "m_min a \<le> x" "x \<le> m_max a" and y: "u = uint y" "m_min b \<le> y" "y \<le> m_max b"
    using assms by (metis in_rangeE)
  have vu: "v OR u = uint (x OR y)" using x y by (simp add: unsigned_or_eq)
  obtain p q where pq: "maxOR (m_min a) (m_max a) (m_min b) (m_max b) = p OR q" "p \<le> m_max a" "q \<le> m_max b"
    using maxOR_box [of "m_min a" "m_max a" "m_min b" "m_max b"] x y by (meson order_trans)
  have o: "below a w \<longrightarrow> below b w \<longrightarrow> p \<le> m_max a \<longrightarrow> q \<le> m_max b \<longrightarrow> uint (p OR q) < 2 ^ w" for p q
  proof (intro impI)
    assume "below a w" "below b w" "p \<le> m_max a" "q \<le> m_max b"
    then have "inr w (uint p)" "inr w (uint q)" by (auto simp: below_def word_le_def inr_def)
    then show "uint (p OR q) < 2 ^ w" using inr_or [of w "uint p" "uint q"] by (simp add: unsigned_or_eq inr_def)
  qed
  have "x = m_min a \<and> y = m_min b \<and> m_min a \<le> m_max a \<and> m_min b \<le> m_max b" if "isFixed a" "isFixed b"
    using that x y by (auto simp: isFixed_def)
  then show ?thesis
    using in_range_nonempty [OF assms(1)] in_range_nonempty [OF assms(2)] o [of p q] o [of "m_min a" "m_min b"] pq
      minOR_min [OF x(2,3) y(2,3)] maxOR_max [OF x(2,3) y(2,3)]
    by (auto simp: range_or_def vu word_le_def)
qed


lemma xor_loop_ends:
  assumes "bit t k" "\<forall>j>k. \<not> bit t j" "k < 64"
  shows "xor_loop t = Some (2 ^ k)"
  using assms
proof (induction "unat t" arbitrary: t rule: less_induct)
  case less
  show ?case
  proof (cases "isPowerOfTwo t")
    case True
    then obtain j where "j < 64" "t = 2 ^ j" by (auto simp: isPowerOfTwo_iff)
    moreover have "j = k" using calculation less.prems(1) by (simp add: bit_simps)
    ultimately show ?thesis using True by (subst xor_loop.simps) simp
  next
    case False
    have "t \<noteq> 0" using less.prems(1) by auto
    then obtain i where i: "bit t i" "\<forall>j<i. \<not> bit t j" "i < 64" by (rule lowest_bit)
    have r: "withoutRightmostBit t = unset_bit i t"
      using i by (simp add: withoutRightmostBit_eq isolateRightmostBit_eq unset_bit_eq)
    have "i \<noteq> k"
    proof
      assume "i = k"
      with i less.prems have "t = 2 ^ k"
        by (intro bit_word_eqI) (metis bit_exp_iff not_less_iff_gr_or_eq possible_bit_word)
      with False less.prems show False by (auto simp: isPowerOfTwo_iff)
    qed
    moreover have "unat (unset_bit i t) < unat t"
    proof -
      have "drop_bit (Suc i) (unset_bit i t) = drop_bit (Suc i) t"
        by (rule bit_word_eqI) (auto simp: bit_simps)
      then have "unset_bit i t < t" by (rule bit_less) (use i in \<open>simp_all add: bit_unset_bit_iff\<close>)
      then show ?thesis by (simp only: word_less_nat_alt)
    qed
    ultimately have "xor_loop (unset_bit i t) = Some (2 ^ k)"
      using less by (intro less.hyps) (auto simp: bit_simps)
    with False show ?thesis by (subst xor_loop.simps) (simp add: r)
  qed
qed

lemma highest_bit:
  assumes "t \<noteq> (0::u64)"
  obtains k where "bit t k" "\<forall>j>k. \<not> bit t j" "k < 64"
proof -
  let ?B = "{n. bit t n}"
  have fin: "finite ?B" by (rule finite_subset [of _ "{..<64}"]) (auto dest: bit_imp_le_length)
  have "?B \<noteq> {}" using assms bit_eqI [of t 0] by auto
  then have m: "bit t (Max ?B)" using Max_in [OF fin] by simp
  moreover have "\<forall>j>Max ?B. \<not> bit t j" using Max_ge [OF fin] by (metis mem_Collect_eq leD)
  moreover have "Max ?B < 64" using bit_imp_le_length [OF m] by simp
  ultimately show ?thesis by (rule that)
qed

text \<open>With the highest bit \<open>k\<close> of \<open>t\<close>, the bound \<open>(t << 1) - 1\<close> of the loop's result is \<open>2 ^ (k + 1) - 1\<close>,
  also when the shift wraps.\<close>

lemma xor_bound: "k < 64 \<Longrightarrow> push_bit 1 (2 ^ k :: u64) - 1 = mask (Suc k)"
  by (simp add: mask_eq_exp_minus_1)

lemma range_xor_sound:
  assumes "in_range a v" "in_range b u"
  shows "\<exists>r. range_xor a b = Some r \<and> in_range r (v XOR u) \<and> (below a w \<longrightarrow> below b w \<longrightarrow> below r w)"
proof (cases "isFixed a \<and> isFixed b")
  case True
  with assms have "v = uint (m_min a)" "u = uint (m_min b)" by (simp_all add: isFixedD)
  with True show ?thesis
    using inr_xor [of w "uint (m_min a)" "uint (m_min b)"]
    by (auto simp: range_xor_def unsigned_xor_eq below_def isFixed_def inr_def)
next
  case False
  let ?t = "m_max a OR m_max b"
  have "?t \<noteq> 0"
  proof
    assume z: "?t = 0"
    then have "m_max a = 0" "m_max b = 0" by (metis or_eq_0_iff)+
    moreover have "m_min a \<le> m_max a" "m_min b \<le> m_max b"
      using in_range_nonempty assms by (auto simp: isEmpty_def not_less)
    ultimately show False using False by (simp add: isFixed_def)
  qed
  then obtain k where k: "bit ?t k" "\<forall>j>k. \<not> bit ?t j" "k < 64" by (rule highest_bit)
  have t: "uint ?t < 2 ^ Suc k"
  proof -
    have "take_bit (Suc k) (uint ?t) = uint ?t"
      using k(2) by (intro bit_eqI) (simp only: bit_take_bit_iff bit_uint_iff, auto simp del: bit_or_iff simp: not_less_eq)
    then show ?thesis by (metis inr_iff_take_bit inr_less)
  qed
  have m: "uint (mask (Suc k) :: u64) = 2 ^ Suc k - 1" using k(3) by (intro uint_mask_64) simp
  have "inr (Suc k) z" if "in_range r z" "m_max r \<le> ?t" for r z
  proof -
    have "0 \<le> z" "z \<le> uint ?t" using that order_trans by (auto simp: in_range_def word_le_def)
    with t show ?thesis by (simp add: inr_def)
  qed
  then have "inr (Suc k) v" "inr (Suc k) u"
    using assms or_ge2 [of "m_max b" "m_max a"] or_ge2 [of "m_max a" "m_max b"] by (simp_all add: or.commute)
  then have "inr (Suc k) (v XOR u)" by (rule inr_xor)
  moreover have "2 ^ Suc k - 1 < (2::int) ^ w" if "below a w" "below b w"
  proof -
    have "inr w (uint ?t)" using that inr_or [of w "uint (m_max a)" "uint (m_max b)"]
      by (simp add: below_def below_inr unsigned_or_eq)
    then have "take_bit w (uint ?t) = uint ?t" by (simp only: take_bit_inr)
    then have "bit (take_bit w (uint ?t)) k" using k(1,3) by (simp only: bit_uint_iff, simp)
    then have "k < w" by (simp only: bit_take_bit_iff)
    then have "(2::int) ^ Suc k \<le> 2 ^ w" by (intro power_increasing) auto
    then show ?thesis by linarith
  qed
  moreover have "range_xor a b = Some (range_bounds 0 (mask (Suc k)))"
    using False by (simp only: range_xor_def xor_loop_ends [OF k] xor_bound [OF k(3)] if_False option.map)
  ultimately show ?thesis
    by (intro exI [of _ "range_bounds 0 (mask (Suc k))"]) (simp add: m inr_def)
qed


lemma uint_drop: "uint (drop_bit n (x::u64)) = uint x div 2 ^ n"
proof -
  have "take_bit 64 (uint x) = uint x" using uint_bounded [of x] by (simp add: take_bit_int_eq_self)
  then show ?thesis using unsigned_drop_bit_eq [of n x, where ?'a = int] by (simp only: len_num0 len_bit0 drop_bit_eq_div, simp)
qed

lemma shift_left_sound:
  assumes "in_range a v" "below a n" "n + bits \<le> 64"
  shows "in_range (binaryShiftLeft a bits) (push_bit bits v) \<and> below (binaryShiftLeft a bits) (n + bits)"
proof -
  have s: "uint (push_bit bits x) = push_bit bits (uint x)" if "uint x < 2 ^ n" for x :: u64
  proof -
    have "take_bit n (uint x) = uint x" using that by (simp add: take_bit_int_eq_self)
    then have "take_bit (n + bits) (push_bit bits (uint x)) = push_bit bits (uint x)"
      by (simp add: take_bit_push_bit)
    then have "take_bit 64 (push_bit bits (uint x)) = push_bit bits (uint x)"
      using assms(3) by (metis min.absorb2 take_bit_take_bit)
    then show ?thesis by (simp add: unsigned_push_bit_eq)
  qed
  have "uint (m_max a) < 2 ^ n" "uint (m_min a) < 2 ^ n"
    using assms by (auto simp: below_def in_range_def)
  then show ?thesis
    using assms s by (simp add: binaryShiftLeft_def in_range_def below_def push_bit_eq_mult power_add)
qed

lemma shift_right_sound:
  assumes "in_range a v"
  shows "in_range (binaryShiftRight a bits) (drop_bit bits v)"
  using assms unfolding binaryShiftRight_def in_range_simps uint_drop drop_bit_eq_div [of bits v]
  by (simp add: zdiv_mono1 in_range_def)

lemma range_concat_sound:
  assumes "in_range a v" "below a n" "in_range b u" "below b bits" "n + bits \<le> 64"
  shows "\<exists>r. range_concat a b bits = Some r \<and> range_of r (n + bits) (concat_bit bits u v)"
proof -
  have u: "take_bit bits u = u"
    using assms(3,4) range_ofD [of b bits u] by (simp add: range_of_def inr_iff_take_bit)
  have "below b (n + bits)"
    using assms(4) by (auto simp: below_def power_add elim!: order.strict_trans2)
  then show ?thesis
    using shift_left_sound [OF assms(1,2,5)] range_or_sound [OF _ assms(3), of "binaryShiftLeft a bits" "push_bit bits v" "n + bits"]
    by (auto simp: range_concat_def range_of_def concat_bit_def u or.commute)
qed

lemma range_extract_sound:
  assumes "in_range a v" "lo \<le> hi" "hi \<le> 64"
  shows "\<exists>r. range_extract a lo hi = Some r \<and> range_of r (hi - lo) (take_bit (hi - lo) (drop_bit lo v))"
proof -
  let ?m = "maxValueOfNBits (hi - lo)"
  have m: "uint ?m = mask (hi - lo)" using assms by (simp add: uint_maxValue mask_eq_exp_minus_1)
  have "in_range (range_value ?m) (mask (hi - lo))" "below (range_value ?m) (hi - lo)"
    using assms by (simp_all add: m uint_maxValue mask_eq_exp_minus_1)
  with range_and_sound [OF shift_right_sound [OF assms(1)] this(1)] show ?thesis
    by (auto simp: range_extract_def range_of_def take_bit_eq_mask)
qed

subsection \<open>Signed bounds\<close>

lemma sval_cases:
  assumes "0 < w" "inr w v" shows "sval w v = (if v < 2 ^ (w - 1) then v else v - 2 ^ w)"
proof -
  have w: "(2::int) ^ w = 2 * 2 ^ (w - 1)" using assms(1) by (cases w) simp_all
  have "bit v (w - 1) \<longleftrightarrow> 2 ^ (w - 1) \<le> v"
  proof (cases "v < 2 ^ (w - 1)")
    case False
    then have "v div 2 ^ (w - 1) = 1"
      using assms w by (intro int_div_pos_eq [where r = "v - 2 ^ (w - 1)"]) (auto simp: inr_def)
    with False show ?thesis by (simp add: bit_iff_odd)
  qed (use assms(2) in \<open>simp add: bit_iff_odd inr_def\<close>)
  then show ?thesis
    using assms by (simp add: sval_def signed_take_bit_eq_take_bit_minus take_bit_inr)
qed

lemma sint_sval: "sint (x::u64) = sval 64 (uint x)"
  by (simp add: sval_def sint_uint)

lemma range_within: "range_of r w v \<Longrightarrow> w < 64 \<Longrightarrow> range_within r w"
proof -
  assume r: "range_of r w v" "w < 64"
  then have "uint (m_max r) div 2 ^ w = 0" "uint (m_min r) div 2 ^ w = 0"
    by (auto simp: range_of_def in_range_def below_def)
  then have "uint (drop_bit w (m_max r)) = 0" "uint (drop_bit w (m_min r)) = 0"
    by (simp_all only: uint_drop)
  then have "drop_bit w (m_max r) = 0" "drop_bit w (m_min r) = 0" by (simp_all only: unsigned_eq_0_iff)
  with r show ?thesis by (simp only: range_within_def simp_thms)
qed

lemma signed_sound:
  assumes "range_of r w v" "0 < w" "w < 64"
  shows "\<exists>s. minSigned r w = Some s \<and> s \<le> sval w v" and "\<exists>s. maxSigned r w = Some s \<and> sval w v \<le> s"
proof -
  let ?s = "push_bit (w - 1) 1 :: u64"
  have p: "(2::int) ^ (w - 1) \<le> 2 ^ 62" using assms by (intro power_increasing) auto
  have s: "uint ?s = 2 ^ (w - 1)" 
    unfolding unsigned_push_bit_eq using p assms(3) by (simp add: take_bit_int_eq_self push_bit_eq_mult)
  have s': "uint (2 ^ (w - Suc 0) :: u64) = 2 ^ (w - Suc 0)" using s by (simp add: push_bit_of_1)
  have s1: "uint (?s - 1) = 2 ^ (w - 1) - 1" using s uint_mask_64 [of "w - 1"] assms by (simp add: push_bit_of_1 mask_eq_exp_minus_1)
  have w2: "(2::int) ^ w = 2 * 2 ^ (w - 1)" using assms(2) by (cases w) simp_all
  have v: "inr w v" using range_ofD assms(1) by blast
  have r: "uint (m_min r) \<le> v" "v \<le> uint (m_max r)" "inr w (uint (m_max r))" "inr w (uint (m_min r))"
    using assms(1) order_trans by (auto simp: range_of_def in_range_def below_def inr_def)
  have small: "sint x = uint x" if "uint x < 2 ^ (w - 1)" for x :: u64
    using that p by (simp add: sint_sval sval_cases inr_def)
  note sv = sval_cases [OF assms(2) v] sval_bounds [OF assms(2), of v] sext_sint [OF assms(2) less_imp_le [OF assms(3)]]
  have "minSigned r w = Some (if 2 ^ (w - 1) \<le> uint (m_max r) then - (2 ^ (w - 1)) else uint (m_min r))"
    using range_within [OF assms(1,3)] small [of "m_min r"] r sv(3) sval_cases [OF assms(2), of "2 ^ (w - 1)"] w2
    by (auto simp: minSigned_def Let_def word_le_def s' inr_def)
  then show "\<exists>s. minSigned r w = Some s \<and> s \<le> sval w v"
    using sv r by (auto split: if_splits)
  have "maxSigned r w = Some (if uint (m_min r) < 2 ^ (w - 1) \<and> 2 ^ (w - 1) \<le> uint (m_max r)
      then 2 ^ (w - 1) - 1 else sval w (uint (m_max r)))"
    using range_within [OF assms(1,3)] small [of "?s - 1"] s1 sv(3)
    by (simp add: maxSigned_def Let_def word_le_def word_less_def s')
  then show "\<exists>s. maxSigned r w = Some s \<and> sval w v \<le> s"
    using sv(1,2) r w2 sval_cases [OF assms(2) r(3)] by (auto split: if_splits)
qed


subsection \<open>Properties\<close>

text \<open>C13: \<^verbatim>\<open>minOR\<close>, \<^verbatim>\<open>maxOR\<close>, \<^verbatim>\<open>minAND\<close> and \<^verbatim>\<open>maxAND\<close> are the exact extremes of \<open>x | y\<close> and \<open>x & y\<close>
  over all \<open>x\<close> in \<open>[a, b]\<close> and \<open>y\<close> in \<open>[c, d]\<close>: no pair goes beyond them and some pair attains each.\<close>

theorem bitwise_bounds_exact:
  assumes "a \<le> b" "c \<le> d"
  shows "(\<forall>x y. a \<le> x \<and> x \<le> b \<and> c \<le> y \<and> y \<le> d \<longrightarrow>
      minOR a b c d \<le> x OR y \<and> x OR y \<le> maxOR a b c d \<and>
      minAND a b c d \<le> x AND y \<and> x AND y \<le> maxAND a b c d) \<and>
    (\<exists>x y. minOR a b c d = x OR y \<and> a \<le> x \<and> x \<le> b \<and> c \<le> y \<and> y \<le> d) \<and>
    (\<exists>x y. maxOR a b c d = x OR y \<and> a \<le> x \<and> x \<le> b \<and> c \<le> y \<and> y \<le> d) \<and>
    (\<exists>x y. minAND a b c d = x AND y \<and> a \<le> x \<and> x \<le> b \<and> c \<le> y \<and> y \<le> d) \<and>
    (\<exists>x y. maxAND a b c d = x AND y \<and> a \<le> x \<and> x \<le> b \<and> c \<le> y \<and> y \<le> d)"
  using minOR_box [OF assms] maxOR_box [OF assms]
    minAND_attained [OF assms] maxAND_attained [OF assms]
  by (simp add: minOR_min maxOR_max minAND_min maxAND_max)

theorem bitwise_bounds_exact_witness:
  "minOR 5 6 9 12 \<le> 6 OR 10 \<and> 6 OR 10 \<le> maxOR 5 6 9 12 \<and> minOR 5 6 9 12 = 13 \<and> maxOR 5 6 9 12 = 15"
proof -
  have "minOR 5 6 9 12 \<le> 6 OR 10 \<and> 6 OR 10 \<le> maxOR 5 6 9 12"
    using bitwise_bounds_exact [of 5 6 9 12, THEN conjunct1, rule_format, of 6 10] by simp
  moreover have "minOR 5 6 9 12 = 13" "maxOR 5 6 9 12 = 15" by code_simp+
  ultimately show ?thesis by blast
qed

text \<open>C14: the operations of \<^verbatim>\<open>ValueRange\<close> over-approximate those on values: for \<open>v\<close> in \<open>a\<close> and \<open>u\<close> in \<open>b\<close>
  no assertion fails, the loop of \<^verbatim>\<open>binaryXor\<close> ends, and \<open>v & u\<close>, \<open>v | u\<close>, \<open>v ^ u\<close> are in the results, as
  are the concatenation of \<open>v\<close> above a \<open>u\<close> of \<open>bits\<close> bits and the bits \<open>[lo, hi)\<close> of \<open>v\<close>; results stay
  within the width of the arguments.\<close>

theorem range_ops_sound:
  assumes "range_of a n v" "range_of b m u" "n + m \<le> 64" "lo \<le> hi" "hi \<le> 64"
  shows "(\<exists>r. range_and a b = Some r \<and> range_of r (min n m) (v AND u)) \<and>
    (\<exists>r. range_or a b = Some r \<and> range_of r (max n m) (v OR u)) \<and>
    (\<exists>r. range_xor a b = Some r \<and> range_of r (max n m) (v XOR u)) \<and>
    (\<exists>r. range_concat a b m = Some r \<and> range_of r (n + m) (concat_bit m u v)) \<and>
    (\<exists>r. range_extract a lo hi = Some r \<and> range_of r (hi - lo) (take_bit (hi - lo) (drop_bit lo v)))"
proof -
  have i: "in_range a v" "in_range b u" "below a n" "below b m" using assms by (auto simp: range_of_def)
  have mx: "below a (max n m)" "below b (max n m)"
    using i power_increasing [of n "max n m" "2::int"] power_increasing [of m "max n m" "2::int"]
    by (auto simp: below_def intro: order.strict_trans2)
  have mn: "below a (min n m) \<or> below b (min n m)" using i by (simp add: min_def)
  show ?thesis
    using range_and_sound [OF i(1,2), of "min n m"] mn range_or_sound [OF i(1,2), of "max n m"]
      range_xor_sound [OF i(1,2), of "max n m"] mx range_concat_sound [OF i(1,3,2,4) assms(3)]
      range_extract_sound [OF i(1) assms(4,5)]
    by (simp add: range_of_def)
qed

theorem range_ops_sound_witness:
  "\<exists>r. range_concat (range_bounds 2 3) (range_bounds 7 9) 8 = Some r \<and> range_of r 16 (concat_bit 8 8 2)"
  using range_ops_sound [of "range_bounds 2 3" 8 2 "range_bounds 7 9" 8 8 0 8] by (simp add: range_of_def)

text \<open>The set operations: intersection is exact, the union contains both ranges, the difference lies
  between the values of \<open>a\<close> outside \<open>b\<close> and itself (the lower part when \<open>b\<close> splits \<open>a\<close>), and \<^verbatim>\<open>mustEqual\<close>
  and \<^verbatim>\<open>mayEqual\<close> decide equality of the values as far as the ranges do.\<close>

lemma range_sets_correct:
  "(in_range (set_intersection a b) v \<longleftrightarrow> in_range a v \<and> in_range b v) \<and>
   (in_range a v \<or> in_range b v \<longrightarrow> in_range (set_union a b) v) \<and>
   (in_range (set_difference a b) v \<longrightarrow> in_range a v \<and> \<not> in_range b v) \<and>
   (\<not> (m_min a < m_min b \<and> m_max b < m_max a) \<longrightarrow> in_range a v \<and> \<not> in_range b v \<longrightarrow>
      in_range (set_difference a b) v) \<and>
   (mustEqual a b \<longrightarrow> in_range a v \<longrightarrow> in_range b u \<longrightarrow> v = u) \<and>
   (mayEqual a b \<longleftrightarrow> (\<exists>x. in_range a x \<and> in_range b x)) \<and>
   (isEmpty a \<longleftrightarrow> (\<forall>x. \<not> in_range a x))"
  using in_range_difference [of a b v] nonempty_in_range [of a]
  by (auto simp: in_range_intersection in_range_union mayEqual_def intersects_iff dest: mustEqualD)

end
