(* ===== verification/RangeEvaluator.thy ===== *)
theory RangeEvaluator
  imports ValueRange ExprCreateSound "HOL-Library.Monad_Syntax"
begin

unbundle bit_operations_syntax

section \<open>Range evaluation of expressions (klee/util/ExprRangeEvaluator.h)\<close>

text \<open>
  The class template \<^verbatim>\<open>ExprRangeEvaluator<T>\<close> as functions of a record with the operations the template
  asks of \<^verbatim>\<open>T\<close> and the virtual \<^verbatim>\<open>getInitialReadRange\<close>; \<open>None\<close> is a failed assertion (or, for
  \<open>vt_xor\<close>, a loop without end). Locale \<open>range_domain\<close> states what such a \<^verbatim>\<open>T\<close> promises, with a
  concretisation \<open>conc r w v\<close> (\<open>v\<close> is a value of \<open>r\<close>, whose values have \<open>w\<close> bits), and proves the
  evaluator total and sound once; \<^verbatim>\<open>ValueRange\<close> with \<^verbatim>\<open>CexRangeEvaluator\<close> is its interpretation.
\<close>

record 't value_type =
  vt_empty :: 't
  vt_const :: "apint \<Rightarrow> 't"
  vt_value :: "u64 \<Rightarrow> 't"
  vt_bounds :: "u64 \<Rightarrow> u64 \<Rightarrow> 't"
  vt_mustEqual_value :: "'t \<Rightarrow> u64 \<Rightarrow> bool"
  vt_mustEqual :: "'t \<Rightarrow> 't \<Rightarrow> bool"
  vt_mayEqual :: "'t \<Rightarrow> 't \<Rightarrow> bool"
  vt_isFullRange :: "'t \<Rightarrow> nat \<Rightarrow> bool"
  vt_union :: "'t \<Rightarrow> 't \<Rightarrow> 't"
  vt_and :: "'t \<Rightarrow> 't \<Rightarrow> 't option"
  vt_or :: "'t \<Rightarrow> 't \<Rightarrow> 't option"
  vt_xor :: "'t \<Rightarrow> 't \<Rightarrow> 't option"
  vt_concat :: "'t \<Rightarrow> 't \<Rightarrow> nat \<Rightarrow> 't option"
  vt_arith :: "binop \<Rightarrow> 't \<Rightarrow> 't \<Rightarrow> nat \<Rightarrow> 't"
  vt_min :: "'t \<Rightarrow> u64 option"
  vt_max :: "'t \<Rightarrow> u64 option"
  vt_minSigned :: "'t \<Rightarrow> nat \<Rightarrow> int option"
  vt_maxSigned :: "'t \<Rightarrow> nat \<Rightarrow> int option"
  vt_initial :: "array \<Rightarrow> 't \<Rightarrow> 't option" \<comment> \<open>\<^verbatim>\<open>getInitialReadRange\<close>\<close>

text \<open>The result after the \<^verbatim>\<open>switch\<close>: every value of \<open>w\<close> bits.\<close>

definition full_range_of :: "'t value_type \<Rightarrow> nat \<Rightarrow> 't" where
  "full_range_of T w = vt_bounds T 0 (maxValueOfNBits w)"

text \<open>The cases of the binary kinds, on the ranges of the operands; \<open>w\<close> is the width of the left one.\<close>

fun range_binary :: "'t value_type \<Rightarrow> binop \<Rightarrow> nat \<Rightarrow> 't option \<Rightarrow> 't option \<Rightarrow> 't option" where
  "range_binary T And w l r = do { a \<leftarrow> l; b \<leftarrow> r; vt_and T a b }"
| "range_binary T Or w l r = do { a \<leftarrow> l; b \<leftarrow> r; vt_or T a b }"
| "range_binary T Xor w l r = do { a \<leftarrow> l; b \<leftarrow> r; vt_xor T a b }"
| "range_binary T Shl w l r = Some (full_range_of T w)"
| "range_binary T LShr w l r = Some (full_range_of T w)"
| "range_binary T AShr w l r = Some (full_range_of T w)"
| "range_binary T Eq w l r = do {
     a \<leftarrow> l; b \<leftarrow> r;
     if vt_mustEqual T a b then Some (vt_value T 1)
     else if \<not> vt_mayEqual T a b then Some (vt_value T 0)
     else Some (full_range_of T 1) }"
| "range_binary T Ult w l r = do {
     a \<leftarrow> l; b \<leftarrow> r; amax \<leftarrow> vt_max T a; bmin \<leftarrow> vt_min T b;
     if amax < bmin then Some (vt_value T 1)
     else do { amin \<leftarrow> vt_min T a; bmax \<leftarrow> vt_max T b;
       if amin \<ge> bmax then Some (vt_value T 0) else Some (full_range_of T 1) } }"
| "range_binary T Ule w l r = do {
     a \<leftarrow> l; b \<leftarrow> r; amax \<leftarrow> vt_max T a; bmin \<leftarrow> vt_min T b;
     if amax \<le> bmin then Some (vt_value T 1)
     else do { amin \<leftarrow> vt_min T a; bmax \<leftarrow> vt_max T b;
       if amin > bmax then Some (vt_value T 0) else Some (full_range_of T 1) } }"
| "range_binary T Slt w l r = do {
     a \<leftarrow> l; b \<leftarrow> r; amax \<leftarrow> vt_maxSigned T a w; bmin \<leftarrow> vt_minSigned T b w;
     if amax < bmin then Some (vt_value T 1)
     else do { amin \<leftarrow> vt_minSigned T a w; bmax \<leftarrow> vt_maxSigned T b w;
       if amin \<ge> bmax then Some (vt_value T 0) else Some (full_range_of T 1) } }"
| "range_binary T Sle w l r = do {
     a \<leftarrow> l; b \<leftarrow> r; amax \<leftarrow> vt_maxSigned T a w; bmin \<leftarrow> vt_minSigned T b w;
     if amax \<le> bmin then Some (vt_value T 1)
     else do { amin \<leftarrow> vt_minSigned T a w; bmax \<leftarrow> vt_maxSigned T b w;
       if amin > bmax then Some (vt_value T 0) else Some (full_range_of T 1) } }"
| "range_binary T Ne w l r = None"
| "range_binary T Ugt w l r = None"
| "range_binary T Uge w l r = None"
| "range_binary T Sgt w l r = None"
| "range_binary T Sge w l r = None"
| "range_binary T k w l r = do { a \<leftarrow> l; b \<leftarrow> r; Some (vt_arith T k a b w) }"

primrec range_eval :: "'t value_type \<Rightarrow> expr \<Rightarrow> 't option"
  and range_evalRead :: "'t value_type \<Rightarrow> updates \<Rightarrow> array \<Rightarrow> 't \<Rightarrow> 't \<Rightarrow> 't option" where
  "range_eval T (ConstantExpr c) = Some (vt_const T c)"
| "range_eval T (NotOptimizedExpr e) = Some (full_range_of T (getWidth e))"
| "range_eval T (ReadExpr a us i) = do {
     index \<leftarrow> range_eval T i;
     range_evalRead T us a index (vt_empty T) }"
| "range_eval T (SelectExpr c t f) = do {
     cond \<leftarrow> range_eval T c;
     if vt_mustEqual_value T cond 1 then range_eval T t
     else if vt_mustEqual_value T cond 0 then range_eval T f
     else do { x \<leftarrow> range_eval T t; y \<leftarrow> range_eval T f; Some (vt_union T x y) } }"
| "range_eval T (ConcatExpr l r) = do {
     x \<leftarrow> range_eval T l; res \<leftarrow> vt_concat T (vt_value T 0) x 8;
     y \<leftarrow> range_eval T r; vt_concat T res y 8 }"
| "range_eval T (ExtractExpr e off w) = Some (full_range_of T w)"
| "range_eval T (ZExtExpr e w) = Some (full_range_of T w)"
| "range_eval T (SExtExpr e w) = Some (full_range_of T w)"
| "range_eval T (NotExpr e) = Some (full_range_of T (getWidth e))"
| "range_eval T (BinaryExpr k l r) =
     range_binary T k (getWidth l) (range_eval T l) (range_eval T r)"
| "range_evalRead T UpdateNil a index res = do {
     x \<leftarrow> vt_initial T a index; Some (vt_union T res x) }"
| "range_evalRead T (UpdateNode ui uv n) a index res = do {
     u \<leftarrow> range_eval T ui;
     if vt_mustEqual T u index then do { v \<leftarrow> range_eval T uv; Some (vt_union T res v) }
     else if vt_mayEqual T u index then do {
       v \<leftarrow> range_eval T uv;
       let res' = vt_union T res v in
         if vt_isFullRange T res' 8 then Some res' else range_evalRead T n a index res' }
     else range_evalRead T n a index res }"

text \<open>
  Where the evaluator can be trusted: at most 64 bits, arrays of bytes, concatenations whose second
  part is a byte, canonical comparisons, signed ones below 64 bits.
\<close>

primrec range_ok :: "expr \<Rightarrow> bool" and range_ok_updates :: "updates \<Rightarrow> bool" where
  "range_ok (ConstantExpr c) = (getBitWidth c \<le> 64)"
| "range_ok (NotOptimizedExpr e) = (getWidth e \<le> 64)"
| "range_ok (ReadExpr a us i) = (arr_range a = 8 \<and> range_ok_updates us \<and> range_ok i)"
| "range_ok (SelectExpr c t f) = (range_ok c \<and> range_ok t \<and> range_ok f)"
| "range_ok (ConcatExpr l r) = (range_ok l \<and> range_ok r \<and> getWidth r = 8 \<and> getWidth l \<le> 56)"
| "range_ok (ExtractExpr e off w) = (w \<le> 64)"
| "range_ok (ZExtExpr e w) = (w \<le> 64)"
| "range_ok (SExtExpr e w) = (w \<le> 64)"
| "range_ok (NotExpr e) = (getWidth e \<le> 64)"
| "range_ok (BinaryExpr k l r) =
     (if k \<in> {Shl, LShr, AShr} then getWidth l \<le> 64
      else range_ok l \<and> range_ok r \<and> k \<notin> {Ne, Ugt, Uge, Sgt, Sge} \<and>
        (k \<in> {Slt, Sle} \<longrightarrow> getWidth l < 64))"
| "range_ok_updates UpdateNil = True"
| "range_ok_updates (UpdateNode i v n) = (range_ok i \<and> range_ok v \<and> range_ok_updates n)"

lemma range_ok_width: "range_ok e \<Longrightarrow> wt e \<Longrightarrow> getWidth e \<le> 64"
  by (induction e rule: expr.induct [where ?P2.0 = "\<lambda>_. True"]) (auto simp: bv_width_def split: if_splits)

locale range_domain =
  fixes T :: "'t value_type" and conc :: "'t \<Rightarrow> nat \<Rightarrow> int \<Rightarrow> bool" and fits :: "'t \<Rightarrow> nat \<Rightarrow> bool"
  assumes conc_fits: "conc r w v \<Longrightarrow> fits r w"
    and const: "wf_ap c \<Longrightarrow> getBitWidth c \<le> 64 \<Longrightarrow> conc (vt_const T c) (getBitWidth c) (getZExtValue c)"
    and bool_value: "conc (vt_value T (of_bool p)) 1 (of_bool p)"
    and full: "w \<le> 64 \<Longrightarrow> inr w v \<Longrightarrow> conc (full_range_of T w) w v"
    and arith: "w \<le> 64 \<Longrightarrow> inr w v \<Longrightarrow> conc (vt_arith T k a b w) w v"
    and empty: "0 < w \<Longrightarrow> fits (vt_empty T) w"
    and union: "fits a w \<Longrightarrow> fits b w \<Longrightarrow> fits (vt_union T a b) w"
    and union_left: "conc a w v \<Longrightarrow> fits b w \<Longrightarrow> conc (vt_union T a b) w v"
    and union_right: "conc b w v \<Longrightarrow> fits a w \<Longrightarrow> conc (vt_union T a b) w v"
    and isFullRange: "vt_isFullRange T r w \<Longrightarrow> w \<le> 64 \<Longrightarrow> inr w v \<Longrightarrow> conc r w v"
    and mustEqual_value: "conc r w v \<Longrightarrow> vt_mustEqual_value T r x \<Longrightarrow> v = uint x"
    and mustEqual: "conc a w v \<Longrightarrow> conc b w u \<Longrightarrow> vt_mustEqual T a b \<Longrightarrow> v = u"
    and mayEqual: "conc a w v \<Longrightarrow> conc b w v \<Longrightarrow> vt_mayEqual T a b"
    and bit_and: "conc a w v \<Longrightarrow> conc b w u \<Longrightarrow> \<exists>r. vt_and T a b = Some r \<and> conc r w (v AND u)"
    and bit_or: "conc a w v \<Longrightarrow> conc b w u \<Longrightarrow> \<exists>r. vt_or T a b = Some r \<and> conc r w (v OR u)"
    and bit_xor: "conc a w v \<Longrightarrow> conc b w u \<Longrightarrow> \<exists>r. vt_xor T a b = Some r \<and> conc r w (v XOR u)"
    and concat_zero: "conc a w v \<Longrightarrow> \<exists>r. vt_concat T (vt_value T 0) a 8 = Some r \<and> conc r w v"
    and concat: "conc a n v \<Longrightarrow> conc b m u \<Longrightarrow> n + m \<le> 64 \<Longrightarrow>
      \<exists>r. vt_concat T a b m = Some r \<and> conc r (n + m) (concat_bit m u v)"
    and lower: "conc r w v \<Longrightarrow> \<exists>x. vt_min T r = Some x \<and> uint x \<le> v"
    and upper: "conc r w v \<Longrightarrow> \<exists>x. vt_max T r = Some x \<and> v \<le> uint x"
    and signed_lower: "conc r w v \<Longrightarrow> 0 < w \<Longrightarrow> w < 64 \<Longrightarrow> \<exists>s. vt_minSigned T r w = Some s \<and> s \<le> sval w v"
    and signed_upper: "conc r w v \<Longrightarrow> 0 < w \<Longrightarrow> w < 64 \<Longrightarrow> \<exists>s. vt_maxSigned T r w = Some s \<and> sval w v \<le> s"
    and initial: "assign_ok \<sigma> \<Longrightarrow> wf_array os \<Longrightarrow> arr_range os = 8 \<Longrightarrow> conc idx w i \<Longrightarrow>
      \<exists>r. vt_initial T os idx = Some r \<and> conc r 8 (initial_value \<sigma> os i)"
begin

lemma bool_full: "conc (full_range_of T 1) 1 (of_bool b)"
  by (rule full) simp_all

lemma binary_sound:
  assumes "conc a w v" "conc b w u" "inr w v" "inr w u" "0 < w" "w \<le> 64"
    and "k \<notin> {Ne, Ugt, Uge, Sgt, Sge}" "k \<in> {Slt, Sle} \<longrightarrow> w < 64"
  shows "\<exists>r. range_binary T k w (Some a) (Some b) = Some r \<and> conc r (bv_width k w) (bv_bin k w v u)"
proof -
  have un: "\<exists>al ah bl bh. vt_min T a = Some al \<and> uint al \<le> v \<and> vt_max T a = Some ah \<and> v \<le> uint ah \<and>
      vt_min T b = Some bl \<and> uint bl \<le> u \<and> vt_max T b = Some bh \<and> u \<le> uint bh"
    using lower upper assms(1,2) by meson
  have sg: "\<exists>al ah bl bh. vt_minSigned T a w = Some al \<and> al \<le> sval w v \<and> vt_maxSigned T a w = Some ah \<and>
      sval w v \<le> ah \<and> vt_minSigned T b w = Some bl \<and> bl \<le> sval w u \<and> vt_maxSigned T b w = Some bh \<and> sval w u \<le> bh"
    if "w < 64" using signed_lower signed_upper assms(1,2,5) that by meson
  have ar: "inr w (bv_arith k w v u)" using assms by (intro bv_arith_inr)
  note [simp] = bool_value [of True, simplified] bool_value [of False, simplified] bool_full
    bool_full [of True, simplified] bool_full [of False, simplified]
  show ?thesis
  proof (cases k)
    case Eq
    with assms(1,2) show ?thesis
      using mustEqual [OF assms(1,2)] mayEqual [OF assms(1)] by (auto simp: bv_width_def bv_bin_def)
  next
    case Ult
    with un show ?thesis by (auto simp: bv_width_def bv_bin_def word_less_def word_le_def)
  next
    case Ule
    with un show ?thesis by (auto simp: bv_width_def bv_bin_def word_less_def word_le_def)
  next
    case Slt
    with sg assms(8) show ?thesis by (auto simp: bv_width_def bv_bin_def)
  next
    case Sle
    with sg assms(8) show ?thesis by (auto simp: bv_width_def bv_bin_def)
  next
    case And
    with bit_and [OF assms(1,2)] show ?thesis by (auto simp: bv_width_def bv_bin_def)
  next
    case Or
    with bit_or [OF assms(1,2)] show ?thesis by (auto simp: bv_width_def bv_bin_def)
  next
    case Xor
    with bit_xor [OF assms(1,2)] show ?thesis by (auto simp: bv_width_def bv_bin_def)
  qed (use assms ar full arith in \<open>auto simp: bv_width_def bv_bin_def\<close>)
qed

lemma eval_sound:
  assumes ok: "assign_ok \<sigma>"
  shows "wt e \<Longrightarrow> range_ok e \<Longrightarrow> \<exists>r. range_eval T e = Some r \<and> conc r (getWidth e) (eval \<sigma> e)"
    and "wt_updates us a \<Longrightarrow> range_ok_updates us \<Longrightarrow> wf_array a \<Longrightarrow> arr_range a = 8 \<Longrightarrow>
      conc index (arr_domain a) i \<Longrightarrow> fits res 8 \<Longrightarrow>
      \<exists>r. range_evalRead T us a index res = Some r \<and> conc r 8 (eval_read \<sigma> us a i) \<and>
        (\<forall>v. conc res 8 v \<longrightarrow> conc r 8 v)"
proof (induction e and us arbitrary: and a index i res)
  case (BinaryExpr k l r)
  show ?case
  proof (cases "k \<in> {Shl, LShr, AShr}")
    case True
    with BinaryExpr eval_inr [OF ok, of "BinaryExpr k l r"] show ?thesis
      by (auto simp: bv_width_def intro!: full)
  next
    case False
    with BinaryExpr obtain a b where "range_eval T l = Some a" "conc a (getWidth l) (eval \<sigma> l)"
      "range_eval T r = Some b" "conc b (getWidth l) (eval \<sigma> r)" by auto
    with BinaryExpr False binary_sound [of a "getWidth l" "eval \<sigma> l" b "eval \<sigma> r" k]
      eval_inr [OF ok, of l] eval_inr [OF ok, of r] wt_width_pos [of l] range_ok_width [of l]
    show ?thesis by auto
  qed
next
  case (ConcatExpr l r)
  then obtain x y where x: "range_eval T l = Some x" "conc x (getWidth l) (eval \<sigma> l)"
    and y: "range_eval T r = Some y" "conc y 8 (eval \<sigma> r)" by auto
  obtain z where z: "vt_concat T (vt_value T 0) x 8 = Some z" "conc z (getWidth l) (eval \<sigma> l)"
    using concat_zero [OF x(2)] by blast
  with ConcatExpr x y concat [OF z(2) y(2)] show ?case by auto
next
  case (SelectExpr c t f)
  then obtain x y z where "range_eval T c = Some x" "conc x 1 (eval \<sigma> c)"
    "range_eval T t = Some y" "conc y (getWidth t) (eval \<sigma> t)"
    "range_eval T f = Some z" "conc z (getWidth t) (eval \<sigma> f)" by auto
  with union_left [of y _ _ z] union_right [of z _ _ y] conc_fits mustEqual_value [of x 1 "eval \<sigma> c"]
  show ?case by auto
next
  case (ReadExpr a us i)
  then obtain x where "range_eval T i = Some x" "conc x (arr_domain a) (eval \<sigma> i)" by auto
  with ReadExpr.IH(1) [of a x "eval \<sigma> i" "vt_empty T"] ReadExpr.prems empty [of 8] show ?case by auto
next
  case (UpdateNil a index i res)
  then obtain x where x: "vt_initial T a index = Some x" "conc x 8 (initial_value \<sigma> a i)"
    using initial [OF ok] by blast
  with UpdateNil union_right [OF x(2)] union_left conc_fits [OF x(2)] show ?case by auto
next
  case (UpdateNode ui uv n a index i res)
  then obtain u v where u: "range_eval T ui = Some u" "conc u (arr_domain a) (eval \<sigma> ui)"
    and v: "range_eval T uv = Some v" "conc v 8 (eval \<sigma> uv)"
    using UpdateNode.IH(1,2) by auto
  have rd: "inr 8 (eval_read \<sigma> (UpdateNode ui uv n) a i)"
    using eval_inr_aux(2) [OF ok, of a "UpdateNode ui uv n" i] UpdateNode.prems by simp
  let ?res = "vt_union T res v"
  have fres: "fits ?res 8" using union conc_fits [OF v(2)] UpdateNode.prems by blast
  have fv: "conc ?res 8 (eval \<sigma> uv)" using union_right v(2) UpdateNode.prems by blast
  show ?case
  proof (cases "eval \<sigma> ui = i")
    case True
    have "vt_mayEqual T u index" using mayEqual u(2) UpdateNode.prems True by blast
    with True show ?thesis
      using UpdateNode.IH(3) [of a index i ?res] UpdateNode.prems u v fres fv
        union_left [of res 8 _ v] conc_fits [OF v(2)]
      by (auto simp: Let_def)
  next
    case False
    then have "\<not> vt_mustEqual T u index" using mustEqual u(2) UpdateNode.prems by blast
    with False show ?thesis
      using UpdateNode.IH(3) [of a index i res] UpdateNode.IH(3) [of a index i ?res] UpdateNode.prems u v fres
        isFullRange [of ?res 8, OF _ _ rd] union_left [of res 8 _ v] conc_fits [OF v(2)]
      by (auto simp: Let_def)
  qed
qed (use ok eval_inr [OF ok] in \<open>auto intro!: const full dest: eval_inr [OF ok]\<close>)

end


subsection \<open>The instance: ValueRange and CexRangeEvaluator\<close>

text \<open>\<^verbatim>\<open>ConstantExpr::getZExtValue(bits)\<close> asserts that the value fits.\<close>

definition CE_getZExtValue :: "apint \<Rightarrow> nat \<Rightarrow> u64 option" where
  "CE_getZExtValue c bits =
     (if getBitWidth c \<le> bits then Some (word_of_int (getZExtValue c)) else None)"

definition getInitialReadRange :: "array \<Rightarrow> value_range \<Rightarrow> value_range option" where
  "getInitialReadRange a index =
     (if isConstantArray a \<and> isFixed index \<and> unat (m_min index) < arr_size a
      then map_option range_value (CE_getZExtValue (constantValues a ! unat (m_min index)) 8)
      else Some (range_bounds 0 255))"

definition cex_range :: "value_range value_type" where
  "cex_range = \<lparr>
     vt_empty = range_empty, vt_const = range_const, vt_value = range_value, vt_bounds = range_bounds,
     vt_mustEqual_value = mustEqual_value, vt_mustEqual = mustEqual, vt_mayEqual = mayEqual,
     vt_isFullRange = isFullRange, vt_union = set_union,
     vt_and = range_and, vt_or = range_or, vt_xor = range_xor, vt_concat = range_concat,
     vt_arith = range_arith, vt_min = range_min, vt_max = range_max,
     vt_minSigned = minSigned, vt_maxSigned = maxSigned, vt_initial = getInitialReadRange\<rparr>"

definition evalRangeForExpr :: "expr \<Rightarrow> value_range option" where
  "evalRangeForExpr e = range_eval cex_range e"

lemma initial_range_sound:
  assumes "assign_ok \<sigma>" "wf_array a" "arr_range a = 8" "range_of idx w i"
  shows "\<exists>r. getInitialReadRange a idx = Some r \<and> range_of r 8 (initial_value \<sigma> a i)"
proof (cases "isConstantArray a \<and> isFixed idx \<and> unat (m_min idx) < arr_size a")
  case True
  let ?c = "constantValues a ! unat (m_min idx)"
  have i: "i = uint (m_min idx)" using True assms(4) by (simp add: range_of_def isFixedD)
  then have n: "nat i = unat (m_min idx)" by simp
  have "?c \<in> set (constantValues a)"
    using True assms(2) by (intro nth_mem) (auto simp: wf_array_def isConstantArray_def isSymbolicArray_def)
  then have c: "wf_ap ?c" "getBitWidth ?c = 8" using assms(2,3) by (auto simp: wf_array_def)
  moreover have "initial_value \<sigma> a i = getZExtValue ?c"
    using True i by (simp add: initial_value_def nat_less_iff [symmetric] n)
  ultimately show ?thesis
    using True in_range_const [of ?c] by (auto simp: getInitialReadRange_def CE_getZExtValue_def)
next
  case False
  moreover have "inr 8 (initial_value \<sigma> a i)" using initial_value_inr [OF assms(1,2), of i] assms(3) by simp
  ultimately show ?thesis
    unfolding getInitialReadRange_def if_not_P [OF False] by (auto simp: range_of_def inr_def)
qed

lemma below_empty: "below range_empty w"
  by (simp add: below_def)

lemma isFullRange_below: "isFullRange r w \<Longrightarrow> w \<le> 64 \<Longrightarrow> below r w"
  by (simp add: isFullRange_def below_def uint_maxValue)

interpretation cex: range_domain cex_range range_of below
proof unfold_locales
  fix r w v assume "range_of r w v" then show "below r w" by (simp add: range_of_def)
next
  fix c assume "wf_ap c" "getBitWidth c \<le> 64"
  then show "range_of (vt_const cex_range c) (getBitWidth c) (getZExtValue c)"
    using conjunct2 [OF in_range_const] by (simp add: cex_range_def)
next
  fix a w v b u assume "range_of a w v" "range_of b w u"
  then show "\<exists>r. vt_and cex_range a b = Some r \<and> range_of r w (v AND u)"
    "\<exists>r. vt_or cex_range a b = Some r \<and> range_of r w (v OR u)"
    "\<exists>r. vt_xor cex_range a b = Some r \<and> range_of r w (v XOR u)"
    using range_and_sound [of a v b u w] range_or_sound [of a v b u w] range_xor_sound [of a v b u w]
    by (auto simp: range_of_def cex_range_def)
next
  fix a w v assume "range_of a w v"
  then show "\<exists>r. vt_concat cex_range (vt_value cex_range 0) a 8 = Some r \<and> range_of r w v"
    using range_or_sound [of "range_bounds 0 0" 0 a v w]
    by (auto simp: cex_range_def range_concat_def binaryShiftLeft_def range_of_def)
next
  fix a n v b m u assume "range_of a n v" "range_of b m u" "n + m \<le> 64"
  then show "\<exists>r. vt_concat cex_range a b m = Some r \<and> range_of r (n + m) (concat_bit m u v)"
    using range_concat_sound [of a v n b u m] by (simp add: cex_range_def range_of_def)
next
  fix r w v assume r: "range_of r w v" 
  then show "\<exists>x. vt_min cex_range r = Some x \<and> uint x \<le> v" "\<exists>x. vt_max cex_range r = Some x \<and> v \<le> uint x"
    using in_range_nonempty [of r v] by (auto simp: range_of_def cex_range_def range_min_def range_max_def in_range_def)
  assume "0 < w" "w < 64"
  with r show "\<exists>s. vt_minSigned cex_range r w = Some s \<and> s \<le> sval w v"
    "\<exists>s. vt_maxSigned cex_range r w = Some s \<and> sval w v \<le> s"
    using signed_sound [OF r] by (simp_all add: cex_range_def)
next
  fix \<sigma> os idx w i assume "assign_ok \<sigma>" "wf_array os" "arr_range os = 8" "range_of idx w i"
  then show "\<exists>r. vt_initial cex_range os idx = Some r \<and> range_of r 8 (initial_value \<sigma> os i)"
    using initial_range_sound by (simp add: cex_range_def)
qed (auto simp: cex_range_def full_range_of_def range_arith_def range_of_def
    uint_maxValue inr_def below_empty isFullRange_below below_union in_range_union
    intro: mustEqualD mustEqual_valueD mayEqualI isFullRangeD)

subsection \<open>Properties\<close>

text \<open>C15: on the expressions that \<open>range_ok\<close> allows, \<^verbatim>\<open>ExprRangeEvaluator<ValueRange>::evaluate\<close> returns a range (no
  assertion fails) that contains the value of the expression under every assignment and only values of its
  width. \<open>range_ok\<close> asks: at most 64 bits; reads from byte arrays; the right kid of every concatenation 8 bits
  wide (so a concatenation nested to the right, as the library builds the read of three or more bytes, is not
  allowed: C16 shows the range wrong there); signed comparisons of fewer than 64 bits; and none of the kinds
  that the evaluator asserts away (\<^verbatim>\<open>Ne\<close>, \<^verbatim>\<open>Ugt\<close>, \<^verbatim>\<open>Uge\<close>, \<^verbatim>\<open>Sgt\<close>, \<^verbatim>\<open>Sge\<close>). Below an extraction, an extension, a
  complement or a shift anything is allowed, since the evaluator returns the full range there.\<close>

theorem range_eval_sound:
  assumes "assign_ok \<sigma>" "wt e" "range_ok e"
  shows "\<exists>r. evalRangeForExpr e = Some r \<and> in_range r (eval \<sigma> e) \<and> below r (getWidth e)"
  using cex.eval_sound(1) [OF assms] by (simp add: evalRangeForExpr_def range_of_def)

theorem range_eval_sound_witness:
  "\<exists>r. evalRangeForExpr (ConcatExpr (rd 1) (BinaryExpr And (rd 2) (ConstantExpr (APInt 8 15)))) = Some r \<and>
     in_range r 1029"
proof -
  let ?e = "ConcatExpr (rd 1) (BinaryExpr And (rd 2) (ConstantExpr (APInt 8 15)))"
  have "eval seq_assignment ?e = 1029"
    by (simp add: bv_bin_def bv_width_def take_bit_eq_mod concat_bit_eq push_bit_eq_mult del: eval.simps(3))
  moreover have "wt ?e" "range_ok ?e" by (simp_all add: inr_def bv_width_def)
  ultimately show ?thesis using range_eval_sound [OF seq_assign_ok, of ?e] by auto
qed

text \<open>C16: the condition on concatenations is needed: every kid after the first is shifted by 8 whatever its
  width is, so a three-byte read, which the library nests to the right, gets a range that misses its
  value.\<close>

theorem concat_range_misses:
  "let e = ConcatExpr (rd 0) (ConcatExpr (rd 1) (rd 2)) in
    wt e \<and> assign_ok seq_assignment \<and> eval seq_assignment e = 0x30405 \<and>
    (\<exists>r. evalRangeForExpr e = Some r \<and> m_max r = 0xFFFF \<and> \<not> in_range r (eval seq_assignment e))"
proof -
  let ?e = "ConcatExpr (rd 0) (ConcatExpr (rd 1) (rd 2))"
  have v: "eval seq_assignment ?e = 0x30405"
    by (simp add: take_bit_eq_mod concat_bit_eq push_bit_eq_mult del: eval.simps(3))
  have r: "evalRangeForExpr ?e = Some (range_bounds 0 0xFFFF)"
    by code_simp
  show ?thesis unfolding Let_def using r v by (auto simp: in_range_def)
qed

end
