(* ===== verification/ExprVisitor.thy ===== *)
theory ExprVisitor
  imports RangeEvaluator
begin

section \<open>Visitors and evaluators (ExprVisitor.cpp, ExprEvaluator.cpp, klee/util/Assignment.h)\<close>

text \<open>
  \<^verbatim>\<open>ExprVisitor\<close> is a record of its virtual methods; a method that calls \<^verbatim>\<open>visit\<close> again takes it as an
  argument, and the hash table \<open>visited\<close> is threaded through. The recursion of \<^verbatim>\<open>visit\<close> runs on fuel
  (with \<^verbatim>\<open>recursive\<close> set it need not end); \<open>None\<close> is the end of the fuel or a failed assertion.
  Locale \<open>visitor_laws\<close> says what the methods of a visitor must promise for \<^verbatim>\<open>visit\<close> to keep the meaning
  of every expression. \<^verbatim>\<open>ExprEvaluator\<close>, whose subclasses only give the initial values of arrays, meets it
  (locale \<open>evaluator\<close>) and needs no more fuel than the size of the expression.
\<close>

subsection \<open>ExprVisitor\<close>

datatype action = SkipChildren | DoChildren | ChangeTo expr

type_synonym visited = "expr \<Rightarrow> expr option"
type_synonym visit_fun = "expr \<Rightarrow> visited \<Rightarrow> (expr \<times> visited) option"
type_synonym visit_method = "visit_fun \<Rightarrow> expr \<Rightarrow> visited \<Rightarrow> (action \<times> visited) option"

record visitor =
  v_visitExpr :: visit_method
  v_visitKind :: visit_method \<comment> \<open>\<^verbatim>\<open>visitNotOptimized .. visitSge\<close>, by the kind of the expression\<close>
  v_visitExprPost :: "expr \<Rightarrow> action"
  v_recursive :: bool
  UseVisitorHash :: bool

text \<open>The methods of the base class.\<close>

definition base_visitor :: visitor where
  "base_visitor = \<lparr>
     v_visitExpr = (\<lambda>visit e vis. Some (DoChildren, vis)),
     v_visitKind = (\<lambda>visit e vis. Some (DoChildren, vis)),
     v_visitExprPost = (\<lambda>e. SkipChildren), v_recursive = False, UseVisitorHash = True\<rparr>"

primrec visit_kids :: "visit_fun \<Rightarrow> expr list \<Rightarrow> visited \<Rightarrow> (expr list \<times> visited) option" where
  "visit_kids visit [] vis = Some ([], vis)"
| "visit_kids visit (k # ks) vis = do {
     (k', vis) \<leftarrow> visit k vis; (ks', vis) \<leftarrow> visit_kids visit ks vis; Some (k' # ks', vis) }"

definition visit_post :: "visitor \<Rightarrow> expr \<Rightarrow> expr" where
  "visit_post V e =
     (if is_constant e then e else (case v_visitExprPost V e of ChangeTo e' \<Rightarrow> e' | _ \<Rightarrow> e))"

definition visit_children :: "'z expr_env_scheme \<Rightarrow> visitor \<Rightarrow> visit_fun \<Rightarrow> visit_fun" where
  "visit_children K V visit e vis = do {
     (ks, vis) \<leftarrow> visit_kids visit (kids e) vis;
     (e', vis) \<leftarrow>
       (if ks = kids e then Some (e, vis)
        else if v_recursive V then visit (rebuild K e ks) vis
        else Some (rebuild K e ks, vis));
     Some (visit_post V e', vis) }"

definition visitActual :: "'z expr_env_scheme \<Rightarrow> visitor \<Rightarrow> visit_fun \<Rightarrow> visit_fun" where
  "visitActual K V visit e vis =
     (if is_constant e then Some (e, vis)
      else do {
        (res, vis) \<leftarrow> v_visitExpr V visit e vis;
        case res of SkipChildren \<Rightarrow> Some (e, vis) | ChangeTo e' \<Rightarrow> Some (e', vis)
        | DoChildren \<Rightarrow> do {
            (res, vis) \<leftarrow> v_visitKind V visit e vis;
            case res of SkipChildren \<Rightarrow> Some (e, vis) | ChangeTo e' \<Rightarrow> Some (e', vis)
            | DoChildren \<Rightarrow> visit_children K V visit e vis } })"

text \<open>\<^verbatim>\<open>visited.insert\<close> keeps an entry that is there.\<close>

definition visited_insert :: "visited \<Rightarrow> expr \<Rightarrow> expr \<Rightarrow> visited" where
  "visited_insert vis e r = (if vis e = None then vis(e \<mapsto> r) else vis)"

fun visit :: "nat \<Rightarrow> 'z expr_env_scheme \<Rightarrow> visitor \<Rightarrow> visit_fun" where
  "visit 0 K V e vis = None"
| "visit (Suc n) K V e vis =
     (if \<not> UseVisitorHash V \<or> is_constant e then visitActual K V (visit n K V) e vis
      else case vis e of
        Some r \<Rightarrow> Some (r, vis)
      | None \<Rightarrow> do {
          (r, vis) \<leftarrow> visitActual K V (visit n K V) e vis;
          Some (r, visited_insert vis e r) })"

subsection \<open>ExprEvaluator\<close>

text \<open>The only virtual method left to the subclasses; the index is an \<^verbatim>\<open>unsigned\<close>.\<close>

type_synonym initial_values = "array \<Rightarrow> 32 word \<Rightarrow> expr option"

primrec evaluator_evalRead ::
  "'z expr_env_scheme \<Rightarrow> initial_values \<Rightarrow> visit_fun \<Rightarrow> array \<Rightarrow> 32 word \<Rightarrow> updates \<Rightarrow> visited \<Rightarrow>
   (action \<times> visited) option" where
  "evaluator_evalRead K gi rec a index UpdateNil vis =
     (if isConstantArray a \<and> unat index < arr_size a
      then Some (ChangeTo (ConstantExpr (constantValues a ! unat index)), vis)
      else do { e \<leftarrow> gi a index; Some (ChangeTo e, vis) })"
| "evaluator_evalRead K gi rec a index (UpdateNode ui uv n) vis = do {
     (u, vis) \<leftarrow> rec ui vis;
     case as_const u of
       Some c \<Rightarrow> do {
         z \<leftarrow> CE_getZExtValue c 64;
         if z = ucast index then do { (v, vis) \<leftarrow> rec uv vis; Some (ChangeTo v, vis) }
         else evaluator_evalRead K gi rec a index n vis }
     | None \<Rightarrow> Some (ChangeTo (Read_make K a (UpdateNode ui uv n)
         (ConstantExpr (ConstantExpr_alloc K (uint index) (arr_domain a)))), vis) }"

definition evaluator_visitExpr :: "'z expr_env_scheme \<Rightarrow> visit_method" where
  "evaluator_visitExpr K rec e vis =
     (if getNumKids e = 0 \<or> getKind e = Read then Some (DoChildren, vis)
      else if \<exists>k \<in> set (kids e). \<not> is_constant k then Some (DoChildren, vis)
      else Some (ChangeTo (rebuild K e (kids e)), vis))"

definition evaluator_visitRead ::
  "'z expr_env_scheme \<Rightarrow> initial_values \<Rightarrow> visit_fun \<Rightarrow> array \<Rightarrow> updates \<Rightarrow> expr \<Rightarrow> visited \<Rightarrow>
   (action \<times> visited) option" where
  "evaluator_visitRead K gi rec a us i vis = do {
     (v, vis) \<leftarrow> rec i vis;
     case as_const v of
       Some c \<Rightarrow> do { z \<leftarrow> CE_getZExtValue c 64; evaluator_evalRead K gi rec a (ucast z) us vis }
     | None \<Rightarrow> Some (DoChildren, vis) }"

definition protectedDivOperation ::
  "'z expr_env_scheme \<Rightarrow> visit_fun \<Rightarrow> expr \<Rightarrow> expr \<Rightarrow> expr \<Rightarrow> visited \<Rightarrow> (action \<times> visited) option" where
  "protectedDivOperation K rec e l r vis = do {
     (l', vis) \<leftarrow> rec l vis;
     (r', vis) \<leftarrow> rec r vis;
     let r'' = (if isZero r' then r else r') in
       if l' \<noteq> l \<or> r'' \<noteq> r then Some (ChangeTo (rebuild K e [l', r'']), vis)
       else Some (SkipChildren, vis) }"

definition evaluator_visitKind :: "'z expr_env_scheme \<Rightarrow> initial_values \<Rightarrow> visit_method" where
  "evaluator_visitKind K gi rec e vis =
     (case e of
        ReadExpr a us i \<Rightarrow> evaluator_visitRead K gi rec a us i vis
      | BinaryExpr k l r \<Rightarrow>
          if is_div k then protectedDivOperation K rec e l r vis else Some (DoChildren, vis)
      | _ \<Rightarrow> Some (DoChildren, vis))"

definition evaluator_visitExprPost :: "expr \<Rightarrow> action" where
  "evaluator_visitExprPost e = (case e of NotOptimizedExpr src \<Rightarrow> ChangeTo src | _ \<Rightarrow> SkipChildren)"

definition evaluator_visitor :: "'z expr_env_scheme \<Rightarrow> initial_values \<Rightarrow> visitor" where
  "evaluator_visitor K gi = base_visitor\<lparr>
     v_visitExpr := evaluator_visitExpr K, v_visitKind := evaluator_visitKind K gi,
     v_visitExprPost := evaluator_visitExprPost\<rparr>"

text \<open>One \<^verbatim>\<open>visit\<close> of a fresh evaluator.\<close>

definition evaluator_visit :: "'z expr_env_scheme \<Rightarrow> initial_values \<Rightarrow> expr \<Rightarrow> expr option" where
  "evaluator_visit K gi e = map_option fst (visit (Suc (size e)) K (evaluator_visitor K gi) e Map.empty)"

lemmas visitor_defs = base_visitor_def evaluator_visitor_def


subsection \<open>What a visitor keeps\<close>

text \<open>\<open>same \<sigma> e e'\<close>: \<open>e'\<close> is well typed, as wide as \<open>e\<close> and denotes the same value under \<open>\<sigma>\<close>.\<close>

definition same :: "assignment \<Rightarrow> expr \<Rightarrow> expr \<Rightarrow> bool" where
  "same \<sigma> e e' \<longleftrightarrow> wt e' \<and> getWidth e' = getWidth e \<and> eval \<sigma> e' = eval \<sigma> e"

lemma same_refl: "wt e \<Longrightarrow> same \<sigma> e e"
  by (simp add: same_def)

lemma same_trans: "same \<sigma> a b \<Longrightarrow> same \<sigma> b c \<Longrightarrow> same \<sigma> a c"
  by (simp add: same_def)

lemma same_means: "same \<sigma> e e' \<longleftrightarrow> means \<sigma> e' (getWidth e) (eval \<sigma> e)"
  by (simp add: same_def means_def)

lemma wt_kids: "wt e \<Longrightarrow> k \<in> set (kids e) \<Longrightarrow> wt k"
  by (cases e) auto

text \<open>
  A table of results, and a \<open>visit\<close>, whose results are related to the expressions in \<open>good\<close> by \<open>rel\<close>.
\<close>

definition entries :: "(expr \<Rightarrow> expr \<Rightarrow> bool) \<Rightarrow> (expr \<Rightarrow> bool) \<Rightarrow> visited \<Rightarrow> bool" where
  "entries rel good vis \<longleftrightarrow> (\<forall>x y. vis x = Some y \<longrightarrow> good x \<and> rel x y)"

definition sound_visit :: "(expr \<Rightarrow> expr \<Rightarrow> bool) \<Rightarrow> (expr \<Rightarrow> bool) \<Rightarrow> visit_fun \<Rightarrow> bool" where
  "sound_visit rel good rec \<longleftrightarrow> (\<forall>e vis r vis'. good e \<longrightarrow> entries rel good vis \<longrightarrow>
     rec e vis = Some (r, vis') \<longrightarrow> rel e r \<and> entries rel good vis')"

lemma sound_visitD:
  "\<lbrakk>sound_visit rel good rec; good e; entries rel good vis; rec e vis = Some (r, vis')\<rbrakk> \<Longrightarrow>
   rel e r \<and> entries rel good vis'"
  by (simp add: sound_visit_def)

lemma entries_empty [simp]: "entries rel good Map.empty"
  by (simp add: entries_def)

locale visitor_laws =
  fixes K :: "'z expr_env_scheme" and V :: visitor
    and rel :: "expr \<Rightarrow> expr \<Rightarrow> bool" and good :: "expr \<Rightarrow> bool"
  assumes literal: "good e \<Longrightarrow> is_constant e \<Longrightarrow> rel e e"
    and good_kids: "good e \<Longrightarrow> k \<in> set (kids e) \<Longrightarrow> good k"
    and visitExpr: "\<lbrakk>sound_visit rel good rec; good e; \<not> is_constant e; entries rel good vis;
        v_visitExpr V rec e vis = Some (act, vis')\<rbrakk>
      \<Longrightarrow> entries rel good vis' \<and> (act = SkipChildren \<longrightarrow> rel e e) \<and> (\<forall>e'. act = ChangeTo e' \<longrightarrow> rel e e')"
    and visitKind: "\<lbrakk>sound_visit rel good rec; good e; \<not> is_constant e; entries rel good vis;
        v_visitExpr V rec e vis0 = Some (DoChildren, vis); v_visitKind V rec e vis = Some (act, vis')\<rbrakk>
      \<Longrightarrow> entries rel good vis' \<and> (act = SkipChildren \<longrightarrow> rel e e) \<and> (\<forall>e'. act = ChangeTo e' \<longrightarrow> rel e e')"
    and children: "\<lbrakk>sound_visit rel good rec; good e; \<not> is_constant e; entries rel good vis;
        v_visitExpr V rec e vis0 = Some (DoChildren, vis); v_visitKind V rec e vis = Some (DoChildren, vis');
        list_all2 rel (kids e) ks; ks = kids e \<or> \<not> v_recursive V\<rbrakk>
      \<Longrightarrow> rel e (visit_post V (if ks = kids e then e else rebuild K e ks))"
    and recursive: "\<lbrakk>v_recursive V; good e; list_all2 rel (kids e) ks; ks \<noteq> kids e\<rbrakk>
      \<Longrightarrow> good (rebuild K e ks) \<and> (\<forall>r. rel (rebuild K e ks) r \<longrightarrow> rel e (visit_post V r))"
begin

lemma kids_sound:
  assumes "sound_visit rel good rec" "\<forall>k \<in> set es. good k" "entries rel good vis"
    "visit_kids rec es vis = Some (ks, vis')"
  shows "list_all2 rel es ks \<and> entries rel good vis'"
  using assms(2-)
proof (induction es arbitrary: vis ks)
  case (Cons e es)
  then obtain k vis1 ks' where "rec e vis = Some (k, vis1)" "visit_kids rec es vis1 = Some (ks', vis')" "ks = k # ks'"
    by (auto split: bind_splits)
  with Cons sound_visitD [OF assms(1), of e vis k vis1] show ?case by auto
qed simp

lemma children_sound:
  assumes "sound_visit rel good rec" "good e" "\<not> is_constant e" "entries rel good vis0"
    and "v_visitExpr V rec e vis00 = Some (DoChildren, vis0)" "v_visitKind V rec e vis0 = Some (DoChildren, vis)"
    and "entries rel good vis" and c: "visit_children K V rec e vis = Some (r, vis')"
  shows "rel e r \<and> entries rel good vis'"
proof -
  from c obtain ks vis1 e' where ks: "visit_kids rec (kids e) vis = Some (ks, vis1)"
    and e': "(if ks = kids e then Some (e, vis1) else if v_recursive V then rec (rebuild K e ks) vis1
        else Some (rebuild K e ks, vis1)) = Some (e', vis')" and r: "r = visit_post V e'"
    by (auto simp: visit_children_def split: bind_splits)
  have k: "list_all2 rel (kids e) ks" "entries rel good vis1"
    using kids_sound [OF assms(1) _ assms(7) ks] good_kids [OF assms(2)] by auto
  show ?thesis
  proof (cases "ks = kids e \<or> \<not> v_recursive V")
    case True
    with e' r k children [OF assms(1-6) k(1)] show ?thesis by (auto split: if_splits)
  next
    case False
    with recursive [OF _ assms(2) k(1)] have g: "good (rebuild K e ks)"
      "\<forall>r. rel (rebuild K e ks) r \<longrightarrow> rel e (visit_post V r)" by auto
    with False e' r sound_visitD [OF assms(1) g(1) k(2)] show ?thesis by auto
  qed
qed

lemma actual_sound:
  assumes "sound_visit rel good rec" "good e" "entries rel good vis"
    "visitActual K V rec e vis = Some (r, vis')"
  shows "rel e r \<and> entries rel good vis'"
proof (cases "is_constant e")
  case True
  with assms literal show ?thesis by (auto simp: visitActual_def)
next
  case False
  obtain a1 v1 where 1: "v_visitExpr V rec e vis = Some (a1, v1)"
    using assms(4) False by (cases "v_visitExpr V rec e vis") (auto simp: visitActual_def)
  note s1 = visitExpr [OF assms(1,2) False assms(3) 1]
  show ?thesis
  proof (cases a1)
    case d1: DoChildren
    then obtain a2 v2 where 2: "v_visitKind V rec e v1 = Some (a2, v2)"
      using assms(4) False 1 by (cases "v_visitKind V rec e v1") (auto simp: visitActual_def)
    have e1: "entries rel good v1" using s1 by blast
    note s2 = visitKind [OF assms(1,2) False e1 1 [unfolded d1] 2]
    show ?thesis
    proof (cases a2)
      case DoChildren
      with d1 have "visit_children K V rec e v2 = Some (r, vis')"
        using assms(4) False 1 2 by (simp add: visitActual_def)
      then show ?thesis
        using children_sound [OF assms(1,2) False e1 1 [unfolded d1] 2 [unfolded DoChildren]] s2 by blast
    qed (use d1 assms(4) False 1 2 s2 in \<open>auto simp: visitActual_def\<close>)
  qed (use assms(4) False 1 s1 in \<open>auto simp: visitActual_def\<close>)
qed

lemma visit_sound: "sound_visit rel good (visit n K V)"
proof (induction n)
  case (Suc n)
  show ?case
    unfolding sound_visit_def
  proof (intro allI impI)
    fix e vis r vis' assume g: "good e" "entries rel good vis" and v: "visit (Suc n) K V e vis = Some (r, vis')"
    note act = actual_sound [OF Suc g]
    show "rel e r \<and> entries rel good vis'"
    proof (cases "\<not> UseVisitorHash V \<or> is_constant e")
      case True
      with v act show ?thesis by auto
    next
      case hash: False
      show ?thesis
      proof (cases "vis e")
        case None
        with hash v obtain v1 where "visitActual K V (visit n K V) e vis = Some (r, v1)" "vis' = visited_insert v1 e r"
          by (auto split: bind_splits)
        with act [of r v1] g show ?thesis by (auto simp: entries_def visited_insert_def)
      next
        case (Some y)
        with hash v g show ?thesis by (auto simp: entries_def)
      qed
    qed
  qed
qed (simp add: sound_visit_def)

end

subsection \<open>The evaluator keeps the meaning\<close>

text \<open>
  Expressions the evaluator takes: indices of at most 32 bits, which is what fits the \<^verbatim>\<open>unsigned\<close>, and
  divisions of more than one bit by something else than the literal zero.
\<close>

primrec ev_safe :: "expr \<Rightarrow> bool" and ev_safe_updates :: "updates \<Rightarrow> bool" where
  "ev_safe (ConstantExpr c) = True"
| "ev_safe (NotOptimizedExpr e) = ev_safe e"
| "ev_safe (ReadExpr a us i) = (arr_domain a \<le> 32 \<and> ev_safe_updates us \<and> ev_safe i)"
| "ev_safe (SelectExpr c t f) = (ev_safe c \<and> ev_safe t \<and> ev_safe f)"
| "ev_safe (ConcatExpr l r) = (ev_safe l \<and> ev_safe r)"
| "ev_safe (ExtractExpr e off w) = ev_safe e"
| "ev_safe (ZExtExpr e w) = ev_safe e"
| "ev_safe (SExtExpr e w) = ev_safe e"
| "ev_safe (NotExpr e) = ev_safe e"
| "ev_safe (BinaryExpr k l r) =
     (ev_safe l \<and> ev_safe r \<and> (is_div k \<longrightarrow> getWidth l \<noteq> 1 \<and> \<not> isZero r))"
| "ev_safe_updates UpdateNil = True"
| "ev_safe_updates (UpdateNode i v n) = (ev_safe i \<and> ev_safe v \<and> ev_safe_updates n)"

text \<open>
  Expressions that evaluate to a constant when the contents of every array are known: the divisors are
  not zero, and no \<^verbatim>\<open>NotOptimizedExpr\<close> holds a constant.
\<close>

primrec ev_full :: "assignment \<Rightarrow> expr \<Rightarrow> bool" and ev_full_updates :: "assignment \<Rightarrow> updates \<Rightarrow> bool" where
  "ev_full \<sigma> (ConstantExpr c) = True"
| "ev_full \<sigma> (NotOptimizedExpr e) = (ev_full \<sigma> e \<and> \<not> is_constant e)"
| "ev_full \<sigma> (ReadExpr a us i) = (ev_full_updates \<sigma> us \<and> ev_full \<sigma> i)"
| "ev_full \<sigma> (SelectExpr c t f) = (ev_full \<sigma> c \<and> ev_full \<sigma> t \<and> ev_full \<sigma> f)"
| "ev_full \<sigma> (ConcatExpr l r) = (ev_full \<sigma> l \<and> ev_full \<sigma> r)"
| "ev_full \<sigma> (ExtractExpr e off w) = ev_full \<sigma> e"
| "ev_full \<sigma> (ZExtExpr e w) = ev_full \<sigma> e"
| "ev_full \<sigma> (SExtExpr e w) = ev_full \<sigma> e"
| "ev_full \<sigma> (NotExpr e) = ev_full \<sigma> e"
| "ev_full \<sigma> (BinaryExpr k l r) =
     (ev_full \<sigma> l \<and> ev_full \<sigma> r \<and> (is_div k \<longrightarrow> eval \<sigma> r \<noteq> 0))"
| "ev_full_updates \<sigma> UpdateNil = True"
| "ev_full_updates \<sigma> (UpdateNode i v n) = (ev_full \<sigma> i \<and> ev_full \<sigma> v \<and> ev_full_updates \<sigma> n)"

text \<open>With \<open>full\<close>, results are constants; without, they only mean the same.\<close>

definition ev_ok :: "bool \<Rightarrow> assignment \<Rightarrow> expr \<Rightarrow> bool" where
  "ev_ok full \<sigma> e \<longleftrightarrow> wt e \<and> ev_safe e \<and> (full \<longrightarrow> ev_full \<sigma> e)"

definition ev_rel :: "bool \<Rightarrow> assignment \<Rightarrow> expr \<Rightarrow> expr \<Rightarrow> bool" where
  "ev_rel full \<sigma> e r \<longleftrightarrow> same \<sigma> e r \<and> (full \<longrightarrow> is_constant r)"

lemma ev_ok_kids: "ev_ok full \<sigma> e \<Longrightarrow> k \<in> set (kids e) \<Longrightarrow> ev_ok full \<sigma> k"
  by (cases e) (auto simp: ev_ok_def)

lemma ev_relD: "ev_rel full \<sigma> e r \<Longrightarrow> same \<sigma> e r" "ev_rel full \<sigma> e r \<Longrightarrow> full \<Longrightarrow> is_constant r"
  by (simp_all add: ev_rel_def)

lemma CE_getZExtValue_const:
  assumes "wf_ap c" "getBitWidth c \<le> 64"
  shows "CE_getZExtValue c 64 = Some (word_of_int (getZExtValue c)) \<and>
    uint (word_of_int (getZExtValue c) :: u64) = getZExtValue c"
proof -
  have "in_range (range_value (word_of_int (getZExtValue c))) (getZExtValue c)"
    using in_range_const [OF assms] by (metis range_of_def)
  with assms(2) show ?thesis by (simp add: CE_getZExtValue_def)
qed

lemma uint_ucast32: "uint (ucast (i :: 32 word) :: u64) = uint i"
  using uint_bounded [of i] by (simp add: unsigned_ucast_eq take_bit_int_eq_self)

lemma index_of_const:
  assumes "wf_ap c" "getBitWidth c \<le> 32"
  shows "\<exists>z. CE_getZExtValue c 64 = Some z \<and> uint z = getZExtValue c \<and> uint (ucast z :: 32 word) = getZExtValue c"
proof -
  let ?z = "word_of_int (getZExtValue c) :: u64"
  have z: "CE_getZExtValue c 64 = Some ?z" "uint ?z = getZExtValue c"
    using CE_getZExtValue_const [OF assms(1)] assms(2) by auto
  have "take_bit 32 (getZExtValue c) = getZExtValue c"
    using assms inr_mono [of "getBitWidth c" _ 32] by (simp add: wf_ap_def take_bit_inr)
  then have "uint (ucast ?z :: 32 word) = getZExtValue c"
    using z(2) by (simp add: unsigned_ucast_eq)
  with z show ?thesis by blast
qed

locale evaluator = default_env K for K :: "'z expr_env_scheme" +
  fixes gi :: initial_values and \<sigma> :: assignment and full :: bool
  assumes ok: "assign_ok \<sigma>"
    and initial: "\<lbrakk>wf_array a; arr_domain a \<le> 32; uint i < 2 ^ arr_domain a;
        \<not> (isConstantArray a \<and> unat i < arr_size a); gi a i = Some e\<rbrakk>
      \<Longrightarrow> means \<sigma> e (arr_range a) (initial_value \<sigma> a (uint i)) \<and> (full \<longrightarrow> is_constant e)"
begin

abbreviation V :: visitor where "V \<equiv> evaluator_visitor K gi"

abbreviation R :: "expr \<Rightarrow> expr \<Rightarrow> bool" where "R \<equiv> ev_rel full \<sigma>"

abbreviation G :: "expr \<Rightarrow> bool" where "G \<equiv> ev_ok full \<sigma>"

lemma evalRead_sound:
  assumes "sound_visit R G rec" "wf_array a" "arr_domain a \<le> 32" "uint i < 2 ^ arr_domain a"
  shows "\<lbrakk>wt_updates us a; ev_safe_updates us; full \<longrightarrow> ev_full_updates \<sigma> us; entries R G vis;
      evaluator_evalRead K gi rec a i us vis = Some (act, vis')\<rbrakk> \<Longrightarrow>
    entries R G vis' \<and> (\<exists>e. act = ChangeTo e \<and> means \<sigma> e (arr_range a) (eval_read \<sigma> us a (uint i)) \<and>
      (full \<longrightarrow> is_constant e))"
proof (induction us arbitrary: vis rule: updates.induct [where ?P1.0 = "\<lambda>_. True"])
  case UpdateNil
  show ?case
  proof (cases "isConstantArray a \<and> unat i < arr_size a")
    case True
    let ?c = "constantValues a ! unat i"
    have "?c \<in> set (constantValues a)"
      using True assms(2) by (intro nth_mem) (auto simp: wf_array_def isConstantArray_def isSymbolicArray_def)
    then have "wf_ap ?c" "getBitWidth ?c = arr_range a" using assms(2) by (auto simp: wf_array_def)
    with True UpdateNil show ?thesis
      by (auto simp: means_def initial_value_def nat_less_iff [symmetric])
  next
    case False
    with UpdateNil initial [OF assms(2-4) False] show ?thesis
      unfolding evaluator_evalRead.simps if_not_P [OF False] by (auto split: bind_splits)
  qed
next
  case (UpdateNode ui uv n)
  then obtain u v1 where u: "rec ui vis = Some (u, v1)" by (auto split: bind_splits)
  have g: "G ui" "G uv" "getWidth ui = arr_domain a" "getWidth uv = arr_range a"
    using UpdateNode.prems by (auto simp: ev_ok_def)
  have s: "same \<sigma> ui u" "entries R G v1" "full \<longrightarrow> is_constant u"
    using sound_visitD [OF assms(1) g(1) UpdateNode.prems(4) u] ev_relD [of full \<sigma> ui u] by auto
  show ?case
  proof (cases "as_const u")
    case None
    have "inr (arr_domain a) (uint i)" using assms(4) by (simp add: inr_def)
    then have "take_bit (arr_domain a) (uint i) = uint i" by (rule take_bit_inr)
    moreover have "0 < arr_domain a" using assms(2) by (simp add: wf_array_def)
    ultimately show ?thesis
      using UpdateNode.prems u None s(2,3) assms(2,4) as_const_None [of u]
        read_make [OF ok, of a "UpdateNode ui uv n" "ConstantExpr (APInt (arr_domain a) (uint i))"]
      by (auto simp: inr_def)
  next
    case (Some c)
    then have c: "u = ConstantExpr c" "wf_ap c" "getBitWidth c \<le> 32" "getZExtValue c = eval \<sigma> ui"
      using s(1) g assms(3) by (auto simp: same_def)
    then obtain z where z: "CE_getZExtValue c 64 = Some z" "uint z = eval \<sigma> ui"
      using index_of_const by force
    have eq: "z = ucast i \<longleftrightarrow> eval \<sigma> ui = uint i"
      using z(2) by (simp add: word_uint_eq_iff uint_ucast32)
    show ?thesis
    proof (cases "z = ucast i")
      case True
      then obtain w v2 where w: "rec uv v1 = Some (w, v2)" "act = ChangeTo w" "vis' = v2"
        using UpdateNode.prems u c z by (auto split: bind_splits)
      with True eq sound_visitD [OF assms(1) g(2) s(2) w(1)] g show ?thesis
        by (simp add: ev_rel_def [of full \<sigma> uv] same_means [of \<sigma> uv])
    next
      case False
      with UpdateNode u c z eq s show ?thesis by (auto split: bind_splits)
    qed
  qed
qed simp_all

lemma div_make:
  assumes "wt l" "wt r" "getWidth l = getWidth r" "is_div k" "getWidth l \<noteq> 1" "\<not> isZero r"
  shows "means \<sigma> (Binary_make K k l r) (getWidth l) (bv_bin k (getWidth l) (eval \<sigma> l) (eval \<sigma> r))"
proof (cases "as_const r")
  case (Some c)
  with assms have "eval \<sigma> r \<noteq> 0" by (simp add: ap_isZero_def)
  with binary_make [OF ok assms(1-3), of k] assms(4) show ?thesis by (cases k) (simp_all add: bv_width_def)
next
  case None
  then have "Binary_make K k l r = BinaryExpr k l r"
    using assms(4,5) by (cases k) (auto simp: BCREATE_def UDivExpr_create_def SDivExpr_create_def
      URemExpr_create_def SRemExpr_create_def split: option.split)
  with assms show ?thesis by (cases k) (simp_all add: means_def bv_width_def)
qed

lemma rebuild_same:
  assumes "G e" "list_all2 (same \<sigma>) (kids e) ks" "\<And>k l r. e = BinaryExpr k l r \<Longrightarrow> is_div k \<Longrightarrow> \<not> isZero (ks ! 1)"
  shows "same \<sigma> e (rebuild K e ks)"
proof (cases "\<exists>k l r. e = BinaryExpr k l r \<and> is_div k")
  case True
  then obtain k l r where e: "e = BinaryExpr k l r" "is_div k" by blast
  with assms(2) obtain l' r' where ks: "ks = [l', r']" "same \<sigma> l l'" "same \<sigma> r r'"
    by (auto simp: list_all2_Cons1)
  with div_make [of l' r' k] assms(1,3) e show ?thesis
    by (cases k) (simp_all add: same_def means_def ev_ok_def bv_width_def)
next
  case False
  then have d: "eval \<sigma> r \<noteq> 0" if "e = BinaryExpr k l r" "is_div k" for k l r using that by blast
  have "list_all2 (\<lambda>k k'. means \<sigma> k' (getWidth k) (eval \<sigma> k)) (kids e) ks"
    using assms(2) by (simp add: same_means [abs_def])
  with rebuild_make [OF ok _ d] assms(1) show ?thesis by (simp add: same_means ev_ok_def)
qed

lemma rebuild_const:
  assumes "getKind e \<noteq> Read" "getKind e \<noteq> NotOptimized" "length ks = length (kids e)" "\<forall>k \<in> set ks. is_constant k"
  shows "is_constant (rebuild K e ks)"
proof (cases e)
  case (BinaryExpr k l r)
  with assms obtain c d where "ks = [ConstantExpr c, ConstantExpr d]"
    by (auto simp: length_Suc_conv is_constant_iff numeral_2_eq_2)
  with BinaryExpr show ?thesis
    by (cases k) (simp_all add: Add_make.simps Sub_make.simps Eq_make.simps Mul_make_def And_make_def
      Or_make_def Xor_make_def Ne_make_def BCREATE_R_def BCREATE_def createIsZero_def)
qed (use assms in \<open>auto simp: length_Suc_conv is_constant_iff Select_make_def Concat_make.simps
  Extract_make.simps ZExt_make_def SExt_make_def Not_make_def Let_def numeral_2_eq_2 numeral_3_eq_3
  split: if_splits\<close>)

lemma all_const_kids:
  "list_all2 R (kids e) ks \<Longrightarrow> full \<Longrightarrow> (\<forall>k \<in> set ks. is_constant k) \<and> list_all2 (same \<sigma>) (kids e) ks"
  by (auto simp: list_all2_conv_all_nth in_set_conv_nth ev_rel_def)

lemma post_same: "wt e \<Longrightarrow> same \<sigma> e (visit_post V e)"
  by (cases e) (auto simp: visit_post_def visitor_defs evaluator_visitExprPost_def same_def)

lemma visitExpr_do:
  "evaluator_visitExpr K rec e vis = Some (DoChildren, vis') \<Longrightarrow> \<not> is_constant e \<Longrightarrow>
   getKind e = Read \<or> (\<exists>k \<in> set (kids e). \<not> is_constant k)"
  by (cases e) (auto simp: evaluator_visitExpr_def split: if_splits)

lemma visitExpr_sound:
  assumes "G e" "\<not> is_constant e" "evaluator_visitExpr K rec e vis = Some (act, vis')"
  shows "vis' = vis \<and> act \<noteq> SkipChildren \<and> (\<forall>e'. act = ChangeTo e' \<longrightarrow> R e e')"
proof -
  have "list_all2 (same \<sigma>) (kids e) (kids e)"
    using ev_ok_kids [OF assms(1)] by (auto simp: list.rel_refl_strong same_refl ev_ok_def)
  moreover have "\<not> isZero (kids e ! 1)" if "e = BinaryExpr k l r" "is_div k" for k l r
    using assms(1) that by (simp add: ev_ok_def)
  ultimately have "same \<sigma> e (rebuild K e (kids e))" by (rule rebuild_same [OF assms(1)])
  moreover have "is_constant (rebuild K e (kids e))"
    if "full" "getKind e \<noteq> Read" "\<forall>k \<in> set (kids e). is_constant k"
  proof (rule rebuild_const)
    show "getKind e \<noteq> NotOptimized" using that assms(1) by (cases e) (auto simp: ev_ok_def)
  qed (use that in auto)
  ultimately show ?thesis
    using assms(3) by (auto simp: evaluator_visitExpr_def ev_rel_def split: if_splits)
qed

lemma protectedDiv_sound:
  assumes "sound_visit R G rec" "G e" "e = BinaryExpr k l r" "is_div k"
    "entries R G vis" "protectedDivOperation K rec e l r vis = Some (act, vis')"
    "\<exists>k \<in> set (kids e). \<not> is_constant k"
  shows "entries R G vis' \<and> (act = SkipChildren \<longrightarrow> R e e) \<and> (\<forall>e'. act = ChangeTo e' \<longrightarrow> R e e')"
proof -
  obtain l' v1 r' where l': "rec l vis = Some (l', v1)" and r': "rec r v1 = Some (r', vis')"
    and act: "act = (let r'' = (if isZero r' then r else r') in
      if l' \<noteq> l \<or> r'' \<noteq> r then ChangeTo (rebuild K e [l', r'']) else SkipChildren)"
    using assms(6) by (auto simp: protectedDivOperation_def Let_def split: bind_splits if_splits)
  have g: "G l" "G r" "\<not> isZero r" using assms(2-4) by (auto simp: ev_ok_def)
  have s1: "same \<sigma> l l'" "entries R G v1" "full \<longrightarrow> is_constant l'"
    using sound_visitD [OF assms(1) g(1) assms(5) l'] ev_relD [of full \<sigma> l l'] by auto
  have s2: "same \<sigma> r r'" "entries R G vis'" "full \<longrightarrow> is_constant r'"
    using sound_visitD [OF assms(1) g(2) s1(2) r'] ev_relD [of full \<sigma> r r'] by auto
  have "same \<sigma> e (rebuild K e [l', if isZero r' then r else r'])"
    using assms(3) g s1(1) s2(1) by (intro rebuild_same [OF assms(2)]) (auto simp: same_refl ev_ok_def)
  moreover have "\<not> isZero r' \<and> (l' \<noteq> l \<or> r' \<noteq> r) \<and> is_constant (rebuild K e [l', r'])" if "full"
  proof (intro conjI)
    have "eval \<sigma> r \<noteq> 0" using assms(2,4) that by (simp add: ev_ok_def assms(3))
    then have "eval \<sigma> r' \<noteq> 0" using s2(1) by (simp add: same_def)
    then show "\<not> isZero r'" using s2(3) that by (auto simp: is_constant_iff ap_isZero_def)
    show "l' \<noteq> l \<or> r' \<noteq> r" using s1(3) s2(3) that assms(7) by (auto simp: assms(3))
    show "is_constant (rebuild K e [l', r'])"
      using s1(3) s2(3) that by (intro rebuild_const) (simp_all add: assms(3))
  qed
  moreover have "same \<sigma> e e" using assms(2) by (simp add: same_refl ev_ok_def)
  ultimately show ?thesis using s2(2) act by (auto simp: Let_def ev_rel_def [of full \<sigma> e] split: if_splits)
qed

lemma visitKind_sound:
  assumes "sound_visit R G rec" "G e" "entries R G vis"
    "evaluator_visitKind K gi rec e vis = Some (act, vis')" "getKind e = Read \<or> (\<exists>k \<in> set (kids e). \<not> is_constant k)"
  shows "entries R G vis' \<and> (act = SkipChildren \<longrightarrow> R e e) \<and> (\<forall>e'. act = ChangeTo e' \<longrightarrow> R e e') \<and>
    (act = DoChildren \<longrightarrow> (\<forall>k l r. e = BinaryExpr k l r \<longrightarrow> \<not> is_div k) \<and> (full \<longrightarrow> getKind e \<noteq> Read))"
proof (cases "\<exists>a us i. e = ReadExpr a us i")
  case True
  then obtain a us i where e: "e = ReadExpr a us i" by blast
  with assms(4) obtain v v1 where v: "rec i vis = Some (v, v1)"
    by (auto simp: evaluator_visitKind_def evaluator_visitRead_def split: bind_splits)
  have g: "G i" "wf_array a" "arr_domain a \<le> 32" "getWidth i = arr_domain a" "wt_updates us a" "ev_safe_updates us"
    "full \<longrightarrow> ev_full_updates \<sigma> us"
    using assms(2) e by (auto simp: ev_ok_def)
  have s: "same \<sigma> i v" "entries R G v1" "full \<longrightarrow> is_constant v"
    using sound_visitD [OF assms(1) g(1) assms(3) v] ev_relD [of full \<sigma> i v] by auto
  show ?thesis
  proof (cases "as_const v")
    case None
    with e v s assms(4) show ?thesis
      by (auto simp: evaluator_visitKind_def evaluator_visitRead_def as_const_None)
  next
    case (Some c)
    then have c: "wf_ap c" "getBitWidth c = arr_domain a" "getZExtValue c = eval \<sigma> i"
      using s(1) g by (auto simp: same_def)
    then obtain z where z: "CE_getZExtValue c 64 = Some z" "uint (ucast z :: 32 word) = eval \<sigma> i"
      using index_of_const [of c] g(3) by auto
    have "uint (ucast z :: 32 word) < 2 ^ arr_domain a" using z(2) c by (auto simp: wf_ap_def inr_def)
    from evalRead_sound [OF assms(1) g(2,3) this g(5-7) s(2)] e v z Some assms(4)
    show ?thesis
      by (auto simp: evaluator_visitKind_def evaluator_visitRead_def ev_rel_def [of _ \<sigma> "ReadExpr a us i"]
        same_means [of \<sigma> "ReadExpr a us i"])
  qed
next
  case False
  show ?thesis
  proof (cases "\<exists>k l r. e = BinaryExpr k l r \<and> is_div k")
    case True
    then obtain k l r where e: "e = BinaryExpr k l r" "is_div k" by blast
    with assms(4) have p: "protectedDivOperation K rec e l r vis = Some (act, vis')"
      by (simp add: evaluator_visitKind_def)
    then have "act \<noteq> DoChildren" by (auto simp: protectedDivOperation_def Let_def split: bind_splits if_splits)
    moreover have "\<exists>k \<in> set (kids e). \<not> is_constant k" using assms(5) by (simp add: e)
    ultimately show ?thesis using protectedDiv_sound [OF assms(1,2) e assms(3) p] by simp
  next
    case no_div: False
    with False have "evaluator_visitKind K gi rec e vis = Some (DoChildren, vis)"
      by (auto simp: evaluator_visitKind_def split: expr.split)
    with no_div False assms(3,4) show ?thesis by (cases e) auto
  qed
qed

end

sublocale evaluator \<subseteq> visitor_laws K "evaluator_visitor K gi" "ev_rel full \<sigma>" "ev_ok full \<sigma>"
proof unfold_locales
  fix e assume "G e" "is_constant e" then show "R e e" by (simp add: ev_rel_def same_refl ev_ok_def)
next
  fix e k assume "G e" "k \<in> set (kids e)" then show "G k" by (rule ev_ok_kids)
next
  fix rec e vis act vis' assume "G e" "\<not> is_constant e" "entries R G vis"
    "v_visitExpr V rec e vis = Some (act, vis')"
  with visitExpr_sound [of e rec vis act vis']
  show "entries R G vis' \<and> (act = SkipChildren \<longrightarrow> R e e) \<and> (\<forall>e'. act = ChangeTo e' \<longrightarrow> R e e')"
    by (simp add: visitor_defs)
next
  fix rec e vis vis0 act vis' assume "sound_visit R G rec" "G e" "\<not> is_constant e" "entries R G vis"
    "v_visitExpr V rec e vis0 = Some (DoChildren, vis)" "v_visitKind V rec e vis = Some (act, vis')"
  with visitKind_sound [of rec e vis act vis'] visitExpr_do [of rec e vis0 vis]
  show "entries R G vis' \<and> (act = SkipChildren \<longrightarrow> R e e) \<and> (\<forall>e'. act = ChangeTo e' \<longrightarrow> R e e')"
    by (simp add: visitor_defs)
next
  fix rec e vis vis0 vis' ks assume a: "sound_visit R G rec" "G e" "\<not> is_constant e" "entries R G vis"
    "v_visitExpr V rec e vis0 = Some (DoChildren, vis)" "v_visitKind V rec e vis = Some (DoChildren, vis')"
    "list_all2 R (kids e) ks"
  have nc: "getKind e = Read \<or> (\<exists>k \<in> set (kids e). \<not> is_constant k)"
    using visitExpr_do [of rec e vis0 vis] a(3,5) by (simp add: visitor_defs)
  have k: "\<And>k l r. e = BinaryExpr k l r \<Longrightarrow> \<not> is_div k" "full \<Longrightarrow> getKind e \<noteq> Read"
    using visitKind_sound [OF a(1,2,4) _ nc, of DoChildren vis'] a(6) by (auto simp: visitor_defs)
  let ?e = "if ks = kids e then e else rebuild K e ks"
  have "list_all2 (same \<sigma>) (kids e) ks" using a(7) by (rule list_all2_mono) (simp add: ev_rel_def)
  with rebuild_same [OF a(2)] k(1) have "same \<sigma> e (rebuild K e ks)" by blast
  moreover have "same \<sigma> e e" using a(2) by (simp add: same_refl ev_ok_def)
  ultimately have s: "same \<sigma> e ?e" by simp
  moreover have "is_constant (visit_post V ?e)" if "full"
  proof -
    have c: "\<forall>k \<in> set ks. is_constant k" "length ks = length (kids e)"
      using all_const_kids [OF a(7) that] a(7) by (auto dest: list_all2_lengthD)
    then have "ks \<noteq> kids e" using nc k(2) that by auto
    moreover have "is_constant (visit_post V (rebuild K e ks))"
    proof (cases e)
      case (NotOptimizedExpr x)
      with c show ?thesis
        by (auto simp: visit_post_def visitor_defs evaluator_visitExprPost_def length_Suc_conv)
    qed (use rebuild_const [OF k(2) _ c(2,1)] that in \<open>auto simp: visit_post_def\<close>)
    ultimately show ?thesis by simp
  qed
  ultimately show "R e (visit_post V ?e)"
    using post_same [of ?e] by (auto simp: ev_rel_def same_def)
qed (simp_all add: visitor_defs)

subsection \<open>The evaluator returns\<close>

text \<open>Every expression smaller than \<open>m\<close> gets a result.\<close>

definition total_below :: "(expr \<Rightarrow> expr \<Rightarrow> bool) \<Rightarrow> (expr \<Rightarrow> bool) \<Rightarrow> nat \<Rightarrow> visit_fun \<Rightarrow> bool" where
  "total_below rel good m rec \<longleftrightarrow>
     (\<forall>e vis. good e \<longrightarrow> entries rel good vis \<longrightarrow> size e < m \<longrightarrow> (\<exists>p. rec e vis = Some p))"

lemma total_belowE:
  assumes "total_below rel good m rec" "sound_visit rel good rec" "good e" "entries rel good vis" "size e < m"
  obtains r vis' where "rec e vis = Some (r, vis')" "rel e r" "entries rel good vis'"
proof -
  have "\<exists>p. rec e vis = Some p" using assms(1,3-5) unfolding total_below_def by blast
  then obtain r vis' where "rec e vis = Some (r, vis')" by force
  with assms sound_visitD [OF assms(2-4)] that show ?thesis by blast
qed

lemma size_kids: "k \<in> set (kids e) \<Longrightarrow> size k < size e"
  by (cases e) auto

locale total_evaluator = evaluator +
  assumes initial_total: "\<lbrakk>wf_array a; arr_domain a \<le> 32; uint i < 2 ^ arr_domain a;
      \<not> (isConstantArray a \<and> unat i < arr_size a)\<rbrakk> \<Longrightarrow> \<exists>e. gi a i = Some e"
begin

lemma evalRead_total:
  assumes "sound_visit R G rec" "total_below R G m rec"
    and "wf_array a" "arr_domain a \<le> 32" "uint i < 2 ^ arr_domain a"
  shows "\<lbrakk>wt_updates us a; ev_safe_updates us; full \<longrightarrow> ev_full_updates \<sigma> us; entries R G vis; size us \<le> m\<rbrakk> \<Longrightarrow>
    \<exists>p. evaluator_evalRead K gi rec a i us vis = Some p"
proof (induction us arbitrary: vis rule: updates.induct [where ?P1.0 = "\<lambda>_. True"])
  case UpdateNil
  then show ?case
    using initial_total [OF assms(3-5)] by (cases "isConstantArray a \<and> unat i < arr_size a") auto
next
  case (UpdateNode ui uv n)
  have g: "G ui" "G uv" "getWidth ui = arr_domain a" "size ui < m" "size uv < m"
    using UpdateNode.prems by (auto simp: ev_ok_def)
  obtain u v1 where u: "rec ui vis = Some (u, v1)" "R ui u" "entries R G v1"
    using total_belowE [OF assms(2,1) g(1) UpdateNode.prems(4) g(4)] .
  show ?case
  proof (cases "as_const u")
    case (Some c)
    then obtain z where z: "CE_getZExtValue c 64 = Some z"
      using index_of_const [of c] u(2) g(3) assms(4) by (auto simp: same_def ev_rel_def)
    show ?thesis
    proof (cases "z = ucast i")
      case True
      obtain w v2 where "rec uv v1 = Some (w, v2)"
        using total_belowE [OF assms(2,1) g(2) u(3) g(5)] .
      with True Some z u(1) show ?thesis by simp
    next
      case False
      with UpdateNode.IH [of v1] UpdateNode.prems u Some z show ?thesis by simp
    qed
  qed (use u(1) in simp)
qed simp_all

lemma kids_total:
  assumes "sound_visit R G rec" "total_below R G m rec"
    and "\<forall>k \<in> set es. G k \<and> size k < m" "entries R G vis"
  shows "\<exists>p. visit_kids rec es vis = Some p"
  using assms(3,4)
proof (induction es arbitrary: vis)
  case (Cons e es)
  obtain k v1 where k: "rec e vis = Some (k, v1)" "entries R G v1"
    using total_belowE [OF assms(2,1), of e vis] Cons.prems by (metis list.set_intros(1))
  with Cons.IH [of v1] Cons.prems show ?case by (cases "visit_kids rec es v1") auto
qed simp

lemma visitKind_total:
  assumes "sound_visit R G rec" "total_below R G m rec"
    and "G e" "entries R G vis" "size e \<le> m"
  shows "\<exists>p. evaluator_visitKind K gi rec e vis = Some p"
proof (cases e)
  case (ReadExpr a us i)
  then have g: "G i" "wf_array a" "arr_domain a \<le> 32" "getWidth i = arr_domain a" "wt_updates us a"
    "ev_safe_updates us" "full \<longrightarrow> ev_full_updates \<sigma> us" "size i < m" "size us \<le> m"
    using assms(3,5) by (auto simp: ev_ok_def)
  obtain v v1 where v: "rec i vis = Some (v, v1)" "R i v" "entries R G v1"
    using total_belowE [OF assms(2,1) g(1) assms(4) g(8)] .
  show ?thesis
  proof (cases "as_const v")
    case (Some c)
    then have c: "wf_ap c" "getBitWidth c = arr_domain a" using v(2) g(4) by (auto simp: same_def ev_rel_def)
    then obtain z where z: "CE_getZExtValue c 64 = Some z" "uint (ucast z :: 32 word) = getZExtValue c"
      using index_of_const [of c] g(3) by auto
    then have "uint (ucast z :: 32 word) < 2 ^ arr_domain a" using c by (auto simp: wf_ap_def inr_def)
    from evalRead_total [OF assms(1,2) g(2,3) this g(5-7) v(3) g(9)] v(1) Some z ReadExpr
    show ?thesis by (simp add: evaluator_visitKind_def evaluator_visitRead_def)
  qed (use v ReadExpr in \<open>simp add: evaluator_visitKind_def evaluator_visitRead_def\<close>)
next
  case (BinaryExpr k l r)
  then have g: "G l" "G r" "size l < m" "size r < m" using assms(3,5) by (auto simp: ev_ok_def)
  obtain l' v1 where l: "rec l vis = Some (l', v1)" "entries R G v1"
    using total_belowE [OF assms(2,1) g(1) assms(4) g(3)] .
  obtain r' v2 where "rec r v1 = Some (r', v2)" using total_belowE [OF assms(2,1) g(2) l(2) g(4)] .
  with l(1) BinaryExpr show ?thesis by (simp add: evaluator_visitKind_def protectedDivOperation_def Let_def)
qed (simp_all add: evaluator_visitKind_def)

lemma visit_total: "total_below R G n (visit n K V)"
proof (induction n)
  case (Suc n)
  let ?rec = "visit n K V"
  have actual: "\<exists>p. visitActual K V ?rec e vis = Some p"
    if g: "G e" "entries R G vis" "size e \<le> n" for e vis
  proof (cases "is_constant e")
    case False
    obtain act1 v1 where 1: "evaluator_visitExpr K ?rec e vis = Some (act1, v1)"
      by (metis evaluator_visitExpr_def)
    then have v1: "v1 = vis" by (auto simp: evaluator_visitExpr_def split: if_splits)
    obtain act2 v2 where 2: "evaluator_visitKind K gi ?rec e v1 = Some (act2, v2)"
      using visitKind_total [OF visit_sound Suc g] v1 by auto
    show ?thesis
    proof (cases "act1 = DoChildren \<and> act2 = DoChildren")
      case True
      have "entries R G v2"
        using visitKind_sound [OF visit_sound g(1,2) 2 [unfolded v1] visitExpr_do [OF _ False]] 1 True by blast
      moreover have "\<forall>k \<in> set (kids e). G k \<and> size k < n"
        using ev_ok_kids [OF g(1)] size_kids [of _ e] g(3) by fastforce
      ultimately obtain ks where "visit_kids ?rec (kids e) v2 = Some ks"
        using kids_total [OF visit_sound Suc] by blast
      with 1 2 False True show ?thesis
        by (cases ks) (auto simp: visitActual_def visit_children_def visitor_defs)
    next
      case other: False
      with 1 2 False show ?thesis
        by (cases act1; cases act2) (auto simp: visitActual_def visitor_defs)
    qed
  qed (simp add: visitActual_def)
  show ?case
    unfolding total_below_def
  proof (intro allI impI)
    fix e vis assume "G e" "entries R G vis" "size e < Suc n"
    then obtain p where "visitActual K V ?rec e vis = Some p" using actual [of e vis] by auto
    then show "\<exists>p. visit (Suc n) K V e vis = Some p"
      by (cases "vis e"; cases p) auto
  qed
qed (simp add: total_below_def)

text \<open>One visit with a fresh table returns an expression of the same meaning.\<close>

lemma evaluator_visit_ok:
  assumes "G e" shows "\<exists>r. evaluator_visit K gi e = Some r \<and> R e r"
proof -
  obtain r vis' where "visit (Suc (size e)) K V e Map.empty = Some (r, vis')" "R e r"
    using total_belowE [OF visit_total visit_sound assms entries_empty] by (metis lessI)
  then show ?thesis by (simp add: evaluator_visit_def del: visit.simps)
qed

end

end
