(* ===== verification/Assignment.thy ===== *)
theory Assignment
  imports ExprVisitor
begin

section \<open>Assignments (klee/util/Assignment.h)\<close>

text \<open>
  \<^verbatim>\<open>Assignment\<close> maps arrays to the bytes of their initial contents; \<^verbatim>\<open>AssignmentEvaluator\<close> is an
  \<^verbatim>\<open>ExprEvaluator\<close> that takes initial values from it. Locale \<open>total_evaluator\<close> is interpreted on it, so that
  evaluation returns, keeps the meaning, gives a constant when free values are not allowed, and decides
  \<^verbatim>\<open>satisfies\<close>.
\<close>

type_synonym byte = "8 word"

record bindings =
  allowFreeValues :: bool
  bindings :: "array \<Rightarrow> byte list option"

text \<open>The constructor from parallel vectors: \<^verbatim>\<open>map::insert\<close> keeps the first vector of an array; \<open>None\<close> is
  reading past the end of \<open>values\<close>.\<close>

primrec bind_objects :: "array list \<Rightarrow> byte list list \<Rightarrow> (array \<Rightarrow> byte list option) \<Rightarrow>
    (array \<Rightarrow> byte list option) option" where
  "bind_objects [] vals b = Some b"
| "bind_objects (os # objs) vals b =
     (case vals of [] \<Rightarrow> None
      | arr # vals' \<Rightarrow> bind_objects objs vals' (if b os = None then b(os \<mapsto> arr) else b))"

definition newAssignment :: "array list \<Rightarrow> byte list list \<Rightarrow> bool \<Rightarrow> bindings option" where
  "newAssignment objs vals free =
     map_option (\<lambda>b. \<lparr>allowFreeValues = free, bindings = b\<rparr>) (bind_objects objs vals Map.empty)"

definition evaluate_array :: "'z expr_env_scheme \<Rightarrow> bindings \<Rightarrow> array \<Rightarrow> 32 word \<Rightarrow> expr" where
  "evaluate_array K A a index =
     (let free = (if allowFreeValues A
        then Read_make K a UpdateNil (ConstantExpr (ConstantExpr_alloc K (uint index) (arr_domain a)))
        else ConstantExpr (ConstantExpr_alloc K 0 (arr_range a)))
      in case bindings A a of
        Some bytes \<Rightarrow>
          if unat index < length bytes
          then ConstantExpr (ConstantExpr_alloc K (uint (bytes ! unat index)) (arr_range a)) else free
      | None \<Rightarrow> free)"

text \<open>\<^verbatim>\<open>AssignmentEvaluator::getInitialValue\<close>.\<close>

definition assignment_getInitialValue :: "'z expr_env_scheme \<Rightarrow> bindings \<Rightarrow> initial_values" where
  "assignment_getInitialValue K A a index = Some (evaluate_array K A a index)"

definition evaluate_expr :: "'z expr_env_scheme \<Rightarrow> bindings \<Rightarrow> expr \<Rightarrow> expr option" where
  "evaluate_expr K A e = evaluator_visit K (assignment_getInitialValue K A) e"

text \<open>\<^verbatim>\<open>satisfies\<close> uses one evaluator, and so one table of visited expressions, for all constraints.\<close>

primrec satisfies_loop :: "'z expr_env_scheme \<Rightarrow> visitor \<Rightarrow> expr list \<Rightarrow> visited \<Rightarrow> bool option" where
  "satisfies_loop K v [] vis = Some True"
| "satisfies_loop K v (c # cs) vis = do {
     (r, vis) \<leftarrow> visit (Suc (size c)) K v c vis;
     t \<leftarrow> isTrue r;
     if \<not> t then Some False else satisfies_loop K v cs vis }"

definition satisfies :: "'z expr_env_scheme \<Rightarrow> bindings \<Rightarrow> expr list \<Rightarrow> bool option" where
  "satisfies K A cs = satisfies_loop K (evaluator_visitor K (assignment_getInitialValue K A)) cs Map.empty"

subsection \<open>The assignments an \<^verbatim>\<open>Assignment\<close> stands for\<close>

text \<open>Unbound bytes are free, or zero when free values are not allowed.\<close>

definition bound_byte :: "bindings \<Rightarrow> array \<Rightarrow> int \<Rightarrow> byte option" where
  "bound_byte A a i = (case bindings A a of
     Some bytes \<Rightarrow> if 0 \<le> i \<and> i < int (length bytes) then Some (bytes ! nat i) else None | None \<Rightarrow> None)"

definition agrees :: "bindings \<Rightarrow> assignment \<Rightarrow> bool" where
  "agrees A \<sigma> \<longleftrightarrow> assign_ok \<sigma> \<and>
     (\<forall>a i. case bound_byte A a i of Some b \<Rightarrow> \<sigma> a i = take_bit (arr_range a) (uint b)
       | None \<Rightarrow> allowFreeValues A \<or> \<sigma> a i = 0)"

definition value_of :: "bindings \<Rightarrow> assignment" where
  "value_of A a i = (case bound_byte A a i of Some b \<Rightarrow> take_bit (arr_range a) (uint b) | None \<Rightarrow> 0)"

lemma agrees_value_of [simp]: "agrees A (value_of A)"
  by (auto simp: agrees_def value_of_def assign_ok_def split: option.split)

lemma agrees_unique: "agrees A \<sigma> \<Longrightarrow> \<not> allowFreeValues A \<Longrightarrow> \<sigma> = value_of A"
  by (intro ext) (force simp: agrees_def value_of_def split: option.splits)

lemma agrees_ok: "agrees A \<sigma> \<Longrightarrow> assign_ok \<sigma>"
  by (simp add: agrees_def)

lemma bound_byte_word:
  "bound_byte A a (uint i) = (case bindings A a of
     Some bytes \<Rightarrow> if unat i < length bytes then Some (bytes ! unat i) else None | None \<Rightarrow> None)"
  by (auto simp: bound_byte_def nat_less_iff [symmetric] split: option.split)

lemma evaluate_array_eq:
  "evaluate_array K A a i = (case bound_byte A a (uint i) of
     Some b \<Rightarrow> ConstantExpr (ConstantExpr_alloc K (uint b) (arr_range a))
   | None \<Rightarrow> if allowFreeValues A
       then Read_make K a UpdateNil (ConstantExpr (ConstantExpr_alloc K (uint i) (arr_domain a)))
       else ConstantExpr (ConstantExpr_alloc K 0 (arr_range a)))"
  by (simp add: evaluate_array_def bound_byte_word Let_def split: option.split)

context default_env
begin

lemma evaluate_array_means:
  assumes "agrees A \<sigma>" "wf_array a" "uint i < 2 ^ arr_domain a" "\<not> (isConstantArray a \<and> unat i < arr_size a)"
  shows "means \<sigma> (evaluate_array K A a i) (arr_range a) (initial_value \<sigma> a (uint i)) \<and>
    (\<not> allowFreeValues A \<longrightarrow> is_constant (evaluate_array K A a i))"
proof -
  have init: "initial_value \<sigma> a (uint i) = \<sigma> a (uint i)"
    using assms(4) by (auto simp: initial_value_def nat_less_iff [symmetric])
  have pos: "0 < arr_range a" "0 < arr_domain a" using assms(2) by (auto simp: wf_array_def)
  have i: "take_bit (arr_domain a) (uint i) = uint i" "inr (arr_domain a) (uint i)"
    using assms(3) by (auto simp: inr_def take_bit_inr)
  show ?thesis
  proof (cases "bound_byte A a (uint i)")
    case (Some b)
    with assms(1) have "\<sigma> a (uint i) = take_bit (arr_range a) (uint b)"
      by (auto simp: agrees_def split: option.splits dest: spec [of _ a] spec [of _ "uint i"])
    with Some init pos show ?thesis by (simp add: evaluate_array_eq means_def)
  next
    case None
    with assms(1) have free: "allowFreeValues A \<or> \<sigma> a (uint i) = 0"
      by (auto simp: agrees_def dest!: spec [of _ a] spec [of _ "uint i"])
    show ?thesis
      using None init pos i free assms(2) read_make [OF agrees_ok [OF assms(1)], of a UpdateNil "ConstantExpr (APInt (arr_domain a) (uint i))"]
      by (auto simp: evaluate_array_eq means_def)
  qed
qed

lemma assignment_total:
  "agrees A \<sigma> \<Longrightarrow> (full \<Longrightarrow> \<not> allowFreeValues A) \<Longrightarrow>
   total_evaluator K (assignment_getInitialValue K A) \<sigma> full"
  using evaluate_array_means [of A \<sigma>]
  by unfold_locales (auto simp: assignment_getInitialValue_def dest: agrees_ok)

end

context total_evaluator
begin

lemma satisfies_loop_correct:
  assumes full and "\<forall>c \<in> set cs. G c \<and> getWidth c = 1" "entries R G vis"
  shows "satisfies_loop K V cs vis = Some (\<forall>c \<in> set cs. eval \<sigma> c = 1)"
  using assms(2,3)
proof (induction cs arbitrary: vis)
  case (Cons c cs)
  then have g: "G c" "getWidth c = 1" by auto
  obtain r v where r: "visit (Suc (size c)) K V c vis = Some (r, v)" "R c r" "entries R G v"
    using total_belowE [OF visit_total visit_sound g(1) Cons.prems(2)] by (metis lessI)
  have "isTrue r = Some (eval \<sigma> c = 1)"
    using r(2) assms(1) g(2)
    by (auto simp: isTrue_def ev_rel_def same_def is_constant_iff ap_isTrue_def wf_ap_def dest: inr_Suc0D)
  with r(1) Cons.IH [OF _ r(3)] Cons.prems(1) show ?case by (simp del: visit.simps isTrue_bool)
qed simp

lemma zero_divisor:
  assumes full "wt (BinaryExpr k l r)" "ev_safe (BinaryExpr k l r)" "is_div k" "ev_full \<sigma> l" "ev_full \<sigma> r"
    "\<not> is_constant r" "eval \<sigma> r = 0"
  shows "evaluator_visit K gi (BinaryExpr k l r) =
    Some (BinaryExpr k (ConstantExpr (APInt (getWidth l) (eval \<sigma> l))) r)"
proof -
  let ?e = "BinaryExpr k l r" let ?l = "ConstantExpr (APInt (getWidth l) (eval \<sigma> l))"
  have g: "G l" "G r" "size l < size ?e" "size r < size ?e" using assms by (auto simp: ev_ok_def)
  obtain l' v1 where l: "visit (size ?e) K V l Map.empty = Some (l', v1)" "R l l'" "entries R G v1"
    using total_belowE [OF visit_total visit_sound g(1) entries_empty g(3)] .
  obtain r' v2 where r: "visit (size ?e) K V r v1 = Some (r', v2)" "R r r'"
    using total_belowE [OF visit_total visit_sound g(2) l(3) g(4)] .
  have l': "l' = ?l" using l(2) assms(1) by (auto simp: ev_rel_def same_def is_constant_iff) (metis ap_eq)
  have r': "isZero r'"
    using r(2) assms(1,8) by (auto simp: ev_rel_def same_def is_constant_iff ap_isZero_def)
  have make: "Binary_make K k ?l r = BinaryExpr k ?l r"
    using assms(2-4,7) as_const_None [of r] by (cases k) (auto simp: BCREATE_def UDivExpr_create_def
      SDivExpr_create_def URemExpr_create_def SRemExpr_create_def split: option.split)
  have "evaluator_visitKind K gi (visit (size ?e) K V) ?e Map.empty =
      Some (if ?l = l then SkipChildren else ChangeTo (BinaryExpr k ?l r), v2)"
    using assms(4) l(1) r(1) l' r' make
    by (auto simp: evaluator_visitKind_def protectedDivOperation_def Let_def simp del: visit.simps)
  moreover have "evaluator_visitExpr K (visit (size ?e) K V) ?e Map.empty = Some (DoChildren, Map.empty)"
    using assms(7) by (simp add: evaluator_visitExpr_def)
  ultimately have "\<exists>vis. visitActual K V (visit (size ?e) K V) ?e Map.empty = Some (BinaryExpr k ?l r, vis)"
    by (simp add: visitActual_def visitor_defs)
  then show ?thesis by (auto simp: evaluator_visit_def)
qed

end

text \<open>The evaluator of an \<^verbatim>\<open>Assignment\<close> that leaves no value free.\<close>

interpretation asg: total_evaluator "std_env False"
    "assignment_getInitialValue (std_env False) (A\<lparr>allowFreeValues := False\<rparr>)"
    "value_of (A\<lparr>allowFreeValues := False\<rparr>)" True for A
  by (rule std_d.assignment_total) simp_all


context default_env
begin

lemma evaluation_total:
  assumes "agrees A \<sigma>" "wt e" "ev_safe e"
  shows "\<exists>r. evaluate_expr K A e = Some r \<and> wt r \<and> getWidth r = getWidth e \<and> eval \<sigma> r = eval \<sigma> e"
  using total_evaluator.evaluator_visit_ok [OF assignment_total [OF assms(1), of False], of e] assms(2,3)
  by (simp add: evaluate_expr_def ev_ok_def ev_rel_def same_def)

lemma evaluation_constant:
  assumes "\<not> allowFreeValues A" "wt e" "ev_safe e" "ev_full (value_of A) e"
  shows "evaluate_expr K A e = Some (ConstantExpr (APInt (getWidth e) (eval (value_of A) e)))"
proof -
  have "total_evaluator K (assignment_getInitialValue K A) (value_of A) True"
    using assignment_total [OF agrees_value_of] assms(1) by simp
  from total_evaluator.evaluator_visit_ok [OF this] assms(2-4)
  obtain r where "evaluate_expr K A e = Some r" "ev_rel True (value_of A) e r"
    by (auto simp: evaluate_expr_def ev_ok_def)
  then show ?thesis by (auto simp: ev_rel_def same_def is_constant_iff) (metis ap_eq)
qed

end

text \<open>A \<^verbatim>\<open>NotOptimizedExpr\<close> over a constant is left as it is.\<close>

lemma visit_kept:
  "\<exists>vis. visit (Suc n) K (evaluator_visitor K gi) (NotOptimizedExpr (ConstantExpr c)) Map.empty =
     Some (NotOptimizedExpr (ConstantExpr c), vis)"
  by (simp add: visitActual_def visitor_defs evaluator_visitExpr_def)

lemma evaluate_kept: "evaluate_expr K A (NotOptimizedExpr (ConstantExpr c)) = Some (NotOptimizedExpr (ConstantExpr c))"
  using visit_kept [of "size (NotOptimizedExpr (ConstantExpr c))" K "assignment_getInitialValue K A" c]
  by (auto simp: evaluate_expr_def evaluator_visit_def simp del: visit.simps)

lemma satisfies_kept: "satisfies K A (NotOptimizedExpr (ConstantExpr (APInt 1 1)) # cs) = Some False"
  using visit_kept [of "size (NotOptimizedExpr (ConstantExpr (APInt 1 1)))" K "assignment_getInitialValue K A" "APInt 1 1"]
  by (auto simp: satisfies_def isTrue_def simp del: visit.simps)

section \<open>Properties of evaluation\<close>

text \<open>C17: evaluating a well-typed expression under an \<^verbatim>\<open>Assignment\<close> always ends, within as many nested
  \<^verbatim>\<open>visit\<close> calls as the expression has nodes, and the result is well typed, of the same width and equal
  to the expression under every assignment of the arrays that agrees with the bound bytes. (\<open>ev_safe\<close>: array
  indices of at most 32 bits, and no division of single bits or by the literal zero.) When free values are not
  allowed, it is the constant that the expression denotes, unbound bytes being zero, if \<open>ev_full\<close> holds: no divisor
  evaluates to zero and no \<^verbatim>\<open>NotOptimizedExpr\<close> stands directly over a constant. The last condition is needed: such an
  expression evaluates to itself, because \<^verbatim>\<open>visitExpr\<close> rebuilds a node with constant kids and does not go on to
  \<^verbatim>\<open>visitExprPost\<close>, which would remove the wrapper.\<close>

theorem evaluate_expr_total:
  assumes "default_env K" "wt e" "ev_safe e"
  shows "(agrees A \<sigma> \<longrightarrow>
      (\<exists>r. evaluate_expr K A e = Some r \<and> wt r \<and> getWidth r = getWidth e \<and> eval \<sigma> r = eval \<sigma> e)) \<and>
    (\<not> allowFreeValues A \<and> ev_full (value_of A) e \<longrightarrow>
      evaluate_expr K A e = Some (ConstantExpr (APInt (getWidth e) (eval (value_of A) e)))) \<and>
    (\<forall>c. evaluate_expr K A (NotOptimizedExpr (ConstantExpr c)) = Some (NotOptimizedExpr (ConstantExpr c)))"
  using default_env.evaluation_total [OF assms(1) _ assms(2,3)] default_env.evaluation_constant [OF assms(1) _ assms(2,3)]
    evaluate_kept by blast

text \<open>C18: \<^verbatim>\<open>satisfies\<close>, which shares one table of visited expressions between the constraints, returns
  whether every constraint is true under the assignment's bytes, for constraints that evaluate to constants
  (\<open>ev_full\<close>: no divisor evaluates to zero, no \<^verbatim>\<open>NotOptimizedExpr\<close> stands directly over a constant). It does not for
  others: the constraint \<^verbatim>\<open>NotOptimizedExpr\<close> of true is true and counts as not satisfied, whatever the
  constraints after it.\<close>

theorem satisfies_correct:
  assumes "default_env K" "\<not> allowFreeValues A"
    and "\<forall>c \<in> set cs. wt c \<and> getWidth c = 1 \<and> ev_safe c \<and> ev_full (value_of A) c"
  shows "satisfies K A cs = Some (\<forall>c \<in> set cs. eval (value_of A) c = 1) \<and>
    eval (value_of A) (NotOptimizedExpr (ConstantExpr (APInt 1 1))) = 1 \<and>
    satisfies K A (NotOptimizedExpr (ConstantExpr (APInt 1 1)) # cs) = Some False"
proof -
  have "total_evaluator K (assignment_getInitialValue K A) (value_of A) True"
    using default_env.assignment_total [OF assms(1) agrees_value_of] assms(2) by simp
  from total_evaluator.satisfies_loop_correct [OF this] assms(3)
  have "satisfies K A cs = Some (\<forall>c \<in> set cs. eval (value_of A) c = 1)" by (simp add: satisfies_def ev_ok_def)
  moreover have "satisfies K A (NotOptimizedExpr (ConstantExpr (APInt 1 1)) # cs) = Some False"
    by (rule satisfies_kept)
  ultimately show ?thesis by simp
qed

text \<open>C19: a divisor that evaluates to zero is not divided by: with a divisor that is not itself a
  literal, evaluation keeps the division with its original divisor and the value of the dividend.\<close>

theorem zero_divisor_kept:
  assumes "default_env K" "\<not> allowFreeValues A" "wt (BinaryExpr k l r)" "ev_safe (BinaryExpr k l r)" "is_div k"
    and "ev_full (value_of A) l" "ev_full (value_of A) r" "\<not> is_constant r" "eval (value_of A) r = 0"
  shows "evaluate_expr K A (BinaryExpr k l r) =
    Some (BinaryExpr k (ConstantExpr (APInt (getWidth l) (eval (value_of A) l))) r)"
proof -
  have "total_evaluator K (assignment_getInitialValue K A) (value_of A) True"
    using default_env.assignment_total [OF assms(1) agrees_value_of] assms(2) by simp
  from total_evaluator.zero_divisor [OF this _ assms(3-9)] show ?thesis by (simp add: evaluate_expr_def)
qed

subsection \<open>Witnesses\<close>

definition sample_bindings :: "bool \<Rightarrow> bindings" where
  "sample_bindings free = \<lparr>allowFreeValues = free, bindings = [sym_array \<mapsto> [5, 0, 7]]\<rparr>"

definition sample_sum :: expr where
  "sample_sum = BinaryExpr Add (rd 0) (rd 2)"

lemma sample_facts:
  "wt sample_sum" "ev_safe sample_sum" "getWidth sample_sum = 8" "ev_full \<sigma> sample_sum"
  "eval (value_of (sample_bindings free)) (rd 0) = 5" "eval (value_of (sample_bindings free)) (rd 1) = 0"
  "eval (value_of (sample_bindings free)) (rd 2) = 7" "eval (value_of (sample_bindings free)) sample_sum = 12"
  "\<not> allowFreeValues (sample_bindings False)"
  by (simp_all add: sample_sum_def initial_value_def isConstantArray_def value_of_def bound_byte_def
    sample_bindings_def inr_def bv_bin_def bv_width_def take_bit_eq_mod)

theorem evaluate_expr_total_witness:
  "(\<exists>r. evaluate_expr (std_env False) (sample_bindings True) sample_sum = Some r \<and>
    eval (value_of (sample_bindings True)) r = 12) \<and>
   evaluate_expr (std_env False) (sample_bindings False) sample_sum = Some (ConstantExpr (APInt 8 12))"
  using evaluate_expr_total [OF std_d.default_env_axioms sample_facts(1,2), of "sample_bindings True" "value_of (sample_bindings True)"]
    evaluate_expr_total [OF std_d.default_env_axioms sample_facts(1,2), of "sample_bindings False" "\<lambda>a i. 0"]
    agrees_value_of [of "sample_bindings True"]
  by (auto simp: sample_facts)

theorem satisfies_correct_witness:
  "satisfies (std_env False) (sample_bindings False)
     [BinaryExpr Ult (rd 0) (rd 2), BinaryExpr Eq (rd 1) (rd 2)] = Some False"
  using satisfies_correct [OF std_d.default_env_axioms sample_facts(9),
      of "[BinaryExpr Ult (rd 0) (rd 2), BinaryExpr Eq (rd 1) (rd 2)]"]
  by (simp add: bv_bin_def bv_width_def sample_facts inr_def del: eval.simps(3))

theorem zero_divisor_kept_witness:
  "evaluate_expr (std_env False) (sample_bindings False) (BinaryExpr UDiv (rd 2) (rd 1)) =
    Some (BinaryExpr UDiv (ConstantExpr (APInt 8 7)) (rd 1))"
  using zero_divisor_kept [OF std_d.default_env_axioms sample_facts(9), of UDiv "rd 2" "rd 1"]
  by (simp add: sample_facts inr_def del: eval.simps(3))

end
