(* ===== verification/FastCex.thy ===== *)
theory FastCex
  imports Assignment
begin

section \<open>The range-propagating solver (FastCexSolver.cpp)\<close>

text \<open>
  \<^verbatim>\<open>CexData\<close> keeps, for every byte of every array, a range of values it may be given (\<^verbatim>\<open>possibleContents\<close>)
  and a range its value cannot leave (\<^verbatim>\<open>exactContents\<close>). The solver propagates a query's constraints into
  both, then evaluates the query under the first to find a counterexample and under the second to prove it.
  \<open>None\<close> is a failed assertion, an access past the end of a vector or an undefined shift.
\<close>

subsection \<open>CexObjectData and CexData\<close>

record cex_object =
  possibleContents :: "value_range list"
  exactContents :: "value_range list"

definition newCexObject :: "nat \<Rightarrow> cex_object" where
  "newCexObject n = \<lparr>possibleContents = replicate n (range_bounds 0 255),
     exactContents = replicate n (range_bounds 0 255)\<rparr>"

definition vector_at :: "'a list \<Rightarrow> nat \<Rightarrow> 'a option" where
  "vector_at xs i = (if i < length xs then Some (xs ! i) else None)"

definition vector_set :: "'a list \<Rightarrow> nat \<Rightarrow> 'a \<Rightarrow> 'a list option" where
  "vector_set xs i x = (if i < length xs then Some (xs[i := x]) else None)"

definition getPossibleValues :: "cex_object \<Rightarrow> nat \<Rightarrow> value_range option" where
  "getPossibleValues cod i = vector_at (possibleContents cod) i"

definition setPossibleValues :: "cex_object \<Rightarrow> nat \<Rightarrow> value_range \<Rightarrow> cex_object option" where
  "setPossibleValues cod i vals =
     map_option (\<lambda>xs. cod\<lparr>possibleContents := xs\<rparr>) (vector_set (possibleContents cod) i vals)"

definition setPossibleValue :: "cex_object \<Rightarrow> nat \<Rightarrow> byte \<Rightarrow> cex_object option" where
  "setPossibleValue cod i v = setPossibleValues cod i (range_value (ucast v))"

definition getExactValues :: "cex_object \<Rightarrow> nat \<Rightarrow> value_range option" where
  "getExactValues cod i = vector_at (exactContents cod) i"

definition setExactValues :: "cex_object \<Rightarrow> nat \<Rightarrow> value_range \<Rightarrow> cex_object option" where
  "setExactValues cod i vals =
     map_option (\<lambda>xs. cod\<lparr>exactContents := xs\<rparr>) (vector_set (exactContents cod) i vals)"

definition getPossibleValue :: "cex_object \<Rightarrow> nat \<Rightarrow> byte option" where
  "getPossibleValue cod i = do {
     cvd \<leftarrow> vector_at (possibleContents cod) i;
     lo \<leftarrow> range_min cvd; hi \<leftarrow> range_max cvd;
     Some (ucast (lo + (hi - lo) div 2)) }"

type_synonym cex_objects = "array \<Rightarrow> cex_object option"

definition getObjectData :: "cex_objects \<Rightarrow> array \<Rightarrow> cex_objects \<times> cex_object" where
  "getObjectData objs a =
     (case objs a of Some cod \<Rightarrow> (objs, cod)
      | None \<Rightarrow> let cod = newCexObject (arr_size a) in (objs(a \<mapsto> cod), cod))"

subsection \<open>The evaluators\<close>

definition initial_read :: "'z expr_env_scheme \<Rightarrow> array \<Rightarrow> 32 word \<Rightarrow> expr" where
  "initial_read K a index =
     Read_make K a UpdateNil (ConstantExpr (ConstantExpr_alloc K (uint index) (arr_domain a)))"

definition possible_getInitialValue :: "'z expr_env_scheme \<Rightarrow> cex_objects \<Rightarrow> initial_values" where
  "possible_getInitialValue K objs a index =
     (if unat index \<ge> arr_size a then Some (initial_read K a index)
      else do {
        b \<leftarrow> (case objs a of None \<Rightarrow> Some 127 | Some cod \<Rightarrow> getPossibleValue cod (unat index));
        Some (ConstantExpr (ConstantExpr_alloc K (uint b) (arr_range a))) })"

definition exact_getInitialValue :: "'z expr_env_scheme \<Rightarrow> cex_objects \<Rightarrow> initial_values" where
  "exact_getInitialValue K objs a index =
     (if unat index \<ge> arr_size a then Some (initial_read K a index)
      else case objs a of
        None \<Rightarrow> Some (initial_read K a index)
      | Some cod \<Rightarrow> do {
          cvd \<leftarrow> getExactValues cod (unat index);
          if \<not> isFixed cvd then Some (initial_read K a index)
          else do {
            lo \<leftarrow> range_min cvd;
            Some (ConstantExpr (ConstantExpr_alloc K (uint lo) (arr_range a))) } })"

definition evaluatePossible :: "'z expr_env_scheme \<Rightarrow> cex_objects \<Rightarrow> expr \<Rightarrow> expr option" where
  "evaluatePossible K objs e = evaluator_visit K (possible_getInitialValue K objs) e"

definition evaluateExact :: "'z expr_env_scheme \<Rightarrow> cex_objects \<Rightarrow> expr \<Rightarrow> expr option" where
  "evaluateExact K objs e = evaluator_visit K (exact_getInitialValue K objs) e"

subsection \<open>Propagating possible values\<close>

text \<open>
  One definition per kind of \<^verbatim>\<open>propogatePossibleValues\<close>; an argument \<open>pl\<close>, \<open>pr\<close>, \<open>p\<close> is the recursive
  call on the left, right or only kid.
\<close>

type_synonym propagator = "value_range \<Rightarrow> cex_objects \<Rightarrow> cex_objects option"

definition possible_read :: "array \<Rightarrow> expr \<Rightarrow> propagator" where
  "possible_read a i rng objs =
     (let (objs, cod) = getObjectData objs a in
      case as_const i of None \<Rightarrow> Some objs
      | Some c \<Rightarrow> do {
          index \<leftarrow> CE_getZExtValue c 64;
          if unat index < arr_size a then
            if isFixed rng then do {
              v \<leftarrow> range_min rng;
              cod \<leftarrow> setPossibleValue cod (unat index) (ucast v);
              Some (objs(a \<mapsto> cod)) }
            else do {
              cvd \<leftarrow> getPossibleValues cod (unat index);
              let tmp = set_intersection cvd rng in
                if \<not> isEmpty tmp then do {
                  cod \<leftarrow> setPossibleValues cod (unat index) tmp;
                  Some (objs(a \<mapsto> cod)) }
                else Some objs }
          else Some objs })"

definition possible_select :: "expr \<Rightarrow> propagator \<Rightarrow> propagator \<Rightarrow> propagator" where
  "possible_select c pt pf rng objs = do {
     cond \<leftarrow> evalRangeForExpr c;
     if isFixed cond then do { m \<leftarrow> range_min cond; if m \<noteq> 0 then pt rng objs else pf rng objs }
     else do { objs \<leftarrow> pt rng objs; pf rng objs } }"

text \<open>\<^verbatim>\<open>MSBWidth\<close> is the width of \<^verbatim>\<open>getKid(1)\<close>, as \<^verbatim>\<open>LSBWidth\<close>.\<close>

definition possible_concat :: "nat \<Rightarrow> propagator \<Rightarrow> propagator \<Rightarrow> propagator" where
  "possible_concat width1 pl pr rng objs = do {
     hi \<leftarrow> range_extract rng width1 (width1 + width1);
     objs \<leftarrow> pl hi objs;
     lo \<leftarrow> range_extract rng 0 width1;
     pr lo objs }"

definition possible_zext :: "nat \<Rightarrow> propagator \<Rightarrow> propagator" where
  "possible_zext inBits p rng objs =
     p (set_intersection rng (range_bounds 0 (maxValueOfNBits inBits))) objs"

text \<open>\<^verbatim>\<open>1<<(inBits-1)\<close> shifts an \<^verbatim>\<open>int\<close>, which is undefined from bit 31 on.\<close>

definition possible_sext :: "nat \<Rightarrow> nat \<Rightarrow> propagator \<Rightarrow> propagator" where
  "possible_sext inBits outBits p rng objs =
     (if inBits - 1 \<ge> 31 then None
      else do {
        let output = set_difference rng (range_bounds (push_bit (inBits - 1) 1)
              (maxValueOfNBits outBits - maxValueOfNBits (inBits - 1) - 1));
        input \<leftarrow> range_and output (range_value (maxValueOfNBits inBits));
        p input objs })"

definition possible_add :: "'z expr_env_scheme \<Rightarrow> expr \<Rightarrow> propagator \<Rightarrow> propagator" where
  "possible_add K l pr rng objs =
     (case as_const l of None \<Rightarrow> Some objs
      | Some c \<Rightarrow>
          let W = getBitWidth c in
          if W \<le> 64 then
            if isEmpty rng then Some objs
            else do {
              lo \<leftarrow> range_min rng; hi \<leftarrow> range_max rng;
              a \<leftarrow> CE_getZExtValue (CE_binary K Sub (ConstantExpr_alloc K (uint lo) W) c) 64;
              b \<leftarrow> CE_getZExtValue (CE_binary K Sub (ConstantExpr_alloc K (uint hi) W) c) 64;
              let nrange = range_bounds a b in
                if \<not> isEmpty nrange then pr nrange objs else Some objs }
          else Some objs)"

definition possible_and :: "expr \<Rightarrow> expr \<Rightarrow> propagator \<Rightarrow> propagator \<Rightarrow> propagator" where
  "possible_and l r pl pr rng objs =
     (if getWidth l = 1 \<and> isFixed rng then do {
        left \<leftarrow> evalRangeForExpr l;
        right \<leftarrow> evalRangeForExpr r;
        m \<leftarrow> range_min rng;
        if m = 0 then
          if mustEqual_value left 0 \<or> mustEqual_value right 0 then Some objs
          else do {
            objs \<leftarrow> pl (range_bounds 0 0) objs;
            left \<leftarrow> evalRangeForExpr l;
            if \<not> mustEqual_value left 1 then pr (range_bounds 0 0) objs else Some objs }
        else do {
          objs \<leftarrow> (if \<not> mustEqual_value left 1 then pl (range_bounds 1 1) objs else Some objs);
          (if \<not> mustEqual_value right 1 then pr (range_bounds 1 1) objs else Some objs) } }
      else Some objs)"

definition possible_or :: "expr \<Rightarrow> expr \<Rightarrow> propagator \<Rightarrow> propagator \<Rightarrow> propagator" where
  "possible_or l r pl pr rng objs =
     (if getWidth l = 1 \<and> isFixed rng then do {
        left \<leftarrow> evalRangeForExpr l;
        right \<leftarrow> evalRangeForExpr r;
        m \<leftarrow> range_min rng;
        if m \<noteq> 0 then
          if mustEqual_value left 1 \<or> mustEqual_value right 1 then Some objs
          else do {
            objs \<leftarrow> pl (range_bounds 1 1) objs;
            left \<leftarrow> evalRangeForExpr l;
            if \<not> mustEqual_value left 1 then pr (range_bounds 1 1) objs else Some objs }
        else do {
          objs \<leftarrow> (if \<not> mustEqual_value left 0 then pl (range_bounds 0 0) objs else Some objs);
          (if \<not> mustEqual_value right 0 then pr (range_bounds 0 0) objs else Some objs) } }
      else Some objs)"

definition possible_eq :: "expr \<Rightarrow> propagator \<Rightarrow> propagator" where
  "possible_eq l pr rng objs =
     (if isFixed rng then
        case as_const l of None \<Rightarrow> Some objs
        | Some c \<Rightarrow>
            if getBitWidth c \<le> 64 then do {
              v \<leftarrow> CE_getZExtValue c 64;
              m \<leftarrow> range_min rng;
              if m \<noteq> 0 then pr (range_bounds v v) objs
              else pr (if v = 0 then range_bounds 1 (maxValueOfNBits (getBitWidth c))
                       else range_bounds 0 (v - 1)) objs }
            else Some objs
      else Some objs)"

definition possible_not :: "nat \<Rightarrow> propagator \<Rightarrow> propagator" where
  "possible_not width p rng objs =
     (if width = 1 \<and> isFixed rng then do {
        m \<leftarrow> range_min rng; p (range_bounds (of_bool (m = 0)) (of_bool (m = 0))) objs }
      else Some objs)"

definition possible_ult :: "expr \<Rightarrow> expr \<Rightarrow> propagator \<Rightarrow> propagator \<Rightarrow> propagator" where
  "possible_ult l r pl pr rng objs =
     (if isFixed rng then do {
        left \<leftarrow> evalRangeForExpr l;
        right \<leftarrow> evalRangeForExpr r;
        let maxValue = maxValueOfNBits (getWidth r);
        m \<leftarrow> range_min rng;
        if isFixed left then do {
          v \<leftarrow> range_min left;
          pr (if m \<noteq> 0 then range_bounds (v + 1) maxValue else range_bounds 0 v) objs }
        else if isFixed right then do {
          v \<leftarrow> range_min right;
          pl (if m \<noteq> 0 then range_bounds 0 (v - 1) else range_bounds v maxValue) objs }
        else Some objs }
      else Some objs)"

definition possible_ule :: "expr \<Rightarrow> expr \<Rightarrow> propagator \<Rightarrow> propagator \<Rightarrow> propagator" where
  "possible_ule l r pl pr rng objs =
     (if isFixed rng then do {
        left \<leftarrow> evalRangeForExpr l;
        right \<leftarrow> evalRangeForExpr r;
        let maxValue = maxValueOfNBits (getWidth r);
        m \<leftarrow> range_min rng;
        if isFixed left then do {
          v \<leftarrow> range_min left;
          pr (if m \<noteq> 0 then range_bounds v maxValue else range_bounds 0 (v - 1)) objs }
        else if isFixed right then do {
          v \<leftarrow> range_min right;
          pl (if m \<noteq> 0 then range_bounds 0 v else range_bounds (v + 1) maxValue) objs }
        else Some objs }
      else Some objs)"

primrec propogatePossibleValues :: "'z expr_env_scheme \<Rightarrow> expr \<Rightarrow> propagator" where
  "propogatePossibleValues K (ConstantExpr c) = (\<lambda>rng objs. Some objs)"
| "propogatePossibleValues K (NotOptimizedExpr e) = (\<lambda>rng objs. Some objs)"
| "propogatePossibleValues K (ReadExpr a us i) = possible_read a i"
| "propogatePossibleValues K (SelectExpr c t f) =
     possible_select c (propogatePossibleValues K t) (propogatePossibleValues K f)"
| "propogatePossibleValues K (ConcatExpr l r) =
     possible_concat (getWidth r) (propogatePossibleValues K l) (propogatePossibleValues K r)"
| "propogatePossibleValues K (ExtractExpr e off w) = (\<lambda>rng objs. Some objs)"
| "propogatePossibleValues K (ZExtExpr e w) = possible_zext (getWidth e) (propogatePossibleValues K e)"
| "propogatePossibleValues K (SExtExpr e w) = possible_sext (getWidth e) w (propogatePossibleValues K e)"
| "propogatePossibleValues K (NotExpr e) = possible_not (getWidth e) (propogatePossibleValues K e)"
| "propogatePossibleValues K (BinaryExpr k l r) =
     (case k of
        Add \<Rightarrow> possible_add K l (propogatePossibleValues K r)
      | And \<Rightarrow> possible_and l r (propogatePossibleValues K l) (propogatePossibleValues K r)
      | Or \<Rightarrow> possible_or l r (propogatePossibleValues K l) (propogatePossibleValues K r)
      | Eq \<Rightarrow> possible_eq l (propogatePossibleValues K r)
      | Ult \<Rightarrow> possible_ult l r (propogatePossibleValues K l) (propogatePossibleValues K r)
      | Ule \<Rightarrow> possible_ule l r (propogatePossibleValues K l) (propogatePossibleValues K r)
      | Ne \<Rightarrow> (\<lambda>rng objs. None) | Ugt \<Rightarrow> (\<lambda>rng objs. None) | Uge \<Rightarrow> (\<lambda>rng objs. None)
      | Sgt \<Rightarrow> (\<lambda>rng objs. None) | Sge \<Rightarrow> (\<lambda>rng objs. None)
      | _ \<Rightarrow> (\<lambda>rng objs. Some objs))"

definition propogatePossibleValue :: "'z expr_env_scheme \<Rightarrow> expr \<Rightarrow> u64 \<Rightarrow> cex_objects \<Rightarrow> cex_objects option" where
  "propogatePossibleValue K e v = propogatePossibleValues K e (range_bounds v v)"

subsection \<open>Propagating exact values\<close>

text \<open>Narrowing a byte's range by the range of the read; the assertions say that they overlap.\<close>

definition exact_narrow :: "value_range \<Rightarrow> value_range \<Rightarrow> value_range option" where
  "exact_narrow rng cvd = do {
     rmin \<leftarrow> range_min rng; cmin \<leftarrow> range_min cvd;
     cvd \<leftarrow> (if rmin > cmin then do {
         cmax \<leftarrow> range_max cvd; if rmin \<le> cmax then Some (range_bounds rmin cmax) else None }
       else Some cvd);
     rmax \<leftarrow> range_max rng; cmax \<leftarrow> range_max cvd;
     (if rmax < cmax then do {
        cmin \<leftarrow> range_min cvd; if rmax \<ge> cmin then Some (range_bounds cmin rmax) else None }
      else Some cvd) }"

text \<open>The part of the initial array that a read reaches; a constant has nothing to propagate into.\<close>

definition exact_initial :: "array \<Rightarrow> value_range \<Rightarrow> cex_object \<Rightarrow> propagator" where
  "exact_initial a index cod rng objs =
     (if isFixed index then do {
        m \<leftarrow> range_min index;
        if isConstantArray a then do { c \<leftarrow> vector_at (constantValues a) (unat m); Some objs }
        else do {
          cvd \<leftarrow> getExactValues cod (unat m);
          cvd \<leftarrow> exact_narrow rng cvd;
          cod \<leftarrow> setExactValues cod (unat m) cvd;
          Some (objs(a \<mapsto> cod)) } }
      else Some objs)"

definition exact_eq :: "expr \<Rightarrow> expr \<Rightarrow> propagator \<Rightarrow> propagator" where
  "exact_eq l r pr rng objs =
     (if isFixed rng then
        case as_const l of None \<Rightarrow> Some objs
        | Some c \<Rightarrow>
            if getBitWidth c \<le> 64 then do {
              v \<leftarrow> CE_getZExtValue c 64;
              m \<leftarrow> range_min rng;
              if m \<noteq> 0 then pr (range_bounds v v) objs
              else if getWidth r = 1 then pr (range_bounds (of_bool (v = 0)) (of_bool (v = 0))) objs
              else Some objs }
            else Some objs
      else Some objs)"

fun propogateExactValues :: "expr \<Rightarrow> propagator"
  and exact_updates :: "updates \<Rightarrow> array \<Rightarrow> expr \<Rightarrow> value_range \<Rightarrow> cex_object \<Rightarrow> propagator" where
  "propogateExactValues (ReadExpr a us i) rng objs =
     (let (objs, cod) = getObjectData objs a in do {
       index \<leftarrow> evalRangeForExpr i; exact_updates us a i index cod rng objs })"
| "propogateExactValues (NotExpr e) rng objs =
     possible_not (getWidth e) (propogateExactValues e) rng objs"
| "propogateExactValues (BinaryExpr Eq l r) rng objs = exact_eq l r (propogateExactValues r) rng objs"
| "propogateExactValues (BinaryExpr k l r) rng objs =
     (if k \<in> {Ne, Ugt, Uge, Sgt, Sge} then None else Some objs)"
| "propogateExactValues e rng objs = Some objs"
| "exact_updates UpdateNil a i index cod rng objs = exact_initial a index cod rng objs"
| "exact_updates (UpdateNode ui uv n) a i index cod rng objs = do {
     u \<leftarrow> evalRangeForExpr ui;
     if \<not> mayEqual u index then exact_updates n a i index cod rng objs
     else if mustEqual u index \<or> i = ui then propogateExactValues uv rng objs
     else Some objs }"

definition propogateExactValue :: "expr \<Rightarrow> u64 \<Rightarrow> cex_objects \<Rightarrow> cex_objects option" where
  "propogateExactValue e v = propogateExactValues e (range_bounds v v)"

subsection \<open>FastCexSolver\<close>

record query =
  q_constraints :: "expr list"
  q_expr :: expr

primrec propagate_constraints :: "'z expr_env_scheme \<Rightarrow> expr list \<Rightarrow> cex_objects \<Rightarrow> cex_objects option" where
  "propagate_constraints K [] objs = Some objs"
| "propagate_constraints K (c # cs) objs = do {
     objs \<leftarrow> propogatePossibleValue K c 1 objs;
     objs \<leftarrow> propogateExactValue c 1 objs;
     propagate_constraints K cs objs }"

text \<open>The second loop: \<open>Some isValid\<close> is returning true, \<open>None\<close> returning false.\<close>

primrec check_constraints :: "'z expr_env_scheme \<Rightarrow> cex_objects \<Rightarrow> expr list \<Rightarrow> bool \<Rightarrow> bool option option" where
  "check_constraints K objs [] sat = Some (if sat then Some False else None)"
| "check_constraints K objs (c # cs) sat = do {
     sat \<leftarrow> (if sat then do { p \<leftarrow> evaluatePossible K objs c; isTrue p } else Some False);
     x \<leftarrow> evaluateExact K objs c;
     contradicts \<leftarrow> isFalse x;
     if contradicts then Some (Some True) else check_constraints K objs cs sat }"

definition propogateValues :: "'z expr_env_scheme \<Rightarrow> query \<Rightarrow> bool \<Rightarrow> (cex_objects \<times> bool option) option" where
  "propogateValues K q checkExpr = do {
     objs \<leftarrow> propagate_constraints K (q_constraints q) Map.empty;
     objs \<leftarrow> (if checkExpr then do {
         objs \<leftarrow> propogatePossibleValue K (q_expr q) 0 objs;
         propogateExactValue (q_expr q) 0 objs } else Some objs);
     r \<leftarrow> (if checkExpr then do {
         p \<leftarrow> evaluatePossible K objs (q_expr q);
         sat \<leftarrow> isFalse p;
         x \<leftarrow> evaluateExact K objs (q_expr q);
         proved \<leftarrow> isTrue x;
         if proved then Some (Some True) else check_constraints K objs (q_constraints q) sat }
       else check_constraints K objs (q_constraints q) True);
     Some (objs, r) }"

datatype partial_validity = MustBeTrue | MustBeFalse | MayBeTrue | MayBeFalse | TrueOrFalse | NoValidity

definition fast_computeTruth :: "'z expr_env_scheme \<Rightarrow> query \<Rightarrow> partial_validity option" where
  "fast_computeTruth K q = do {
     (objs, r) \<leftarrow> propogateValues K q True;
     Some (case r of None \<Rightarrow> NoValidity | Some isValid \<Rightarrow> if isValid then MustBeTrue else MayBeFalse) }"

text \<open>The result and the value, when the method returns true.\<close>

definition fast_computeValue :: "'z expr_env_scheme \<Rightarrow> query \<Rightarrow> expr option option" where
  "fast_computeValue K q = do {
     (objs, r) \<leftarrow> propogateValues K q False;
     if r = Some False then do {
       v \<leftarrow> evaluatePossible K objs (q_expr q);
       Some (if is_constant v then Some v else None) }
     else Some None }"

text \<open>The bytes of one object from index \<open>i\<close> on; \<open>None\<close> inside is the early return. \<^verbatim>\<open>ConstantExpr::create\<close>
  asserts that the index fits its width.\<close>

function object_values :: "'z expr_env_scheme \<Rightarrow> cex_objects \<Rightarrow> array \<Rightarrow> nat \<Rightarrow> byte list option option" where
  "object_values K objs a i =
     (if i < arr_size a then
        if 2 ^ arr_domain a \<le> int i then None else do {
        let read = Read_make K a UpdateNil (ConstantExpr (ConstantExpr_alloc K (int i) (arr_domain a)));
        v \<leftarrow> evaluatePossible K objs read;
        case as_const v of None \<Rightarrow> Some None
        | Some c \<Rightarrow> do {
            b \<leftarrow> CE_getZExtValue c 8;
            data \<leftarrow> object_values K objs a (Suc i);
            Some (map_option (\<lambda>data. ucast b # data) data) } }
      else Some (Some []))"
  by pat_completeness auto

termination by (relation "measure (\<lambda>(K, objs, a, i). arr_size a - i)") auto

declare object_values.simps [simp del]

primrec objects_values :: "'z expr_env_scheme \<Rightarrow> cex_objects \<Rightarrow> array list \<Rightarrow> (bool \<times> byte list list) option" where
  "objects_values K objs [] = Some (True, [])"
| "objects_values K objs (a # arrs) = do {
     data \<leftarrow> object_values K objs a 0;
     case data of None \<Rightarrow> Some (False, [])
     | Some bytes \<Rightarrow> do {
         (ok, vals) \<leftarrow> objects_values K objs arrs; Some (ok, bytes # vals) } }"

text \<open>\<^verbatim>\<open>computeInitialValues\<close>: the result, \<open>hasSolution\<close> when it was set, and what was pushed to \<open>values\<close>.\<close>

definition fast_computeInitialValues ::
  "'z expr_env_scheme \<Rightarrow> query \<Rightarrow> array list \<Rightarrow> (bool \<times> bool option \<times> byte list list) option" where
  "fast_computeInitialValues K q arrs = do {
     (objs, r) \<leftarrow> propogateValues K q True;
     case r of None \<Rightarrow> Some (False, None, [])
     | Some isValid \<Rightarrow>
         if isValid then Some (True, Some False, [])
         else do { (ok, vals) \<leftarrow> objects_values K objs arrs; Some (ok, Some True, vals) } }"

subsection \<open>What the contents stand for\<close>

text \<open>The assignment of the possible values; every value of an exact range.\<close>

definition possible_assignment :: "cex_objects \<Rightarrow> assignment" where
  "possible_assignment objs a i = take_bit (arr_range a)
     (if 0 \<le> i \<and> i < int (arr_size a)
      then case (case objs a of None \<Rightarrow> Some 127 | Some cod \<Rightarrow> getPossibleValue cod (nat i)) of
        Some b \<Rightarrow> uint b | None \<Rightarrow> 0
      else 0)"

definition exact_ok :: "assignment \<Rightarrow> cex_objects \<Rightarrow> bool" where
  "exact_ok \<sigma> objs \<longleftrightarrow> (\<forall>a cod. objs a = Some cod \<longrightarrow>
     length (exactContents cod) = arr_size a \<and>
     (\<forall>i < arr_size a. in_range (exactContents cod ! i) (\<sigma> a (int i))))"

lemma possible_ok: "assign_ok (possible_assignment objs)"
  by (simp add: assign_ok_def possible_assignment_def)

lemma exact_ok_empty [simp]: "exact_ok \<sigma> Map.empty"
  by (simp add: exact_ok_def)

context default_env
begin

lemma initial_read_means:
  assumes "assign_ok \<sigma>" "wf_array a" "uint i < 2 ^ arr_domain a" "\<not> (isConstantArray a \<and> unat i < arr_size a)"
  shows "means \<sigma> (initial_read K a i) (arr_range a) (initial_value \<sigma> a (uint i))"
proof -
  have i: "take_bit (arr_domain a) (uint i) = uint i" "inr (arr_domain a) (uint i)" "0 < arr_domain a"
    using assms(2,3) by (auto simp: inr_def wf_array_def take_bit_inr)
  then show ?thesis
    using read_make [OF assms(1), of a UpdateNil "ConstantExpr (APInt (arr_domain a) (uint i))"] assms(2)
    by (simp add: initial_read_def)
qed

lemma possible_evaluator: "evaluator K (possible_getInitialValue K objs) (possible_assignment objs) False"
proof unfold_locales
  show ok: "assign_ok (possible_assignment objs)"
    by (simp add: assign_ok_def possible_assignment_def)
  fix a i e assume a: "wf_array a" "uint (i :: 32 word) < 2 ^ arr_domain a"
    "\<not> (isConstantArray a \<and> unat i < arr_size a)" "possible_getInitialValue K objs a i = Some e"
  show "means (possible_assignment objs) e (arr_range a) (initial_value (possible_assignment objs) a (uint i)) \<and>
      (False \<longrightarrow> is_constant e)"
  proof (cases "unat i < arr_size a")
    case True
    then have init: "initial_value (possible_assignment objs) a (uint i) = possible_assignment objs a (uint i)"
      using a(3) by (simp add: initial_value_def)
    have "0 < arr_range a" using a(1) by (simp add: wf_array_def)
    with True a(4) init show ?thesis
      by (auto simp: possible_getInitialValue_def means_def possible_assignment_def nat_less_iff [symmetric]
        split: bind_splits option.splits)
  next
    case False
    with a initial_read_means [OF ok a(1-3)] show ?thesis by (simp add: possible_getInitialValue_def)
  qed
qed

lemma exact_evaluator:
  assumes "assign_ok \<sigma>" "exact_ok \<sigma> objs" shows "evaluator K (exact_getInitialValue K objs) \<sigma> False"
proof unfold_locales
  fix a i e assume a: "wf_array a" "uint (i :: 32 word) < 2 ^ arr_domain a"
    "\<not> (isConstantArray a \<and> unat i < arr_size a)" "exact_getInitialValue K objs a i = Some e"
  show "means \<sigma> e (arr_range a) (initial_value \<sigma> a (uint i)) \<and> (False \<longrightarrow> is_constant e)"
  proof (cases "e = initial_read K a i")
    case True
    with initial_read_means [OF assms(1) a(1-3)] show ?thesis by simp
  next
    case False
    then obtain cod cvd where i: "unat i < arr_size a" and o: "objs a = Some cod"
      "getExactValues cod (unat i) = Some cvd" "isFixed cvd"
      and e: "e = ConstantExpr (ConstantExpr_alloc K (uint (m_min cvd)) (arr_range a))"
      using a(4) by (auto simp: exact_getInitialValue_def range_min_def split: if_splits option.splits bind_splits)
    have "in_range (exactContents cod ! unat i) (\<sigma> a (int (unat i)))"
      using assms(2) o(1) i unfolding exact_ok_def by blast
    moreover have "exactContents cod ! unat i = cvd"
      using o(2) by (auto simp: getExactValues_def vector_at_def split: if_splits)
    ultimately have v: "\<sigma> a (uint i) = uint (m_min cvd)" using o(3) by (simp add: isFixedD)
    have "inr (arr_range a) (\<sigma> a (uint i))" using assms(1) by (simp add: assign_ok_def)
    moreover have "initial_value \<sigma> a (uint i) = \<sigma> a (uint i)" using a(3) i by (simp add: initial_value_def)
    ultimately show ?thesis
      using a(1) e v by (simp add: means_def wf_array_def take_bit_inr)
  qed
qed (rule assms(1))

end

text \<open>
  What exact propagation needs: ranges it can trust on the indices, arrays of bytes, canonical kinds.
  \<open>in_bounds\<close>: the reads it looks through stay within their arrays.
\<close>

primrec cex_ok :: "expr \<Rightarrow> bool" and cex_ok_updates :: "updates \<Rightarrow> bool" where
  "cex_ok (ConstantExpr c) = True"
| "cex_ok (NotOptimizedExpr e) = True"
| "cex_ok (ReadExpr a us i) = (arr_range a = 8 \<and> range_ok i \<and> cex_ok_updates us)"
| "cex_ok (SelectExpr c t f) = True"
| "cex_ok (ConcatExpr l r) = True"
| "cex_ok (ExtractExpr e off w) = True"
| "cex_ok (ZExtExpr e w) = True"
| "cex_ok (SExtExpr e w) = True"
| "cex_ok (NotExpr e) = cex_ok e"
| "cex_ok (BinaryExpr k l r) = (k \<notin> {Ne, Ugt, Uge, Sgt, Sge} \<and> (k = Eq \<longrightarrow> cex_ok r))"
| "cex_ok_updates UpdateNil = True"
| "cex_ok_updates (UpdateNode i v n) = (range_ok i \<and> cex_ok v \<and> cex_ok_updates n)"

primrec in_bounds :: "assignment \<Rightarrow> expr \<Rightarrow> bool" and in_bounds_updates :: "assignment \<Rightarrow> updates \<Rightarrow> bool" where
  "in_bounds \<sigma> (ConstantExpr c) = True"
| "in_bounds \<sigma> (NotOptimizedExpr e) = True"
| "in_bounds \<sigma> (ReadExpr a us i) = (eval \<sigma> i < int (arr_size a) \<and> in_bounds_updates \<sigma> us)"
| "in_bounds \<sigma> (SelectExpr c t f) = True"
| "in_bounds \<sigma> (ConcatExpr l r) = True"
| "in_bounds \<sigma> (ExtractExpr e off w) = True"
| "in_bounds \<sigma> (ZExtExpr e w) = True"
| "in_bounds \<sigma> (SExtExpr e w) = True"
| "in_bounds \<sigma> (NotExpr e) = in_bounds \<sigma> e"
| "in_bounds \<sigma> (BinaryExpr k l r) = (k = Eq \<longrightarrow> in_bounds \<sigma> r)"
| "in_bounds_updates \<sigma> UpdateNil = True"
| "in_bounds_updates \<sigma> (UpdateNode i v n) = (in_bounds \<sigma> v \<and> in_bounds_updates \<sigma> n)"

text \<open>\<open>keeps \<sigma> b r\<close>: the new contents, which there are if \<open>b\<close>, still hold \<open>\<sigma>\<close>.\<close>

definition keeps :: "assignment \<Rightarrow> bool \<Rightarrow> cex_objects option \<Rightarrow> bool" where
  "keeps \<sigma> b r \<longleftrightarrow> (\<forall>objs. r = Some objs \<longrightarrow> exact_ok \<sigma> objs) \<and> (b \<longrightarrow> r \<noteq> None)"

lemma keeps_simps [simp]:
  "keeps \<sigma> b (Some objs) \<longleftrightarrow> exact_ok \<sigma> objs" "keeps \<sigma> b None \<longleftrightarrow> \<not> b"
  by (auto simp: keeps_def)

lemma keeps_mono: "keeps \<sigma> b r \<Longrightarrow> (b' \<Longrightarrow> b) \<Longrightarrow> keeps \<sigma> b' r"
  by (auto simp: keeps_def)

lemma exact_narrow_ok:
  assumes "in_range rng v" "in_range cvd v" shows "\<exists>c. exact_narrow rng cvd = Some c \<and> in_range c v"
  using assms in_range_nonempty [of rng v] in_range_nonempty [of cvd v]
  by (auto simp: exact_narrow_def range_min_def range_max_def in_range_def isEmpty_def word_le_def word_less_def)

lemma range_eval_in:
  "assign_ok \<sigma> \<Longrightarrow> wt e \<Longrightarrow> range_ok e \<Longrightarrow> \<exists>r. evalRangeForExpr e = Some r \<and> in_range r (eval \<sigma> e)"
  using cex.eval_sound(1) [of \<sigma> e] by (auto simp: evalRangeForExpr_def range_of_def)

lemma exact_ok_update:
  "\<lbrakk>exact_ok \<sigma> objs; length (exactContents cod) = arr_size a;
    \<forall>i < arr_size a. in_range (exactContents cod ! i) (\<sigma> a (int i))\<rbrakk> \<Longrightarrow> exact_ok \<sigma> (objs(a \<mapsto> cod))"
  by (auto simp: exact_ok_def split: if_splits)

lemma exact_initial_ok:
  assumes "objs a = Some cod" "exact_ok \<sigma> objs" "in_range index i" "0 \<le> i" "wf_array a"
    and "in_range rng (initial_value \<sigma> a i)"
  shows "keeps \<sigma> (i < int (arr_size a)) (exact_initial a index cod rng objs)"
proof (cases "isFixed index \<and> nat i < arr_size a")
  case True
  have m: "range_min index = Some (m_min index)" "unat (m_min index) = nat i" "int (nat i) = i"
    using assms(3,4) True in_range_nonempty [OF assms(3)] by (auto simp: range_min_def isFixedD)
  show ?thesis
  proof (cases "isConstantArray a")
    case const: True
    with assms(5) True m assms(2) show ?thesis
      by (simp add: exact_initial_def vector_at_def wf_array_def isConstantArray_def isSymbolicArray_def)
  next
    case False
    have len: "length (exactContents cod) = arr_size a"
      and all: "\<forall>i < arr_size a. in_range (exactContents cod ! i) (\<sigma> a (int i))"
      using assms(1,2) unfolding exact_ok_def by blast+
    then have "in_range (exactContents cod ! nat i) (\<sigma> a i)" using True m(3) by metis
    with assms(6) False obtain c where c: "exact_narrow rng (exactContents cod ! nat i) = Some c" "in_range c (\<sigma> a i)"
      using exact_narrow_ok by (metis initial_value_def)
    have "in_range ((exactContents cod)[nat i := c] ! j) (\<sigma> a (int j))" if "j < arr_size a" for j
      using all c(2) m(3) that len by (cases "j = nat i") simp_all
    then have "exact_ok \<sigma> (objs(a \<mapsto> cod\<lparr>exactContents := (exactContents cod)[nat i := c]\<rparr>))"
      using assms(2) len by (intro exact_ok_update) simp_all
    with True False m c(1) len show ?thesis
      by (simp add: exact_initial_def getExactValues_def setExactValues_def vector_at_def vector_set_def)
  qed
next
  case False
  have m: "range_min index = Some (m_min index)" "unat (m_min index) = nat i" if "isFixed index"
    using assms(3,4) that in_range_nonempty [OF assms(3)] by (auto simp: range_min_def isFixedD)
  have "length (exactContents cod) = arr_size a" using assms(1,2) unfolding exact_ok_def by blast
  moreover have "length (constantValues a) = arr_size a" if "isConstantArray a"
    using assms(5) that by (auto simp: wf_array_def isConstantArray_def isSymbolicArray_def)
  ultimately show ?thesis
    using False m assms(2,4) by (cases "isFixed index")
      (auto simp: exact_initial_def getExactValues_def vector_at_def not_less)
qed

lemma getObjectData_ok:
  assumes "assign_ok \<sigma>" "exact_ok \<sigma> objs" "arr_range a = 8" "getObjectData objs a = (objs', cod)"
  shows "exact_ok \<sigma> objs' \<and> objs' a = Some cod"
proof (cases "objs a")
  case None
  have "0 \<le> \<sigma> a i \<and> \<sigma> a i \<le> 255" for i using assms(1,3) by (auto simp: assign_ok_def inr_def dest!: spec [of _ a] spec [of _ i])
  with assms(2) have "exact_ok \<sigma> (objs(a \<mapsto> newCexObject (arr_size a)))"
    by (intro exact_ok_update) (simp_all add: newCexObject_def)
  with None assms(4) show ?thesis by (auto simp: getObjectData_def Let_def)
qed (use assms in \<open>auto simp: getObjectData_def\<close>)

lemma bool_eval:
  "assign_ok \<sigma> \<Longrightarrow> wt e \<Longrightarrow> getWidth e = 1 \<Longrightarrow> eval \<sigma> e = 0 \<or> eval \<sigma> e = 1"
  using eval_inr [of \<sigma> e] inr_Suc0D by auto

lemma possible_not_ok:
  assumes "assign_ok \<sigma>" "wt e" "in_range rng (take_bit w (NOT (eval \<sigma> e)))" "w = getWidth e" "exact_ok \<sigma> objs"
    and p: "\<And>rng objs. in_range rng (eval \<sigma> e) \<Longrightarrow> exact_ok \<sigma> objs \<Longrightarrow> keeps \<sigma> b (p rng objs)"
  shows "keeps \<sigma> b (possible_not w p rng objs)"
proof (cases "w = 1 \<and> isFixed rng")
  case True
  have n: "range_min rng = Some (m_min rng)" using in_range_nonempty [OF assms(3)] by (simp add: range_min_def)
  have "uint (m_min rng) = take_bit 1 (NOT (eval \<sigma> e))" using assms(3) True by (simp add: isFixedD)
  then have "uint (of_bool (m_min rng = 0) :: u64) = eval \<sigma> e"
    using bool_eval [OF assms(1,2)] True assms(4)
    by (auto simp: word_uint_eq_iff [of "m_min rng"] not_int_def take_bit_eq_mod)
  with True n p assms(5) show ?thesis by (simp add: possible_not_def)
qed (use assms(5) in \<open>auto simp: possible_not_def\<close>)

lemma exact_eq_ok:
  assumes "assign_ok \<sigma>" "wt l" "wt r" "getWidth l = getWidth r" "in_range rng (of_bool (eval \<sigma> l = eval \<sigma> r))"
    and "exact_ok \<sigma> objs"
    and p: "\<And>rng objs. in_range rng (eval \<sigma> r) \<Longrightarrow> exact_ok \<sigma> objs \<Longrightarrow> keeps \<sigma> b (p rng objs)"
  shows "keeps \<sigma> b (exact_eq l r p rng objs)"
proof (cases "isFixed rng \<and> (\<exists>c. as_const l = Some c \<and> getBitWidth c \<le> 64)")
  case True
  then obtain c where c: "l = ConstantExpr c" "getBitWidth c \<le> 64" by auto
  then have wf: "wf_ap c" using assms(2) by simp
  let ?v = "word_of_int (getZExtValue c) :: u64"
  have v: "CE_getZExtValue c 64 = Some ?v" "uint ?v = getZExtValue c"
    using CE_getZExtValue_const [OF wf c(2)] by auto
  have n: "range_min rng = Some (m_min rng)" using in_range_nonempty [OF assms(5)] by (simp add: range_min_def)
  have m: "uint (m_min rng) = of_bool (getZExtValue c = eval \<sigma> r)" using assms(5) True c by (simp add: isFixedD)
  then have m0: "m_min rng = 0 \<longleftrightarrow> getZExtValue c \<noteq> eval \<sigma> r" by (auto simp: word_uint_eq_iff)
  have "uint (of_bool (?v = 0) :: u64) = eval \<sigma> r" if "getZExtValue c \<noteq> eval \<sigma> r" "getWidth r = 1"
  proof -
    have "getZExtValue c = 0 \<or> getZExtValue c = 1"
      using wf assms(4) that(2) c(1) inr_Suc0D by (auto simp: wf_ap_def)
    with v(2) that bool_eval [OF assms(1,3)] show ?thesis by (auto simp: word_uint_eq_iff [of ?v])
  qed
  with True c v n m0 p assms(6) show ?thesis by (auto simp: exact_eq_def)
qed (use assms(6) in \<open>auto simp: exact_eq_def split: option.split\<close>)

lemma propogateExactValues_other:
  "k \<noteq> Eq \<Longrightarrow> propogateExactValues (BinaryExpr k l r) rng objs =
     (if k \<in> {Ne, Ugt, Uge, Sgt, Sge} then None else Some objs)"
  by (cases k) simp_all

text \<open>Exact propagation keeps the contents around \<open>\<sigma>\<close>, and none of its assertions fails.\<close>

lemma exact_keeps:
  assumes ok: "assign_ok \<sigma>"
  shows "\<lbrakk>wt e; cex_ok e; in_range rng (eval \<sigma> e); exact_ok \<sigma> objs\<rbrakk> \<Longrightarrow>
      keeps \<sigma> (in_bounds \<sigma> e) (propogateExactValues e rng objs)"
    and "\<lbrakk>wt_updates us a; wf_array a; cex_ok_updates us; wt i; in_range index (eval \<sigma> i);
      in_range rng (eval_read \<sigma> us a (eval \<sigma> i)); objs a = Some cod; exact_ok \<sigma> objs\<rbrakk> \<Longrightarrow>
      keeps \<sigma> (eval \<sigma> i < int (arr_size a) \<and> in_bounds_updates \<sigma> us) (exact_updates us a i index cod rng objs)"
proof (induction e and us arbitrary: rng objs and a i index cod rng objs)
  case (ReadExpr a us i)
  obtain objs' cod where g: "getObjectData objs a = (objs', cod)" by fastforce
  have "arr_range a = 8" using ReadExpr.prems(2) by simp
  note o = getObjectData_ok [OF ok ReadExpr.prems(4) this g]
  obtain index where "evalRangeForExpr i = Some index" "in_range index (eval \<sigma> i)"
    using range_eval_in [OF ok, of i] ReadExpr.prems by auto
  with ReadExpr.IH(1) [of a i index rng objs' cod] ReadExpr.prems o g show ?case by simp
next
  case (NotExpr e)
  then show ?case
    using possible_not_ok [OF ok, of e rng "getWidth e" objs "in_bounds \<sigma> e" "propogateExactValues e"] by simp
next
  case (BinaryExpr k l r)
  then show ?case
    using exact_eq_ok [OF ok, of l r rng objs "in_bounds \<sigma> r" "propogateExactValues r"]
    by (cases "k = Eq") (simp_all add: propogateExactValues_other bv_bin_def)
next
  case UpdateNil
  then show ?case
    using exact_initial_ok [of objs a cod \<sigma> index "eval \<sigma> i" rng] eval_inr [OF ok, of i]
    by (simp add: inr_def)
next
  case (UpdateNode ui uv n)
  obtain u where u: "evalRangeForExpr ui = Some u" "in_range u (eval \<sigma> ui)"
    using range_eval_in [OF ok, of ui] UpdateNode.prems by auto
  show ?case
  proof (cases "mayEqual u index")
    case False
    with u(2) UpdateNode.prems(5) have "eval \<sigma> ui \<noteq> eval \<sigma> i" using mayEqualI by metis
    with False u UpdateNode.prems UpdateNode.IH(3) [of a i index rng objs cod] show ?thesis
      by (auto elim!: keeps_mono)
  next
    case may: True
    show ?thesis
    proof (cases "mustEqual u index \<or> i = ui")
      case True
      then have "eval \<sigma> ui = eval \<sigma> i" using u(2) UpdateNode.prems(5) mustEqualD by metis
      with True may u UpdateNode.prems UpdateNode.IH(2) [of rng objs] show ?thesis
        by (auto elim!: keeps_mono)
    qed (use may u UpdateNode.prems in simp)
  qed
qed (simp_all)

text \<open>Possible propagation leaves the exact contents alone; it may add objects of bytes.\<close>

primrec byte_reads :: "expr \<Rightarrow> bool" where
  "byte_reads (ConstantExpr c) = True"
| "byte_reads (NotOptimizedExpr e) = True"
| "byte_reads (ReadExpr a us i) = (arr_range a = 8)"
| "byte_reads (SelectExpr c t f) = (byte_reads t \<and> byte_reads f)"
| "byte_reads (ConcatExpr l r) = (byte_reads l \<and> byte_reads r)"
| "byte_reads (ExtractExpr e off w) = True"
| "byte_reads (ZExtExpr e w) = byte_reads e"
| "byte_reads (SExtExpr e w) = byte_reads e"
| "byte_reads (NotExpr e) = byte_reads e"
| "byte_reads (BinaryExpr k l r) = (byte_reads l \<and> byte_reads r)"

definition preserves :: "assignment \<Rightarrow> propagator \<Rightarrow> bool" where
  "preserves \<sigma> p \<longleftrightarrow> (\<forall>rng objs objs'. exact_ok \<sigma> objs \<longrightarrow> p rng objs = Some objs' \<longrightarrow> exact_ok \<sigma> objs')"

lemma preservesI:
  "(\<And>rng objs objs'. exact_ok \<sigma> objs \<Longrightarrow> p rng objs = Some objs' \<Longrightarrow> exact_ok \<sigma> objs') \<Longrightarrow> preserves \<sigma> p"
  by (simp add: preserves_def)

lemma preservesD: "preserves \<sigma> p \<Longrightarrow> p rng objs = Some objs' \<Longrightarrow> exact_ok \<sigma> objs \<Longrightarrow> exact_ok \<sigma> objs'"
  by (simp add: preserves_def)

lemma preserves_nothing [simp]: "preserves \<sigma> (\<lambda>rng objs. Some objs)" "preserves \<sigma> (\<lambda>rng objs. None)"
  by (simp_all add: preserves_def)

lemma exact_ok_same:
  assumes "exact_ok \<sigma> objs" "objs a = Some cod" "exactContents cod' = exactContents cod"
  shows "exact_ok \<sigma> (objs(a \<mapsto> cod'))"
  using assms by (auto simp: exact_ok_def split: if_splits)

lemma preserves_read:
  assumes "assign_ok \<sigma>" "arr_range a = 8" shows "preserves \<sigma> (possible_read a i)"
proof (rule preservesI)
  fix rng objs objs' assume e: "exact_ok \<sigma> objs" and r: "possible_read a i rng objs = Some objs'"
  obtain objs1 cod where g: "getObjectData objs a = (objs1, cod)" by fastforce
  note o = getObjectData_ok [OF assms(1) e assms(2) g]
  from r g have "objs' = objs1 \<or> (\<exists>j x cod'. setPossibleValues cod j x = Some cod' \<and> objs' = objs1(a \<mapsto> cod'))"
    by (auto simp: possible_read_def setPossibleValue_def Let_def split: option.splits bind_splits if_splits)
  with o show "exact_ok \<sigma> objs'"
    by (auto simp: setPossibleValues_def intro!: exact_ok_same [of \<sigma> objs1 a cod])
qed

lemma preserves_cases:
  assumes "preserves \<sigma> p" "preserves \<sigma> p'"
  shows "preserves \<sigma> (possible_select c p p')" "preserves \<sigma> (possible_concat w p p')"
    "preserves \<sigma> (possible_zext w p)" "preserves \<sigma> (possible_sext w v p)" "preserves \<sigma> (possible_add K l p')"
    "preserves \<sigma> (possible_and l r p p')" "preserves \<sigma> (possible_or l r p p')" "preserves \<sigma> (possible_eq l p')"
    "preserves \<sigma> (possible_not w p)" "preserves \<sigma> (possible_ult l r p p')" "preserves \<sigma> (possible_ule l r p p')"
  using assms [THEN preservesD]
  by - (rule preservesI; force simp: possible_select_def possible_concat_def possible_zext_def possible_sext_def
    possible_add_def possible_and_def possible_or_def possible_eq_def possible_not_def possible_ult_def
    possible_ule_def Let_def split: option.splits bind_splits if_splits)+

lemma possible_preserves:
  assumes "assign_ok \<sigma>" shows "byte_reads e \<Longrightarrow> preserves \<sigma> (propogatePossibleValues K e)"
proof (induction e rule: expr.induct [where ?P2.0 = "\<lambda>_. True"])
  case (BinaryExpr k l r)
  then show ?case by (cases k) (auto intro: preserves_cases)
qed (auto intro: preserves_cases preserves_read [OF assms])

context evaluator
begin

lemma evaluator_visit_sound:
  assumes "G e" "evaluator_visit K gi e = Some r" shows "R e r"
proof -
  from assms(2) obtain vis' where "visit (Suc (size e)) K V e Map.empty = Some (r, vis')"
    by (auto simp: evaluator_visit_def simp del: visit.simps)
  from sound_visitD [OF visit_sound assms(1) entries_empty this] show ?thesis by blast
qed

end

lemma same_bool:
  assumes "same \<sigma> e r" "getWidth e = 1"
  shows "is_true r \<Longrightarrow> eval \<sigma> e = 1" "is_false r \<Longrightarrow> eval \<sigma> e = 0"
  using assms by (cases r; auto simp: same_def wf_ap_def ap_tests dest: inr_Suc0D)+

text \<open>Queries the solver is correct on; \<open>holds \<sigma> cs\<close>: the constraints are true.\<close>

definition cex_expr :: "expr \<Rightarrow> bool" where
  "cex_expr e \<longleftrightarrow> wt e \<and> getWidth e = 1 \<and> ev_safe e \<and> cex_ok e \<and> byte_reads e"

definition query_ok :: "query \<Rightarrow> bool" where
  "query_ok q \<longleftrightarrow> cex_expr (q_expr q) \<and> (\<forall>c \<in> set (q_constraints q). cex_expr c)"

definition holds :: "assignment \<Rightarrow> expr list \<Rightarrow> bool" where
  "holds \<sigma> cs \<longleftrightarrow> (\<forall>c \<in> set cs. eval \<sigma> c = 1)"

text \<open>The formula of \<^verbatim>\<open>mustBeTrue\<close>: the constraints imply the expression.\<close>

definition valid :: "query \<Rightarrow> bool" where
  "valid q \<longleftrightarrow> (\<forall>\<sigma>. assign_ok \<sigma> \<longrightarrow> holds \<sigma> (q_constraints q) \<longrightarrow> eval \<sigma> (q_expr q) = 1)"

lemma check_false:
  "check_constraints K objs cs sat = Some (Some False) \<Longrightarrow>
   sat \<and> (\<forall>c \<in> set cs. \<exists>p. evaluatePossible K objs c = Some p \<and> is_true p)"
  by (induction cs arbitrary: sat) (auto simp: isTrue_Some isFalse_Some split: bind_splits if_splits)

lemma check_true:
  "check_constraints K objs cs sat = Some (Some True) \<Longrightarrow> \<exists>c \<in> set cs. \<exists>x. evaluateExact K objs c = Some x \<and> is_false x"
  by (induction cs arbitrary: sat) (auto simp: isTrue_Some isFalse_Some split: bind_splits if_splits)

lemma propogateValues_false:
  assumes "propogateValues K q b = Some (objs, Some False)"
  shows "(\<forall>c \<in> set (q_constraints q). \<exists>p. evaluatePossible K objs c = Some p \<and> is_true p) \<and>
    (b \<longrightarrow> (\<exists>p. evaluatePossible K objs (q_expr q) = Some p \<and> is_false p))"
  using assms check_false [of K objs "q_constraints q"]
  by (auto simp: propogateValues_def isTrue_Some isFalse_Some split: bind_splits if_splits)

context default_env
begin

lemma evaluatePossible_same:
  "wt e \<Longrightarrow> ev_safe e \<Longrightarrow> evaluatePossible K objs e = Some r \<Longrightarrow> same (possible_assignment objs) e r"
  using evaluator.evaluator_visit_sound [OF possible_evaluator [of objs], of e r]
  by (simp add: evaluatePossible_def ev_ok_def ev_rel_def)

lemma evaluateExact_same:
  "assign_ok \<sigma> \<Longrightarrow> exact_ok \<sigma> objs \<Longrightarrow> wt e \<Longrightarrow> ev_safe e \<Longrightarrow> evaluateExact K objs e = Some r \<Longrightarrow> same \<sigma> e r"
  using evaluator.evaluator_visit_sound [OF exact_evaluator [of \<sigma> objs], of e r]
  by (simp add: evaluateExact_def ev_ok_def ev_rel_def)

lemma propagate_value_keeps:
  assumes "assign_ok \<sigma>" "cex_expr e" "eval \<sigma> e = uint v" "exact_ok \<sigma> objs"
    and p: "propogatePossibleValue K e v objs = Some objs1"
  shows "exact_ok \<sigma> objs1 \<and> keeps \<sigma> (in_bounds \<sigma> e) (propogateExactValue e v objs1)"
proof -
  have "exact_ok \<sigma> objs1"
    using possible_preserves [OF assms(1)] assms(2,4) p preservesD
    unfolding cex_expr_def propogatePossibleValue_def by blast
  with exact_keeps(1) [OF assms(1)] assms(2,3) show ?thesis
    by (simp add: cex_expr_def propogateExactValue_def)
qed

lemma propagate_constraints_keeps:
  assumes "assign_ok \<sigma>"
  shows "\<lbrakk>\<forall>c \<in> set cs. cex_expr c; holds \<sigma> cs; exact_ok \<sigma> objs;
    propagate_constraints K cs objs = Some objs'\<rbrakk> \<Longrightarrow> exact_ok \<sigma> objs'"
proof (induction cs arbitrary: objs)
  case (Cons c cs)
  then obtain objs1 objs2 where p: "propogatePossibleValue K c 1 objs = Some objs1"
    "propogateExactValue c 1 objs1 = Some objs2" "propagate_constraints K cs objs2 = Some objs'"
    by (auto split: bind_splits)
  with propagate_value_keeps [OF assms _ _ Cons.prems(3) p(1)] Cons.prems(1,2) have "exact_ok \<sigma> objs2"
    by (simp add: holds_def)
  with Cons p(3) show ?case by (simp add: holds_def)
qed simp

lemma propogateValues_true:
  assumes "query_ok q" "assign_ok \<sigma>" "holds \<sigma> (q_constraints q)" "b \<Longrightarrow> eval \<sigma> (q_expr q) = 0"
  shows "propogateValues K q b \<noteq> Some (objs, Some True)"
proof
  assume p: "propogateValues K q b = Some (objs, Some True)"
  then obtain objs1 where 1: "propagate_constraints K (q_constraints q) Map.empty = Some objs1"
    and 2: "(if b then do { objs \<leftarrow> propogatePossibleValue K (q_expr q) 0 objs1;
         propogateExactValue (q_expr q) 0 objs } else Some objs1) = Some objs"
    by (auto simp: propogateValues_def split: bind_splits)
  have o1: "exact_ok \<sigma> objs1"
    using propagate_constraints_keeps [OF assms(2) _ assms(3) _ 1] assms(1) by (simp add: query_ok_def)
  have o: "exact_ok \<sigma> objs"
  proof (cases b)
    case True
    with 2 obtain objs2 where "propogatePossibleValue K (q_expr q) 0 objs1 = Some objs2"
      "propogateExactValue (q_expr q) 0 objs2 = Some objs" by (auto split: bind_splits)
    with propagate_value_keeps [OF assms(2) _ _ o1, of "q_expr q" 0 objs2] assms(1,4) True show ?thesis
      by (simp add: query_ok_def)
  qed (use 2 o1 in simp)
  have ex: "same \<sigma> e r \<and> getWidth e = 1" if "evaluateExact K objs e = Some r" "e \<in> set (q_expr q # q_constraints q)" for e r
    using evaluateExact_same [OF assms(2) o _ _ that(1)] assms(1) that(2) by (auto simp: query_ok_def cex_expr_def)
  have "(\<exists>c \<in> set (q_constraints q). \<exists>x. evaluateExact K objs c = Some x \<and> is_false x) \<or>
    (b \<and> (\<exists>x. evaluateExact K objs (q_expr q) = Some x \<and> is_true x))"
    using p check_true [of K objs "q_constraints q"]
    by (auto simp: propogateValues_def isTrue_Some isFalse_Some split: bind_splits if_splits)
  then show False
    using ex same_bool assms(3,4) by (auto simp: holds_def) (metis zero_neq_one)+
qed

end

context default_env
begin

lemma possible_holds:
  "\<lbrakk>\<forall>c \<in> set cs. cex_expr c; \<forall>c \<in> set cs. \<exists>p. evaluatePossible K objs c = Some p \<and> is_true p\<rbrakk> \<Longrightarrow>
   holds (possible_assignment objs) cs"
  using evaluatePossible_same same_bool(1) by (fastforce simp: holds_def cex_expr_def)

lemma possible_solution:
  assumes "query_ok q" "propogateValues K q True = Some (objs, Some False)"
  shows "assign_ok (possible_assignment objs) \<and> holds (possible_assignment objs) (q_constraints q) \<and>
    eval (possible_assignment objs) (q_expr q) = 0"
proof -
  obtain p where p: "evaluatePossible K objs (q_expr q) = Some p" "is_false p"
    using propogateValues_false [OF assms(2)] by blast
  have "eval (possible_assignment objs) (q_expr q) = 0"
    using evaluatePossible_same [OF _ _ p(1)] same_bool(2) [OF _ _ p(2)] assms(1)
    by (simp add: query_ok_def cex_expr_def)
  moreover have "holds (possible_assignment objs) (q_constraints q)"
    using possible_holds assms(1) propogateValues_false [OF assms(2)] by (simp add: query_ok_def)
  ultimately show ?thesis by (simp add: possible_ok)
qed

lemma object_values_ok:
  assumes "wf_array a" "arr_range a = 8" "arr_domain a \<le> 32"
  shows "object_values K objs a i = Some (Some bytes) \<Longrightarrow> i \<le> arr_size a \<Longrightarrow> length bytes = arr_size a - i \<and>
    (\<forall>j < length bytes. uint (bytes ! j) = initial_value (possible_assignment objs) a (int (i + j)))"
proof (induction "arr_size a - i" arbitrary: i bytes)
  case 0
  then show ?case by (simp add: object_values.simps)
next
  case (Suc n)
  let ?e = "ReadExpr a UpdateNil (ConstantExpr (APInt (arr_domain a) (int i)))"
  have i: "i < arr_size a" using Suc.hyps(2) by simp
  have dom: "0 < arr_domain a" using assms(1) by (simp add: wf_array_def)
  have fits: "int i < 2 ^ arr_domain a" using Suc.prems(1) i by (simp add: object_values.simps split: if_splits)
  then have "take_bit (arr_domain a) (int i) = int i" by (simp add: take_bit_int_eq_self)
  with Suc.prems(1) i fits dom obtain c b tl where c: "evaluatePossible K objs ?e = Some (ConstantExpr c)"
    "CE_getZExtValue c 8 = Some b" "object_values K objs a (Suc i) = Some (Some tl)" "bytes = ucast b # tl"
    by (subst (asm) object_values.simps)
      (auto simp: Read_make_def not_le split: bind_splits option.splits)
  have "same (possible_assignment objs) ?e (ConstantExpr c)"
    using fits dom assms by (intro evaluatePossible_same [OF _ _ c(1)]) (simp_all add: inr_def)
  then have v: "wf_ap c" "getBitWidth c = 8" "getZExtValue c = initial_value (possible_assignment objs) a (int i)"
    using assms(2) by (simp_all add: same_def)
  have "uint (ucast b :: byte) = getZExtValue c"
    using c(2) v(1,2) inr_mono [of 8 "getZExtValue c" 64]
    by (auto simp: CE_getZExtValue_def wf_ap_def unsigned_ucast_eq uint_word_of_int_eq take_bit_inr)
  with c(3,4) v(3) Suc.hyps(1) [of "Suc i" tl] Suc.hyps(2) show ?case
    by (auto simp: nth_Cons add.left_commute split: nat.split)
qed

lemma objects_values_ok:
  assumes "\<forall>a \<in> set arrs. wf_array a \<and> arr_range a = 8 \<and> arr_domain a \<le> 32"
    "objects_values K objs arrs = Some (True, vals)"
  shows "list_all2 (\<lambda>a bytes. length bytes = arr_size a \<and>
    (\<forall>i < arr_size a. uint (bytes ! i) = initial_value (possible_assignment objs) a (int i))) arrs vals"
  using assms
proof (induction arrs arbitrary: vals)
  case (Cons a arrs)
  then obtain bytes vals' where "object_values K objs a 0 = Some (Some bytes)"
    "objects_values K objs arrs = Some (True, vals')" "vals = bytes # vals'"
    by (auto split: bind_splits option.splits)
  with Cons object_values_ok [of a objs 0 bytes] show ?case by simp
qed simp

lemma must_be_true_sound:
  assumes "query_ok q" "fast_computeTruth K q = Some MustBeTrue"
    and "assign_ok \<sigma>" "holds \<sigma> (q_constraints q)"
  shows "eval \<sigma> (q_expr q) = 1"
proof (rule ccontr)
  assume "eval \<sigma> (q_expr q) \<noteq> 1"
  then have "eval \<sigma> (q_expr q) = 0" using bool_eval [OF assms(3)] assms(1) by (auto simp: query_ok_def cex_expr_def)
  moreover obtain objs where "propogateValues K q True = Some (objs, Some True)"
    using assms(2) by (auto simp: fast_computeTruth_def split: bind_splits option.splits if_splits)
  ultimately show False using propogateValues_true [OF assms(1,3,4)] by blast
qed

lemma may_be_false_sound:
  assumes "query_ok q" "fast_computeTruth K q = Some MayBeFalse"
  shows "\<exists>\<sigma>. assign_ok \<sigma> \<and> holds \<sigma> (q_constraints q) \<and> eval \<sigma> (q_expr q) = 0"
proof -
  obtain objs where p: "propogateValues K q True = Some (objs, Some False)"
    using assms(2) by (auto simp: fast_computeTruth_def split: bind_splits option.splits if_splits)
  from possible_solution [OF assms(1) p] show ?thesis by auto
qed

lemma value_sound:
  assumes "\<forall>c \<in> set (q_constraints q). cex_expr c" "wt (q_expr q)" "ev_safe (q_expr q)"
    and "fast_computeValue K q = Some (Some r)"
  shows "\<exists>\<sigma> c. r = ConstantExpr c \<and> assign_ok \<sigma> \<and> holds \<sigma> (q_constraints q) \<and>
    getBitWidth c = getWidth (q_expr q) \<and> eval \<sigma> (q_expr q) = getZExtValue c"
proof -
  obtain objs where p: "propogateValues K q False = Some (objs, Some False)"
    and r: "evaluatePossible K objs (q_expr q) = Some r" "is_constant r"
    using assms(4) by (auto simp: fast_computeValue_def split: bind_splits option.splits if_splits)
  have "holds (possible_assignment objs) (q_constraints q)"
    using possible_holds [OF assms(1)] propogateValues_false [OF p] by blast
  moreover have "same (possible_assignment objs) (q_expr q) r"
    using evaluatePossible_same [OF assms(2,3) r(1)] .
  ultimately show ?thesis
    using r(2) by (intro exI [of _ "possible_assignment objs"]) (auto simp: same_def is_constant_iff possible_ok)
qed

lemma initial_values_sound:
  assumes "query_ok q" "fast_computeInitialValues K q arrs = Some (True, Some True, vals)"
    and "\<forall>a \<in> set arrs. wf_array a \<and> arr_range a = 8 \<and> arr_domain a \<le> 32"
  shows "\<exists>\<sigma>. assign_ok \<sigma> \<and> holds \<sigma> (q_constraints q) \<and> eval \<sigma> (q_expr q) = 0 \<and>
    list_all2 (\<lambda>a bytes. length bytes = arr_size a \<and>
      (\<forall>i < arr_size a. uint (bytes ! i) = initial_value \<sigma> a (int i))) arrs vals"
proof -
  obtain objs where p: "propogateValues K q True = Some (objs, Some False)"
    and v: "objects_values K objs arrs = Some (True, vals)"
    using assms(2) by (auto simp: fast_computeInitialValues_def split: bind_splits option.splits if_splits)
  from possible_solution [OF assms(1) p] objects_values_ok [OF assms(3) v]
  show ?thesis by blast
qed

end

section \<open>Properties of the solver\<close>


text \<open>C21: the values are right. What \<^verbatim>\<open>computeValue\<close> returns the expression takes under an assignment that
  satisfies the constraints; the initial values of \<^verbatim>\<open>computeInitialValues\<close>, one byte per index of every object, are
  the contents of the objects in an assignment that satisfies the constraints and makes the expression false.\<close>

theorem fast_values_correct:
  assumes "default_env K" "\<forall>c \<in> set (q_constraints q). cex_expr c" "wt (q_expr q)" "ev_safe (q_expr q)"
  shows "(fast_computeValue K q = Some (Some r) \<longrightarrow>
      (\<exists>\<sigma> c. r = ConstantExpr c \<and> assign_ok \<sigma> \<and> holds \<sigma> (q_constraints q) \<and>
        getBitWidth c = getWidth (q_expr q) \<and> eval \<sigma> (q_expr q) = getZExtValue c)) \<and>
    (query_ok q \<and> fast_computeInitialValues K q arrs = Some (True, Some True, vals) \<and>
      (\<forall>a \<in> set arrs. wf_array a \<and> arr_range a = 8 \<and> arr_domain a \<le> 32) \<longrightarrow>
      (\<exists>\<sigma>. assign_ok \<sigma> \<and> holds \<sigma> (q_constraints q) \<and> eval \<sigma> (q_expr q) = 0 \<and>
        list_all2 (\<lambda>a bytes. length bytes = arr_size a \<and>
          (\<forall>i < arr_size a. uint (bytes ! i) = initial_value \<sigma> a (int i))) arrs vals))"
  using default_env.value_sound [OF assms] default_env.initial_values_sound [OF assms(1)] by blast

definition contradicting_query :: query where
  "contradicting_query = \<lparr>q_constraints = [BinaryExpr Eq (ConstantExpr (APInt 8 1)) (rd 0)],
     q_expr = BinaryExpr Eq (ConstantExpr (APInt 1 0)) (BinaryExpr Eq (ConstantExpr (APInt 8 2)) (rd 0))\<rparr>"

text \<open>C22: an assertion fails on a valid query. With \<open>x = 1\<close> for a constraint, to ask for \<open>x \<noteq> 2\<close> propagates
  the exact value 2 into a byte whose exact range is 1: the negated query contradicts the constraints, and
  \<^verbatim>\<open>propogateExactValues\<close> asserts that it does not.\<close>

theorem fast_assertion_fails:
  "query_ok contradicting_query \<and> fast_computeTruth (std_env False) contradicting_query = None \<and>
   valid contradicting_query"
proof (intro conjI)
  show "query_ok contradicting_query"
    by (simp add: query_ok_def contradicting_query_def cex_expr_def inr_def bv_width_def)
  show "fast_computeTruth (std_env False) contradicting_query = None" by code_simp
next
  show "valid contradicting_query"
    by (simp add: valid_def contradicting_query_def holds_def bv_bin_def)
qed

subsection \<open>Witnesses\<close>

definition sample_query :: "int \<Rightarrow> query" where
  "sample_query n = \<lparr>q_constraints = [BinaryExpr Ult (rd 0) (ConstantExpr (APInt 8 10)),
       BinaryExpr Eq (ConstantExpr (APInt 8 4)) (rd 1)],
     q_expr = BinaryExpr Eq (ConstantExpr (APInt 8 n)) (rd 1)\<rparr>"

lemma sample_query_ok: "0 \<le> n \<Longrightarrow> n < 256 \<Longrightarrow> query_ok (sample_query n)"
  by (simp add: query_ok_def sample_query_def cex_expr_def inr_def bv_width_def)


theorem fast_values_correct_witness:
  "(\<exists>\<sigma>. holds \<sigma> (q_constraints (sample_query 0)) \<and> eval \<sigma> (rd 1) = 4) \<and>
   (\<exists>\<sigma>. holds \<sigma> (q_constraints (sample_query 8)) \<and> initial_value \<sigma> sym_array 1 = 4 \<and> initial_value \<sigma> sym_array 3 = 127)"
proof
  let ?q = "(sample_query 0)\<lparr>q_expr := rd 1\<rparr>"
  have "fast_computeValue (std_env False) ?q = Some (Some (ConstantExpr (APInt 8 4)))" by code_simp
  moreover have "\<forall>c \<in> set (q_constraints ?q). cex_expr c"
    using sample_query_ok [of 0] by (simp add: query_ok_def)
  ultimately show "\<exists>\<sigma>. holds \<sigma> (q_constraints (sample_query 0)) \<and> eval \<sigma> (rd 1) = 4"
    using fast_values_correct [OF std_d.default_env_axioms, of ?q "ConstantExpr (APInt 8 4)", THEN conjunct1]
    by (auto simp: inr_def simp del: eval.simps(3))
next
  have ok: "query_ok (sample_query 8)" by (rule sample_query_ok) simp_all
  have v: "fast_computeInitialValues (std_env False) (sample_query 8) [sym_array] =
      Some (True, Some True, [[4, 4, 127, 127]])" by code_simp
  have q: "\<forall>c \<in> set (q_constraints (sample_query 8)). cex_expr c" "wt (q_expr (sample_query 8))"
    "ev_safe (q_expr (sample_query 8))" using ok by (auto simp: query_ok_def cex_expr_def)
  obtain \<sigma> where s: "holds \<sigma> (q_constraints (sample_query 8))"
    "\<forall>i < 4. uint ([4, 4, 127, 127 :: byte] ! i) = initial_value \<sigma> sym_array (int i)"
    using fast_values_correct [OF std_d.default_env_axioms q, of "rd 1" "[sym_array]" "[[4, 4, 127, 127]]", THEN conjunct2] ok v by auto
  show "\<exists>\<sigma>. holds \<sigma> (q_constraints (sample_query 8)) \<and> initial_value \<sigma> sym_array 1 = 4 \<and> initial_value \<sigma> sym_array 3 = 127"
    using s(1) s(2) [rule_format, of 1] s(2) [rule_format, of 3] by (intro exI [of _ \<sigma>]) simp
qed

end
