(* ===== verification/ExprCompare.thy ===== *)
theory ExprCompare
  imports ExprCreateSound "HOL-Library.List_Lexorder" "HOL-Library.Char_ord"
begin

section \<open>Hashing and comparing expressions (Expr.cpp, Updates.cpp)\<close>

text \<open>
  \<^verbatim>\<open>Expr::compare\<close> orders expressions by kind, hash, contents and kids; ordered and hashed containers of
  expressions rest on it. Constants are hashed by LLVM's \<^verbatim>\<open>hash_value\<close>, the argument \<open>h\<close>. The set of pairs
  already found equal, and the test for a shared tail of update nodes, only save work and are left out.
\<close>

subsection \<open>Hashes\<close>

type_synonym u32 = "32 word"

definition MAGIC_HASH_CONSTANT :: u32 where
  "MAGIC_HASH_CONSTANT = 39"

fun binop_number :: "binop \<Rightarrow> nat" where
  "binop_number Add = 10" | "binop_number Sub = 11" | "binop_number Mul = 12" | "binop_number UDiv = 13"
| "binop_number SDiv = 14" | "binop_number URem = 15" | "binop_number SRem = 16" | "binop_number And = 17"
| "binop_number Or = 18" | "binop_number Xor = 19" | "binop_number Shl = 20" | "binop_number LShr = 21"
| "binop_number AShr = 22" | "binop_number Eq = 23" | "binop_number Ne = 24" | "binop_number Ult = 25"
| "binop_number Ule = 26" | "binop_number Ugt = 27" | "binop_number Uge = 28" | "binop_number Slt = 29"
| "binop_number Sle = 30" | "binop_number Sgt = 31" | "binop_number Sge = 32"

text \<open>The values of \<^verbatim>\<open>enum Kind\<close>; 2 is skipped.\<close>

fun kind_number :: "expr \<Rightarrow> nat" where
  "kind_number (ConstantExpr c) = 0"
| "kind_number (NotOptimizedExpr e) = 1"
| "kind_number (ReadExpr a us i) = 3"
| "kind_number (SelectExpr c t f) = 4"
| "kind_number (ConcatExpr l r) = 5"
| "kind_number (ExtractExpr e off w) = 6"
| "kind_number (ZExtExpr e w) = 7"
| "kind_number (SExtExpr e w) = 8"
| "kind_number (NotExpr e) = 9"
| "kind_number (BinaryExpr k l r) = binop_number k"

text \<open>The loop of \<^verbatim>\<open>Expr::computeHash\<close> over the hashes of the kids.\<close>

definition kids_hash :: "nat \<Rightarrow> u32 list \<Rightarrow> u32" where
  "kids_hash k hs =
     foldl (\<lambda>res x. push_bit 1 res XOR x * MAGIC_HASH_CONSTANT) (of_nat k * MAGIC_HASH_CONSTANT) hs"

text \<open>A character is signed.\<close>

definition name_hash :: "string \<Rightarrow> u32" where
  "name_hash s = foldl (\<lambda>res c. res * MAGIC_HASH_CONSTANT + scast (of_char c :: 8 word)) 0 s"

primrec expr_hash :: "(apint \<Rightarrow> u32) \<Rightarrow> expr \<Rightarrow> u32"
  and node_hash :: "(apint \<Rightarrow> u32) \<Rightarrow> updates \<Rightarrow> u32" where
  "expr_hash h (ConstantExpr c) = h c XOR (of_nat (getBitWidth c) * MAGIC_HASH_CONSTANT)"
| "expr_hash h (NotOptimizedExpr e) = kids_hash 1 [expr_hash h e]"
| "expr_hash h (ReadExpr a us i) =
     expr_hash h i * MAGIC_HASH_CONSTANT XOR (name_hash (arr_name a) XOR node_hash h us)"
| "expr_hash h (SelectExpr c t f) = kids_hash 4 [expr_hash h c, expr_hash h t, expr_hash h f]"
| "expr_hash h (ConcatExpr l r) = kids_hash 5 [expr_hash h l, expr_hash h r]"
| "expr_hash h (ExtractExpr e off w) =
     (of_nat off * MAGIC_HASH_CONSTANT XOR of_nat w * MAGIC_HASH_CONSTANT) XOR expr_hash h e * MAGIC_HASH_CONSTANT"
| "expr_hash h (ZExtExpr e w) = of_nat w * MAGIC_HASH_CONSTANT XOR expr_hash h e * MAGIC_HASH_CONSTANT"
| "expr_hash h (SExtExpr e w) = of_nat w * MAGIC_HASH_CONSTANT XOR expr_hash h e * MAGIC_HASH_CONSTANT"
| "expr_hash h (NotExpr e) = expr_hash h e * MAGIC_HASH_CONSTANT * 9"
| "expr_hash h (BinaryExpr k l r) = kids_hash (binop_number k) [expr_hash h l, expr_hash h r]"
| "node_hash h UpdateNil = 0"
| "node_hash h (UpdateNode i v n) = (expr_hash h i XOR expr_hash h v) XOR node_hash h n"

subsection \<open>Comparison\<close>

text \<open>\<^verbatim>\<open>if (x != y) return x < y ? -1 : 1\<close>, and \<^verbatim>\<open>if (int res = ..) return res\<close>.\<close>

definition cmp3 :: "'a::linorder \<Rightarrow> 'a \<Rightarrow> int" where
  "cmp3 x y = (if x \<noteq> y then if x < y then - 1 else 1 else 0)"

definition seq3 :: "int \<Rightarrow> int \<Rightarrow> int" where
  "seq3 a b = (if a \<noteq> 0 then a else b)"

definition sign3 :: "int \<Rightarrow> int" where
  "sign3 r = (if r \<noteq> 0 then if r < 0 then - 1 else 1 else 0)"

definition compare_head :: "(apint \<Rightarrow> u32) \<Rightarrow> expr \<Rightarrow> expr \<Rightarrow> int" where
  "compare_head h a b = seq3 (cmp3 (kind_number a) (kind_number b)) (cmp3 (expr_hash h a) (expr_hash h b))"

text \<open>\<^verbatim>\<open>UpdateList::compare\<close> up to its loop.\<close>

definition compare_root :: "array \<Rightarrow> updates \<Rightarrow> array \<Rightarrow> updates \<Rightarrow> int" where
  "compare_root a us b us' =
     seq3 (cmp3 (arr_name a) (arr_name b))
       (seq3 (cmp3 (arr_addr a) (arr_addr b)) (cmp3 (updates_getSize us) (updates_getSize us')))"

primrec compare :: "(apint \<Rightarrow> u32) \<Rightarrow> expr \<Rightarrow> expr \<Rightarrow> int"
  and compare_nodes :: "(apint \<Rightarrow> u32) \<Rightarrow> updates \<Rightarrow> updates \<Rightarrow> int" where
  "compare h (ConstantExpr c) = (\<lambda>b. seq3 (compare_head h (ConstantExpr c) b) (case b of
     ConstantExpr d \<Rightarrow> seq3 (cmp3 (getBitWidth c) (getBitWidth d)) (cmp3 (getZExtValue c) (getZExtValue d))
   | _ \<Rightarrow> 0))"
| "compare h (NotOptimizedExpr e) = (\<lambda>b. seq3 (compare_head h (NotOptimizedExpr e) b) (case b of
     NotOptimizedExpr e' \<Rightarrow> compare h e e' | _ \<Rightarrow> 0))"
| "compare h (ReadExpr a us i) = (\<lambda>b. seq3 (compare_head h (ReadExpr a us i) b) (case b of
     ReadExpr a' us' i' \<Rightarrow> seq3 (seq3 (compare_root a us a' us') (compare_nodes h us us')) (compare h i i')
   | _ \<Rightarrow> 0))"
| "compare h (SelectExpr c t f) = (\<lambda>b. seq3 (compare_head h (SelectExpr c t f) b) (case b of
     SelectExpr c' t' f' \<Rightarrow> seq3 (compare h c c') (seq3 (compare h t t') (compare h f f')) | _ \<Rightarrow> 0))"
| "compare h (ConcatExpr l r) = (\<lambda>b. seq3 (compare_head h (ConcatExpr l r) b) (case b of
     ConcatExpr l' r' \<Rightarrow> seq3 (compare h l l') (compare h r r') | _ \<Rightarrow> 0))"
| "compare h (ExtractExpr e off w) = (\<lambda>b. seq3 (compare_head h (ExtractExpr e off w) b) (case b of
     ExtractExpr e' off' w' \<Rightarrow> seq3 (seq3 (cmp3 off off') (cmp3 w w')) (compare h e e') | _ \<Rightarrow> 0))"
| "compare h (ZExtExpr e w) = (\<lambda>b. seq3 (compare_head h (ZExtExpr e w) b) (case b of
     ZExtExpr e' w' \<Rightarrow> seq3 (cmp3 w w') (compare h e e') | _ \<Rightarrow> 0))"
| "compare h (SExtExpr e w) = (\<lambda>b. seq3 (compare_head h (SExtExpr e w) b) (case b of
     SExtExpr e' w' \<Rightarrow> seq3 (cmp3 w w') (compare h e e') | _ \<Rightarrow> 0))"
| "compare h (NotExpr e) = (\<lambda>b. seq3 (compare_head h (NotExpr e) b) (case b of
     NotExpr e' \<Rightarrow> seq3 (sign3 (compare h e e')) (compare h e e')
   | _ \<Rightarrow> 0))"
| "compare h (BinaryExpr k l r) = (\<lambda>b. seq3 (compare_head h (BinaryExpr k l r) b) (case b of
     BinaryExpr k' l' r' \<Rightarrow> seq3 (compare h l l') (compare h r r') | _ \<Rightarrow> 0))"
| "compare_nodes h UpdateNil = (\<lambda>b. 0)"
| "compare_nodes h (UpdateNode i v n) = (\<lambda>b. case b of UpdateNil \<Rightarrow> 0
   | UpdateNode i' v' n' \<Rightarrow> seq3 (seq3 (compare h i i') (compare h v v')) (compare_nodes h n n'))"

subsection \<open>A total order\<close>

text \<open>\<open>T3 u v w\<close>: \<open>w\<close> compares the ends of a chain whose links are compared by \<open>u\<close> and \<open>v\<close>.\<close>

definition T3 :: "int \<Rightarrow> int \<Rightarrow> int \<Rightarrow> bool" where
  "T3 u v w \<longleftrightarrow> (u = 0 \<longrightarrow> w = v) \<and> (v = 0 \<longrightarrow> w = u) \<and> (u < 0 \<longrightarrow> v < 0 \<longrightarrow> w < 0)"

lemma T3_seq:
  "T3 u v w \<Longrightarrow> (u = 0 \<Longrightarrow> v = 0 \<Longrightarrow> T3 u' v' w') \<Longrightarrow> T3 (seq3 u u') (seq3 v v') (seq3 w w')"
  by (auto simp: T3_def seq3_def)

lemma T3_plain: "T3 u v w \<Longrightarrow> T3 u' v' w' \<Longrightarrow> T3 (seq3 u u') (seq3 v v') (seq3 w w')"
  by (rule T3_seq)

lemma T3_cmp3: "T3 (cmp3 x y) (cmp3 y z) (cmp3 x z)"
  by (auto simp: T3_def cmp3_def)

lemma T3_sign: "T3 u v w \<Longrightarrow> T3 (sign3 u) (sign3 v) (sign3 w)"
  by (auto simp: T3_def sign3_def)

lemma T3_0 [simp]: "T3 0 0 0"
  by (simp add: T3_def)

lemma cmp3_0 [simp]: "cmp3 x y = 0 \<longleftrightarrow> x = y"
  by (simp add: cmp3_def)

lemma seq3_0 [simp]: "seq3 a b = 0 \<longleftrightarrow> a = 0 \<and> b = 0"
  by (simp add: seq3_def)

lemma cmp3_swap: "cmp3 y x = - cmp3 x y"
  by (auto simp: cmp3_def)

lemma sign3_0 [simp]: "sign3 r = 0 \<longleftrightarrow> r = 0"
  by (simp add: sign3_def)

lemma seq3_swap: "a' = - a \<Longrightarrow> b' = - b \<Longrightarrow> seq3 a' b' = - seq3 a b"
  by (simp add: seq3_def)

lemma sign3_swap: "a' = - a \<Longrightarrow> sign3 a' = - sign3 a"
  by (simp add: sign3_def)

lemmas swap_rules = seq3_swap sign3_swap cmp3_swap

lemma binop_number_bounds: "10 \<le> binop_number k \<and> binop_number k \<le> 32"
  by (cases k) simp_all

lemma binop_number_less [simp]:
  "binop_number k \<noteq> 0" "binop_number k \<noteq> Suc 0" "binop_number k \<noteq> 3" "binop_number k \<noteq> 4"
  "binop_number k \<noteq> 5" "binop_number k \<noteq> 6" "binop_number k \<noteq> 7" "binop_number k \<noteq> 8" "binop_number k \<noteq> 9"
  using binop_number_bounds [of k] by auto

lemma binop_number_inj [simp]: "binop_number k = binop_number k' \<longleftrightarrow> k = k'"
  by (cases k; cases k') simp_all

lemma head_0 [simp]:
  "compare_head h a b = 0 \<longleftrightarrow> kind_number a = kind_number b \<and> expr_hash h a = expr_hash h b"
  by (simp add: compare_head_def)

lemma head_swap: "compare_head h b a = - compare_head h a b"
  unfolding compare_head_def by (intro swap_rules)

lemma root_swap: "compare_root b us' a us = - compare_root a us b us'"
  unfolding compare_root_def by (intro swap_rules)

text \<open>What follows the head of the comparison.\<close>

definition compare_rest :: "(apint \<Rightarrow> u32) \<Rightarrow> expr \<Rightarrow> expr \<Rightarrow> int" where
  "compare_rest h a b = (case (a, b) of
     (ConstantExpr c, ConstantExpr d) \<Rightarrow>
       seq3 (cmp3 (getBitWidth c) (getBitWidth d)) (cmp3 (getZExtValue c) (getZExtValue d))
   | (NotOptimizedExpr e, NotOptimizedExpr e') \<Rightarrow> compare h e e'
   | (ReadExpr a us i, ReadExpr a' us' i') \<Rightarrow>
       seq3 (seq3 (compare_root a us a' us') (compare_nodes h us us')) (compare h i i')
   | (SelectExpr c t f, SelectExpr c' t' f') \<Rightarrow>
       seq3 (compare h c c') (seq3 (compare h t t') (compare h f f'))
   | (ConcatExpr l r, ConcatExpr l' r') \<Rightarrow> seq3 (compare h l l') (compare h r r')
   | (ExtractExpr e off w, ExtractExpr e' off' w') \<Rightarrow>
       seq3 (seq3 (cmp3 off off') (cmp3 w w')) (compare h e e')
   | (ZExtExpr e w, ZExtExpr e' w') \<Rightarrow> seq3 (cmp3 w w') (compare h e e')
   | (SExtExpr e w, SExtExpr e' w') \<Rightarrow> seq3 (cmp3 w w') (compare h e e')
   | (NotExpr e, NotExpr e') \<Rightarrow>
       seq3 (sign3 (compare h e e')) (compare h e e')
   | (BinaryExpr k l r, BinaryExpr k' l' r') \<Rightarrow> seq3 (compare h l l') (compare h r r')
   | _ \<Rightarrow> 0)"

lemma compare_split: "compare h a b = seq3 (compare_head h a b) (compare_rest h a b)"
  by (cases a; cases b) (simp_all add: compare_rest_def)

lemma kind_number_iff:
  "kind_number b = 0 \<longleftrightarrow> (\<exists>c. b = ConstantExpr c)"
  "kind_number b = Suc 0 \<longleftrightarrow> (\<exists>e. b = NotOptimizedExpr e)"
  "kind_number b = 3 \<longleftrightarrow> (\<exists>a us i. b = ReadExpr a us i)"
  "kind_number b = 4 \<longleftrightarrow> (\<exists>c t f. b = SelectExpr c t f)"
  "kind_number b = 5 \<longleftrightarrow> (\<exists>l r. b = ConcatExpr l r)"
  "kind_number b = 6 \<longleftrightarrow> (\<exists>e off w. b = ExtractExpr e off w)"
  "kind_number b = 7 \<longleftrightarrow> (\<exists>e w. b = ZExtExpr e w)"
  "kind_number b = 8 \<longleftrightarrow> (\<exists>e w. b = SExtExpr e w)"
  "kind_number b = 9 \<longleftrightarrow> (\<exists>e. b = NotExpr e)"
  "kind_number b = binop_number k \<longleftrightarrow> (\<exists>l r. b = BinaryExpr k l r)"
  by (cases b; simp add: binop_number_less [of k, symmetric])+

lemma T3_split:
  assumes "kind_number b = kind_number a \<Longrightarrow> kind_number c = kind_number a \<Longrightarrow>
    T3 (compare_rest h a b) (compare_rest h b c) (compare_rest h a c)"
  shows "T3 (compare h a b) (compare h b c) (compare h a c)"
  unfolding compare_split [of h]
proof (rule T3_seq)
  show "T3 (compare_head h a b) (compare_head h b c) (compare_head h a c)"
    unfolding compare_head_def by (intro T3_plain T3_cmp3)
  assume "compare_head h a b = 0" "compare_head h b c = 0"
  then show "T3 (compare_rest h a b) (compare_rest h b c) (compare_rest h a c)"
    by (intro assms) auto
qed

lemma compare_T3:
  "\<And>b c. T3 (compare h a b) (compare h b c) (compare h a c)"
  "\<And>us' us''. updates_getSize us = updates_getSize us' \<Longrightarrow> updates_getSize us' = updates_getSize us'' \<Longrightarrow>
     T3 (compare_nodes h us us') (compare_nodes h us' us'') (compare_nodes h us us'')"
proof (induction a and us)
  case UpdateNil
  then show ?case by (cases us'; cases us'') simp_all
next
  case (UpdateNode i v n)
  then show ?case by (cases us'; cases us'') (auto intro!: T3_plain)
next
  case (ReadExpr a us i)
  show ?case
  proof (rule T3_split)
    assume "kind_number b = kind_number (ReadExpr a us i)" "kind_number c = kind_number (ReadExpr a us i)"
    then obtain a' us' i' a'' us'' i'' where "b = ReadExpr a' us' i'" "c = ReadExpr a'' us'' i''"
      by (auto simp: kind_number_iff)
    then show "T3 (compare_rest h (ReadExpr a us i) b) (compare_rest h b c) (compare_rest h (ReadExpr a us i) c)"
      unfolding compare_rest_def prod.case expr.case
      by simp (rule T3_plain, rule T3_seq, auto simp: compare_root_def intro!: T3_plain T3_cmp3 ReadExpr.IH)
  qed
qed (rule T3_split, (auto simp: kind_number_iff compare_rest_def simp del: compare.simps
    intro!: T3_plain T3_cmp3 T3_sign)[1])+

lemma swap_split:
  "(kind_number b = kind_number a \<Longrightarrow> compare_rest h b a = - compare_rest h a b) \<Longrightarrow>
   compare h b a = - compare h a b"
  using head_swap [of h b a] head_0 [of h a b] by (auto simp: compare_split [of h] seq3_def)

lemma compare_swap:
  "\<And>b. compare h b a = - compare h a b" "\<And>us'. compare_nodes h us' us = - compare_nodes h us us'"
proof (induction a and us)
  case (UpdateNode i v n)
  then show ?case by (cases us') (auto intro!: seq3_swap)
next
  case UpdateNil
  then show ?case by (cases us') simp_all
qed (rule swap_split, (auto simp: kind_number_iff compare_rest_def simp del: compare.simps
    intro!: swap_rules root_swap)[1])+

text \<open>The arrays of an expression; distinct arrays have distinct addresses.\<close>

primrec arrays_of :: "expr \<Rightarrow> array set" and arrays_of_updates :: "updates \<Rightarrow> array set" where
  "arrays_of (ConstantExpr c) = {}"
| "arrays_of (NotOptimizedExpr e) = arrays_of e"
| "arrays_of (ReadExpr a us i) = insert a (arrays_of_updates us \<union> arrays_of i)"
| "arrays_of (SelectExpr c t f) = arrays_of c \<union> arrays_of t \<union> arrays_of f"
| "arrays_of (ConcatExpr l r) = arrays_of l \<union> arrays_of r"
| "arrays_of (ExtractExpr e off w) = arrays_of e"
| "arrays_of (ZExtExpr e w) = arrays_of e"
| "arrays_of (SExtExpr e w) = arrays_of e"
| "arrays_of (NotExpr e) = arrays_of e"
| "arrays_of (BinaryExpr k l r) = arrays_of l \<union> arrays_of r"
| "arrays_of_updates UpdateNil = {}"
| "arrays_of_updates (UpdateNode i v n) = arrays_of i \<union> arrays_of v \<union> arrays_of_updates n"

lemma rest_0:
  "(kind_number b = kind_number a \<Longrightarrow> compare_rest h a b = 0 \<longleftrightarrow> a = b) \<Longrightarrow> compare h a b = 0 \<longleftrightarrow> a = b"
  by (auto simp: compare_split [of h a b])

lemma compare_0:
  "\<And>b. inj_on arr_addr (arrays_of a \<union> arrays_of b) \<Longrightarrow> compare h a b = 0 \<longleftrightarrow> a = b"
  "\<And>us'. updates_getSize us = updates_getSize us' \<Longrightarrow>
     inj_on arr_addr (arrays_of_updates us \<union> arrays_of_updates us') \<Longrightarrow> compare_nodes h us us' = 0 \<longleftrightarrow> us = us'"
proof (induction a and us)
  case UpdateNil
  then show ?case by (cases us') simp_all
next
  case (UpdateNode i v n)
  show ?case
  proof (cases us')
    case (UpdateNode i' v' n')
    have "compare h i i' = 0 \<longleftrightarrow> i = i'" "compare h v v' = 0 \<longleftrightarrow> v = v'" "compare_nodes h n n' = 0 \<longleftrightarrow> n = n'"
      using UpdateNode.prems \<open>us' = _\<close>
      by (intro UpdateNode.IH; auto elim!: inj_on_subset)+
    with UpdateNode show ?thesis by simp
  qed (use UpdateNode.prems in simp)
next
  case (ConstantExpr c)
  show ?case
    by (rule rest_0) (auto simp: kind_number_iff compare_rest_def apint.expand simp del: compare.simps)
next
  case (ReadExpr a us i)
  show ?case
  proof (rule rest_0)
    assume "kind_number b = kind_number (ReadExpr a us i)"
    then obtain a' us' i' where b: "b = ReadExpr a' us' i'" by (auto simp: kind_number_iff)
    have i: "compare h i i' = 0 \<longleftrightarrow> i = i'"
      using ReadExpr.prems b by (intro ReadExpr.IH(2)) (auto elim!: inj_on_subset)
    have n: "compare_nodes h us us' = 0 \<longleftrightarrow> us = us'" if "updates_getSize us = updates_getSize us'"
      using ReadExpr.prems b that by (intro ReadExpr.IH(1)) (auto elim!: inj_on_subset)
    have "arr_addr a = arr_addr a' \<longleftrightarrow> a = a'"
      using inj_on_eq_iff [OF ReadExpr.prems, of a a'] b by simp
    with i n show "compare_rest h (ReadExpr a us i) b = 0 \<longleftrightarrow> ReadExpr a us i = b"
      by (auto simp: b compare_rest_def compare_root_def)
  qed
next
  case (SelectExpr c t f)
  have "compare h c c' = 0 \<longleftrightarrow> c = c'" "compare h t t' = 0 \<longleftrightarrow> t = t'" "compare h f f' = 0 \<longleftrightarrow> f = f'"
    if "b = SelectExpr c' t' f'" for c' t' f'
    using SelectExpr.prems that by (intro SelectExpr.IH; auto elim!: inj_on_subset)+
  then show ?case by (intro rest_0) (auto simp: kind_number_iff compare_rest_def simp del: compare.simps)
next
  case (ConcatExpr l r)
  have "compare h l l' = 0 \<longleftrightarrow> l = l'" "compare h r r' = 0 \<longleftrightarrow> r = r'" if "b = ConcatExpr l' r'" for l' r'
    using ConcatExpr.prems that by (intro ConcatExpr.IH; auto elim!: inj_on_subset)+
  then show ?case by (intro rest_0) (auto simp: kind_number_iff compare_rest_def simp del: compare.simps)
next
  case (BinaryExpr k l r)
  have "compare h l l' = 0 \<longleftrightarrow> l = l'" "compare h r r' = 0 \<longleftrightarrow> r = r'" if "b = BinaryExpr k l' r'" for l' r'
    using BinaryExpr.prems that by (intro BinaryExpr.IH; auto elim!: inj_on_subset)+
  then show ?case by (intro rest_0) (auto simp: kind_number_iff compare_rest_def simp del: compare.simps)
qed (rule rest_0, (auto simp: kind_number_iff compare_rest_def simp del: compare.simps)[1])+

section \<open>Property\<close>

text \<open>C23: \<^verbatim>\<open>Expr::compare\<close> is a total order whose equality is structural equality: 0 exactly on equal
  expressions, antisymmetric and transitive, whatever LLVM's hash of constants is.\<close>

theorem compare_total_order:
  assumes "inj_on arr_addr (arrays_of a \<union> arrays_of b)"
  shows "(compare h a b = 0 \<longleftrightarrow> a = b) \<and> compare h b a = - compare h a b \<and>
    \<not> (compare h a b < 0 \<and> compare h b c < 0 \<and> compare h a c \<ge> 0)"
  using compare_0(1) [OF assms, of h] compare_swap(1) [of h b a] compare_T3(1) [of h a b c] by (auto simp: T3_def)

theorem compare_total_order_witness:
  "compare (\<lambda>c. 0) (rd 1) (NotExpr (rd 1)) = - 1 \<and> compare (\<lambda>c. 0) (NotExpr (rd 1)) (rd 1) = 1"
  using compare_total_order [of "rd 1" "NotExpr (rd 1)" "\<lambda>c. 0" "rd 1"]
  by (simp add: compare_head_def cmp3_def seq3_def)

end
