(* ===== verification/Solvers.thy ===== *)
theory Solvers
  imports FastCex ExprCompare
begin

section \<open>The solver stack (Solver.cpp, SolverImpl.cpp, IncompleteSolver.cpp, CachingSolver.cpp, DummySolver.cpp)\<close>

text \<open>
  A \<^verbatim>\<open>SolverImpl\<close> is a record of its virtual methods over the state \<open>'s\<close> it keeps. A method's result is
  \<open>None\<close> inside when the C++ method returns false, and \<open>None\<close> outside when an assertion fails. The contract
  that \<^verbatim>\<open>SolverImpl.h\<close> states is locale \<open>solver_laws\<close>, that of \<^verbatim>\<open>IncompleteSolver\<close> is \<open>incomplete_laws\<close>;
  staging and caching are proved to keep it and \<^verbatim>\<open>Solver\<close>'s own methods, \<^verbatim>\<open>getRange\<close> among them, are proved
  from it. Statistics, timeouts, status codes and constraint logs are left out.
\<close>

subsection \<open>Queries\<close>

definition withExpr :: "query \<Rightarrow> expr \<Rightarrow> query" where
  "withExpr q e = q\<lparr>q_expr := e\<rparr>"

definition withFalse :: "'z expr_env_scheme \<Rightarrow> query \<Rightarrow> query" where
  "withFalse K q = withExpr q (ConstantExpr (ConstantExpr_alloc K 0 1))"

definition negateExpr :: "'z expr_env_scheme \<Rightarrow> query \<Rightarrow> query" where
  "negateExpr K q = withExpr q (createIsZero K (q_expr q))"

subsection \<open>SolverImpl\<close>

datatype validity = VTrue | VFalse | VUnknown

record 's solver_impl =
  computeTruth :: "query \<Rightarrow> 's \<Rightarrow> (bool option \<times> 's) option"
  computeValidity :: "query \<Rightarrow> 's \<Rightarrow> (validity option \<times> 's) option"
  computeValue :: "query \<Rightarrow> 's \<Rightarrow> (expr option \<times> 's) option"
  computeInitialValues :: "query \<Rightarrow> array list \<Rightarrow> byte list list \<Rightarrow> 's \<Rightarrow>
    ((bool \<times> bool option \<times> byte list list) \<times> 's) option"
    \<comment> \<open>result, \<open>hasSolution\<close> if it was set, \<open>values\<close>\<close>

text \<open>\<^verbatim>\<open>SolverImpl::computeValidity\<close>, from \<^verbatim>\<open>computeTruth\<close>.\<close>

definition default_computeValidity ::
  "'z expr_env_scheme \<Rightarrow> (query \<Rightarrow> 's \<Rightarrow> (bool option \<times> 's) option) \<Rightarrow> query \<Rightarrow> 's \<Rightarrow> (validity option \<times> 's) option" where
  "default_computeValidity K truth q s = do {
     (r, s) \<leftarrow> truth q s;
     case r of None \<Rightarrow> Some (None, s)
     | Some proved \<Rightarrow>
         if proved then Some (Some VTrue, s)
         else do {
           (r, s) \<leftarrow> truth (negateExpr K q) s;
           case r of None \<Rightarrow> Some (None, s)
           | Some refuted \<Rightarrow> Some (Some (if refuted then VFalse else VUnknown), s) } }"

definition dummy_solver :: "'s solver_impl" where
  "dummy_solver = \<lparr>
     computeTruth = (\<lambda>q s. Some (None, s)), computeValidity = (\<lambda>q s. Some (None, s)),
     computeValue = (\<lambda>q s. Some (None, s)),
     computeInitialValues = (\<lambda>q arrs vals s. Some ((False, None, vals), s))\<rparr>"

subsection \<open>IncompleteSolver and StagedSolver\<close>

fun negatePartialValidity :: "partial_validity \<Rightarrow> partial_validity option" where
  "negatePartialValidity MustBeTrue = Some MustBeFalse"
| "negatePartialValidity MustBeFalse = Some MustBeTrue"
| "negatePartialValidity MayBeTrue = Some MayBeFalse"
| "negatePartialValidity MayBeFalse = Some MayBeTrue"
| "negatePartialValidity TrueOrFalse = Some TrueOrFalse"
| "negatePartialValidity NoValidity = None"

record incomplete_solver =
  p_computeTruth :: "query \<Rightarrow> partial_validity option"
  p_computeValue :: "query \<Rightarrow> expr option option"
  p_computeInitialValues :: "query \<Rightarrow> array list \<Rightarrow> (bool \<times> bool option \<times> byte list list) option"

definition partial_computeValidity :: "'z expr_env_scheme \<Rightarrow> incomplete_solver \<Rightarrow> query \<Rightarrow> partial_validity option" where
  "partial_computeValidity K P q = do {
     trueResult \<leftarrow> p_computeTruth P q;
     if trueResult = MustBeTrue then Some MustBeTrue
     else do {
       falseResult \<leftarrow> p_computeTruth P (negateExpr K q);
       if falseResult = MustBeTrue then Some MustBeFalse
       else
         let trueCorrect = trueResult \<noteq> NoValidity; falseCorrect = falseResult \<noteq> NoValidity in
         if trueCorrect \<and> falseCorrect then Some TrueOrFalse
         else if trueCorrect then Some MayBeFalse
         else if falseCorrect then Some MayBeTrue
         else Some NoValidity } }"

definition fast_cex_solver :: "'z expr_env_scheme \<Rightarrow> incomplete_solver" where
  "fast_cex_solver K = \<lparr>p_computeTruth = fast_computeTruth K, p_computeValue = fast_computeValue K,
     p_computeInitialValues = fast_computeInitialValues K\<rparr>"

definition staged_computeTruth ::
  "incomplete_solver \<Rightarrow> 's solver_impl \<Rightarrow> query \<Rightarrow> 's \<Rightarrow> (bool option \<times> 's) option" where
  "staged_computeTruth P S q s = do {
     trueResult \<leftarrow> p_computeTruth P q;
     if trueResult \<noteq> NoValidity then Some (Some (trueResult = MustBeTrue), s)
     else computeTruth S q s }"

definition staged_computeValidity ::
  "'z expr_env_scheme \<Rightarrow> incomplete_solver \<Rightarrow> 's solver_impl \<Rightarrow> query \<Rightarrow> 's \<Rightarrow> (validity option \<times> 's) option" where
  "staged_computeValidity K P S q s = do {
     pv \<leftarrow> partial_computeValidity K P q;
     case pv of
       MustBeTrue \<Rightarrow> Some (Some VTrue, s)
     | MustBeFalse \<Rightarrow> Some (Some VFalse, s)
     | TrueOrFalse \<Rightarrow> Some (Some VUnknown, s)
     | MayBeTrue \<Rightarrow> do {
         (r, s) \<leftarrow> computeTruth S q s;
         Some (map_option (\<lambda>tmp. if tmp then VTrue else VUnknown) r, s) }
     | MayBeFalse \<Rightarrow> do {
         (r, s) \<leftarrow> computeTruth S (negateExpr K q) s;
         Some (map_option (\<lambda>tmp. if tmp then VFalse else VUnknown) r, s) }
     | NoValidity \<Rightarrow> computeValidity S q s }"

definition staged_computeValue ::
  "incomplete_solver \<Rightarrow> 's solver_impl \<Rightarrow> query \<Rightarrow> 's \<Rightarrow> (expr option \<times> 's) option" where
  "staged_computeValue P S q s = do {
     r \<leftarrow> p_computeValue P q;
     case r of Some e \<Rightarrow> Some (Some e, s) | None \<Rightarrow> computeValue S q s }"

text \<open>The primary pushes to \<open>values\<close>, which the secondary then gets as it is.\<close>

definition staged_computeInitialValues ::
  "incomplete_solver \<Rightarrow> 's solver_impl \<Rightarrow> query \<Rightarrow> array list \<Rightarrow> byte list list \<Rightarrow> 's \<Rightarrow>
   ((bool \<times> bool option \<times> byte list list) \<times> 's) option" where
  "staged_computeInitialValues P S q arrs vals s = do {
     (ok, h, pushed) \<leftarrow> p_computeInitialValues P q arrs;
     if ok then Some ((True, h, vals @ pushed), s)
     else computeInitialValues S q arrs (vals @ pushed) s }"

definition staged_solver :: "'z expr_env_scheme \<Rightarrow> incomplete_solver \<Rightarrow> 's solver_impl \<Rightarrow> 's solver_impl" where
  "staged_solver K P S = \<lparr>
     computeTruth = staged_computeTruth P S, computeValidity = staged_computeValidity K P S,
     computeValue = staged_computeValue P S, computeInitialValues = staged_computeInitialValues P S\<rparr>"

subsection \<open>CachingSolver\<close>

text \<open>\<open>h\<close> is LLVM's hash of constants, on which the order of expressions rests.\<close>

type_synonym cache_map = "expr list \<times> expr \<Rightarrow> partial_validity option"

definition canonicalizeQuery :: "'z expr_env_scheme \<Rightarrow> (apint \<Rightarrow> u32) \<Rightarrow> expr \<Rightarrow> expr \<times> bool" where
  "canonicalizeQuery K h originalQuery =
     (let negatedQuery = createIsZero K originalQuery in
      if compare h originalQuery negatedQuery < 0 then (originalQuery, False) else (negatedQuery, True))"

text \<open>\<open>Some None\<close> is a miss.\<close>

definition cacheLookup :: "'z expr_env_scheme \<Rightarrow> (apint \<Rightarrow> u32) \<Rightarrow> query \<Rightarrow> cache_map \<Rightarrow> partial_validity option option" where
  "cacheLookup K h q cache =
     (let (canonicalQuery, negationUsed) = canonicalizeQuery K h (q_expr q) in
      case cache (q_constraints q, canonicalQuery) of
        None \<Rightarrow> Some None
      | Some r \<Rightarrow> if negationUsed then map_option Some (negatePartialValidity r) else Some (Some r))"

text \<open>\<^verbatim>\<open>unordered_map::insert\<close> keeps an entry that is there.\<close>

definition cacheInsert ::
  "'z expr_env_scheme \<Rightarrow> (apint \<Rightarrow> u32) \<Rightarrow> query \<Rightarrow> partial_validity \<Rightarrow> cache_map \<Rightarrow> cache_map option" where
  "cacheInsert K h q result cache =
     (let (canonicalQuery, negationUsed) = canonicalizeQuery K h (q_expr q);
          ce = (q_constraints q, canonicalQuery) in do {
        cachedResult \<leftarrow> (if negationUsed then negatePartialValidity result else Some result);
        Some (if cache ce = None then cache(ce \<mapsto> cachedResult) else cache) })"

fun partial_of :: "validity \<Rightarrow> partial_validity" where
  "partial_of VTrue = MustBeTrue" | "partial_of VFalse = MustBeFalse" | "partial_of VUnknown = TrueOrFalse"

text \<open>The refinement of a cached \<open>MayBeTrue\<close> or \<open>MayBeFalse\<close>: \<open>v\<close> is the validity if the query \<open>q'\<close> is true.\<close>

definition refine_cached ::
  "'z expr_env_scheme \<Rightarrow> (apint \<Rightarrow> u32) \<Rightarrow> 's solver_impl \<Rightarrow> query \<Rightarrow> query \<Rightarrow> validity \<Rightarrow> 's \<times> cache_map \<Rightarrow>
   (validity option \<times> 's \<times> cache_map) option" where
  "refine_cached K h S q q' v st = do {
     (r, s) \<leftarrow> computeTruth S q' (fst st);
     case r of None \<Rightarrow> Some (None, s, snd st)
     | Some tmp \<Rightarrow>
         let res = (if tmp then v else VUnknown) in do {
           cache \<leftarrow> cacheInsert K h q (partial_of res) (snd st);
           Some (Some res, s, cache) } }"

definition caching_computeValidity ::
  "'z expr_env_scheme \<Rightarrow> (apint \<Rightarrow> u32) \<Rightarrow> 's solver_impl \<Rightarrow> query \<Rightarrow> 's \<times> cache_map \<Rightarrow>
   (validity option \<times> 's \<times> cache_map) option" where
  "caching_computeValidity K h S q st = do {
     hit \<leftarrow> cacheLookup K h q (snd st);
     case hit of
       Some MustBeTrue \<Rightarrow> Some (Some VTrue, st)
     | Some MustBeFalse \<Rightarrow> Some (Some VFalse, st)
     | Some TrueOrFalse \<Rightarrow> Some (Some VUnknown, st)
     | Some MayBeTrue \<Rightarrow> refine_cached K h S q q VTrue st
     | Some MayBeFalse \<Rightarrow> refine_cached K h S q (negateExpr K q) VFalse st
     | Some NoValidity \<Rightarrow> None
     | None \<Rightarrow> do {
         (r, s) \<leftarrow> computeValidity S q (fst st);
         case r of None \<Rightarrow> Some (None, s, snd st)
         | Some v \<Rightarrow> do {
             cache \<leftarrow> cacheInsert K h q (partial_of v) (snd st);
             Some (Some v, s, cache) } } }"

definition caching_computeTruth ::
  "'z expr_env_scheme \<Rightarrow> (apint \<Rightarrow> u32) \<Rightarrow> 's solver_impl \<Rightarrow> query \<Rightarrow> 's \<times> cache_map \<Rightarrow>
   (bool option \<times> 's \<times> cache_map) option" where
  "caching_computeTruth K h S q st = do {
     hit \<leftarrow> cacheLookup K h q (snd st);
     if hit \<noteq> None \<and> hit \<noteq> Some MayBeTrue then Some (Some (hit = Some MustBeTrue), st)
     else do {
       (r, s) \<leftarrow> computeTruth S q (fst st);
       case r of None \<Rightarrow> Some (None, s, snd st)
       | Some isValid \<Rightarrow> do {
           cache \<leftarrow> cacheInsert K h q
             (if isValid then MustBeTrue else if hit \<noteq> None then TrueOrFalse else MayBeFalse) (snd st);
           Some (Some isValid, s, cache) } } }"

definition caching_computeValue ::
  "'s solver_impl \<Rightarrow> query \<Rightarrow> 's \<times> cache_map \<Rightarrow> (expr option \<times> 's \<times> cache_map) option" where
  "caching_computeValue S q st = map_option (\<lambda>(r, s). (r, s, snd st)) (computeValue S q (fst st))"

definition caching_computeInitialValues ::
  "'s solver_impl \<Rightarrow> query \<Rightarrow> array list \<Rightarrow> byte list list \<Rightarrow> 's \<times> cache_map \<Rightarrow>
   ((bool \<times> bool option \<times> byte list list) \<times> 's \<times> cache_map) option" where
  "caching_computeInitialValues S q arrs vals st =
     map_option (\<lambda>(r, s). (r, s, snd st)) (computeInitialValues S q arrs vals (fst st))"

definition caching_solver ::
  "'z expr_env_scheme \<Rightarrow> (apint \<Rightarrow> u32) \<Rightarrow> 's solver_impl \<Rightarrow> ('s \<times> cache_map) solver_impl" where
  "caching_solver K h S = \<lparr>
     computeTruth = caching_computeTruth K h S, computeValidity = caching_computeValidity K h S,
     computeValue = caching_computeValue S, computeInitialValues = caching_computeInitialValues S\<rparr>"

subsection \<open>Solver\<close>

definition solver_evaluate ::
  "'s solver_impl \<Rightarrow> query \<Rightarrow> 's \<Rightarrow> (validity option \<times> 's) option" where
  "solver_evaluate S q s =
     (if getWidth (q_expr q) \<noteq> 1 then None
      else case as_const (q_expr q) of
        Some c \<Rightarrow> Some (Some (if ap_isTrue c then VTrue else VFalse), s)
      | None \<Rightarrow> computeValidity S q s)"

definition mustBeTrue :: "'s solver_impl \<Rightarrow> query \<Rightarrow> 's \<Rightarrow> (bool option \<times> 's) option" where
  "mustBeTrue S q s =
     (if getWidth (q_expr q) \<noteq> 1 then None
      else case as_const (q_expr q) of
        Some c \<Rightarrow> Some (Some (ap_isTrue c), s)
      | None \<Rightarrow> computeTruth S q s)"

definition mustBeFalse ::
  "'z expr_env_scheme \<Rightarrow> 's solver_impl \<Rightarrow> query \<Rightarrow> 's \<Rightarrow> (bool option \<times> 's) option" where
  "mustBeFalse K S q s = mustBeTrue S (negateExpr K q) s"

definition mayBeTrue ::
  "'z expr_env_scheme \<Rightarrow> 's solver_impl \<Rightarrow> query \<Rightarrow> 's \<Rightarrow> (bool option \<times> 's) option" where
  "mayBeTrue K S q s = map_option (\<lambda>(r, s). (map_option (\<lambda>b. \<not> b) r, s)) (mustBeFalse K S q s)"

definition mayBeFalse :: "'s solver_impl \<Rightarrow> query \<Rightarrow> 's \<Rightarrow> (bool option \<times> 's) option" where
  "mayBeFalse S q s = map_option (\<lambda>(r, s). (map_option (\<lambda>b. \<not> b) r, s)) (mustBeTrue S q s)"

text \<open>\<^verbatim>\<open>cast<ConstantExpr>\<close> asserts that the value is a constant.\<close>

definition getValue :: "'s solver_impl \<Rightarrow> query \<Rightarrow> 's \<Rightarrow> (apint option \<times> 's) option" where
  "getValue S q s =
     (case as_const (q_expr q) of
        Some c \<Rightarrow> Some (Some c, s)
      | None \<Rightarrow> do {
          (r, s) \<leftarrow> computeValue S q s;
          case r of None \<Rightarrow> Some (None, s)
          | Some e \<Rightarrow> do { c \<leftarrow> as_const e; Some (Some c, s) } })"

text \<open>\<open>None\<close> also when \<^verbatim>\<open>hasSolution\<close> is read although it was not set.\<close>

definition getInitialValues ::
  "'s solver_impl \<Rightarrow> query \<Rightarrow> array list \<Rightarrow> byte list list \<Rightarrow> 's \<Rightarrow> ((bool \<times> byte list list) \<times> 's) option" where
  "getInitialValues S q arrs vals s = do {
     ((success, hasSolution, vals), s) \<leftarrow> computeInitialValues S q arrs vals s;
     has \<leftarrow> hasSolution;
     Some (if \<not> has then (False, vals) else (success, vals), s) }"

text \<open>\<^verbatim>\<open>ConstantExpr::create\<close> asserts that the value fits the width.\<close>

definition ConstantExpr_create :: "'z expr_env_scheme \<Rightarrow> u64 \<Rightarrow> nat \<Rightarrow> expr option" where
  "ConstantExpr_create K v w =
     (if v = truncateToNBits v w then Some (ConstantExpr (ConstantExpr_alloc K (uint v) w)) else None)"

text \<open>The three binary searches of \<^verbatim>\<open>getRange\<close> differ in the question they ask about the middle.\<close>

function binary_search :: "(u64 \<Rightarrow> 's \<Rightarrow> (bool option \<times> 's) option) \<Rightarrow> u64 \<Rightarrow> u64 \<Rightarrow> 's \<Rightarrow> (u64 \<times> 's) option" where
  "binary_search ask lo hi s =
     (if lo < hi then
        let mid = lo + (hi - lo) div 2 in do {
          (r, s) \<leftarrow> ask mid s;
          res \<leftarrow> r;
          if res then binary_search ask lo mid s else binary_search ask (mid + 1) hi s }
      else Some (lo, s))"
  by pat_completeness auto

definition ask_bits ::
  "'z expr_env_scheme \<Rightarrow> 's solver_impl \<Rightarrow> query \<Rightarrow> u64 \<Rightarrow> 's \<Rightarrow> (bool option \<times> 's) option" where
  "ask_bits K S q mid s = (let e = q_expr q; width = getWidth e in do {
     c \<leftarrow> ConstantExpr_create K mid width;
     z \<leftarrow> ConstantExpr_create K 0 width;
     mustBeTrue S (withExpr q (Binary_make K Eq (Binary_make K LShr e c) z)) s })"

definition ask_zero :: "'z expr_env_scheme \<Rightarrow> 's solver_impl \<Rightarrow> query \<Rightarrow> 's \<Rightarrow> (bool option \<times> 's) option" where
  "ask_zero K S q s = (let e = q_expr q in do {
     z \<leftarrow> ConstantExpr_create K 0 (getWidth e);
     mayBeTrue K S (withExpr q (Binary_make K Eq e z)) s })"

definition ask_min ::
  "'z expr_env_scheme \<Rightarrow> 's solver_impl \<Rightarrow> query \<Rightarrow> u64 \<Rightarrow> 's \<Rightarrow> (bool option \<times> 's) option" where
  "ask_min K S q mid s = (let e = q_expr q in do {
     c \<leftarrow> ConstantExpr_create K mid (getWidth e);
     mayBeTrue K S (withExpr q (Binary_make K Ule e c)) s })"

definition ask_max ::
  "'z expr_env_scheme \<Rightarrow> 's solver_impl \<Rightarrow> query \<Rightarrow> u64 \<Rightarrow> 's \<Rightarrow> (bool option \<times> 's) option" where
  "ask_max K S q mid s = (let e = q_expr q in do {
     c \<leftarrow> ConstantExpr_create K mid (getWidth e);
     mustBeTrue S (withExpr q (Binary_make K Ule e c)) s })"

definition range_bounds_of ::
  "'z expr_env_scheme \<Rightarrow> 's solver_impl \<Rightarrow> query \<Rightarrow> 's \<Rightarrow> ((u64 \<times> u64) \<times> 's) option" where
  "range_bounds_of K S q s = (let e = q_expr q; width = getWidth e in
     if width = 1 then do {
       (r, s) \<leftarrow> solver_evaluate S q s;
       v \<leftarrow> r;
       Some (case v of VTrue \<Rightarrow> (1, 1) | VFalse \<Rightarrow> (0, 0) | VUnknown \<Rightarrow> (0, 1), s) }
     else case as_const e of
       Some c \<Rightarrow> do { v \<leftarrow> CE_getZExtValue c 64; Some ((v, v), s) }
     | None \<Rightarrow> do {
         (bits, s) \<leftarrow> binary_search (ask_bits K S q) 0 (of_nat width) s;
         (r, s) \<leftarrow> ask_zero K S q s;
         res \<leftarrow> r;
         (mn, s) \<leftarrow> (if res then Some (0, s)
           else binary_search (ask_min K S q) 0 (maxValueOfNBits (unat bits)) s);
         (mx, s) \<leftarrow> binary_search (ask_max K S q) mn (maxValueOfNBits (unat bits)) s;
         Some ((mn, mx), s) })"

definition getRange ::
  "'z expr_env_scheme \<Rightarrow> 's solver_impl \<Rightarrow> query \<Rightarrow> 's \<Rightarrow> ((expr \<times> expr) \<times> 's) option" where
  "getRange K S q s = do {
     ((mn, mx), s) \<leftarrow> range_bounds_of K S q s;
     a \<leftarrow> ConstantExpr_create K mn (getWidth (q_expr q));
     b \<leftarrow> ConstantExpr_create K mx (getWidth (q_expr q));
     Some ((a, b), s) }"

lemma mid_bounds:
  assumes "(lo :: u64) < hi" shows "lo \<le> lo + (hi - lo) div 2" "lo + (hi - lo) div 2 < hi"
proof -
  have lh: "unat lo < unat hi" using assms by (simp add: word_less_nat_alt)
  have "unat (hi - lo) = unat hi - unat lo" using assms by (simp add: unat_sub)
  then have d: "unat ((hi - lo) div 2) = (unat hi - unat lo) div 2" by (simp add: unat_div)
  have "unat lo + (unat hi - unat lo) div 2 < unat hi" using lh by auto
  then have m: "unat (lo + (hi - lo) div 2) = unat lo + (unat hi - unat lo) div 2"
    using d unsigned_less [of hi, where ?'a = nat] by (subst unat_add_lem [THEN iffD1]) auto
  show "lo \<le> lo + (hi - lo) div 2" "lo + (hi - lo) div 2 < hi"
    using lh by (auto simp: word_le_nat_alt word_less_nat_alt m)
qed

lemma unat_next: "(mid :: u64) < hi \<Longrightarrow> unat (mid + 1) = unat mid + 1"
  using unsigned_less [of hi, where ?'a = nat] by (simp add: unat_word_ariths word_less_nat_alt)

termination binary_search
proof (relation "measure (\<lambda>(ask, lo, hi, s). unat hi - unat lo)", goal_cases)
  case (2 ask lo hi s mid p r s' res)
  with mid_bounds [of lo hi] show ?case by (auto simp: word_less_nat_alt word_le_nat_alt)
next
  case (3 ask lo hi s mid p r s' res)
  then have m: "lo \<le> mid" "mid < hi" using mid_bounds [of lo hi] by auto
  then have "unat (mid + 1) = unat mid + 1" by (simp add: unat_next)
  with m show ?case by (auto simp: word_less_nat_alt word_le_nat_alt)
qed simp

declare binary_search.simps [simp del]

subsection \<open>What the answers mean\<close>

definition valid_false :: "query \<Rightarrow> bool" where
  "valid_false q \<longleftrightarrow> (\<forall>\<sigma>. assign_ok \<sigma> \<longrightarrow> holds \<sigma> (q_constraints q) \<longrightarrow> eval \<sigma> (q_expr q) = 0)"

definition satisfiable :: "query \<Rightarrow> bool" where
  "satisfiable q \<longleftrightarrow> (\<exists>\<sigma>. assign_ok \<sigma> \<and> holds \<sigma> (q_constraints q))"

definition validity_of :: "query \<Rightarrow> validity" where
  "validity_of q = (if valid q then VTrue else if valid_false q then VFalse else VUnknown)"

text \<open>The reading of \<^verbatim>\<open>PartialValidity\<close> that its comments give.\<close>

fun partial_sound :: "query \<Rightarrow> partial_validity \<Rightarrow> bool" where
  "partial_sound q MustBeTrue \<longleftrightarrow> valid q"
| "partial_sound q MustBeFalse \<longleftrightarrow> valid_false q"
| "partial_sound q MayBeTrue \<longleftrightarrow> \<not> valid_false q"
| "partial_sound q MayBeFalse \<longleftrightarrow> \<not> valid q"
| "partial_sound q TrueOrFalse \<longleftrightarrow> \<not> valid q \<and> \<not> valid_false q"
| "partial_sound q NoValidity \<longleftrightarrow> True"

definition query_wt :: "query \<Rightarrow> bool" where
  "query_wt q \<longleftrightarrow> wt (q_expr q) \<and> (\<forall>c \<in> set (q_constraints q). wt c \<and> getWidth c = 1)"

text \<open>Bytes for every object, for the symbolic ones those of one assignment that falsifies the query.\<close>

definition solves :: "query \<Rightarrow> array list \<Rightarrow> byte list list \<Rightarrow> bool" where
  "solves q arrs vals \<longleftrightarrow> (\<exists>\<sigma>. assign_ok \<sigma> \<and> holds \<sigma> (q_constraints q) \<and> eval \<sigma> (q_expr q) = 0 \<and>
     list_all2 (\<lambda>a bytes. length bytes = arr_size a \<and>
       (isSymbolicArray a \<longrightarrow> (\<forall>i < arr_size a. uint (bytes ! i) = initial_value \<sigma> a (int i)))) arrs vals)"

definition byte_array :: "array \<Rightarrow> bool" where
  "byte_array a \<longleftrightarrow> wf_array a \<and> arr_range a = 8 \<and> arr_domain a \<le> 32 \<and> int (arr_size a) \<le> 2 ^ arr_domain a"

definition feasible :: "query \<Rightarrow> expr \<Rightarrow> bool" where
  "feasible q e \<longleftrightarrow> (\<exists>\<sigma> c. e = ConstantExpr c \<and> assign_ok \<sigma> \<and> holds \<sigma> (q_constraints q) \<and>
     getBitWidth c = getWidth (q_expr q) \<and> eval \<sigma> (q_expr q) = getZExtValue c)"

lemma query_fields [simp]:
  "q_expr (withExpr q e) = e" "q_constraints (withExpr q e) = q_constraints q"
  "q_expr (negateExpr K q) = createIsZero K (q_expr q)" "q_constraints (negateExpr K q) = q_constraints q"
  "satisfiable (withExpr q e) = satisfiable q" "satisfiable (negateExpr K q) = satisfiable q"
  by (simp_all add: withExpr_def negateExpr_def satisfiable_def)

lemma valid_both: "satisfiable q \<Longrightarrow> valid q \<Longrightarrow> \<not> valid_false q"
  by (auto simp: satisfiable_def valid_def valid_false_def)

lemma not_valid:
  assumes "query_wt q" "getWidth (q_expr q) = 1" "\<not> valid q"
  obtains \<sigma> where "assign_ok \<sigma>" "holds \<sigma> (q_constraints q)" "eval \<sigma> (q_expr q) = 0"
  using assms bool_eval by (auto simp: valid_def query_wt_def)

context default_env
begin

lemma isZero_means:
  assumes "assign_ok \<sigma>" "wt e"
  shows "wt (createIsZero K e) \<and> getWidth (createIsZero K e) = 1 \<and>
    eval \<sigma> (createIsZero K e) = of_bool (eval \<sigma> e = 0)"
  using binary_make [OF assms, of "ConstantExpr (APInt (getWidth e) 0)" Eq] wt_width_pos [OF assms(2)]
  by (simp add: createIsZero_def means_def bv_width_def bv_bin_def)

lemma some_assignment: "\<exists>\<sigma>. assign_ok \<sigma>"
  by (rule exI [of _ "\<lambda>a i. 0"]) (simp add: assign_ok_def)

lemma isZero_wt: "wt e \<Longrightarrow> wt (createIsZero K e) \<and> getWidth (createIsZero K e) = 1"
  using isZero_means some_assignment by blast

lemma valid_negate:
  assumes "query_wt q" "getWidth (q_expr q) = 1"
  shows "valid (negateExpr K q) \<longleftrightarrow> valid_false q" "valid_false (negateExpr K q) \<longleftrightarrow> valid q"
proof -
  have e: "(eval \<sigma> (createIsZero K (q_expr q)) = 1 \<longleftrightarrow> eval \<sigma> (q_expr q) = 0) \<and>
    (eval \<sigma> (createIsZero K (q_expr q)) = 0 \<longleftrightarrow> eval \<sigma> (q_expr q) = 1)" if "assign_ok \<sigma>" for \<sigma>
    using isZero_means [OF that] bool_eval [OF that _ assms(2)] assms(1) by (auto simp: query_wt_def)
  then show "valid (negateExpr K q) \<longleftrightarrow> valid_false q" "valid_false (negateExpr K q) \<longleftrightarrow> valid q"
    by (auto simp: valid_def valid_false_def)
qed

lemma query_wt_negate: "query_wt q \<Longrightarrow> query_wt (negateExpr K q)"
  using isZero_wt by (simp add: query_wt_def)

lemma partial_negate:
  "\<lbrakk>query_wt q; getWidth (q_expr q) = 1; negatePartialValidity pv = Some pv'; pv \<noteq> NoValidity\<rbrakk> \<Longrightarrow>
   partial_sound (negateExpr K q) pv \<longleftrightarrow> partial_sound q pv'"
  by (cases pv) (auto simp: valid_negate)

end

subsection \<open>The contracts\<close>

locale incomplete_laws = default_env K for K :: "'z expr_env_scheme" +
  fixes P :: incomplete_solver and accepts :: "query \<Rightarrow> bool"
  assumes accepts_wt: "accepts q \<Longrightarrow> query_wt q"
    and p_truth: "\<lbrakk>accepts q; getWidth (q_expr q) = 1; p_computeTruth P q = Some pv\<rbrakk> \<Longrightarrow>
      pv \<in> {MustBeTrue, MayBeFalse, NoValidity} \<and> partial_sound q pv"
    and p_value: "\<lbrakk>accepts q; p_computeValue P q = Some (Some e)\<rbrakk> \<Longrightarrow> feasible q e"
    and p_initial: "\<lbrakk>accepts q; getWidth (q_expr q) = 1; \<forall>a \<in> set arrs. byte_array a;
        p_computeInitialValues P q arrs = Some (ok, h, vals)\<rbrakk> \<Longrightarrow>
      (ok \<longrightarrow> h = Some (\<not> valid q) \<and> (h = Some True \<longrightarrow> solves q arrs vals)) \<and> (\<not> ok \<longrightarrow> vals = [])"
begin

lemma partial_computeValidity_sound:
  assumes "accepts q" "accepts (negateExpr K q)" "getWidth (q_expr q) = 1"
    "partial_computeValidity K P q = Some pv"
  shows "partial_sound q pv"
proof -
  obtain t where t: "p_computeTruth P q = Some t"
    using assms(4) by (auto simp: partial_computeValidity_def split: bind_splits)
  note st = p_truth [OF assms(1,3) t]
  have w: "query_wt q" using accepts_wt assms(1) .
  show ?thesis
  proof (cases "t = MustBeTrue")
    case False
    with assms(4) t obtain f where f: "p_computeTruth P (negateExpr K q) = Some f"
      by (auto simp: partial_computeValidity_def split: bind_splits)
    have "getWidth (q_expr (negateExpr K q)) = 1" using isZero_wt w by (simp add: query_wt_def)
    note sf = p_truth [OF assms(2) this f]
    show ?thesis
      using False st sf t f assms(4) valid_negate [OF w assms(3)]
      by (auto simp: partial_computeValidity_def Let_def split: if_splits)
  qed (use assms(4) t st in \<open>auto simp: partial_computeValidity_def\<close>)
qed

end

locale solver_laws = default_env K for K :: "'z expr_env_scheme" +
  fixes S :: "'s solver_impl" and inv :: "'s \<Rightarrow> bool" and accepts :: "query \<Rightarrow> bool"
  assumes accepts_wt: "accepts q \<Longrightarrow> query_wt q"
    and truth_ok: "\<lbrakk>inv s; accepts q; getWidth (q_expr q) = 1; satisfiable q; computeTruth S q s = Some (r, s')\<rbrakk> \<Longrightarrow>
      inv s' \<and> (\<forall>b. r = Some b \<longrightarrow> b = valid q)"
    and validity_ok: "\<lbrakk>inv s; accepts q; accepts (negateExpr K q); getWidth (q_expr q) = 1; satisfiable q;
        computeValidity S q s = Some (rv, s')\<rbrakk> \<Longrightarrow> inv s' \<and> (\<forall>v. rv = Some v \<longrightarrow> v = validity_of q)"
    and value_ok: "\<lbrakk>inv s; accepts q; satisfiable q; computeValue S q s = Some (re, s')\<rbrakk> \<Longrightarrow>
      inv s' \<and> (\<forall>e. re = Some e \<longrightarrow> feasible q e)"
    and initial_ok: "\<lbrakk>inv s; accepts q; getWidth (q_expr q) = 1; \<forall>a \<in> set arrs. byte_array a;
        computeInitialValues S q arrs [] s = Some ((ok, h, vals), s')\<rbrakk> \<Longrightarrow>
      inv s' \<and> (ok \<longrightarrow> h = Some (\<not> valid q) \<and> (h = Some True \<longrightarrow> solves q arrs vals))"

subsection \<open>Staging keeps the contract\<close>

text \<open>Queries for which the range-propagating solver is correct.\<close>

definition cex_accepts :: "query \<Rightarrow> bool" where
  "cex_accepts q \<longleftrightarrow> (\<forall>c \<in> set (q_constraints q). cex_expr c) \<and>
     wt (q_expr q) \<and> ev_safe (q_expr q) \<and> cex_ok (q_expr q) \<and> byte_reads (q_expr q)"

lemma cex_accepts_ok: "cex_accepts q \<Longrightarrow> getWidth (q_expr q) = 1 \<Longrightarrow> query_ok q"
  by (simp add: cex_accepts_def query_ok_def cex_expr_def)

context default_env
begin

lemma evaluatePossible_read:
  "evaluatePossible K objs (ReadExpr a UpdateNil (ConstantExpr c)) = do {
     z \<leftarrow> CE_getZExtValue c 64;
     if isConstantArray a \<and> unat (ucast z :: 32 word) < arr_size a
     then Some (ConstantExpr (constantValues a ! unat (ucast z :: 32 word)))
     else possible_getInitialValue K objs a (ucast z) }"
  by (cases "CE_getZExtValue c 64")
    (auto simp: evaluatePossible_def evaluator_visit_def visitActual_def visitor_defs evaluator_visitKind_def
      evaluator_visitRead_def evaluator_visitExpr_def split: bind_splits)

text \<open>For arrays of bytes \<^verbatim>\<open>computeInitialValues\<close> does not return early.\<close>

lemma object_values_some: "byte_array a \<Longrightarrow> object_values K objs a i \<noteq> Some None"
proof (induction "arr_size a - i" arbitrary: i)
  case 0
  then show ?case by (simp add: object_values.simps)
next
  case (Suc n)
  let ?e = "ReadExpr a UpdateNil (ConstantExpr (APInt (arr_domain a) (int i)))"
  have i: "i < arr_size a" using Suc.hyps(2) by simp
  have a: "wf_array a" "arr_domain a \<le> 32" "int i < 2 ^ arr_domain a"
    using Suc.prems i by (auto simp: byte_array_def)
  then have take: "take_bit (arr_domain a) (int i) = int i" by (simp add: take_bit_int_eq_self)
  have dom: "0 < arr_domain a" using a(1) by (simp add: wf_array_def)
  have c: "wf_ap (APInt (arr_domain a) (int i))" using a dom by (simp add: inr_def)
  obtain z where z: "CE_getZExtValue (APInt (arr_domain a) (int i)) 64 = Some z" "uint (ucast z :: 32 word) = int i"
    using index_of_const [OF c] a(2) by auto
  then have "unat (ucast z :: 32 word) = i" by (metis nat_int unat_eq_nat_uint)
  then have "is_constant v" if "evaluatePossible K objs ?e = Some v" for v
    using that z(1) i by (auto simp: evaluatePossible_read possible_getInitialValue_def split: if_splits bind_splits)
  then show ?case
    using Suc.hyps(1) [of "Suc i"] Suc.hyps(2) Suc.prems i a(3) dom take
    by (subst object_values.simps) (auto simp: Read_make_def as_const_None split: option.split bind_splits)
qed

lemma objects_values_fail:
  "\<forall>a \<in> set arrs. byte_array a \<Longrightarrow> objects_values K objs arrs = Some (ok, vals) \<Longrightarrow> ok"
proof (induction arrs arbitrary: vals)
  case (Cons a arrs)
  then show ?case using object_values_some [of a objs 0] by (auto split: bind_splits option.splits)
qed simp

lemma fast_initial_cases:
  assumes "fast_computeInitialValues K q arrs = Some (ok, h, vals)" "\<forall>a \<in> set arrs. byte_array a"
  shows "(ok \<longrightarrow> h \<noteq> None \<and> (h = Some False \<longrightarrow> fast_computeTruth K q = Some MustBeTrue)) \<and> (\<not> ok \<longrightarrow> vals = [])"
  using assms
  by (auto simp: fast_computeInitialValues_def fast_computeTruth_def dest: objects_values_fail
    split: bind_splits option.splits if_splits)

end

lemma fast_incomplete_laws:
  assumes "default_env K" shows "incomplete_laws K (fast_cex_solver K) cex_accepts"
proof (intro incomplete_laws.intro incomplete_laws_axioms.intro assms)
  fix q assume "cex_accepts q"
  then show "query_wt q" by (simp add: cex_accepts_def query_wt_def cex_expr_def)
next
  fix q pv assume q: "cex_accepts q" "getWidth (q_expr q) = 1" "p_computeTruth (fast_cex_solver K) q = Some pv"
  then have p: "fast_computeTruth K q = Some pv" by (simp add: fast_cex_solver_def)
  then have "pv \<in> {MustBeTrue, MayBeFalse, NoValidity}"
    by (auto simp: fast_computeTruth_def split: bind_splits option.splits)
  with p default_env.must_be_true_sound [OF assms cex_accepts_ok [OF q(1,2)]] default_env.may_be_false_sound [OF assms cex_accepts_ok [OF q(1,2)]]
  show "pv \<in> {MustBeTrue, MayBeFalse, NoValidity} \<and> partial_sound q pv" by (auto simp: valid_def) (metis zero_neq_one)
next
  fix q e assume q: "cex_accepts q" "p_computeValue (fast_cex_solver K) q = Some (Some e)"
  then show "feasible q e"
    using default_env.value_sound [OF assms, of q e] by (simp add: fast_cex_solver_def cex_accepts_def feasible_def)
next
  fix q arrs ok h vals
  assume q: "cex_accepts q" "getWidth (q_expr q) = 1" "\<forall>a \<in> set arrs. byte_array a"
    "p_computeInitialValues (fast_cex_solver K) q arrs = Some (ok, h, vals)"
  then have r: "fast_computeInitialValues K q arrs = Some (ok, h, vals)" by (simp add: fast_cex_solver_def)
  have b: "\<forall>a \<in> set arrs. wf_array a \<and> arr_range a = 8 \<and> arr_domain a \<le> 32" using q(3) by (simp add: byte_array_def)
  note c = default_env.fast_initial_cases [OF assms r q(3)]
  have "solves q arrs vals" if "ok" "h = Some True"
    using default_env.initial_values_sound [OF assms cex_accepts_ok [OF q(1,2)] _ b, of vals] r that
    by (auto simp: solves_def elim!: list_all2_mono)
  then have "h = Some True \<Longrightarrow> ok \<Longrightarrow> \<not> valid q" by (auto simp: solves_def valid_def)
  with c \<open>ok \<Longrightarrow> h = Some True \<Longrightarrow> solves q arrs vals\<close> default_env.must_be_true_sound [OF assms cex_accepts_ok [OF q(1,2)]]
  show "(ok \<longrightarrow> h = Some (\<not> valid q) \<and> (h = Some True \<longrightarrow> solves q arrs vals)) \<and> (\<not> ok \<longrightarrow> vals = [])"
    by (cases h) (auto simp: valid_def)
qed

interpretation fast: incomplete_laws "std_env False" "fast_cex_solver (std_env False)" cex_accepts
  by (rule fast_incomplete_laws) (rule std_d.default_env_axioms)

locale staged = P: incomplete_laws K P accepts + S: solver_laws K S inv accepts
  for K :: "'z expr_env_scheme" and P :: incomplete_solver and S :: "'s solver_impl"
    and inv :: "'s \<Rightarrow> bool" and accepts :: "query \<Rightarrow> bool"

sublocale staged \<subseteq> staged: solver_laws K "staged_solver K P S" inv accepts
proof unfold_locales
  fix q assume "accepts q" then show "query_wt q" by (rule P.accepts_wt)
next
  fix s q r s' assume a: "inv s" "accepts q" "getWidth (q_expr q) = 1" "satisfiable q"
    "computeTruth (staged_solver K P S) q s = Some (r, s')"
  then obtain t where t: "p_computeTruth P q = Some t"
    by (auto simp: staged_solver_def staged_computeTruth_def split: bind_splits)
  show "inv s' \<and> (\<forall>b. r = Some b \<longrightarrow> b = valid q)"
    using a t P.p_truth [OF a(2,3) t] S.truth_ok [OF a(1-4), of r s']
    by (auto simp: staged_solver_def staged_computeTruth_def split: if_splits)
next
  fix s q rv s' assume a: "inv s" "accepts q" "accepts (negateExpr K q)" "getWidth (q_expr q) = 1" "satisfiable q"
    "computeValidity (staged_solver K P S) q s = Some (rv, s')"
  then obtain pv where pv: "partial_computeValidity K P q = Some pv"
    by (auto simp: staged_solver_def staged_computeValidity_def split: bind_splits)
  have w: "query_wt q" using P.accepts_wt a(2) .
  have n: "getWidth (q_expr (negateExpr K q)) = 1" "satisfiable (negateExpr K q)"
    using P.isZero_wt w a(5) by (simp_all add: query_wt_def)
  note snd = P.partial_computeValidity_sound [OF a(2-4) pv]
  note vb = valid_both [OF a(5)]
  show "inv s' \<and> (\<forall>v. rv = Some v \<longrightarrow> v = validity_of q)"
  proof (cases pv)
    case MayBeTrue
    with a(6) pv obtain r where "computeTruth S q s = Some (r, s')"
      "rv = map_option (\<lambda>tmp. if tmp then VTrue else VUnknown) r"
      by (auto simp: staged_solver_def staged_computeValidity_def split: bind_splits)
    with S.truth_ok [OF a(1,2,4,5)] snd MayBeTrue vb show ?thesis by (auto simp: validity_of_def)
  next
    case MayBeFalse
    with a(6) pv obtain r where "computeTruth S (negateExpr K q) s = Some (r, s')"
      "rv = map_option (\<lambda>tmp. if tmp then VFalse else VUnknown) r"
      by (auto simp: staged_solver_def staged_computeValidity_def split: bind_splits)
    with S.truth_ok [OF a(1,3) n] P.valid_negate [OF w a(4)] snd MayBeFalse vb show ?thesis
      by (auto simp: validity_of_def)
  qed (use a pv snd vb S.validity_ok [OF a(1-5)] in
      \<open>auto simp: staged_solver_def staged_computeValidity_def validity_of_def\<close>)
next
  fix s q re s' assume a: "inv s" "accepts q" "satisfiable q" "computeValue (staged_solver K P S) q s = Some (re, s')"
  then obtain r where r: "p_computeValue P q = Some r"
    by (auto simp: staged_solver_def staged_computeValue_def split: bind_splits)
  show "inv s' \<and> (\<forall>e. re = Some e \<longrightarrow> feasible q e)"
    using a r P.p_value [OF a(2)] S.value_ok [OF a(1-3), of re s']
    by (cases r) (auto simp: staged_solver_def staged_computeValue_def)
next
  fix s q arrs ok h vals s' assume a: "inv s" "accepts q" "getWidth (q_expr q) = 1"
    "\<forall>a \<in> set arrs. byte_array a" "computeInitialValues (staged_solver K P S) q arrs [] s = Some ((ok, h, vals), s')"
  then obtain ok1 h1 vals1 where r: "p_computeInitialValues P q arrs = Some (ok1, h1, vals1)"
    by (auto simp: staged_solver_def staged_computeInitialValues_def split: bind_splits)
  show "inv s' \<and> (ok \<longrightarrow> h = Some (\<not> valid q) \<and> (h = Some True \<longrightarrow> solves q arrs vals))"
    using a r P.p_initial [OF a(2,3,4) r] S.initial_ok [OF a(1-4), of ok h vals s']
    by (cases ok1) (auto simp: staged_solver_def staged_computeInitialValues_def)
qed

context staged
begin

lemma laws: "solver_laws K (staged_solver K P S) inv accepts"
  by (rule staged.solver_laws_axioms)

end

text \<open>The solver that always fails keeps any contract.\<close>

interpretation dummy: solver_laws "std_env False" dummy_solver "\<lambda>s. True" cex_accepts
  by unfold_locales (auto simp: dummy_solver_def dest: fast.accepts_wt)

subsection \<open>Caching keeps the contract\<close>

definition entry_ok :: "expr list \<Rightarrow> expr \<Rightarrow> partial_validity \<Rightarrow> bool" where
  "entry_ok cs e r \<longleftrightarrow> r \<noteq> NoValidity \<and> partial_sound \<lparr>q_constraints = cs, q_expr = e\<rparr> r"

definition cache_ok :: "cache_map \<Rightarrow> bool" where
  "cache_ok cache \<longleftrightarrow> (\<forall>cs e r. cache (cs, e) = Some r \<longrightarrow> entry_ok cs e r)"

lemma cache_ok_insert:
  "cache_ok cache \<Longrightarrow> entry_ok cs e r \<Longrightarrow> cache_ok (cache((cs, e) \<mapsto> r))"
  by (auto simp: cache_ok_def)

lemma cache_ok_empty: "cache_ok Map.empty"
  by (simp add: cache_ok_def)

lemma partial_sound_fields:
  "partial_sound \<lparr>q_constraints = q_constraints q, q_expr = q_expr q\<rparr> r \<longleftrightarrow> partial_sound q r"
  by (cases r) (simp_all add: valid_def valid_false_def)

lemma partial_of_sound: "satisfiable q \<Longrightarrow> partial_sound q (partial_of (validity_of q)) \<and> partial_of v \<noteq> NoValidity"
  by (cases v) (auto simp: validity_of_def)

lemma negatePartialValidity_some: "r \<noteq> NoValidity \<Longrightarrow> \<exists>r'. negatePartialValidity r = Some r' \<and> r' \<noteq> NoValidity"
  by (cases r) simp_all

lemma negate_negate: "negatePartialValidity r = Some r' \<Longrightarrow> negatePartialValidity r' = Some r"
  by (cases r) auto

context default_env
begin

lemma cacheLookup_sound:
  assumes "cache_ok cache" "query_wt q" "getWidth (q_expr q) = 1" "cacheLookup K h q cache = Some (Some r)"
  shows "r \<noteq> NoValidity \<and> partial_sound q r"
proof (cases "compare h (q_expr q) (createIsZero K (q_expr q)) < 0")
  case True
  with assms(4) have "cache (q_constraints q, q_expr q) = Some r"
    by (auto simp: cacheLookup_def canonicalizeQuery_def split: option.splits)
  then have "r \<noteq> NoValidity \<and> partial_sound \<lparr>q_constraints = q_constraints q, q_expr = q_expr q\<rparr> r"
    using assms(1) unfolding cache_ok_def entry_ok_def by blast
  then show ?thesis by (simp add: partial_sound_fields)
next
  case False
  with assms(4) obtain r' where r': "cache (q_constraints q, createIsZero K (q_expr q)) = Some r'"
    "negatePartialValidity r' = Some r"
    by (auto simp: cacheLookup_def canonicalizeQuery_def split: option.splits)
  then have "r' \<noteq> NoValidity \<and> partial_sound \<lparr>q_constraints = q_constraints q, q_expr = createIsZero K (q_expr q)\<rparr> r'"
    using assms(1) unfolding cache_ok_def entry_ok_def by blast
  then have n: "r' \<noteq> NoValidity" "partial_sound (negateExpr K q) r'"
    using partial_sound_fields [of "negateExpr K q" r'] by simp_all
  with partial_negate [OF assms(2,3) r'(2)] negatePartialValidity_some [OF n(1)] r'(2) show ?thesis by auto
qed

lemma cacheInsert_ok:
  assumes "cache_ok cache" "query_wt q" "getWidth (q_expr q) = 1" "partial_sound q r" "r \<noteq> NoValidity"
    "cacheInsert K h q r cache = Some cache'"
  shows "cache_ok cache'"
proof -
  obtain e neg where c: "canonicalizeQuery K h (q_expr q) = (e, neg)" by fastforce
  have "\<exists>r'. cache' = (if cache (q_constraints q, e) = None then cache((q_constraints q, e) \<mapsto> r') else cache) \<and>
    entry_ok (q_constraints q) e r'"
  proof (cases neg)
    case True
    obtain r' where r': "negatePartialValidity r = Some r'" "r' \<noteq> NoValidity"
      using negatePartialValidity_some [OF assms(5)] by blast
    have e: "e = createIsZero K (q_expr q)" using c True by (auto simp: canonicalizeQuery_def Let_def split: if_splits)
    have "partial_sound (negateExpr K q) r'"
      using partial_negate [OF assms(2,3) negate_negate [OF r'(1)] r'(2)] assms(4) by simp
    then have "partial_sound \<lparr>q_constraints = q_constraints q, q_expr = e\<rparr> r'"
      using partial_sound_fields [of "negateExpr K q" r'] e by simp
    with r' assms(6) c True show ?thesis by (auto simp: entry_ok_def cacheInsert_def Let_def split: bind_splits)
  next
    case False
    then have "e = q_expr q" using c by (auto simp: canonicalizeQuery_def Let_def split: if_splits)
    then have "partial_sound \<lparr>q_constraints = q_constraints q, q_expr = e\<rparr> r"
      using assms(4) by (simp add: partial_sound_fields)
    with assms(5,6) c False show ?thesis by (auto simp: entry_ok_def cacheInsert_def Let_def split: bind_splits)
  qed
  with assms(1) cache_ok_insert show ?thesis by (metis (full_types))
qed

end

locale caching = S: solver_laws K S inv accepts
  for K :: "'z expr_env_scheme" and S :: "'s solver_impl" and inv :: "'s \<Rightarrow> bool" and accepts :: "query \<Rightarrow> bool" +
  fixes h :: "apint \<Rightarrow> u32"
begin

definition cinv :: "'s \<times> cache_map \<Rightarrow> bool" where
  "cinv st \<longleftrightarrow> inv (fst st) \<and> cache_ok (snd st)"

lemma refine_sound:
  assumes "cinv st" "accepts q" "getWidth (q_expr q) = 1" "satisfiable q" "accepts q'" "getWidth (q_expr q') = 1"
    "satisfiable q'" "validity_of q = (if valid q' then v else VUnknown)"
    "refine_cached K h S q q' v st = Some (rv, st')"
  shows "cinv st' \<and> (\<forall>v. rv = Some v \<longrightarrow> v = validity_of q)"
proof -
  obtain r s where t: "computeTruth S q' (fst st) = Some (r, s)"
    using assms(9) by (auto simp: refine_cached_def split: bind_splits)
  have s: "inv s" "\<forall>b. r = Some b \<longrightarrow> b = valid q'"
    using S.truth_ok [OF _ assms(5-7) t] assms(1) by (simp_all add: cinv_def)
  show ?thesis
  proof (cases r)
    case None
    with assms(1,9) t s show ?thesis by (auto simp: refine_cached_def cinv_def)
  next
    case (Some b)
    with assms(9) t obtain cache where c: "cacheInsert K h q (partial_of (if b then v else VUnknown)) (snd st) = Some cache"
      "rv = Some (if b then v else VUnknown)" "st' = (s, cache)"
      by (auto simp: refine_cached_def Let_def split: bind_splits)
    have v: "validity_of q = (if b then v else VUnknown)" using Some s(2) assms(8) by simp
    have "cache_ok cache"
    proof (rule S.cacheInsert_ok [OF _ S.accepts_wt [OF assms(2)] assms(3) _ _ c(1)])
      show "cache_ok (snd st)" using assms(1) by (simp add: cinv_def)
      show "partial_sound q (partial_of (if b then v else VUnknown))"
        "partial_of (if b then v else VUnknown) \<noteq> NoValidity"
        using partial_of_sound [OF assms(4)] v by metis+
    qed
    with s c v show ?thesis by (simp add: cinv_def)
  qed
qed

lemma validity_sound:
  assumes "cinv st" "accepts q" "accepts (negateExpr K q)" "getWidth (q_expr q) = 1" "satisfiable q"
    "caching_computeValidity K h S q st = Some (rv, st')"
  shows "cinv st' \<and> (\<forall>v. rv = Some v \<longrightarrow> v = validity_of q)"
proof -
  have w: "query_wt q" using S.accepts_wt [OF assms(2)] .
  obtain hit where hit: "cacheLookup K h q (snd st) = Some hit"
    using assms(6) by (auto simp: caching_computeValidity_def split: bind_splits)
  have snd: "r \<noteq> NoValidity \<and> partial_sound q r" if "hit = Some r" for r
    using S.cacheLookup_sound [OF _ w assms(4), of "snd st" h r] assms(1) hit that by (simp add: cinv_def)
  note vb = valid_both [OF assms(5)]
  show ?thesis
  proof (cases hit)
    case None
    with assms(6) hit obtain r s where t: "computeValidity S q (fst st) = Some (r, s)"
      by (auto simp: caching_computeValidity_def split: bind_splits)
    have s: "inv s" "\<forall>v. r = Some v \<longrightarrow> v = validity_of q"
      using S.validity_ok [OF _ assms(2-5) t] assms(1) by (simp_all add: cinv_def)
    show ?thesis
    proof (cases r)
      case r: None
      with assms(1,6) None hit t s show ?thesis by (auto simp: caching_computeValidity_def cinv_def)
    next
      case (Some v)
      with assms(6) None hit t obtain cache where c: "cacheInsert K h q (partial_of v) (snd st) = Some cache"
        "rv = Some v" "st' = (s, cache)"
        by (auto simp: caching_computeValidity_def split: bind_splits)
      have "cache_ok cache"
        using S.cacheInsert_ok [OF _ w assms(4) _ _ c(1)] partial_of_sound [OF assms(5)] s(2) Some assms(1)
        by (simp add: cinv_def)
      with s c Some show ?thesis by (simp add: cinv_def)
    qed
  next
    case (Some r)
    have n: "getWidth (q_expr (negateExpr K q)) = 1" "satisfiable (negateExpr K q)"
      using S.isZero_wt w assms(5) by (simp_all add: query_wt_def)
    note vn = S.valid_negate [OF w assms(4)]
    show ?thesis
    proof (cases r)
      case MayBeTrue
      with Some assms(6) hit have "refine_cached K h S q q VTrue st = Some (rv, st')"
        by (simp add: caching_computeValidity_def)
      moreover have "validity_of q = (if valid q then VTrue else VUnknown)"
        using snd [OF Some] MayBeTrue by (simp add: validity_of_def)
      ultimately show ?thesis using refine_sound [OF assms(1,2,4,5) assms(2,4,5)] by blast
    next
      case MayBeFalse
      with Some assms(6) hit have "refine_cached K h S q (negateExpr K q) VFalse st = Some (rv, st')"
        by (simp add: caching_computeValidity_def)
      with refine_sound [OF assms(1,2,4,5) assms(3) n] snd [OF Some] MayBeFalse vn show ?thesis
        by (simp add: validity_of_def)
    qed (use Some assms(1,6) hit snd vb in \<open>auto simp: caching_computeValidity_def validity_of_def\<close>)
  qed
qed

lemma truth_sound:
  assumes "cinv st" "accepts q" "getWidth (q_expr q) = 1" "satisfiable q"
    "caching_computeTruth K h S q st = Some (r, st')"
  shows "cinv st' \<and> (\<forall>b. r = Some b \<longrightarrow> b = valid q)"
proof -
  have w: "query_wt q" using S.accepts_wt [OF assms(2)] .
  obtain hit where hit: "cacheLookup K h q (snd st) = Some hit"
    using assms(5) by (auto simp: caching_computeTruth_def split: bind_splits)
  have snd: "r \<noteq> NoValidity \<and> partial_sound q r" if "hit = Some r" for r
    using S.cacheLookup_sound [OF _ w assms(3), of "snd st" h r] assms(1) hit that by (simp add: cinv_def)
  note vb = valid_both [OF assms(4)]
  show ?thesis
  proof (cases "hit \<noteq> None \<and> hit \<noteq> Some MayBeTrue")
    case True
    then obtain pv where pv: "hit = Some pv" "pv \<noteq> MayBeTrue" by auto
    with assms(5) hit have "r = Some (pv = MustBeTrue)" "st' = st" by (auto simp: caching_computeTruth_def)
    with snd [OF pv(1)] pv(2) vb assms(1) show ?thesis by (cases pv) auto
  next
    case False
    with assms(5) hit obtain r1 s where t: "computeTruth S q (fst st) = Some (r1, s)"
      by (auto simp: caching_computeTruth_def split: bind_splits)
    have s: "inv s" "\<forall>b. r1 = Some b \<longrightarrow> b = valid q"
      using S.truth_ok [OF _ assms(2-4) t] assms(1) by (simp_all add: cinv_def)
    show ?thesis
    proof (cases r1)
      case None
      with False assms(1,5) hit t s show ?thesis by (auto simp: caching_computeTruth_def cinv_def)
    next
      case (Some b)
      let ?pv = "if b then MustBeTrue else if hit \<noteq> None then TrueOrFalse else MayBeFalse"
      from Some False assms(5) hit t obtain cache where c: "cacheInsert K h q ?pv (snd st) = Some cache"
        "r = Some b" "st' = (s, cache)"
        by (auto simp: caching_computeTruth_def split: bind_splits)
      have "partial_sound q ?pv" using snd s(2) Some False by auto
      then have "cache_ok cache"
        using S.cacheInsert_ok [OF _ w assms(3) _ _ c(1)] assms(1) by (simp add: cinv_def)
      with s c Some show ?thesis by (simp add: cinv_def)
    qed
  qed
qed

end

sublocale caching \<subseteq> caching: solver_laws K "caching_solver K h S" cinv accepts
proof unfold_locales
  fix q assume "accepts q" then show "query_wt q" by (rule S.accepts_wt)
next
  fix st q r st' assume "cinv st" "accepts q" "getWidth (q_expr q) = 1" "satisfiable q"
    "computeTruth (caching_solver K h S) q st = Some (r, st')"
  then show "cinv st' \<and> (\<forall>b. r = Some b \<longrightarrow> b = valid q)"
    by (intro truth_sound) (simp_all add: caching_solver_def)
next
  fix st q rv st' assume "cinv st" "accepts q" "accepts (negateExpr K q)" "getWidth (q_expr q) = 1" "satisfiable q"
    "computeValidity (caching_solver K h S) q st = Some (rv, st')"
  then show "cinv st' \<and> (\<forall>v. rv = Some v \<longrightarrow> v = validity_of q)"
    by (intro validity_sound) (simp_all add: caching_solver_def)
next
  fix st q re st' assume a: "cinv st" "accepts q" "satisfiable q" "computeValue (caching_solver K h S) q st = Some (re, st')"
  then obtain s where "computeValue S q (fst st) = Some (re, s)" "st' = (s, snd st)"
    by (auto simp: caching_solver_def caching_computeValue_def)
  with a S.value_ok [of "fst st" q re s] show "cinv st' \<and> (\<forall>e. re = Some e \<longrightarrow> feasible q e)"
    by (simp add: cinv_def)
next
  fix st q arrs ok ha vals st' assume a: "cinv st" "accepts q" "getWidth (q_expr q) = 1"
    "\<forall>a \<in> set arrs. byte_array a" "computeInitialValues (caching_solver K h S) q arrs [] st = Some ((ok, ha, vals), st')"
  then obtain s where "computeInitialValues S q arrs [] (fst st) = Some ((ok, ha, vals), s)" "st' = (s, snd st)"
    by (auto simp: caching_solver_def caching_computeInitialValues_def)
  with a S.initial_ok [of "fst st" q arrs ok ha vals s]
  show "cinv st' \<and> (ok \<longrightarrow> ha = Some (\<not> valid q) \<and> (ha = Some True \<longrightarrow> solves q arrs vals))"
    by (simp add: cinv_def)
qed

context caching
begin

lemma laws: "solver_laws K (caching_solver K h S) cinv accepts"
  by (rule caching.solver_laws_axioms)

end

text \<open>The stack of the range-propagating solver over the one that fails, and the cache over that.\<close>

interpretation fast_stack: staged "std_env False" "fast_cex_solver (std_env False)" dummy_solver "\<lambda>s. True" cex_accepts
  by (rule staged.intro) (rule fast.incomplete_laws_axioms, rule dummy.solver_laws_axioms)

interpretation cached_stack: caching "std_env False"
    "staged_solver (std_env False) (fast_cex_solver (std_env False)) dummy_solver" "\<lambda>s. True" cex_accepts h for h
  by (rule caching.intro) (rule fast_stack.staged.solver_laws_axioms)

subsection \<open>Solver over a contract\<close>

context solver_laws
begin

lemma mustBeTrue_sound:
  assumes "inv s" "accepts q" "satisfiable q" "mustBeTrue S q s = Some (r, s')"
  shows "inv s' \<and> (\<forall>b. r = Some b \<longrightarrow> b = valid q)"
proof (cases "as_const (q_expr q)")
  case None
  with assms truth_ok [OF assms(1,2) _ assms(3), of r s'] show ?thesis
    by (auto simp: mustBeTrue_def split: if_splits)
next
  case (Some c)
  then have c: "q_expr q = ConstantExpr c" "wf_ap c" "getWidth (q_expr q) = 1"
    using accepts_wt [OF assms(2)] assms(4) by (auto simp: query_wt_def mustBeTrue_def split: if_splits)
  then have "valid q \<longleftrightarrow> ap_isTrue c"
    using assms(3) inr_Suc0D [of "getZExtValue c"]
    by (auto simp: valid_def satisfiable_def ap_isTrue_def wf_ap_def)
  with Some c(3) assms(1,4) show ?thesis by (auto simp: mustBeTrue_def)
qed

lemma mustBeFalse_sound:
  assumes "inv s" "accepts q" "accepts (negateExpr K q)" "getWidth (q_expr q) = 1" "satisfiable q"
    "mustBeFalse K S q s = Some (r, s')"
  shows "inv s' \<and> (\<forall>b. r = Some b \<longrightarrow> b = valid_false q)"
  using mustBeTrue_sound [OF assms(1,3), of r s'] assms(5,6) valid_negate(1) [OF accepts_wt [OF assms(2)] assms(4)]
  by (simp add: mustBeFalse_def)

lemma mayBeTrue_sound:
  assumes "inv s" "accepts q" "accepts (negateExpr K q)" "getWidth (q_expr q) = 1" "satisfiable q"
    "mayBeTrue K S q s = Some (r, s')"
  shows "inv s' \<and> (\<forall>b. r = Some b \<longrightarrow> b = (\<not> valid_false q))"
  using mustBeFalse_sound [OF assms(1-5)] assms(6) by (auto simp: mayBeTrue_def)

lemma mayBeFalse_sound:
  assumes "inv s" "accepts q" "satisfiable q" "mayBeFalse S q s = Some (r, s')"
  shows "inv s' \<and> (\<forall>b. r = Some b \<longrightarrow> b = (\<not> valid q))"
  using mustBeTrue_sound [OF assms(1-3)] assms(4) by (auto simp: mayBeFalse_def)

lemma evaluate_sound:
  assumes "inv s" "accepts q" "accepts (negateExpr K q)" "satisfiable q" "solver_evaluate S q s = Some (r, s')"
  shows "inv s' \<and> (\<forall>v. r = Some v \<longrightarrow> v = validity_of q)"
proof (cases "as_const (q_expr q)")
  case None
  with assms validity_ok [OF assms(1-3) _ assms(4), of r s'] show ?thesis
    by (auto simp: solver_evaluate_def split: if_splits)
next
  case (Some c)
  then have c: "q_expr q = ConstantExpr c" "wf_ap c" "getWidth (q_expr q) = 1"
    using accepts_wt [OF assms(2)] assms(5) by (auto simp: query_wt_def solver_evaluate_def split: if_splits)
  then have "validity_of q = (if ap_isTrue c then VTrue else VFalse)"
    using assms(4) inr_Suc0D [of "getZExtValue c"]
    by (auto simp: validity_of_def valid_def valid_false_def satisfiable_def ap_isTrue_def wf_ap_def)
  with Some c(3) assms(1,5) show ?thesis by (auto simp: solver_evaluate_def)
qed

lemma getValue_sound:
  assumes "inv s" "accepts q" "satisfiable q" "getValue S q s = Some (r, s')"
  shows "inv s' \<and> (\<forall>c. r = Some c \<longrightarrow> feasible q (ConstantExpr c))"
proof (cases "as_const (q_expr q)")
  case None
  with assms(4) obtain r1 where v: "computeValue S q s = Some (r1, s')" "\<forall>c. r = Some c \<longrightarrow> r1 = Some (ConstantExpr c)"
    by (auto simp: getValue_def split: bind_splits option.splits)
  with value_ok [OF assms(1-3) v(1)] show ?thesis by auto
next
  case (Some c)
  with assms show ?thesis by (auto simp: getValue_def feasible_def satisfiable_def)
qed

lemma getInitialValues_sound:
  assumes "inv s" "accepts q" "getWidth (q_expr q) = 1" "\<forall>a \<in> set arrs. byte_array a"
    "getInitialValues S q arrs [] s = Some ((ok, vals), s')"
  shows "inv s' \<and> (ok \<longrightarrow> solves q arrs vals)"
proof -
  obtain ok1 h vals1 where i: "computeInitialValues S q arrs [] s = Some ((ok1, Some h, vals1), s')"
    "(ok, vals) = (if \<not> h then (False, vals1) else (ok1, vals1))"
    using assms(5) by (auto simp: getInitialValues_def split: bind_splits)
  with initial_ok [OF assms(1-4) i(1)] show ?thesis by (auto split: if_splits)
qed

end

end
