(* ===== verification/SolverRange.thy ===== *)
theory SolverRange
  imports Solvers
begin

section \<open>Solver::getRange, and the properties of the solver stack\<close>

text \<open>
  \<^verbatim>\<open>getRange\<close> finds by three binary searches the number of useful bits, the least and the greatest value of
  an expression. Proved over \<open>solver_laws\<close>, and so for every stack that keeps it.
\<close>

subsection \<open>Binary search\<close>

lemma binary_search_least:
  assumes mono: "\<And>x y. x \<le> y \<Longrightarrow> P x \<Longrightarrow> P y"
    and ask: "\<And>x s r s'. I s \<Longrightarrow> ask x s = Some (r, s') \<Longrightarrow> I s' \<and> (\<forall>b. r = Some b \<longrightarrow> b = P x)"
  shows "\<lbrakk>I s; P hi; lo \<le> hi; \<forall>x < lo. \<not> P x; binary_search ask lo hi s = Some (m, s')\<rbrakk> \<Longrightarrow>
    I s' \<and> P m \<and> (\<forall>x < m. \<not> P x)"
proof (induction "unat hi - unat lo" arbitrary: lo hi s rule: less_induct)
  case less
  show ?case
  proof (cases "lo < hi")
    case False
    with less.prems have "hi = lo" by simp
    with less.prems show ?thesis by (auto simp: binary_search.simps [of ask lo lo])
  next
    case lt: True
    let ?mid = "lo + (hi - lo) div 2"
    note mid = mid_bounds [OF lt]
    obtain res s1 where a: "ask ?mid s = Some (Some res, s1)"
      and step: "(if res then binary_search ask lo ?mid s1 else binary_search ask (?mid + 1) hi s1) = Some (m, s')"
      using less.prems(5) lt by (subst (asm) binary_search.simps) (auto simp: Let_def split: bind_splits)
    have s1: "I s1" "res = P ?mid" using ask [OF less.prems(1) a] by auto
    show ?thesis
    proof (cases res)
      case True
      have "unat ?mid - unat lo < unat hi - unat lo"
        using mid by (auto simp: word_less_nat_alt word_le_nat_alt)
      from less.hyps [OF this s1(1) _ mid(1) less.prems(4)] True s1(2) step show ?thesis by simp
    next
      case False
      have n: "unat (?mid + 1) = unat ?mid + 1" using unat_next [OF mid(2)] .
      then have "unat hi - unat (?mid + 1) < unat hi - unat lo" "?mid + 1 \<le> hi"
        using mid by (auto simp: word_less_nat_alt word_le_nat_alt)
      moreover have "\<forall>x < ?mid + 1. \<not> P x"
      proof (intro allI impI)
        fix x assume "x < ?mid + 1"
        with n have "x \<le> ?mid" by (simp add: word_less_nat_alt word_le_nat_alt)
        with mono False s1(2) show "\<not> P x" by blast
      qed
      ultimately show ?thesis using less.hyps [OF _ s1(1) less.prems(2)] False step by simp
    qed
  qed
qed

subsection \<open>The questions of getRange\<close>

text \<open>The solver accepts the queries that \<^verbatim>\<open>getRange\<close> makes.\<close>

definition accepts_both :: "'z expr_env_scheme \<Rightarrow> (query \<Rightarrow> bool) \<Rightarrow> query \<Rightarrow> bool" where
  "accepts_both K accepts q \<longleftrightarrow> accepts q \<and> accepts (negateExpr K q)"

definition range_accepts :: "'z expr_env_scheme \<Rightarrow> (query \<Rightarrow> bool) \<Rightarrow> query \<Rightarrow> bool" where
  "range_accepts K accepts q \<longleftrightarrow> (let e = q_expr q; w = getWidth e; z = ConstantExpr (APInt w 0) in
     if w = 1 then accepts_both K accepts q
     else accepts_both K accepts (withExpr q (Binary_make K Eq e z)) \<and>
       (\<forall>n. inr w n \<longrightarrow>
          accepts (withExpr q (Binary_make K Eq (Binary_make K LShr e (ConstantExpr (APInt w n))) z)) \<and>
          accepts_both K accepts (withExpr q (Binary_make K Ule e (ConstantExpr (APInt w n))))))"

text \<open>The values the expression takes.\<close>

definition values_of :: "query \<Rightarrow> int set" where
  "values_of q = {eval \<sigma> (q_expr q) |\<sigma>. assign_ok \<sigma> \<and> holds \<sigma> (q_constraints q)}"

lemma create_cases:
  assumes "default_env K" "0 < w" "w \<le> 64" "ConstantExpr_create K v w = Some e"
  shows "e = ConstantExpr (APInt w (uint v)) \<and> inr w (uint v)"
proof -
  have "v = truncateToNBits v w" using assms(4) by (auto simp: ConstantExpr_create_def split: if_splits)
  then have "take_bit w (uint v) = uint v" by (metis assms(3) uint_truncate)
  with assms show ?thesis
    using env.alloc [OF default_env.axioms(1) [OF assms(1)], of w "uint v"]
    by (auto simp: ConstantExpr_create_def inr_iff_take_bit split: if_splits)
qed

context solver_laws
begin

lemma create: "\<lbrakk>0 < w; w \<le> 64; ConstantExpr_create K v w = Some e\<rbrakk> \<Longrightarrow>
    e = ConstantExpr (APInt w (uint v)) \<and> inr w (uint v)"
  using create_cases [OF default_env_axioms] .

lemma valid_iff:
  assumes "wt (q_expr q)" "\<And>\<sigma>. assign_ok \<sigma> \<Longrightarrow> means \<sigma> e 1 (of_bool (P (eval \<sigma> (q_expr q))))"
  shows "valid (withExpr q e) \<longleftrightarrow> (\<forall>v \<in> values_of q. P v)" "valid_false (withExpr q e) \<longleftrightarrow> (\<forall>v \<in> values_of q. \<not> P v)"
    "getWidth e = 1"
proof -
  show "getWidth e = 1" using assms(2) some_assignment by (auto simp: means_def)
qed (use assms(2) in \<open>auto simp: valid_def valid_false_def values_of_def means_def\<close>)

lemma ask_bits_sound:
  assumes "inv s" "satisfiable q" "wt (q_expr q)" "1 < getWidth (q_expr q)" "getWidth (q_expr q) \<le> 64"
    "range_accepts K accepts q" "ask_bits K S q n s = Some (r, s')"
  shows "inv s' \<and> (\<forall>b. r = Some b \<longrightarrow> b = (\<forall>v \<in> values_of q. v < 2 ^ unat n))"
proof -
  let ?e = "q_expr q" and ?w = "getWidth (q_expr q)"
  let ?c = "ConstantExpr (APInt ?w (uint n))" and ?z = "ConstantExpr (APInt ?w 0)"
  have n: "inr ?w (uint n)" and m: "mustBeTrue S (withExpr q (Binary_make K Eq (Binary_make K LShr ?e ?c) ?z)) s = Some (r, s')"
    using assms(4,5,7) create [of ?w n] create [of ?w 0] by (auto simp: ask_bits_def Let_def split: bind_splits)
  have "means \<sigma> (Binary_make K Eq (Binary_make K LShr ?e ?c) ?z) 1 (of_bool (eval \<sigma> ?e < 2 ^ unat n))"
    if ok: "assign_ok \<sigma>" for \<sigma>
  proof -
    have l: "means \<sigma> (Binary_make K LShr ?e ?c) ?w (drop_bit (unat n) (eval \<sigma> ?e))"
      using binary_make [OF ok, of ?e ?c LShr] assms(3,4) n by (simp add: bv_width_def bv_bin_def)
    have "drop_bit (unat n) (eval \<sigma> ?e) = 0 \<longleftrightarrow> eval \<sigma> ?e < 2 ^ unat n"
      using eval_inr [OF ok assms(3)] by (auto simp: drop_bit_eq_div inr_def pos_imp_zdiv_nonneg_iff zdiv_eq_0_iff)
    then show ?thesis
      using binary_make [OF ok, of "Binary_make K LShr ?e ?c" ?z Eq] l assms(4)
      by (simp add: means_def bv_width_def bv_bin_def)
  qed
  note v = valid_iff [where P = "\<lambda>v. v < 2 ^ unat n", OF assms(3) this]
  have "accepts (withExpr q (Binary_make K Eq (Binary_make K LShr ?e ?c) ?z))"
    using assms(4,6) n by (simp add: range_accepts_def Let_def)
  from mustBeTrue_sound [OF assms(1) this _ m] assms(2) v(1) show ?thesis by simp
qed

lemma ule_means:
  assumes "assign_ok \<sigma>" "wt e" "inr (getWidth e) n" "0 < getWidth e"
  shows "means \<sigma> (Binary_make K Ule e (ConstantExpr (APInt (getWidth e) n))) 1 (of_bool (eval \<sigma> e \<le> n))"
  using binary_make [OF assms(1), of e "ConstantExpr (APInt (getWidth e) n)" Ule] assms(2-4)
  by (simp add: bv_width_def bv_bin_def)

lemma ask_max_sound:
  assumes "inv s" "satisfiable q" "wt (q_expr q)" "1 < getWidth (q_expr q)" "getWidth (q_expr q) \<le> 64"
    "range_accepts K accepts q" "ask_max K S q n s = Some (r, s')"
  shows "inv s' \<and> (\<forall>b. r = Some b \<longrightarrow> b = (\<forall>v \<in> values_of q. v \<le> uint n))"
proof -
  let ?q = "withExpr q (Binary_make K Ule (q_expr q) (ConstantExpr (APInt (getWidth (q_expr q)) (uint n))))"
  have n: "inr (getWidth (q_expr q)) (uint n)" and m: "mustBeTrue S ?q s = Some (r, s')"
    using assms(4,5,7) create [of "getWidth (q_expr q)" n] by (auto simp: ask_max_def Let_def split: bind_splits)
  note v = valid_iff [where P = "\<lambda>v. v \<le> uint n", OF assms(3) ule_means [OF _ assms(3) n]]
  have "accepts ?q" using assms(4,6) n by (simp add: range_accepts_def accepts_both_def Let_def)
  from mustBeTrue_sound [OF assms(1) this _ m] assms(2,4) v(1) show ?thesis by simp
qed

lemma may_sound:
  assumes "inv s" "satisfiable q" "accepts_both K accepts (withExpr q e)" "mayBeTrue K S (withExpr q e) s = Some (r, s')"
    "wt (q_expr q)" "\<And>\<sigma>. assign_ok \<sigma> \<Longrightarrow> means \<sigma> e 1 (of_bool (P (eval \<sigma> (q_expr q))))"
  shows "inv s' \<and> (\<forall>b. r = Some b \<longrightarrow> b = (\<exists>v \<in> values_of q. P v))"
proof -
  note v = valid_iff [OF assms(5,6)]
  from mayBeTrue_sound [OF assms(1) _ _ _ _ assms(4)] assms(2,3) v(2,3) show ?thesis
    by (simp add: accepts_both_def)
qed

lemma ask_min_sound:
  assumes "inv s" "satisfiable q" "wt (q_expr q)" "1 < getWidth (q_expr q)" "getWidth (q_expr q) \<le> 64"
    "range_accepts K accepts q" "ask_min K S q n s = Some (r, s')"
  shows "inv s' \<and> (\<forall>b. r = Some b \<longrightarrow> b = (\<exists>v \<in> values_of q. v \<le> uint n))"
proof -
  let ?e = "Binary_make K Ule (q_expr q) (ConstantExpr (APInt (getWidth (q_expr q)) (uint n)))"
  have n: "inr (getWidth (q_expr q)) (uint n)" and m: "mayBeTrue K S (withExpr q ?e) s = Some (r, s')"
    using assms(4,5,7) create [of "getWidth (q_expr q)" n] by (auto simp: ask_min_def Let_def split: bind_splits)
  have "accepts_both K accepts (withExpr q ?e)" using assms(4,6) n by (simp add: range_accepts_def Let_def)
  from may_sound [where P = "\<lambda>v. v \<le> uint n", OF assms(1,2) this m assms(3) ule_means [OF _ assms(3) n]] assms(4)
  show ?thesis by simp
qed

lemma ask_zero_sound:
  assumes "inv s" "satisfiable q" "wt (q_expr q)" "1 < getWidth (q_expr q)" "getWidth (q_expr q) \<le> 64"
    "range_accepts K accepts q" "ask_zero K S q s = Some (r, s')"
  shows "inv s' \<and> (\<forall>b. r = Some b \<longrightarrow> b = (0 \<in> values_of q))"
proof -
  let ?e = "Binary_make K Eq (q_expr q) (ConstantExpr (APInt (getWidth (q_expr q)) 0))"
  have m: "mayBeTrue K S (withExpr q ?e) s = Some (r, s')"
    using assms(4,5,7) create [of "getWidth (q_expr q)" 0] by (auto simp: ask_zero_def Let_def split: bind_splits)
  have mean: "means \<sigma> ?e 1 (of_bool (eval \<sigma> (q_expr q) = 0))" if "assign_ok \<sigma>" for \<sigma>
    using binary_make [OF that, of "q_expr q" "ConstantExpr (APInt (getWidth (q_expr q)) 0)" Eq] assms(3,4)
    by (simp add: bv_width_def bv_bin_def)
  have "accepts_both K accepts (withExpr q ?e)" using assms(4,6) by (simp add: range_accepts_def Let_def)
  from may_sound [where P = "\<lambda>v. v = 0", OF assms(1,2) this m assms(3) mean] show ?thesis by auto
qed

lemma values_inr: "wt (q_expr q) \<Longrightarrow> v \<in> values_of q \<Longrightarrow> inr (getWidth (q_expr q)) v"
  using eval_inr by (auto simp: values_of_def)

lemma word_of_value: "inr w v \<Longrightarrow> w \<le> 64 \<Longrightarrow> uint (word_of_int v :: u64) = v"
  using inr_mono [of w v 64] by (simp add: uint_word_of_int_eq take_bit_inr)

lemma least_min:
  assumes "\<forall>v \<in> V. inr w v" "w \<le> 64" "\<exists>v \<in> V. v \<le> uint (m :: u64)" "\<forall>x < m. \<not> (\<exists>v \<in> V. v \<le> uint x)"
  shows "uint m \<in> V \<and> (\<forall>v \<in> V. uint m \<le> v)"
proof -
  have "uint m \<le> v" if "v \<in> V" for v
  proof (rule ccontr)
    assume "\<not> uint m \<le> v"
    moreover have "uint (word_of_int v :: u64) = v" using assms(1,2) that word_of_value by blast
    ultimately show False using assms(4) that by (metis linorder_not_le order_refl word_less_def)
  qed
  with assms(3) show ?thesis by force
qed

lemma least_max:
  assumes "\<forall>v \<in> V. inr w v" "w \<le> 64" "v0 \<in> V" "\<forall>v \<in> V. v \<le> uint (m :: u64)" "\<forall>x < m. \<not> (\<forall>v \<in> V. v \<le> uint x)"
  shows "uint m \<in> V"
proof (rule ccontr)
  assume "uint m \<notin> V"
  with assms(4) have lt: "\<forall>v \<in> V. v < uint m" by (auto simp: order_less_le)
  moreover have "0 \<le> v0" using assms(1,3) by (auto simp: inr_def)
  ultimately have "0 < uint m" using assms(3) by force
  then have u: "uint (m - 1) = uint m - 1" using uint_bounded [of m] by (simp add: uint_word_ariths mod_pos_pos_trivial)
  then have "m - 1 < m" by (simp add: word_less_def)
  with assms(5) obtain v where "v \<in> V" "\<not> v \<le> uint (m - 1)" by blast
  with lt u show False by force
qed

lemma range_bounds_sound:
  assumes "inv s" "satisfiable q" "wt (q_expr q)" "getWidth (q_expr q) \<le> 64" "range_accepts K accepts q"
    "range_bounds_of K S q s = Some ((mn, mx), s')"
  shows "inv s' \<and> uint mn \<in> values_of q \<and> uint mx \<in> values_of q \<and> (\<forall>v \<in> values_of q. uint mn \<le> v \<and> v \<le> uint mx)"
proof -
  let ?V = "values_of q" and ?w = "getWidth (q_expr q)"
  have V: "\<forall>v \<in> ?V. inr ?w v" using values_inr assms(3) by blast
  obtain v0 where v0: "v0 \<in> ?V" using assms(2) by (auto simp: satisfiable_def values_of_def)
  show ?thesis
  proof (cases "?w = 1")
    case True
    with assms(6) obtain v where e: "solver_evaluate S q s = Some (Some v, s')"
      "(mn, mx) = (case v of VTrue \<Rightarrow> (1, 1) | VFalse \<Rightarrow> (0, 0) | VUnknown \<Rightarrow> (0, 1))"
      by (auto simp: range_bounds_of_def Let_def split: bind_splits)
    have i: "inv s'" "v = validity_of q"
      using evaluate_sound [OF assms(1) _ _ assms(2) e(1)] assms(5) True
      by (simp_all add: range_accepts_def accepts_both_def Let_def)
    have b: "\<forall>v \<in> ?V. v = 0 \<or> v = 1" using V True inr_Suc0D by auto
    have "valid q \<longleftrightarrow> ?V \<subseteq> {1}" "valid_false q \<longleftrightarrow> ?V \<subseteq> {0}"
      by (auto simp: valid_def valid_false_def values_of_def)
    with i e(2) b v0 show ?thesis
      by (auto simp: validity_of_def split: if_splits)
  next
    case False
    then have w: "1 < ?w" using wt_width_pos [OF assms(3)] by simp
    show ?thesis
    proof (cases "as_const (q_expr q)")
      case (Some c)
      then have c: "q_expr q = ConstantExpr c" "wf_ap c" using assms(3) by auto
      then have v: "?V = {getZExtValue c}" using v0 by (auto simp: values_of_def)
      from c assms(4) False assms(1,6) show ?thesis
        using CE_getZExtValue_const [OF c(2)] v by (auto simp: range_bounds_of_def Let_def)
    next
      case None
      with assms(6) False obtain bits s1 z s2 s3 where
        bits: "binary_search (ask_bits K S q) 0 (of_nat ?w) s = Some (bits, s1)"
        and zero: "ask_zero K S q s1 = Some (Some z, s2)"
        and mn: "(if z then Some (0, s2)
          else binary_search (ask_min K S q) 0 (maxValueOfNBits (unat bits)) s2) = Some (mn, s3)"
        and mx: "binary_search (ask_max K S q) mn (maxValueOfNBits (unat bits)) s3 = Some (mx, s')"
        by (auto simp: range_bounds_of_def Let_def split: bind_splits)
      note hyps = assms(2,3) w assms(4,5)
      have wn: "unat (of_nat ?w :: u64) = ?w" using assms(4) by (simp add: unsigned_of_nat take_bit_nat_eq_self)
      have 1: "inv s1 \<and> (\<forall>v \<in> ?V. v < 2 ^ unat bits) \<and> (\<forall>x < bits. \<not> (\<forall>v \<in> ?V. v < 2 ^ unat x))"
      proof (rule binary_search_least [where P = "\<lambda>n. \<forall>v \<in> ?V. v < 2 ^ unat n" and I = inv, OF _ _ _ _ _ _ bits])
        show "\<And>x s r s'. inv s \<Longrightarrow> ask_bits K S q x s = Some (r, s') \<Longrightarrow> inv s' \<and> (\<forall>b. r = Some b \<longrightarrow> b = (\<forall>v \<in> ?V. v < 2 ^ unat x))"
          by (rule ask_bits_sound [OF _ hyps])
        show "\<forall>v \<in> ?V. v < 2 ^ unat y" if "x \<le> y" "\<forall>v \<in> ?V. v < 2 ^ unat x" for x y :: u64
          using that power_increasing [of "unat x" "unat y" "2 :: int"]
          by (fastforce simp: word_le_nat_alt intro: less_le_trans)
      qed (use V wn assms(1) in \<open>auto simp: inr_def\<close>)
      have b: "unat bits \<le> ?w"
      proof (rule ccontr)
        assume "\<not> unat bits \<le> ?w"
        then have "of_nat ?w < bits" using wn by (simp add: word_less_nat_alt)
        with 1 V wn show False by (auto simp: inr_def)
      qed
      let ?M = "maxValueOfNBits (unat bits)"
      have M: "\<forall>v \<in> ?V. v \<le> uint ?M" using 1 b assms(4) uint_maxValue [of "unat bits"] by auto
      have 2: "inv s2 \<and> z = (0 \<in> ?V)" using ask_zero_sound [OF _ hyps zero] 1 by simp
      have 3: "inv s3 \<and> uint mn \<in> ?V \<and> (\<forall>v \<in> ?V. uint mn \<le> v)"
      proof (cases z)
        case True
        with mn 2 V show ?thesis by (auto simp: inr_def)
      next
        case False
        with mn have s: "binary_search (ask_min K S q) 0 ?M s2 = Some (mn, s3)" by simp
        have "inv s3 \<and> (\<exists>v \<in> ?V. v \<le> uint mn) \<and> (\<forall>x < mn. \<not> (\<exists>v \<in> ?V. v \<le> uint x))"
        proof (rule binary_search_least [where P = "\<lambda>n. \<exists>v \<in> ?V. v \<le> uint n" and I = inv, OF _ _ _ _ _ _ s])
          show "\<And>x s r s'. inv s \<Longrightarrow> ask_min K S q x s = Some (r, s') \<Longrightarrow> inv s' \<and> (\<forall>b. r = Some b \<longrightarrow> b = (\<exists>v \<in> ?V. v \<le> uint x))"
            by (rule ask_min_sound [OF _ hyps])
          show "\<exists>v \<in> ?V. v \<le> uint y" if "x \<le> y" "\<exists>v \<in> ?V. v \<le> uint x" for x y :: u64
            using that by (auto simp: word_le_def intro: order_trans)
        qed (use 2 M v0 in auto)
        with least_min [OF V assms(4)] show ?thesis by blast
      qed
      have "inv s' \<and> (\<forall>v \<in> ?V. v \<le> uint mx) \<and> (\<forall>x < mx. \<not> (\<forall>v \<in> ?V. v \<le> uint x))"
      proof (rule binary_search_least [where P = "\<lambda>n. \<forall>v \<in> ?V. v \<le> uint n" and I = inv, OF _ _ _ _ _ _ mx])
        show "\<And>x s r s'. inv s \<Longrightarrow> ask_max K S q x s = Some (r, s') \<Longrightarrow> inv s' \<and> (\<forall>b. r = Some b \<longrightarrow> b = (\<forall>v \<in> ?V. v \<le> uint x))"
          by (rule ask_max_sound [OF _ hyps])
        show "\<forall>v \<in> ?V. v \<le> uint y" if "x \<le> y" "\<forall>v \<in> ?V. v \<le> uint x" for x y :: u64
          using that by (auto simp: word_le_def intro: order_trans)
        show "mn \<le> ?M" using 3 M by (auto simp: word_le_def)
        show "\<forall>x < mn. \<not> (\<forall>v \<in> ?V. v \<le> uint x)" using 3
          by (auto simp: word_less_def intro!: bexI [of _ "uint mn"])
      qed (use 3 M in auto)
      with 3 least_max [OF V assms(4) v0] show ?thesis by blast
    qed
  qed
qed

lemma getRange_sound:
  assumes "inv s" "satisfiable q" "wt (q_expr q)" "getWidth (q_expr q) \<le> 64" "range_accepts K accepts q"
    "getRange K S q s = Some ((a, b), s')"
  shows "\<exists>mn mx. a = ConstantExpr (APInt (getWidth (q_expr q)) mn) \<and> b = ConstantExpr (APInt (getWidth (q_expr q)) mx) \<and>
    mn \<in> values_of q \<and> mx \<in> values_of q \<and> (\<forall>v \<in> values_of q. mn \<le> v \<and> v \<le> mx)"
proof -
  obtain mn mx where r: "range_bounds_of K S q s = Some ((mn, mx), s')"
    and c: "ConstantExpr_create K mn (getWidth (q_expr q)) = Some a" "ConstantExpr_create K mx (getWidth (q_expr q)) = Some b"
    using assms(6) by (auto simp: getRange_def split: bind_splits)
  from c create [OF wt_width_pos [OF assms(3)] assms(4)] range_bounds_sound [OF assms(1-5) r]
  show ?thesis by blast
qed

end

subsection \<open>Sequences of queries\<close>

datatype request = AskTruth query | AskValidity query

datatype answer = Truth "bool option" | Validity "validity option"

primrec run :: "'s solver_impl \<Rightarrow> request list \<Rightarrow> 's \<Rightarrow> answer list option" where
  "run S [] s = Some []"
| "run S (req # reqs) s = do {
     (a, s) \<leftarrow> (case req of
       AskTruth q \<Rightarrow> map_option (\<lambda>(r, s). (Truth r, s)) (computeTruth S q s)
     | AskValidity q \<Rightarrow> map_option (\<lambda>(r, s). (Validity r, s)) (computeValidity S q s));
     as \<leftarrow> run S reqs s;
     Some (a # as) }"

fun request_ok :: "'z expr_env_scheme \<Rightarrow> (query \<Rightarrow> bool) \<Rightarrow> request \<Rightarrow> bool" where
  "request_ok K accepts (AskTruth q) \<longleftrightarrow> accepts q \<and> getWidth (q_expr q) = 1 \<and> satisfiable q"
| "request_ok K accepts (AskValidity q) \<longleftrightarrow>
     accepts_both K accepts q \<and> getWidth (q_expr q) = 1 \<and> satisfiable q"

text \<open>An answer, unless the solver failed, is what the formulas of \<^verbatim>\<open>Solver.h\<close> say.\<close>

fun right_answer :: "request \<Rightarrow> answer \<Rightarrow> bool" where
  "right_answer (AskTruth q) (Truth r) \<longleftrightarrow> r \<in> {None, Some (valid q)}"
| "right_answer (AskValidity q) (Validity r) \<longleftrightarrow> r \<in> {None, Some (validity_of q)}"
| "right_answer _ _ \<longleftrightarrow> False"

context solver_laws
begin

lemma run_right:
  "\<lbrakk>inv s; \<forall>req \<in> set reqs. request_ok K accepts req; run S reqs s = Some as\<rbrakk> \<Longrightarrow> list_all2 right_answer reqs as"
proof (induction reqs arbitrary: s as)
  case (Cons req reqs)
  show ?case
  proof (cases req)
    case (AskTruth q)
    with Cons.prems obtain r s' as' where "computeTruth S q s = Some (r, s')" "run S reqs s' = Some as'" "as = Truth r # as'"
      by (auto split: bind_splits)
    with Cons AskTruth truth_ok [of s q r s'] show ?thesis by (cases r) auto
  next
    case (AskValidity q)
    with Cons.prems obtain r s' as' where "computeValidity S q s = Some (r, s')" "run S reqs s' = Some as'"
      "as = Validity r # as'"
      by (auto split: bind_splits)
    with Cons AskValidity validity_ok [of s q r s'] show ?thesis by (cases r) (auto simp: accepts_both_def)
  qed
qed simp

end


section \<open>Properties\<close>


text \<open>C25: whatever sequence of questions the caching solver is asked, starting with the empty cache, every
  answer it does not fail on is right; entries are reused for the query and its negation alike.\<close>

theorem cached_answers_right:
  assumes "solver_laws K S I accepts" "I s" "\<forall>req \<in> set reqs. request_ok K accepts req"
    and "run (caching_solver K h S) reqs (s, Map.empty) = Some as"
  shows "list_all2 right_answer reqs as"
proof -
  have c: "caching K S I accepts" using assms(1) by (rule caching.intro)
  have "caching.cinv I (s, Map.empty)" using assms(2) cache_ok_empty by (simp add: caching.cinv_def [OF c])
  from solver_laws.run_right [OF caching.laws [OF c] this assms(3,4)] show ?thesis .
qed

text \<open>C26: \<^verbatim>\<open>getRange\<close> returns the least and the greatest value that the expression takes under the
  constraints: both are taken and no other value is outside.\<close>

theorem getRange_tight:
  assumes "solver_laws K S I accepts" "I s" "satisfiable q" "wt (q_expr q)" "getWidth (q_expr q) \<le> 64"
    and "range_accepts K accepts q" "getRange K S q s = Some ((a, b), s')"
  shows "\<exists>mn mx. a = ConstantExpr (APInt (getWidth (q_expr q)) mn) \<and> b = ConstantExpr (APInt (getWidth (q_expr q)) mx) \<and>
    mn \<in> values_of q \<and> mx \<in> values_of q \<and> (\<forall>v \<in> values_of q. mn \<le> v \<and> v \<le> mx)"
  using solver_laws.getRange_sound [OF assms] .

subsection \<open>Witnesses\<close>

definition fast_stack_impl :: "unit solver_impl" where
  "fast_stack_impl = staged_solver (std_env False) (fast_cex_solver (std_env False)) dummy_solver"

lemma fast_stack_laws: "solver_laws (std_env False) fast_stack_impl (\<lambda>s. True) cex_accepts"
  unfolding fast_stack_impl_def by (rule fast_stack.staged.solver_laws_axioms)

lemma sample_satisfiable: "satisfiable (sample_query n)"
  unfolding satisfiable_def
  by (rule exI [of _ seq_assignment])
    (simp add: holds_def sample_query_def bv_bin_def take_bit_eq_mod del: eval.simps(3))

lemma sample_accepts:
  "cex_accepts (sample_query 4)" "cex_accepts (negateExpr (std_env False) (sample_query 4))" "cex_accepts (sample_query 8)"
  by code_simp+


theorem cached_answers_right_witness:
  "run (caching_solver (std_env False) (\<lambda>c. 0) fast_stack_impl)
     [AskTruth (sample_query 4), AskValidity (sample_query 4), AskTruth (sample_query 8)] ((), Map.empty) =
   Some [Truth (Some True), Validity (Some VTrue), Truth (Some False)] \<and>
   list_all2 right_answer [AskTruth (sample_query 4), AskValidity (sample_query 4), AskTruth (sample_query 8)]
     [Truth (Some True), Validity (Some VTrue), Truth (Some False)]"
proof -
  let ?reqs = "[AskTruth (sample_query 4), AskValidity (sample_query 4), AskTruth (sample_query 8)]"
  have r: "run (caching_solver (std_env False) (\<lambda>c. 0) fast_stack_impl) ?reqs ((), Map.empty) =
    Some [Truth (Some True), Validity (Some VTrue), Truth (Some False)]"
    by code_simp
  have "getWidth (q_expr (sample_query n)) = 1" for n by (simp add: sample_query_def bv_width_def)
  then have "\<forall>req \<in> set ?reqs. request_ok (std_env False) cex_accepts req"
    by (simp add: accepts_both_def sample_accepts sample_satisfiable)
  from cached_answers_right [OF fast_stack_laws TrueI this r] r show ?thesis by blast
qed

text \<open>A two-bit expression of which the solver knows that it is 1.\<close>

definition flag_query :: query where
  "flag_query = (sample_query 0)\<lparr>q_expr := ZExtExpr (BinaryExpr Eq (ConstantExpr (APInt 8 4)) (rd 1)) 2\<rparr>"

lemma flag_accepts:
  "accepts_both (std_env False) cex_accepts (withExpr flag_query
     (Binary_make (std_env False) Eq (q_expr flag_query) (ConstantExpr (APInt 2 0))))"
  "\<forall>n \<in> {0, 1, 2, 3}.
     cex_accepts (withExpr flag_query (Binary_make (std_env False) Eq
       (Binary_make (std_env False) LShr (q_expr flag_query) (ConstantExpr (APInt 2 n))) (ConstantExpr (APInt 2 0)))) \<and>
     accepts_both (std_env False) cex_accepts
       (withExpr flag_query (Binary_make (std_env False) Ule (q_expr flag_query) (ConstantExpr (APInt 2 n))))"
  by code_simp+

theorem getRange_tight_witness:
  "getRange (std_env False) fast_stack_impl flag_query () =
     Some ((ConstantExpr (APInt 2 1), ConstantExpr (APInt 2 1)), ()) \<and> 1 \<in> values_of flag_query"
proof -
  have r: "getRange (std_env False) fast_stack_impl flag_query () =
     Some ((ConstantExpr (APInt 2 1), ConstantExpr (APInt 2 1)), ())"
    by code_simp
  have w: "getWidth (q_expr flag_query) = 2" "wt (q_expr flag_query)"
    by (simp_all add: flag_query_def bv_width_def inr_def)
  have "n \<in> {0, 1, 2, 3}" if "inr 2 n" for n using that by (auto simp: inr_def)
  then have "range_accepts (std_env False) cex_accepts flag_query"
    unfolding range_accepts_def Let_def w using flag_accepts by (simp del: Binary_make.simps insert_iff) blast
  moreover have "satisfiable flag_query"
    using sample_satisfiable [of 0] by (simp add: satisfiable_def flag_query_def)
  ultimately show ?thesis
    using getRange_tight [OF fast_stack_laws TrueI _ w(2) _ _ r] r w(1) by auto
qed

end
