(* ===== verification/Independent.thy ===== *)
theory Independent
  imports SolverRange ExprUtil "HOL-Library.AList"
begin

section \<open>The independent solver (lib/Solver/IndependentSolver.cpp)\<close>

text \<open>
  \<^verbatim>\<open>IndependentSolver\<close> drops the constraints that share no byte with the query before it asks the solver
  below, and solves unrelated groups of constraints apart when it needs an assignment. Proved here: the
  value of an expression depends on the bytes of its element set alone, the closure and the factors are
  right, assignments of unrelated groups merge into one, and so the solver keeps the contract
  \<open>solver_laws\<close>.
\<close>

subsection \<open>Element sets\<close>

text \<open>
  \<^verbatim>\<open>IndependentElementSet\<close>: \<open>elements\<close> is the map from arrays to the indices read, as a list of its entries;
  \<open>wholeObjects\<close> are the arrays read at an index that is not constant.
\<close>

record element_set =
  elements :: "(array \<times> u32 set) list"
  wholeObjects :: "array list"
  exprs :: "expr list"

text \<open>\<^verbatim>\<open>elements[array].add(i)\<close> and \<^verbatim>\<open>elements.erase\<close>\<close>

fun add_element :: "array \<Rightarrow> u32 \<Rightarrow> (array \<times> u32 set) list \<Rightarrow> (array \<times> u32 set) list" where
  "add_element a i [] = [(a, {i})]"
| "add_element a i ((b, ds) # es) = (if b = a then (b, insert i ds) # es else (b, ds) # add_element a i es)"

definition erase_element :: "array \<Rightarrow> (array \<times> u32 set) list \<Rightarrow> (array \<times> u32 set) list" where
  "erase_element a es = filter (\<lambda>(b, ds). b \<noteq> a) es"

definition note_read :: "expr \<Rightarrow> element_set \<Rightarrow> element_set option" where
  "note_read e s = (case e of
     ReadExpr a us i \<Rightarrow>
       if isConstantArray a \<and> us = UpdateNil then Some s
       else if a \<in> set (wholeObjects s) then Some s
       else (case as_const i of
         Some c \<Rightarrow> do { z \<leftarrow> CE_getZExtValue c 32; Some (s\<lparr>elements := add_element a (ucast z) (elements s)\<rparr>) }
       | None \<Rightarrow> Some (s\<lparr>elements := erase_element a (elements s), wholeObjects := wholeObjects s @ [a]\<rparr>))
   | _ \<Rightarrow> Some s)"

primrec note_reads :: "expr list \<Rightarrow> element_set \<Rightarrow> element_set option" where
  "note_reads [] s = Some s"
| "note_reads (e # es) s = do { s \<leftarrow> note_read e s; note_reads es s }"

definition newElementSet :: "expr \<Rightarrow> element_set option" where
  "newElementSet e = note_reads (findReads e True) \<lparr>elements = [], wholeObjects = [], exprs = [e]\<rparr>"

text \<open>\<^verbatim>\<open>intersects\<close>; \<open>DenseSet::intersects\<close> looks for a common index.\<close>

definition elements_intersect :: "element_set \<Rightarrow> element_set \<Rightarrow> bool" where
  "elements_intersect x b \<longleftrightarrow>
     (\<exists>a \<in> set (wholeObjects x). a \<in> set (wholeObjects b) \<or> map_of (elements b) a \<noteq> None) \<or>
     (\<exists>(a, ds) \<in> set (elements x). a \<in> set (wholeObjects b) \<or>
        (case map_of (elements b) a of Some ds' \<Rightarrow> ds \<inter> ds' \<noteq> {} | None \<Rightarrow> False))"

text \<open>\<^verbatim>\<open>add\<close>: the flag tells whether the set changed.\<close>

definition add_whole :: "array \<Rightarrow> bool \<times> element_set \<Rightarrow> bool \<times> element_set" where
  "add_whole a ms = (case ms of (modified, s) \<Rightarrow>
     if map_of (elements s) a \<noteq> None
     then (True, s\<lparr>elements := erase_element a (elements s), wholeObjects := wholeObjects s @ [a]\<rparr>)
     else if a \<notin> set (wholeObjects s) then (True, s\<lparr>wholeObjects := wholeObjects s @ [a]\<rparr>)
     else (modified, s))"

definition add_elements :: "array \<times> u32 set \<Rightarrow> bool \<times> element_set \<Rightarrow> bool \<times> element_set" where
  "add_elements ads ms = (case (ads, ms) of ((a, ds), (modified, s)) \<Rightarrow>
     if a \<in> set (wholeObjects s) then (modified, s)
     else case map_of (elements s) a of
       None \<Rightarrow> (True, s\<lparr>elements := elements s @ [(a, ds)]\<rparr>)
     | Some ds' \<Rightarrow>
         if ds \<subseteq> ds' then (modified, s)
         else (True, s\<lparr>elements := AList.update a (ds' \<union> ds) (elements s)\<rparr>))"

definition add_set :: "element_set \<Rightarrow> element_set \<Rightarrow> bool \<times> element_set" where
  "add_set s b = fold add_elements (elements b)
     (fold add_whole (wholeObjects b) (False, s\<lparr>exprs := exprs s @ exprs b\<rparr>))"

subsection \<open>The constraints related to the query\<close>

text \<open>One pass over the worklist: the closure, the required constraints, the rest and \<open>done\<close>.\<close>

primrec required_pass :: "(expr \<times> element_set) list \<Rightarrow> bool \<Rightarrow> element_set \<Rightarrow> expr list \<Rightarrow> (expr \<times> element_set) list \<Rightarrow>
    bool \<times> element_set \<times> expr list \<times> (expr \<times> element_set) list" where
  "required_pass [] is_done closure result newWorklist = (is_done, closure, result, newWorklist)"
| "required_pass (it # its) is_done closure result newWorklist =
     (if elements_intersect (snd it) closure then
        let (modified, closure) = add_set closure (snd it) in
        required_pass its (is_done \<and> \<not> modified) closure (result @ [fst it]) newWorklist
      else required_pass its is_done closure result (newWorklist @ [it]))"

lemma required_pass_length:
  "required_pass wl d clo res new = (d', clo', res', new') \<Longrightarrow>
   length new' \<le> length new + length wl \<and> (d \<longrightarrow> d' \<or> length new' < length new + length wl)"
proof (induction wl arbitrary: d clo res new)
  case (Cons it wl)
  show ?case
  proof (cases "elements_intersect (snd it) clo")
    case True
    obtain m c where a: "add_set clo (snd it) = (m, c)" by fastforce
    with True Cons.prems have "required_pass wl (d \<and> \<not> m) c (res @ [fst it]) new = (d', clo', res', new')" by simp
    from Cons.IH [OF this] show ?thesis by auto
  next
    case False
    with Cons.prems have "required_pass wl d clo res (new @ [it]) = (d', clo', res', new')" by simp
    from Cons.IH [OF this] show ?thesis by auto
  qed
qed simp

function required_loop :: "(expr \<times> element_set) list \<Rightarrow> element_set \<Rightarrow> expr list \<Rightarrow> element_set \<times> expr list" where
  "required_loop worklist closure result =
     (case required_pass worklist True closure result [] of (is_done, closure, result, worklist) \<Rightarrow>
        if is_done then (closure, result) else required_loop worklist closure result)"
  by pat_completeness auto
termination
proof (relation "measure (\<lambda>(wl, clo, res). length wl)", goal_cases)
  case (2 wl clo res d p c q r wl')
  then have "required_pass wl True clo res [] = (False, c, r, wl')" by simp
  from required_pass_length [OF this] show ?case by simp
qed simp

declare required_loop.simps [simp del]

primrec element_sets :: "expr list \<Rightarrow> element_set list option" where
  "element_sets [] = Some []"
| "element_sets (e # es) = do { s \<leftarrow> newElementSet e; ss \<leftarrow> element_sets es; Some (s # ss) }"

definition getIndependentConstraints :: "query \<Rightarrow> (element_set \<times> expr list) option" where
  "getIndependentConstraints q = do {
     eltsClosure \<leftarrow> newElementSet (q_expr q);
     ss \<leftarrow> element_sets (q_constraints q);
     Some (required_loop (zip (q_constraints q) ss) eltsClosure []) }"

subsection \<open>All independent factors\<close>

text \<open>\<^verbatim>\<open>current\<close> absorbs the sets of the queue that it meets; the others are kept.\<close>

primrec absorb :: "element_set list \<Rightarrow> bool \<Rightarrow> element_set \<Rightarrow> element_set list \<Rightarrow> bool \<times> element_set \<times> element_set list" where
  "absorb [] is_done current keep = (is_done, current, keep)"
| "absorb (s # factors) is_done current keep =
     (if elements_intersect current s then
        let (modified, current) = add_set current s in absorb factors (is_done \<and> \<not> modified) current keep
      else absorb factors is_done current (keep @ [s]))"

lemma absorb_length:
  "absorb ss d cur keep = (d', cur', keep') \<Longrightarrow>
   length keep' \<le> length keep + length ss \<and> (d \<longrightarrow> d' \<or> length keep' < length keep + length ss)"
proof (induction ss arbitrary: d cur keep)
  case (Cons s ss)
  show ?case
  proof (cases "elements_intersect cur s")
    case True
    obtain m c where a: "add_set cur s = (m, c)" by fastforce
    with True Cons.prems have "absorb ss (d \<and> \<not> m) c keep = (d', cur', keep')" by simp
    from Cons.IH [OF this] show ?thesis by auto
  next
    case False
    with Cons.prems have "absorb ss d cur (keep @ [s]) = (d', cur', keep')" by simp
    from Cons.IH [OF this] show ?thesis by auto
  qed
qed simp

function factor_pass :: "element_set list \<Rightarrow> bool \<Rightarrow> element_set list \<Rightarrow> bool \<times> element_set list" where
  "factor_pass [] is_done out = (is_done, out)"
| "factor_pass (current # factors) is_done out =
     (case absorb factors is_done current [] of (is_done, current, keep) \<Rightarrow>
        factor_pass keep is_done (out @ [current]))"
  by pat_completeness auto
termination
proof (relation "measure (\<lambda>(fs, d, out). length fs)", goal_cases)
  case (2 cur fs d out d' p cur' keep)
  then show ?case using absorb_length [of fs d cur "[]"] by (metis (no_types, lifting) case_prod_conv
    in_measure le_imp_less_Suc length_Cons list.size(3) add.left_neutral)
qed simp

lemma factor_pass_length:
  "factor_pass fs d out = (d', out') \<Longrightarrow>
   length out' \<le> length out + length fs \<and> (d \<longrightarrow> d' \<or> length out' < length out + length fs)"
proof (induction fs d out rule: factor_pass.induct)
  case (2 cur fs d out)
  obtain d1 cur1 keep where a: "absorb fs d cur [] = (d1, cur1, keep)" by (metis prod_cases3)
  with 2 have "length out' \<le> length (out @ [cur1]) + length keep \<and>
    (d1 \<longrightarrow> d' \<or> length out' < length (out @ [cur1]) + length keep)" by simp
  with absorb_length [OF a] show ?case by auto
qed simp

function factor_loop :: "element_set list \<Rightarrow> element_set list" where
  "factor_loop factors =
     (case factor_pass factors True [] of (is_done, factors) \<Rightarrow>
        if is_done then factors else factor_loop factors)"
  by pat_completeness auto
termination
proof (relation "measure length", goal_cases)
  case (2 fs d fs')
  then have "factor_pass fs True [] = (False, fs')" by simp
  from factor_pass_length [OF this] show ?case by simp
qed simp

declare factor_loop.simps [simp del]

definition getAllIndependentConstraintsSets :: "'z expr_env_scheme \<Rightarrow> query \<Rightarrow> element_set list option" where
  "getAllIndependentConstraintsSets K q = do {
     first \<leftarrow> (case as_const (q_expr q) of
       Some c \<Rightarrow> if ap_isFalse c then Some [] else None
     | None \<Rightarrow> do { s \<leftarrow> newElementSet (createIsZero K (q_expr q)); Some [s] });
     ss \<leftarrow> element_sets (q_constraints q);
     Some (factor_loop (first @ ss)) }"

text \<open>The arrays of a set, in the order of their addresses.\<close>

definition calculateArrayReferences :: "element_set \<Rightarrow> array list" where
  "calculateArrayReferences s = sort_key arr_addr (remdups (map fst (elements s) @ wholeObjects s))"

subsection \<open>The solver\<close>

definition required_query :: "query \<Rightarrow> query option" where
  "required_query q = map_option (\<lambda>(closure, required). q\<lparr>q_constraints := required\<rparr>) (getIndependentConstraints q)"

definition independent_computeTruth :: "'s solver_impl \<Rightarrow> query \<Rightarrow> 's \<Rightarrow> (bool option \<times> 's) option" where
  "independent_computeTruth S q s = do { q' \<leftarrow> required_query q; computeTruth S q' s }"

definition independent_computeValidity :: "'s solver_impl \<Rightarrow> query \<Rightarrow> 's \<Rightarrow> (validity option \<times> 's) option" where
  "independent_computeValidity S q s = do { q' \<leftarrow> required_query q; computeValidity S q' s }"

definition independent_computeValue :: "'s solver_impl \<Rightarrow> query \<Rightarrow> 's \<Rightarrow> (expr option \<times> 's) option" where
  "independent_computeValue S q s = do { q' \<leftarrow> required_query q; computeValue S q' s }"

type_synonym byte_map = "array \<Rightarrow> byte list option"

text \<open>The bytes of \<open>ds\<close> come from the new answer; an index past the end of a vector has no defined effect.\<close>

definition update_bytes :: "u32 set \<Rightarrow> byte list \<Rightarrow> byte list \<Rightarrow> byte list option" where
  "update_bytes ds old new =
     (if \<forall>i \<in> ds. unat i < length old \<and> unat i < length new
      then Some (map (\<lambda>k. if k \<in> unat ` ds then new ! k else old ! k) [0..<length old]) else None)"

primrec store_values :: "element_set \<Rightarrow> array list \<Rightarrow> byte list list \<Rightarrow> byte_map \<Rightarrow> byte_map option" where
  "store_values f [] vals ret = (if vals = [] then Some ret else None)"
| "store_values f (a # as) vals ret = (case vals of
     [] \<Rightarrow> None
   | v # vals' \<Rightarrow> (case ret a of
       Some old \<Rightarrow>
         if length old \<noteq> length v then None
         else do {
           b \<leftarrow> update_bytes (case map_of (elements f) a of Some ds \<Rightarrow> ds | None \<Rightarrow> {}) old v;
           store_values f as vals' (ret(a \<mapsto> b)) }
     | None \<Rightarrow> store_values f as vals' (ret(a \<mapsto> v))))"

text \<open>\<open>hasSolution\<close> starts as true and keeps its value when the solver below does not set it.\<close>

datatype factor_outcome = Failed bool | NoSolution | Solved byte_map

primrec solve_factors ::
  "'z expr_env_scheme \<Rightarrow> 's solver_impl \<Rightarrow> element_set list \<Rightarrow> byte_map \<Rightarrow> 's \<Rightarrow> (factor_outcome \<times> 's) option" where
  "solve_factors K S [] retMap s = Some (Solved retMap, s)"
| "solve_factors K S (f # fs) retMap s =
     (if exprs f = [] then None
      else let arraysInFactor = calculateArrayReferences f in
        if arraysInFactor = [] then solve_factors K S fs retMap s
        else do {
          ((ok, h, tempValues), s) \<leftarrow> computeInitialValues S
            \<lparr>q_constraints = exprs f, q_expr = ConstantExpr (ConstantExpr_alloc K 0 1)\<rparr> arraysInFactor [] s;
          let hasSolution = (case h of Some b \<Rightarrow> b | None \<Rightarrow> True);
          if \<not> ok then Some (Failed hasSolution, s)
          else if \<not> hasSolution then Some (NoSolution, s)
          else do {
            retMap \<leftarrow> store_values f arraysInFactor tempValues retMap;
            solve_factors K S fs retMap s } })"

text \<open>\<^verbatim>\<open>assertCreatedPointEvaluatesToTrue\<close>\<close>

primrec constraints_hold :: "'z expr_env_scheme \<Rightarrow> bindings \<Rightarrow> expr list \<Rightarrow> bool option" where
  "constraints_hold K A [] = Some True"
| "constraints_hold K A (c # cs) = do {
     r \<leftarrow> evaluate_expr K A c;
     v \<leftarrow> as_const r;
     if ap_isFalse v then Some False else constraints_hold K A cs }"

definition assertCreatedPointEvaluatesToTrue ::
  "'z expr_env_scheme \<Rightarrow> query \<Rightarrow> array list \<Rightarrow> byte list list \<Rightarrow> byte_map \<Rightarrow> bool option" where
  "assertCreatedPointEvaluatesToTrue K q objects vals retMap = do {
     A \<leftarrow> newAssignment objects vals True;
     let A = A\<lparr>bindings := retMap ++ bindings A\<rparr>;
     ok \<leftarrow> constraints_hold K A (q_constraints q);
     if \<not> ok then Some False
     else do {
       r \<leftarrow> evaluate_expr K A (createIsZero K (q_expr q));
       v \<leftarrow> as_const r;
       Some (ap_isTrue v) } }"

definition object_bytes :: "byte_map \<Rightarrow> array \<Rightarrow> byte list" where
  "object_bytes retMap a = (case retMap a of Some bytes \<Rightarrow> bytes | None \<Rightarrow> replicate (arr_size a) 0)"

definition independent_computeInitialValues ::
  "'z expr_env_scheme \<Rightarrow> 's solver_impl \<Rightarrow> query \<Rightarrow> array list \<Rightarrow> byte list list \<Rightarrow> 's \<Rightarrow>
   ((bool \<times> bool option \<times> byte list list) \<times> 's) option" where
  "independent_computeInitialValues K S q objects vals s = do {
     factors \<leftarrow> getAllIndependentConstraintsSets K q;
     (res, s) \<leftarrow> solve_factors K S factors Map.empty s;
     case res of
       Failed h \<Rightarrow> Some ((False, Some h, []), s)
     | NoSolution \<Rightarrow> Some ((True, Some False, []), s)
     | Solved retMap \<Rightarrow>
         let vals = vals @ map (object_bytes retMap) objects in do {
           ok \<leftarrow> assertCreatedPointEvaluatesToTrue K q objects vals retMap;
           if ok then Some ((True, Some True, vals), s) else None } }"

definition independent_solver :: "'z expr_env_scheme \<Rightarrow> 's solver_impl \<Rightarrow> 's solver_impl" where
  "independent_solver K S = \<lparr>
     computeTruth = independent_computeTruth S, computeValidity = independent_computeValidity S,
     computeValue = independent_computeValue S, computeInitialValues = independent_computeInitialValues K S\<rparr>"

subsection \<open>What an element set stands for\<close>

text \<open>The bytes that a read may touch. Constant arrays that were never written are left out, so their reads
  have to stay inside the array.\<close>

fun touch_read :: "expr \<Rightarrow> (array \<times> int) set" where
  "touch_read (ReadExpr a us i) =
     (if isConstantArray a \<and> us = UpdateNil then {}
      else case as_const i of Some c \<Rightarrow> {(a, getZExtValue c)} | None \<Rightarrow> {a} \<times> UNIV)"
| "touch_read e = {}"

definition touches :: "expr \<Rightarrow> (array \<times> int) set" where
  "touches e = (\<Union>r \<in> all_reads e. touch_read r)"

definition const_in_bounds :: "expr \<Rightarrow> bool" where
  "const_in_bounds e \<longleftrightarrow> (\<forall>a i \<sigma>. ReadExpr a UpdateNil i \<in> all_reads e \<longrightarrow> isConstantArray a \<longrightarrow> assign_ok \<sigma> \<longrightarrow>
     0 \<le> eval \<sigma> i \<and> eval \<sigma> i < int (arr_size a))"

definition touched :: "element_set \<Rightarrow> (array \<times> int) set" where
  "touched s = {(a, j). a \<in> set (wholeObjects s) \<or> (\<exists>ds. map_of (elements s) a = Some ds \<and> j \<in> uint ` ds)}"

text \<open>The value of an expression depends on the bytes it touches alone.\<close>

lemma initial_value_agree: "\<sigma> a j = \<tau> a j \<Longrightarrow> initial_value \<sigma> a j = initial_value \<tau> a j"
  by (simp add: initial_value_def)

lemma eval_depends:
  assumes "assign_ok \<sigma>" "const_in_bounds e" "\<forall>(a, j) \<in> touches e. \<sigma> a j = \<tau> a j"
  shows "eval \<sigma> e = eval \<tau> e"
proof (rule eval_agree)
  fix a us i assume r: "ReadExpr a us i \<in> all_reads e"
  show "initial_value \<sigma> a (eval \<sigma> i) = initial_value \<tau> a (eval \<sigma> i)"
  proof (cases "isConstantArray a \<and> us = UpdateNil")
    case True
    with r assms(1,2) have "0 \<le> eval \<sigma> i \<and> eval \<sigma> i < int (arr_size a)" by (auto simp: const_in_bounds_def)
    with True show ?thesis by (simp add: initial_value_def)
  next
    case False
    then have "(a, eval \<sigma> i) \<in> touch_read (ReadExpr a us i)"
      by (auto simp: as_const_Some split: option.split)
    with r assms(3) have "\<sigma> a (eval \<sigma> i) = \<tau> a (eval \<sigma> i)" by (fastforce simp: touches_def)
    then show ?thesis by (rule initial_value_agree)
  qed
qed

text \<open>Two assignments merge: the bytes of \<open>T\<close> come from the first.\<close>

definition merge :: "(array \<times> int) set \<Rightarrow> assignment \<Rightarrow> assignment \<Rightarrow> assignment" where
  "merge T \<sigma> \<tau> = (\<lambda>a j. if (a, j) \<in> T then \<sigma> a j else \<tau> a j)"

lemma merge_ok: "assign_ok \<sigma> \<Longrightarrow> assign_ok \<tau> \<Longrightarrow> assign_ok (merge T \<sigma> \<tau>)"
  by (simp add: merge_def assign_ok_def)

lemma eval_merge:
  assumes "assign_ok \<sigma>" "assign_ok \<tau>" "const_in_bounds e"
  shows "touches e \<subseteq> T \<Longrightarrow> eval (merge T \<sigma> \<tau>) e = eval \<sigma> e"
    and "touches e \<inter> T = {} \<Longrightarrow> eval (merge T \<sigma> \<tau>) e = eval \<tau> e"
  using merge_ok [OF assms(1,2)] assms by (auto intro!: eval_depends simp: merge_def)

subsection \<open>Element sets hold what their expressions touch\<close>

lemma map_of_add: "map_of (add_element a i es) = (map_of es)(a \<mapsto> insert i (case map_of es a of Some ds \<Rightarrow> ds | None \<Rightarrow> {}))"
  by (induction a i es rule: add_element.induct) (auto split: option.split)

lemma map_of_erase: "map_of (erase_element a es) = (map_of es)(a := None)"
  by (induction es) (auto simp: erase_element_def)

lemma touched_simps [simp]:
  "touched (s\<lparr>elements := add_element a i (elements s)\<rparr>) = insert (a, uint i) (touched s)"
  "touched (s\<lparr>wholeObjects := wholeObjects s @ [a]\<rparr>) = {a} \<times> UNIV \<union> touched s"
  "touched (s\<lparr>elements := erase_element a (elements s), wholeObjects := wholeObjects s @ [a]\<rparr>) =
    {a} \<times> UNIV \<union> touched s"
  "touched (s\<lparr>exprs := es\<rparr>) = touched s"
  by (auto simp: touched_def map_of_add map_of_erase split: option.splits if_splits)

lemma note_read_touched:
  assumes "note_read r s = Some s'" "touch_read r \<noteq> {} \<Longrightarrow> wt r \<and> ev_safe r"
  shows "touched s \<union> touch_read r \<subseteq> touched s' \<and> exprs s' = exprs s"
proof (cases r)
  case (ReadExpr a us i)
  show ?thesis
  proof (cases "isConstantArray a \<and> us = UpdateNil")
    case False
    show ?thesis
    proof (cases "a \<in> set (wholeObjects s)")
      case True
      then have "{a} \<times> UNIV \<subseteq> touched s" by (auto simp: touched_def)
      moreover have "touch_read r \<subseteq> {a} \<times> UNIV" using ReadExpr by (auto split: option.split)
      ultimately show ?thesis using True assms ReadExpr False by (auto simp: note_read_def)
    next
      case nw: False
      show ?thesis
      proof (cases "as_const i")
        case (Some c)
        then have i: "i = ConstantExpr c" by (simp add: as_const_Some)
        have "touch_read r \<noteq> {}" using False ReadExpr Some by auto
        with assms(2) ReadExpr i have c: "wf_ap c" "getBitWidth c \<le> 32" by auto
        obtain z where z: "CE_getZExtValue c 32 = Some z" "s' = s\<lparr>elements := add_element a (ucast z) (elements s)\<rparr>"
          using assms(1) ReadExpr False nw Some by (auto simp: note_read_def split: bind_splits)
        have "CE_getZExtValue c 64 = Some z" using z(1) c by (auto simp: CE_getZExtValue_def split: if_splits)
        with index_of_const [OF c] have "uint (ucast z :: u32) = getZExtValue c" by auto
        with z False ReadExpr Some show ?thesis by auto
      next
        case None
        with assms(1) ReadExpr False nw have "s' = s\<lparr>elements := erase_element a (elements s), wholeObjects := wholeObjects s @ [a]\<rparr>"
          by (simp add: note_read_def)
        with ReadExpr False None show ?thesis by auto
      qed
    qed
  qed (use assms ReadExpr in \<open>auto simp: note_read_def\<close>)
qed (use assms in \<open>auto simp: note_read_def\<close>)

lemma note_reads_touched:
  "note_reads rs s = Some s' \<Longrightarrow> \<forall>r \<in> set rs. wt r \<and> ev_safe r \<Longrightarrow>
   touched s \<union> (\<Union>r \<in> set rs. touch_read r) \<subseteq> touched s' \<and> exprs s' = exprs s"
proof (induction rs arbitrary: s)
  case (Cons r rs)
  then obtain s1 where s1: "note_read r s = Some s1" "note_reads rs s1 = Some s'" by (auto split: bind_splits)
  from note_read_touched [OF s1(1)] Cons.IH [OF s1(2)] Cons.prems(2) show ?case by auto
qed simp

lemma reads_wt:
  "wt e \<Longrightarrow> ev_safe e \<Longrightarrow> r \<in> all_reads e \<Longrightarrow> wt r \<and> ev_safe r"
  "wt_updates us a \<Longrightarrow> ev_safe_updates us \<Longrightarrow> r \<in> all_reads_updates us \<Longrightarrow> wt r \<and> ev_safe r"
  by (induction e and us arbitrary: and a) (simp, simp, force, simp_all, blast+)

lemma newElementSet_touched:
  assumes "newElementSet e = Some s" "wt e" "ev_safe e"
  shows "touches e \<subseteq> touched s \<and> exprs s = [e]"
  using note_reads_touched [OF assms(1) [unfolded newElementSet_def]] reads_wt(1) [OF assms(2,3)]
  by (auto simp: findReads_all touches_def)

lemma not_intersect:
  assumes "\<not> elements_intersect x b" shows "touched x \<inter> touched b = {}"
proof -
  have w: "\<forall>a \<in> set (wholeObjects x). a \<notin> set (wholeObjects b) \<and> map_of (elements b) a = None"
    using assms unfolding elements_intersect_def by blast
  have e: "a \<notin> set (wholeObjects b) \<and> \<not> (case map_of (elements b) a of Some ds' \<Rightarrow> ds \<inter> ds' \<noteq> {} | None \<Rightarrow> False)"
    if "(a, ds) \<in> set (elements x)" for a ds
    using assms that unfolding elements_intersect_def by blast
  have False if x: "(a, j) \<in> touched x" and b: "(a, j) \<in> touched b" for a j
  proof (cases "a \<in> set (wholeObjects x)")
    case True
    with w b show False by (auto simp: touched_def)
  next
    case False
    with x obtain ds where ds: "map_of (elements x) a = Some ds" "j \<in> uint ` ds" by (auto simp: touched_def)
    from e [OF map_of_SomeD [OF ds(1)]] b ds(2) show False
      by (auto simp: touched_def word_uint_eq_iff [symmetric])
  qed
  then show ?thesis by auto
qed

lemma add_whole_touched:
  "touched (snd (add_whole a ms)) = {a} \<times> UNIV \<union> touched (snd ms) \<and> exprs (snd (add_whole a ms)) = exprs (snd ms) \<and>
   (\<not> fst (add_whole a ms) \<longrightarrow> add_whole a ms = ms)"
  by (cases ms) (auto simp: add_whole_def, auto simp: touched_def)

lemma add_elements_touched:
  "touched (snd (add_elements (a, ds) ms)) \<supseteq> {a} \<times> uint ` ds \<union> touched (snd ms) \<and>
   exprs (snd (add_elements (a, ds) ms)) = exprs (snd ms) \<and>
   (\<not> fst (add_elements (a, ds) ms) \<longrightarrow> add_elements (a, ds) ms = ms)"
  by (cases ms) (auto simp: add_elements_def touched_def update_conv map_add_def split: option.splits if_splits)

lemma fold_whole_touched:
  "touched (snd (fold add_whole as ms)) = set as \<times> UNIV \<union> touched (snd ms) \<and> exprs (snd (fold add_whole as ms)) = exprs (snd ms) \<and>
   (\<not> fst (fold add_whole as ms) \<longrightarrow> fold add_whole as ms = ms)"
proof (induction as arbitrary: ms)
  case (Cons a as)
  from Cons.IH [of "add_whole a ms"] add_whole_touched [of a ms] show ?case by auto
qed simp

definition element_bytes :: "(array \<times> u32 set) list \<Rightarrow> (array \<times> int) set" where
  "element_bytes es = (\<Union>(a, ds) \<in> set es. {a} \<times> uint ` ds)"

lemma fold_elements_touched:
  "touched (snd (fold add_elements es ms)) \<supseteq> element_bytes es \<union> touched (snd ms) \<and>
   exprs (snd (fold add_elements es ms)) = exprs (snd ms) \<and>
   (\<not> fst (fold add_elements es ms) \<longrightarrow> fold add_elements es ms = ms)"
proof (induction es arbitrary: ms)
  case (Cons ads es)
  obtain a ds where ads: "ads = (a, ds)" by fastforce
  have b: "element_bytes (ads # es) = {a} \<times> uint ` ds \<union> element_bytes es" by (simp add: element_bytes_def ads)
  from Cons.IH [of "add_elements ads ms"] add_elements_touched [of a ds ms] ads
  have "touched (snd (fold add_elements (ads # es) ms)) \<supseteq> element_bytes (ads # es) \<union> touched (snd ms)"
    unfolding b by (simp del: fold.simps add: fold_Cons) blast
  moreover have "exprs (snd (fold add_elements (ads # es) ms)) = exprs (snd ms) \<and>
    (\<not> fst (fold add_elements (ads # es) ms) \<longrightarrow> fold add_elements (ads # es) ms = ms)"
    using Cons.IH [of "add_elements ads ms"] add_elements_touched [of a ds ms] ads by auto
  ultimately show ?case by blast
qed (simp add: element_bytes_def)

lemma touched_sub: "touched b \<subseteq> set (wholeObjects b) \<times> UNIV \<union> element_bytes (elements b)"
  by (auto simp: touched_def element_bytes_def dest!: map_of_SomeD)

lemma add_set_touched:
  assumes "add_set s b = (m, s')"
  shows "touched s \<union> touched b \<subseteq> touched s' \<and> exprs s' = exprs s @ exprs b \<and>
    (\<not> m \<longrightarrow> elements s' = elements s \<and> wholeObjects s' = wholeObjects s)"
proof -
  let ?s0 = "s\<lparr>exprs := exprs s @ exprs b\<rparr>"
  let ?ms = "fold add_whole (wholeObjects b) (False, ?s0)"
  note w = fold_whole_touched [of "wholeObjects b" "(False, ?s0)"]
  note e = fold_elements_touched [of "elements b" ?ms]
  have s': "fold add_elements (elements b) ?ms = (m, s')" using assms by (simp add: add_set_def)
  have "set (wholeObjects b) \<times> UNIV \<union> element_bytes (elements b) \<subseteq> touched s'" "touched s \<subseteq> touched s'"
    using w e s' by auto
  with touched_sub [of b] have "touched s \<union> touched b \<subseteq> touched s'" by (metis Un_least subset_trans)
  moreover have "exprs s' = exprs s @ exprs b" using w e s' by simp
  moreover have "elements s' = elements s \<and> wholeObjects s' = wholeObjects s" if "\<not> m"
  proof -
    have "?ms = (m, s')" using e s' that by simp
    with w that have "(False, ?s0) = (m, s')" by simp
    then show ?thesis by auto
  qed
  ultimately show ?thesis by blast
qed

lemma intersect_same:
  "elements s' = elements s \<Longrightarrow> wholeObjects s' = wholeObjects s \<Longrightarrow>
   elements_intersect x s' = elements_intersect x s \<and> elements_intersect s' x = elements_intersect s x"
  by (simp add: elements_intersect_def)

lemma touched_same: "elements s' = elements s \<Longrightarrow> wholeObjects s' = wholeObjects s \<Longrightarrow> touched s' = touched s"
  by (simp add: touched_def)

subsection \<open>The closure is right\<close>

text \<open>\<open>W\<close> are the constraints with their element sets: each is still on the worklist or is required and
  inside the closure; what is required comes from \<open>W\<close>.\<close>

definition closure_inv :: "(expr \<times> element_set) set \<Rightarrow> (expr \<times> element_set) set \<Rightarrow> element_set \<Rightarrow> expr list \<Rightarrow> bool" where
  "closure_inv W wl clo res \<longleftrightarrow>
     (\<forall>it \<in> W. it \<in> wl \<or> fst it \<in> set res \<and> touched (snd it) \<subseteq> touched clo) \<and>
     (\<forall>c \<in> set res. \<exists>s. (c, s) \<in> W \<and> touched s \<subseteq> touched clo) \<and> wl \<subseteq> W"

lemma closure_inv_add:
  assumes "closure_inv W (insert it wl) clo res" "it \<in> W" "touched clo \<union> touched (snd it) \<subseteq> touched clo'" "wl \<subseteq> W"
  shows "closure_inv W wl clo' (res @ [fst it])"
proof -
  have "(fst it, snd it) \<in> W \<and> touched (snd it) \<subseteq> touched clo'" using assms(2,3) by simp
  then have "\<exists>s. (fst it, s) \<in> W \<and> touched s \<subseteq> touched clo'" by blast
  moreover have "\<exists>s. (c, s) \<in> W \<and> touched s \<subseteq> touched clo'" if "c \<in> set res" for c
  proof -
    obtain s where "(c, s) \<in> W" "touched s \<subseteq> touched clo" using assms(1) \<open>c \<in> set res\<close> by (auto simp: closure_inv_def)
    with assms(3) show ?thesis by blast
  qed
  moreover have "i \<in> wl \<or> fst i \<in> set (res @ [fst it]) \<and> touched (snd i) \<subseteq> touched clo'" if "i \<in> W" for i
  proof -
    have "i = it \<or> i \<in> wl \<or> fst i \<in> set res \<and> touched (snd i) \<subseteq> touched clo"
      using assms(1) \<open>i \<in> W\<close> by (simp add: closure_inv_def)
    with assms(3) show ?thesis by auto
  qed
  ultimately show ?thesis using assms(4) unfolding closure_inv_def by (simp add: ball_Un)
qed

lemma required_pass_inv:
  "\<lbrakk>required_pass wl d clo res new = (d', clo', res', new'); closure_inv W (set new \<union> set wl) clo res;
    d \<longrightarrow> (\<forall>it \<in> set new. \<not> elements_intersect (snd it) clo)\<rbrakk> \<Longrightarrow>
   closure_inv W (set new') clo' res' \<and> touched clo \<subseteq> touched clo' \<and>
   (d' \<longrightarrow> (\<forall>it \<in> set new'. \<not> elements_intersect (snd it) clo'))"
proof (induction wl arbitrary: d clo res new)
  case (Cons it wl)
  show ?case
  proof (cases "elements_intersect (snd it) clo")
    case True
    obtain m c where a: "add_set clo (snd it) = (m, c)" by fastforce
    note t = add_set_touched [OF a]
    have r: "required_pass wl (d \<and> \<not> m) c (res @ [fst it]) new = (d', clo', res', new')"
      using True a Cons.prems(1) by simp
    have W: "it \<in> W" "set new \<union> set wl \<subseteq> W" using Cons.prems(2) by (auto simp: closure_inv_def)
    have "closure_inv W (set new \<union> set wl) c (res @ [fst it])"
      using Cons.prems(2) t W by (intro closure_inv_add [where clo = clo]) simp_all
    moreover have "d \<and> \<not> m \<longrightarrow> (\<forall>it \<in> set new. \<not> elements_intersect (snd it) c)"
      using Cons.prems(3) t intersect_same [of c clo] by auto
    ultimately have "closure_inv W (set new') clo' res' \<and> touched c \<subseteq> touched clo' \<and>
      (d' \<longrightarrow> (\<forall>it \<in> set new'. \<not> elements_intersect (snd it) clo'))"
      by (rule Cons.IH [OF r])
    with t show ?thesis by blast
  next
    case False
    with Cons.prems(1) have r: "required_pass wl d clo res (new @ [it]) = (d', clo', res', new')" by simp
    from Cons.prems(2,3) False show ?thesis by (intro Cons.IH [OF r]) auto
  qed
qed simp

lemma required_loop_right:
  "\<lbrakk>required_loop wl clo res = (clo', res'); closure_inv W (set wl) clo res\<rbrakk> \<Longrightarrow>
   touched clo \<subseteq> touched clo' \<and> (\<forall>c \<in> set res'. \<exists>s. (c, s) \<in> W \<and> touched s \<subseteq> touched clo') \<and>
   (\<forall>it \<in> W. fst it \<in> set res' \<and> touched (snd it) \<subseteq> touched clo' \<or> touched (snd it) \<inter> touched clo' = {})"
proof (induction wl clo res rule: required_loop.induct)
  case (1 wl clo res)
  obtain d c r new where p: "required_pass wl True clo res [] = (d, c, r, new)" by (metis prod_cases4)
  note i = required_pass_inv [OF p, of W]
  show ?case
  proof (cases d)
    case True
    with 1(2) p have "clo' = c" "res' = r" by (simp_all add: required_loop.simps)
    with i 1(3) True not_intersect show ?thesis by (simp add: closure_inv_def) blast
  next
    case False
    with 1(2) p have l: "required_loop new c r = (clo', res')" by (simp add: required_loop.simps)
    from 1(1) [OF p [symmetric] refl refl False l] i 1(3) show ?thesis by auto
  qed
qed

text \<open>Expressions whose element sets can be trusted.\<close>

definition ind_expr :: "expr \<Rightarrow> bool" where
  "ind_expr e \<longleftrightarrow> wt e \<and> ev_safe e \<and> const_in_bounds e"

lemma element_sets_zip:
  "element_sets cs = Some ss \<Longrightarrow> \<forall>c \<in> set cs. ind_expr c \<Longrightarrow>
   length ss = length cs \<and> (\<forall>(c, s) \<in> set (zip cs ss). touches c \<subseteq> touched s \<and> exprs s = [c])"
proof (induction cs arbitrary: ss)
  case (Cons c cs)
  then obtain s ss' where s: "newElementSet c = Some s" "element_sets cs = Some ss'" "ss = s # ss'"
    by (auto split: bind_splits)
  from newElementSet_touched [OF s(1)] Cons.prems(2) Cons.IH [OF s(2)] s(3) show ?case
    by (auto simp: ind_expr_def)
qed simp

text \<open>What is not required shares no byte with what is required and with the query.\<close>

lemma independent_constraints:
  assumes "getIndependentConstraints q = Some (clo, res)" "ind_expr (q_expr q)" "\<forall>c \<in> set (q_constraints q). ind_expr c"
  shows "touches (q_expr q) \<subseteq> touched clo \<and> set res \<subseteq> set (q_constraints q) \<and>
    (\<forall>c \<in> set res. touches c \<subseteq> touched clo) \<and>
    (\<forall>c \<in> set (q_constraints q). c \<in> set res \<or> touches c \<inter> touched clo = {})"
proof -
  obtain s ss where s: "newElementSet (q_expr q) = Some s" "element_sets (q_constraints q) = Some ss"
    "required_loop (zip (q_constraints q) ss) s [] = (clo, res)"
    using assms(1) by (auto simp: getIndependentConstraints_def split: bind_splits)
  let ?W = "set (zip (q_constraints q) ss)"
  note z = element_sets_zip [OF s(2) assms(3)]
  have "closure_inv ?W ?W s []" by (simp add: closure_inv_def)
  note r = required_loop_right [OF s(3) this]
  have q: "touches (q_expr q) \<subseteq> touched clo"
    using newElementSet_touched [OF s(1)] assms(2) r by (auto simp: ind_expr_def)
  have W: "c \<in> set (q_constraints q) \<and> touches c \<subseteq> touched t" if "(c, t) \<in> ?W" for c t
    using that z set_zip_leftD [OF that] by blast
  have res: "c \<in> set (q_constraints q) \<and> touches c \<subseteq> touched clo" if "c \<in> set res" for c
  proof -
    from that r obtain t where "(c, t) \<in> ?W" "touched t \<subseteq> touched clo" by blast
    with W show ?thesis by blast
  qed
  have "c \<in> set res \<or> touches c \<inter> touched clo = {}" if c: "c \<in> set (q_constraints q)" for c
  proof -
    have "c \<in> fst ` ?W" using c z by (metis list.set_map map_fst_zip)
    then obtain t where t: "(c, t) \<in> ?W" by auto
    with r have "c \<in> set res \<or> touched t \<inter> touched clo = {}" by fastforce
    with W [OF t] show ?thesis by blast
  qed
  with q res show ?thesis by blast
qed

subsection \<open>The factors are right\<close>

definition set_arrays :: "element_set \<Rightarrow> array set" where
  "set_arrays s = fst ` set (elements s) \<union> set (wholeObjects s)"

definition good_set :: "element_set \<Rightarrow> bool" where
  "good_set s \<longleftrightarrow> (\<forall>e \<in> set (exprs s). touches e \<subseteq> touched s) \<and>
     (\<forall>a \<in> set_arrays s. byte_array a)"

definition all_exprs :: "element_set list \<Rightarrow> expr set" where
  "all_exprs fs = (\<Union>f \<in> set fs. set (exprs f))"

lemma all_exprs_simps [simp]:
  "all_exprs [] = {}" "all_exprs (f # fs) = set (exprs f) \<union> all_exprs fs" "all_exprs (fs @ gs) = all_exprs fs \<union> all_exprs gs"
  by (auto simp: all_exprs_def)

primrec apart :: "element_set list \<Rightarrow> bool" where
  "apart [] \<longleftrightarrow> True"
| "apart (f # fs) \<longleftrightarrow> (\<forall>g \<in> set fs. \<not> elements_intersect f g) \<and> apart fs"

lemma apart_append:
  "apart (fs @ gs) \<longleftrightarrow> apart fs \<and> apart gs \<and> (\<forall>f \<in> set fs. \<forall>g \<in> set gs. \<not> elements_intersect f g)"
  by (induction fs) auto

text \<open>The arrays of a sum are those of its parts.\<close>

lemma arrays_add_whole: "set_arrays (snd (add_whole a ms)) \<subseteq> insert a (set_arrays (snd ms))"
  by (cases ms) (auto simp: add_whole_def set_arrays_def erase_element_def)

lemma arrays_add_elements: "set_arrays (snd (add_elements ads ms)) \<subseteq> insert (fst ads) (set_arrays (snd ms))"
proof -
  obtain a ds m s where e: "ads = (a, ds)" "ms = (m, s)" by (metis prod.exhaust)
  have u: "fst ` set (AList.update a v (elements s)) = insert a (fst ` set (elements s))" for v
    by (simp add: dom_update)
  show ?thesis
  proof (cases "map_of (elements s) a")
    case None
    then show ?thesis by (simp add: e add_elements_def set_arrays_def) blast
  next
    case (Some ds')
    then show ?thesis using u by (simp add: e add_elements_def set_arrays_def) blast
  qed
qed

lemma arrays_fold_whole: "set_arrays (snd (fold add_whole as ms)) \<subseteq> set as \<union> set_arrays (snd ms)"
proof (induction as arbitrary: ms)
  case (Cons a as)
  have "fold add_whole (a # as) ms = fold add_whole as (add_whole a ms)" by simp
  with Cons [of "add_whole a ms"] arrays_add_whole [of a ms] show ?case by (simp del: fold.simps) blast
qed simp

lemma arrays_fold_elements: "set_arrays (snd (fold add_elements es ms)) \<subseteq> fst ` set es \<union> set_arrays (snd ms)"
proof (induction es arbitrary: ms)
  case (Cons ads es)
  have "fold add_elements (ads # es) ms = fold add_elements es (add_elements ads ms)" by simp
  with Cons [of "add_elements ads ms"] arrays_add_elements [of ads ms] show ?case by (simp del: fold.simps) blast
qed simp

lemma arrays_add_set:
  assumes "add_set s b = (m, s')" shows "set_arrays s' \<subseteq> set_arrays s \<union> set_arrays b"
proof -
  let ?ms = "fold add_whole (wholeObjects b) (False, s\<lparr>exprs := exprs s @ exprs b\<rparr>)"
  have "set_arrays s' \<subseteq> fst ` set (elements b) \<union> set_arrays (snd ?ms)"
    using arrays_fold_elements [of "elements b" ?ms] assms by (simp add: add_set_def)
  moreover have "set_arrays (snd ?ms) \<subseteq> set (wholeObjects b) \<union> set_arrays s"
    using arrays_fold_whole [of "wholeObjects b" "(False, s\<lparr>exprs := exprs s @ exprs b\<rparr>)"] by (simp add: set_arrays_def)
  ultimately show ?thesis by (simp add: set_arrays_def [of b]) blast
qed

lemma good_set_add:
  assumes "add_set s b = (m, s')" "good_set s" "good_set b" shows "good_set s'"
proof -
  have "\<forall>a \<in> set_arrays s'. byte_array a"
    using arrays_add_set [OF assms(1)] assms(2,3) unfolding good_set_def by blast
  moreover have "touches e \<subseteq> touched s'" if "e \<in> set (exprs s')" for e
    using add_set_touched [OF assms(1)] assms(2,3) that by (auto simp: good_set_def) blast+
  ultimately show ?thesis by (simp add: good_set_def)
qed

lemma absorb_right:
  "\<lbrakk>absorb ss d cur keep = (d', cur', keep'); \<forall>s \<in> set ss \<union> set keep. good_set s; good_set cur;
    d \<longrightarrow> (\<forall>s \<in> set keep. \<not> elements_intersect cur s)\<rbrakk> \<Longrightarrow>
   good_set cur' \<and> set keep' \<subseteq> set keep \<union> set ss \<and>
   set (exprs cur') \<union> all_exprs keep' = set (exprs cur) \<union> all_exprs keep \<union> all_exprs ss \<and>
   (d' \<longrightarrow> d \<and> elements cur' = elements cur \<and> wholeObjects cur' = wholeObjects cur \<and>
     (\<forall>s \<in> set keep'. \<not> elements_intersect cur' s))"
proof (induction ss arbitrary: d cur keep)
  case (Cons s ss)
  show ?case
  proof (cases "elements_intersect cur s")
    case True
    obtain m c where a: "add_set cur s = (m, c)" by fastforce
    note t = add_set_touched [OF a]
    have r: "absorb ss (d \<and> \<not> m) c keep = (d', cur', keep')" using True a Cons.prems(1) by simp
    have "good_set c" using good_set_add [OF a] Cons.prems by simp
    moreover have "d \<and> \<not> m \<longrightarrow> (\<forall>s \<in> set keep. \<not> elements_intersect c s)"
      using Cons.prems(4) t intersect_same [of c cur] by auto
    ultimately show ?thesis using Cons.IH [OF r] Cons.prems(2) t by auto
  next
    case False
    with Cons.prems(1) have r: "absorb ss d cur (keep @ [s]) = (d', cur', keep')" by simp
    from Cons.IH [OF r] Cons.prems False show ?thesis by auto
  qed
qed simp

lemma factor_pass_right:
  "\<lbrakk>factor_pass fs d out = (d', out'); \<forall>s \<in> set fs \<union> set out. good_set s;
    d \<longrightarrow> apart out \<and> (\<forall>g \<in> set out. \<forall>f \<in> set fs. \<not> elements_intersect g f)\<rbrakk> \<Longrightarrow>
   (\<forall>s \<in> set out'. good_set s) \<and> all_exprs out' = all_exprs fs \<union> all_exprs out \<and> (d' \<longrightarrow> apart out')"
proof (induction fs d out rule: factor_pass.induct)
  case (2 cur fs d out)
  obtain d1 c keep where a: "absorb fs d cur [] = (d1, c, keep)" by (metis prod_cases3)
  have r: "factor_pass keep d1 (out @ [c]) = (d', out')" using 2(2) a by simp
  have g: "\<forall>s \<in> set fs \<union> set []. good_set s" "good_set cur" using 2(3) by auto
  note t = absorb_right [OF a g]
  have "d1 \<longrightarrow> apart (out @ [c]) \<and> (\<forall>g \<in> set (out @ [c]). \<forall>f \<in> set keep. \<not> elements_intersect g f)"
    using t 2(4) intersect_same [of c cur] by (auto simp: apart_append)
  moreover have "\<forall>s \<in> set keep \<union> set (out @ [c]). good_set s" using t 2(3) by auto
  ultimately have "(\<forall>s \<in> set out'. good_set s) \<and> all_exprs out' = all_exprs keep \<union> all_exprs (out @ [c]) \<and> (d' \<longrightarrow> apart out')"
    using 2(1) [OF a [symmetric] refl r] by blast
  with t show ?case by auto
qed simp

lemma factor_loop_right:
  "\<forall>s \<in> set fs. good_set s \<Longrightarrow>
   (\<forall>s \<in> set (factor_loop fs). good_set s) \<and> all_exprs (factor_loop fs) = all_exprs fs \<and> apart (factor_loop fs)"
proof (induction fs rule: factor_loop.induct)
  case (1 fs)
  obtain d out where p: "factor_pass fs True [] = (d, out)" by fastforce
  note t = factor_pass_right [OF p]
  show ?case
  proof (cases d)
    case True
    with p t 1(2) show ?thesis by (simp add: factor_loop.simps)
  next
    case False
    with p have "factor_loop fs = factor_loop out" by (simp add: factor_loop.simps [of fs])
    with 1(1) [OF p [symmetric] False] t 1(2) show ?thesis by simp
  qed
qed

subsection \<open>Answers of unrelated factors fit together\<close>

lemma set_references [simp]: "set (calculateArrayReferences f) = set_arrays f"
  by (auto simp: calculateArrayReferences_def set_arrays_def)

lemma touched_arrays: "(a, i) \<in> touched f \<Longrightarrow> a \<in> set_arrays f"
  by (auto simp: touched_def set_arrays_def dest: map_of_SomeD intro: rev_image_eqI)

lemma update_bytes_nth:
  assumes "update_bytes ds old new = Some b"
  shows "length b = length old \<and>
    (\<forall>k < length old. b ! k = (if int k \<in> uint ` ds then new ! k else old ! k))"
proof -
  have "uint x = int (unat x)" for x :: u32 by simp
  then have "k \<in> unat ` ds \<longleftrightarrow> int k \<in> uint ` ds" for k
    unfolding image_iff by (metis of_nat_eq_iff)
  with assms show ?thesis by (auto simp: update_bytes_def split: if_splits)
qed

text \<open>What one more factor, answered from \<open>\<tau>\<close>, does to the bytes of an array.\<close>

definition bytes_of :: "assignment \<Rightarrow> array \<Rightarrow> byte list \<Rightarrow> bool" where
  "bytes_of \<tau> a bytes \<longleftrightarrow> length bytes = arr_size a \<and>
     (isSymbolicArray a \<longrightarrow> (\<forall>i < arr_size a. uint (bytes ! i) = \<tau> a (int i)))"

definition stored :: "element_set \<Rightarrow> assignment \<Rightarrow> byte_map \<Rightarrow> byte_map \<Rightarrow> array \<Rightarrow> bool" where
  "stored f \<tau> ret ret' a \<longleftrightarrow> (case ret a of
     None \<Rightarrow> \<exists>b. ret' a = Some b \<and> bytes_of \<tau> a b
   | Some old \<Rightarrow> \<exists>b. ret' a = Some b \<and> length b = length old \<and> length old = arr_size a \<and>
       (isSymbolicArray a \<longrightarrow> (\<forall>i < arr_size a. uint (b ! i) =
         (if \<exists>ds. map_of (elements f) a = Some ds \<and> int i \<in> uint ` ds then \<tau> a (int i) else uint (old ! i)))))"

lemma stored_upd: "a \<noteq> b \<Longrightarrow> stored f \<tau> (ret(b \<mapsto> v)) ret' a = stored f \<tau> ret ret' a"
  by (simp add: stored_def)

lemma store_values_right:
  "\<lbrakk>store_values f as vals ret = Some ret'; distinct as; list_all2 (bytes_of \<tau>) as vals\<rbrakk> \<Longrightarrow>
   dom ret' = dom ret \<union> set as \<and> (\<forall>a. a \<notin> set as \<longrightarrow> ret' a = ret a) \<and> (\<forall>a \<in> set as. stored f \<tau> ret ret' a)"
proof (induction as arbitrary: vals ret)
  case Nil
  then show ?case by (auto split: if_splits)
next
  case (Cons a as)
  from Cons.prems(3) obtain v vals' where v: "vals = v # vals'" "bytes_of \<tau> a v" and rest: "list_all2 (bytes_of \<tau>) as vals'"
    by (auto simp: list_all2_Cons1)
  have d: "distinct as" "a \<notin> set as" using Cons.prems(2) by simp_all
  show ?case
  proof (cases "ret a")
    case None
    with Cons.prems(1) v have s: "store_values f as vals' (ret(a \<mapsto> v)) = Some ret'" by simp
    note ih = Cons.IH [OF s d(1) rest]
    have "stored f \<tau> ret ret' a" using ih d(2) None v(2) by (simp add: stored_def)
    moreover have "\<forall>c \<in> set as. stored f \<tau> ret ret' c" using ih d(2) stored_upd by metis
    ultimately show ?thesis using ih by auto
  next
    case (Some old)
    let ?ds = "case map_of (elements f) a of Some ds \<Rightarrow> ds | None \<Rightarrow> {}"
    from Some Cons.prems(1) v obtain b where b: "update_bytes ?ds old v = Some b" "length old = length v"
      and s: "store_values f as vals' (ret(a \<mapsto> b)) = Some ret'"
      by (auto split: if_splits bind_splits)
    note ih = Cons.IH [OF s d(1) rest]
    have "stored f \<tau> ret ret' a"
      using ih d(2) Some v(2) b(2) update_bytes_nth [OF b(1)] by (auto simp: stored_def bytes_of_def split: option.splits)
    moreover have "\<forall>c \<in> set as. stored f \<tau> ret ret' c" using ih d(2) stored_upd by metis
    ultimately show ?thesis using ih by auto
  qed
qed

text \<open>The bytes collected so far are those of an assignment \<open>\<rho>\<close> that satisfies the factors done, wherever they touch.\<close>

definition collected :: "element_set list \<Rightarrow> assignment \<Rightarrow> byte_map \<Rightarrow> bool" where
  "collected done_fs \<rho> ret \<longleftrightarrow> assign_ok \<rho> \<and> (\<forall>e \<in> all_exprs done_fs. eval \<rho> e = 1) \<and>
     dom ret = (\<Union>f \<in> set done_fs. set_arrays f) \<and>
     (\<forall>a bytes. ret a = Some bytes \<longrightarrow> length bytes = arr_size a \<and>
       (isSymbolicArray a \<longrightarrow> (\<forall>i < arr_size a. (\<exists>f \<in> set done_fs. (a, int i) \<in> touched f) \<longrightarrow>
         uint (bytes ! i) = \<rho> a (int i))))"

lemma stored_value:
  assumes "stored f \<tau> ret ret' a" "ret' a = Some b" "isSymbolicArray a" "i < arr_size a" "ret a = Some old \<Longrightarrow> length old = arr_size a"
  shows "length b = arr_size a \<and> uint (b ! i) =
    (if ret a = None \<or> (\<exists>ds. map_of (elements f) a = Some ds \<and> int i \<in> uint ` ds) then \<tau> a (int i)
     else uint (the (ret a) ! i))"
  using assms by (cases "ret a") (auto simp: stored_def bytes_of_def)

lemma collected_step:
  assumes c: "collected fs \<rho> ret" and f: "good_set f" "\<forall>g \<in> set fs. good_set g" "\<forall>g \<in> set fs. \<not> elements_intersect g f"
    and b: "\<forall>e \<in> set (exprs f) \<union> all_exprs fs. const_in_bounds e"
    and t: "assign_ok \<tau>" "\<forall>e \<in> set (exprs f). eval \<tau> e = 1"
    and st: "dom ret' = dom ret \<union> set_arrays f" "\<forall>a. a \<notin> set_arrays f \<longrightarrow> ret' a = ret a" "\<forall>a \<in> set_arrays f. stored f \<tau> ret ret' a"
  shows "collected (fs @ [f]) (merge (touched f) \<tau> \<rho>) ret'"
proof -
  let ?\<rho> = "merge (touched f) \<tau> \<rho>"
  have ok: "assign_ok \<rho>" using c by (simp add: collected_def)
  have dis: "touched g \<inter> touched f = {}" if "g \<in> set fs" for g using f(3) that not_intersect by blast
  have "eval ?\<rho> e = 1" if e: "e \<in> all_exprs (fs @ [f])" for e
  proof (cases "e \<in> set (exprs f)")
    case True
    then have "touches e \<subseteq> touched f" using f(1) by (simp add: good_set_def)
    with eval_merge(1) [OF t(1) ok] b t(2) True show ?thesis by simp
  next
    case False
    with e obtain g where g: "g \<in> set fs" "e \<in> set (exprs g)" by (auto simp: all_exprs_def)
    then have "touches e \<subseteq> touched g" using f(2) by (auto simp: good_set_def)
    with dis [OF g(1)] have "touches e \<inter> touched f = {}" by blast
    moreover have "e \<in> all_exprs fs" using g by (auto simp: all_exprs_def)
    ultimately show ?thesis using eval_merge(2) [OF t(1) ok] b c by (simp add: collected_def)
  qed
  moreover have "length bytes = arr_size a \<and> (isSymbolicArray a \<longrightarrow> (\<forall>i < arr_size a.
      (\<exists>g \<in> set (fs @ [f]). (a, int i) \<in> touched g) \<longrightarrow> uint (bytes ! i) = ?\<rho> a (int i)))"
    if r: "ret' a = Some bytes" for a bytes
  proof (cases "a \<in> set_arrays f")
    case False
    then have "ret a = Some bytes" using st(2) r by simp
    moreover have "(a, j) \<notin> touched f" for j using touched_arrays False by blast
    ultimately show ?thesis using c by (auto simp: collected_def merge_def)
  next
    case True
    then have sf: "stored f \<tau> ret ret' a" using st(3) by blast
    have len: "length bytes = arr_size a" using sf r by (auto simp: stored_def bytes_of_def split: option.splits)
    have "uint (bytes ! i) = ?\<rho> a (int i)"
      if i: "isSymbolicArray a" "i < arr_size a" "\<exists>g \<in> set (fs @ [f]). (a, int i) \<in> touched g" for i
    proof (cases "ret a")
      case None
      then have "a \<notin> (\<Union>g \<in> set fs. set_arrays g)" using c by (auto simp: collected_def)
      with i(3) touched_arrays have "(a, int i) \<in> touched f" by (auto dest: touched_arrays)
      with None sf r i show ?thesis by (simp add: stored_def bytes_of_def merge_def)
    next
      case (Some old)
      then have "a \<in> dom ret" by auto
      with c obtain g where g: "g \<in> set fs" "a \<in> set_arrays g" unfolding collected_def by auto
      have nw: "a \<notin> set (wholeObjects f)"
      proof
        assume w: "a \<in> set (wholeObjects f)"
        have "elements_intersect g f"
        proof (cases "a \<in> set (wholeObjects g)")
          case True
          with w show ?thesis by (auto simp: elements_intersect_def)
        next
          case False
          with g(2) obtain ds where "(a, ds) \<in> set (elements g)" by (auto simp: set_arrays_def)
          with w show ?thesis unfolding elements_intersect_def by blast
        qed
        with f(3) g(1) show False by blast
      qed
      have old: "length old = arr_size a" using c Some by (simp add: collected_def)
      have new: "uint (bytes ! i) = (if \<exists>ds. map_of (elements f) a = Some ds \<and> int i \<in> uint ` ds then \<tau> a (int i) else uint (old ! i))"
        using stored_value [OF sf r i(1,2)] old Some by auto
      show ?thesis
      proof (cases "(a, int i) \<in> touched f")
        case True
        with nw new show ?thesis by (auto simp: touched_def merge_def)
      next
        case False
        with i(3) have "\<exists>g \<in> set fs. (a, int i) \<in> touched g" by auto
        with c Some i(1,2) have "uint (old ! i) = \<rho> a (int i)" by (simp add: collected_def)
        with False new show ?thesis by (auto simp: touched_def merge_def)
      qed
    qed
    with len show ?thesis by blast
  qed
  moreover have "dom ret' = (\<Union>g \<in> set (fs @ [f]). set_arrays g)" using st(1) c by (auto simp: collected_def)
  ultimately show ?thesis using merge_ok [OF t(1) ok] by (simp add: collected_def)
qed

subsection \<open>The contract is kept\<close>

text \<open>A factor that reads nothing is not given to the solver, so it has to be true anyway.\<close>

definition grounded :: "expr \<Rightarrow> bool" where
  "grounded e \<longleftrightarrow> (touches e = {} \<longrightarrow> (\<forall>\<sigma>. assign_ok \<sigma> \<longrightarrow> eval \<sigma> e = 1))"

definition factor_exprs :: "'z expr_env_scheme \<Rightarrow> query \<Rightarrow> expr set" where
  "factor_exprs K q = (if is_constant (q_expr q) then {} else {createIsZero K (q_expr q)}) \<union> set (q_constraints q)"

definition independent_accepts :: "'z expr_env_scheme \<Rightarrow> (query \<Rightarrow> bool) \<Rightarrow> query \<Rightarrow> bool" where
  "independent_accepts K accepts q \<longleftrightarrow>
     query_wt q \<and> ind_expr (q_expr q) \<and>
     (\<forall>cs. set cs \<subseteq> set (q_constraints q) \<longrightarrow> accepts (q\<lparr>q_constraints := cs\<rparr>)) \<and>
     (\<forall>cs. set cs \<subseteq> factor_exprs K q \<longrightarrow> accepts \<lparr>q_constraints = cs, q_expr = ConstantExpr (APInt 1 0)\<rparr>) \<and>
     (\<forall>e \<in> factor_exprs K q. ind_expr e \<and> grounded e \<and> (\<forall>a \<in> read_arrays (all_reads e). byte_array a))"

lemma set_arrays_add: "set_arrays (s\<lparr>elements := add_element a i (elements s)\<rparr>) = insert a (set_arrays s)"
proof -
  have "fst ` set (add_element a i es) = insert a (fst ` set es)" for es
    by (induction a i es rule: add_element.induct) auto
  then show ?thesis by (simp add: set_arrays_def)
qed

lemma note_read_arrays: "note_read r s = Some s' \<Longrightarrow> set_arrays s' \<subseteq> set_arrays s \<union> read_arrays {r}"
  by (cases r) (auto simp: note_read_def set_arrays_add split: if_splits option.splits bind_splits,
    auto simp: set_arrays_def erase_element_def)

lemma note_reads_arrays: "note_reads rs s = Some s' \<Longrightarrow> set_arrays s' \<subseteq> set_arrays s \<union> read_arrays (set rs)"
proof (induction rs arbitrary: s)
  case (Cons r rs)
  then obtain s1 where s1: "note_read r s = Some s1" "note_reads rs s1 = Some s'" by (auto split: bind_splits)
  have "read_arrays (set (r # rs)) = read_arrays {r} \<union> read_arrays (set rs)" by (auto simp: read_arrays_def)
  with note_read_arrays [OF s1(1)] Cons.IH [OF s1(2)] show ?case by blast
qed simp

lemma newElementSet_good:
  assumes "newElementSet e = Some s" "ind_expr e" "\<forall>a \<in> read_arrays (all_reads e). byte_array a"
  shows "good_set s \<and> exprs s = [e]"
proof -
  have "set_arrays s \<subseteq> read_arrays (all_reads e)"
    using note_reads_arrays [OF assms(1) [unfolded newElementSet_def]] by (simp add: findReads_all set_arrays_def)
  with newElementSet_touched [OF assms(1)] assms(2,3) show ?thesis by (auto simp: good_set_def ind_expr_def)
qed

lemma element_sets_good:
  "element_sets es = Some ss \<Longrightarrow> \<forall>e \<in> set es. ind_expr e \<and> (\<forall>a \<in> read_arrays (all_reads e). byte_array a) \<Longrightarrow>
   (\<forall>s \<in> set ss. good_set s) \<and> all_exprs ss = set es"
proof (induction es arbitrary: ss)
  case (Cons e es)
  then obtain s ss' where s: "newElementSet e = Some s" "element_sets es = Some ss'" "ss = s # ss'"
    by (auto split: bind_splits)
  from newElementSet_good [OF s(1)] Cons.IH [OF s(2)] Cons.prems(2) s(3) show ?case by auto
qed simp

text \<open>The factors partition the constraints and the negated query.\<close>

lemma factors_right:
  assumes "getAllIndependentConstraintsSets K q = Some fs"
    "\<forall>e \<in> factor_exprs K q. ind_expr e \<and> (\<forall>a \<in> read_arrays (all_reads e). byte_array a)"
  shows "(\<forall>f \<in> set fs. good_set f) \<and> all_exprs fs = factor_exprs K q \<and> apart fs \<and>
    (is_constant (q_expr q) \<longrightarrow> is_false (q_expr q))"
proof -
  obtain first ss where f: "element_sets (q_constraints q) = Some ss" "fs = factor_loop (first @ ss)"
    and first: "case as_const (q_expr q) of
       Some c \<Rightarrow> ap_isFalse c \<and> first = []
     | None \<Rightarrow> \<exists>s. newElementSet (createIsZero K (q_expr q)) = Some s \<and> first = [s]"
    using assms(1) by (auto simp: getAllIndependentConstraintsSets_def split: bind_splits option.splits if_splits)
  note ss = element_sets_good [OF f(1)]
  have c: "\<forall>e \<in> set (q_constraints q). ind_expr e \<and> (\<forall>a \<in> read_arrays (all_reads e). byte_array a)"
    using assms(2) unfolding factor_exprs_def by blast
  have "(\<forall>s \<in> set (first @ ss). good_set s) \<and> all_exprs (first @ ss) = factor_exprs K q \<and>
    (is_constant (q_expr q) \<longrightarrow> is_false (q_expr q))"
  proof (cases "as_const (q_expr q)")
    case None
    then have n: "\<not> is_constant (q_expr q)" by (simp add: as_const_None)
    with None first obtain s where s: "newElementSet (createIsZero K (q_expr q)) = Some s" "first = [s]" by auto
    have "ind_expr (createIsZero K (q_expr q))" "\<forall>a \<in> read_arrays (all_reads (createIsZero K (q_expr q))). byte_array a"
      using assms(2) n by (simp_all add: factor_exprs_def)
    with newElementSet_good [OF s(1)] ss c s(2) n show ?thesis by (simp add: factor_exprs_def)
  next
    case (Some x)
    with first ss c show ?thesis by (auto simp: factor_exprs_def as_const_Some)
  qed
  with factor_loop_right [of "first @ ss"] f(2) show ?thesis by simp
qed

context solver_laws
begin

lemma solve_factors_right:
  "\<lbrakk>solve_factors K S fs ret s = Some (out, s'); inv s; \<forall>f \<in> set (gs @ fs). good_set f; apart (gs @ fs);
    \<forall>e \<in> all_exprs (gs @ fs). const_in_bounds e \<and> grounded e; all_exprs (gs @ fs) \<subseteq> E;
    \<forall>cs. set cs \<subseteq> E \<longrightarrow> accepts \<lparr>q_constraints = cs, q_expr = ConstantExpr (APInt 1 0)\<rparr>; collected gs \<rho> ret\<rbrakk> \<Longrightarrow>
   inv s' \<and> (case out of
      Failed h \<Rightarrow> True
    | NoSolution \<Rightarrow> \<exists>f \<in> set fs. \<not> (\<exists>\<sigma>. assign_ok \<sigma> \<and> (\<forall>e \<in> set (exprs f). eval \<sigma> e = 1))
    | Solved ret' \<Rightarrow> \<exists>\<rho>'. collected (gs @ fs) \<rho>' ret')"
proof (induction fs arbitrary: gs ret s \<rho>)
  case Nil
  then show ?case by auto
next
  case (Cons f fs)
  let ?q = "\<lparr>q_constraints = exprs f, q_expr = ConstantExpr (APInt 1 0)\<rparr>"
  have g: "good_set f" "\<forall>g \<in> set gs. good_set g" "\<forall>g \<in> set gs. \<not> elements_intersect g f"
    and b: "\<forall>e \<in> set (exprs f) \<union> all_exprs gs. const_in_bounds e"
    using Cons.prems(3-5) by (auto simp: apart_append)
  have pre: "(gs @ [f]) @ fs = gs @ f # fs" by simp
  show ?case
  proof (cases "calculateArrayReferences f = []")
    case True
    then have r: "solve_factors K S fs ret s = Some (out, s')" using Cons.prems(1) by (auto split: if_splits)
    have na: "set_arrays f = {}" using True set_references [of f] by simp
    then have nt: "touched f = {}" by (auto dest: touched_arrays)
    have "eval \<rho> e = 1" if "e \<in> set (exprs f)" for e
    proof -
      have "touches e = {}" using g(1) nt that by (auto simp: good_set_def)
      with Cons.prems(5,8) that show ?thesis by (auto simp: grounded_def collected_def)
    qed
    with Cons.prems(8) na nt have "collected (gs @ [f]) \<rho> ret" by (auto simp: collected_def)
    from Cons.IH [OF r Cons.prems(2), of "gs @ [f]", unfolded pre, OF Cons.prems(3-7) this]
    show ?thesis by (cases out) auto
  next
    case False
    then obtain ok h vals s1 where
      i: "computeInitialValues S ?q (calculateArrayReferences f) [] s = Some ((ok, h, vals), s1)"
      and k: "(let hasSolution = (case h of Some b \<Rightarrow> b | None \<Rightarrow> True) in
          if \<not> ok then Some (Failed hasSolution, s1)
          else if \<not> hasSolution then Some (NoSolution, s1)
          else do { retMap \<leftarrow> store_values f (calculateArrayReferences f) vals ret; solve_factors K S fs retMap s1 }) = Some (out, s')"
      using Cons.prems(1) by (auto simp: Let_def split: if_splits bind_splits)
    have acc: "accepts ?q" using Cons.prems(6,7) by (auto simp: all_exprs_def)
    have arrs: "\<forall>a \<in> set (calculateArrayReferences f). byte_array a" using g(1) by (auto simp: good_set_def)
    have law: "inv s1 \<and> (ok \<longrightarrow> h = Some (\<not> valid ?q) \<and> (h = Some True \<longrightarrow> solves ?q (calculateArrayReferences f) vals))"
      by (rule initial_ok [OF Cons.prems(2) acc _ arrs i]) (simp add: bv_width_def)
    show ?thesis
    proof (cases "ok \<and> h = Some True")
      case False
      show ?thesis
      proof (cases ok)
        case True
        with False law have "h = Some False" "valid ?q" by auto
        then have "\<not> (\<exists>\<sigma>. assign_ok \<sigma> \<and> (\<forall>e \<in> set (exprs f). eval \<sigma> e = 1))"
          by (auto simp: valid_def holds_def)
        with True \<open>h = Some False\<close> k law show ?thesis by auto
      qed (use k law in \<open>auto simp: Let_def\<close>)
    next
      case True
      with k obtain ret1 where st: "store_values f (calculateArrayReferences f) vals ret = Some ret1"
        and r: "solve_factors K S fs ret1 s1 = Some (out, s')"
        by (auto split: bind_splits)
      from True law obtain \<tau> where t: "assign_ok \<tau>" "holds \<tau> (exprs f)"
        "list_all2 (\<lambda>a bytes. length bytes = arr_size a \<and>
          (isSymbolicArray a \<longrightarrow> (\<forall>i < arr_size a. uint (bytes ! i) = initial_value \<tau> a (int i)))) (calculateArrayReferences f) vals"
        by (auto simp: solves_def)
      have "list_all2 (bytes_of \<tau>) (calculateArrayReferences f) vals"
        using t(3) by (rule list_all2_mono) (auto simp: bytes_of_def initial_value_def isConstantArray_def)
      from store_values_right [OF st _ this]
      have "collected (gs @ [f]) (merge (touched f) \<tau> \<rho>) ret1"
        using collected_step [OF Cons.prems(8) g b t(1)] t(2)
        by (simp add: holds_def calculateArrayReferences_def set_arrays_def Un_commute)
      from Cons.IH [OF r _, of "gs @ [f]", unfolded pre, OF _ Cons.prems(3-7) this] law
      show ?thesis by (cases out) auto
    qed
  qed
qed

end

text \<open>Bytes no factor touches can be whatever the map, or zero, gives.\<close>

lemma collected_solves:
  assumes c: "collected fs \<rho> ret" and g: "\<forall>f \<in> set fs. good_set f" and b: "\<forall>e \<in> all_exprs fs. const_in_bounds e"
    and arrs: "\<forall>a \<in> set arrs. byte_array a"
  shows "\<exists>\<tau>. assign_ok \<tau> \<and> (\<forall>e \<in> all_exprs fs. eval \<tau> e = 1) \<and>
    list_all2 (\<lambda>a bytes. length bytes = arr_size a \<and>
      (isSymbolicArray a \<longrightarrow> (\<forall>i < arr_size a. uint (bytes ! i) = initial_value \<tau> a (int i)))) arrs (map (object_bytes ret) arrs)"
proof -
  let ?T = "\<Union>f \<in> set fs. touched f"
  let ?\<sigma> = "\<lambda>a i. case ret a of
    Some bytes \<Rightarrow> if arr_range a = 8 \<and> 0 \<le> i \<and> i < int (length bytes) then uint (bytes ! nat i) else 0 | None \<Rightarrow> 0"
  let ?\<tau> = "merge ?T \<rho> ?\<sigma>"
  have "inr 8 (uint b)" for b :: byte using uint_lt2p [of b] by (simp add: inr_def)
  then have ok: "assign_ok ?\<sigma>" by (auto simp: assign_ok_def split: option.split)
  have rho: "assign_ok \<rho>" using c by (simp add: collected_def)
  have "eval ?\<tau> e = 1" if e: "e \<in> all_exprs fs" for e
  proof -
    from e obtain h where "h \<in> set fs" "e \<in> set (exprs h)" by (auto simp: all_exprs_def)
    with g have "touches e \<subseteq> ?T" by (auto simp: good_set_def)
    with eval_merge(1) [OF rho ok] b e c show ?thesis by (simp add: collected_def)
  qed
  moreover have "length (object_bytes ret a) = arr_size a \<and>
    (isSymbolicArray a \<longrightarrow> (\<forall>i < arr_size a. uint (object_bytes ret a ! i) = initial_value ?\<tau> a (int i)))"
    if a: "a \<in> set arrs" for a
  proof (cases "ret a")
    case None
    with c have "a \<notin> set_arrays f" if "f \<in> set fs" for f using that by (auto simp: collected_def)
    then have "(a, i) \<notin> ?T" for i by (auto dest: touched_arrays)
    with None show ?thesis by (simp add: object_bytes_def merge_def initial_value_def isConstantArray_def)
  next
    case (Some bs)
    have "arr_range a = 8" using arrs a by (simp add: byte_array_def)
    moreover have "length bs = arr_size a" using c Some by (simp add: collected_def)
    moreover have "uint (bs ! i) = \<rho> a (int i)" if "isSymbolicArray a" "i < arr_size a" "(a, int i) \<in> ?T" for i
      using c Some that by (auto simp: collected_def)
    ultimately show ?thesis
      using Some by (auto simp: object_bytes_def merge_def initial_value_def isConstantArray_def)
  qed
  ultimately show ?thesis using merge_ok [OF rho ok] by (intro exI [of _ ?\<tau>]) (simp add: list_all2_conv_all_nth)
qed

text \<open>An assignment of the required constraints extends to all constraints.\<close>

lemma required_extends:
  assumes "getIndependentConstraints q = Some (clo, req)" "ind_expr (q_expr q)" "\<forall>c \<in> set (q_constraints q). ind_expr c"
    and "satisfiable q" "assign_ok \<sigma>" "holds \<sigma> req"
  shows "\<exists>\<tau>. assign_ok \<tau> \<and> holds \<tau> (q_constraints q) \<and> eval \<tau> (q_expr q) = eval \<sigma> (q_expr q)"
proof -
  note r = independent_constraints [OF assms(1-3)]
  obtain \<sigma>0 where 0: "assign_ok \<sigma>0" "holds \<sigma>0 (q_constraints q)" using assms(4) by (auto simp: satisfiable_def)
  let ?\<tau> = "merge (touched clo) \<sigma> \<sigma>0"
  have "eval ?\<tau> c = 1" if c: "c \<in> set (q_constraints q)" for c
  proof (cases "c \<in> set req")
    case True
    with r assms(3,6) c eval_merge(1) [OF assms(5) 0(1), of c "touched clo"] show ?thesis
      by (simp add: holds_def ind_expr_def)
  next
    case False
    with r assms(3) 0(2) c eval_merge(2) [OF assms(5) 0(1), of c "touched clo"] show ?thesis
      by (auto simp: holds_def ind_expr_def)
  qed
  moreover have "eval ?\<tau> (q_expr q) = eval \<sigma> (q_expr q)"
    using r assms(2) eval_merge(1) [OF assms(5) 0(1)] by (simp add: ind_expr_def)
  ultimately show ?thesis using merge_ok [OF assms(5) 0(1)] by (auto simp: holds_def)
qed

lemma required_query_same:
  assumes "required_query q = Some q'" "ind_expr (q_expr q)" "\<forall>c \<in> set (q_constraints q). ind_expr c" "satisfiable q"
  shows "q_expr q' = q_expr q \<and> satisfiable q' \<and> (valid q' \<longleftrightarrow> valid q) \<and> validity_of q' = validity_of q \<and>
    (feasible q' e \<longrightarrow> feasible q e) \<and>
    (\<exists>req. set req \<subseteq> set (q_constraints q) \<and> q' = q\<lparr>q_constraints := req\<rparr>)"
proof -
  obtain clo req where g: "getIndependentConstraints q = Some (clo, req)" and q': "q' = q\<lparr>q_constraints := req\<rparr>"
    using assms(1) by (auto simp: required_query_def)
  have sub: "set req \<subseteq> set (q_constraints q)" using independent_constraints [OF g assms(2,3)] by blast
  then have down: "holds \<sigma> req" if "holds \<sigma> (q_constraints q)" for \<sigma> using that by (auto simp: holds_def)
  note up = required_extends [OF g assms(2-4)]
  have v: "valid q' \<longleftrightarrow> valid q" "valid_false q' \<longleftrightarrow> valid_false q"
    unfolding valid_def valid_false_def q' using down up by auto metis+
  have "feasible q' e \<longrightarrow> feasible q e" unfolding feasible_def q' using up by auto metis
  moreover have "satisfiable q'" using assms(4) down by (auto simp: satisfiable_def q')
  ultimately show ?thesis using v sub by (auto simp: q' validity_of_def)
qed

locale independent = S: solver_laws K S inv accepts
  for K :: "'z expr_env_scheme" and S :: "'s solver_impl" and inv :: "'s \<Rightarrow> bool" and accepts :: "query \<Rightarrow> bool"
begin

lemma accepts_required:
  assumes "independent_accepts K accepts q" "required_query q = Some q'" "satisfiable q"
  shows "accepts q' \<and> q_expr q' = q_expr q \<and> satisfiable q' \<and> (valid q' \<longleftrightarrow> valid q) \<and> validity_of q' = validity_of q \<and>
    (feasible q' e \<longrightarrow> feasible q e) \<and> (\<exists>req. set req \<subseteq> set (q_constraints q) \<and> q' = q\<lparr>q_constraints := req\<rparr>)"
proof -
  have "ind_expr (q_expr q)" "\<forall>c \<in> set (q_constraints q). ind_expr c"
    using assms(1) by (auto simp: independent_accepts_def factor_exprs_def)
  from required_query_same [OF assms(2) this assms(3), of e] assms(1) show ?thesis
    by (auto simp: independent_accepts_def)
qed

lemma initial_values_right:
  assumes "inv s" "independent_accepts K accepts q" "getWidth (q_expr q) = 1"
    and "independent_computeInitialValues K S q arrs [] s = Some ((ok, h, vals), s')"
    and "\<forall>a \<in> set arrs. byte_array a"
  shows "inv s' \<and> (ok \<longrightarrow> h = Some (\<not> valid q) \<and> (h = Some True \<longrightarrow> solves q arrs vals))"
proof -
  let ?E = "factor_exprs K q"
  obtain fs out s1 where fs: "getAllIndependentConstraintsSets K q = Some fs"
    "solve_factors K S fs Map.empty s = Some (out, s1)"
    and k: "(case out of
       Failed h \<Rightarrow> Some ((False, Some h, []), s1)
     | NoSolution \<Rightarrow> Some ((True, Some False, []), s1)
     | Solved retMap \<Rightarrow>
         let vals = [] @ map (object_bytes retMap) arrs in do {
           ok \<leftarrow> assertCreatedPointEvaluatesToTrue K q arrs vals retMap;
           if ok then Some ((True, Some True, vals), s1) else None }) = Some ((ok, h, vals), s')"
    using assms(4) by (auto simp: independent_computeInitialValues_def split: bind_splits)
  have E: "\<forall>e \<in> ?E. ind_expr e \<and> grounded e \<and> (\<forall>a \<in> read_arrays (all_reads e). byte_array a)"
    using assms(2) by (simp add: independent_accepts_def)
  have f: "(\<forall>f \<in> set fs. good_set f) \<and> all_exprs fs = ?E \<and> apart fs \<and> (is_constant (q_expr q) \<longrightarrow> is_false (q_expr q))"
    using factors_right [OF fs(1)] E by blast
  have qw: "wt (q_expr q)" "query_wt q" using assms(2) by (auto simp: independent_accepts_def ind_expr_def)
  have "collected [] (\<lambda>a i. 0) Map.empty" by (simp add: collected_def assign_ok_def)
  then have r: "inv s1 \<and> (case out of
      Failed h \<Rightarrow> True
    | NoSolution \<Rightarrow> \<exists>f \<in> set fs. \<not> (\<exists>\<sigma>. assign_ok \<sigma> \<and> (\<forall>e \<in> set (exprs f). eval \<sigma> e = 1))
    | Solved ret' \<Rightarrow> \<exists>\<rho>'. collected ([] @ fs) \<rho>' ret')"
    using f E assms(2)
    by (intro S.solve_factors_right [OF fs(2) assms(1), where gs = "[]" and E = ?E])
      (auto simp: independent_accepts_def ind_expr_def)
  have both: "(\<forall>e \<in> ?E. eval \<sigma> e = 1) \<longleftrightarrow> holds \<sigma> (q_constraints q) \<and> eval \<sigma> (q_expr q) = 0" if "assign_ok \<sigma>" for \<sigma>
  proof (cases "is_constant (q_expr q)")
    case True
    with f have "eval \<sigma> (q_expr q) = 0" by (auto simp: is_constant_iff ap_isFalse_def)
    with True show ?thesis by (auto simp: factor_exprs_def holds_def)
  next
    case False
    with S.isZero_means [OF that qw(1)] show ?thesis by (auto simp: factor_exprs_def holds_def)
  qed
  show ?thesis
  proof (cases out)
    case (Failed h1)
    with k r show ?thesis by auto
  next
    case NoSolution
    with r obtain g where g: "g \<in> set fs" "\<not> (\<exists>\<sigma>. assign_ok \<sigma> \<and> (\<forall>e \<in> set (exprs g). eval \<sigma> e = 1))" by auto
    have "set (exprs g) \<subseteq> ?E" using f g(1) by (auto simp: all_exprs_def)
    with g(2) have "\<not> (\<exists>\<sigma>. assign_ok \<sigma> \<and> (\<forall>e \<in> ?E. eval \<sigma> e = 1))" by blast
    with both have "\<not> (assign_ok \<sigma> \<and> holds \<sigma> (q_constraints q) \<and> eval \<sigma> (q_expr q) = 0)" for \<sigma> by blast
    then have "valid q" using not_valid [OF qw(2) assms(3)] by blast
    with NoSolution k r show ?thesis by auto
  next
    case (Solved ret)
    with r obtain \<rho> where c: "collected fs \<rho> ret" by auto
    have "\<forall>e \<in> all_exprs fs. const_in_bounds e" using f E by (simp add: ind_expr_def)
    with collected_solves [OF c _ _ assms(5)] f obtain \<tau> where tau: "assign_ok \<tau>" "\<forall>e \<in> ?E. eval \<tau> e = 1"
      and bytes: "list_all2 (\<lambda>a bytes. length bytes = arr_size a \<and>
        (isSymbolicArray a \<longrightarrow> (\<forall>i < arr_size a. uint (bytes ! i) = initial_value \<tau> a (int i)))) arrs (map (object_bytes ret) arrs)"
      by auto
    with both have holds: "holds \<tau> (q_constraints q)" "eval \<tau> (q_expr q) = 0" by auto
    have "vals = map (object_bytes ret) arrs" "ok" "h = Some True" "s' = s1"
      using k Solved by (auto simp: Let_def split: bind_splits if_splits)
    moreover have "solves q arrs (map (object_bytes ret) arrs)"
      unfolding solves_def using tau(1) holds bytes by blast
    moreover have "\<not> valid q" using tau(1) holds by (auto simp: valid_def)
    ultimately show ?thesis using r by simp
  qed
qed

end

sublocale independent \<subseteq> independent: solver_laws K "independent_solver K S" inv "independent_accepts K accepts"
proof unfold_locales
  fix q assume "independent_accepts K accepts q" then show "query_wt q" by (simp add: independent_accepts_def)
next
  fix s q r s' assume a: "inv s" "independent_accepts K accepts q" "getWidth (q_expr q) = 1" "satisfiable q"
    "computeTruth (independent_solver K S) q s = Some (r, s')"
  then obtain q' where q': "required_query q = Some q'" "computeTruth S q' s = Some (r, s')"
    by (auto simp: independent_solver_def independent_computeTruth_def split: bind_splits)
  from accepts_required [OF a(2) q'(1) a(4)] S.truth_ok [OF a(1) _ _ _ q'(2)] a(3)
  show "inv s' \<and> (\<forall>b. r = Some b \<longrightarrow> b = valid q)" by auto
next
  fix s q rv s' assume a: "inv s" "independent_accepts K accepts q" "independent_accepts K accepts (negateExpr K q)"
    "getWidth (q_expr q) = 1" "satisfiable q" "computeValidity (independent_solver K S) q s = Some (rv, s')"
  then obtain q' where q': "required_query q = Some q'" "computeValidity S q' s = Some (rv, s')"
    by (auto simp: independent_solver_def independent_computeValidity_def split: bind_splits)
  note r = accepts_required [OF a(2) q'(1) a(5)]
  then obtain req where req: "set req \<subseteq> set (q_constraints q)" "q' = q\<lparr>q_constraints := req\<rparr>" by blast
  have "negateExpr K q' = (negateExpr K q)\<lparr>q_constraints := req\<rparr>"
    by (simp add: req(2) negateExpr_def withExpr_def)
  moreover have "accepts ((negateExpr K q)\<lparr>q_constraints := req\<rparr>)"
    using a(3) req(1) by (simp add: independent_accepts_def)
  ultimately have n: "accepts (negateExpr K q')" by simp
  from r S.validity_ok [OF a(1) _ n _ _ q'(2)] a(4)
  show "inv s' \<and> (\<forall>v. rv = Some v \<longrightarrow> v = validity_of q)" by auto
next
  fix s q re s' assume a: "inv s" "independent_accepts K accepts q" "satisfiable q"
    "computeValue (independent_solver K S) q s = Some (re, s')"
  then obtain q' where q': "required_query q = Some q'" "computeValue S q' s = Some (re, s')"
    by (auto simp: independent_solver_def independent_computeValue_def split: bind_splits)
  from accepts_required [OF a(2) q'(1) a(3)] S.value_ok [OF a(1) _ _ q'(2)]
  show "inv s' \<and> (\<forall>e. re = Some e \<longrightarrow> feasible q e)" by blast
next
  fix s q arrs ok h vals s' assume a: "inv s" "independent_accepts K accepts q" "getWidth (q_expr q) = 1"
    "\<forall>a \<in> set arrs. byte_array a" "computeInitialValues (independent_solver K S) q arrs [] s = Some ((ok, h, vals), s')"
  show "inv s' \<and> (ok \<longrightarrow> h = Some (\<not> valid q) \<and> (h = Some True \<longrightarrow> solves q arrs vals))"
    using a by (intro initial_values_right [OF a(1-3) _ a(4)]) (simp add: independent_solver_def)
qed

context independent
begin

lemma laws: "solver_laws K (independent_solver K S) inv (independent_accepts K accepts)"
  by (rule independent.solver_laws_axioms)

end

interpretation independent_fast: independent "std_env False"
    "staged_solver (std_env False) (fast_cex_solver (std_env False)) dummy_solver" "\<lambda>s. True" cex_accepts
  by (rule independent.intro) (rule fast_stack.staged.solver_laws_axioms)

section \<open>Properties\<close>

text \<open>C27: dropping the constraints that share no byte with the query changes no answer: over any solver that
  keeps the contract, the truth the independent solver computes is that of the whole query.\<close>

theorem independent_truth_right:
  assumes "solver_laws K S I accepts" "I s" "independent_accepts K accepts q" "getWidth (q_expr q) = 1" "satisfiable q"
    and "computeTruth (independent_solver K S) q s = Some (r, s')"
  shows "I s' \<and> r \<in> {None, Some (valid q)}"
  using solver_laws.truth_ok [OF independent.laws [OF independent.intro [OF assms(1)]] assms(2-6)] by (cases r) auto

text \<open>C28: the bytes that the independent solver puts together from its factors belong to one assignment
  that satisfies every constraint and falsifies the query, and it finds bytes exactly if the query is not valid.\<close>

theorem independent_values_solve:
  assumes "solver_laws K S I accepts" "I s" "independent_accepts K accepts q" "getWidth (q_expr q) = 1"
    and "\<forall>a \<in> set arrs. byte_array a"
    and "computeInitialValues (independent_solver K S) q arrs [] s = Some ((True, h, vals), s')"
  shows "I s' \<and> h = Some (\<not> valid q) \<and> (h = Some True \<longrightarrow> solves q arrs vals)"
  using solver_laws.initial_ok [OF independent.laws [OF independent.intro [OF assms(1)]] assms(2-6)] by simp

text \<open>A constant array of the bytes 3 and 7, and the query whether its first byte is below 5.\<close>

definition table_array :: array where
  "table_array = \<lparr>arr_addr = 8, arr_name = ''table'', arr_size = 2, arr_domain = 32, arr_range = 8,
     constantValues = [APInt 8 3, APInt 8 7]\<rparr>"

definition ground_query :: query where
  "ground_query = \<lparr>q_constraints = [], q_expr = BinaryExpr Ult
     (ReadExpr table_array UpdateNil (ConstantExpr (APInt 32 0))) (ConstantExpr (APInt 8 5))\<rparr>"

definition ground_factor :: element_set where
  "ground_factor = \<lparr>elements = [], wholeObjects = [], exprs = [createIsZero (std_env False) (q_expr ground_query)]\<rparr>"

lemma ground_facts:
  "getAllIndependentConstraintsSets (std_env False) ground_query = Some [ground_factor]"
  "calculateArrayReferences ground_factor = []"
  "assertCreatedPointEvaluatesToTrue (std_env False) ground_query [] [] Map.empty = Some False"
  by code_simp+

lemma ground_valid: "valid ground_query"
  by (simp add: valid_def ground_query_def table_array_def initial_value_def isConstantArray_def isSymbolicArray_def
    bv_bin_def)

text \<open>C29: a query that only reads a constant array gives a factor without arrays, which is skipped instead of
  solved, whatever the solver below: although the query is valid, and the solver below would say so,
  \<^verbatim>\<open>computeInitialValues\<close> goes on as if a counterexample had been found. Its empty point then makes the negated query
  false, so \<^verbatim>\<open>assertCreatedPointEvaluatesToTrue\<close> returns false (none of its own assertions fails) and the assertion
  around its call ends the program.\<close>

theorem independent_ground_fails:
  "valid ground_query \<and>
   computeInitialValues fast_stack_impl ground_query [] [] () = Some ((True, Some False, []), ()) \<and>
   (\<exists>f. getAllIndependentConstraintsSets (std_env False) ground_query = Some [f] \<and> calculateArrayReferences f = []) \<and>
   assertCreatedPointEvaluatesToTrue (std_env False) ground_query [] [] Map.empty = Some False \<and>
   computeInitialValues (independent_solver (std_env False) S) ground_query [] [] s = None"
proof (intro conjI exI)
  show "computeInitialValues fast_stack_impl ground_query [] [] () = Some ((True, Some False, []), ())" by code_simp
  show "computeInitialValues (independent_solver (std_env False) S) ground_query [] [] s = None"
    using ground_facts
    by (simp add: independent_solver_def independent_computeInitialValues_def ground_factor_def)
qed (rule ground_valid ground_facts)+

subsection \<open>Witnesses\<close>

text \<open>For the range-propagating solver the conditions are conditions on single expressions.\<close>

definition ind_cex :: "expr \<Rightarrow> bool" where
  "ind_cex e \<longleftrightarrow> cex_expr e \<and> (\<forall>r \<in> all_reads e. case r of
     ReadExpr a us i \<Rightarrow> isSymbolicArray a \<and> byte_array a | _ \<Rightarrow> True) \<and> all_reads e \<noteq> {}"

lemma touch_symbolic: "isSymbolicArray a \<Longrightarrow> touch_read (ReadExpr a us i) \<noteq> {}"
  by (auto simp: isConstantArray_def split: option.split)

lemma ind_cex_facts:
  assumes "ind_cex e" shows "ind_expr e \<and> grounded e \<and> (\<forall>a \<in> read_arrays (all_reads e). byte_array a)"
proof -
  have r: "isSymbolicArray a \<and> byte_array a" if "ReadExpr a us i \<in> all_reads e" for a us i
    using assms that by (fastforce simp: ind_cex_def)
  have only: "\<exists>a us i. x = ReadExpr a us i" if "x \<in> all_reads e" for x
    using that by (induction e rule: expr.induct [where ?P2.0 = "\<lambda>us. x \<in> all_reads_updates us \<longrightarrow> (\<exists>a us i. x = ReadExpr a us i)"]) auto
  obtain x where "x \<in> all_reads e" using assms by (auto simp: ind_cex_def)
  with only r touch_symbolic have "touches e \<noteq> {}" by (fastforce simp: touches_def simp del: touch_read.simps)
  with r assms show ?thesis
    by (auto simp: ind_expr_def grounded_def read_arrays_def const_in_bounds_def isConstantArray_def ind_cex_def cex_expr_def)
qed

lemma independent_accepts_cex:
  assumes "\<forall>c \<in> insert (q_expr q) (insert (createIsZero K (q_expr q)) (set (q_constraints q))). ind_cex c"
  shows "independent_accepts K cex_accepts q"
proof -
  have cex: "cex_expr c" if "c \<in> insert (q_expr q) (insert (createIsZero K (q_expr q)) (set (q_constraints q)))" for c
    using assms that unfolding ind_cex_def by blast
  have E: "factor_exprs K q \<subseteq> insert (q_expr q) (insert (createIsZero K (q_expr q)) (set (q_constraints q)))"
    by (auto simp: factor_exprs_def)
  have "query_wt q" using cex by (auto simp: query_wt_def cex_expr_def)
  moreover have "cex_accepts (q\<lparr>q_constraints := cs\<rparr>)" if "set cs \<subseteq> set (q_constraints q)" for cs
    using cex that by (auto simp: cex_accepts_def cex_expr_def)
  moreover have "cex_accepts \<lparr>q_constraints = cs, q_expr = ConstantExpr (APInt 1 0)\<rparr>" if "set cs \<subseteq> factor_exprs K q" for cs
    using cex E that by (auto simp: cex_accepts_def)
  moreover have "\<forall>e \<in> factor_exprs K q. ind_expr e \<and> grounded e \<and> (\<forall>a \<in> read_arrays (all_reads e). byte_array a)"
    using E assms ind_cex_facts by blast
  ultimately show ?thesis using assms ind_cex_facts by (simp add: independent_accepts_def)
qed

lemma sample_independent: "independent_accepts (std_env False) cex_accepts (sample_query 4)"
    "independent_accepts (std_env False) cex_accepts (sample_query 8)"
proof -
  have "\<forall>c \<in> insert (q_expr (sample_query n)) (insert (createIsZero (std_env False) (q_expr (sample_query n)))
    (set (q_constraints (sample_query n)))). ind_cex c" if "n = 4 \<or> n = 8" for n
    using that by (elim disjE; hypsubst; code_simp)
  then show "independent_accepts (std_env False) cex_accepts (sample_query 4)"
    "independent_accepts (std_env False) cex_accepts (sample_query 8)"
    using independent_accepts_cex by blast+
qed

lemma sample_width: "getWidth (q_expr (sample_query n)) = 1"
  by (simp add: sample_query_def bv_width_def)

theorem independent_truth_right_witness:
  "computeTruth (independent_solver (std_env False) fast_stack_impl) (sample_query 4) () = Some (Some True, ()) \<and>
   map_option q_constraints (required_query (sample_query 4)) = Some [BinaryExpr Eq (ConstantExpr (APInt 8 4)) (rd 1)] \<and>
   valid (sample_query 4)"
proof -
  have c: "computeTruth (independent_solver (std_env False) fast_stack_impl) (sample_query 4) () = Some (Some True, ())"
    by code_simp
  have "map_option q_constraints (required_query (sample_query 4)) = Some [BinaryExpr Eq (ConstantExpr (APInt 8 4)) (rd 1)]"
    by code_simp
  with c independent_truth_right [OF fast_stack_laws TrueI sample_independent(1) sample_width sample_satisfiable c]
  show ?thesis by simp
qed

theorem independent_values_solve_witness:
  "\<exists>vals. computeInitialValues (independent_solver (std_env False) fast_stack_impl) (sample_query 8) [sym_array] [] () =
     Some ((True, Some True, vals), ()) \<and> solves (sample_query 8) [sym_array] vals"
proof -
  have c: "computeInitialValues (independent_solver (std_env False) fast_stack_impl) (sample_query 8) [sym_array] [] () =
     Some ((True, Some True, [[4, 4, 127, 127]]), ())"
    by code_simp
  have "\<forall>a \<in> set [sym_array]. byte_array a" by code_simp
  with independent_values_solve [OF fast_stack_laws TrueI sample_independent(2) sample_width _ c] c show ?thesis by auto
qed

end
