(* ===== verification/ExprOrder.thy ===== *)
theory ExprOrder
  imports ExprCompare "HOL-Library.Countable"
begin

section \<open>Expressions as keys of ordered containers\<close>

text \<open>
  \<^verbatim>\<open>std::set<ref<Expr> >\<close> and \<^verbatim>\<open>std::map<ref<Expr>, T>\<close> order expressions by \<^verbatim>\<open>Expr::compare\<close>. The instance of
  \<open>linorder\<close> is that order for a hash that is the same for all constants (LLVM's \<^verbatim>\<open>hash_value\<close> is a parameter
  of \<open>compare\<close>, which a class instance cannot have). Expressions that compare as equal are equal when arrays
  are told apart by their addresses; a numbering breaks the ties that are left in the model.
\<close>

instance apint :: countable by countable_datatype

instance binop :: countable by countable_datatype

instance array_ext :: (countable) countable
proof (rule countable_classI)
  fix a b :: "'a array_ext"
  assume "to_nat (arr_addr a, arr_name a, arr_size a, arr_domain a, arr_range a, constantValues a, array.more a) =
    to_nat (arr_addr b, arr_name b, arr_size b, arr_domain b, arr_range b, constantValues b, array.more b)"
  then show "a = b" by (simp add: array.equality)
qed

instance expr :: countable by countable_datatype

definition expr_less :: "expr \<Rightarrow> expr \<Rightarrow> bool" where
  "expr_less a b \<longleftrightarrow> compare (\<lambda>c. 0) a b < 0 \<or> compare (\<lambda>c. 0) a b = 0 \<and> a \<noteq> b \<and> to_nat a < to_nat b"

lemma compare_refl [simp]: "compare h a a = 0"
  using compare_swap(1) [of h a a] by simp

lemma compare_trans:
  "compare h a b < 0 \<Longrightarrow> compare h b c < 0 \<Longrightarrow> compare h a c < 0"
  "compare h a b = 0 \<Longrightarrow> compare h a c = compare h b c"
  "compare h b c = 0 \<Longrightarrow> compare h a c = compare h a b"
  using compare_T3(1) [of h a b c] by (simp_all add: T3_def)

instantiation expr :: linorder
begin

definition less_expr :: "expr \<Rightarrow> expr \<Rightarrow> bool" where
  "less_expr a b \<longleftrightarrow> expr_less a b"

definition less_eq_expr :: "expr \<Rightarrow> expr \<Rightarrow> bool" where
  "less_eq_expr a b \<longleftrightarrow> a = b \<or> expr_less a b"

lemma expr_less_asym: "expr_less a b \<Longrightarrow> \<not> expr_less b a"
  using compare_swap(1) [of "\<lambda>c. 0" b a] by (auto simp: expr_less_def)

lemma expr_less_trans:
  assumes "expr_less a b" "expr_less b c" shows "expr_less a c"
proof -
  let ?c = "compare (\<lambda>c. 0)"
  have le: "?c a b \<le> 0" "?c b c \<le> 0" using assms by (auto simp: expr_less_def)
  show ?thesis
  proof (cases "?c a b = 0 \<and> ?c b c = 0")
    case True
    with assms have "to_nat a < to_nat c" by (auto simp: expr_less_def)
    moreover have "?c a c = 0" using True compare_trans(2) [of "\<lambda>c. 0" a b c] by simp
    ultimately show ?thesis by (auto simp: expr_less_def)
  next
    case False
    have "?c a c < 0"
    proof (cases "?c a b = 0")
      case True
      with False le compare_trans(2) [of "\<lambda>c. 0" a b c] show ?thesis by linarith
    next
      case ab: False
      show ?thesis
      proof (cases "?c b c = 0")
        case True
        with ab le compare_trans(3) [of "\<lambda>c. 0" b c a] show ?thesis by linarith
      next
        case bc: False
        with ab le compare_trans(1) [of "\<lambda>c. 0" a b c] show ?thesis by linarith
      qed
    qed
    then show ?thesis by (simp add: expr_less_def)
  qed
qed

lemma expr_less_total: "expr_less a b \<or> a = b \<or> expr_less b a"
proof (cases "a = b")
  case False
  then have "to_nat a \<noteq> to_nat b" by simp
  then have n: "to_nat a < to_nat b \<or> to_nat b < to_nat a" by linarith
  have "compare (\<lambda>c. 0) a b < 0 \<or> compare (\<lambda>c. 0) a b = 0 \<or> compare (\<lambda>c. 0) b a < 0"
    using compare_swap(1) [of "\<lambda>c. 0" b a] by linarith
  then show ?thesis
    using False n compare_swap(1) [of "\<lambda>c. 0" b a] unfolding expr_less_def by auto
qed simp

instance
proof
  fix a b c :: expr
  show "a < b \<longleftrightarrow> a \<le> b \<and> \<not> b \<le> a"
    using expr_less_asym [of a b] expr_less_asym [of a a] by (auto simp: less_expr_def less_eq_expr_def)
  show "a \<le> a" by (simp add: less_eq_expr_def)
  show "a \<le> b \<Longrightarrow> b \<le> c \<Longrightarrow> a \<le> c" using expr_less_trans by (auto simp: less_eq_expr_def)
  show "a \<le> b \<Longrightarrow> b \<le> a \<Longrightarrow> a = b" using expr_less_asym by (auto simp: less_eq_expr_def)
  show "a \<le> b \<or> b \<le> a" using expr_less_total [of a b] by (auto simp: less_eq_expr_def)
qed

end

text \<open>Where addresses tell arrays apart the order is that of \<^verbatim>\<open>compare\<close>.\<close>

lemma less_compare:
  "inj_on arr_addr (arrays_of a \<union> arrays_of b) \<Longrightarrow> a < b \<longleftrightarrow> compare (\<lambda>c. 0) a b < 0"
  using compare_0(1) [of a b "\<lambda>c. 0"] by (auto simp: less_expr_def expr_less_def)

end
