(* ===== verification/CexCaching.thy ===== *)
theory CexCaching
  imports Independent ExprOrder MapOfSets "HOL-Library.List_Lexorder" "HOL-Library.Product_Lexorder"
begin

section \<open>The counterexample cache (CexCachingSolver.cpp)\<close>

text \<open>
  The cache maps a set of constraints (the key: the query's constraints and its negation) to an assignment that
  satisfies them or to the null pointer when they have no solution, in a trie \<^verbatim>\<open>MapOfSets\<close>; the assignments
  themselves are kept once each in an ordered table. An \<^verbatim>\<open>Assignment\<close> is the list of the entries of its
  \<^verbatim>\<open>std::map<const Array*, ...>\<close>, by address. The command line options are a record; the statistics are left
  out. A call that fails returns \<open>None\<close> inside, an assertion or an error exit is \<open>None\<close> outside.
\<close>

subsection \<open>Assignments and their table\<close>

type_synonym cex_binding = "(array \<times> byte list) list"

definition as_bindings :: "cex_binding \<Rightarrow> bindings" where
  "as_bindings b = \<lparr>allowFreeValues = False, bindings = map_of b\<rparr>"

text \<open>\<^verbatim>\<open>bindings.insert(make_pair(os, arr))\<close>, which keeps an entry that is there.\<close>

fun insert_binding :: "array \<Rightarrow> byte list \<Rightarrow> cex_binding \<Rightarrow> cex_binding" where
  "insert_binding a v [] = [(a, v)]"
| "insert_binding a v ((b, w) # bs) =
     (if arr_addr a < arr_addr b then (a, v) # (b, w) # bs
      else if arr_addr b < arr_addr a then (b, w) # insert_binding a v bs
      else (b, w) # bs)"

primrec make_bindings :: "array list \<Rightarrow> byte list list \<Rightarrow> cex_binding \<Rightarrow> cex_binding option" where
  "make_bindings [] vals b = Some b"
| "make_bindings (os # objs) vals b =
     (case vals of [] \<Rightarrow> None | arr # vals' \<Rightarrow> make_bindings objs vals' (insert_binding os arr b))"

text \<open>\<^verbatim>\<open>AssignmentLessThan\<close>: lexicographic, arrays by their addresses; \<^verbatim>\<open>set::insert\<close> returns the element that is
  in the set afterwards.\<close>

definition assignment_less :: "cex_binding \<Rightarrow> cex_binding \<Rightarrow> bool" where
  "assignment_less b c \<longleftrightarrow> map (\<lambda>(a, v). (arr_addr a, v)) b < map (\<lambda>(a, v). (arr_addr a, v)) c"

fun table_insert :: "cex_binding \<Rightarrow> cex_binding list \<Rightarrow> cex_binding list \<times> cex_binding" where
  "table_insert b [] = ([b], b)"
| "table_insert b (c # cs) =
     (if assignment_less b c then (b # c # cs, b)
      else if assignment_less c b then (let (cs', r) = table_insert b cs in (c # cs', r))
      else (c # cs, c))"

record cex_options =
  DebugCexCacheCheckBinding :: bool
  CexCacheTryAll :: bool
  CexCacheSuperSet :: bool
  CexCacheExperimental :: bool

record 's cex_state =
  under :: 's
  cex_cache :: "(expr, cex_binding option) mnode"
  assignmentsTable :: "cex_binding list"

subsection \<open>Looking an assignment up\<close>

text \<open>The result is \<open>Some r\<close> if something was found: \<open>r\<close> is the \<^verbatim>\<open>Assignment*\<close>.\<close>

primrec table_search :: "'z expr_env_scheme \<Rightarrow> expr list \<Rightarrow> cex_binding list \<Rightarrow> cex_binding option option option" where
  "table_search K key [] = Some None"
| "table_search K key (a # as) = do {
     ok \<leftarrow> satisfies K (as_bindings a) key;
     if ok then Some (Some (Some a)) else table_search K key as }"

definition null_or_satisfying :: "'z expr_env_scheme \<Rightarrow> expr list \<Rightarrow> cex_binding option \<Rightarrow> bool option" where
  "null_or_satisfying K key a = (case a of None \<Rightarrow> Some True | Some b \<Rightarrow> satisfies K (as_bindings b) key)"

text \<open>\<^verbatim>\<open>cache.findSubset(key, NullOrSatisfyingAssignment(key))\<close>: the search stops at the first value on which the
  predicate is true or runs into a failed assertion, and such a failure ends the whole.\<close>

definition find_satisfying ::
  "'z expr_env_scheme \<Rightarrow> expr list \<Rightarrow> (expr, cex_binding option) mnode \<Rightarrow> cex_binding option option option" where
  "find_satisfying K key n =
     (case findSubset (\<lambda>a. null_or_satisfying K key a \<noteq> Some False) n key of
        None \<Rightarrow> Some None
      | Some a \<Rightarrow> do { ok \<leftarrow> null_or_satisfying K key a; Some (Some a) })"

definition searchForAssignment ::
  "'z expr_env_scheme \<Rightarrow> cex_options \<Rightarrow> expr list \<Rightarrow> 's cex_state \<Rightarrow> cex_binding option option option" where
  "searchForAssignment K opts key st =
     (case mos_lookup key (cex_cache st) of Some r \<Rightarrow> Some (Some r)
      | None \<Rightarrow>
          let super = (if CexCacheSuperSet opts then findSuperset (\<lambda>a. a \<noteq> None) (cex_cache st) key else None) in
          if CexCacheTryAll opts
          then (let found = (if super = None then findSubset (\<lambda>a. a = None) (cex_cache st) key else super) in
                if found \<noteq> None then Some found else table_search K key (assignmentsTable st))
          else if super = None then find_satisfying K key (cex_cache st) else Some super)"

definition lookupAssignment ::
  "'z expr_env_scheme \<Rightarrow> cex_options \<Rightarrow> query \<Rightarrow> 's cex_state \<Rightarrow> (expr list \<times> cex_binding option option) option" where
  "lookupAssignment K opts q st =
     (let key = fold insort_insert (q_constraints q) []; neg = createIsZero K (q_expr q) in
      if is_false neg then Some (key, Some None)
      else let key = (if is_constant neg then key else insort_insert neg key) in do {
        found \<leftarrow> searchForAssignment K opts key st;
        Some (key, found) })"

definition getAssignment ::
  "'z expr_env_scheme \<Rightarrow> cex_options \<Rightarrow> 's solver_impl \<Rightarrow> query \<Rightarrow> 's cex_state \<Rightarrow>
    (cex_binding option option \<times> 's cex_state) option" where
  "getAssignment K opts S q st = do {
     (key, found) \<leftarrow> lookupAssignment K opts q st;
     if found \<noteq> None then Some (found, st)
     else let objects = findSymbolicObjects key in do {
       ((ok, hasSolution, vals), s) \<leftarrow> computeInitialValues S q objects [] (under st);
       let st = st\<lparr>under := s\<rparr>;
       if \<not> ok then Some (None, st)
       else do {
         has \<leftarrow> hasSolution;
         (binding, table) \<leftarrow>
           (if has then do {
              b \<leftarrow> make_bindings objects vals [];
              let (table, b) = table_insert b (assignmentsTable st);
              good \<leftarrow> (if DebugCexCacheCheckBinding opts then satisfies K (as_bindings b) key else Some True);
              if good then Some (Some b, table) else None }
            else Some (None, assignmentsTable st));
         Some (Some binding, st\<lparr>assignmentsTable := table, cex_cache := mos_insert None key binding (cex_cache st)\<rparr>) } } }"

subsection \<open>The solver's methods\<close>

definition cex_computeValidity ::
  "'z expr_env_scheme \<Rightarrow> cex_options \<Rightarrow> 's solver_impl \<Rightarrow> query \<Rightarrow> 's cex_state \<Rightarrow> (validity option \<times> 's cex_state) option" where
  "cex_computeValidity K opts S q st = do {
     (r, st) \<leftarrow> getAssignment K opts S (withFalse K q) st;
     case r of None \<Rightarrow> Some (None, st)
     | Some a \<Rightarrow> do {
         b \<leftarrow> a;
         e \<leftarrow> evaluate_expr K (as_bindings b) (q_expr q);
         c \<leftarrow> as_const e;
         if ap_isTrue c then do {
           (r, st) \<leftarrow> getAssignment K opts S q st;
           Some (map_option (\<lambda>a. if a = None then VTrue else VUnknown) r, st) }
         else do {
           (r, st) \<leftarrow> getAssignment K opts S (negateExpr K q) st;
           Some (map_option (\<lambda>a. if a = None then VFalse else VUnknown) r, st) } } }"

definition cex_computeTruth ::
  "'z expr_env_scheme \<Rightarrow> cex_options \<Rightarrow> 's solver_impl \<Rightarrow> query \<Rightarrow> 's cex_state \<Rightarrow> (bool option \<times> 's cex_state) option" where
  "cex_computeTruth K opts S q st = do {
     known \<leftarrow> (if CexCacheExperimental opts
       then map_option (\<lambda>(key, found). found = Some None) (lookupAssignment K opts (negateExpr K q) st)
       else Some False);
     if known then Some (None, st)
     else do {
       (r, st) \<leftarrow> getAssignment K opts S q st;
       Some (map_option (\<lambda>a. a = None) r, st) } }"

definition cex_computeValue ::
  "'z expr_env_scheme \<Rightarrow> cex_options \<Rightarrow> 's solver_impl \<Rightarrow> query \<Rightarrow> 's cex_state \<Rightarrow> (expr option \<times> 's cex_state) option" where
  "cex_computeValue K opts S q st = do {
     (r, st) \<leftarrow> getAssignment K opts S (withFalse K q) st;
     case r of None \<Rightarrow> Some (None, st)
     | Some a \<Rightarrow> do {
         b \<leftarrow> a;
         e \<leftarrow> evaluate_expr K (as_bindings b) (q_expr q);
         if is_constant e then Some (Some e, st) else None } }"

definition binding_value :: "cex_binding \<Rightarrow> array \<Rightarrow> byte list" where
  "binding_value b os = (case map_of b os of None \<Rightarrow> replicate (arr_size os) 0 | Some v \<Rightarrow> v)"

definition cex_computeInitialValues ::
  "'z expr_env_scheme \<Rightarrow> cex_options \<Rightarrow> 's solver_impl \<Rightarrow> query \<Rightarrow> array list \<Rightarrow> byte list list \<Rightarrow> 's cex_state \<Rightarrow>
    ((bool \<times> bool option \<times> byte list list) \<times> 's cex_state) option" where
  "cex_computeInitialValues K opts S q objects vals st = do {
     (r, st) \<leftarrow> getAssignment K opts S q st;
     Some (case r of None \<Rightarrow> (False, None, vals)
       | Some None \<Rightarrow> (True, Some False, vals)
       | Some (Some b) \<Rightarrow> (True, Some True, map (binding_value b) objects), st) }"

definition cex_caching_solver :: "'z expr_env_scheme \<Rightarrow> cex_options \<Rightarrow> 's solver_impl \<Rightarrow> 's cex_state solver_impl" where
  "cex_caching_solver K opts S = \<lparr>
     computeTruth = cex_computeTruth K opts S, computeValidity = cex_computeValidity K opts S,
     computeValue = cex_computeValue K opts S, computeInitialValues = cex_computeInitialValues K opts S\<rparr>"

definition cex_initial :: "'s \<Rightarrow> 's cex_state" where
  "cex_initial s = \<lparr>under = s, cex_cache = newMNode None, assignmentsTable = []\<rparr>"

subsection \<open>Evaluation under an assignment, in the sound direction\<close>

context evaluator
begin

lemma satisfies_loop_sound:
  "\<lbrakk>\<forall>c \<in> set cs. G c \<and> getWidth c = 1; entries R G vis; satisfies_loop K V cs vis = Some True\<rbrakk> \<Longrightarrow>
   \<forall>c \<in> set cs. eval \<sigma> c = 1"
proof (induction cs arbitrary: vis)
  case (Cons c cs)
  then obtain r v where r: "visit (Suc (size c)) K V c vis = Some (r, v)" "is_true r" "satisfies_loop K V cs v = Some True"
    by (auto simp: isTrue_Some simp del: visit.simps split: bind_splits if_splits)
  have g: "G c" "getWidth c = 1" using Cons.prems(1) by auto
  have s: "R c r" "entries R G v" using sound_visitD [OF visit_sound g(1) Cons.prems(2) r(1)] by auto
  obtain ca where ca: "r = ConstantExpr ca" "ap_isTrue ca" using r(2) by (cases r) auto
  then have "eval \<sigma> c = 1"
    using s(1) g(2) by (auto simp: ev_rel_def same_def ap_isTrue_def wf_ap_def dest: inr_Suc0D)
  with Cons.IH [OF _ s(2) r(3)] Cons.prems(1) show ?case by simp
qed simp

end

context default_env
begin

lemma value_evaluator: "\<not> allowFreeValues A \<Longrightarrow> total_evaluator K (assignment_getInitialValue K A) (value_of A) False"
  using assignment_total [OF agrees_value_of] by simp

lemma satisfies_sound:
  assumes "\<not> allowFreeValues A" "\<forall>c \<in> set cs. wt c \<and> getWidth c = 1 \<and> ev_safe c" "satisfies K A cs = Some True"
  shows "\<forall>c \<in> set cs. eval (value_of A) c = 1"
  using evaluator.satisfies_loop_sound [OF total_evaluator.axioms(1) [OF value_evaluator [OF assms(1)]] _ entries_empty, of cs] assms(2,3)
  by (simp add: satisfies_def ev_ok_def)

lemma evaluate_same:
  assumes "\<not> allowFreeValues A" "wt e" "ev_safe e" "evaluate_expr K A e = Some r"
  shows "same (value_of A) e r"
  using total_evaluator.evaluator_visit_ok [OF value_evaluator [OF assms(1)], of e] assms(2-4)
  by (auto simp: evaluate_expr_def ev_ok_def ev_rel_def)

end

subsection \<open>The table and the bindings\<close>

definition binding_ok :: "array set \<Rightarrow> cex_binding \<Rightarrow> bool" where
  "binding_ok U b \<longleftrightarrow> (\<forall>(a, v) \<in> set b. a \<in> U \<and> length v = arr_size a)"

abbreviation binding_assignment :: "cex_binding \<Rightarrow> assignment" where
  "binding_assignment b \<equiv> value_of (as_bindings b)"

lemma binding_assignment_ok [simp]: "assign_ok (binding_assignment b)" "\<not> allowFreeValues (as_bindings b)"
  using agrees_ok agrees_value_of by (blast, simp add: as_bindings_def)

lemma insert_binding_facts:
  assumes "inj_on arr_addr U" "a \<in> U" "fst ` set b \<subseteq> U"
  shows "set (insert_binding a v b) \<subseteq> insert (a, v) (set b) \<and>
    (a \<notin> fst ` set b \<longrightarrow> map_of (insert_binding a v b) = (map_of b)(a \<mapsto> v))"
  using assms(3)
proof (induction b)
  case (Cons p b)
  obtain c w where p: "p = (c, w)" by force
  show ?case
  proof (cases "arr_addr a = arr_addr c")
    case True
    with p assms(1,2) Cons.prems have "a = c" by (auto dest: inj_onD)
    with p show ?thesis by auto
  next
    case False
    with Cons p show ?thesis by (auto simp: fun_upd_twist)
  qed
qed simp

lemma make_bindings_facts:
  assumes "inj_on arr_addr U"
  shows "\<lbrakk>make_bindings objs vals b = Some b'; distinct objs; set objs \<subseteq> U; binding_ok U b;
      fst ` set b \<inter> set objs = {}; list_all2 P objs vals; \<And>a v. P a v \<Longrightarrow> length v = arr_size a\<rbrakk> \<Longrightarrow>
    binding_ok U b' \<and> (\<forall>a \<in> set objs. \<exists>v. map_of b' a = Some v \<and> P a v) \<and>
    (\<forall>a. a \<notin> set objs \<longrightarrow> map_of b' a = map_of b a)"
proof (induction objs arbitrary: vals b)
  case (Cons a objs)
  then obtain v vals' where v: "vals = v # vals'" "P a v" "list_all2 P objs vals'"
    by (auto simp: list_all2_Cons1)
  have U: "fst ` set b \<subseteq> U" using Cons.prems(4) by (auto simp: binding_ok_def)
  let ?b = "insert_binding a v b"
  have f: "set ?b \<subseteq> insert (a, v) (set b)" "map_of ?b = (map_of b)(a \<mapsto> v)"
    using insert_binding_facts [OF assms _ U, of a v] Cons.prems(3,5) by auto
  have "binding_ok U ?b" using f(1) Cons.prems(3,4) Cons.prems(7) [OF v(2)] by (auto simp: binding_ok_def)
  moreover have "fst ` set ?b \<subseteq> insert a (fst ` set b)" using image_mono [OF f(1), of fst] by simp
  then have "fst ` set ?b \<inter> set objs = {}" using Cons.prems(2,5) by auto
  ultimately have "binding_ok U b' \<and> (\<forall>a \<in> set objs. \<exists>v. map_of b' a = Some v \<and> P a v) \<and>
    (\<forall>x. x \<notin> set objs \<longrightarrow> map_of b' x = map_of ?b x)"
    using Cons.prems v by (intro Cons.IH) auto
  with f(2) v(2) Cons.prems(2) show ?case by auto
qed simp

lemma assignment_less_total:
  assumes "inj_on arr_addr U" "binding_ok U b" "binding_ok U c" "\<not> assignment_less b c" "\<not> assignment_less c b"
  shows "b = c"
proof -
  let ?f = "\<lambda>(a, v). (arr_addr a, v)"
  have m: "map ?f b = map ?f c" using assms(4,5) unfolding assignment_less_def by (meson linorder_neqE)
  have "set b \<union> set c \<subseteq> U \<times> UNIV" using assms(2,3) unfolding binding_ok_def by fast
  moreover have "inj_on ?f (U \<times> UNIV)" using assms(1) unfolding inj_on_def by force
  ultimately have "inj_on ?f (set b \<union> set c)" using inj_on_subset by blast
  with m show ?thesis by (rule map_inj_on)
qed

lemma table_insert_facts:
  assumes "inj_on arr_addr U" "binding_ok U b"
  shows "\<lbrakk>\<forall>c \<in> set cs. binding_ok U c; table_insert b cs = (cs', r)\<rbrakk> \<Longrightarrow> r = b \<and> set cs' = insert b (set cs)"
proof (induction cs arbitrary: cs' r)
  case (Cons c cs)
  obtain t x where t: "table_insert b cs = (t, x)" by force
  consider "assignment_less b c" | "\<not> assignment_less b c" "assignment_less c b"
    | "\<not> assignment_less b c" "\<not> assignment_less c b" by blast
  then show ?case
  proof cases
    case 2
    have "x = b \<and> set t = insert b (set cs)" using Cons.IH [of t x] t Cons.prems(1) by simp
    moreover have "cs' = c # t \<and> r = x" using 2 Cons.prems(2) t by simp
    ultimately show ?thesis by auto
  next
    case 3
    with assignment_less_total [OF assms, of c] Cons.prems have "b = c" by simp
    moreover have "cs' = c # cs \<and> r = c" using 3 Cons.prems(2) by auto
    ultimately show ?thesis by auto
  next
    case 1
    have "table_insert b (c # cs) = (b # c # cs, b)" using 1 by simp
    then have "(cs', r) = (b # c # cs, b)" using Cons.prems(2) by metis
    then show ?thesis by simp
  qed
qed auto

subsection \<open>What the cache holds\<close>

definition cex_entry_ok :: "array set \<Rightarrow> expr set \<Rightarrow> cex_binding option \<Rightarrow> bool" where
  "cex_entry_ok U es v \<longleftrightarrow> (case v of
     None \<Rightarrow> \<not> (\<exists>\<sigma>. assign_ok \<sigma> \<and> (\<forall>e \<in> es. eval \<sigma> e = 1))
   | Some b \<Rightarrow> binding_ok U b \<and> (\<forall>e \<in> es. eval (binding_assignment b) e = 1))"

definition cex_cache_ok :: "array set \<Rightarrow> 's cex_state \<Rightarrow> bool" where
  "cex_cache_ok U st \<longleftrightarrow>
     (\<exists>M. reachable None M (cex_cache st) \<and> (\<forall>key v. M key = Some v \<longrightarrow> cex_entry_ok U (set key) v)) \<and>
     (\<forall>b \<in> set (assignmentsTable st). binding_ok U b)"

lemma cex_cache_ok_under [simp]: "cex_cache_ok U (st\<lparr>under := s\<rparr>) = cex_cache_ok U st"
  by (simp add: cex_cache_ok_def)

lemma cex_entry_ok_subset: "cex_entry_ok U es None \<Longrightarrow> es \<subseteq> es' \<Longrightarrow> cex_entry_ok U es' None"
  by (auto simp: cex_entry_ok_def)

lemma cex_entry_ok_superset: "cex_entry_ok U es v \<Longrightarrow> v \<noteq> None \<Longrightarrow> es' \<subseteq> es \<Longrightarrow> cex_entry_ok U es' v"
  by (cases v) (simp_all add: cex_entry_ok_def subset_iff)

lemma find_stored:
  assumes "reachable d M n" "increasing ks"
  shows "findSubset p n ks = Some v \<Longrightarrow> p v \<and> (\<exists>r. M r = Some v \<and> set r \<subseteq> set ks)"
    and "findSuperset p n ks = Some v \<Longrightarrow> p v \<and> (\<exists>r. M r = Some v \<and> set ks \<subseteq> set r)"
  using findSubset_finds(1) [OF reachable_wf [OF assms(1)] assms(2), of p]
    findSuperset_finds(1) [OF reachable_wf [OF assms(1)], of p ks]
  unfolding reachable_ex [OF assms, where Q = "\<lambda>_. True", simplified] finds_def by auto

definition key_of :: "'z expr_env_scheme \<Rightarrow> query \<Rightarrow> expr list" where
  "key_of K q = (let key = fold insort_insert (q_constraints q) []; neg = createIsZero K (q_expr q) in
     if is_constant neg then key else insort_insert neg key)"

definition key_exprs :: "'z expr_env_scheme \<Rightarrow> query \<Rightarrow> expr set" where
  "key_exprs K q = set (q_constraints q) \<union> (if is_constant (createIsZero K (q_expr q)) then {} else {createIsZero K (q_expr q)})"

lemma fold_insort: "sorted xs \<and> distinct xs \<Longrightarrow>
    sorted (fold insort_insert ys xs) \<and> distinct (fold insort_insert ys xs) \<and> set (fold insort_insert ys xs) = set xs \<union> set ys"
  for xs ys :: "expr list"
  by (induction ys arbitrary: xs) (auto simp: sorted_insort_insert distinct_insort_insert set_insort_insert)

lemma key_of_facts: "increasing (key_of K q)" "set (key_of K q) = key_exprs K q"
  using fold_insort [of "[]" "q_constraints q"]
  by (auto simp: key_of_def key_exprs_def Let_def strict_sorted_iff sorted_insort_insert distinct_insort_insert set_insort_insert)

context default_env
begin

lemma table_search_sound:
  assumes "\<forall>e \<in> set key. wt e \<and> getWidth e = 1 \<and> ev_safe e"
  shows "\<lbrakk>\<forall>b \<in> set table. binding_ok U b; table_search K key table = Some (Some r)\<rbrakk> \<Longrightarrow> cex_entry_ok U (set key) r"
proof (induction table)
  case (Cons b table)
  then obtain ok where ok: "satisfies K (as_bindings b) key = Some ok" by (auto split: bind_splits)
  show ?case
  proof (cases ok)
    case True
    with ok Cons.prems satisfies_sound [OF binding_assignment_ok(2) assms, of b] show ?thesis by (auto simp: cex_entry_ok_def)
  qed (use Cons ok in simp)
qed simp

lemma search_sound:
  assumes st: "cex_cache_ok U st" and key: "increasing key" "\<forall>e \<in> set key. wt e \<and> getWidth e = 1 \<and> ev_safe e"
    and s: "searchForAssignment K opts key st = Some (Some r)"
  shows "cex_entry_ok U (set key) r"
proof -
  obtain M where M: "reachable None M (cex_cache st)" "\<And>k v. M k = Some v \<Longrightarrow> cex_entry_ok U (set k) v"
    using st by (auto simp: cex_cache_ok_def)
  note find = find_stored [OF M(1) key(1)]
  have super: "cex_entry_ok U (set key) v" if "findSuperset (\<lambda>a. a \<noteq> None) (cex_cache st) key = Some v" for v
    using find(2) [OF that] M(2) cex_entry_ok_superset by blast
  have null: "cex_entry_ok U (set key) v" if "findSubset (\<lambda>a. a = None) (cex_cache st) key = Some v" for v
    using find(1) [OF that] M(2) cex_entry_ok_subset by blast
  have sub: "cex_entry_ok U (set key) v" if v: "find_satisfying K key (cex_cache st) = Some (Some v)" for v
  proof -
    have f: "findSubset (\<lambda>a. null_or_satisfying K key a \<noteq> Some False) (cex_cache st) key = Some v"
      and ok: "null_or_satisfying K key v \<noteq> None"
      using v by (auto simp: find_satisfying_def split: option.splits bind_splits)
    obtain k where k: "null_or_satisfying K key v = Some True" "M k = Some v" "set k \<subseteq> set key"
      using find(1) [OF f] ok by (cases "null_or_satisfying K key v") auto
    show ?thesis
    proof (cases v)
      case None
      with k M(2) cex_entry_ok_subset show ?thesis by blast
    next
      case (Some b)
      with k(1) satisfies_sound [OF binding_assignment_ok(2) key(2), of b] M(2) [OF k(2)] show ?thesis
        by (simp add: null_or_satisfying_def cex_entry_ok_def)
    qed
  qed
  have table: "cex_entry_ok U (set key) v" if "table_search K key (assignmentsTable st) = Some (Some v)" for v
    using table_search_sound [OF key(2) _ that] st by (simp add: cex_cache_ok_def)
  show ?thesis
  proof (cases "mos_lookup key (cex_cache st)")
    case None
    with s super null sub table show ?thesis
      by (auto simp: searchForAssignment_def Let_def split: if_splits)
  next
    case (Some v)
    with s M(2) reachable_lookup [OF M(1)] show ?thesis by (auto simp: searchForAssignment_def)
  qed
qed

end

subsection \<open>The contract\<close>

definition reads_within :: "assignment \<Rightarrow> expr \<Rightarrow> bool" where
  "reads_within \<sigma> e \<longleftrightarrow> (\<forall>a us i. ReadExpr a us i \<in> all_reads e \<longrightarrow> eval \<sigma> i < int (arr_size a))"

text \<open>The key can be solved: the evaluator takes it and, under every assignment that satisfies it, its reads are
  within their arrays; so the bytes of the arrays found decide its value.\<close>

definition solvable_key :: "array set \<Rightarrow> expr set \<Rightarrow> bool" where
  "solvable_key U es \<longleftrightarrow> (\<forall>e \<in> es. ev_safe e \<and> (\<forall>a \<in> read_arrays (all_reads e). byte_array a \<and> a \<in> U)) \<and>
     (\<forall>\<sigma>. assign_ok \<sigma> \<longrightarrow> (\<forall>e \<in> es. eval \<sigma> e = 1) \<longrightarrow> (\<forall>e \<in> es. reads_within \<sigma> e))"

definition cex_caching_accepts :: "'z expr_env_scheme \<Rightarrow> (query \<Rightarrow> bool) \<Rightarrow> array set \<Rightarrow> query \<Rightarrow> bool" where
  "cex_caching_accepts K accepts U q \<longleftrightarrow> accepts q \<and> accepts (withFalse K q) \<and> query_wt q \<and> ev_safe (q_expr q) \<and>
     solvable_key U (key_exprs K q) \<and> solvable_key U (set (q_constraints q))"

text \<open>The answer of \<^verbatim>\<open>getAssignment\<close>.\<close>

definition answer_ok :: "array set \<Rightarrow> query \<Rightarrow> cex_binding option \<Rightarrow> bool" where
  "answer_ok U q v \<longleftrightarrow> (case v of None \<Rightarrow> valid q
   | Some b \<Rightarrow> binding_ok U b \<and> holds (binding_assignment b) (q_constraints q) \<and> eval (binding_assignment b) (q_expr q) = 0)"

lemma refuted:
  "\<lbrakk>assign_ok \<sigma>; holds \<sigma> (q_constraints q); eval \<sigma> (q_expr q) \<noteq> 1\<rbrakk> \<Longrightarrow> \<not> valid q"
  "\<lbrakk>assign_ok \<sigma>; holds \<sigma> (q_constraints q); eval \<sigma> (q_expr q) \<noteq> 0\<rbrakk> \<Longrightarrow> \<not> valid_false q"
  unfolding valid_def valid_false_def by blast+

lemma answer_valid: "answer_ok U q v \<Longrightarrow> v = None \<longleftrightarrow> valid q"
  using refuted(1) [OF binding_assignment_ok(1), of "the v" q] by (cases v) (auto simp: answer_ok_def)

lemma same_reads_same_value:
  assumes "solvable_key U es" "assign_ok \<sigma>" "\<forall>e \<in> es. eval \<sigma> e = 1" "\<forall>e \<in> es. wt e"
    and b: "\<And>a. a \<in> read_arrays (\<Union>e \<in> es. all_reads e) \<Longrightarrow> isSymbolicArray a \<Longrightarrow> \<exists>v. map_of b a = Some v \<and>
      length v = arr_size a \<and> (\<forall>i < arr_size a. uint (v ! i) = initial_value \<sigma> a (int i))"
  shows "\<forall>e \<in> es. eval (binding_assignment b) e = 1"
proof
  fix e assume e: "e \<in> es"
  have "eval \<sigma> e = eval (binding_assignment b) e"
  proof (rule eval_agree)
    fix a us i assume r: "ReadExpr a us i \<in> all_reads e"
    have i: "0 \<le> eval \<sigma> i"
      using reads_wt(1) [OF _ _ r] assms(1,2,4) e eval_inr [of \<sigma> i] by (auto simp: inr_def solvable_key_def)
    have a: "eval \<sigma> i < int (arr_size a)" "byte_array a"
      using assms(1-3) e r unfolding solvable_key_def reads_within_def read_arrays_def by blast+
    show "initial_value \<sigma> a (eval \<sigma> i) = initial_value (binding_assignment b) a (eval \<sigma> i)"
    proof (cases "isSymbolicArray a")
      case True
      have "a \<in> read_arrays (\<Union>e \<in> es. all_reads e)" using e r by (auto simp: read_arrays_def)
      from b [OF this True] obtain v where v: "map_of b a = Some v" "length v = arr_size a"
        "\<forall>i < arr_size a. uint (v ! i) = initial_value \<sigma> a (int i)" by blast
      have "take_bit 8 (uint (v ! nat (eval \<sigma> i))) = uint (v ! nat (eval \<sigma> i))"
        using uint_lt2p [of "v ! nat (eval \<sigma> i)"] by (simp add: take_bit_int_eq_self)
      then show ?thesis
        using i a v True
        by (auto simp: initial_value_def isConstantArray_def value_of_def bound_byte_def as_bindings_def byte_array_def)
    next
      case False
      with i a show ?thesis by (simp add: initial_value_def isConstantArray_def)
    qed
  qed
  with assms(3) e show "eval (binding_assignment b) e = 1" by simp
qed

lemma cex_cache_ok_insert:
  assumes "cex_cache_ok U st" "increasing key" "cex_entry_ok U (set key) v" "\<forall>b \<in> set table. binding_ok U b"
  shows "cex_cache_ok U (st\<lparr>assignmentsTable := table, cex_cache := mos_insert None key v (cex_cache st)\<rparr>)"
proof -
  obtain M where M: "reachable None M (cex_cache st)" "\<And>k v. M k = Some v \<Longrightarrow> cex_entry_ok U (set k) v"
    using assms(1) by (auto simp: cex_cache_ok_def)
  have "reachable None (M(key \<mapsto> v)) (mos_insert None key v (cex_cache st))"
    using M(1) assms(2) by (rule reachable.insert)
  moreover have "\<forall>k w. (M(key \<mapsto> v)) k = Some w \<longrightarrow> cex_entry_ok U (set k) w" using M(2) assms(3) by simp
  ultimately show ?thesis using assms(4) unfolding cex_cache_ok_def by auto
qed

locale cex_caching = S: solver_laws K S inv accepts
  for K :: "'z expr_env_scheme" and S :: "'s solver_impl" and inv :: "'s \<Rightarrow> bool" and accepts :: "query \<Rightarrow> bool" +
  fixes opts :: cex_options and U :: "array set"
  assumes addresses: "inj_on arr_addr U"
begin

definition cex_inv :: "'s cex_state \<Rightarrow> bool" where
  "cex_inv st \<longleftrightarrow> inv (under st) \<and> cex_cache_ok U st"

text \<open>A query as \<^verbatim>\<open>getAssignment\<close> needs it.\<close>

definition askable :: "query \<Rightarrow> bool" where
  "askable q \<longleftrightarrow> accepts q \<and> query_wt q \<and> getWidth (q_expr q) = 1 \<and> solvable_key U (key_exprs K q)"

lemma key_means:
  assumes "query_wt q" "getWidth (q_expr q) = 1" "assign_ok \<sigma>" "\<not> is_false (createIsZero K (q_expr q))"
  shows "(\<forall>e \<in> key_exprs K q. eval \<sigma> e = 1) \<longleftrightarrow> holds \<sigma> (q_constraints q) \<and> eval \<sigma> (q_expr q) = 0"
proof -
  let ?n = "createIsZero K (q_expr q)"
  have n: "wt ?n" "getWidth ?n = 1" "eval \<sigma> ?n = of_bool (eval \<sigma> (q_expr q) = 0)"
    using S.isZero_means [OF assms(3)] assms(1) by (auto simp: query_wt_def)
  have "eval \<sigma> ?n = 1" if "is_constant ?n"
    using that n(1,2) assms(4) by (auto simp: is_constant_iff ap_isFalse_def wf_ap_def dest: inr_Suc0D)
  with n(3) show ?thesis by (auto simp: key_exprs_def holds_def)
qed

lemma key_wt: "query_wt q \<Longrightarrow> \<forall>e \<in> key_exprs K q. wt e \<and> getWidth e = 1"
  using S.isZero_wt by (auto simp: key_exprs_def query_wt_def)

lemma entry_answer:
  assumes "askable q" "\<not> is_false (createIsZero K (q_expr q))" "cex_entry_ok U (key_exprs K q) v"
  shows "answer_ok U q v"
proof (cases v)
  case None
  have "valid q"
  proof (rule ccontr)
    assume "\<not> valid q"
    then obtain \<sigma> where "assign_ok \<sigma>" "holds \<sigma> (q_constraints q)" "eval \<sigma> (q_expr q) = 0"
      using not_valid assms(1) unfolding askable_def by metis
    with assms key_means None show False by (auto simp: askable_def cex_entry_ok_def)
  qed
  with None show ?thesis by (simp add: answer_ok_def)
next
  case (Some b)
  with assms key_means [OF _ _ binding_assignment_ok(1), of q b] show ?thesis
    by (simp add: askable_def cex_entry_ok_def answer_ok_def)
qed

lemma lookup_sound:
  assumes "cex_inv st" "askable q" "lookupAssignment K opts q st = Some (key, found)"
  shows "(found = None \<longrightarrow> key = key_of K q \<and> \<not> is_false (createIsZero K (q_expr q))) \<and>
    (\<forall>r. found = Some r \<longrightarrow> answer_ok U q r)"
proof (cases "is_false (createIsZero K (q_expr q))")
  case True
  have q: "wt (q_expr q)" using assms(2) by (simp add: askable_def query_wt_def)
  have "eval \<sigma> (q_expr q) = 1" if "assign_ok \<sigma>" for \<sigma>
  proof -
    obtain c where "createIsZero K (q_expr q) = ConstantExpr c" "ap_isFalse c"
      using True by (cases "createIsZero K (q_expr q)") auto
    then have "eval \<sigma> (q_expr q) \<noteq> 0" using S.isZero_means [OF that q] by (auto simp: ap_isFalse_def)
    with bool_eval [OF that q] assms(2) show ?thesis by (auto simp: askable_def)
  qed
  with True assms(3) show ?thesis by (auto simp: lookupAssignment_def Let_def answer_ok_def valid_def)
next
  case False
  with assms(3) have key: "key = key_of K q" "searchForAssignment K opts (key_of K q) st = Some found"
    by (auto simp: lookupAssignment_def key_of_def Let_def split: bind_splits)
  have "answer_ok U q r" if r: "found = Some r" for r
  proof (rule entry_answer [OF assms(2) False])
    have "\<forall>e \<in> set (key_of K q). wt e \<and> getWidth e = 1 \<and> ev_safe e"
      using key_wt [of q] assms(2) by (simp add: key_of_facts askable_def solvable_key_def)
    with S.search_sound [of U st, OF _ key_of_facts(1) [of K q] _ key(2) [unfolded r]] assms(1)
    show "cex_entry_ok U (key_exprs K q) r" by (simp add: key_of_facts(2) cex_inv_def)
  qed
  with key False show ?thesis by simp
qed

lemma solved_entry:
  assumes "askable q" "\<not> is_false (createIsZero K (q_expr q))" "solves q (findSymbolicObjects (key_of K q)) vals"
    and "make_bindings (findSymbolicObjects (key_of K q)) vals [] = Some b"
  shows "binding_ok U b \<and> cex_entry_ok U (key_exprs K q) (Some b)"
proof -
  let ?objs = "findSymbolicObjects (key_of K q)" let ?E = "key_exprs K q"
  have objs: "distinct ?objs" "set ?objs = {a. isSymbolicArray a \<and> (\<exists>e \<in> ?E. a \<in> read_arrays (all_reads e))}"
    using findSymbolicObjects_all [of "key_of K q"] by (simp_all add: key_of_facts)
  have q: "query_wt q" "getWidth (q_expr q) = 1" "solvable_key U ?E" using assms(1) by (simp_all add: askable_def)
  then have U: "set ?objs \<subseteq> U" using objs(2) by (auto simp: solvable_key_def)
  obtain \<sigma> where s: "assign_ok \<sigma>" "holds \<sigma> (q_constraints q)" "eval \<sigma> (q_expr q) = 0"
    and v: "list_all2 (\<lambda>a bytes. length bytes = arr_size a \<and>
      (isSymbolicArray a \<longrightarrow> (\<forall>i < arr_size a. uint (bytes ! i) = initial_value \<sigma> a (int i)))) ?objs vals"
    using assms(3) unfolding solves_def by blast
  have b: "binding_ok U b \<and> (\<forall>a \<in> set ?objs. \<exists>v. map_of b a = Some v \<and> length v = arr_size a \<and>
      (isSymbolicArray a \<longrightarrow> (\<forall>i < arr_size a. uint (v ! i) = initial_value \<sigma> a (int i))))"
    using make_bindings_facts [OF addresses assms(4) objs(1) U _ _ v] by (simp add: binding_ok_def)
  have "\<forall>e \<in> ?E. eval (binding_assignment b) e = 1"
  proof (rule same_reads_same_value [OF q(3) s(1)])
    show "\<forall>e \<in> ?E. eval \<sigma> e = 1" using key_means [OF q(1,2) s(1) assms(2)] s(2,3) by simp
    show "\<forall>e \<in> ?E. wt e" using key_wt [OF q(1)] by simp
    fix a assume "a \<in> read_arrays (\<Union>e \<in> ?E. all_reads e)" "isSymbolicArray a"
    moreover from this have "a \<in> set ?objs" unfolding objs(2) by (auto simp: read_arrays_def)
    ultimately show "\<exists>v. map_of b a = Some v \<and> length v = arr_size a \<and>
      (\<forall>i < arr_size a. uint (v ! i) = initial_value \<sigma> a (int i))" using b by blast
  qed
  with b show ?thesis by (simp add: cex_entry_ok_def)
qed

lemma getAssignment_sound:
  assumes "cex_inv st" "askable q" "getAssignment K opts S q st = Some (r, st')"
  shows "cex_inv st' \<and> (\<forall>v. r = Some v \<longrightarrow> answer_ok U q v)"
proof -
  obtain key found where l: "lookupAssignment K opts q st = Some (key, found)"
    using assms(3) by (auto simp: getAssignment_def split: bind_splits)
  note ls = lookup_sound [OF assms(1,2) l]
  show ?thesis
  proof (cases found)
    case (Some v)
    with assms(1,3) l ls show ?thesis by (auto simp: getAssignment_def)
  next
    case None
    let ?objs = "findSymbolicObjects (key_of K q)"
    from ls None have key: "key = key_of K q" "\<not> is_false (createIsZero K (q_expr q))" by auto
    obtain ok h vals s where i: "computeInitialValues S q ?objs [] (under st) = Some ((ok, h, vals), s)"
      using assms(3) l None key by (auto simp: getAssignment_def Let_def split: bind_splits)
    have q: "query_wt q" "getWidth (q_expr q) = 1" "accepts q" "solvable_key U (key_exprs K q)"
      using assms(2) by (simp_all add: askable_def)
    then have "\<forall>a \<in> set ?objs. byte_array a"
      using findSymbolicObjects_all [of "key_of K q"] by (auto simp: solvable_key_def key_of_facts)
    with S.initial_ok [OF _ q(3,2) _ i] assms(1)
    have s: "inv s" "ok \<longrightarrow> h = Some (\<not> valid q) \<and> (h = Some True \<longrightarrow> solves q ?objs vals)"
      by (simp_all add: cex_inv_def)
    show ?thesis
    proof (cases "ok \<and> \<not> valid q")
      case False
      show ?thesis
      proof (cases ok)
        case True
        with False have "valid q" by simp
        then have "\<not> (holds \<sigma> (q_constraints q) \<and> eval \<sigma> (q_expr q) = 0)" if "assign_ok \<sigma>" for \<sigma>
          using that by (auto simp: valid_def)
        with key_means [OF q(1,2) _ key(2)] have "cex_entry_ok U (set (key_of K q)) None"
          unfolding cex_entry_ok_def key_of_facts(2) option.case by blast
        from cex_cache_ok_insert [OF _ key_of_facts(1) this, of "st\<lparr>under := s\<rparr>" "assignmentsTable st"] assms(1)
        have "cex_cache_ok U (st\<lparr>under := s, assignmentsTable := assignmentsTable st,
            cex_cache := mos_insert None (key_of K q) None (cex_cache st)\<rparr>)"
          by (simp add: cex_inv_def cex_cache_ok_def)
        moreover have "r = Some None" "st' = st\<lparr>under := s, assignmentsTable := assignmentsTable st,
            cex_cache := mos_insert None (key_of K q) None (cex_cache st)\<rparr>"
          using True False assms(3) l None key i s(2) by (simp_all add: getAssignment_def Let_def)
        ultimately show ?thesis using s(1) \<open>valid q\<close> by (simp add: cex_inv_def answer_ok_def)
      next
        case False
        then have "r = None" "st' = st\<lparr>under := s\<rparr>"
          using assms(3) l None key i by (simp_all add: getAssignment_def Let_def)
        with assms(1) s(1) show ?thesis by (simp add: cex_inv_def)
      qed
    next
      case True
      obtain b table b' where b: "make_bindings ?objs vals [] = Some b" "table_insert b (assignmentsTable st) = (table, b')"
        and out: "r = Some (Some b')"
          "st' = st\<lparr>under := s, assignmentsTable := table, cex_cache := mos_insert None (key_of K q) (Some b') (cex_cache st)\<rparr>"
        using True assms(3) l None key i s
        by (auto simp: getAssignment_def Let_def split: bind_splits if_splits prod.splits)
      have e: "binding_ok U b" "cex_entry_ok U (key_exprs K q) (Some b)"
        using solved_entry [OF assms(2) key(2) _ b(1)] s(2) True by simp_all
      have t: "b' = b" "set table = insert b (set (assignmentsTable st))"
        using table_insert_facts [OF addresses e(1) _ b(2)] assms(1) by (simp_all add: cex_inv_def cex_cache_ok_def)
      from cex_cache_ok_insert [of U "st\<lparr>under := s\<rparr>" "key_of K q" "Some b" table] e t assms(1)
      have "cex_cache_ok U (st\<lparr>under := s, assignmentsTable := table, cex_cache := mos_insert None (key_of K q) (Some b') (cex_cache st)\<rparr>)"
        by (auto simp: key_of_facts cex_inv_def cex_cache_ok_def)
      moreover have "answer_ok U q (Some b')" using entry_answer [OF assms(2) key(2) e(2)] t(1) by simp
      ultimately show ?thesis using out s(1) by (simp add: cex_inv_def)
    qed
  qed
qed

lemma askable_false:
  assumes "cex_caching_accepts K accepts U q" shows "askable (withFalse K q)"
proof -
  have "is_constant (createIsZero K (ConstantExpr (ConstantExpr_alloc K 0 1)))"
    by (simp add: createIsZero_def Eq_make.simps)
  with assms show ?thesis
    by (simp add: askable_def cex_caching_accepts_def withFalse_def key_exprs_def query_wt_def)
qed

lemma askable_query:
  "cex_caching_accepts K accepts U q \<Longrightarrow> getWidth (q_expr q) = 1 \<Longrightarrow> askable q"
  by (simp add: askable_def cex_caching_accepts_def)

lemma binding_feasible:
  assumes "cex_caching_accepts K accepts U q" "answer_ok U (withFalse K q) (Some b)"
    "evaluate_expr K (as_bindings b) (q_expr q) = Some e"
  shows "same (binding_assignment b) (q_expr q) e" "holds (binding_assignment b) (q_constraints q)" "is_constant e \<Longrightarrow> feasible q e"
proof -
  have q: "wt (q_expr q)" "ev_safe (q_expr q)" using assms(1) by (simp_all add: cex_caching_accepts_def query_wt_def)
  show s: "same (binding_assignment b) (q_expr q) e"
    using S.evaluate_same [OF binding_assignment_ok(2) q assms(3)] .
  show h: "holds (binding_assignment b) (q_constraints q)" using assms(2) by (simp add: answer_ok_def withFalse_def)
  show "feasible q e" if "is_constant e"
    using that s h unfolding feasible_def same_def is_constant_iff by (intro exI [of _ "binding_assignment b"]) auto
qed

lemma truth_sound:
  assumes "cex_inv st" "cex_caching_accepts K accepts U q" "getWidth (q_expr q) = 1"
    "cex_computeTruth K opts S q st = Some (r, st')"
  shows "cex_inv st' \<and> (\<forall>b. r = Some b \<longrightarrow> b = valid q)"
proof -
  have out: "(r = None \<and> st' = st) \<or> (\<exists>a. getAssignment K opts S q st = Some (a, st') \<and> r = map_option (\<lambda>v. v = None) a)"
    using assms(4) by (auto simp: cex_computeTruth_def split: bind_splits if_splits)
  then show ?thesis
  proof (elim disjE exE conjE)
    fix a assume a: "getAssignment K opts S q st = Some (a, st')" "r = map_option (\<lambda>v. v = None) a"
    from getAssignment_sound [OF assms(1) askable_query [OF assms(2,3)] a(1)] a(2) answer_valid show ?thesis
      by auto
  qed (use assms(1) in simp)
qed

lemma validity_sound:
  assumes "cex_inv st" "cex_caching_accepts K accepts U q" "cex_caching_accepts K accepts U (negateExpr K q)"
    "getWidth (q_expr q) = 1" "cex_computeValidity K opts S q st = Some (rv, st')"
  shows "cex_inv st' \<and> (\<forall>v. rv = Some v \<longrightarrow> v = validity_of q)"
proof -
  have w: "query_wt q" "wt (q_expr q)" using assms(2) by (simp_all add: cex_caching_accepts_def query_wt_def)
  obtain r s where r: "getAssignment K opts S (withFalse K q) st = Some (r, s)"
    using assms(5) by (auto simp: cex_computeValidity_def split: bind_splits)
  note rs = getAssignment_sound [OF assms(1) askable_false [OF assms(2)] r]
  show ?thesis
  proof (cases r)
    case None
    with assms(5) r rs show ?thesis by (simp add: cex_computeValidity_def)
  next
    case (Some a)
    then obtain b e c where b: "a = Some b" "evaluate_expr K (as_bindings b) (q_expr q) = Some e" "as_const e = Some c"
      using assms(5) r by (auto simp: cex_computeValidity_def split: bind_splits)
    have ans: "answer_ok U (withFalse K q) (Some b)" using rs Some b(1) by blast
    note f = binding_feasible [OF assms(2) ans b(2)]
    have e: "e = ConstantExpr c" using b(3) by (cases e) auto
    have c: "getZExtValue c = eval (binding_assignment b) (q_expr q)" "getBitWidth c = 1"
      using f(1) e assms(4) by (simp_all add: same_def)
    have bit: "eval (binding_assignment b) (q_expr q) = 0 \<or> eval (binding_assignment b) (q_expr q) = 1"
      using bool_eval [OF binding_assignment_ok(1) w(2) assms(4)] .
    show ?thesis
    proof (cases "ap_isTrue c")
      case True
      then have nf: "\<not> valid_false q" using c refuted(2) [OF binding_assignment_ok(1) f(2)] by (simp add: ap_isTrue_def)
      obtain a' where a: "getAssignment K opts S q s = Some (a', st')" "rv = map_option (\<lambda>a. if a = None then VTrue else VUnknown) a'"
        using True assms(5) r Some b by (auto simp: cex_computeValidity_def split: bind_splits)
      from getAssignment_sound [OF _ askable_query [OF assms(2,4)] a(1)] rs a(2) nf answer_valid show ?thesis
        by (auto simp: validity_of_def)
    next
      case False
      then have nv: "\<not> valid q" using c refuted(1) [OF binding_assignment_ok(1) f(2)] by (simp add: ap_isTrue_def)
      obtain a' where a: "getAssignment K opts S (negateExpr K q) s = Some (a', st')"
        "rv = map_option (\<lambda>a. if a = None then VFalse else VUnknown) a'"
        using False assms(5) r Some b by (auto simp: cex_computeValidity_def split: bind_splits)
      have n: "getWidth (q_expr (negateExpr K q)) = 1" using S.isZero_wt [OF w(2)] by simp
      from answer_valid getAssignment_sound [OF _ askable_query [OF assms(3) n] a(1)] rs a(2) nv S.valid_negate(1) [OF w(1) assms(4)]
      show ?thesis by (auto simp: validity_of_def)
    qed
  qed
qed

lemma value_sound:
  assumes "cex_inv st" "cex_caching_accepts K accepts U q" "cex_computeValue K opts S q st = Some (re, st')"
  shows "cex_inv st' \<and> (\<forall>e. re = Some e \<longrightarrow> feasible q e)"
proof -
  obtain r where r: "getAssignment K opts S (withFalse K q) st = Some (r, st')"
    using assms(3) by (auto simp: cex_computeValue_def split: bind_splits option.splits if_splits)
  note rs = getAssignment_sound [OF assms(1) askable_false [OF assms(2)] r]
  show ?thesis
  proof (cases r)
    case None
    with assms(3) r rs show ?thesis by (simp add: cex_computeValue_def)
  next
    case (Some a)
    then obtain b e where b: "a = Some b" "evaluate_expr K (as_bindings b) (q_expr q) = Some e" "is_constant e" "re = Some e"
      using assms(3) r by (auto simp: cex_computeValue_def split: bind_splits if_splits)
    have "answer_ok U (withFalse K q) (Some b)" using rs Some b(1) by blast
    from binding_feasible(3) [OF assms(2) this b(2,3)] b(4) rs show ?thesis by simp
  qed
qed

lemma initial_sound:
  assumes "cex_inv st" "cex_caching_accepts K accepts U q" "getWidth (q_expr q) = 1" "\<forall>a \<in> set arrs. byte_array a"
    "cex_computeInitialValues K opts S q arrs [] st = Some ((ok, h, vals), st')"
  shows "cex_inv st' \<and> (ok \<longrightarrow> h = Some (\<not> valid q) \<and> (h = Some True \<longrightarrow> solves q arrs vals))"
proof -
  obtain r where r: "getAssignment K opts S q st = Some (r, st')"
    and out: "(ok, h, vals) = (case r of None \<Rightarrow> (False, None, []) | Some None \<Rightarrow> (True, Some False, [])
       | Some (Some b) \<Rightarrow> (True, Some True, map (binding_value b) arrs))"
    using assms(5) by (auto simp: cex_computeInitialValues_def split: bind_splits)
  note rs = getAssignment_sound [OF assms(1) askable_query [OF assms(2,3)] r]
  have "solves q arrs (map (binding_value b) arrs) \<and> \<not> valid q" if b: "r = Some (Some b)" for b
  proof -
    have ans: "binding_ok U b" "holds (binding_assignment b) (q_constraints q)" "eval (binding_assignment b) (q_expr q) = 0"
      using rs b by (auto simp: answer_ok_def)
    have "length (binding_value b a) = arr_size a \<and>
      (isSymbolicArray a \<longrightarrow> (\<forall>i < arr_size a. uint (binding_value b a ! i) = initial_value (binding_assignment b) a (int i)))"
      if a: "a \<in> set arrs" for a
    proof (cases "map_of b a")
      case None
      then show ?thesis by (simp add: binding_value_def initial_value_def isConstantArray_def value_of_def bound_byte_def as_bindings_def)
    next
      case (Some v)
      then have "length v = arr_size a" using ans(1) by (auto simp: binding_ok_def dest: map_of_SomeD)
      moreover have "take_bit 8 (uint (v ! i)) = uint (v ! i)" for i
        using uint_lt2p [of "v ! i"] by (simp add: take_bit_int_eq_self)
      ultimately show ?thesis using Some assms(4) a
        by (simp add: binding_value_def initial_value_def isConstantArray_def value_of_def bound_byte_def as_bindings_def byte_array_def)
    qed
    then have "solves q arrs (map (binding_value b) arrs)"
      unfolding solves_def using ans(2,3)
      by (intro exI [of _ "binding_assignment b"]) (simp add: list_all2_conv_all_nth)
    moreover have "\<not> valid q" using refuted(1) [OF binding_assignment_ok(1) ans(2)] ans(3) by simp
    ultimately show ?thesis by simp
  qed
  moreover have "valid q" if "r = Some None" using rs that answer_valid by blast
  ultimately show ?thesis using out rs by (auto split: option.splits)
qed

end

sublocale cex_caching \<subseteq> cex: solver_laws K "cex_caching_solver K opts S" cex_inv "cex_caching_accepts K accepts U"
proof unfold_locales
  fix q assume "cex_caching_accepts K accepts U q" then show "query_wt q" by (simp add: cex_caching_accepts_def)
next
  fix st q r st' assume "cex_inv st" "cex_caching_accepts K accepts U q" "getWidth (q_expr q) = 1" "satisfiable q"
    "computeTruth (cex_caching_solver K opts S) q st = Some (r, st')"
  then show "cex_inv st' \<and> (\<forall>b. r = Some b \<longrightarrow> b = valid q)"
    by (intro truth_sound) (simp_all add: cex_caching_solver_def)
next
  fix st q rv st' assume "cex_inv st" "cex_caching_accepts K accepts U q"
    "cex_caching_accepts K accepts U (negateExpr K q)" "getWidth (q_expr q) = 1" "satisfiable q"
    "computeValidity (cex_caching_solver K opts S) q st = Some (rv, st')"
  then show "cex_inv st' \<and> (\<forall>v. rv = Some v \<longrightarrow> v = validity_of q)"
    by (intro validity_sound) (simp_all add: cex_caching_solver_def)
next
  fix st q re st' assume "cex_inv st" "cex_caching_accepts K accepts U q" "satisfiable q"
    "computeValue (cex_caching_solver K opts S) q st = Some (re, st')"
  then show "cex_inv st' \<and> (\<forall>e. re = Some e \<longrightarrow> feasible q e)"
    by (intro value_sound) (simp_all add: cex_caching_solver_def)
next
  fix st q arrs ok h vals st' assume "cex_inv st" "cex_caching_accepts K accepts U q" "getWidth (q_expr q) = 1"
    "\<forall>a \<in> set arrs. byte_array a"
    "computeInitialValues (cex_caching_solver K opts S) q arrs [] st = Some ((ok, h, vals), st')"
  then show "cex_inv st' \<and> (ok \<longrightarrow> h = Some (\<not> valid q) \<and> (h = Some True \<longrightarrow> solves q arrs vals))"
    by (intro initial_sound) (simp_all add: cex_caching_solver_def)
qed

context cex_caching
begin

lemma laws: "solver_laws K (cex_caching_solver K opts S) cex_inv (cex_caching_accepts K accepts U)"
  by (rule cex.solver_laws_axioms)

lemma initial_inv: "inv s \<Longrightarrow> cex_inv (cex_initial s)"
  unfolding cex_inv_def cex_cache_ok_def cex_initial_def using reachable.empty by fastforce

end

text \<open>The cache over the range-propagating solver; the arrays it sees have different addresses.\<close>

interpretation cex_fast: cex_caching "std_env False"
    "staged_solver (std_env False) (fast_cex_solver (std_env False)) dummy_solver" "\<lambda>s. True" cex_accepts opts "{sym_array}" for opts
  by (intro cex_caching.intro cex_caching_axioms.intro fast_stack.staged.solver_laws_axioms) simp

section \<open>Properties\<close>

text \<open>C30: whatever sequence of questions the counterexample cache is asked, starting empty and with any options,
  every answer it does not fail on is right: assignments found for other queries are used only where they decide.\<close>

theorem cex_answers_right:
  assumes "solver_laws K S I accepts" "I s" "inj_on arr_addr U"
    and "\<forall>req \<in> set reqs. request_ok K (cex_caching_accepts K accepts U) req"
    and "run (cex_caching_solver K opts S) reqs (cex_initial s) = Some as"
  shows "list_all2 right_answer reqs as"
proof -
  have c: "cex_caching K S I accepts U" using assms(1,3) by (intro cex_caching.intro cex_caching_axioms.intro)
  from solver_laws.run_right [OF cex_caching.laws [OF c] cex_caching.initial_inv [OF c assms(2)] assms(4,5)] show ?thesis .
qed

text \<open>C31: the bytes that the counterexample cache returns, also those of an assignment found for another set of
  constraints and the zeros for arrays the assignment does not bind, belong to one assignment that satisfies the
  constraints and falsifies the query; without solution is reported exactly if the query is valid.\<close>

theorem cex_values_solve:
  assumes "solver_laws K S I accepts" "inj_on arr_addr U" "I (under st)" "cex_cache_ok U st"
    and "cex_caching_accepts K accepts U q" "getWidth (q_expr q) = 1" "\<forall>a \<in> set arrs. byte_array a"
    and "computeInitialValues (cex_caching_solver K opts S) q arrs [] st = Some ((True, h, vals), st')"
  shows "I (under st') \<and> cex_cache_ok U st' \<and> h = Some (\<not> valid q) \<and> (h = Some True \<longrightarrow> solves q arrs vals)"
proof -
  have c: "cex_caching K S I accepts U" using assms(1,2) by (intro cex_caching.intro cex_caching_axioms.intro)
  have "cex_caching.cex_inv I U st" using assms(3,4) by (simp add: cex_caching.cex_inv_def [OF c])
  from solver_laws.initial_ok [OF cex_caching.laws [OF c] this assms(5-8)] show ?thesis
    by (simp add: cex_caching.cex_inv_def [OF c])
qed

text \<open>With \<^verbatim>\<open>-cex-cache-exp\<close>, \<^verbatim>\<open>computeTruth\<close> returns false, which means that it failed, exactly where the cache
  shows that the query is not valid.\<close>

lemma experimental_fails:
  assumes "CexCacheExperimental opts" "lookupAssignment K opts (negateExpr K q) st = Some (key, Some None)"
  shows "computeTruth (cex_caching_solver K opts S) q st = Some (None, st)"
  using assms by (simp add: cex_caching_solver_def cex_computeTruth_def)

subsection \<open>Witnesses\<close>

definition plain_options :: cex_options where
  "plain_options = \<lparr>DebugCexCacheCheckBinding = True, CexCacheTryAll = False, CexCacheSuperSet = True, CexCacheExperimental = False\<rparr>"

text \<open>Expressions that read fixed bytes of the sample array.\<close>

definition fixed_reads :: "expr \<Rightarrow> bool" where
  "fixed_reads e \<longleftrightarrow> ev_safe e \<and> (\<forall>r \<in> all_reads e. case r of
     ReadExpr a us (ConstantExpr c) \<Rightarrow> a = sym_array \<and> getZExtValue c < int (arr_size a) | _ \<Rightarrow> False)"

lemma solvable_fixed:
  assumes "\<forall>e \<in> es. fixed_reads e" shows "solvable_key {sym_array} es"
proof -
  have r: "a = sym_array \<and> (\<exists>c. i = ConstantExpr c \<and> getZExtValue c < int (arr_size a))"
    if "e \<in> es" "ReadExpr a us i \<in> all_reads e" for e a us i
    using assms that by (cases i) (force simp: fixed_reads_def)+
  have "byte_array sym_array" by code_simp
  with assms r show ?thesis
    by (fastforce simp: solvable_key_def reads_within_def read_arrays_def fixed_reads_def)
qed

lemma sample_cex_accepts:
  "cex_caching_accepts (std_env False) cex_accepts {sym_array} (sample_query 4)"
  "cex_caching_accepts (std_env False) cex_accepts {sym_array} (negateExpr (std_env False) (sample_query 4))"
  "cex_caching_accepts (std_env False) cex_accepts {sym_array} (sample_query 8)"
proof -
  have "\<forall>q \<in> {sample_query 4, negateExpr (std_env False) (sample_query 4), sample_query 8}.
    cex_accepts q \<and> cex_accepts (withFalse (std_env False) q) \<and> ev_safe (q_expr q) \<and>
    (\<forall>e \<in> insert (createIsZero (std_env False) (q_expr q)) (set (q_constraints q)). fixed_reads e)"
    by code_simp
  then have "cex_caching_accepts (std_env False) cex_accepts {sym_array} q"
    if "q \<in> {sample_query 4, negateExpr (std_env False) (sample_query 4), sample_query 8}" for q
    using that solvable_fixed fast.accepts_wt unfolding cex_caching_accepts_def key_exprs_def by auto
  then show "cex_caching_accepts (std_env False) cex_accepts {sym_array} (sample_query 4)"
    "cex_caching_accepts (std_env False) cex_accepts {sym_array} (negateExpr (std_env False) (sample_query 4))"
    "cex_caching_accepts (std_env False) cex_accepts {sym_array} (sample_query 8)" by blast+
qed

theorem cex_answers_right_witness:
  "run (cex_caching_solver (std_env False) plain_options fast_stack_impl)
     [AskTruth (sample_query 4), AskTruth (sample_query 8), AskValidity (sample_query 4)] (cex_initial ()) =
     Some [Truth (Some True), Truth (Some False), Validity (Some VTrue)] \<and>
   list_all2 right_answer [AskTruth (sample_query 4), AskTruth (sample_query 8), AskValidity (sample_query 4)]
     [Truth (Some True), Truth (Some False), Validity (Some VTrue)]"
proof -
  let ?reqs = "[AskTruth (sample_query 4), AskTruth (sample_query 8), AskValidity (sample_query 4)]"
  have r: "run (cex_caching_solver (std_env False) plain_options fast_stack_impl) ?reqs (cex_initial ()) =
     Some [Truth (Some True), Truth (Some False), Validity (Some VTrue)]"
    by code_simp
  have "\<forall>req \<in> set ?reqs. request_ok (std_env False) (cex_caching_accepts (std_env False) cex_accepts {sym_array}) req"
    using sample_cex_accepts sample_satisfiable sample_width by (simp add: accepts_both_def)
  from cex_answers_right [OF fast_stack_laws TrueI _ this r] r show ?thesis by simp
qed

theorem cex_values_solve_witness:
  "\<exists>vals st. computeInitialValues (cex_caching_solver (std_env False) plain_options fast_stack_impl) (sample_query 8)
      [sym_array] [] (cex_initial ()) = Some ((True, Some True, vals), st) \<and>
    solves (sample_query 8) [sym_array] vals"
proof -
  let ?run = "computeInitialValues (cex_caching_solver (std_env False) plain_options fast_stack_impl) (sample_query 8)
      [sym_array] [] (cex_initial ())"
  have "map_option fst ?run = Some (True, Some True, [[4, 4, 127, 127]])" by code_simp
  then obtain st where r: "?run = Some ((True, Some True, [[4, 4, 127, 127]]), st)" by (auto simp: map_option_case split: option.splits)
  have "byte_array sym_array" by code_simp
  moreover have "cex_cache_ok {sym_array} (cex_initial ())"
    using reachable.empty by (fastforce simp: cex_cache_ok_def cex_initial_def)
  ultimately show ?thesis
    using cex_values_solve [OF fast_stack_laws _ _ _ sample_cex_accepts(3) sample_width _ r] r by auto
qed

end
