(* ===== verification/ExprBuilder.thy ===== *)
theory ExprBuilder
  imports ExprCreateSound "HOL-Library.Monad_Syntax"
begin

unbundle bit_operations_syntax

section \<open>Expression builders (ExprBuilder.cpp)\<close>

text \<open>
  An \<^verbatim>\<open>ExprBuilder\<close> is a record of its virtual methods, \<open>b_Binary\<close> being those of the binary kinds. A method
  returns an option because the folding of sums calls itself through the builder: \<open>None\<close> would be a call that has
  not returned within its fuel. The three builders are the plain one, the template
  \<^verbatim>\<open>ConstantSpecializedExprBuilder\<close> around the constant folding methods, and around the simplifying ones; the
  last two are stacked on a base builder. Locale \<open>builder_laws\<close> is what every builder promises: its results are
  well typed and denote the operation asked for. Locale \<open>small_builder\<close> bounds the size of sums and differences,
  from which the folding returns.
\<close>

record builder =
  b_Constant :: "apint \<Rightarrow> expr option"
  b_NotOptimized :: "expr \<Rightarrow> expr option"
  b_Read :: "array \<Rightarrow> updates \<Rightarrow> expr \<Rightarrow> expr option"
  b_Select :: "expr \<Rightarrow> expr \<Rightarrow> expr \<Rightarrow> expr option"
  b_Concat :: "expr \<Rightarrow> expr \<Rightarrow> expr option"
  b_Extract :: "expr \<Rightarrow> nat \<Rightarrow> nat \<Rightarrow> expr option"
  b_ZExt :: "expr \<Rightarrow> nat \<Rightarrow> expr option"
  b_SExt :: "expr \<Rightarrow> nat \<Rightarrow> expr option"
  b_Not :: "expr \<Rightarrow> expr option"
  b_Binary :: "binop \<Rightarrow> expr \<Rightarrow> expr \<Rightarrow> expr option"

definition default_builder :: builder where
  "default_builder = \<lparr>
     b_Constant = (\<lambda>c. Some (ConstantExpr c)),
     b_NotOptimized = (\<lambda>e. Some (NotOptimizedExpr e)),
     b_Read = (\<lambda>a us i. Some (ReadExpr a us i)),
     b_Select = (\<lambda>c l r. Some (SelectExpr c l r)),
     b_Concat = (\<lambda>l r. Some (ConcatExpr l r)),
     b_Extract = (\<lambda>e off w. Some (ExtractExpr e off w)),
     b_ZExt = (\<lambda>e w. Some (ZExtExpr e w)),
     b_SExt = (\<lambda>e w. Some (SExtExpr e w)),
     b_Not = (\<lambda>e. Some (NotExpr e)),
     b_Binary = (\<lambda>k l r. Some (BinaryExpr k l r))\<rparr>"

definition bTrue :: "'z expr_env_scheme \<Rightarrow> expr" where
  "bTrue K = ConstantExpr (ConstantExpr_alloc K 1 1)"

subsection \<open>ConstantSpecializedExprBuilder\<close>

text \<open>The dispatch of a binary method: constants are computed, else the method for the constness of the operands.\<close>

definition dispatch ::
  "'z expr_env_scheme \<Rightarrow> binop \<Rightarrow> (apint \<Rightarrow> expr \<Rightarrow> expr option) \<Rightarrow> (expr \<Rightarrow> apint \<Rightarrow> expr option) \<Rightarrow>
    (expr \<Rightarrow> expr \<Rightarrow> expr option) \<Rightarrow> expr \<Rightarrow> expr \<Rightarrow> expr option" where
  "dispatch K k cn nc nn l r =
     (case as_const l of
        Some cl \<Rightarrow> (case as_const r of Some cr \<Rightarrow> Some (ConstantExpr (CE_binary K k cl cr)) | None \<Rightarrow> cn cl r)
      | None \<Rightarrow> (case as_const r of Some cr \<Rightarrow> nc l cr | None \<Rightarrow> nn l r))"

text \<open>The same for methods that take any two expressions.\<close>

definition dispatch_any ::
  "'z expr_env_scheme \<Rightarrow> binop \<Rightarrow> (expr \<Rightarrow> expr \<Rightarrow> expr option) \<Rightarrow> expr \<Rightarrow> expr \<Rightarrow> expr option" where
  "dispatch_any K k f = dispatch K k (\<lambda>cl r. f (ConstantExpr cl) r) (\<lambda>l cr. f l (ConstantExpr cr)) f"

definition dispatch_Not :: "'z expr_env_scheme \<Rightarrow> (expr \<Rightarrow> expr option) \<Rightarrow> expr \<Rightarrow> expr option" where
  "dispatch_Not K f e =
     (case e of NotExpr x \<Rightarrow> Some x | ConstantExpr c \<Rightarrow> Some (ConstantExpr (CE_Not K c)) | _ \<Rightarrow> f e)"

text \<open>The loop of \<^verbatim>\<open>Read\<close>: writes at indices that differ for sure are skipped.\<close>

fun roll_back :: "(expr \<Rightarrow> expr \<Rightarrow> expr option) \<Rightarrow> expr \<Rightarrow> updates \<Rightarrow> updates option" where
  "roll_back eq i UpdateNil = Some UpdateNil"
| "roll_back eq i (UpdateNode ui uv n) = do {
     e \<leftarrow> eq i ui;
     differ \<leftarrow> isFalse e;
     if differ then roll_back eq i n else Some (UpdateNode ui uv n) }"

definition specialize ::
  "'z expr_env_scheme \<Rightarrow> builder \<Rightarrow> (expr \<Rightarrow> expr option) \<Rightarrow> (binop \<Rightarrow> expr \<Rightarrow> expr \<Rightarrow> expr option) \<Rightarrow> builder" where
  "specialize K B neg bin = \<lparr>
     b_Constant = b_Constant B,
     b_NotOptimized = b_NotOptimized B,
     b_Read = (\<lambda>a us i. do { us \<leftarrow> roll_back (bin Eq) i us; b_Read B a us i }),
     b_Select = (\<lambda>c l r. case as_const c of
        Some ce \<Rightarrow> Some (if ap_isTrue ce then l else r) | None \<Rightarrow> b_Select B c l r),
     b_Concat = (\<lambda>l r. case (as_const l, as_const r) of
        (Some cl, Some cr) \<Rightarrow> Some (ConstantExpr (CE_Concat K cl cr)) | _ \<Rightarrow> b_Concat B l r),
     b_Extract = (\<lambda>e off w. case as_const e of
        Some c \<Rightarrow> Some (ConstantExpr (CE_Extract K c off w)) | None \<Rightarrow> b_Extract B e off w),
     b_ZExt = (\<lambda>e w. case as_const e of
        Some c \<Rightarrow> Some (ConstantExpr (CE_ZExt K c w)) | None \<Rightarrow> b_ZExt B e w),
     b_SExt = (\<lambda>e w. case as_const e of
        Some c \<Rightarrow> Some (ConstantExpr (CE_SExt K c w)) | None \<Rightarrow> b_SExt B e w),
     b_Not = neg, b_Binary = bin\<rparr>"

subsection \<open>ConstantFoldingBuilder\<close>

text \<open>The switch over the kinds \<^verbatim>\<open>Add\<close> and \<^verbatim>\<open>Sub\<close>, and the two casts of the kids to a constant.\<close>

definition switch_sum :: "(expr \<Rightarrow> expr \<Rightarrow> 'r) \<Rightarrow> (expr \<Rightarrow> expr \<Rightarrow> 'r) \<Rightarrow> 'r \<Rightarrow> expr \<Rightarrow> 'r" where
  "switch_sum on_add on_sub other e =
     (case e of BinaryExpr k x y \<Rightarrow> if k = Add then on_add x y else if k = Sub then on_sub x y else other | _ \<Rightarrow> other)"

definition const_kid :: "expr \<Rightarrow> expr \<Rightarrow> (apint \<Rightarrow> 'r) \<Rightarrow> (apint \<Rightarrow> 'r) \<Rightarrow> 'r \<Rightarrow> 'r" where
  "const_kid x y on_left on_right other =
     (case as_const x of Some ce \<Rightarrow> on_left ce | None \<Rightarrow> (case as_const y of Some ce \<Rightarrow> on_right ce | None \<Rightarrow> other))"

text \<open>\<open>add\<close> and \<open>sub\<close> stand for \<^verbatim>\<open>Builder->Add\<close> and \<^verbatim>\<open>Builder->Sub\<close>.\<close>

type_synonym builder_op = "expr \<Rightarrow> expr \<Rightarrow> expr option"

definition fold_Add_const ::
  "'z expr_env_scheme \<Rightarrow> builder \<Rightarrow> builder_op \<Rightarrow> builder_op \<Rightarrow> apint \<Rightarrow> expr \<Rightarrow> expr option" where
  "fold_Add_const K B add sub c r =
     (let base = b_Binary B Add (ConstantExpr c) r in
      if ap_isZero c then Some r
      else switch_sum
        (\<lambda>x y. const_kid x y
          (\<lambda>ce. add (ConstantExpr (CE_binary K Add c ce)) y)
          (\<lambda>ce. add (ConstantExpr (CE_binary K Add c ce)) x) base)
        (\<lambda>x y. const_kid x y
          (\<lambda>ce. sub (ConstantExpr (CE_binary K Add c ce)) y)
          (\<lambda>ce. add (ConstantExpr (CE_binary K Sub c ce)) x) base)
        base r)"

definition fold_Add_any ::
  "'z expr_env_scheme \<Rightarrow> builder \<Rightarrow> builder_op \<Rightarrow> builder_op \<Rightarrow> expr \<Rightarrow> expr \<Rightarrow> expr option" where
  "fold_Add_any K B add sub l r =
     switch_sum
       (\<lambda>x y. do { s \<leftarrow> add y r; add x s })
       (\<lambda>x y. do { s \<leftarrow> sub r y; add x s })
       (let base = b_Binary B Add l r in
        switch_sum
          (\<lambda>x y. const_kid x y
            (\<lambda>ce. do { s \<leftarrow> add l y; add (ConstantExpr ce) s })
            (\<lambda>ce. do { s \<leftarrow> add l x; add (ConstantExpr ce) s }) base)
          (\<lambda>x y. const_kid x y
            (\<lambda>ce. do { s \<leftarrow> sub l y; add (ConstantExpr ce) s })
            (\<lambda>ce. do { s \<leftarrow> add l x; add (ConstantExpr (CE_Neg K ce)) s }) base)
          base r) l"

definition fold_Sub_const ::
  "'z expr_env_scheme \<Rightarrow> builder \<Rightarrow> builder_op \<Rightarrow> builder_op \<Rightarrow> apint \<Rightarrow> expr \<Rightarrow> expr option" where
  "fold_Sub_const K B add sub c r =
     (let base = b_Binary B Sub (ConstantExpr c) r in
      switch_sum
        (\<lambda>x y. const_kid x y
          (\<lambda>ce. sub (ConstantExpr (CE_binary K Sub c ce)) y)
          (\<lambda>ce. sub (ConstantExpr (CE_binary K Sub c ce)) x) base)
        (\<lambda>x y. const_kid x y
          (\<lambda>ce. add (ConstantExpr (CE_binary K Sub c ce)) y)
          (\<lambda>ce. sub (ConstantExpr (CE_binary K Add c ce)) x) base)
        base r)"

definition fold_Sub_any ::
  "'z expr_env_scheme \<Rightarrow> builder \<Rightarrow> builder_op \<Rightarrow> builder_op \<Rightarrow> expr \<Rightarrow> expr \<Rightarrow> expr option" where
  "fold_Sub_any K B add sub l r =
     switch_sum
       (\<lambda>x y. do { s \<leftarrow> sub y r; add x s })
       (\<lambda>x y. do { s \<leftarrow> add y r; sub x s })
       (let base = b_Binary B Sub l r in
        switch_sum
          (\<lambda>x y. const_kid x y
            (\<lambda>ce. do { s \<leftarrow> sub l y; add (ConstantExpr (CE_Neg K ce)) s })
            (\<lambda>ce. do { s \<leftarrow> sub l x; add (ConstantExpr (CE_Neg K ce)) s }) base)
          (\<lambda>x y. const_kid x y
            (\<lambda>ce. do { s \<leftarrow> add l y; add (ConstantExpr (CE_Neg K ce)) s })
            (\<lambda>ce. do { s \<leftarrow> sub l x; add (ConstantExpr ce) s }) base)
          base r) l"

text \<open>The methods \<^verbatim>\<open>Add\<close> and \<^verbatim>\<open>Sub\<close> of the folding builder, with fuel for the calls nested in each other.\<close>

fun folding_Add :: "nat \<Rightarrow> 'z expr_env_scheme \<Rightarrow> builder \<Rightarrow> expr \<Rightarrow> expr \<Rightarrow> expr option"
  and folding_Sub :: "nat \<Rightarrow> 'z expr_env_scheme \<Rightarrow> builder \<Rightarrow> expr \<Rightarrow> expr \<Rightarrow> expr option" where
  "folding_Add 0 K B l r = None"
| "folding_Add (Suc n) K B l r = dispatch K Add
     (\<lambda>c r. fold_Add_const K B (folding_Add n K B) (folding_Sub n K B) c r)
     (\<lambda>l c. fold_Add_const K B (folding_Add n K B) (folding_Sub n K B) c l)
     (\<lambda>l r. fold_Add_any K B (folding_Add n K B) (folding_Sub n K B) l r) l r"
| "folding_Sub 0 K B l r = None"
| "folding_Sub (Suc n) K B l r = dispatch K Sub
     (\<lambda>c r. fold_Sub_const K B (folding_Add n K B) (folding_Sub n K B) c r)
     (\<lambda>l c. fold_Add_const K B (folding_Add n K B) (folding_Sub n K B) (CE_Neg K c) l)
     (\<lambda>l r. fold_Sub_any K B (folding_Add n K B) (folding_Sub n K B) l r) l r"

text \<open>The rank of a call: the nested calls have a smaller one.\<close>

definition fold_rank :: "expr \<Rightarrow> expr \<Rightarrow> nat" where
  "fold_rank l r = (size l + size r) * (size l + size r) + size l"

definition fold_Mul :: "builder \<Rightarrow> apint \<Rightarrow> expr \<Rightarrow> expr option" where
  "fold_Mul B c r = (if ap_isZero c then Some (ConstantExpr c) else if ap_isOne c then Some r
     else b_Binary B Mul (ConstantExpr c) r)"

definition fold_And :: "builder \<Rightarrow> apint \<Rightarrow> expr \<Rightarrow> expr option" where
  "fold_And B c r = (if ap_isZero c then Some (ConstantExpr c) else if ap_isAllOnes c then Some r
     else b_Binary B And (ConstantExpr c) r)"

definition fold_Or :: "builder \<Rightarrow> apint \<Rightarrow> expr \<Rightarrow> expr option" where
  "fold_Or B c r = (if ap_isZero c then Some r else if ap_isAllOnes c then Some (ConstantExpr c)
     else b_Binary B Or (ConstantExpr c) r)"

definition fold_Xor :: "builder \<Rightarrow> apint \<Rightarrow> expr \<Rightarrow> expr option" where
  "fold_Xor B c r = (if ap_isZero c then Some r else b_Binary B Xor (ConstantExpr c) r)"

definition fold_Eq :: "builder \<Rightarrow> apint \<Rightarrow> expr \<Rightarrow> expr option" where
  "fold_Eq B c r = (if getBitWidth c = 1 then (if ap_isTrue c then Some r else b_Not B r)
     else b_Binary B Eq (ConstantExpr c) r)"

definition folding_binary :: "'z expr_env_scheme \<Rightarrow> builder \<Rightarrow> binop \<Rightarrow> expr \<Rightarrow> expr \<Rightarrow> expr option" where
  "folding_binary K B k l r =
     (case k of
        Add \<Rightarrow> folding_Add (Suc (fold_rank l r)) K B l r
      | Sub \<Rightarrow> folding_Sub (Suc (fold_rank l r)) K B l r
      | Mul \<Rightarrow> dispatch K Mul (fold_Mul B) (\<lambda>l c. fold_Mul B c l) (b_Binary B Mul) l r
      | And \<Rightarrow> dispatch K And (fold_And B) (\<lambda>l c. fold_And B c l) (b_Binary B And) l r
      | Or \<Rightarrow> dispatch K Or (fold_Or B) (\<lambda>l c. fold_Or B c l) (b_Binary B Or) l r
      | Xor \<Rightarrow> dispatch K Xor (fold_Xor B) (\<lambda>l c. fold_Xor B c l) (b_Binary B Xor) l r
      | Eq \<Rightarrow> dispatch K Eq (fold_Eq B) (\<lambda>l c. fold_Eq B c l) (b_Binary B Eq) l r
      | _ \<Rightarrow> dispatch_any K k (b_Binary B k) l r)"

definition folding_builder :: "'z expr_env_scheme \<Rightarrow> builder \<Rightarrow> builder" where
  "folding_builder K B = specialize K B (dispatch_Not K (b_Not B)) (folding_binary K B)"

subsection \<open>SimplifyingBuilder\<close>

definition simp_And :: "'z expr_env_scheme \<Rightarrow> builder \<Rightarrow> expr \<Rightarrow> expr \<Rightarrow> expr option" where
  "simp_And K B = dispatch_any K And (b_Binary B And)"

text \<open>\<^verbatim>\<open>Builder->Not\<close>, with the method \<^verbatim>\<open>Not\<close> written out, because they call each other.\<close>

fun simp_Not :: "'z expr_env_scheme \<Rightarrow> builder \<Rightarrow> expr \<Rightarrow> expr option" where
  "simp_Not K B (NotExpr x) = Some x"
| "simp_Not K B (ConstantExpr c) = Some (ConstantExpr (CE_Not K c))"
| "simp_Not K B (BinaryExpr Or x y) = do {
     a \<leftarrow> simp_Not K B x; b \<leftarrow> simp_Not K B y; simp_And K B a b }"
| "simp_Not K B e = b_Not B e"

definition simp_Eq :: "'z expr_env_scheme \<Rightarrow> builder \<Rightarrow> expr \<Rightarrow> expr \<Rightarrow> expr option" where
  "simp_Eq K B = dispatch K Eq (fold_Eq B) (\<lambda>l c. fold_Eq B c l)
     (\<lambda>l r. if l = r then Some (bTrue K) else b_Binary B Eq l r)"

definition simp_binary :: "'z expr_env_scheme \<Rightarrow> builder \<Rightarrow> binop \<Rightarrow> expr \<Rightarrow> expr \<Rightarrow> expr option" where
  "simp_binary K B k l r =
     (let plain = (\<lambda>k. dispatch_any K k (b_Binary B k)) in
      case k of
        Eq \<Rightarrow> simp_Eq K B l r
      | Ne \<Rightarrow> dispatch_any K Ne (\<lambda>l r. do { e \<leftarrow> simp_Eq K B l r; simp_Not K B e }) l r
      | Ugt \<Rightarrow> dispatch_any K Ugt (\<lambda>l r. plain Ult r l) l r
      | Uge \<Rightarrow> dispatch_any K Uge (\<lambda>l r. plain Ule r l) l r
      | Sgt \<Rightarrow> dispatch_any K Sgt (\<lambda>l r. plain Slt r l) l r
      | Sge \<Rightarrow> dispatch_any K Sge (\<lambda>l r. plain Sle r l) l r
      | _ \<Rightarrow> plain k l r)"

definition simplifying_builder :: "'z expr_env_scheme \<Rightarrow> builder \<Rightarrow> builder" where
  "simplifying_builder K B = specialize K B (simp_Not K B) (simp_binary K B)"

text \<open>The stacks that \<^verbatim>\<open>kleaver\<close> builds, and any other.\<close>

datatype layer = ConstantFolding | Simplifying

fun stack_builders :: "'z expr_env_scheme \<Rightarrow> layer list \<Rightarrow> builder" where
  "stack_builders K [] = default_builder"
| "stack_builders K (ConstantFolding # ls) = folding_builder K (stack_builders K ls)"
| "stack_builders K (Simplifying # ls) = simplifying_builder K (stack_builders K ls)"

section \<open>What a builder promises\<close>

lemma switch_sum_split:
  "P (switch_sum fa fs other e) \<longleftrightarrow>
     (\<forall>x y. e = BinaryExpr Add x y \<longrightarrow> P (fa x y)) \<and> (\<forall>x y. e = BinaryExpr Sub x y \<longrightarrow> P (fs x y)) \<and>
     ((\<forall>x y. e \<noteq> BinaryExpr Add x y \<and> e \<noteq> BinaryExpr Sub x y) \<longrightarrow> P other)"
  by (cases e) (auto simp: switch_sum_def)

lemma const_kid_split:
  "P (const_kid x y fl fr other) \<longleftrightarrow>
     (\<forall>ce. x = ConstantExpr ce \<longrightarrow> P (fl ce)) \<and> (\<forall>ce. \<not> is_constant x \<and> y = ConstantExpr ce \<longrightarrow> P (fr ce)) \<and>
     (\<not> is_constant x \<and> \<not> is_constant y \<longrightarrow> P other)"
  by (auto simp: const_kid_def as_const_None split: option.splits)

lemma switch_sum_split_asm:
  "P (switch_sum fa fs other e) \<longleftrightarrow> \<not> (
     (\<exists>x y. e = BinaryExpr Add x y \<and> \<not> P (fa x y)) \<or> (\<exists>x y. e = BinaryExpr Sub x y \<and> \<not> P (fs x y)) \<or>
     ((\<forall>x y. e \<noteq> BinaryExpr Add x y \<and> e \<noteq> BinaryExpr Sub x y) \<and> \<not> P other))"
  by (cases e) (auto simp: switch_sum_def)

lemma const_kid_split_asm:
  "P (const_kid x y fl fr other) \<longleftrightarrow> \<not> (
     (\<exists>ce. x = ConstantExpr ce \<and> \<not> P (fl ce)) \<or> (\<exists>ce. \<not> is_constant x \<and> y = ConstantExpr ce \<and> \<not> P (fr ce)) \<or>
     (\<not> is_constant x \<and> \<not> is_constant y \<and> \<not> P other))"
  by (auto simp: const_kid_def as_const_None split: option.splits)

lemma simp_Not_binary: "k \<noteq> Or \<Longrightarrow> simp_Not K B (BinaryExpr k x y) = b_Not B (BinaryExpr k x y)"
  by (cases k) simp_all

locale builder_laws = env K for K :: "'z expr_env_scheme" +
  fixes B :: builder
  assumes literals: "wf_ap c \<Longrightarrow> b_Constant B c = Some e \<Longrightarrow> means \<sigma> e (getBitWidth c) (getZExtValue c)"
    and not_optimized: "wt l \<Longrightarrow> b_NotOptimized B l = Some e \<Longrightarrow> means \<sigma> e (getWidth l) (eval \<sigma> l)"
    and read: "\<lbrakk>assign_ok \<sigma>; wt (ReadExpr a us i); b_Read B a us i = Some e\<rbrakk> \<Longrightarrow>
      means \<sigma> e (arr_range a) (eval_read \<sigma> us a (eval \<sigma> i))"
    and select: "\<lbrakk>assign_ok \<sigma>; wt (SelectExpr x l r); b_Select B x l r = Some e\<rbrakk> \<Longrightarrow>
      means \<sigma> e (getWidth l) (if eval \<sigma> x \<noteq> 0 then eval \<sigma> l else eval \<sigma> r)"
    and concat: "\<lbrakk>assign_ok \<sigma>; wt l; wt r; b_Concat B l r = Some e\<rbrakk> \<Longrightarrow>
      means \<sigma> e (getWidth l + getWidth r) (concat_bit (getWidth r) (eval \<sigma> r) (eval \<sigma> l))"
    and extracted: "\<lbrakk>assign_ok \<sigma>; wt (ExtractExpr l off w); b_Extract B l off w = Some e\<rbrakk> \<Longrightarrow>
      means \<sigma> e w (take_bit w (drop_bit off (eval \<sigma> l)))"
    and zext: "\<lbrakk>assign_ok \<sigma>; wt (ZExtExpr l w); b_ZExt B l w = Some e\<rbrakk> \<Longrightarrow> means \<sigma> e w (take_bit w (eval \<sigma> l))"
    and sext: "\<lbrakk>assign_ok \<sigma>; wt (SExtExpr l w); b_SExt B l w = Some e\<rbrakk> \<Longrightarrow>
      means \<sigma> e w (take_bit w (sval (getWidth l) (eval \<sigma> l)))"
    and negation: "\<lbrakk>assign_ok \<sigma>; wt l; b_Not B l = Some e\<rbrakk> \<Longrightarrow>
      means \<sigma> e (getWidth l) (take_bit (getWidth l) (NOT (eval \<sigma> l)))"
    and binary: "\<lbrakk>assign_ok \<sigma>; wt l; wt r; getWidth l = getWidth r; is_div k \<longrightarrow> eval \<sigma> r \<noteq> 0; b_Binary B k l r = Some e\<rbrakk> \<Longrightarrow>
      bin \<sigma> k l r e"

locale small_builder =
  fixes B :: builder
  assumes small: "k \<in> {Add, Sub} \<Longrightarrow> \<exists>e. b_Binary B k l r = Some e \<and> size e \<le> size l + size r + 1"
    and binary_returns: "\<exists>e. b_Binary B k l r = Some e"
    and not_returns: "\<exists>e. b_Not B l = Some e"

lemma default_builder_laws: "env K \<Longrightarrow> builder_laws K default_builder"
  unfolding builder_laws_def builder_laws_axioms_def default_builder_def
  by (simp add: means_def)

interpretation plain: small_builder default_builder
  by unfold_locales (auto simp: default_builder_def)

subsection \<open>The template keeps the promise\<close>

lemma dispatch_Some:
  assumes "dispatch K k cn nc nn l r = Some e"
  obtains cl cr where "l = ConstantExpr cl" "r = ConstantExpr cr" "e = ConstantExpr (CE_binary K k cl cr)"
  | cl where "l = ConstantExpr cl" "\<not> is_constant r" "cn cl r = Some e"
  | cr where "\<not> is_constant l" "r = ConstantExpr cr" "nc l cr = Some e"
  | "\<not> is_constant l" "\<not> is_constant r" "nn l r = Some e"
  using assms by (auto simp: dispatch_def as_const_None split: option.splits)

context env
begin

lemma dispatch_means:
  assumes "dispatch K k cn nc nn l r = Some e"
    and wt: "wt l" "wt r" "getWidth l = getWidth r" "is_div k \<longrightarrow> eval \<sigma> r \<noteq> 0"
    and "\<And>cl. l = ConstantExpr cl \<Longrightarrow> \<not> is_constant r \<Longrightarrow> cn cl r = Some e \<Longrightarrow> bin \<sigma> k l r e"
    and "\<And>cr. r = ConstantExpr cr \<Longrightarrow> \<not> is_constant l \<Longrightarrow> nc l cr = Some e \<Longrightarrow> bin \<sigma> k l r e"
    and "nn l r = Some e \<Longrightarrow> bin \<sigma> k l r e"
  shows "bin \<sigma> k l r e"
  using assms(1)
proof (cases rule: dispatch_Some)
  case (1 cl cr)
  with wt means_fold [of cl cr k \<sigma>] show ?thesis by simp
qed (use assms in auto)

lemma dispatch_any_means:
  assumes "dispatch_any K k f l r = Some e" "wt l" "wt r" "getWidth l = getWidth r" "is_div k \<longrightarrow> eval \<sigma> r \<noteq> 0"
    and "f l r = Some e \<Longrightarrow> bin \<sigma> k l r e"
  shows "bin \<sigma> k l r e"
  using assms(1) unfolding dispatch_any_def by (rule dispatch_means) (use assms in auto)

lemma not_not: "inr w v \<Longrightarrow> take_bit w (NOT (take_bit w (NOT v))) = v"
  by (simp add: take_bit_not_take_bit inr_iff_take_bit)

lemma dispatch_Not_means:
  assumes "dispatch_Not K f l = Some e" "assign_ok \<sigma>" "wt l"
    and "f l = Some e \<Longrightarrow> means \<sigma> e (getWidth l) (take_bit (getWidth l) (NOT (eval \<sigma> l)))"
  shows "means \<sigma> e (getWidth l) (take_bit (getWidth l) (NOT (eval \<sigma> l)))"
  using assms eval_inr [OF assms(2)]
  by (cases l) (auto simp: dispatch_Not_def means_def CE_Not_eq not_not wf_ap_def)

lemma roll_back_means:
  assumes eq: "\<And>l r e. \<lbrakk>wt l; wt r; getWidth l = getWidth r; eq l r = Some e\<rbrakk> \<Longrightarrow> bin \<sigma> Eq l r e"
    and i: "wt i" "getWidth i = arr_domain a"
  shows "\<lbrakk>wt_updates us a; roll_back eq i us = Some us'\<rbrakk> \<Longrightarrow>
    wt_updates us' a \<and> eval_read \<sigma> us' a (eval \<sigma> i) = eval_read \<sigma> us a (eval \<sigma> i)"
proof (induction us rule: updates.induct [where ?P1.0 = "\<lambda>_. True"])
  case (UpdateNode ui uv n)
  then obtain e where e: "eq i ui = Some e" by (auto split: bind_splits)
  have m: "bin \<sigma> Eq i ui e" using eq [OF i(1) _ _ e] i UpdateNode.prems(1) by simp
  then have w: "getWidth e = 1" by (simp add: means_def bv_width_def)
  show ?case
  proof (cases "is_false e")
    case True
    then have "eval \<sigma> e = 0" by (cases e) (auto simp: ap_isFalse_def)
    with m have "eval \<sigma> ui \<noteq> eval \<sigma> i" by (auto simp: means_def bv_bin_def)
    with UpdateNode e True w show ?thesis by (simp add: isFalse_def)
  qed (use UpdateNode e w in \<open>auto simp: isFalse_def\<close>)
qed auto

end

context builder_laws
begin

lemma specialize_laws:
  assumes neg: "\<And>\<sigma> l e. \<lbrakk>assign_ok \<sigma>; wt l; f l = Some e\<rbrakk> \<Longrightarrow>
      means \<sigma> e (getWidth l) (take_bit (getWidth l) (NOT (eval \<sigma> l)))"
    and b: "\<And>\<sigma> k l r e. \<lbrakk>assign_ok \<sigma>; wt l; wt r; getWidth l = getWidth r; is_div k \<longrightarrow> eval \<sigma> r \<noteq> 0; g k l r = Some e\<rbrakk> \<Longrightarrow>
      bin \<sigma> k l r e"
  shows "builder_laws K (specialize K B f g)"
proof unfold_locales
  fix \<sigma> a us i e assume a: "assign_ok \<sigma>" "wt (ReadExpr a us i)" "b_Read (specialize K B f g) a us i = Some e"
  then obtain us' where us: "roll_back (g Eq) i us = Some us'" "b_Read B a us' i = Some e"
    by (auto simp: specialize_def split: bind_splits)
  have "wt_updates us' a \<and> eval_read \<sigma> us' a (eval \<sigma> i) = eval_read \<sigma> us a (eval \<sigma> i)"
    by (rule roll_back_means [OF _ _ _ _ us(1)]) (use a b [of \<sigma>] in auto)
  with read [OF a(1) _ us(2)] a(2) show "means \<sigma> e (arr_range a) (eval_read \<sigma> us a (eval \<sigma> i))" by simp
next
  fix \<sigma> x l r e assume a: "assign_ok \<sigma>" "wt (SelectExpr x l r)" "b_Select (specialize K B f g) x l r = Some e"
  with select [OF a(1,2)] show "means \<sigma> e (getWidth l) (if eval \<sigma> x \<noteq> 0 then eval \<sigma> l else eval \<sigma> r)"
    by (cases x) (auto simp: specialize_def means_def ap_isTrue_def split: if_splits)
next
  fix \<sigma> l r e assume a: "assign_ok \<sigma>" "wt l" "wt r" "b_Concat (specialize K B f g) l r = Some e"
  show "means \<sigma> e (getWidth l + getWidth r) (concat_bit (getWidth r) (eval \<sigma> r) (eval \<sigma> l))"
  proof (cases "is_constant l \<and> is_constant r")
    case True
    with a have "e = Concat_make K l r" by (auto simp: specialize_def is_constant_iff Concat_make.simps)
    with concat_make [OF a(1-3)] show ?thesis by simp
  next
    case False
    with a(4) have "b_Concat B l r = Some e"
      by (cases "as_const l"; cases "as_const r") (auto simp: specialize_def)
    with concat a(1-3) show ?thesis by blast
  qed
next
  fix \<sigma> l off w e assume a: "assign_ok \<sigma>" "wt (ExtractExpr l off w)" "b_Extract (specialize K B f g) l off w = Some e"
  with extracted [OF a(1,2)] show "means \<sigma> e w (take_bit w (drop_bit off (eval \<sigma> l)))"
    by (cases "as_const l") (auto simp: specialize_def means_def CE_Extract_eq)
next
  fix \<sigma> l w e assume a: "assign_ok \<sigma>" "wt (ZExtExpr l w)" "b_ZExt (specialize K B f g) l w = Some e"
  moreover have "0 < w" using a(2) wt_width_pos [of l] by simp
  ultimately show "means \<sigma> e w (take_bit w (eval \<sigma> l))" using zext [OF a(1,2)]
    by (cases "as_const l") (auto simp: specialize_def means_def CE_ZExt_eq)
next
  fix \<sigma> l w e assume a: "assign_ok \<sigma>" "wt (SExtExpr l w)" "b_SExt (specialize K B f g) l w = Some e"
  moreover have "0 < w" using a(2) wt_width_pos [of l] by simp
  ultimately show "means \<sigma> e w (take_bit w (sval (getWidth l) (eval \<sigma> l)))" using sext [OF a(1,2)]
    by (cases "as_const l") (auto simp: specialize_def means_def CE_SExt_eq)
next
  fix \<sigma> k l r e assume a: "assign_ok \<sigma>" "wt l" "wt r" "getWidth l = getWidth r" "is_div k \<longrightarrow> eval \<sigma> r \<noteq> 0"
    "b_Binary (specialize K B f g) k l r = Some e"
  then have "g k l r = Some e" by (simp add: specialize_def)
  from b [OF a(1-5) this] show "bin \<sigma> k l r e" .
qed (simp_all add: specialize_def literals not_optimized neg)

subsection \<open>Constant folding keeps the promise\<close>

text \<open>Sums and differences, with the values modulo \<open>2 ^ w\<close>.\<close>

text \<open>\<open>sums\<close>: the function gives sums, with the values modulo \<open>2 ^ w\<close>; \<open>differences\<close> likewise.\<close>

definition sums :: "assignment \<Rightarrow> builder_op \<Rightarrow> bool" where
  "sums \<sigma> f \<longleftrightarrow> (\<forall>l r e. wt l \<and> wt r \<and> getWidth l = getWidth r \<and> f l r = Some e \<longrightarrow>
     means \<sigma> e (getWidth l) ((eval \<sigma> l + eval \<sigma> r) mod 2 ^ getWidth l))"

definition differences :: "assignment \<Rightarrow> builder_op \<Rightarrow> bool" where
  "differences \<sigma> f \<longleftrightarrow> (\<forall>l r e. wt l \<and> wt r \<and> getWidth l = getWidth r \<and> f l r = Some e \<longrightarrow>
     means \<sigma> e (getWidth l) ((eval \<sigma> l - eval \<sigma> r) mod 2 ^ getWidth l))"

lemma sum_values [simp]: "bv_bin Add w a b = (a + b) mod 2 ^ w" "bv_bin Sub w a b = (a - b) mod 2 ^ w"
    "bv_width Add w = w" "bv_width Sub w = w"
  by (simp_all add: bv_bin_def bv_width_def take_bit_eq_mod)

abbreviation (input) modulo_means :: "assignment \<Rightarrow> expr \<Rightarrow> nat \<Rightarrow> int \<Rightarrow> bool" where
  "modulo_means \<sigma> e w v \<equiv> means \<sigma> e w (v mod 2 ^ w)"

lemma sumsD: "\<lbrakk>f l r = Some e; sums \<sigma> f; modulo_means \<sigma> l w a; modulo_means \<sigma> r w b; (a + b) mod 2 ^ w = v mod 2 ^ w\<rbrakk> \<Longrightarrow>
    modulo_means \<sigma> e w v"
  unfolding sums_def means_def by (metis mod_add_eq)

lemma differencesD:
  "\<lbrakk>f l r = Some e; differences \<sigma> f; modulo_means \<sigma> l w a; modulo_means \<sigma> r w b; (a - b) mod 2 ^ w = v mod 2 ^ w\<rbrakk> \<Longrightarrow>
    modulo_means \<sigma> e w v"
  unfolding differences_def means_def by (metis mod_diff_eq)

lemma const_sums:
  assumes "wf_ap c" "wf_ap d" "getBitWidth c = w" "getBitWidth d = w"
  shows "modulo_means \<sigma> (ConstantExpr (CE_binary K Add c d)) w (getZExtValue c + getZExtValue d)"
    "modulo_means \<sigma> (ConstantExpr (CE_binary K Sub c d)) w (getZExtValue c - getZExtValue d)"
    "modulo_means \<sigma> (ConstantExpr (CE_Neg K d)) w (- getZExtValue d)"
    "modulo_means \<sigma> (ConstantExpr d) w (getZExtValue d)"
  using assms by (auto simp: CE_binary_eq CE_Neg_eq take_bit_eq_mod means_def wf_ap_def inr_def)

lemma base_sums:
  assumes "assign_ok \<sigma>" shows "sums \<sigma> (b_Binary B Add)" "differences \<sigma> (b_Binary B Sub)"
  using binary [OF assms, of _ _ Add] binary [OF assms, of _ _ Sub] by (simp_all add: sums_def differences_def)

lemma self_mod: "assign_ok \<sigma> \<Longrightarrow> wt e \<Longrightarrow> getWidth e = w \<Longrightarrow> modulo_means \<sigma> e w (eval \<sigma> e)"
  using eval_inr [of \<sigma> e] by (auto simp: inr_def means_def)

text \<open>What a nested call with a folded constant, or with a sum for its second operand, denotes.\<close>

lemma nested_sums:
  assumes "assign_ok \<sigma>" "sums \<sigma> add" "differences \<sigma> sub"
  shows "\<lbrakk>add (ConstantExpr (CE_binary K Add c d)) x = Some e; wf_ap c; wf_ap d; getBitWidth c = w; getBitWidth d = w; wt x;
      getWidth x = w\<rbrakk> \<Longrightarrow> modulo_means \<sigma> e w (getZExtValue c + getZExtValue d + eval \<sigma> x)"
    "\<lbrakk>add (ConstantExpr (CE_binary K Sub c d)) x = Some e; wf_ap c; wf_ap d; getBitWidth c = w; getBitWidth d = w; wt x;
      getWidth x = w\<rbrakk> \<Longrightarrow> modulo_means \<sigma> e w (getZExtValue c - getZExtValue d + eval \<sigma> x)"
    "\<lbrakk>sub (ConstantExpr (CE_binary K Add c d)) x = Some e; wf_ap c; wf_ap d; getBitWidth c = w; getBitWidth d = w; wt x;
      getWidth x = w\<rbrakk> \<Longrightarrow> modulo_means \<sigma> e w (getZExtValue c + getZExtValue d - eval \<sigma> x)"
    "\<lbrakk>sub (ConstantExpr (CE_binary K Sub c d)) x = Some e; wf_ap c; wf_ap d; getBitWidth c = w; getBitWidth d = w; wt x;
      getWidth x = w\<rbrakk> \<Longrightarrow> modulo_means \<sigma> e w (getZExtValue c - getZExtValue d - eval \<sigma> x)"
  by (rule sumsD [OF _ assms(2) const_sums(1) self_mod [OF assms(1)]] sumsD [OF _ assms(2) const_sums(2) self_mod [OF assms(1)]]
      differencesD [OF _ assms(3) const_sums(1) self_mod [OF assms(1)]]
      differencesD [OF _ assms(3) const_sums(2) self_mod [OF assms(1)]]; (assumption | simp))+

lemma fold_Add_const_means:
  assumes "assign_ok \<sigma>" "sums \<sigma> add" "differences \<sigma> sub" "wf_ap c" "wt r" "getWidth r = getBitWidth c"
    and e: "fold_Add_const K B add sub c r = Some e"
  shows "modulo_means \<sigma> e (getBitWidth c) (getZExtValue c + eval \<sigma> r)"
proof (cases "ap_isZero c")
  case True
  with e assms(5,6) self_mod [OF assms(1,5)] show ?thesis by (simp add: fold_Add_const_def ap_isZero_def means_def)
next
  case False
  note self = self_mod [OF assms(1)] and const = const_sums [OF assms(4) _ refl]
  have base: "b_Binary B Add (ConstantExpr c) r = Some e \<Longrightarrow> ?thesis"
    by (rule sumsD [OF _ base_sums(1) [OF assms(1)] const(4) self]) (use assms in \<open>auto\<close>)
  show ?thesis
    using e False base assms(5,6) unfolding fold_Add_const_def Let_def if_False
    by (simp split: switch_sum_split_asm const_kid_split_asm)
      (auto simp: mod_simps algebra_simps dest: nested_sums [OF assms(1-3) _ assms(4)])
qed

lemma fold_Sub_const_means:
  assumes "assign_ok \<sigma>" "sums \<sigma> add" "differences \<sigma> sub" "wf_ap c" "wt r" "getWidth r = getBitWidth c"
    and e: "fold_Sub_const K B add sub c r = Some e"
  shows "modulo_means \<sigma> e (getBitWidth c) (getZExtValue c - eval \<sigma> r)"
proof -
  have base: "b_Binary B Sub (ConstantExpr c) r = Some e \<Longrightarrow> ?thesis"
    by (rule differencesD [OF _ base_sums(2) [OF assms(1)] const_sums(4) [OF assms(4) _ refl] self_mod [OF assms(1)]])
      (use assms in auto)
  show ?thesis
    using e base assms(5,6) unfolding fold_Sub_const_def Let_def
    by (simp split: switch_sum_split_asm const_kid_split_asm)
      (auto simp: mod_simps algebra_simps dest: nested_sums [OF assms(1-3) _ assms(4)])
qed

lemma nested_calls:
  assumes "assign_ok \<sigma>" "sums \<sigma> add" "differences \<sigma> sub"
  shows "\<lbrakk>add x s = Some e; add y z = Some s; wt x; wt y; wt z; getWidth x = w; getWidth y = w; getWidth z = w\<rbrakk> \<Longrightarrow>
      modulo_means \<sigma> e w (eval \<sigma> x + (eval \<sigma> y + eval \<sigma> z))"
    "\<lbrakk>add x s = Some e; sub y z = Some s; wt x; wt y; wt z; getWidth x = w; getWidth y = w; getWidth z = w\<rbrakk> \<Longrightarrow>
      modulo_means \<sigma> e w (eval \<sigma> x + (eval \<sigma> y - eval \<sigma> z))"
    "\<lbrakk>sub x s = Some e; add y z = Some s; wt x; wt y; wt z; getWidth x = w; getWidth y = w; getWidth z = w\<rbrakk> \<Longrightarrow>
      modulo_means \<sigma> e w (eval \<sigma> x - (eval \<sigma> y + eval \<sigma> z))"
  by (rule sumsD [OF _ assms(2) self_mod [OF assms(1)] sumsD [OF _ assms(2) self_mod [OF assms(1)] self_mod [OF assms(1)]]]
      sumsD [OF _ assms(2) self_mod [OF assms(1)] differencesD [OF _ assms(3) self_mod [OF assms(1)] self_mod [OF assms(1)]]]
      differencesD [OF _ assms(3) self_mod [OF assms(1)] sumsD [OF _ assms(2) self_mod [OF assms(1)] self_mod [OF assms(1)]]];
      (assumption | simp))+

lemma nested_negated:
  assumes "assign_ok \<sigma>" "sums \<sigma> add" "differences \<sigma> sub"
  shows "\<lbrakk>add (ConstantExpr (CE_Neg K c)) s = Some e; add y z = Some s; wf_ap c; wt y; wt z; getBitWidth c = w; getWidth y = w;
      getWidth z = w\<rbrakk> \<Longrightarrow> modulo_means \<sigma> e w (- getZExtValue c + (eval \<sigma> y + eval \<sigma> z))"
    "\<lbrakk>add (ConstantExpr (CE_Neg K c)) s = Some e; sub y z = Some s; wf_ap c; wt y; wt z; getBitWidth c = w; getWidth y = w;
      getWidth z = w\<rbrakk> \<Longrightarrow> modulo_means \<sigma> e w (- getZExtValue c + (eval \<sigma> y - eval \<sigma> z))"
  by (rule sumsD [OF _ assms(2) const_sums(3) sumsD [OF _ assms(2) self_mod [OF assms(1)] self_mod [OF assms(1)]]]
      sumsD [OF _ assms(2) const_sums(3) differencesD [OF _ assms(3) self_mod [OF assms(1)] self_mod [OF assms(1)]]];
      (assumption | simp))+

lemma fold_Add_any_means:
  assumes "assign_ok \<sigma>" "sums \<sigma> add" "differences \<sigma> sub" "wt l" "wt r" "getWidth l = getWidth r"
    and e: "fold_Add_any K B add sub l r = Some e"
  shows "modulo_means \<sigma> e (getWidth r) (eval \<sigma> l + eval \<sigma> r)"
proof -
  have base: "b_Binary B Add l r = Some e \<Longrightarrow> ?thesis"
    by (rule sumsD [OF _ base_sums(1) [OF assms(1)] self_mod [OF assms(1)] self_mod [OF assms(1)]]) (use assms in auto)
  note nested = nested_calls [OF assms(1-3), where w = "getWidth r"] nested_negated [OF assms(1-3), where w = "getWidth r"]
  show ?thesis
    using e base assms(4-6) unfolding fold_Add_any_def Let_def
    by (simp split: switch_sum_split_asm const_kid_split_asm)
      (auto simp: mod_simps algebra_simps dest: nested split: bind_splits)
qed

lemma fold_Sub_any_means:
  assumes "assign_ok \<sigma>" "sums \<sigma> add" "differences \<sigma> sub" "wt l" "wt r" "getWidth l = getWidth r"
    and e: "fold_Sub_any K B add sub l r = Some e"
  shows "modulo_means \<sigma> e (getWidth r) (eval \<sigma> l - eval \<sigma> r)"
proof -
  have base: "b_Binary B Sub l r = Some e \<Longrightarrow> ?thesis"
    by (rule differencesD [OF _ base_sums(2) [OF assms(1)] self_mod [OF assms(1)] self_mod [OF assms(1)]]) (use assms in auto)
  note nested = nested_calls [OF assms(1-3), where w = "getWidth r"] nested_negated [OF assms(1-3), where w = "getWidth r"]
  show ?thesis
    using e base assms(4-6) unfolding fold_Sub_any_def Let_def
    by (simp split: switch_sum_split_asm const_kid_split_asm)
      (auto simp: mod_simps algebra_simps dest: nested split: bind_splits)
qed

lemma folding_sums:
  assumes "assign_ok \<sigma>" shows "sums \<sigma> (folding_Add n K B) \<and> differences \<sigma> (folding_Sub n K B)"
proof (induction n)
  case 0
  then show ?case by (simp add: sums_def differences_def)
next
  case (Suc n)
  then have IH: "sums \<sigma> (folding_Add n K B)" "differences \<sigma> (folding_Sub n K B)" by auto
  note add_const = fold_Add_const_means [OF assms IH] and sub_const = fold_Sub_const_means [OF assms IH]
  have add: "bin \<sigma> Add l r e" if "wt l" "wt r" "getWidth l = getWidth r" "folding_Add (Suc n) K B l r = Some e" for l r e
    using that(4) unfolding folding_Add.simps
  proof (rule dispatch_means)
    fix cl assume "l = ConstantExpr cl" "fold_Add_const K B (folding_Add n K B) (folding_Sub n K B) cl r = Some e"
    with add_const [of cl r e] that show "bin \<sigma> Add l r e" by simp
  next
    fix cr assume "r = ConstantExpr cr" "fold_Add_const K B (folding_Add n K B) (folding_Sub n K B) cr l = Some e"
    with add_const [of cr l e] that show "bin \<sigma> Add l r e" by (simp add: add.commute)
  qed (use that fold_Add_any_means [OF assms IH] in simp_all)
  have sub: "bin \<sigma> Sub l r e" if "wt l" "wt r" "getWidth l = getWidth r" "folding_Sub (Suc n) K B l r = Some e" for l r e
    using that(4) unfolding folding_Sub.simps
  proof (rule dispatch_means)
    fix cl assume "l = ConstantExpr cl" "fold_Sub_const K B (folding_Add n K B) (folding_Sub n K B) cl r = Some e"
    with sub_const [of cl r e] that show "bin \<sigma> Sub l r e" by simp
  next
    fix cr assume r: "r = ConstantExpr cr" "fold_Add_const K B (folding_Add n K B) (folding_Sub n K B) (CE_Neg K cr) l = Some e"
    then have "CE_Neg K cr = APInt (getBitWidth cr) (- getZExtValue cr mod 2 ^ getBitWidth cr)"
      using that by (simp add: CE_Neg_eq take_bit_eq_mod)
    with add_const [OF _ _ _ r(2)] r that show "bin \<sigma> Sub l r e"
      by (simp add: wf_ap_def mod_simps)
  qed (use that fold_Sub_any_means [OF assms IH] in simp_all)
  show ?case using add sub by (simp add: sums_def differences_def)
qed

text \<open>The other operators with one constant operand.\<close>

lemma const_operand:
  assumes "assign_ok \<sigma>" "wf_ap c" "wt r" "getWidth r = getBitWidth c"
  shows "fold_Mul B c r = Some e \<Longrightarrow> bin \<sigma> Mul (ConstantExpr c) r e"
    "fold_And B c r = Some e \<Longrightarrow> bin \<sigma> And (ConstantExpr c) r e"
    "fold_Or B c r = Some e \<Longrightarrow> bin \<sigma> Or (ConstantExpr c) r e"
    "fold_Xor B c r = Some e \<Longrightarrow> bin \<sigma> Xor (ConstantExpr c) r e"
    "fold_Eq B c r = Some e \<Longrightarrow> bin \<sigma> Eq (ConstantExpr c) r e"
proof -
  let ?w = "getBitWidth c"
  note base = binary [OF assms(1), of "ConstantExpr c" r]
  have v: "inr ?w (eval \<sigma> r)" "take_bit ?w (eval \<sigma> r) = eval \<sigma> r" "inr ?w (getZExtValue c)" "0 < ?w"
    using eval_inr [OF assms(1,3)] assms(2,4) by (auto simp: inr_iff_take_bit wf_ap_def)
  have ones: "(2 ^ ?w - 1) AND eval \<sigma> r = eval \<sigma> r" "(2 ^ ?w - 1) OR eval \<sigma> r = 2 ^ ?w - 1"
    using mask_and [OF v(1)] mask_or [OF v(1)] by (simp_all add: and.commute or.commute)
  show "fold_Mul B c r = Some e \<Longrightarrow> bin \<sigma> Mul (ConstantExpr c) r e"
    using base [of Mul e] assms v
    by (auto simp: fold_Mul_def means_def bv_bin_def bv_width_def ap_isZero_def split: if_splits)
  show "fold_And B c r = Some e \<Longrightarrow> bin \<sigma> And (ConstantExpr c) r e"
    using base [of And e] assms v ones
    by (auto simp: fold_And_def means_def bv_bin_def bv_width_def ap_tests split: if_splits)
  show "fold_Or B c r = Some e \<Longrightarrow> bin \<sigma> Or (ConstantExpr c) r e"
    using base [of Or e] assms v ones
    by (auto simp: fold_Or_def means_def bv_bin_def bv_width_def ap_tests split: if_splits)
  show "fold_Xor B c r = Some e \<Longrightarrow> bin \<sigma> Xor (ConstantExpr c) r e"
    using base [of Xor e] assms v
    by (auto simp: fold_Xor_def means_def bv_bin_def bv_width_def ap_tests split: if_splits)
  show "fold_Eq B c r = Some e \<Longrightarrow> bin \<sigma> Eq (ConstantExpr c) r e"
  proof -
    assume f: "fold_Eq B c r = Some e"
    show ?thesis
    proof (cases "?w = 1")
      case True
      have bits: "getZExtValue c = 0 \<or> getZExtValue c = 1" "eval \<sigma> r = 0 \<or> eval \<sigma> r = 1"
        using v True inr_Suc0D by auto
      have "b_Not B r = Some e \<Longrightarrow> means \<sigma> e 1 (take_bit 1 (NOT (eval \<sigma> r)))"
        using negation [OF assms(1,3)] assms(4) True by simp
      with bits f True assms show ?thesis
        by (auto simp: fold_Eq_def means_def bv_bin_def bv_width_def ap_isTrue_def not_int_def split: if_splits)
    next
      case False
      with f base [of Eq e] assms show ?thesis by (simp add: fold_Eq_def)
    qed
  qed
qed

lemma swapped: "\<lbrakk>bin \<sigma> k r l e; k \<in> {Mul, And, Or, Xor, Eq}; getWidth l = getWidth r\<rbrakk> \<Longrightarrow> bin \<sigma> k l r e"
  by (auto simp: bv_bin_def bv_width_def mult.commute and.commute or.commute xor.commute eq_commute)

lemma dispatch_commutes:
  assumes "dispatch K k f (\<lambda>l c. f c l) g l r = Some e" "k \<in> {Mul, And, Or, Xor, Eq}"
    and wt: "wt l" "wt r" "getWidth l = getWidth r"
    and f: "\<And>c r. wf_ap c \<Longrightarrow> wt r \<Longrightarrow> getWidth r = getBitWidth c \<Longrightarrow> f c r = Some e \<Longrightarrow> bin \<sigma> k (ConstantExpr c) r e"
    and g: "g l r = Some e \<Longrightarrow> bin \<sigma> k l r e"
  shows "bin \<sigma> k l r e"
  using assms(1)
proof (rule dispatch_means [OF _ wt])
  fix c assume "r = ConstantExpr c" "f c l = Some e"
  with f [of c l] wt have "bin \<sigma> k r l e" by simp
  then show "bin \<sigma> k l r e" using swapped assms(2) wt(3) by blast
next
  fix c assume "l = ConstantExpr c" "f c r = Some e"
  with f [of c r] wt show "bin \<sigma> k l r e" by simp
qed (use assms(2) g in auto)

lemma folding_binary_means:
  assumes "assign_ok \<sigma>" "wt l" "wt r" "getWidth l = getWidth r" "is_div k \<longrightarrow> eval \<sigma> r \<noteq> 0"
    and e: "folding_binary K B k l r = Some e"
  shows "bin \<sigma> k l r e"
proof -
  note co = const_operand [OF assms(1), where e = e] and base = binary [OF assms(1-4), where e = e]
  note sd = folding_sums [OF assms(1), of "Suc (fold_rank l r)"]
  have other: "dispatch_any K k (b_Binary B k) l r = Some e \<Longrightarrow> ?thesis"
    by (rule dispatch_any_means [OF _ assms(2-5)]) (use base [of k] assms(5) in auto)
  have comm: "bin \<sigma> k l r e" if "dispatch K k f (\<lambda>l c. f c l) (b_Binary B k) l r = Some e" "k \<in> {Mul, And, Or, Xor, Eq}"
    "\<And>c r. \<lbrakk>wf_ap c; wt r; getWidth r = getBitWidth c; f c r = Some e\<rbrakk> \<Longrightarrow> bin \<sigma> k (ConstantExpr c) r e" for f
    using dispatch_commutes [OF that(1,2) assms(2-4) that(3)] base [of k] assms(5) by blast
  show ?thesis
  proof (cases k)
    case Add
    with e have "folding_Add (Suc (fold_rank l r)) K B l r = Some e" by (simp add: folding_binary_def)
    with sd assms(2-4) have "modulo_means \<sigma> e (getWidth l) (eval \<sigma> l + eval \<sigma> r)" unfolding sums_def by blast
    with Add show ?thesis by simp
  next
    case Sub
    with e have "folding_Sub (Suc (fold_rank l r)) K B l r = Some e" by (simp add: folding_binary_def)
    with sd assms(2-4) have "modulo_means \<sigma> e (getWidth l) (eval \<sigma> l - eval \<sigma> r)" unfolding differences_def by blast
    with Sub show ?thesis by simp
  next
    case Mul
    have "dispatch K k (fold_Mul B) (\<lambda>l c. fold_Mul B c l) (b_Binary B k) l r = Some e"
      using e Mul by (simp add: folding_binary_def)
    then show ?thesis by (rule comm) (use Mul co(1) in \<open>blast+\<close>)
  next
    case And
    have "dispatch K k (fold_And B) (\<lambda>l c. fold_And B c l) (b_Binary B k) l r = Some e"
      using e And by (simp add: folding_binary_def)
    then show ?thesis by (rule comm) (use And co(2) in \<open>blast+\<close>)
  next
    case Or
    have "dispatch K k (fold_Or B) (\<lambda>l c. fold_Or B c l) (b_Binary B k) l r = Some e"
      using e Or by (simp add: folding_binary_def)
    then show ?thesis by (rule comm) (use Or co(3) in \<open>blast+\<close>)
  next
    case Xor
    have "dispatch K k (fold_Xor B) (\<lambda>l c. fold_Xor B c l) (b_Binary B k) l r = Some e"
      using e Xor by (simp add: folding_binary_def)
    then show ?thesis by (rule comm) (use Xor co(4) in \<open>blast+\<close>)
  next
    case Eq
    have "dispatch K k (fold_Eq B) (\<lambda>l c. fold_Eq B c l) (b_Binary B k) l r = Some e"
      using e Eq by (simp add: folding_binary_def)
    then show ?thesis by (rule comm) (use Eq co(5) in \<open>blast+\<close>)
  qed (use e other in \<open>simp_all add: folding_binary_def\<close>)
qed

lemma folding_laws: "builder_laws K (folding_builder K B)"
  unfolding folding_builder_def
proof (rule specialize_laws)
  fix \<sigma> l e assume a: "assign_ok \<sigma>" "wt l" "dispatch_Not K (b_Not B) l = Some e"
  show "means \<sigma> e (getWidth l) (take_bit (getWidth l) (NOT (eval \<sigma> l)))"
    by (rule dispatch_Not_means [OF a(3,1,2) negation [OF a(1,2)]])
qed (rule folding_binary_means)

subsection \<open>Simplifying keeps the promise\<close>

lemma not_or: "assign_ok \<sigma> \<Longrightarrow> take_bit w (NOT (a OR b)) = take_bit w (NOT a) AND take_bit w (NOT (b :: int))"
  by (rule bit_eqI) (auto simp: bit_simps)

lemma simp_And_means:
  assumes "assign_ok \<sigma>" "wt l" "wt r" "getWidth l = getWidth r" "simp_And K B l r = Some e"
  shows "bin \<sigma> And l r e"
  using assms(5) unfolding simp_And_def
  by (rule dispatch_any_means) (use assms binary [OF assms(1-4), of And] in auto)

lemma simp_Not_means:
  assumes "assign_ok \<sigma>"
  shows "wt l \<Longrightarrow> simp_Not K B l = Some e \<Longrightarrow> means \<sigma> e (getWidth l) (take_bit (getWidth l) (NOT (eval \<sigma> l)))"
proof (induction l arbitrary: e rule: expr.induct [where ?P2.0 = "\<lambda>_. True"])
  case (NotExpr x)
  then show ?case using eval_inr [OF assms, of x] by (simp add: means_def not_not)
next
  case (BinaryExpr k x y)
  show ?case
  proof (cases "k = Or")
    case True
    with BinaryExpr.prems obtain a b where ab: "simp_Not K B x = Some a" "simp_Not K B y = Some b" "simp_And K B a b = Some e"
      by (auto split: bind_splits)
    have w: "wt x" "wt y" "getWidth x = getWidth y" using BinaryExpr.prems by auto
    note m = BinaryExpr.IH(1) [OF w(1) ab(1)] BinaryExpr.IH(2) [OF w(2) ab(2)]
    have "bin \<sigma> And a b e" by (rule simp_And_means [OF assms _ _ _ ab(3)]) (use m w(3) in \<open>simp_all add: means_def\<close>)
    with m w(3) True show ?thesis by (simp add: means_def bv_width_def bv_bin_def not_or)
  next
    case False
    with BinaryExpr.prems simp_Not_binary negation [OF assms] show ?thesis by metis
  qed
next
  case (ConstantExpr c)
  then show ?case by (auto simp: means_def CE_Not_eq wf_ap_def)
qed (rule negation [OF assms]; simp | simp)+

lemma simp_Eq_means:
  assumes "assign_ok \<sigma>" "wt l" "wt r" "getWidth l = getWidth r" "simp_Eq K B l r = Some e"
  shows "bin \<sigma> Eq l r e"
  using assms(5) unfolding simp_Eq_def
proof (rule dispatch_commutes)
  show "bin \<sigma> Eq l r e" if "(if l = r then Some (bTrue K) else b_Binary B Eq l r) = Some e"
    using that binary [OF assms(1-4), of Eq] by (auto simp: bTrue_def means_def bv_bin_def bv_width_def split: if_splits)
qed (use assms const_operand(5) [OF assms(1)] in auto)

lemma simp_binary_means:
  assumes "assign_ok \<sigma>" "wt l" "wt r" "getWidth l = getWidth r" "is_div k \<longrightarrow> eval \<sigma> r \<noteq> 0"
    and e: "simp_binary K B k l r = Some e"
  shows "bin \<sigma> k l r e"
proof -
  have plain: "dispatch_any K k (b_Binary B k) l r = Some e \<Longrightarrow> ?thesis"
    by (rule dispatch_any_means [OF _ assms(2-5)]) (use binary [OF assms(1-5)] in auto)
  have swap: "bin \<sigma> k l r e" if "dispatch_any K k (\<lambda>l r. dispatch_any K k' (b_Binary B k') r l) l r = Some e"
    "(k', k) \<in> {(Ult, Ugt), (Ule, Uge), (Slt, Sgt), (Sle, Sge)}" for k'
    using that(1)
  proof (rule dispatch_any_means [OF _ assms(2-5)])
    assume d: "dispatch_any K k' (b_Binary B k') r l = Some e"
    have "bin \<sigma> k' r l e"
      by (rule dispatch_any_means [OF d assms(3,2) assms(4) [symmetric]])
        (use that(2) binary [OF assms(1,3,2) assms(4) [symmetric], of k' e] in auto)
    then show "bin \<sigma> k l r e" using that(2) assms(4) by (auto simp: bv_width_def bv_bin_def)
  qed
  show ?thesis
  proof (cases k)
    case Eq
    with e have "simp_Eq K B l r = Some e" by (simp add: simp_binary_def)
    from simp_Eq_means [OF assms(1-4) this] Eq show ?thesis by simp
  next
    case Ne
    with e have d: "dispatch_any K Ne (\<lambda>l r. do { e \<leftarrow> simp_Eq K B l r; simp_Not K B e }) l r = Some e"
      by (simp add: simp_binary_def)
    have "bin \<sigma> Ne l r e"
    proof (rule dispatch_any_means [OF d assms(2-4)])
      assume "do { e \<leftarrow> simp_Eq K B l r; simp_Not K B e } = Some e"
      then obtain q where q: "simp_Eq K B l r = Some q" "simp_Not K B q = Some e" by (auto split: bind_splits)
      have "bin \<sigma> Eq l r q" by (rule simp_Eq_means [OF assms(1-4) q(1)])
      with simp_Not_means [OF assms(1) _ q(2)] show "bin \<sigma> Ne l r e"
        by (auto simp: means_def bv_bin_def bv_width_def not_int_def split: if_splits)
    qed simp
    with Ne show ?thesis by simp
  qed (use e plain swap in \<open>simp_all add: simp_binary_def Let_def\<close>)
qed

lemma simplifying_laws: "builder_laws K (simplifying_builder K B)"
  unfolding simplifying_builder_def
  by (rule specialize_laws) (rule simp_Not_means simp_binary_means; assumption)+

end

subsection \<open>Folding returns\<close>

definition returns :: "nat \<Rightarrow> builder_op \<Rightarrow> bool" where
  "returns n f \<longleftrightarrow> (\<forall>l r. fold_rank l r < n \<longrightarrow> (\<exists>e. f l r = Some e \<and> size e \<le> size l + size r + 1))"

lemma rank_less:
  "size l' + size r' < size l + size r \<Longrightarrow> fold_rank l' r' < fold_rank l r"
  "size l' + size r' \<le> size l + size r \<Longrightarrow> size l' < size l \<Longrightarrow> fold_rank l' r' < fold_rank l r"
proof -
  assume a: "size l' + size r' < size l + size r"
  let ?t' = "size l' + size r'" and ?t = "size l + size r"
  have "Suc ?t' * Suc ?t' \<le> ?t * ?t" using a by (intro mult_le_mono) simp_all
  then show "fold_rank l' r' < fold_rank l r" by (simp add: fold_rank_def)
next
  assume a: "size l' + size r' \<le> size l + size r" "size l' < size l"
  then have "(size l' + size r') * (size l' + size r') \<le> (size l + size r) * (size l + size r)" by (intro mult_le_mono)
  with a(2) show "fold_rank l' r' < fold_rank l r" by (simp add: fold_rank_def)
qed

lemma returnsE:
  assumes "returns n f" "fold_rank l r < n"
  obtains e where "f l r = Some e" "size e \<le> size l + size r + 1"
  using assms by (auto simp: returns_def)

lemma non_constant_size: "\<not> is_constant e \<Longrightarrow> 0 < size e"
  by (cases e) auto

context small_builder
begin

lemma fold_const_returns:
  assumes "returns n add" "returns n sub" "size r * size r < Suc n" "0 < size r"
  shows "\<exists>e. fold_Add_const K B add sub c r = Some e \<and> size e \<le> Suc (size r)"
    "\<exists>e. fold_Sub_const K B add sub c r = Some e \<and> size e \<le> Suc (size r)"
proof -
  have a: "\<exists>e. f (ConstantExpr d) x = Some e \<and> size e \<le> Suc (Suc (size x))"
    if f: "returns n f" and x: "size x < size r" for f d x
  proof -
    have "fold_rank (ConstantExpr d) x < n"
      using assms(3) rank_less(1) [of "ConstantExpr d" x "ConstantExpr d" r] x by (simp add: fold_rank_def)
    from returnsE [OF f this] show ?thesis by (metis add.commute add_0 le_SucI plus_1_eq_Suc expr.size(11))
  qed
  note calls = a [OF assms(1)] a [OF assms(2)]
  show "\<exists>e. fold_Add_const K B add sub c r = Some e \<and> size e \<le> Suc (size r)"
    "\<exists>e. fold_Sub_const K B add sub c r = Some e \<and> size e \<le> Suc (size r)"
    unfolding fold_Add_const_def fold_Sub_const_def Let_def
    using small [of Add "ConstantExpr c" r] small [of Sub "ConstantExpr c" r]
    by (auto split: switch_sum_split const_kid_split intro!: calls)
qed

text \<open>A call whose second operand is the result of another; \<open>t\<close> and \<open>h\<close> are the sizes of the outer operands.\<close>

definition bounded :: "nat \<Rightarrow> expr option \<Rightarrow> bool" where
  "bounded m r \<longleftrightarrow> (\<exists>e. r = Some e \<and> size e \<le> m)"

lemma nested_returns:
  assumes "returns n f" "returns n g" "fold_rank l r < Suc n" "size l = h" "size l + size r = t"
    and "size y + size z < t" "size x + size y + size z < t" "size x < h"
  shows "bounded (Suc t) (do { s \<leftarrow> f y z; g x s })"
proof -
  have "fold_rank y z < n" using rank_less(1) [of y z l r] assms(3-8) by simp
  from returnsE [OF assms(1) this] obtain s where s: "f y z = Some s" "size s \<le> size y + size z + 1" .
  have "fold_rank x s < n" using rank_less(2) [of x s l r] s(2) assms(3-8) by simp
  from returnsE [OF assms(2) this] obtain e where "g x s = Some e" "size e \<le> size x + size s + 1" .
  with s assms(7) show ?thesis by (simp add: bounded_def)
qed

lemma fold_any_returns:
  assumes "returns n add" "returns n sub" "fold_rank l r < Suc n" "0 < size l"
  shows "bounded (Suc (size l + size r)) (fold_Add_any K B add sub l r)"
    "bounded (Suc (size l + size r)) (fold_Sub_any K B add sub l r)"
proof -
  define t h where "t = size l + size r" and "h = size l"
  have base: "bounded (Suc t) (b_Binary B Add l r)" "bounded (Suc t) (b_Binary B Sub l r)"
    using small [of Add l r] small [of Sub l r] by (simp_all add: bounded_def t_def)
  note rules = nested_returns [OF assms(1,1,3) h_def [symmetric] t_def [symmetric]]
    nested_returns [OF assms(2,1,3) h_def [symmetric] t_def [symmetric]]
    nested_returns [OF assms(1,2,3) h_def [symmetric] t_def [symmetric]]
  have sizes: "size l + size r \<le> t" "size l \<le> h" "0 < h"
    using assms(4) by (simp_all add: t_def h_def)
  have "bounded (Suc t) (fold_Add_any K B add sub l r) \<and> bounded (Suc t) (fold_Sub_any K B add sub l r)"
    unfolding fold_Add_any_def fold_Sub_any_def Let_def using base sizes
    by (auto split: switch_sum_split const_kid_split intro!: rules)
  then show "bounded (Suc (size l + size r)) (fold_Add_any K B add sub l r)"
    "bounded (Suc (size l + size r)) (fold_Sub_any K B add sub l r)"
    by (simp_all add: t_def)
qed

lemma folding_returns: "returns n (folding_Add n K B) \<and> returns n (folding_Sub n K B)"
proof (induction n)
  case (Suc n)
  then have IH: "returns n (folding_Add n K B)" "returns n (folding_Sub n K B)" by auto
  have "bounded (Suc (size l + size r)) (folding_Add (Suc n) K B l r) \<and>
    bounded (Suc (size l + size r)) (folding_Sub (Suc n) K B l r)" if rank: "fold_rank l r < Suc n" for l r
  proof (cases "is_constant l"; cases "is_constant r")
    assume "is_constant l" "is_constant r"
    then show ?thesis by (auto simp: is_constant_iff dispatch_def bounded_def)
  next
    assume c: "is_constant l" "\<not> is_constant r"
    then obtain cl where l: "l = ConstantExpr cl" by (auto simp: is_constant_iff)
    have "size r * size r < Suc n" using rank l by (simp add: fold_rank_def)
    from fold_const_returns [OF IH this non_constant_size [OF c(2)], of K cl] l c(2) show ?thesis
      by (simp add: dispatch_def bounded_def as_const_None [THEN iffD2])
  next
    assume c: "\<not> is_constant l" "is_constant r"
    then obtain cr where r: "r = ConstantExpr cr" by (auto simp: is_constant_iff)
    have "size l * size l < Suc n" using rank r by (simp add: fold_rank_def)
    from fold_const_returns(1) [OF IH this non_constant_size [OF c(1)], of K] r c(1) show ?thesis
      by (simp add: dispatch_def bounded_def as_const_None [THEN iffD2])
  next
    assume c: "\<not> is_constant l" "\<not> is_constant r"
    from fold_any_returns [OF IH rank non_constant_size [OF c(1)], of K] c show ?thesis
      by (simp add: dispatch_def as_const_None [THEN iffD2])
  qed
  then show ?case by (simp add: returns_def bounded_def)
qed (simp add: returns_def)

text \<open>The other methods return when those of the base do.\<close>

lemma dispatch_returns:
  "\<lbrakk>\<And>c r. \<exists>e. cn c r = Some e; \<And>l c. \<exists>e. nc l c = Some e; \<And>l r. \<exists>e. nn l r = Some e\<rbrakk> \<Longrightarrow> \<exists>e. dispatch K k cn nc nn l r = Some e"
  by (auto simp: dispatch_def split: option.split)

lemma dispatch_any_returns: "(\<And>l r. \<exists>e. f l r = Some e) \<Longrightarrow> \<exists>e. dispatch_any K k f l r = Some e"
  unfolding dispatch_any_def by (rule dispatch_returns)

lemma roll_back_returns:
  assumes "\<And>r. wt r \<Longrightarrow> getWidth i = getWidth r \<Longrightarrow> \<exists>e. eq i r = Some e \<and> getWidth e = 1" "getWidth i = arr_domain a"
  shows "wt_updates us a \<Longrightarrow> \<exists>us'. roll_back eq i us = Some us'"
proof (induction us rule: updates.induct [where ?P1.0 = "\<lambda>_. True"])
  case (UpdateNode ui uv n)
  then obtain e where "eq i ui = Some e" "getWidth e = 1" using assms(1) [of ui] assms(2) by auto
  with UpdateNode show ?case by (simp add: isFalse_def)
qed auto

lemma specialize_returns:
  assumes "\<And>l. \<exists>e. f l = Some e" "\<And>k l r. \<exists>e. g k l r = Some e"
    and "\<And>k l r. k \<in> {Add, Sub} \<Longrightarrow> \<exists>e. g k l r = Some e \<and> size e \<le> size l + size r + 1"
  shows "small_builder (specialize K B f g)"
  by unfold_locales (use assms in \<open>simp_all add: specialize_def\<close>)

lemma const_operand_returns:
  "\<exists>e. fold_Mul B c r = Some e" "\<exists>e. fold_And B c r = Some e" "\<exists>e. fold_Or B c r = Some e" "\<exists>e. fold_Xor B c r = Some e"
  "\<exists>e. fold_Eq B c r = Some e"
  using binary_returns not_returns by (simp_all add: fold_Mul_def fold_And_def fold_Or_def fold_Xor_def fold_Eq_def)

lemma folding_small: "small_builder (folding_builder K B)"
  unfolding folding_builder_def
proof (rule specialize_returns)
  have sums: "\<exists>e. folding_binary K B k l r = Some e \<and> size e \<le> size l + size r + 1" if "k \<in> {Add, Sub}" for k l r
    using folding_returns [of "Suc (fold_rank l r)" K] that
    by (auto simp: folding_binary_def returns_def simp del: folding_Add.simps folding_Sub.simps)
  show "\<exists>e. folding_binary K B k l r = Some e \<and> size e \<le> size l + size r + 1" if "k \<in> {Add, Sub}" for k l r
    using that by (rule sums)
  show "\<exists>e. folding_binary K B k l r = Some e" for k l r
    using sums [of k l r]
    by (cases k) (auto simp: folding_binary_def intro!: dispatch_returns dispatch_any_returns const_operand_returns binary_returns
      simp del: folding_Add.simps folding_Sub.simps)
  show "\<exists>e. dispatch_Not K (b_Not B) l = Some e" for l
    using not_returns [of l] by (cases l) (simp_all add: dispatch_Not_def)
qed

lemma simp_Not_returns: "\<exists>e. simp_Not K B l = Some e"
proof (induction l rule: expr.induct [where ?P2.0 = "\<lambda>_. True"])
  case (BinaryExpr k x y)
  then obtain a b where ab: "simp_Not K B x = Some a" "simp_Not K B y = Some b" by blast
  have "\<exists>e. simp_And K B a b = Some e" unfolding simp_And_def by (rule dispatch_any_returns) (rule binary_returns)
  with ab not_returns show ?case by (cases "k = Or") (simp_all add: simp_Not_binary)
qed (simp_all add: not_returns)

lemma simplifying_small: "small_builder (simplifying_builder K B)"
  unfolding simplifying_builder_def
proof (rule specialize_returns)
  have plain: "\<exists>e. dispatch_any K k (b_Binary B k) l r = Some e" for k l r
    by (rule dispatch_any_returns) (rule binary_returns)
  have eq: "\<exists>e. simp_Eq K B l r = Some e" for l r
    unfolding simp_Eq_def by (rule dispatch_returns) (auto simp: const_operand_returns binary_returns)
  have ne: "\<exists>e. do { e \<leftarrow> simp_Eq K B l r; simp_Not K B e } = Some e" for l r
    using eq [of l r] simp_Not_returns by auto
  show "\<exists>e. simp_binary K B k l r = Some e" for k l r
    using plain eq by (cases k) (auto simp: simp_binary_def Let_def intro!: dispatch_any_returns plain ne)
  show "\<exists>e. simp_binary K B k l r = Some e \<and> size e \<le> size l + size r + 1" if "k \<in> {Add, Sub}" for k l r
    using that small [OF that, of l r] by (cases l; cases r) (auto simp: simp_binary_def Let_def dispatch_any_def dispatch_def)
qed (rule simp_Not_returns)

end

lemma stack_laws: "env K \<Longrightarrow> builder_laws K (stack_builders K ls)"
proof (induction ls)
  case (Cons l ls)
  then show ?case by (cases l) (simp_all add: builder_laws.folding_laws builder_laws.simplifying_laws)
qed (simp add: default_builder_laws)

lemma stack_small: "small_builder (stack_builders K ls)"
proof (induction ls)
  case (Cons l ls)
  then show ?case by (cases l) (simp_all add: small_builder.folding_small small_builder.simplifying_small)
qed (simp add: plain.small_builder_axioms)

text \<open>A read returns: the comparisons with the indices of the writes do, and their results are of width 1.\<close>

lemma specialize_reads:
  assumes B: "builder_laws K (specialize K B f g)" "small_builder (specialize K B f g)"
    and w: "wt (ReadExpr a us i)" and reads: "\<And>us. wt (ReadExpr a us i) \<Longrightarrow> \<exists>e. b_Read B a us i = Some e"
  shows "\<exists>e. b_Read (specialize K B f g) a us i = Some e"
proof -
  let ?S = "specialize K B f g"
  have eq: "b_Binary ?S = g" and rd: "b_Read ?S a us i = Option.bind (roll_back (g Eq) i us) (\<lambda>us. b_Read B a us i)"
    by (simp_all add: specialize_def)
  let ?z = "\<lambda>a i. 0 :: int"
  have z: "assign_ok ?z" by (simp add: assign_ok_def)
  have m: "means ?z e (bv_width Eq (getWidth l)) (bv_bin Eq (getWidth l) (eval ?z l) (eval ?z r))"
    if "wt l" "wt r" "getWidth l = getWidth r" "g Eq l r = Some e" for l r e
    using builder_laws.binary [OF B(1) z that(1-3), of Eq e] that(4) by (simp add: eq)
  have c: "\<exists>e. g Eq i r = Some e \<and> getWidth e = 1" if r: "wt r" "getWidth i = getWidth r" for r
  proof -
    obtain e where e: "g Eq i r = Some e" using small_builder.binary_returns [OF B(2), of Eq i r] by (auto simp: eq)
    from m [OF _ r e] w have "getWidth e = 1" by (simp add: means_def bv_width_def)
    with e show ?thesis by blast
  qed
  have u: "getWidth i = arr_domain a" "wt_updates us a" using w by simp_all
  obtain us' where us: "roll_back (g Eq) i us = Some us'" using small_builder.roll_back_returns [of _ i "g Eq" a us, OF B(2) c u] by blast
  have wi: "wt i" using w by simp
  have "wt_updates us' a \<and> eval_read ?z us' a (eval ?z i) = eval_read ?z us a (eval ?z i)"
    by (rule env.roll_back_means [OF builder_laws.axioms(1) [OF B(1)] _ wi u us]) (rule m)
  then have "wt (ReadExpr a us' i)" using w by simp
  with reads us show ?thesis by (simp add: rd)
qed

lemma stack_reads: "env K \<Longrightarrow> wt (ReadExpr a us i) \<Longrightarrow> \<exists>e. b_Read (stack_builders K ls) a us i = Some e"
proof (induction ls arbitrary: us)
  case (Cons l ls)
  have B: "builder_laws K (stack_builders K (l # ls))" "small_builder (stack_builders K (l # ls))"
    using stack_laws [OF Cons.prems(1)] stack_small by blast+
  show ?case
    using B specialize_reads [OF _ _ Cons.prems(2) Cons.IH [OF Cons.prems(1)]]
    by (cases l) (auto simp: folding_builder_def simplifying_builder_def)
qed (simp add: default_builder_def)

section \<open>Properties\<close>

text \<open>C32: every stack of folding and simplifying builders over the plain one builds what it is asked for: a binary
  operation, a negation and a read (which steps back over writes that its own equality shows to be elsewhere) come
  back well typed, of the right width and with the value of the operation, for every assignment in which no
  division has the divisor zero.\<close>

theorem builders_sound:
  assumes "env K" "assign_ok \<sigma>" "wt l"
  shows "(\<forall>k r e. wt r \<and> getWidth l = getWidth r \<and> (is_div k \<longrightarrow> eval \<sigma> r \<noteq> 0) \<and>
      b_Binary (stack_builders K ls) k l r = Some e \<longrightarrow>
      wt e \<and> getWidth e = bv_width k (getWidth l) \<and> eval \<sigma> e = bv_bin k (getWidth l) (eval \<sigma> l) (eval \<sigma> r)) \<and>
    (\<forall>e. b_Not (stack_builders K ls) l = Some e \<longrightarrow>
      wt e \<and> getWidth e = getWidth l \<and> eval \<sigma> e = take_bit (getWidth l) (NOT (eval \<sigma> l))) \<and>
    (\<forall>a us e. wt (ReadExpr a us l) \<and> b_Read (stack_builders K ls) a us l = Some e \<longrightarrow>
      wt e \<and> getWidth e = arr_range a \<and> eval \<sigma> e = eval_read \<sigma> us a (eval \<sigma> l))"
proof -
  note B = stack_laws [OF assms(1), of ls]
  show ?thesis
    using builder_laws.binary [OF B assms(2,3)] builder_laws.negation [OF B assms(2,3)] builder_laws.read [OF B assms(2)]
    unfolding means_def by blast
qed

text \<open>C33: the folding of nested sums and differences, whose methods call themselves on each other's results, always
  returns, and so do all binary methods and negation of every stack of builders, and its reads of well-typed
  operands, where the comparison with every write's index has the width that \<^verbatim>\<open>isFalse\<close> asserts; a sum or
  difference has at most one node more than its operands.\<close>

theorem builders_return:
  "(\<exists>e. b_Binary (stack_builders K ls) k l r = Some e \<and> (k \<in> {Add, Sub} \<longrightarrow> size e \<le> size l + size r + 1)) \<and>
   (\<exists>e. b_Not (stack_builders K ls) l = Some e) \<and>
   (env K \<and> wt (ReadExpr a us l) \<longrightarrow> (\<exists>e. b_Read (stack_builders K ls) a us l = Some e))"
  using small_builder.small [OF stack_small, of k K ls l r] small_builder.binary_returns [OF stack_small, of K ls k l r]
    small_builder.not_returns [OF stack_small, of K ls l] stack_reads [of K a us l ls] by auto

subsection \<open>Witnesses\<close>

definition sum_of_sums :: "expr \<times> expr" where
  "sum_of_sums = (BinaryExpr Add (ConstantExpr (APInt 8 3)) (rd 0), BinaryExpr Add (rd 1) (ConstantExpr (APInt 8 250)))"

lemma sum_of_sums_folded:
  "b_Binary (stack_builders (std_env True) [Simplifying, ConstantFolding]) Add (fst sum_of_sums) (snd sum_of_sums) =
     Some (BinaryExpr Add (ConstantExpr (APInt 8 253)) (BinaryExpr Add (rd 0) (rd 1)))"
  by code_simp

theorem builders_sound_witness:
  "eval seq_assignment (BinaryExpr Add (ConstantExpr (APInt 8 253)) (BinaryExpr Add (rd 0) (rd 1))) =
   bv_bin Add 8 (eval seq_assignment (fst sum_of_sums)) (eval seq_assignment (snd sum_of_sums))"
proof -
  have w: "wt (fst sum_of_sums)" "wt (snd sum_of_sums)" "getWidth (fst sum_of_sums) = 8" "getWidth (snd sum_of_sums) = 8"
    by (simp_all add: sum_of_sums_def inr_def bv_width_def)
  note s = builders_sound [OF std_e.env_axioms seq_assign_ok w(1), where ls = "[Simplifying, ConstantFolding]", THEN conjunct1]
  have "\<not> is_div Add" "getWidth (fst sum_of_sums) = getWidth (snd sum_of_sums)" using w by simp_all
  with s w sum_of_sums_folded show ?thesis by metis
qed

theorem builders_return_witness:
  "(\<exists>e. b_Binary (stack_builders (std_env True) [Simplifying, ConstantFolding]) Add (fst sum_of_sums) (snd sum_of_sums) = Some e \<and>
     size e \<le> 5) \<and>
   (\<exists>e. b_Read (stack_builders (std_env True) [Simplifying]) sym_array
     (UpdateNode (ZExtExpr (rd 1) 32) (rd 2) UpdateNil) (ConstantExpr (APInt 32 3)) = Some e)"
proof -
  have s: "size (fst sum_of_sums) = 2" "size (snd sum_of_sums) = 2" by (simp_all add: sum_of_sums_def)
  have "\<exists>e. b_Binary (stack_builders (std_env True) [Simplifying, ConstantFolding]) Add (fst sum_of_sums) (snd sum_of_sums) = Some e \<and>
      (Add \<in> {Add, Sub} \<longrightarrow> size e \<le> size (fst sum_of_sums) + size (snd sum_of_sums) + 1)"
    by (rule builders_return [THEN conjunct1])
  moreover have "\<exists>e. b_Read (stack_builders (std_env True) [Simplifying]) sym_array
      (UpdateNode (ZExtExpr (rd 1) 32) (rd 2) UpdateNil) (ConstantExpr (APInt 32 3)) = Some e"
    by (rule builders_return [THEN conjunct2, THEN conjunct2, THEN mp]) (simp add: std_e.env_axioms inr_def)
  ultimately show ?thesis by (simp add: s del: stack_builders.simps)
qed

end
