(* ===== verification/ArrayCache.thy ===== *)
theory ArrayCache
  imports ExprCreateSound
begin

text \<open>
  Arrays of bits (\<^verbatim>\<open>klee/util/BitArray.h\<close>), the cache of \<^verbatim>\<open>Array\<close> objects (\<^verbatim>\<open>lib/Expr/ArrayCache.cpp\<close>) and
  the process-wide \<^verbatim>\<open>Context\<close> (\<^verbatim>\<open>lib/Core/Context.cpp\<close>), the services that the memory model of theory
  \<open>ObjectState\<close> is built from.
\<close>

subsection \<open>BitArray\<close>

text \<open>The bits are packed in 32-bit words; \<^verbatim>\<open>memset\<close> fills the bytes with \<^verbatim>\<open>0xFF\<close> or \<^verbatim>\<open>0\<close>.\<close>

type_synonym bit_array = "32 word list"

definition ba_length :: "nat \<Rightarrow> nat" where
  "ba_length sz = (sz + 31) div 32"

definition BitArray :: "nat \<Rightarrow> bool \<Rightarrow> bit_array" where
  "BitArray sz v = replicate (ba_length sz) (if v then 0xFFFFFFFF else 0)"

definition BitArray_copy :: "bit_array \<Rightarrow> nat \<Rightarrow> bit_array" where
  "BitArray_copy b sz = take (ba_length sz) b"

definition ba_get :: "bit_array \<Rightarrow> nat \<Rightarrow> bool" where
  "ba_get b idx \<longleftrightarrow> drop_bit (idx AND 31) (b ! (idx div 32)) AND 1 \<noteq> 0"

definition ba_set :: "bit_array \<Rightarrow> nat \<Rightarrow> bit_array" where
  "ba_set b idx = b[idx div 32 := b ! (idx div 32) OR push_bit (idx AND 31) 1]"

definition ba_unset :: "bit_array \<Rightarrow> nat \<Rightarrow> bit_array" where
  "ba_unset b idx = b[idx div 32 := b ! (idx div 32) AND NOT (push_bit (idx AND 31) 1)]"

definition ba_put :: "bit_array \<Rightarrow> nat \<Rightarrow> bool \<Rightarrow> bit_array" where
  "ba_put b idx v = (if v then ba_set b idx else ba_unset b idx)"

lemma low_bits: "(n :: nat) AND 31 = n mod 32"
proof -
  have "n AND mask 5 = take_bit 5 n" by (simp add: take_bit_eq_mask)
  moreover have "mask 5 = (31 :: nat)" by (simp add: mask_eq_exp_minus_1)
  ultimately show ?thesis by (simp add: take_bit_eq_mod)
qed

lemma ba_get_bit: "ba_get b i \<longleftrightarrow> bit (b ! (i div 32)) (i mod 32)"
proof -
  have "drop_bit n w AND 1 \<noteq> 0 \<longleftrightarrow> bit w n" for w :: "32 word" and n
    by (simp add: and_one_eq odd_iff_mod_2_eq_one [symmetric] bit_iff_odd_drop_bit)
  then show ?thesis by (simp add: ba_get_def low_bits)
qed

lemma word_index: "i < n \<Longrightarrow> i div 32 < ba_length n"
  unfolding ba_length_def by linarith

lemma ba_put_length [simp]:
  "length (ba_set b i) = length b" "length (ba_unset b i) = length b" "length (ba_put b i v) = length b"
  by (simp_all add: ba_set_def ba_unset_def ba_put_def)

lemma BitArray_length [simp]:
  "length (BitArray n v) = ba_length n" "length b = ba_length n \<Longrightarrow> BitArray_copy b n = b"
  by (simp_all add: BitArray_def BitArray_copy_def)

lemma ba_get_new [simp]: "i < n \<Longrightarrow> ba_get (BitArray n v) i \<longleftrightarrow> v"
proof -
  have "bit (0xFFFFFFFF :: 32 word) k" if "k < 32" for k
  proof -
    have "(0xFFFFFFFF :: 32 word) = - 1" by simp
    then show ?thesis using that by (simp only: bit_minus_1_iff) simp
  qed
  then show "i < n \<Longrightarrow> ?thesis" by (simp add: ba_get_bit BitArray_def word_index)
qed

lemma same_place: "(i :: nat) div 32 = j div 32 \<Longrightarrow> i mod 32 = j mod 32 \<Longrightarrow> i = j"
  by (metis div_mult_mod_eq)

lemma ba_get_set [simp]:
  assumes "length b = ba_length n" "i < n" "j < n"
  shows "ba_get (ba_set b i) j \<longleftrightarrow> j = i \<or> ba_get b j"
  using assms word_index [of i n] same_place [of j i]
  by (cases "i div 32 = j div 32")
    (auto simp: ba_get_bit ba_set_def low_bits bit_simps)

lemma ba_get_unset [simp]:
  assumes "length b = ba_length n" "i < n" "j < n"
  shows "ba_get (ba_unset b i) j \<longleftrightarrow> j \<noteq> i \<and> ba_get b j"
  using assms word_index [of i n] same_place [of j i]
  by (cases "i div 32 = j div 32")
    (auto simp: ba_get_bit ba_unset_def low_bits bit_simps)

lemma ba_get_put:
  assumes "length b = ba_length n" "i < n" "j < n"
  shows "ba_get (ba_put b i v) j \<longleftrightarrow> (if j = i then v else ba_get b j)"
  using assms by (simp add: ba_put_def)

subsection \<open>Array and ArrayCache\<close>

text \<open>
  \<open>next_addr\<close> is the address that \<^verbatim>\<open>new\<close> returns next. The constructor of \<^verbatim>\<open>Array\<close> asserts that a constant
  array has a value of the array's range for every index. \<^verbatim>\<open>cachedSymbolicArrays\<close> is a hash set whose
  equality is \<^verbatim>\<open>EquivArrayCmpFn\<close>; its hash is computed from the same two fields.
\<close>

record array_cache =
  next_addr :: nat
  cachedSymbolicArrays :: "array list"
  concreteArrays :: "array list"

definition Array :: "nat \<Rightarrow> string \<Rightarrow> nat \<Rightarrow> apint list \<Rightarrow> nat \<Rightarrow> nat \<Rightarrow> array option" where
  "Array addr name sz vals domw rngw =
     (let a = \<lparr>arr_addr = addr, arr_name = name, arr_size = sz, arr_domain = domw, arr_range = rngw, constantValues = vals\<rparr>
      in if (isSymbolicArray a \<or> length vals = sz) \<and> (\<forall>c \<in> set vals. getBitWidth c = rngw)
         then Some a else None)"

definition equivArrayCmp :: "array \<Rightarrow> array \<Rightarrow> bool" where
  "equivArrayCmp a b \<longleftrightarrow> arr_size a = arr_size b \<and> arr_name a = arr_name b"

definition CreateArray :: "array_cache \<Rightarrow> string \<Rightarrow> nat \<Rightarrow> apint list \<Rightarrow> nat \<Rightarrow> nat \<Rightarrow> (array \<times> array_cache) option" where
  "CreateArray C name sz vals domw rngw =
     (case Array (next_addr C) name sz vals domw rngw of
        None \<Rightarrow> None
      | Some a \<Rightarrow>
          let C = C\<lparr>next_addr := next_addr C + 1\<rparr> in
          if isSymbolicArray a then
            (case find (equivArrayCmp a) (cachedSymbolicArrays C) of
               None \<Rightarrow> Some (a, C\<lparr>cachedSymbolicArrays := a # cachedSymbolicArrays C\<rparr>)
             | Some b \<Rightarrow> if isSymbolicArray b then Some (b, C) else None)
          else Some (a, C\<lparr>concreteArrays := concreteArrays C @ [a]\<rparr>))"

definition empty_array_cache :: array_cache where
  "empty_array_cache = \<lparr>next_addr = 0, cachedSymbolicArrays = [], concreteArrays = []\<rparr>"

definition all_arrays :: "array_cache \<Rightarrow> array list" where
  "all_arrays C = cachedSymbolicArrays C @ concreteArrays C"

text \<open>
  The invariant of the cache: the objects alive have different addresses, all below the next one, the
  symbolic ones have no values and no two of them the same name and sz, the constant ones have values.
\<close>

definition array_cache_ok :: "array_cache \<Rightarrow> bool" where
  "array_cache_ok C \<longleftrightarrow> distinct (map arr_addr (all_arrays C)) \<and>
     (\<forall>a \<in> set (all_arrays C). arr_addr a < next_addr C) \<and>
     (\<forall>a \<in> set (cachedSymbolicArrays C). isSymbolicArray a) \<and>
     distinct (map (\<lambda>a. (arr_name a, arr_size a)) (cachedSymbolicArrays C)) \<and>
     (\<forall>a \<in> set (concreteArrays C). isConstantArray a)"

lemma array_cache_empty: "array_cache_ok empty_array_cache"
  by (simp add: array_cache_ok_def empty_array_cache_def all_arrays_def)

lemma Array_Some:
  "Array addr name sz vals domw rngw = Some a \<longleftrightarrow>
     a = \<lparr>arr_addr = addr, arr_name = name, arr_size = sz, arr_domain = domw, arr_range = rngw, constantValues = vals\<rparr> \<and>
     (vals = [] \<or> length vals = sz) \<and> (\<forall>c \<in> set vals. getBitWidth c = rngw)"
  by (auto simp: Array_def Let_def isSymbolicArray_def)

lemma CreateArray_constant:
  assumes "vals \<noteq> []" "length vals = sz" "\<And>c. c \<in> set vals \<Longrightarrow> getBitWidth c = rngw"
  shows "CreateArray C name sz vals domw rngw =
    (let a = \<lparr>arr_addr = next_addr C, arr_name = name, arr_size = sz, arr_domain = domw, arr_range = rngw,
       constantValues = vals\<rparr>
     in Some (a, C\<lparr>next_addr := next_addr C + 1, concreteArrays := concreteArrays C @ [a]\<rparr>))"
  using assms by (simp add: CreateArray_def Array_def isSymbolicArray_def Let_def)

lemma CreateArray_cases:
  assumes "CreateArray C name sz vals domw rngw = Some (a, C')"
  obtains (hit) "a \<in> set (cachedSymbolicArrays C)" "isSymbolicArray a" "vals = []" "arr_name a = name" "arr_size a = sz"
      "C' = C\<lparr>next_addr := next_addr C + 1\<rparr>"
    | (miss) "isSymbolicArray a" "vals = []" "arr_name a = name" "arr_size a = sz" "arr_addr a = next_addr C"
      "\<forall>b \<in> set (cachedSymbolicArrays C). \<not> equivArrayCmp a b"
      "C' = C\<lparr>next_addr := next_addr C + 1, cachedSymbolicArrays := a # cachedSymbolicArrays C\<rparr>"
    | (new) "isConstantArray a" "arr_name a = name" "arr_size a = sz" "arr_addr a = next_addr C"
      "C' = C\<lparr>next_addr := next_addr C + 1, concreteArrays := concreteArrays C @ [a]\<rparr>"
proof -
  obtain n where n: "Array (next_addr C) name sz vals domw rngw = Some n"
    using assms by (auto simp: CreateArray_def split: option.splits)
  then have n': "arr_name n = name" "arr_size n = sz" "arr_addr n = next_addr C" "constantValues n = vals"
    by (auto simp: Array_Some)
  show ?thesis
  proof (cases "vals = []")
    case True
    with n' have sym: "isSymbolicArray n" by (simp add: isSymbolicArray_def)
    show ?thesis
    proof (cases "find (equivArrayCmp n) (cachedSymbolicArrays C)")
      case None
      with assms n sym have "a = n" "C' = C\<lparr>next_addr := next_addr C + 1, cachedSymbolicArrays := n # cachedSymbolicArrays C\<rparr>"
        by (auto simp: CreateArray_def Let_def)
      with None sym n' True show ?thesis by (intro miss) (auto simp: find_None_iff)
    next
      case (Some b)
      with assms n sym have "a = b" "isSymbolicArray b" "C' = C\<lparr>next_addr := next_addr C + 1\<rparr>"
        by (simp_all add: CreateArray_def Let_def split: if_splits)
      moreover have "b \<in> set (cachedSymbolicArrays C)" "equivArrayCmp n b" using Some by (auto simp: find_Some_iff)
      ultimately show ?thesis using n' True by (intro hit) (auto simp: equivArrayCmp_def)
    qed
  next
    case False
    with n' have con: "isConstantArray n" by (simp add: isSymbolicArray_def isConstantArray_def)
    with assms n have "a = n" "C' = C\<lparr>next_addr := next_addr C + 1, concreteArrays := concreteArrays C @ [n]\<rparr>"
      by (auto simp: CreateArray_def Let_def isConstantArray_def)
    with con n' show ?thesis by (intro new) auto
  qed
qed

lemma CreateArray_symbolic:
  assumes "array_cache_ok C"
  shows "\<exists>a C'. CreateArray C name sz [] domw rngw = Some (a, C')"
proof -
  obtain n where n: "Array (next_addr C) name sz [] domw rngw = Some n" "isSymbolicArray n"
    by (auto simp: Array_Some isSymbolicArray_def)
  show ?thesis
  proof (cases "find (equivArrayCmp n) (cachedSymbolicArrays C)")
    case None
    then show ?thesis by (simp add: CreateArray_def n)
  next
    case (Some b)
    then have "isSymbolicArray b" using assms by (auto simp: array_cache_ok_def find_Some_iff)
    with Some show ?thesis by (simp add: CreateArray_def n)
  qed
qed

lemma CreateArray_ok:
  assumes ok: "array_cache_ok C" and c: "CreateArray C name sz vals domw rngw = Some (a, C')"
  shows "array_cache_ok C' \<and> a \<in> set (all_arrays C') \<and> set (all_arrays C) \<subseteq> set (all_arrays C') \<and>
    arr_name a = name \<and> arr_size a = sz"
  using c
proof (cases rule: CreateArray_cases)
  case hit
  with ok show ?thesis by (auto simp: array_cache_ok_def all_arrays_def intro: less_SucI)
next
  case miss
  have "arr_addr a \<notin> arr_addr ` set (all_arrays C)" using ok miss by (auto simp: array_cache_ok_def)
  moreover have "(arr_name a, arr_size a) \<notin> (\<lambda>a. (arr_name a, arr_size a)) ` set (cachedSymbolicArrays C)"
    using miss by (auto simp: equivArrayCmp_def)
  ultimately show ?thesis using ok miss by (auto simp: array_cache_ok_def all_arrays_def intro: less_SucI)
next
  case new
  have "arr_addr a \<notin> arr_addr ` set (all_arrays C)" using ok new by (auto simp: array_cache_ok_def)
  with ok new show ?thesis by (auto simp: array_cache_ok_def all_arrays_def intro: less_SucI)
qed

text \<open>Asked twice for a symbolic array the cache returns the same object, whatever happened in between.\<close>

lemma CreateArray_again:
  assumes ok: "array_cache_ok C'" and in_cache: "a \<in> set (cachedSymbolicArrays C')" "arr_name a = name" "arr_size a = sz"
  shows "CreateArray C' name sz [] domw rngw = Some (a, C'\<lparr>next_addr := next_addr C' + 1\<rparr>)"
proof -
  obtain b D where b: "CreateArray C' name sz [] domw rngw = Some (b, D)" using CreateArray_symbolic [OF ok] by blast
  from b show ?thesis
  proof (cases rule: CreateArray_cases)
    case hit
    have "inj_on (\<lambda>a. (arr_name a, arr_size a)) (set (cachedSymbolicArrays C'))"
      using ok by (simp add: array_cache_ok_def distinct_map)
    then have "b = a" using hit in_cache by (auto dest: inj_onD)
    with hit b show ?thesis by simp
  next
    case miss
    then show ?thesis using in_cache by (auto simp: equivArrayCmp_def)
  next
    case new
    have "isSymbolicArray b" using b
      by (auto simp: CreateArray_def Array_Some isSymbolicArray_def Let_def split: option.splits if_splits)
    with new show ?thesis by (simp add: isConstantArray_def)
  qed
qed

subsection \<open>Context\<close>

text \<open>
  What the execution core is configured with: the environment of the expression constructors, the
  data layout of the \<^verbatim>\<open>Context\<close>, the option \<^verbatim>\<open>-use-constant-arrays\<close> and LLVM's \<^verbatim>\<open>utostr\<close>, the decimal
  representation, as a parameter.
\<close>

record mem_env = expr_env +
  isLittleEndian :: bool
  pointerWidth :: nat
  UseConstantArrays :: bool
  utostr :: "nat \<Rightarrow> string"

definition createSExtToPointerWidth :: "'z mem_env_scheme \<Rightarrow> expr \<Rightarrow> expr" where
  "createSExtToPointerWidth K e = SExt_make K e (pointerWidth K)"

definition createZExtToPointerWidth :: "'z mem_env_scheme \<Rightarrow> expr \<Rightarrow> expr" where
  "createZExtToPointerWidth K e = ZExt_make K e (pointerWidth K)"

definition createPointer :: "'z mem_env_scheme \<Rightarrow> 64 word \<Rightarrow> apint" where
  "createPointer K v = ConstantExpr_alloc K (uint v) (pointerWidth K)"

end
