(* ===== verification/ObjectState.thy ===== *)
theory ObjectState
  imports ArrayCache Bits "HOL-Library.Monad_Syntax"
begin

text \<open>
  \<^verbatim>\<open>class ObjectState\<close> (\<^verbatim>\<open>lib/Core/Memory.cpp\<close>): the contents of a memory object, byte by byte. A byte is
  cached as a concrete value or as an expression, or lives only in the update list, the store of an SMT
  array; \<^verbatim>\<open>flushMask\<close> tells which cached bytes the update list does not have yet. Accesses at a constant
  offset work on the cache; accesses at a symbolic offset flush it first. An update list without a root
  stands for an array of zeros: its constant array is created when it is first read.

  A result \<open>None\<close> is a failed assertion or an access out of bounds of one of the arrays.
\<close>

record object_state =
  os_size :: nat
  concreteStore :: "8 word list"
  concreteMask :: "bit_array option"
  flushMask :: "bit_array option"
  knownSymbolics :: "expr option list option"
  upd_root :: "array option"
  upd_head :: updates
  readOnly :: bool

text \<open>The array cache and the two static counters for names.\<close>

record mem_globals =
  arrays :: array_cache
  const_arr_id :: nat
  tmp_arr_id :: nat

subsection \<open>The three bits of a byte\<close>

definition isByteConcrete :: "object_state \<Rightarrow> nat \<Rightarrow> bool" where
  "isByteConcrete S i = (case concreteMask S of None \<Rightarrow> True | Some m \<Rightarrow> ba_get m i)"

definition isByteFlushed :: "object_state \<Rightarrow> nat \<Rightarrow> bool" where
  "isByteFlushed S i = (case flushMask S of None \<Rightarrow> False | Some m \<Rightarrow> \<not> ba_get m i)"

definition isByteKnownSymbolic :: "object_state \<Rightarrow> nat \<Rightarrow> bool" where
  "isByteKnownSymbolic S i = (case knownSymbolics S of None \<Rightarrow> False | Some ks \<Rightarrow> ks ! i \<noteq> None)"

definition markByteConcrete :: "nat \<Rightarrow> object_state \<Rightarrow> object_state" where
  "markByteConcrete i S = S\<lparr>concreteMask := map_option (\<lambda>m. ba_set m i) (concreteMask S)\<rparr>"

definition markByteSymbolic :: "nat \<Rightarrow> object_state \<Rightarrow> object_state" where
  "markByteSymbolic i S =
     (let m = (case concreteMask S of None \<Rightarrow> BitArray (os_size S) True | Some m \<Rightarrow> m)
      in S\<lparr>concreteMask := Some (ba_unset m i)\<rparr>)"

definition markByteUnflushed :: "nat \<Rightarrow> object_state \<Rightarrow> object_state" where
  "markByteUnflushed i S = S\<lparr>flushMask := map_option (\<lambda>m. ba_set m i) (flushMask S)\<rparr>"

definition markByteFlushed :: "nat \<Rightarrow> object_state \<Rightarrow> object_state" where
  "markByteFlushed i S =
     S\<lparr>flushMask := Some (case flushMask S of None \<Rightarrow> BitArray (os_size S) False | Some m \<Rightarrow> ba_unset m i)\<rparr>"

definition setKnownSymbolic :: "nat \<Rightarrow> expr option \<Rightarrow> object_state \<Rightarrow> object_state" where
  "setKnownSymbolic i v S =
     (case knownSymbolics S of
        Some ks \<Rightarrow> S\<lparr>knownSymbolics := Some (ks[i := v])\<rparr>
      | None \<Rightarrow> if v \<noteq> None then S\<lparr>knownSymbolics := Some ((replicate (os_size S) None)[i := v])\<rparr> else S)"

subsection \<open>Creation\<close>

definition makeConcrete :: "object_state \<Rightarrow> object_state" where
  "makeConcrete S = S\<lparr>concreteMask := None, flushMask := None, knownSymbolics := None\<rparr>"

definition makeSymbolic :: "object_state \<Rightarrow> object_state option" where
  "makeSymbolic S =
     (if upd_head S = UpdateNil
      then Some (fold (\<lambda>i S. markByteFlushed i (setKnownSymbolic i None (markByteSymbolic i S))) [0..<os_size S] S)
      else None)"

definition initializeToZero :: "object_state \<Rightarrow> object_state" where
  "initializeToZero S = (makeConcrete S)\<lparr>concreteStore := replicate (os_size S) 0\<rparr>"

definition initializeToRandom :: "object_state \<Rightarrow> object_state" where
  "initializeToRandom S = (makeConcrete S)\<lparr>concreteStore := replicate (os_size S) 0xAB\<rparr>"

definition blank_state :: "nat \<Rightarrow> array option \<Rightarrow> object_state" where
  "blank_state sz root = \<lparr>os_size = sz, concreteStore = replicate sz 0, concreteMask = None, flushMask = None,
     knownSymbolics = None, upd_root = root, upd_head = UpdateNil, readOnly = False\<rparr>"

definition new_state :: "'z mem_env_scheme \<Rightarrow> nat \<Rightarrow> mem_globals \<Rightarrow> (object_state \<times> mem_globals) option" where
  "new_state K sz G =
     (if UseConstantArrays K then Some (blank_state sz None, G)
      else do {
        let n = tmp_arr_id G + 1;
        (a, C) \<leftarrow> CreateArray (arrays G) (''tmp_arr'' @ utostr K n) sz [] 32 8;
        Some (blank_state sz (Some a), G\<lparr>arrays := C, tmp_arr_id := n\<rparr>) })"

definition new_symbolic_state :: "nat \<Rightarrow> array \<Rightarrow> object_state option" where
  "new_symbolic_state sz a = makeSymbolic (blank_state sz (Some a))"

definition copy_state :: "object_state \<Rightarrow> object_state option" where
  "copy_state S =
     (if readOnly S then None
      else Some (S\<lparr>concreteMask := map_option (\<lambda>m. BitArray_copy m (os_size S)) (concreteMask S),
        flushMask := map_option (\<lambda>m. BitArray_copy m (os_size S)) (flushMask S),
        knownSymbolics := map_option (take (os_size S)) (knownSymbolics S), readOnly := False\<rparr>))"

subsection \<open>The update list\<close>

text \<open>\<^verbatim>\<open>updates.extend\<close>; the assertions on the widths are made when there is a root.\<close>

definition extend_updates :: "object_state \<Rightarrow> expr \<Rightarrow> expr \<Rightarrow> object_state option" where
  "extend_updates S index v =
     (case upd_root S of
        None \<Rightarrow> Some (S\<lparr>upd_head := UpdateNode index v (upd_head S)\<rparr>)
      | Some a \<Rightarrow> map_option (\<lambda>h. S\<lparr>upd_head := h\<rparr>) (Expr.extend a (upd_head S) index v))"

fun writes_of :: "updates \<Rightarrow> (expr \<times> expr) list" where
  "writes_of UpdateNil = []"
| "writes_of (UpdateNode i v n) = writes_of n @ [(i, v)]"

fun pull_concrete :: "apint list \<Rightarrow> (expr \<times> expr) list \<Rightarrow> (apint list \<times> (expr \<times> expr) list) option" where
  "pull_concrete contents [] = Some (contents, [])"
| "pull_concrete contents ((i, v) # ws) =
     (case as_const i of None \<Rightarrow> Some (contents, (i, v) # ws)
      | Some ci \<Rightarrow> (case as_const v of None \<Rightarrow> Some (contents, (i, v) # ws)
        | Some cv \<Rightarrow>
            let k = nat (getZExtValue ci) in
            if k < length contents then pull_concrete (contents[k := cv]) ws else None))"

primrec extend_all :: "object_state \<Rightarrow> (expr \<times> expr) list \<Rightarrow> object_state option" where
  "extend_all S [] = Some S"
| "extend_all S (w # ws) = do { S \<leftarrow> extend_updates S (fst w) (snd w); extend_all S ws }"

definition getUpdates :: "'z mem_env_scheme \<Rightarrow> object_state \<times> mem_globals \<Rightarrow> (object_state \<times> mem_globals) option" where
  "getUpdates K st =
     (case st of (S, G) \<Rightarrow>
        if upd_root S \<noteq> None then Some (S, G)
        else do {
          let zeros = replicate (os_size S) (ConstantExpr_alloc K 0 8);
          (contents, rest) \<leftarrow> pull_concrete zeros (writes_of (upd_head S));
          let n = const_arr_id G + 1;
          (a, C) \<leftarrow> CreateArray (arrays G) (''const_arr'' @ utostr K n) (os_size S) contents 32 8;
          S \<leftarrow> extend_all (S\<lparr>upd_root := Some a, upd_head := UpdateNil\<rparr>) rest;
          Some (S, G\<lparr>arrays := C, const_arr_id := n\<rparr>) })"

subsection \<open>Flushing\<close>

definition offset_expr :: "'z mem_env_scheme \<Rightarrow> nat \<Rightarrow> expr" where
  "offset_expr K i = ConstantExpr (ConstantExpr_alloc K (int i) 32)"

definition byte_expr :: "'z mem_env_scheme \<Rightarrow> 8 word \<Rightarrow> expr" where
  "byte_expr K b = ConstantExpr (ConstantExpr_alloc K (uint b) 8)"

text \<open>The expression in the cache of a byte; without one the assertion fails.\<close>

definition cached_expr :: "'z mem_env_scheme \<Rightarrow> object_state \<Rightarrow> nat \<Rightarrow> expr option" where
  "cached_expr K S i =
     (if isByteConcrete S i then Some (byte_expr K (concreteStore S ! i))
      else case knownSymbolics S of None \<Rightarrow> None | Some ks \<Rightarrow> ks ! i)"

definition start_flush :: "object_state \<Rightarrow> object_state" where
  "start_flush S = (if flushMask S = None then S\<lparr>flushMask := Some (BitArray (os_size S) True)\<rparr> else S)"

definition unset_flush :: "nat \<Rightarrow> object_state \<Rightarrow> object_state" where
  "unset_flush i S = S\<lparr>flushMask := map_option (\<lambda>m. ba_unset m i) (flushMask S)\<rparr>"

definition flush_byte_read :: "'z mem_env_scheme \<Rightarrow> nat \<Rightarrow> object_state \<Rightarrow> object_state option" where
  "flush_byte_read K i S =
     (if isByteFlushed S i then Some S
      else do {
        v \<leftarrow> cached_expr K S i;
        S \<leftarrow> extend_updates S (offset_expr K i) v;
        Some (unset_flush i S) })"

definition drop_cached :: "nat \<Rightarrow> object_state \<Rightarrow> object_state" where
  "drop_cached i S =
     (if isByteConcrete S i then markByteSymbolic i S
      else if isByteKnownSymbolic S i then setKnownSymbolic i None S else S)"

definition flush_byte_write :: "'z mem_env_scheme \<Rightarrow> nat \<Rightarrow> object_state \<Rightarrow> object_state option" where
  "flush_byte_write K i S =
     (if isByteFlushed S i then Some (drop_cached i S)
      else do {
        v \<leftarrow> cached_expr K S i;
        S' \<leftarrow> extend_updates S (offset_expr K i) v;
        Some (unset_flush i (drop_cached i S')) })"

primrec for_each :: "(nat \<Rightarrow> 's \<Rightarrow> 's option) \<Rightarrow> nat list \<Rightarrow> 's \<Rightarrow> 's option" where
  "for_each f [] s = Some s"
| "for_each f (i # is) s = do { s \<leftarrow> f i s; for_each f is s }"

definition flushRangeForRead :: "'z mem_env_scheme \<Rightarrow> nat \<Rightarrow> nat \<Rightarrow> object_state \<Rightarrow> object_state option" where
  "flushRangeForRead K base sz S = for_each (flush_byte_read K) [base..<base + sz] (start_flush S)"

definition flushRangeForWrite :: "'z mem_env_scheme \<Rightarrow> nat \<Rightarrow> nat \<Rightarrow> object_state \<Rightarrow> object_state option" where
  "flushRangeForWrite K base sz S = for_each (flush_byte_write K) [base..<base + sz] (start_flush S)"

definition fastRangeCheckOffset :: "object_state \<Rightarrow> expr \<Rightarrow> nat \<times> nat" where
  "fastRangeCheckOffset S offset = (0, os_size S)"

subsection \<open>Bytes\<close>

type_synonym mem = "object_state \<times> mem_globals"

definition read_updates :: "'z mem_env_scheme \<Rightarrow> expr \<Rightarrow> mem \<Rightarrow> (expr \<times> mem) option" where
  "read_updates K index st = do {
     (S, G) \<leftarrow> getUpdates K st;
     a \<leftarrow> upd_root S;
     Some (Read_make K a (upd_head S) index, (S, G)) }"

definition read8 :: "'z mem_env_scheme \<Rightarrow> nat \<Rightarrow> mem \<Rightarrow> (expr \<times> mem) option" where
  "read8 K offset st =
     (case st of (S, G) \<Rightarrow>
        if os_size S \<le> offset then None
        else if isByteConcrete S offset then Some (byte_expr K (concreteStore S ! offset), (S, G))
        else if isByteKnownSymbolic S offset then do { e \<leftarrow> the (knownSymbolics S) ! offset; Some (e, (S, G)) }
        else if isByteFlushed S offset then read_updates K (offset_expr K offset) (S, G)
        else None)"

definition read8_symbolic :: "'z mem_env_scheme \<Rightarrow> expr \<Rightarrow> mem \<Rightarrow> (expr \<times> mem) option" where
  "read8_symbolic K offset st =
     (case st of (S, G) \<Rightarrow>
        if is_constant offset then None
        else case fastRangeCheckOffset S offset of (base, sz) \<Rightarrow> do {
          S \<leftarrow> flushRangeForRead K base sz S;
          read_updates K (ZExt_make K offset 32) (S, G) })"

definition write8_concrete :: "nat \<Rightarrow> 8 word \<Rightarrow> object_state \<Rightarrow> object_state option" where
  "write8_concrete offset b S =
     (if os_size S \<le> offset then None
      else Some (markByteUnflushed offset (markByteConcrete offset
        (setKnownSymbolic offset None (S\<lparr>concreteStore := (concreteStore S)[offset := b]\<rparr>)))))"

definition write8 :: "nat \<Rightarrow> expr \<Rightarrow> object_state \<Rightarrow> object_state option" where
  "write8 offset e S =
     (case as_const e of
        Some c \<Rightarrow> if getBitWidth c \<le> 8 then write8_concrete offset (word_of_int (getZExtValue c)) S else None
      | None \<Rightarrow>
          if os_size S \<le> offset then None
          else Some (markByteUnflushed offset (markByteSymbolic offset (setKnownSymbolic offset (Some e) S))))"

definition write8_symbolic :: "'z mem_env_scheme \<Rightarrow> expr \<Rightarrow> expr \<Rightarrow> object_state \<Rightarrow> object_state option" where
  "write8_symbolic K offset e S =
     (if is_constant offset then None
      else case fastRangeCheckOffset S offset of (base, sz) \<Rightarrow> do {
        S \<leftarrow> flushRangeForWrite K base sz S;
        extend_updates S (ZExt_make K offset 32) e })"

subsection \<open>Values of any width\<close>

definition uadd :: "nat \<Rightarrow> nat \<Rightarrow> nat" where
  "uadd a b = (a + b) mod 2 ^ 32"

definition byte_index :: "'z mem_env_scheme \<Rightarrow> nat \<Rightarrow> nat \<Rightarrow> nat" where
  "byte_index K NumBytes i = (if isLittleEndian K then i else NumBytes - i - 1)"

text \<open>
  The loop of both \<^verbatim>\<open>read\<close>s after \<open>n\<close> rounds: byte \<open>i\<close> goes above the ones already there. \<open>None\<close> as the
  result is the null reference the loop starts with.
\<close>

primrec read_bytes :: "'z mem_env_scheme \<Rightarrow> (nat \<Rightarrow> mem \<Rightarrow> (expr \<times> mem) option) \<Rightarrow> nat \<Rightarrow> mem \<Rightarrow>
    (expr option \<times> mem) option" where
  "read_bytes K get 0 st = Some (None, st)"
| "read_bytes K get (Suc i) st = do {
     (res, st) \<leftarrow> read_bytes K get i st;
     (byte, st) \<leftarrow> get i st;
     Some (Some (case res of None \<Rightarrow> byte | Some r \<Rightarrow> Concat_make K byte r), st) }"

text \<open>The reference is used after the loop.\<close>

definition deref :: "(expr option \<times> mem) option \<Rightarrow> (expr \<times> mem) option" where
  "deref r = (case r of Some (Some e, st) \<Rightarrow> Some (e, st) | _ \<Rightarrow> None)"

definition read_value :: "'z mem_env_scheme \<Rightarrow> (nat \<Rightarrow> mem \<Rightarrow> (expr \<times> mem) option) \<Rightarrow> nat \<Rightarrow> mem \<Rightarrow> (expr \<times> mem) option" where
  "read_value K get width st =
     (let NumBytes = width div 8 in
      if width = NumBytes * 8 then deref (read_bytes K (\<lambda>i. get (byte_index K NumBytes i)) NumBytes st)
      else None)"

definition read_at_constant :: "'z mem_env_scheme \<Rightarrow> nat \<Rightarrow> nat \<Rightarrow> mem \<Rightarrow> (expr \<times> mem) option" where
  "read_at_constant K offset width st =
     (if width = 1 then do { (b, st) \<leftarrow> read8 K offset st; Some (Extract_make K b 0 1, st) }
      else read_value K (\<lambda>idx. read8 K (uadd offset idx)) width st)"

definition os_read :: "'z mem_env_scheme \<Rightarrow> expr \<Rightarrow> nat \<Rightarrow> mem \<Rightarrow> (expr \<times> mem) option" where
  "os_read K offset width st =
     (let offset = ZExt_make K offset 32 in
      case as_const offset of
        Some c \<Rightarrow> read_at_constant K (nat (getZExtValue c)) width st
      | None \<Rightarrow>
          if width = 1 then do { (b, st) \<leftarrow> read8_symbolic K offset st; Some (Extract_make K b 0 1, st) }
          else read_value K (\<lambda>idx. read8_symbolic K (Add_make K offset (offset_expr K idx))) width st)"

primrec write_bytes :: "(nat \<Rightarrow> object_state \<Rightarrow> object_state option) \<Rightarrow> nat \<Rightarrow> object_state \<Rightarrow> object_state option" where
  "write_bytes put 0 S = Some S"
| "write_bytes put (Suc i) S = do { S \<leftarrow> write_bytes put i S; put i S }"

text \<open>\<^verbatim>\<open>write16\<close>, \<^verbatim>\<open>write32\<close>, \<^verbatim>\<open>write64\<close>: byte \<open>i\<close> is \<^verbatim>\<open>(uint8_t) (value >> (8 * i))\<close>.\<close>

definition write_word :: "'z mem_env_scheme \<Rightarrow> nat \<Rightarrow> nat \<Rightarrow> 'a::len word \<Rightarrow> object_state \<Rightarrow> object_state option" where
  "write_word K NumBytes offset v S =
     write_bytes (\<lambda>i. write8_concrete (uadd offset (byte_index K NumBytes i)) (ucast (drop_bit (8 * i) v))) NumBytes S"

definition write16 :: "'z mem_env_scheme \<Rightarrow> nat \<Rightarrow> 16 word \<Rightarrow> object_state \<Rightarrow> object_state option" where
  "write16 K offset v S = write_word K 2 offset v S"

definition write32 :: "'z mem_env_scheme \<Rightarrow> nat \<Rightarrow> 32 word \<Rightarrow> object_state \<Rightarrow> object_state option" where
  "write32 K offset v S = write_word K 4 offset v S"

definition write64 :: "'z mem_env_scheme \<Rightarrow> nat \<Rightarrow> 64 word \<Rightarrow> object_state \<Rightarrow> object_state option" where
  "write64 K offset v S = write_word K 8 offset v S"

definition write_value :: "'z mem_env_scheme \<Rightarrow> (nat \<Rightarrow> expr \<Rightarrow> object_state \<Rightarrow> object_state option) \<Rightarrow> expr \<Rightarrow>
    object_state \<Rightarrow> object_state option" where
  "write_value K put e S =
     (let w = getWidth e; NumBytes = w div 8 in
      if w = NumBytes * 8
      then write_bytes (\<lambda>i. put (byte_index K NumBytes i) (Extract_make K e (8 * i) 8)) NumBytes S
      else None)"

text \<open>The switch of \<^verbatim>\<open>write\<close> over the width of a constant; \<open>None\<close> is \<^verbatim>\<open>Invalid write size!\<close>.\<close>

definition write_constant :: "'z mem_env_scheme \<Rightarrow> nat \<Rightarrow> apint \<Rightarrow> object_state \<Rightarrow> object_state option" where
  "write_constant K offset c S =
     (let w = getBitWidth c; v = (word_of_int (getZExtValue c) :: 64 word) in
      if w = 1 \<or> w = 8 then write8_concrete offset (ucast v) S
      else if w = 16 then write16 K offset (ucast v) S
      else if w = 32 then write32 K offset (ucast v) S
      else if w = 64 then write64 K offset v S
      else None)"

definition write_at_constant :: "'z mem_env_scheme \<Rightarrow> nat \<Rightarrow> expr \<Rightarrow> object_state \<Rightarrow> object_state option" where
  "write_at_constant K offset e S =
     (let general =
        if getWidth e = 1 then write8 offset (ZExt_make K e 8) S
        else write_value K (\<lambda>idx. write8 (uadd offset idx)) e S
      in case as_const e of
           Some c \<Rightarrow>
             if getBitWidth c \<le> 64 \<and> isPowerOfTwo (of_nat (getBitWidth c)) then write_constant K offset c S
             else general
         | None \<Rightarrow> general)"

definition os_write :: "'z mem_env_scheme \<Rightarrow> expr \<Rightarrow> expr \<Rightarrow> object_state \<Rightarrow> object_state option" where
  "os_write K offset e S =
     (let offset = ZExt_make K offset 32 in
      case as_const offset of
        Some c \<Rightarrow> write_at_constant K (nat (getZExtValue c)) e S
      | None \<Rightarrow>
          if getWidth e = 1 then write8_symbolic K offset (ZExt_make K e 8) S
          else write_value K (\<lambda>idx. write8_symbolic K (Add_make K offset (offset_expr K idx))) e S)"

section \<open>Correctness\<close>

subsection \<open>Bits of a byte\<close>

definition known :: "object_state \<Rightarrow> nat \<Rightarrow> expr option" where
  "known S i = (case knownSymbolics S of None \<Rightarrow> None | Some ks \<Rightarrow> ks ! i)"

definition masks_ok :: "object_state \<Rightarrow> bool" where
  "masks_ok S \<longleftrightarrow> length (concreteStore S) = os_size S \<and>
     pred_option (\<lambda>m. length m = ba_length (os_size S)) (concreteMask S) \<and>
     pred_option (\<lambda>m. length m = ba_length (os_size S)) (flushMask S) \<and>
     pred_option (\<lambda>ks. length ks = os_size S) (knownSymbolics S)"

lemma isByteKnownSymbolic_iff [simp]: "isByteKnownSymbolic S i \<longleftrightarrow> known S i \<noteq> None"
  by (simp add: isByteKnownSymbolic_def known_def split: option.split)

named_theorems byte_simps \<open>effect of the byte operations on the three bits of a byte\<close>

lemma mark_fields [byte_simps]:
  "os_size (markByteConcrete i S) = os_size S" "os_size (markByteSymbolic i S) = os_size S"
  "os_size (markByteUnflushed i S) = os_size S" "os_size (markByteFlushed i S) = os_size S"
  "os_size (setKnownSymbolic i v S) = os_size S" "os_size (unset_flush i S) = os_size S"
  "os_size (start_flush S) = os_size S"
  "concreteStore (markByteConcrete i S) = concreteStore S" "concreteStore (markByteSymbolic i S) = concreteStore S"
  "concreteStore (markByteUnflushed i S) = concreteStore S" "concreteStore (markByteFlushed i S) = concreteStore S"
  "concreteStore (setKnownSymbolic i v S) = concreteStore S" "concreteStore (unset_flush i S) = concreteStore S"
  "concreteStore (start_flush S) = concreteStore S"
  "upd_root (markByteConcrete i S) = upd_root S" "upd_root (markByteSymbolic i S) = upd_root S"
  "upd_root (markByteUnflushed i S) = upd_root S" "upd_root (markByteFlushed i S) = upd_root S"
  "upd_root (setKnownSymbolic i v S) = upd_root S" "upd_root (unset_flush i S) = upd_root S"
  "upd_root (start_flush S) = upd_root S"
  "upd_head (markByteConcrete i S) = upd_head S" "upd_head (markByteSymbolic i S) = upd_head S"
  "upd_head (markByteUnflushed i S) = upd_head S" "upd_head (markByteFlushed i S) = upd_head S"
  "upd_head (setKnownSymbolic i v S) = upd_head S" "upd_head (unset_flush i S) = upd_head S"
  "upd_head (start_flush S) = upd_head S"
  by (simp_all add: markByteConcrete_def markByteSymbolic_def markByteUnflushed_def markByteFlushed_def
      setKnownSymbolic_def unset_flush_def start_flush_def Let_def split: option.split)

lemma concrete_mark [byte_simps]:
  "masks_ok S \<Longrightarrow> i < os_size S \<Longrightarrow> j < os_size S \<Longrightarrow> isByteConcrete (markByteConcrete i S) j \<longleftrightarrow> j = i \<or> isByteConcrete S j"
  "masks_ok S \<Longrightarrow> i < os_size S \<Longrightarrow> j < os_size S \<Longrightarrow> isByteConcrete (markByteSymbolic i S) j \<longleftrightarrow> j \<noteq> i \<and> isByteConcrete S j"
  "isByteConcrete (markByteUnflushed i S) j = isByteConcrete S j"
  "isByteConcrete (markByteFlushed i S) j = isByteConcrete S j"
  "isByteConcrete (setKnownSymbolic i v S) j = isByteConcrete S j"
  "isByteConcrete (unset_flush i S) j = isByteConcrete S j"
  "isByteConcrete (start_flush S) j = isByteConcrete S j"
  by (auto simp: isByteConcrete_def markByteConcrete_def markByteSymbolic_def markByteUnflushed_def markByteFlushed_def
      setKnownSymbolic_def unset_flush_def start_flush_def masks_ok_def Let_def split: option.splits)

definition flushing :: "object_state \<Rightarrow> bool" where
  "flushing S \<longleftrightarrow> flushMask S \<noteq> None"

lemma flushed_mark [byte_simps]:
  "masks_ok S \<Longrightarrow> i < os_size S \<Longrightarrow> j < os_size S \<Longrightarrow> isByteFlushed (markByteUnflushed i S) j \<longleftrightarrow> j \<noteq> i \<and> isByteFlushed S j"
  "masks_ok S \<Longrightarrow> i < os_size S \<Longrightarrow> j < os_size S \<Longrightarrow>
     isByteFlushed (unset_flush i S) j \<longleftrightarrow> flushing S \<and> (j = i \<or> isByteFlushed S j)"
  "masks_ok S \<Longrightarrow> i < os_size S \<Longrightarrow> j < os_size S \<Longrightarrow>
     isByteFlushed (markByteFlushed i S) j \<longleftrightarrow> \<not> flushing S \<or> j = i \<or> isByteFlushed S j"
  "isByteFlushed (markByteConcrete i S) j = isByteFlushed S j"
  "isByteFlushed (markByteSymbolic i S) j = isByteFlushed S j"
  "isByteFlushed (setKnownSymbolic i v S) j = isByteFlushed S j"
  "j < os_size S \<Longrightarrow> isByteFlushed (start_flush S) j = isByteFlushed S j"
  by (auto simp: isByteFlushed_def flushing_def markByteConcrete_def markByteSymbolic_def markByteUnflushed_def markByteFlushed_def
      setKnownSymbolic_def unset_flush_def start_flush_def masks_ok_def Let_def split: option.splits)

lemma known_mark [byte_simps]:
  "masks_ok S \<Longrightarrow> i < os_size S \<Longrightarrow> j < os_size S \<Longrightarrow>
     known (setKnownSymbolic i v S) j = (if j = i then v else known S j)"
  "known (markByteConcrete i S) j = known S j" "known (markByteSymbolic i S) j = known S j"
  "known (markByteUnflushed i S) j = known S j" "known (markByteFlushed i S) j = known S j"
  "known (unset_flush i S) j = known S j" "known (start_flush S) j = known S j"
  by (auto simp: known_def markByteConcrete_def markByteSymbolic_def markByteUnflushed_def markByteFlushed_def
      setKnownSymbolic_def unset_flush_def start_flush_def masks_ok_def Let_def split: option.splits)

lemma mask_started [byte_simps]:
  "flushing (start_flush S)" "flushing (unset_flush i S) = flushing S" "flushing (markByteFlushed i S)"
  "flushing (markByteSymbolic i S) = flushing S" "flushing (setKnownSymbolic i v S) = flushing S"
  "flushing (S\<lparr>upd_head := h\<rparr>) = flushing S"
  by (auto simp: flushing_def start_flush_def unset_flush_def markByteSymbolic_def setKnownSymbolic_def markByteFlushed_def Let_def
      split: option.split)

lemma masks_mark [byte_simps]:
  "masks_ok S \<Longrightarrow> masks_ok (markByteConcrete i S)" "masks_ok S \<Longrightarrow> masks_ok (markByteSymbolic i S)"
  "masks_ok S \<Longrightarrow> masks_ok (markByteUnflushed i S)" "masks_ok S \<Longrightarrow> masks_ok (markByteFlushed i S)"
  "masks_ok S \<Longrightarrow> masks_ok (setKnownSymbolic i v S)" "masks_ok S \<Longrightarrow> masks_ok (unset_flush i S)"
  "masks_ok S \<Longrightarrow> masks_ok (start_flush S)"
  by (auto simp: masks_ok_def markByteConcrete_def markByteSymbolic_def markByteUnflushed_def markByteFlushed_def
      setKnownSymbolic_def unset_flush_def start_flush_def Let_def option.pred_map comp_def split: option.splits)

text \<open>A new update list changes nothing in the cache.\<close>

lemma update_fields [byte_simps]:
  "isByteConcrete (S\<lparr>upd_root := r\<rparr>) j = isByteConcrete S j"
  "isByteFlushed (S\<lparr>upd_root := r\<rparr>) j = isByteFlushed S j"
  "known (S\<lparr>upd_root := r\<rparr>) j = known S j"
  "masks_ok (S\<lparr>upd_root := r\<rparr>) = masks_ok S"
  "isByteConcrete (S\<lparr>upd_head := h\<rparr>) j = isByteConcrete S j"
  "isByteFlushed (S\<lparr>upd_head := h\<rparr>) j = isByteFlushed S j"
  "known (S\<lparr>upd_head := h\<rparr>) j = known S j"
  "masks_ok (S\<lparr>upd_head := h\<rparr>) = masks_ok S"
  "isByteConcrete (S\<lparr>concreteStore := c\<rparr>) j = isByteConcrete S j"
  "isByteFlushed (S\<lparr>concreteStore := c\<rparr>) j = isByteFlushed S j"
  "known (S\<lparr>concreteStore := c\<rparr>) j = known S j"
  "length c = os_size S \<Longrightarrow> masks_ok S \<Longrightarrow> masks_ok (S\<lparr>concreteStore := c\<rparr>)"
  by (simp_all add: isByteConcrete_def isByteFlushed_def known_def masks_ok_def)

subsection \<open>Contents and invariant\<close>

text \<open>
  Before its constant array exists an update list stands for an array of zeros. \<open>contents\<close> is the
  memory an object state represents under an assignment: one number per byte.
\<close>

definition zero_array :: "nat \<Rightarrow> array" where
  "zero_array sz = \<lparr>arr_addr = 0, arr_name = [], arr_size = sz, arr_domain = 32, arr_range = 8,
     constantValues = replicate sz (APInt 8 0)\<rparr>"

definition os_root :: "object_state \<Rightarrow> array" where
  "os_root S = (case upd_root S of None \<Rightarrow> zero_array (os_size S) | Some a \<Rightarrow> a)"

definition cache_value :: "assignment \<Rightarrow> object_state \<Rightarrow> nat \<Rightarrow> int option" where
  "cache_value \<sigma> S i =
     (if isByteConcrete S i then Some (uint (concreteStore S ! i)) else map_option (eval \<sigma>) (known S i))"

definition flushed_value :: "assignment \<Rightarrow> object_state \<Rightarrow> nat \<Rightarrow> int" where
  "flushed_value \<sigma> S i = eval_read \<sigma> (upd_head S) (os_root S) (int i)"

definition byte_value :: "assignment \<Rightarrow> object_state \<Rightarrow> nat \<Rightarrow> int" where
  "byte_value \<sigma> S i = (case cache_value \<sigma> S i of Some v \<Rightarrow> v | None \<Rightarrow> flushed_value \<sigma> S i)"

definition contents :: "assignment \<Rightarrow> object_state \<Rightarrow> int list" where
  "contents \<sigma> S = map (byte_value \<sigma> S) [0..<os_size S]"

text \<open>The comment \<^verbatim>\<open>Cache Invariants\<close> of the source.\<close>

definition cache_invariant :: "object_state \<Rightarrow> bool" where
  "cache_invariant S \<longleftrightarrow> (\<forall>i < os_size S.
     (isByteKnownSymbolic S i \<longrightarrow> \<not> isByteConcrete S i) \<and> (isByteConcrete S i \<longrightarrow> \<not> isByteKnownSymbolic S i) \<and>
     (\<not> isByteFlushed S i \<longrightarrow> isByteConcrete S i \<or> isByteKnownSymbolic S i))"

text \<open>
  The types of what is stored, and the bounds that the lazy constant array relies on: as long as there
  is no root, a write at a constant index is in range.
\<close>

definition byte_typed_array :: "array \<Rightarrow> bool" where
  "byte_typed_array a \<longleftrightarrow> wf_array a \<and> arr_domain a = 32 \<and> arr_range a = 8"

definition typed_ok :: "object_state \<Rightarrow> bool" where
  "typed_ok S \<longleftrightarrow> os_size S < 2 ^ 32 \<and>
     (\<forall>i < os_size S. \<forall>e. known S i = Some e \<longrightarrow> wt e \<and> getWidth e = 8) \<and>
     byte_typed_array (os_root S) \<and> wt_updates (upd_head S) (os_root S) \<and>
     (upd_root S = None \<longrightarrow> (\<forall>(i, v) \<in> set (writes_of (upd_head S)). \<forall>c. i = ConstantExpr c \<longrightarrow>
        nat (getZExtValue c) < os_size S))"

definition os_ok :: "object_state \<Rightarrow> bool" where
  "os_ok S \<longleftrightarrow> masks_ok S \<and> typed_ok S \<and> cache_invariant S"

text \<open>What a flushed byte has in the cache is what the update list has for it.\<close>

definition coherent :: "assignment \<Rightarrow> object_state \<Rightarrow> bool" where
  "coherent \<sigma> S \<longleftrightarrow> (\<forall>i < os_size S. \<forall>v. isByteFlushed S i \<longrightarrow> cache_value \<sigma> S i = Some v \<longrightarrow> flushed_value \<sigma> S i = v)"

text \<open>\<open>refines f S S'\<close>: an operation that leads from \<open>S\<close> to \<open>S'\<close> does \<open>f\<close> to the contents.\<close>

definition refines :: "(assignment \<Rightarrow> int list \<Rightarrow> int list) \<Rightarrow> object_state \<Rightarrow> object_state \<Rightarrow> bool" where
  "refines f S S' \<longleftrightarrow> os_ok S' \<and> os_size S' = os_size S \<and>
     (\<forall>\<sigma>. assign_ok \<sigma> \<longrightarrow> coherent \<sigma> S \<longrightarrow> coherent \<sigma> S' \<and> contents \<sigma> S' = f \<sigma> (contents \<sigma> S))"

abbreviation keeps_contents :: "object_state \<Rightarrow> object_state \<Rightarrow> bool" where
  "keeps_contents \<equiv> refines (\<lambda>\<sigma> m. m)"

lemma refines_self: "os_ok S \<Longrightarrow> keeps_contents S S"
  by (simp add: refines_def)

lemma refines_trans:
  "refines f S S' \<Longrightarrow> refines g S' S'' \<Longrightarrow> h = (\<lambda>\<sigma> m. g \<sigma> (f \<sigma> m)) \<Longrightarrow> refines h S S''"
  by (simp add: refines_def)

lemma refinesI:
  assumes "os_ok S'" "os_size S' = os_size S"
    and "\<And>\<sigma>. assign_ok \<sigma> \<Longrightarrow> coherent \<sigma> S \<Longrightarrow> coherent \<sigma> S'"
    and "\<And>\<sigma>. assign_ok \<sigma> \<Longrightarrow> coherent \<sigma> S \<Longrightarrow> length (f \<sigma> (contents \<sigma> S)) = os_size S"
    and "\<And>\<sigma> i. assign_ok \<sigma> \<Longrightarrow> coherent \<sigma> S \<Longrightarrow> i < os_size S \<Longrightarrow> byte_value \<sigma> S' i = f \<sigma> (contents \<sigma> S) ! i"
  shows "refines f S S'"
  using assms by (auto simp: refines_def contents_def list_eq_iff_nth_eq)

lemma contents_length [simp]: "length (contents \<sigma> S) = os_size S"
  by (simp add: contents_def)

lemma contents_nth: "i < os_size S \<Longrightarrow> contents \<sigma> S ! i = byte_value \<sigma> S i"
  by (simp add: contents_def)

lemma byte_array_zero: "byte_typed_array (zero_array sz)"
  by (simp add: byte_typed_array_def zero_array_def wf_array_def)

lemma os_ok_unflushed:
  "os_ok S \<Longrightarrow> i < os_size S \<Longrightarrow> \<not> isByteFlushed S i \<Longrightarrow> \<exists>v. cache_value \<sigma> S i = Some v"
  by (auto simp: os_ok_def cache_invariant_def cache_value_def)

subsection \<open>Extending the update list\<close>

lemma os_root_fields [byte_simps]:
  "os_root (markByteConcrete i S) = os_root S" "os_root (markByteSymbolic i S) = os_root S"
  "os_root (markByteUnflushed i S) = os_root S" "os_root (markByteFlushed i S) = os_root S"
  "os_root (setKnownSymbolic i v S) = os_root S" "os_root (unset_flush i S) = os_root S"
  "os_root (start_flush S) = os_root S" "os_root (S\<lparr>upd_head := h\<rparr>) = os_root S"
  "os_root (S\<lparr>concreteStore := c\<rparr>) = os_root S" "os_root (drop_cached i S) = os_root S"
  by (simp_all add: os_root_def byte_simps drop_cached_def split: option.split)

lemma stored_value_fields [byte_simps]:
  "flushed_value \<sigma> (markByteConcrete i S) = flushed_value \<sigma> S" "flushed_value \<sigma> (markByteSymbolic i S) = flushed_value \<sigma> S"
  "flushed_value \<sigma> (markByteUnflushed i S) = flushed_value \<sigma> S" "flushed_value \<sigma> (markByteFlushed i S) = flushed_value \<sigma> S"
  "flushed_value \<sigma> (setKnownSymbolic i v S) = flushed_value \<sigma> S" "flushed_value \<sigma> (unset_flush i S) = flushed_value \<sigma> S"
  "flushed_value \<sigma> (start_flush S) = flushed_value \<sigma> S" "flushed_value \<sigma> (S\<lparr>concreteStore := c\<rparr>) = flushed_value \<sigma> S"
  "flushed_value \<sigma> (drop_cached i S) = flushed_value \<sigma> S"
  by (auto simp: flushed_value_def byte_simps drop_cached_def)

lemma extend_updates_eq:
  assumes "typed_ok S" "wt index" "getWidth index = 32" "wt v" "getWidth v = 8"
  shows "extend_updates S index v = Some (S\<lparr>upd_head := UpdateNode index v (upd_head S)\<rparr>)"
  using assms by (auto simp: extend_updates_def Expr.extend_def typed_ok_def os_root_def byte_typed_array_def split: option.splits)

lemma typed_ok_extend:
  assumes "typed_ok S" "wt index" "getWidth index = 32" "wt v" "getWidth v = 8"
    and "\<And>c. index = ConstantExpr c \<Longrightarrow> nat (getZExtValue c) < os_size S"
  shows "typed_ok (S\<lparr>upd_head := UpdateNode index v (upd_head S)\<rparr>)"
  using assms by (auto simp: typed_ok_def byte_simps byte_typed_array_def)

lemma stored_value_extend:
  "flushed_value \<sigma> (S\<lparr>upd_head := UpdateNode index v (upd_head S)\<rparr>) j =
     (if eval \<sigma> index = int j then eval \<sigma> v else flushed_value \<sigma> S j)"
  by (simp add: flushed_value_def byte_simps)

lemma cache_value_extend [simp]: "cache_value \<sigma> (S\<lparr>upd_head := h\<rparr>) j = cache_value \<sigma> S j"
  by (simp add: cache_value_def byte_simps)

subsection \<open>Flushing one byte\<close>

lemma typed_ok_mark [byte_simps]:
  "typed_ok S \<Longrightarrow> typed_ok (unset_flush i S)" "typed_ok S \<Longrightarrow> typed_ok (start_flush S)"
  "typed_ok S \<Longrightarrow> typed_ok (markByteSymbolic i S)" "typed_ok S \<Longrightarrow> typed_ok (markByteConcrete i S)"
  "typed_ok S \<Longrightarrow> typed_ok (markByteUnflushed i S)" "typed_ok S \<Longrightarrow> typed_ok (markByteFlushed i S)"
  by (simp_all add: typed_ok_def byte_simps)

lemma typed_ok_known:
  assumes "masks_ok S" "typed_ok S" "i < os_size S" "\<And>e. v = Some e \<Longrightarrow> wt e \<and> getWidth e = 8"
  shows "typed_ok (setKnownSymbolic i v S)"
  using assms by (auto simp: typed_ok_def byte_simps)

lemma drop_cached_typed [byte_simps]:
  assumes "masks_ok S" "i < os_size S"
  shows "masks_ok (drop_cached i S)" "typed_ok S \<Longrightarrow> typed_ok (drop_cached i S)"
  using assms by (auto simp: drop_cached_def byte_simps intro!: typed_ok_known)

lemma drop_cached_cache [byte_simps]:
  assumes "masks_ok S" "i < os_size S" "cache_invariant S" "j < os_size S"
  shows "isByteConcrete (drop_cached i S) j \<longleftrightarrow> j \<noteq> i \<and> isByteConcrete S j"
    "known (drop_cached i S) j = (if j = i then None else known S j)"
proof -
  have "\<not> isByteConcrete S i \<or> known S i = None" using assms(2,3) by (auto simp: cache_invariant_def)
  then show "isByteConcrete (drop_cached i S) j \<longleftrightarrow> j \<noteq> i \<and> isByteConcrete S j"
    "known (drop_cached i S) j = (if j = i then None else known S j)"
    using assms by (auto simp: drop_cached_def byte_simps)
qed

lemma drop_cached_fields [byte_simps]:
  "os_size (drop_cached i S) = os_size S" "concreteStore (drop_cached i S) = concreteStore S"
  "upd_head (drop_cached i S) = upd_head S" "upd_root (drop_cached i S) = upd_root S"
  "flushing (drop_cached i S) = flushing S" "isByteFlushed (drop_cached i S) j = isByteFlushed S j"
  by (simp_all add: drop_cached_def byte_simps)

text \<open>The cache, the update list and the masks of an object state decide its contents.\<close>

lemma keeps_contentsI:
  assumes "os_ok S'" "os_size S' = os_size S"
    and "\<And>\<sigma> i. i < os_size S \<Longrightarrow> cache_value \<sigma> S' i = cache_value \<sigma> S i"
    and "\<And>i. i < os_size S \<Longrightarrow> isByteFlushed S' i = isByteFlushed S i"
    and "\<And>\<sigma> i. assign_ok \<sigma> \<Longrightarrow> i < os_size S \<Longrightarrow> flushed_value \<sigma> S' i = flushed_value \<sigma> S i"
  shows "keeps_contents S S'"
  using assms by (intro refinesI) (auto simp: coherent_def contents_nth byte_value_def split: option.split)

lemma start_flush_keeps: "os_ok S \<Longrightarrow> keeps_contents S (start_flush S)"
  by (rule keeps_contentsI) (auto simp: os_ok_def byte_simps cache_invariant_def cache_value_def)

lemma for_each_inv:
  assumes "P s" "\<And>i s. i \<in> set is \<Longrightarrow> P s \<Longrightarrow> \<exists>s'. f i s = Some s' \<and> P s' \<and> Q i s' \<and> (\<forall>j. Q j s \<longrightarrow> Q j s')"
  shows "\<exists>s'. for_each f is s = Some s' \<and> P s' \<and> (\<forall>j. j \<in> set is \<or> Q j s \<longrightarrow> Q j s')"
  using assms
proof (induction "is" arbitrary: s)
  case (Cons i "is")
  obtain s1 where s1: "f i s = Some s1" "P s1" "Q i s1" "\<forall>j. Q j s \<longrightarrow> Q j s1"
    using Cons.prems(2) [of i s] Cons.prems(1) by auto
  obtain s2 where "for_each f is s1 = Some s2" "P s2" "\<forall>j. j \<in> set is \<or> Q j s1 \<longrightarrow> Q j s2"
    using Cons.IH [OF s1(2)] Cons.prems(2) by auto
  with s1 show ?case by auto
qed simp

definition marked_out :: "object_state \<Rightarrow> nat \<Rightarrow> bool" where
  "marked_out S i \<longleftrightarrow> isByteFlushed S i \<and> \<not> isByteConcrete S i \<and> known S i = None"

text \<open>The value of a byte after a list of writes, the oldest first.\<close>

definition after_writes :: "assignment \<Rightarrow> (expr \<times> expr) list \<Rightarrow> (int \<Rightarrow> int) \<Rightarrow> int \<Rightarrow> int" where
  "after_writes \<sigma> ws m = fold (\<lambda>(i, v) m. m(eval \<sigma> i := eval \<sigma> v)) ws m"

abbreviation write_ok :: "nat \<Rightarrow> expr \<times> expr \<Rightarrow> bool" where
  "write_ok n w \<equiv> wt (fst w) \<and> getWidth (fst w) = 32 \<and> wt (snd w) \<and> getWidth (snd w) = 8 \<and>
     (\<forall>c. fst w = ConstantExpr c \<longrightarrow> nat (getZExtValue c) < n)"

text \<open>
  \<open>delivers S w f r\<close>: the result \<open>r\<close> of a read is an expression of width \<open>w\<close> that denotes what \<open>f\<close> finds in
  the contents, under every assignment under which \<open>f\<close> finds something; the contents are kept.
\<close>

definition delivers :: "object_state \<Rightarrow> nat \<Rightarrow> (assignment \<Rightarrow> int list \<Rightarrow> int option) \<Rightarrow> (expr \<times> mem) option \<Rightarrow> bool" where
  "delivers S w f r \<longleftrightarrow> (\<exists>e S' G'. r = Some (e, (S', G')) \<and> keeps_contents S S' \<and> array_cache_ok (arrays G') \<and>
     wt e \<and> getWidth e = w \<and>
     (\<forall>\<sigma> v. assign_ok \<sigma> \<longrightarrow> coherent \<sigma> S \<longrightarrow> f \<sigma> (contents \<sigma> S) = Some v \<longrightarrow> eval \<sigma> e = v))"

definition byte_at :: "int list \<Rightarrow> nat \<Rightarrow> int option" where
  "byte_at m a = (if a < length m then Some (m ! a) else None)"

lemma zero_assign_ok: "assign_ok (\<lambda>a i. 0)"
  by (simp add: assign_ok_def)

locale memory_env = default_env K for K :: "'z mem_env_scheme"
begin

lemma small_index: "i < os_size S \<Longrightarrow> typed_ok S \<Longrightarrow> inr 32 (int i)"
  by (auto simp: typed_ok_def)

lemma offset_expr_means:
  assumes "typed_ok S" "i < os_size S"
  shows "wt (offset_expr K i)" "getWidth (offset_expr K i) = 32" "eval \<sigma> (offset_expr K i) = int i"
    "offset_expr K i = ConstantExpr c \<Longrightarrow> nat (getZExtValue c) = i"
  using small_index [OF assms(2,1)] by (auto simp: offset_expr_def take_bit_inr)

lemma byte_expr_means [simp]:
  "wt (byte_expr K b)" "getWidth (byte_expr K b) = 8" "eval \<sigma> (byte_expr K b) = uint b"
  using uint_bounded [of b] by (auto simp: byte_expr_def take_bit_int_eq_self_iff)

lemma cached_expr_means:
  assumes "typed_ok S" "i < os_size S" "cached_expr K S i = Some v"
  shows "wt v \<and> getWidth v = 8 \<and> cache_value \<sigma> S i = Some (eval \<sigma> v)"
  using assms by (auto simp: cached_expr_def cache_value_def known_def typed_ok_def split: if_splits option.splits)

lemma cached_expr_unflushed:
  assumes "cache_invariant S" "i < os_size S" "\<not> isByteFlushed S i"
  shows "\<exists>v. cached_expr K S i = Some v"
  using assms by (auto simp: cached_expr_def cache_invariant_def known_def split: option.splits)

lemma flush_byte_extend:
  assumes ok: "os_ok S" and i: "i < os_size S" "\<not> isByteFlushed S i" and v: "cached_expr K S i = Some v"
  defines "E \<equiv> S\<lparr>upd_head := UpdateNode (offset_expr K i) v (upd_head S)\<rparr>"
  shows "extend_updates S (offset_expr K i) v = Some E" "typed_ok E"
    "flushed_value \<sigma> E j = (if j = i then the (cache_value \<sigma> S i) else flushed_value \<sigma> S j)"
proof -
  have t: "typed_ok S" using ok by (simp add: os_ok_def)
  note off = offset_expr_means [OF t i(1)] and val = cached_expr_means [OF t i(1) v]
  show "extend_updates S (offset_expr K i) v = Some E"
    unfolding E_def using t off val by (intro extend_updates_eq) auto
  show "typed_ok E" unfolding E_def using t off val i(1) by (intro typed_ok_extend) auto
  show "flushed_value \<sigma> E j = (if j = i then the (cache_value \<sigma> S i) else flushed_value \<sigma> S j)"
    unfolding E_def using off val [of \<sigma>] by (auto simp: stored_value_extend)
qed

lemma flush_byte_read_right:
  assumes ok: "os_ok S" and mask: "flushing S" and i: "i < os_size S"
  shows "\<exists>S'. flush_byte_read K i S = Some S' \<and> keeps_contents S S' \<and> flushing S' \<and>
    isByteFlushed S' i \<and> (\<forall>j < os_size S. isByteFlushed S j \<longrightarrow> isByteFlushed S' j)"
proof (cases "isByteFlushed S i")
  case True
  then show ?thesis using ok mask by (auto simp: flush_byte_read_def refines_self)
next
  case False
  have inv: "masks_ok S" "typed_ok S" "cache_invariant S" using ok by (simp_all add: os_ok_def)
  obtain v where v: "cached_expr K S i = Some v" using cached_expr_unflushed [OF inv(3) i False] by blast
  define E where "E = S\<lparr>upd_head := UpdateNode (offset_expr K i) v (upd_head S)\<rparr>"
  note ext = flush_byte_extend [OF ok i False v, folded E_def]
  have E: "masks_ok E" "os_size E = os_size S" "flushing E = flushing S" "isByteFlushed E = isByteFlushed S"
    "isByteConcrete E = isByteConcrete S" "known E = known S" "concreteStore E = concreteStore S"
    using inv by (auto simp: E_def byte_simps)
  have ok': "os_ok (unset_flush i E)"
    using inv E ext(2) i mask by (auto simp: os_ok_def byte_simps cache_invariant_def)
  have cache: "cache_value \<sigma> (unset_flush i E) j = cache_value \<sigma> S j" for \<sigma> j
    using E by (simp add: cache_value_def byte_simps)
  have w: "cache_value \<sigma> S i = Some (eval \<sigma> v)" for \<sigma>
    using cached_expr_means [OF inv(2) i v] by blast
  have "keeps_contents S (unset_flush i E)"
  proof (rule refinesI)
    fix \<sigma> assume a: "assign_ok \<sigma>" "coherent \<sigma> S"
    show "coherent \<sigma> (unset_flush i E)"
      using a(2) i E mask cache w by (auto simp: coherent_def byte_simps ext(3))
    show "byte_value \<sigma> (unset_flush i E) j = contents \<sigma> S ! j" if "j < os_size S" for j
      using that cache w [of \<sigma>] by (simp add: byte_value_def contents_nth byte_simps ext(3) split: option.split)
  qed (use ok' E in \<open>auto simp: byte_simps\<close>)
  moreover have "flush_byte_read K i S = Some (unset_flush i E)"
    using False v ext(1) by (simp add: flush_byte_read_def)
  ultimately show ?thesis using E mask i by (auto simp: byte_simps)
qed

lemma flush_byte_write_right:
  assumes ok: "os_ok S" and mask: "flushing S" and i: "i < os_size S"
  shows "\<exists>S'. flush_byte_write K i S = Some S' \<and> keeps_contents S S' \<and> flushing S' \<and>
    (isByteFlushed S' i \<and> \<not> isByteConcrete S' i \<and> known S' i = None) \<and>
    (\<forall>j < os_size S. isByteFlushed S j \<and> \<not> isByteConcrete S j \<and> known S j = None \<longrightarrow>
      isByteFlushed S' j \<and> \<not> isByteConcrete S' j \<and> known S' j = None)"
proof (cases "isByteFlushed S i")
  case True
  have inv: "masks_ok S" "typed_ok S" "cache_invariant S" using ok by (simp_all add: os_ok_def)
  note drop = drop_cached_cache [OF inv(1) i inv(3)] drop_cached_fields drop_cached_typed [OF inv(1) i]
  have ok': "os_ok (drop_cached i S)"
    using inv drop True by (auto simp: os_ok_def cache_invariant_def)
  have "cache_value \<sigma> (drop_cached i S) j = (if j = i then None else cache_value \<sigma> S j)" if "j < os_size S" for \<sigma> j
    using drop(1,2) [OF that] by (cases "j = i") (simp_all add: cache_value_def byte_simps)
  then have "keeps_contents S (drop_cached i S)"
    using ok' True i
    by (intro refinesI) (auto simp: coherent_def byte_value_def contents_nth byte_simps split: option.splits)
  then show ?thesis using True drop(1,2) i mask by (auto simp: flush_byte_write_def byte_simps)
next
  case False
  have inv: "masks_ok S" "typed_ok S" "cache_invariant S" using ok by (simp_all add: os_ok_def)
  obtain v where v: "cached_expr K S i = Some v" using cached_expr_unflushed [OF inv(3) i False] by blast
  define E where "E = S\<lparr>upd_head := UpdateNode (offset_expr K i) v (upd_head S)\<rparr>"
  note ext = flush_byte_extend [OF ok i False v, folded E_def]
  have E: "masks_ok E" "os_size E = os_size S" "flushing E = flushing S" "isByteFlushed E = isByteFlushed S"
    "isByteConcrete E = isByteConcrete S" "known E = known S" "concreteStore E = concreteStore S" "cache_invariant E"
    using inv by (auto simp: E_def byte_simps cache_invariant_def)
  have i': "i < os_size E" using i E by simp
  note drop = drop_cached_cache [OF E(1) i' E(8)] drop_cached_fields drop_cached_typed [OF E(1) i']
  let ?N = "unset_flush i (drop_cached i E)"
  have bits: "isByteConcrete ?N j \<longleftrightarrow> j \<noteq> i \<and> isByteConcrete S j" "known ?N j = (if j = i then None else known S j)"
    "isByteFlushed ?N j \<longleftrightarrow> j = i \<or> isByteFlushed S j" if "j < os_size S" for j
    using drop(1,2) [of j] that E(1-7) drop(3-) i mask by (simp_all add: byte_simps)
  have "cache_invariant ?N"
    using inv(3) bits by (auto simp: cache_invariant_def byte_simps E(2))
  then have ok': "os_ok ?N"
    using drop(9-) ext(2) i E(1,2) by (simp add: os_ok_def byte_simps)
  have cache: "cache_value \<sigma> (unset_flush i (drop_cached i E)) j = (if j = i then None else cache_value \<sigma> S j)"
    if "j < os_size S" for \<sigma> j
    using drop(1,2) [of j] that E by (simp add: cache_value_def byte_simps)
  have w: "cache_value \<sigma> S i = Some (eval \<sigma> v)" for \<sigma>
    using cached_expr_means [OF inv(2) i v] by blast
  have "keeps_contents S (unset_flush i (drop_cached i E))"
  proof (rule refinesI)
    fix \<sigma> assume a: "assign_ok \<sigma>" "coherent \<sigma> S"
    show "coherent \<sigma> (unset_flush i (drop_cached i E))"
      unfolding coherent_def
    proof (intro allI impI)
      fix j u
      assume j: "j < os_size (unset_flush i (drop_cached i E))" "isByteFlushed (unset_flush i (drop_cached i E)) j"
        "cache_value \<sigma> (unset_flush i (drop_cached i E)) j = Some u"
      then have j': "j < os_size S" using E by (simp add: byte_simps)
      with j cache [of j \<sigma>] have "j \<noteq> i" "cache_value \<sigma> S j = Some u" by (auto split: if_splits)
      moreover from this j j' have "isByteFlushed S j" using E i mask drop by (simp add: byte_simps)
      ultimately show "flushed_value \<sigma> (unset_flush i (drop_cached i E)) j = u"
        using a(2) j' by (simp add: coherent_def byte_simps ext(3))
    qed
    show "byte_value \<sigma> (unset_flush i (drop_cached i E)) j = contents \<sigma> S ! j" if "j < os_size S" for j
      using that cache [of j \<sigma>] w [of \<sigma>] by (simp add: byte_value_def contents_nth byte_simps ext(3) split: option.split)
  qed (use ok' E drop in \<open>auto simp: byte_simps\<close>)
  moreover have "flush_byte_write K i S = Some (unset_flush i (drop_cached i E))"
    using False v ext(1) by (simp add: flush_byte_write_def)
  ultimately show ?thesis using E mask i drop by (auto simp: byte_simps)
qed

lemma flush_read_range:
  assumes "os_ok S"
  shows "\<exists>S'. flushRangeForRead K 0 (os_size S) S = Some S' \<and> keeps_contents S S' \<and> (\<forall>i < os_size S. isByteFlushed S' i)"
proof -
  let ?P = "\<lambda>T. keeps_contents S T \<and> flushing T" and ?Q = "\<lambda>i T. i < os_size S \<longrightarrow> isByteFlushed T i"
  have "\<exists>S'. for_each (flush_byte_read K) [0..<os_size S] (start_flush S) = Some S' \<and> ?P S' \<and>
    (\<forall>j. j \<in> set [0..<os_size S] \<or> ?Q j (start_flush S) \<longrightarrow> ?Q j S')"
  proof (rule for_each_inv)
    show "?P (start_flush S)" using start_flush_keeps [OF assms] by (simp add: byte_simps)
    fix i T assume i: "i \<in> set [0..<os_size S]" and T: "?P T"
    then have T': "os_ok T" "os_size T = os_size S" by (simp_all add: refines_def)
    obtain T1 where "flush_byte_read K i T = Some T1" "keeps_contents T T1" "flushing T1" "isByteFlushed T1 i"
      "\<forall>j < os_size T. isByteFlushed T j \<longrightarrow> isByteFlushed T1 j"
      using flush_byte_read_right [of T i] T T' i by auto
    then show "\<exists>s'. flush_byte_read K i T = Some s' \<and> ?P s' \<and> ?Q i s' \<and> (\<forall>j. ?Q j T \<longrightarrow> ?Q j s')"
      using T T' by (auto intro: refines_trans)
  qed
  then show ?thesis by (auto simp: flushRangeForRead_def)
qed

lemma flush_write_range:
  assumes "os_ok S"
  shows "\<exists>S'. flushRangeForWrite K 0 (os_size S) S = Some S' \<and> keeps_contents S S' \<and> (\<forall>i < os_size S. marked_out S' i)"
proof -
  let ?P = "\<lambda>T. keeps_contents S T \<and> flushing T" and ?Q = "\<lambda>i T. i < os_size S \<longrightarrow> marked_out T i"
  have "\<exists>S'. for_each (flush_byte_write K) [0..<os_size S] (start_flush S) = Some S' \<and> ?P S' \<and>
    (\<forall>j. j \<in> set [0..<os_size S] \<or> ?Q j (start_flush S) \<longrightarrow> ?Q j S')"
  proof (rule for_each_inv)
    show "?P (start_flush S)" using start_flush_keeps [OF assms] by (simp add: byte_simps)
    fix i T assume i: "i \<in> set [0..<os_size S]" and T: "?P T"
    then have T': "os_ok T" "os_size T = os_size S" by (simp_all add: refines_def)
    obtain T1 where "flush_byte_write K i T = Some T1" "keeps_contents T T1" "flushing T1" "marked_out T1 i"
      "\<forall>j < os_size T. marked_out T j \<longrightarrow> marked_out T1 j"
      using flush_byte_write_right [of T i] T T' i by (auto simp: marked_out_def)
    then show "\<exists>s'. flush_byte_write K i T = Some s' \<and> ?P s' \<and> ?Q i s' \<and> (\<forall>j. ?Q j T \<longrightarrow> ?Q j s')"
      using T T' by (auto intro: refines_trans)
  qed
  then show ?thesis by (auto simp: flushRangeForWrite_def)
qed

subsection \<open>The lazy constant array\<close>

lemma eval_read_writes: "eval_read \<sigma> us a i = after_writes \<sigma> (writes_of us) (initial_value \<sigma> a) i"
  by (induction us rule: writes_of.induct) (auto simp: after_writes_def)

lemma after_writes_simps [simp]:
  "after_writes \<sigma> [] m = m"
  "after_writes \<sigma> (w # ws) m = after_writes \<sigma> ws (m(eval \<sigma> (fst w) := eval \<sigma> (snd w)))"
  "after_writes \<sigma> (vs @ ws) m = after_writes \<sigma> ws (after_writes \<sigma> vs m)"
  by (simp_all add: after_writes_def case_prod_beta)

lemma after_writes_cong: "m i = m' i \<Longrightarrow> after_writes \<sigma> ws m i = after_writes \<sigma> ws m' i"
proof (induction ws arbitrary: m m')
  case (Cons w ws)
  show ?case using Cons.prems by (simp, intro Cons.IH) simp
qed simp

lemma writes_of_ok:
  "wt_updates us a \<Longrightarrow> arr_domain a = 32 \<Longrightarrow> arr_range a = 8 \<Longrightarrow>
   \<forall>(i, v) \<in> set (writes_of us). \<forall>c. i = ConstantExpr c \<longrightarrow> nat (getZExtValue c) < n \<Longrightarrow>
   w \<in> set (writes_of us) \<Longrightarrow> write_ok n w"
  by (induction us rule: writes_of.induct) auto

lemma pull_concrete_right:
  assumes "\<forall>w \<in> set ws. write_ok (length cs) w" "\<forall>c \<in> set cs. wf_ap c \<and> getBitWidth c = 8"
  shows "\<exists>cs' rest. pull_concrete cs ws = Some (cs', rest) \<and> length cs' = length cs \<and> set rest \<subseteq> set ws \<and>
    (\<forall>c \<in> set cs'. wf_ap c \<and> getBitWidth c = 8) \<and>
    (\<forall>\<sigma> m m' i. i < length cs \<longrightarrow> m (int i) = getZExtValue (cs ! i) \<longrightarrow> m' (int i) = getZExtValue (cs' ! i) \<longrightarrow>
      after_writes \<sigma> rest m' (int i) = after_writes \<sigma> ws m (int i))"
  using assms
proof (induction cs ws rule: pull_concrete.induct)
  case (1 cs)
  then show ?case by (auto simp: after_writes_def)
next
  case (2 cs i v ws)
  show ?case
  proof (cases "is_constant i \<and> is_constant v")
    case False
    then have "pull_concrete cs ((i, v) # ws) = Some (cs, (i, v) # ws)"
      by (auto simp: as_const_None split: option.split)
    then show ?thesis
    proof (intro exI conjI allI impI)
      fix \<sigma> :: assignment and m m' :: "int \<Rightarrow> int" and k
      assume "m (int k) = getZExtValue (cs ! k)" "m' (int k) = getZExtValue (cs ! k)"
      then show "after_writes \<sigma> ((i, v) # ws) m' (int k) = after_writes \<sigma> ((i, v) # ws) m (int k)"
        by (intro after_writes_cong) simp
    qed (use "2.prems" in blast)+
  next
    case True
    then obtain ci cv where c: "i = ConstantExpr ci" "v = ConstantExpr cv" by (auto simp: is_constant_iff)
    define k where "k = nat (getZExtValue ci)"
    have k: "k < length cs" "wf_ap cv" "getBitWidth cv = 8" "getZExtValue ci = int k"
    proof -
      have "write_ok (length cs) (i, v)" using "2.prems"(1) by (meson list.set_intros(1))
      then show "k < length cs" "wf_ap cv" "getBitWidth cv = 8" "getZExtValue ci = int k"
        using c by (auto simp: k_def wf_ap_def inr_def)
    qed
    have upd: "\<forall>c \<in> set (cs[k := cv]). wf_ap c \<and> getBitWidth c = 8"
      using "2.prems"(2) k(2,3) set_update_subset_insert [of cs k cv] by blast
    have "\<exists>cs' rest. pull_concrete (cs[k := cv]) ws = Some (cs', rest) \<and> length cs' = length (cs[k := cv]) \<and>
      set rest \<subseteq> set ws \<and> (\<forall>c \<in> set cs'. wf_ap c \<and> getBitWidth c = 8) \<and>
      (\<forall>\<sigma> m m' i. i < length (cs[k := cv]) \<longrightarrow> m (int i) = getZExtValue (cs[k := cv] ! i) \<longrightarrow>
        m' (int i) = getZExtValue (cs' ! i) \<longrightarrow> after_writes \<sigma> rest m' (int i) = after_writes \<sigma> ws m (int i))"
    proof (rule "2.IH")
      show "as_const i = Some ci" "as_const v = Some cv" using c by simp_all
      show "\<forall>w \<in> set ws. write_ok (length (cs[k := cv])) w" using "2.prems"(1) by simp
    qed (use k(1) upd in \<open>simp_all add: k_def\<close>)
    then obtain cs' rest where r: "pull_concrete (cs[k := cv]) ws = Some (cs', rest)" "length cs' = length cs"
        "set rest \<subseteq> set ws" "\<forall>c \<in> set cs'. wf_ap c \<and> getBitWidth c = 8"
      and sem: "\<forall>\<sigma> m m' j. j < length (cs[k := cv]) \<longrightarrow> m (int j) = getZExtValue (cs[k := cv] ! j) \<longrightarrow>
        m' (int j) = getZExtValue (cs' ! j) \<longrightarrow> after_writes \<sigma> rest m' (int j) = after_writes \<sigma> ws m (int j)"
      unfolding length_list_update by blast
    have "after_writes \<sigma> rest m' (int j) = after_writes \<sigma> ((i, v) # ws) m (int j)"
      if j: "j < length cs" "m (int j) = getZExtValue (cs ! j)" "m' (int j) = getZExtValue (cs' ! j)" for \<sigma> m m' j
    proof -
      have "after_writes \<sigma> rest m' (int j) = after_writes \<sigma> ws (m(int k := getZExtValue cv)) (int j)"
        using j k(1) by (intro sem [rule_format]) (auto simp: nth_list_update)
      then show ?thesis using c k(4) by simp
    qed
    moreover have "pull_concrete cs ((i, v) # ws) = Some (cs', rest)" using r(1) c k(1) by (simp add: k_def)
    moreover have "set rest \<subseteq> set ((i, v) # ws)" using r(3) by auto
    ultimately show ?thesis using r(2,4) by blast
  qed
qed

lemma extend_all_right:
  assumes "upd_root S = Some a" "byte_typed_array a" "wt_updates (upd_head S) a" "\<forall>w \<in> set ws. write_ok n w"
  shows "\<exists>h. extend_all S ws = Some (S\<lparr>upd_head := h\<rparr>) \<and> wt_updates h a \<and> writes_of h = writes_of (upd_head S) @ ws"
  using assms
proof (induction ws arbitrary: S)
  case Nil
  then show ?case by (auto intro!: exI [of _ "upd_head S"])
next
  case (Cons w ws)
  let ?S = "S\<lparr>upd_head := UpdateNode (fst w) (snd w) (upd_head S)\<rparr>"
  have "extend_updates S (fst w) (snd w) = Some ?S"
    using Cons.prems by (simp add: extend_updates_def Expr.extend_def byte_typed_array_def)
  moreover have "\<exists>h. extend_all ?S ws = Some (?S\<lparr>upd_head := h\<rparr>) \<and> wt_updates h a \<and> writes_of h = writes_of (upd_head ?S) @ ws"
    using Cons.prems by (intro Cons.IH) (auto simp: byte_typed_array_def)
  ultimately show ?case by auto
qed

lemma root_array:
  assumes "cs \<noteq> [] \<or> array_cache_ok C" "\<forall>c \<in> set cs. wf_ap c \<and> getBitWidth c = 8"
  shows "\<exists>a C'. CreateArray C name (length cs) cs 32 8 = Some (a, C')"
proof (cases "cs = []")
  case True
  then show ?thesis using assms(1) CreateArray_symbolic by simp
next
  case False
  then show ?thesis using assms(2) by (subst CreateArray_constant) (auto simp: Let_def)
qed

lemma CreateArray_contents:
  assumes "CreateArray C name (length cs) cs 32 8 = Some (a, C')" "cs \<noteq> []" "\<forall>c \<in> set cs. wf_ap c \<and> getBitWidth c = 8"
  shows "byte_typed_array a" "i < length cs \<Longrightarrow> initial_value \<sigma> a (int i) = getZExtValue (cs ! i)"
proof -
  have "constantValues a = cs" "arr_size a = length cs" "arr_domain a = 32" "arr_range a = 8"
    using assms by (auto simp: CreateArray_constant Let_def)
  then show "byte_typed_array a" "i < length cs \<Longrightarrow> initial_value \<sigma> a (int i) = getZExtValue (cs ! i)"
    using assms(2,3)
    by (auto simp: byte_typed_array_def wf_array_def initial_value_def isConstantArray_def isSymbolicArray_def)
qed

lemma zero_array_initial: "i < sz \<Longrightarrow> initial_value \<sigma> (zero_array sz) (int i) = 0"
  by (auto simp: initial_value_def zero_array_def isConstantArray_def isSymbolicArray_def)

text \<open>Creating the constant array changes neither the cache nor what any byte of the object is.\<close>

lemma getUpdates_right:
  assumes ok: "os_ok S" and G: "array_cache_ok (arrays G)" and pos: "0 < os_size S"
  shows "\<exists>S' G'. getUpdates K (S, G) = Some (S', G') \<and> keeps_contents S S' \<and> upd_root S' \<noteq> None \<and>
    array_cache_ok (arrays G') \<and> (\<forall>i. isByteFlushed S' i = isByteFlushed S i)"
proof (cases "upd_root S")
  case (Some a)
  then show ?thesis using ok G by (simp add: getUpdates_def refines_self)
next
  case None
  let ?zs = "replicate (os_size S) (ConstantExpr_alloc K 0 8)" and ?ws = "writes_of (upd_head S)"
  have inv: "masks_ok S" "typed_ok S" "cache_invariant S" using ok by (simp_all add: os_ok_def)
  have root: "os_root S = zero_array (os_size S)" using None by (simp add: os_root_def)
  have "\<forall>w \<in> set ?ws. write_ok (length ?zs) w"
    using inv(2) None root writes_of_ok [of "upd_head S" "zero_array (os_size S)" "os_size S"]
    by (simp add: typed_ok_def byte_typed_array_def)
  from pull_concrete_right [OF this, simplified]
  obtain cs rest where p: "pull_concrete ?zs ?ws = Some (cs, rest)" "length cs = os_size S" "set rest \<subseteq> set ?ws"
      "\<forall>c \<in> set cs. wf_ap c \<and> getBitWidth c = 8"
    and sem: "\<And>\<sigma> m m' i. i < os_size S \<Longrightarrow> m (int i) = 0 \<Longrightarrow> m' (int i) = getZExtValue (cs ! i) \<Longrightarrow>
      after_writes \<sigma> rest m' (int i) = after_writes \<sigma> ?ws m (int i)"
    by auto
  obtain a C where c: "CreateArray (arrays G) (''const_arr'' @ utostr K (const_arr_id G + 1)) (length cs) cs 32 8 = Some (a, C)"
    using root_array [OF disjI2 [OF G] p(4)] by blast
  have cs: "cs \<noteq> []" using p(2) pos by auto
  note a = CreateArray_contents [OF c cs p(4)]
  let ?S = "S\<lparr>upd_root := Some a, upd_head := UpdateNil\<rparr>"
  have "\<exists>h. extend_all ?S rest = Some (?S\<lparr>upd_head := h\<rparr>) \<and> wt_updates h a \<and> writes_of h = writes_of (upd_head ?S) @ rest"
    using \<open>\<forall>w \<in> set ?ws. write_ok (length ?zs) w\<close> p(3) a(1) by (intro extend_all_right [where n = "os_size S"]) auto
  then obtain h where h: "extend_all ?S rest = Some (S\<lparr>upd_root := Some a, upd_head := h\<rparr>)" "wt_updates h a" "writes_of h = rest"
    by auto
  let ?T = "S\<lparr>upd_root := Some a, upd_head := h\<rparr>"
  have "getUpdates K (S, G) = Some (?T, G\<lparr>arrays := C, const_arr_id := const_arr_id G + 1\<rparr>)"
    using None p(1,2) c h(1) by (simp add: getUpdates_def Let_def)
  moreover have "keeps_contents S ?T"
  proof (rule keeps_contentsI)
    show "os_ok ?T"
      using inv a(1) h(2) by (simp add: os_ok_def byte_simps typed_ok_def os_root_def cache_invariant_def)
    show "cache_value \<sigma> ?T i = cache_value \<sigma> S i" for \<sigma> i by (simp add: cache_value_def byte_simps)
    show "flushed_value \<sigma> ?T i = flushed_value \<sigma> S i" if "i < os_size S" for \<sigma> i
      using that p(2) h(3) a(2) [of i \<sigma>] zero_array_initial [OF that, of \<sigma>]
        sem [of i "initial_value \<sigma> (zero_array (os_size S))" "initial_value \<sigma> a" \<sigma>]
      by (simp add: flushed_value_def root eval_read_writes) (simp add: os_root_def)
  qed (simp_all add: byte_simps)
  moreover have "array_cache_ok C" using CreateArray_ok [OF G c] by simp
  ultimately show ?thesis by (simp add: byte_simps)
qed

subsection \<open>Reading and writing bytes\<close>

lemma deliversI:
  assumes "r = Some (e, (S', G'))" "keeps_contents S S'" "array_cache_ok (arrays G')" "wt e" "getWidth e = w"
    "\<And>\<sigma> v. assign_ok \<sigma> \<Longrightarrow> coherent \<sigma> S \<Longrightarrow> f \<sigma> (contents \<sigma> S) = Some v \<Longrightarrow> eval \<sigma> e = v"
  shows "delivers S w f r"
  using assms unfolding delivers_def by blast

lemma delivers_before:
  assumes "keeps_contents S S1" "delivers S1 w f r"
  shows "delivers S w f r"
proof -
  obtain e S' G' where e: "r = Some (e, (S', G'))" "keeps_contents S1 S'" "array_cache_ok (arrays G')" "wt e" "getWidth e = w"
    "\<And>\<sigma> v. assign_ok \<sigma> \<Longrightarrow> coherent \<sigma> S1 \<Longrightarrow> f \<sigma> (contents \<sigma> S1) = Some v \<Longrightarrow> eval \<sigma> e = v"
    using assms(2) unfolding delivers_def by blast
  show ?thesis
  proof (rule deliversI [OF e(1) _ e(3-5)])
    show "keeps_contents S S'" using assms(1) e(2) by (rule refines_trans) simp
    show "eval \<sigma> e = v" if "assign_ok \<sigma>" "coherent \<sigma> S" "f \<sigma> (contents \<sigma> S) = Some v" for \<sigma> v
      using that assms(1) e(6) [of \<sigma> v] by (simp add: refines_def)
  qed
qed

lemma read_updates_right:
  assumes ok: "os_ok S" and G: "array_cache_ok (arrays G)" and pos: "0 < os_size S"
    and index: "wt index" "getWidth index = 32"
    and f: "\<And>\<sigma> v. assign_ok \<sigma> \<Longrightarrow> coherent \<sigma> S \<Longrightarrow> f \<sigma> (contents \<sigma> S) = Some v \<Longrightarrow>
      \<exists>i < os_size S. eval \<sigma> index = int i \<and> isByteFlushed S i \<and> v = byte_value \<sigma> S i"
  shows "delivers S 8 f (read_updates K index (S, G))"
proof -
  obtain S' G' where S': "getUpdates K (S, G) = Some (S', G')" "keeps_contents S S'" "upd_root S' \<noteq> None"
      "array_cache_ok (arrays G')" "\<forall>i. isByteFlushed S' i = isByteFlushed S i"
    using getUpdates_right [OF ok G pos] by blast
  then obtain a where a: "upd_root S' = Some a" "os_root S' = a" by (auto simp: os_root_def)
  have ok': "os_ok S'" "os_size S' = os_size S" using S'(2) by (simp_all add: refines_def)
  then have wt: "wt (ReadExpr a (upd_head S') index)" "arr_range a = 8"
    using a index by (auto simp: os_ok_def typed_ok_def byte_typed_array_def)
  have e: "means \<sigma> (Read_make K a (upd_head S') index) 8 (eval_read \<sigma> (upd_head S') a (eval \<sigma> index))"
    if "assign_ok \<sigma>" for \<sigma> using read_make [OF that wt(1)] wt(2) by simp
  show ?thesis
  proof (rule deliversI)
    show "read_updates K index (S, G) = Some (Read_make K a (upd_head S') index, (S', G'))"
      using S'(1) a(1) by (simp add: read_updates_def)
    show "eval \<sigma> (Read_make K a (upd_head S') index) = v"
      if c: "assign_ok \<sigma>" "coherent \<sigma> S" "f \<sigma> (contents \<sigma> S) = Some v" for \<sigma> v
    proof -
      obtain i where i: "i < os_size S" "eval \<sigma> index = int i" "isByteFlushed S i" "v = byte_value \<sigma> S i"
        using f [OF c] by blast
      have c': "coherent \<sigma> S'" "contents \<sigma> S' = contents \<sigma> S" using S'(2) c by (simp_all add: refines_def)
      then have "byte_value \<sigma> S' i = v" using i ok'(2) by (metis contents_nth)
      moreover have "byte_value \<sigma> S' i = flushed_value \<sigma> S' i"
        using c'(1) i S'(5) ok'(2) by (auto simp: byte_value_def coherent_def split: option.split)
      ultimately show ?thesis using e [OF c(1)] i(2) a(2) by (simp add: means_def flushed_value_def)
    qed
  qed (use S' e [OF zero_assign_ok] in \<open>simp_all add: means_def\<close>)
qed

lemma read8_right:
  assumes ok: "os_ok S" and G: "array_cache_ok (arrays G)" and i: "i < os_size S"
  shows "delivers S 8 (\<lambda>\<sigma> m. byte_at m i) (read8 K i (S, G))"
proof -
  have inv: "masks_ok S" "typed_ok S" "cache_invariant S" using ok by (simp_all add: os_ok_def)
  have same: "delivers S 8 (\<lambda>\<sigma> m. byte_at m i) (Some (e, (S, G)))"
    if "wt e" "getWidth e = 8" "\<And>\<sigma>. byte_value \<sigma> S i = eval \<sigma> e" for e
    using that ok G i by (intro deliversI [where e = e]) (auto simp: refines_self byte_at_def contents_nth)
  consider (conc) "isByteConcrete S i" | (sym) e where "\<not> isByteConcrete S i" "known S i = Some e"
    | (stored) "\<not> isByteConcrete S i" "known S i = None" by auto
  then show ?thesis
  proof cases
    case conc
    then show ?thesis using i same [of "byte_expr K (concreteStore S ! i)"]
      by (simp add: read8_def byte_value_def cache_value_def)
  next
    case sym
    have "the (knownSymbolics S) ! i = Some e" using sym(2) by (auto simp: known_def split: option.splits)
    then show ?thesis using sym i same [of e] inv(2)
      by (simp add: read8_def byte_value_def cache_value_def typed_ok_def)
  next
    case stored
    then have fl: "isByteFlushed S i" using inv(3) i by (auto simp: cache_invariant_def)
    then have "read8 K i (S, G) = read_updates K (offset_expr K i) (S, G)"
      using stored i by (simp add: read8_def)
    moreover have "delivers S 8 (\<lambda>\<sigma> m. byte_at m i) (read_updates K (offset_expr K i) (S, G))"
      using offset_expr_means [OF inv(2) i] i fl
      by (intro read_updates_right ok G) (auto simp: byte_at_def contents_nth)
    ultimately show ?thesis by simp
  qed
qed

lemma read8_symbolic_right:
  assumes ok: "os_ok S" and G: "array_cache_ok (arrays G)" and pos: "0 < os_size S"
    and off: "wt off" "getWidth off = 32" "\<not> is_constant off"
  shows "delivers S 8 (\<lambda>\<sigma> m. byte_at m (nat (eval \<sigma> off))) (read8_symbolic K off (S, G))"
proof -
  obtain S' where S': "flushRangeForRead K 0 (os_size S) S = Some S'" "keeps_contents S S'"
      "\<forall>i < os_size S. isByteFlushed S' i"
    using flush_read_range [OF ok] by blast
  have S'': "os_ok S'" "os_size S' = os_size S" using S'(2) by (simp_all add: refines_def)
  have "ZExt_make K off 32 = off" using off by (simp add: ZExt_make_def)
  then have "read8_symbolic K off (S, G) = read_updates K off (S', G)"
    using off S'(1) by (simp add: read8_symbolic_def fastRangeCheckOffset_def)
  moreover have "delivers S' 8 (\<lambda>\<sigma> m. byte_at m (nat (eval \<sigma> off))) (read_updates K off (S', G))"
  proof (rule read_updates_right [OF S''(1) G _ off(1,2)])
    fix \<sigma> v assume a: "assign_ok \<sigma>" "byte_at (contents \<sigma> S') (nat (eval \<sigma> off)) = Some v"
    have "0 \<le> eval \<sigma> off" using eval_inr [OF a(1) off(1)] by (rule inr_nonneg)
    then show "\<exists>i < os_size S'. eval \<sigma> off = int i \<and> isByteFlushed S' i \<and> v = byte_value \<sigma> S' i"
      using a(2) S'(3) S''(2)
      by (intro exI [of _ "nat (eval \<sigma> off)"]) (auto simp: byte_at_def contents_nth split: if_splits)
  qed (use pos S''(2) in simp)
  ultimately show ?thesis using delivers_before [OF S'(2)] by simp
qed

lemma write8_concrete_right:
  assumes ok: "os_ok S" and i: "i < os_size S"
  shows "\<exists>S'. write8_concrete i b S = Some S' \<and> refines (\<lambda>\<sigma> m. m[i := uint b]) S S'"
proof -
  have inv: "masks_ok S" "typed_ok S" "cache_invariant S" using ok by (simp_all add: os_ok_def)
  let ?S = "S\<lparr>concreteStore := (concreteStore S)[i := b]\<rparr>"
  let ?T = "markByteUnflushed i (markByteConcrete i (setKnownSymbolic i None ?S))"
  have S: "masks_ok ?S" "typed_ok ?S"
    using inv by (auto simp: byte_simps masks_ok_def typed_ok_def)
  have bits: "isByteConcrete ?T j \<longleftrightarrow> j = i \<or> isByteConcrete S j" "known ?T j = (if j = i then None else known S j)"
      "isByteFlushed ?T j \<longleftrightarrow> j \<noteq> i \<and> isByteFlushed S j" if "j < os_size S" for j
    using S(1) i that by (simp_all add: byte_simps)
  have "cache_invariant ?T" using inv(3) bits by (auto simp: cache_invariant_def byte_simps)
  moreover have "typed_ok ?T" using S i by (intro typed_ok_mark typed_ok_known) (auto simp: byte_simps)
  moreover have "masks_ok ?T" using S(1) by (simp add: byte_simps)
  ultimately have ok': "os_ok ?T" by (simp add: os_ok_def)
  have len: "length (concreteStore S) = os_size S" using inv(1) by (simp add: masks_ok_def)
  have cache: "cache_value \<sigma> ?T j = (if j = i then Some (uint b) else cache_value \<sigma> S j)" if "j < os_size S" for \<sigma> j
    using bits [OF that] i len by (simp add: cache_value_def byte_simps nth_list_update)
  have "refines (\<lambda>\<sigma> m. m[i := uint b]) S ?T"
    using ok' bits cache i
    by (intro refinesI) (auto simp: byte_simps coherent_def byte_value_def contents_nth nth_list_update split: option.split)
  then show ?thesis using i by (simp add: write8_concrete_def)
qed

lemma write8_right:
  assumes ok: "os_ok S" and i: "i < os_size S" and e: "wt e" "getWidth e = 8"
  shows "\<exists>S'. write8 i e S = Some S' \<and> refines (\<lambda>\<sigma> m. m[i := eval \<sigma> e]) S S'"
proof (cases "as_const e")
  case (Some c)
  then have c: "e = ConstantExpr c" "inr 8 (getZExtValue c)" "getBitWidth c = 8" using e by (auto simp: wf_ap_def)
  then have "uint (word_of_int (getZExtValue c) :: 8 word) = getZExtValue c"
    by (simp add: uint_word_of_int take_bit_inr [symmetric] take_bit_eq_mod inr_def)
  then show ?thesis
    using write8_concrete_right [OF ok i, of "word_of_int (getZExtValue c)"] c by (simp add: write8_def)
next
  case None
  have inv: "masks_ok S" "typed_ok S" "cache_invariant S" using ok by (simp_all add: os_ok_def)
  let ?T = "markByteUnflushed i (markByteSymbolic i (setKnownSymbolic i (Some e) S))"
  have bits: "isByteConcrete ?T j \<longleftrightarrow> j \<noteq> i \<and> isByteConcrete S j" "known ?T j = (if j = i then Some e else known S j)"
      "isByteFlushed ?T j \<longleftrightarrow> j \<noteq> i \<and> isByteFlushed S j" if "j < os_size S" for j
    using inv(1) i that by (simp_all add: byte_simps)
  have sz: "os_size ?T = os_size S" by (simp add: byte_simps)
  have "cache_invariant ?T"
    unfolding cache_invariant_def sz
  proof (intro allI impI)
    fix j assume j: "j < os_size S"
    show "(isByteKnownSymbolic ?T j \<longrightarrow> \<not> isByteConcrete ?T j) \<and> (isByteConcrete ?T j \<longrightarrow> \<not> isByteKnownSymbolic ?T j) \<and>
      (\<not> isByteFlushed ?T j \<longrightarrow> isByteConcrete ?T j \<or> isByteKnownSymbolic ?T j)"
      unfolding isByteKnownSymbolic_iff bits [OF j]
      using inv(3) [unfolded cache_invariant_def, rule_format, OF j] by (cases "j = i") simp_all
  qed
  moreover have "typed_ok ?T" using inv e i by (intro typed_ok_mark typed_ok_known) auto
  moreover have "masks_ok ?T" using inv(1) by (simp add: byte_simps)
  ultimately have ok': "os_ok ?T" by (simp add: os_ok_def)
  have cache: "cache_value \<sigma> ?T j = (if j = i then Some (eval \<sigma> e) else cache_value \<sigma> S j)" if "j < os_size S" for \<sigma> j
    unfolding cache_value_def bits [OF that] by (cases "j = i") (simp_all add: byte_simps)
  have "refines (\<lambda>\<sigma> m. m[i := eval \<sigma> e]) S ?T"
    using ok' bits cache i
    by (intro refinesI) (auto simp: byte_simps coherent_def byte_value_def contents_nth nth_list_update split: option.split)
  then show ?thesis using i None by (simp add: write8_def)
qed

lemma write8_symbolic_right:
  assumes ok: "os_ok S" and e: "wt e" "getWidth e = 8" and off: "wt off" "getWidth off = 32" "\<not> is_constant off"
  shows "\<exists>S'. write8_symbolic K off e S = Some S' \<and> refines (\<lambda>\<sigma> m. m[nat (eval \<sigma> off) := eval \<sigma> e]) S S'"
proof -
  obtain S1 where S1: "flushRangeForWrite K 0 (os_size S) S = Some S1" "keeps_contents S S1"
      "\<forall>i < os_size S. marked_out S1 i"
    using flush_write_range [OF ok] by blast
  have ok1: "os_ok S1" "os_size S1 = os_size S" using S1(2) by (simp_all add: refines_def)
  then have inv: "masks_ok S1" "typed_ok S1" "cache_invariant S1" by (simp_all add: os_ok_def)
  let ?T = "S1\<lparr>upd_head := UpdateNode off e (upd_head S1)\<rparr>"
  have "ZExt_make K off 32 = off" using off by (simp add: ZExt_make_def)
  then have "write8_symbolic K off e S = Some ?T"
    using off S1(1) extend_updates_eq [OF inv(2) off(1,2) e] by (simp add: write8_symbolic_def fastRangeCheckOffset_def)
  moreover have "refines (\<lambda>\<sigma> m. m[nat (eval \<sigma> off) := eval \<sigma> e]) S1 ?T"
  proof (rule refinesI)
    have "typed_ok ?T" using inv(2) off e by (intro typed_ok_extend) auto
    then show "os_ok ?T" using inv by (simp add: os_ok_def byte_simps cache_invariant_def)
    have none: "cache_value \<sigma> S1 j = None" if "j < os_size S1" for \<sigma> j
      using S1(3) that ok1(2) by (simp add: marked_out_def cache_value_def)
    show "coherent \<sigma> ?T" for \<sigma> using none by (simp add: coherent_def byte_simps)
    fix \<sigma> j assume a: "assign_ok \<sigma>" "j < os_size S1"
    have "0 \<le> eval \<sigma> off" using eval_inr [OF a(1) off(1)] by (rule inr_nonneg)
    then show "byte_value \<sigma> ?T j = (contents \<sigma> S1)[nat (eval \<sigma> off) := eval \<sigma> e] ! j"
      using a(2) none by (auto simp: byte_value_def stored_value_extend contents_nth nth_list_update)
  qed simp_all
  ultimately show ?thesis using refines_trans [OF S1(2)] by simp
qed

end

end
