(* ===== verification/ObjectAccess.thy ===== *)
theory ObjectAccess
  imports ObjectState
begin

text \<open>
  Reads and writes of values of any width (\<^verbatim>\<open>ObjectState::read\<close>, \<^verbatim>\<open>ObjectState::write\<close>) against the
  memory they stand for: a list of bytes, accessed at an address with the byte order of the context.
  The lemmas of theory \<open>ObjectState\<close> on single bytes are lifted through the loops over the bytes of a value.
\<close>

subsection \<open>The abstract memory\<close>

primrec bytes_value :: "int list \<Rightarrow> int" where
  "bytes_value [] = 0"
| "bytes_value (b # bs) = concat_bit 8 b (bytes_value bs)"

definition value_bytes :: "nat \<Rightarrow> int \<Rightarrow> int list" where
  "value_bytes n v = map (\<lambda>i. take_bit 8 (drop_bit (8 * i) v)) [0..<n]"

definition mem_load :: "bool \<Rightarrow> int list \<Rightarrow> nat \<Rightarrow> nat \<Rightarrow> int option" where
  "mem_load le m a w =
     (if w = 1 then map_option (take_bit 1) (byte_at m a)
      else let n = w div 8; bs = take n (drop a m) in
        if a + n \<le> length m then Some (bytes_value (if le then bs else rev bs)) else None)"

definition mem_store :: "bool \<Rightarrow> int list \<Rightarrow> nat \<Rightarrow> nat \<Rightarrow> int \<Rightarrow> int list option" where
  "mem_store le m a w v =
     (if w = 1 then if a < length m then Some (m[a := v]) else None
      else let n = w div 8; bs = value_bytes n v in
        if a + n \<le> length m then Some (take a m @ (if le then bs else rev bs) @ drop (a + n) m) else None)"

lemma value_bytes_length [simp]: "length (value_bytes n v) = n"
  by (simp add: value_bytes_def)

lemma bytes_value_append:
  "bytes_value (bs @ [b]) = concat_bit (8 * length bs) (bytes_value bs) (concat_bit 8 b 0)"
  by (induction bs) (simp_all add: concat_bit_assoc add.commute)

lemma bytes_value_bytes: "bytes_value (value_bytes n v) = take_bit (8 * n) v"
proof (induction n)
  case (Suc n)
  have "concat_bit (8 * n) (take_bit (8 * n) v) (take_bit 8 (drop_bit (8 * n) v)) = take_bit (8 * Suc n) v"
    by (rule bit_eqI) (auto simp: bit_simps)
  then show ?case using Suc by (simp add: value_bytes_def bytes_value_append)
qed (simp add: value_bytes_def)

lemma mem_load_store:
  assumes "mem_store le m a w v = Some m'" "w = 1 \<or> 8 dvd w"
  shows "mem_load le m' a w = Some (take_bit w v)"
proof (cases "w = 1")
  case True
  then show ?thesis using assms by (auto simp: mem_store_def mem_load_def byte_at_def split: if_splits)
next
  case False
  then have w: "w = 8 * (w div 8)" using assms(2) by auto
  define n where "n = w div 8"
  from False assms(1) have m': "a + n \<le> length m"
    "m' = take a m @ (if le then value_bytes n v else rev (value_bytes n v)) @ drop (a + n) m"
    by (auto simp: mem_store_def n_def Let_def split: if_splits)
  then have "take n (drop a m') = (if le then value_bytes n v else rev (value_bytes n v))" "a + n \<le> length m'"
    by auto
  then show ?thesis using False bytes_value_bytes [of n v] w by (simp add: mem_load_def n_def)
qed

lemma mem_store_in_bounds:
  assumes "a + (w + 7) div 8 \<le> length m" shows "\<exists>m'. mem_store le m a w v = Some m'"
proof -
  have "w div 8 \<le> (w + 7) div 8" by simp
  with assms have "a + w div 8 \<le> length m" by linarith
  with assms show ?thesis by (auto simp: mem_store_def Let_def)
qed

text \<open>A load from bytes that a store does not touch.\<close>

lemma mem_load_other:
  assumes "mem_store le m a w v = Some m'" "b + (w' + 7) div 8 \<le> a \<or> a + (w + 7) div 8 \<le> b" "0 < w"
  shows "mem_load le m' b w' = mem_load le m b w'"
proof -
  have len: "length m' = length m" using assms(1) by (auto simp: mem_store_def Let_def split: if_splits)
  have same: "m' ! j = m ! j" if "j < a \<or> a + (w + 7) div 8 \<le> j" "j < length m" for j
  proof (cases "w = 1")
    case True
    then show ?thesis using assms(1) that by (auto simp: mem_store_def split: if_splits)
  next
    case False
    have "w div 8 \<le> (w + 7) div 8" by simp
    with False that assms(1) show ?thesis
      by (auto simp: mem_store_def Let_def nth_append split: if_splits)
  qed
  have bytes: "m' ! j = m ! j" if "b \<le> j" "j < b + (w' + 7) div 8" "j < length m" for j
    using that assms(2) by (intro same) auto
  show ?thesis
  proof (cases "w' = 1")
    case True
    then show ?thesis using bytes [of b] len by (auto simp: mem_load_def byte_at_def)
  next
    case False
    have "w' div 8 \<le> (w' + 7) div 8" by simp
    then have "take (w' div 8) (drop b m') = take (w' div 8) (drop b m)" if "b + w' div 8 \<le> length m"
      using that len by (intro nth_equalityI) (auto intro!: bytes)
    with False show ?thesis by (simp add: mem_load_def len Let_def)
  qed
qed

subsection \<open>The byte order\<close>

lemma byte_index_less: "i < n \<Longrightarrow> byte_index K n i < n"
  by (auto simp: byte_index_def)

lemma byte_index_twice: "i < n \<Longrightarrow> byte_index K n (byte_index K n i) = i"
  by (auto simp: byte_index_def)

lemma load_loop:
  assumes "a + n \<le> length m"
  shows "map (\<lambda>i. m ! (a + byte_index K n i)) [0..<n] =
    (if isLittleEndian K then take n (drop a m) else rev (take n (drop a m)))"
  using assms by (intro nth_equalityI) (auto simp: byte_index_def rev_nth)

lemma fold_updates_length [simp]: "length (fold (\<lambda>i m. m[p i := b i]) is m) = length m"
  by (induction "is" arbitrary: m) auto

lemma fold_updates_nth:
  assumes "j < length m"
  shows "i < n \<Longrightarrow> inj_on p {..<n} \<Longrightarrow> p i = j \<Longrightarrow> fold (\<lambda>i m. m[p i := b i]) [0..<n] m ! j = b i"
    and "(\<And>i. i < n \<Longrightarrow> p i \<noteq> j) \<Longrightarrow> fold (\<lambda>i m. m[p i := b i]) [0..<n] m ! j = m ! j"
proof -
  show other: "(\<And>i. i < n \<Longrightarrow> p i \<noteq> j) \<Longrightarrow> fold (\<lambda>i m. m[p i := b i]) [0..<n] m ! j = m ! j" for n
    by (induction n) auto
  show "i < n \<Longrightarrow> inj_on p {..<n} \<Longrightarrow> p i = j \<Longrightarrow> fold (\<lambda>i m. m[p i := b i]) [0..<n] m ! j = b i"
  proof (induction n)
    case (Suc n)
    show ?case
    proof (cases "i = n")
      case True
      then show ?thesis using Suc.prems assms by simp
    next
      case False
      then have "p n \<noteq> j" using Suc.prems by (auto dest: inj_onD)
      moreover have "inj_on p {..<n}" using Suc.prems(2) by (rule inj_on_subset) auto
      ultimately show ?thesis using Suc False by simp
    qed
  qed simp
qed

lemma store_loop:
  assumes "a + n \<le> length m" "w \<noteq> 1" "n = w div 8"
  shows "mem_store (isLittleEndian K) m a w v =
    Some (fold (\<lambda>i m. m[a + byte_index K n i := take_bit 8 (drop_bit (8 * i) v)]) [0..<n] m)"
proof -
  let ?bs = "value_bytes n v" and ?p = "\<lambda>i. a + byte_index K n i"
  let ?r = "take a m @ (if isLittleEndian K then ?bs else rev ?bs) @ drop (a + n) m"
  have inj: "inj_on ?p {..<n}" by (rule inj_onI) (metis byte_index_twice add_left_cancel lessThan_iff)
  have "fold (\<lambda>i m. m[?p i := take_bit 8 (drop_bit (8 * i) v)]) [0..<n] m = ?r"
  proof (rule nth_equalityI)
    fix j assume "j < length (fold (\<lambda>i m. m[?p i := take_bit 8 (drop_bit (8 * i) v)]) [0..<n] m)"
    then have j: "j < length m" by simp
    show "fold (\<lambda>i m. m[?p i := take_bit 8 (drop_bit (8 * i) v)]) [0..<n] m ! j = ?r ! j"
    proof (cases "a \<le> j \<and> j < a + n")
      case True
      define i where "i = byte_index K n (j - a)"
      have i: "i < n" "?p i = j"
        using True byte_index_less [of "j - a" n K] byte_index_twice [of "j - a" n K] by (auto simp: i_def)
      have "?r ! j = take_bit 8 (drop_bit (8 * i) v)"
        using True i assms(1) by (auto simp: nth_append rev_nth value_bytes_def i_def byte_index_def)
      then show ?thesis using fold_updates_nth(1) [OF j i(1) inj i(2)] by simp
    next
      case False
      have "?p i \<noteq> j" if "i < n" for i using byte_index_less [OF that, of K] False by auto
      then show ?thesis using fold_updates_nth(2) [OF j] False j assms(1) by (auto simp: nth_append)
    qed
  qed (use assms(1) in auto)
  then show ?thesis using assms by (simp add: mem_store_def Let_def)
qed

subsection \<open>The loop of read\<close>

text \<open>The values that \<open>n\<close> bytes are found to have, put together.\<close>

definition gather :: "(nat \<Rightarrow> assignment \<Rightarrow> int list \<Rightarrow> int option) \<Rightarrow> nat \<Rightarrow> assignment \<Rightarrow> int list \<Rightarrow> int option" where
  "gather g n \<sigma> m = map_option bytes_value (those (map (\<lambda>i. g i \<sigma> m) [0..<n]))"

lemma those_append: "those (xs @ [y]) = (case those xs of None \<Rightarrow> None | Some l \<Rightarrow> map_option (\<lambda>b. l @ [b]) y)"
  by (induction xs; cases y) (auto split: option.splits)

lemma those_length: "those xs = Some l \<Longrightarrow> length l = length xs"
  by (induction xs arbitrary: l) (auto split: option.splits)

lemma gather_Suc:
  "gather g (Suc n) \<sigma> m = Some v \<longleftrightarrow>
     (\<exists>u b. gather g n \<sigma> m = Some u \<and> g n \<sigma> m = Some b \<and> v = concat_bit (8 * n) u (take_bit 8 b))"
  by (auto simp: gather_def those_append bytes_value_append concat_bit_def dest: those_length split: option.splits)

lemma those_all: "(\<And>i. i < n \<Longrightarrow> f i = Some (h i)) \<Longrightarrow> those (map f [0..<n]) = Some (map h [0..<n])"
  by (induction n) (simp_all add: those_append)

context memory_env
begin

lemma read_loop_Suc:
  assumes "deref (read_bytes K get (Suc i) st) = Some (e, st')"
  shows "deref (read_bytes K get (Suc (Suc i)) st) =
    (case get (Suc i) st' of None \<Rightarrow> None | Some (b, st'') \<Rightarrow> Some (Concat_make K b e, st''))"
proof -
  have "read_bytes K get (Suc i) st = Some (Some e, st')"
    using assms by (auto simp: deref_def simp del: read_bytes.simps split: option.splits)
  then show ?thesis
    by (subst read_bytes.simps(2)) (auto simp: deref_def simp del: read_bytes.simps split: option.split)
qed

lemma read_loop_right:
  assumes "os_ok S" "array_cache_ok (arrays G)" "0 < n"
    and get: "\<And>i S1 G1. i < n \<Longrightarrow> keeps_contents S S1 \<Longrightarrow> array_cache_ok (arrays G1) \<Longrightarrow> delivers S1 8 (g i) (get i (S1, G1))"
  shows "delivers S (8 * n) (gather g n) (deref (read_bytes K get n (S, G)))"
  using assms(3,4)
proof (induction n rule: nat_induct_non_zero)
  case 1
  obtain e S' G' where e: "get 0 (S, G) = Some (e, (S', G'))" "keeps_contents S S'" "array_cache_ok (arrays G')" "wt e" "getWidth e = 8"
    "\<And>\<sigma> v. assign_ok \<sigma> \<Longrightarrow> coherent \<sigma> S \<Longrightarrow> g 0 \<sigma> (contents \<sigma> S) = Some v \<Longrightarrow> eval \<sigma> e = v"
    using "1.prems" [OF zero_less_one refines_self [OF assms(1)] assms(2)] unfolding delivers_def by blast
  show ?case
  proof (rule deliversI)
    show "deref (read_bytes K get 1 (S, G)) = Some (e, (S', G'))" using e(1) by (simp add: deref_def)
    show "eval \<sigma> e = v" if a: "assign_ok \<sigma>" "coherent \<sigma> S" "gather g 1 \<sigma> (contents \<sigma> S) = Some v" for \<sigma> v
    proof -
      obtain b where b: "g 0 \<sigma> (contents \<sigma> S) = Some b" "v = take_bit 8 b"
        using a(3) by (auto simp: gather_def concat_bit_def split: option.splits)
      then have "eval \<sigma> e = b" using e(6) a by blast
      then show ?thesis using b(2) eval_inr [OF a(1) e(4)] e(5) by (simp add: take_bit_inr)
    qed
  qed (use e in simp_all)
next
  case (Suc n)
  obtain n' where n': "n = Suc n'" using Suc.hyps by (cases n) auto
  have "delivers S (8 * n) (gather g n) (deref (read_bytes K get n (S, G)))"
    by (rule Suc.IH) (rule Suc.prems, simp)
  then obtain e S' G' where e: "deref (read_bytes K get n (S, G)) = Some (e, (S', G'))" "keeps_contents S S'" "array_cache_ok (arrays G')"
      "wt e" "getWidth e = 8 * n"
    and ev: "\<And>\<sigma> v. assign_ok \<sigma> \<Longrightarrow> coherent \<sigma> S \<Longrightarrow> gather g n \<sigma> (contents \<sigma> S) = Some v \<Longrightarrow> eval \<sigma> e = v"
    unfolding delivers_def by blast
  have "delivers S' 8 (g n) (get n (S', G'))" using Suc.prems [of n S' G'] e by simp
  from delivers_before [OF e(2) this]
  obtain b S'' G'' where b: "get n (S', G') = Some (b, (S'', G''))" "keeps_contents S S''" "array_cache_ok (arrays G'')"
      "wt b" "getWidth b = 8"
    and bv: "\<And>\<sigma> v. assign_ok \<sigma> \<Longrightarrow> coherent \<sigma> S \<Longrightarrow> g n \<sigma> (contents \<sigma> S) = Some v \<Longrightarrow> eval \<sigma> b = v"
    unfolding delivers_def by blast
  have c: "means \<sigma> (Concat_make K b e) (8 + 8 * n) (concat_bit (8 * n) (eval \<sigma> e) (eval \<sigma> b))" if "assign_ok \<sigma>" for \<sigma>
    using concat_make [OF that b(4) e(4)] b(5) e(5) by simp
  show ?case
  proof (rule deliversI)
    show "deref (read_bytes K get (Suc n) (S, G)) = Some (Concat_make K b e, (S'', G''))"
      using read_loop_Suc [of get n' "(S, G)" e "(S', G')"] e(1) b(1) by (simp add: n' del: read_bytes.simps)
    show "eval \<sigma> (Concat_make K b e) = v"
      if a: "assign_ok \<sigma>" "coherent \<sigma> S" "gather g (Suc n) \<sigma> (contents \<sigma> S) = Some v" for \<sigma> v
    proof -
      obtain u x where u: "gather g n \<sigma> (contents \<sigma> S) = Some u" "g n \<sigma> (contents \<sigma> S) = Some x"
          "v = concat_bit (8 * n) u (take_bit 8 x)"
        using a(3) by (auto simp: gather_Suc)
      then have "eval \<sigma> e = u" "eval \<sigma> b = x" "take_bit 8 x = x"
        using ev [OF a(1,2)] bv [OF a(1,2)] eval_inr [OF a(1) b(4)] b(5) by (auto simp: take_bit_inr)
      then show ?thesis using c [OF a(1)] u(3) by (simp add: means_def)
    qed
  qed (use b c [OF zero_assign_ok] in \<open>simp_all add: means_def\<close>)
qed

subsection \<open>The loop of write\<close>

lemma write_bytes_right:
  assumes "os_ok S"
    and put: "\<And>i S1. i < n \<Longrightarrow> os_ok S1 \<Longrightarrow> os_size S1 = os_size S \<Longrightarrow>
      \<exists>S2. put i S1 = Some S2 \<and> refines (\<lambda>\<sigma> m. m[p \<sigma> i := b \<sigma> i]) S1 S2"
  shows "\<exists>S'. write_bytes put n S = Some S' \<and> refines (\<lambda>\<sigma> m. fold (\<lambda>i m. m[p \<sigma> i := b \<sigma> i]) [0..<n] m) S S'"
  using put
proof (induction n)
  case 0
  then show ?case using assms(1) by (simp add: refines_self)
next
  case (Suc n)
  obtain S1 where S1: "write_bytes put n S = Some S1" "refines (\<lambda>\<sigma> m. fold (\<lambda>i m. m[p \<sigma> i := b \<sigma> i]) [0..<n] m) S S1"
    using Suc.IH Suc.prems by (meson less_SucI)
  then obtain S2 where S2: "put n S1 = Some S2" "refines (\<lambda>\<sigma> m. m[p \<sigma> n := b \<sigma> n]) S1 S2"
    using Suc.prems [of n S1] by (auto simp: refines_def)
  have "refines (\<lambda>\<sigma> m. fold (\<lambda>i m. m[p \<sigma> i := b \<sigma> i]) [0..<Suc n] m) S S2"
    by (rule refines_trans [OF S1(2) S2(2)]) simp
  then show ?case using S1(1) S2(1) by simp
qed

lemma write_word_right:
  assumes ok: "os_ok S" and range: "a + n \<le> os_size S"
  shows "\<exists>S'. write_word K n a v S = Some S' \<and>
    refines (\<lambda>\<sigma> m. fold (\<lambda>i m. m[a + byte_index K n i := take_bit 8 (drop_bit (8 * i) (uint v))]) [0..<n] m) S S'"
proof -
  have size: "os_size S < 2 ^ 32" using ok by (simp add: os_ok_def typed_ok_def)
  show ?thesis unfolding write_word_def
  proof (rule write_bytes_right [OF ok])
    fix i S1 assume i: "i < n" and S1: "os_ok S1" "os_size S1 = os_size S"
    have "a + byte_index K n i < os_size S" using byte_index_less [OF i, of K] range by simp
    then have at: "uadd a (byte_index K n i) = a + byte_index K n i" "a + byte_index K n i < os_size S1"
      using size S1(2) by (simp_all add: uadd_def)
    have "uint (ucast (drop_bit (8 * i) v) :: 8 word) = take_bit 8 (drop_bit (8 * i) (uint v))"
      by (rule bit_eqI) (auto simp: bit_simps dest: bit_imp_le_length)
    then show "\<exists>S2. write8_concrete (uadd a (byte_index K n i)) (ucast (drop_bit (8 * i) v)) S1 = Some S2 \<and>
      refines (\<lambda>\<sigma> m. m[a + byte_index K n i := take_bit 8 (drop_bit (8 * i) (uint v))]) S1 S2"
      using write8_concrete_right [OF S1(1) at(2), of "ucast (drop_bit (8 * i) v)"] at(1) by simp
  qed
qed

lemma write_value_right:
  assumes ok: "os_ok S" and e: "wt e" "getWidth e = 8 * n"
    and put: "\<And>i b S1. i < n \<Longrightarrow> os_ok S1 \<Longrightarrow> os_size S1 = os_size S \<Longrightarrow> wt b \<Longrightarrow> getWidth b = 8 \<Longrightarrow>
      \<exists>S2. put (byte_index K n i) b S1 = Some S2 \<and> refines (\<lambda>\<sigma> m. m[p \<sigma> i := eval \<sigma> b]) S1 S2"
  shows "\<exists>S'. write_value K put e S = Some S' \<and>
    refines (\<lambda>\<sigma> m. fold (\<lambda>i m. m[p \<sigma> i := take_bit 8 (drop_bit (8 * i) (eval \<sigma> e))]) [0..<n] m) S S'"
proof -
  have "\<exists>S'. write_bytes (\<lambda>i. put (byte_index K n i) (Extract_make K e (8 * i) 8)) n S = Some S' \<and>
    refines (\<lambda>\<sigma> m. fold (\<lambda>i m. m[p \<sigma> i := eval \<sigma> (Extract_make K e (8 * i) 8)]) [0..<n] m) S S'"
  proof (rule write_bytes_right [OF ok])
    fix i S1 assume i: "i < n" and S1: "os_ok S1" "os_size S1 = os_size S"
    have x: "means \<sigma> (Extract_make K e (8 * i) 8) 8 (take_bit 8 (drop_bit (8 * i) (eval \<sigma> e)))" if "assign_ok \<sigma>" for \<sigma>
      using extract_make [OF that e(1), of 8 "8 * i"] e(2) i by simp
    show "\<exists>S2. put (byte_index K n i) (Extract_make K e (8 * i) 8) S1 = Some S2 \<and>
      refines (\<lambda>\<sigma> m. m[p \<sigma> i := eval \<sigma> (Extract_make K e (8 * i) 8)]) S1 S2"
      using put [OF i S1] x [OF zero_assign_ok] by (simp add: means_def)
  qed
  then obtain S' where S': "write_bytes (\<lambda>i. put (byte_index K n i) (Extract_make K e (8 * i) 8)) n S = Some S'"
    "refines (\<lambda>\<sigma> m. fold (\<lambda>i m. m[p \<sigma> i := eval \<sigma> (Extract_make K e (8 * i) 8)]) [0..<n] m) S S'" by blast
  have "fold (\<lambda>i m. m[p \<sigma> i := eval \<sigma> (Extract_make K e (8 * i) 8)]) [0..<n] m =
      fold (\<lambda>i m. m[p \<sigma> i := take_bit 8 (drop_bit (8 * i) (eval \<sigma> e))]) [0..<n] m" if "assign_ok \<sigma>" for \<sigma> m
  proof (rule fold_cong)
    fix i assume "i \<in> set [0..<n]"
    then have "means \<sigma> (Extract_make K e (8 * i) 8) 8 (take_bit 8 (drop_bit (8 * i) (eval \<sigma> e)))"
      using extract_make [OF that e(1), of 8 "8 * i"] e(2) by simp
    then show "(\<lambda>m. m[p \<sigma> i := eval \<sigma> (Extract_make K e (8 * i) 8)]) =
      (\<lambda>m. m[p \<sigma> i := take_bit 8 (drop_bit (8 * i) (eval \<sigma> e))])" by (simp add: means_def)
  qed simp_all
  then have "refines (\<lambda>\<sigma> m. fold (\<lambda>i m. m[p \<sigma> i := take_bit 8 (drop_bit (8 * i) (eval \<sigma> e))]) [0..<n] m) S S'"
    using S'(2) by (simp add: refines_def)
  then show ?thesis using S'(1) e(2) by (simp add: write_value_def Let_def)
qed

text \<open>
  \<open>sums_variable e\<close>: adding a constant to \<open>e\<close> cannot fold it to a constant. The sums that the constructors
  build satisfy it; a sum of two constants left unfolded would not, and would run into the assertion
  against a constant offset.
\<close>

end

definition width_ok :: "nat \<Rightarrow> bool" where
  "width_ok w \<longleftrightarrow> w = 1 \<or> 0 < w \<and> 8 dvd w \<and> w < 2 ^ 32"

fun sums_variable :: "expr \<Rightarrow> bool" where
  "sums_variable (ConstantExpr c) = False"
| "sums_variable (BinaryExpr Add (ConstantExpr c) d) = sums_variable d"
| "sums_variable (BinaryExpr Sub (ConstantExpr c) d) = sums_variable d"
| "sums_variable _ = True"

lemma sums_variable_not_constant: "sums_variable e \<Longrightarrow> \<not> is_constant e"
  by (auto simp: is_constant_iff)

context memory_env
begin

lemma add_stays_variable:
  "\<lbrakk>wf_ap c; wt r; getWidth r = getBitWidth c; getBitWidth c \<noteq> 1; sums_variable r\<rbrakk> \<Longrightarrow>
   \<not> is_constant (AddExpr_createPartialR K c r) \<and> \<not> is_constant (SubExpr_createPartialR K c r)"
proof (induction r arbitrary: c rule: measure_induct_rule [where f = size])
  case (less r)
  have fold: "\<not> is_constant (Add_const K (CE_binary K k c d) s) \<and> \<not> is_constant (Sub_const K (CE_binary K k c d) s)"
    if "size s < size r" "wf_ap d" "wt s" "getBitWidth d = getBitWidth c" "getWidth s = getBitWidth c" "sums_variable s"
      "k = Add \<or> k = Sub" for k d s
  proof -
    have w: "wf_ap (CE_binary K k c d)" "getBitWidth (CE_binary K k c d) = getBitWidth c"
      using arith_wf [OF less.prems(1) that(2), of k] that(4,7) by (auto simp: CE_binary_def)
    have "as_const s = None" using sums_variable_not_constant [OF that(6)] by (simp add: as_const_None)
    then show ?thesis
      using less.IH [OF that(1) w(1) that(3) _ _ that(6)] w(2) that(5) less.prems(4)
      by (simp add: Add_const.simps Sub_const.simps)
  qed
  have parts: "size s < size r \<and> wf_ap d \<and> wt s \<and> getBitWidth d = getBitWidth c \<and> getWidth s = getBitWidth c \<and> sums_variable s"
    if "const_lhs k r = Some (d, s)" "k = Add \<or> k = Sub" for k d s
    using that less.prems by (auto simp: const_lhs_Some bv_width_def)
  have "\<not> is_constant r" using sums_variable_not_constant [OF less.prems(5)] .
  then show ?case
    using less.prems(4) fold parts
    by (auto simp: AddExpr_createPartialR.simps [of K c r] SubExpr_createPartialR.simps [of K c r] split: option.split)
qed

lemma offset_stays_variable:
  assumes "wt off" "getWidth off = 32" "sums_variable off"
  shows "\<not> is_constant (Add_make K off (offset_expr K i))"
proof -
  have "as_const off = None" using sums_variable_not_constant [OF assms(3)] by (simp add: as_const_None)
  moreover have "\<not> is_constant (AddExpr_createPartialR K (ConstantExpr_alloc K (int i) 32) off)"
    using add_stays_variable [of "ConstantExpr_alloc K (int i) 32" off] assms by simp
  ultimately show ?thesis by (simp add: Add_make.simps offset_expr_def AddExpr_createPartial_def)
qed

lemma byte_offset_means:
  assumes "assign_ok \<sigma>" "wt off" "getWidth off = 32" "i < 2 ^ 32"
  shows "means \<sigma> (Add_make K off (offset_expr K i)) 32 (take_bit 32 (eval \<sigma> off + int i))"
proof -
  have i: "wt (offset_expr K i)" "getWidth (offset_expr K i) = 32" "eval \<sigma> (offset_expr K i) = int i"
    using assms(4) by (simp_all add: offset_expr_def take_bit_int_eq_self_iff)
  then show ?thesis
    using binary_make [OF assms(1,2) i(1), of Add] assms(3) by (simp add: bv_width_def bv_bin_def)
qed

subsection \<open>Read\<close>

lemma delivers_mono:
  assumes "delivers S w g r" "w = w'"
    and "\<And>\<sigma> v. assign_ok \<sigma> \<Longrightarrow> f \<sigma> (contents \<sigma> S) = Some v \<Longrightarrow> g \<sigma> (contents \<sigma> S) = Some v"
  shows "delivers S w' f r"
  using assms unfolding delivers_def by blast

text \<open>One bit of a byte: the accesses of width one.\<close>

lemma bit_of_byte:
  assumes "delivers S 8 f r"
  shows "delivers S 1 (\<lambda>\<sigma> m. map_option (take_bit 1) (f \<sigma> m)) (do { (b, st) \<leftarrow> r; Some (Extract_make K b 0 1, st) })"
proof -
  obtain e S' G' where e: "r = Some (e, (S', G'))" "keeps_contents S S'" "array_cache_ok (arrays G')" "wt e" "getWidth e = 8"
    "\<And>\<sigma> v. assign_ok \<sigma> \<Longrightarrow> coherent \<sigma> S \<Longrightarrow> f \<sigma> (contents \<sigma> S) = Some v \<Longrightarrow> eval \<sigma> e = v"
    using assms unfolding delivers_def by blast
  have x: "means \<sigma> (Extract_make K e 0 1) 1 (take_bit 1 (eval \<sigma> e))" if "assign_ok \<sigma>" for \<sigma>
    using extract_make [OF that e(4), of 1 0] e(5) by simp
  show ?thesis
  proof (rule deliversI)
    show "do { (b, st) \<leftarrow> r; Some (Extract_make K b 0 1, st) } = Some (Extract_make K e 0 1, (S', G'))"
      using e(1) by simp
    show "eval \<sigma> (Extract_make K e 0 1) = v"
      if "assign_ok \<sigma>" "coherent \<sigma> S" "map_option (take_bit 1) (f \<sigma> (contents \<sigma> S)) = Some v" for \<sigma> v
      using that e(6) [of \<sigma>] x [of \<sigma>] by (auto simp: means_def)
  qed (use e x [OF zero_assign_ok] in \<open>simp_all add: means_def\<close>)
qed

lemma read_value_right:
  assumes "os_ok S" "array_cache_ok (arrays G)" "w \<noteq> 1" "0 < w" "8 dvd w"
    and get: "\<And>i S1 G1. i < w div 8 \<Longrightarrow> keeps_contents S S1 \<Longrightarrow> array_cache_ok (arrays G1) \<Longrightarrow>
      delivers S1 8 (g i) (get (byte_index K (w div 8) i) (S1, G1))"
    and g: "\<And>\<sigma> i. assign_ok \<sigma> \<Longrightarrow> a \<sigma> + w div 8 \<le> os_size S \<Longrightarrow> i < w div 8 \<Longrightarrow>
      g i \<sigma> (contents \<sigma> S) = byte_at (contents \<sigma> S) (a \<sigma> + byte_index K (w div 8) i)"
  shows "delivers S w (\<lambda>\<sigma> m. mem_load (isLittleEndian K) m (a \<sigma>) w) (read_value K get w (S, G))"
proof -
  define n where "n = w div 8"
  have w: "w = 8 * n" "0 < n" using assms(4,5) by (auto simp: n_def)
  have "delivers S (8 * n) (gather g n) (deref (read_bytes K (\<lambda>i. get (byte_index K n i)) n (S, G)))"
    using get by (intro read_loop_right assms(1,2) w(2)) (simp add: n_def)
  then have "delivers S (8 * n) (gather g n) (read_value K get w (S, G))"
    using w by (simp add: read_value_def Let_def)
  then show ?thesis
  proof (rule delivers_mono)
    fix \<sigma> v assume a: "assign_ok \<sigma>" and v: "mem_load (isLittleEndian K) (contents \<sigma> S) (a \<sigma>) w = Some v"
    let ?m = "contents \<sigma> S" and ?bs = "take n (drop (a \<sigma>) (contents \<sigma> S))"
    have r: "a \<sigma> + n \<le> length ?m" "v = bytes_value (if isLittleEndian K then ?bs else rev ?bs)"
      using v assms(3) by (auto simp: mem_load_def n_def Let_def split: if_splits)
    have "those (map (\<lambda>i. g i \<sigma> ?m) [0..<n]) = Some (map (\<lambda>i. ?m ! (a \<sigma> + byte_index K n i)) [0..<n])"
    proof (rule those_all)
      fix i assume i: "i < n"
      then show "g i \<sigma> ?m = Some (?m ! (a \<sigma> + byte_index K n i))"
        using g [OF a _, of i] r(1) byte_index_less [OF i, of K] by (simp add: n_def [symmetric] byte_at_def)
    qed
    then show "gather g n \<sigma> ?m = Some v" using load_loop [OF r(1), of K] r(2) by (simp add: gather_def)
  qed (use w in simp)
qed

lemma read_at_constant_right:
  assumes ok: "os_ok S" and G: "array_cache_ok (arrays G)" and w: "width_ok w" and range: "a + (w + 7) div 8 \<le> os_size S"
  shows "delivers S w (\<lambda>\<sigma> m. mem_load (isLittleEndian K) m a w) (read_at_constant K a w (S, G))"
proof (cases "w = 1")
  case True
  then have "a < os_size S" using range by simp
  from bit_of_byte [OF read8_right [OF ok G this]] True show ?thesis
    by (simp add: read_at_constant_def mem_load_def)
next
  case False
  define n where "n = w div 8"
  have w': "0 < w" "8 dvd w" "w = 8 * n" using False w by (auto simp: width_ok_def n_def)
  then have r: "a + n \<le> os_size S" using range by simp
  have size: "os_size S < 2 ^ 32" using ok by (simp add: os_ok_def typed_ok_def)
  have at: "uadd a (byte_index K n i) = a + byte_index K n i" "a + byte_index K n i < os_size S" if "i < n" for i
    using byte_index_less [OF that, of K] r size by (simp_all add: uadd_def)
  have "delivers S w (\<lambda>\<sigma> m. mem_load (isLittleEndian K) m a w) (read_value K (\<lambda>idx. read8 K (uadd a idx)) w (S, G))"
  proof (rule read_value_right [OF ok G False w'(1,2)])
    fix i S1 and G1 :: mem_globals assume i: "i < w div 8" and S1: "keeps_contents S S1" "array_cache_ok (arrays G1)"
    show "delivers S1 8 (\<lambda>\<sigma> m. byte_at m (a + byte_index K n i)) (read8 K (uadd a (byte_index K (w div 8) i)) (S1, G1))"
      using read8_right [of S1 G1 "a + byte_index K n i"] S1 i at [of i] by (simp add: n_def refines_def)
  qed (simp add: n_def)
  then show ?thesis using False by (simp add: read_at_constant_def)
qed

lemma read_symbolic_right:
  assumes ok: "os_ok S" and G: "array_cache_ok (arrays G)" and w: "width_ok w" and pos: "0 < os_size S"
    and off: "wt off" "getWidth off = 32" "sums_variable off"
  shows "delivers S w (\<lambda>\<sigma> m. mem_load (isLittleEndian K) m (nat (eval \<sigma> off)) w)
    (if w = 1 then do { (b, st) \<leftarrow> read8_symbolic K off (S, G); Some (Extract_make K b 0 1, st) }
     else read_value K (\<lambda>idx. read8_symbolic K (Add_make K off (offset_expr K idx))) w (S, G))"
proof (cases "w = 1")
  case True
  from bit_of_byte [OF read8_symbolic_right [OF ok G pos off(1,2) sums_variable_not_constant [OF off(3)]]] True show ?thesis
    by (simp add: mem_load_def)
next
  case False
  define n where "n = w div 8"
  have w': "0 < w" "8 dvd w" "w = 8 * n" "n < 2 ^ 32" using False w by (auto simp: width_ok_def n_def)
  have size: "os_size S < 2 ^ 32" using ok by (simp add: os_ok_def typed_ok_def)
  let ?o = "\<lambda>i. Add_make K off (offset_expr K (byte_index K n i))"
  have o: "means \<sigma> (?o i) 32 (take_bit 32 (eval \<sigma> off + int (byte_index K n i)))" if "assign_ok \<sigma>" "i < n" for \<sigma> i
    using byte_offset_means [OF that(1) off(1,2)] byte_index_less [OF that(2), of K] w'(4) by simp
  have "delivers S w (\<lambda>\<sigma> m. mem_load (isLittleEndian K) m (nat (eval \<sigma> off)) w)
    (read_value K (\<lambda>idx. read8_symbolic K (Add_make K off (offset_expr K idx))) w (S, G))"
  proof (rule read_value_right [OF ok G False w'(1,2)])
    fix i S1 and G1 :: mem_globals assume i: "i < w div 8" and S1: "keeps_contents S S1" "array_cache_ok (arrays G1)"
    show "delivers S1 8 (\<lambda>\<sigma> m. byte_at m (nat (eval \<sigma> (?o i))))
        (read8_symbolic K (Add_make K off (offset_expr K (byte_index K (w div 8) i))) (S1, G1))"
      using read8_symbolic_right [of S1 G1 "?o i"] S1 i o [OF zero_assign_ok, of i] pos offset_stays_variable [OF off]
      by (simp add: n_def refines_def means_def)
  next
    fix \<sigma> i assume a: "assign_ok \<sigma>" "nat (eval \<sigma> off) + w div 8 \<le> os_size S" "i < w div 8"
    have "0 \<le> eval \<sigma> off" using eval_inr [OF a(1) off(1)] by (rule inr_nonneg)
    moreover have "byte_index K n i < n" using byte_index_less a(3) by (simp add: n_def)
    ultimately have "take_bit 32 (eval \<sigma> off + int (byte_index K n i)) = eval \<sigma> off + int (byte_index K n i)"
      using a(2) size by (intro take_bit_inr) (auto simp: inr_def n_def)
    then have "eval \<sigma> (?o i) = eval \<sigma> off + int (byte_index K n i)"
      using o [OF a(1)] a(3) by (simp add: means_def n_def)
    then show "byte_at (contents \<sigma> S) (nat (eval \<sigma> (?o i))) =
        byte_at (contents \<sigma> S) (nat (eval \<sigma> off) + byte_index K (w div 8) i)"
      using \<open>0 \<le> eval \<sigma> off\<close> by (simp add: n_def nat_add_distrib)
  qed
  then show ?thesis using False by simp
qed

text \<open>What the callers of \<^verbatim>\<open>read\<close> and \<^verbatim>\<open>write\<close> ensure: a constant offset is in range, a symbolic one does not fold.\<close>

end

definition access_ok :: "'z mem_env_scheme \<Rightarrow> object_state \<Rightarrow> expr \<Rightarrow> nat \<Rightarrow> bool" where
  "access_ok K S off w \<longleftrightarrow> wt off \<and> width_ok w \<and> 0 < os_size S \<and>
     (case as_const (ZExt_make K off 32) of
        Some c \<Rightarrow> nat (getZExtValue c) + (w + 7) div 8 \<le> os_size S
      | None \<Rightarrow> sums_variable (ZExt_make K off 32))"

definition address :: "assignment \<Rightarrow> expr \<Rightarrow> nat" where
  "address \<sigma> off = nat (take_bit 32 (eval \<sigma> off))"

context memory_env
begin

lemma os_read_right:
  assumes ok: "os_ok S" and G: "array_cache_ok (arrays G)" and acc: "access_ok K S off w"
  shows "delivers S w (\<lambda>\<sigma> m. mem_load (isLittleEndian K) m (address \<sigma> off) w) (os_read K off w (S, G))"
proof -
  let ?o = "ZExt_make K off 32"
  have "wt off" using acc by (simp add: access_ok_def)
  then have o: "means \<sigma> ?o 32 (take_bit 32 (eval \<sigma> off))" if "assign_ok \<sigma>" for \<sigma>
    using zext_make [OF that, of off 32] by simp
  show ?thesis
  proof (cases "as_const ?o")
    case (Some c)
    have "address \<sigma> off = nat (getZExtValue c)" if "assign_ok \<sigma>" for \<sigma>
      using o [OF that] Some by (simp add: means_def address_def)
    moreover have "delivers S w (\<lambda>\<sigma> m. mem_load (isLittleEndian K) m (nat (getZExtValue c)) w) (os_read K off w (S, G))"
      using read_at_constant_right [OF ok G] acc Some by (simp add: os_read_def access_ok_def Let_def)
    ultimately show ?thesis by (auto elim!: delivers_mono)
  next
    case None
    have "address \<sigma> off = nat (eval \<sigma> ?o)" if "assign_ok \<sigma>" for \<sigma>
      using o [OF that] by (simp add: means_def address_def)
    moreover have "delivers S w (\<lambda>\<sigma> m. mem_load (isLittleEndian K) m (nat (eval \<sigma> ?o)) w) (os_read K off w (S, G))"
      using read_symbolic_right [OF ok G, of w ?o] acc None o [OF zero_assign_ok]
      by (simp add: os_read_def access_ok_def Let_def means_def split del: if_split)
    ultimately show ?thesis by (auto elim!: delivers_mono)
  qed
qed

subsection \<open>Write\<close>

text \<open>\<open>stores\<close>: an operation that leads from \<open>S\<close> to \<open>S'\<close> is a store, where the store is in bounds.\<close>

end

definition stores :: "(assignment \<Rightarrow> int list \<Rightarrow> int list option) \<Rightarrow> object_state \<Rightarrow> object_state \<Rightarrow> bool" where
  "stores f S S' \<longleftrightarrow> os_ok S' \<and> os_size S' = os_size S \<and>
     (\<forall>\<sigma>. assign_ok \<sigma> \<longrightarrow> coherent \<sigma> S \<longrightarrow> coherent \<sigma> S' \<and>
       (\<forall>m. f \<sigma> (contents \<sigma> S) = Some m \<longrightarrow> contents \<sigma> S' = m))"

lemma refines_stores:
  assumes "refines g S S'"
    and "\<And>\<sigma> m. assign_ok \<sigma> \<Longrightarrow> f \<sigma> (contents \<sigma> S) = Some m \<Longrightarrow> m = g \<sigma> (contents \<sigma> S)"
  shows "stores f S S'"
  using assms by (auto simp: refines_def stores_def)

lemma byte_width_cases:
  assumes "width_ok w" "w \<le> 64" "isPowerOfTwo (of_nat w)"
  shows "w = 1 \<or> w = 8 \<or> w = 16 \<or> w = 32 \<or> w = 64"
proof -
  consider "w = 1" | k where "w = 8 * k" "k \<le> 8" using assms(1,2) by (auto simp: width_ok_def)
  then show ?thesis
  proof cases
    case (2 k)
    then have "k \<in> {0, 1, 2, 3, 4, 5, 6, 7, 8}" by auto
    with 2 assms(3) show ?thesis by (auto simp: isPowerOfTwo_def)
  qed simp
qed

lemma word_of_byte_value:
  assumes "inr LENGTH('a) v" "LENGTH('a) \<le> 64"
  shows "uint (ucast (word_of_int v :: 64 word) :: 'a::len word) = v"
proof -
  have "uint (ucast (word_of_int v :: 64 word) :: 'a word) = take_bit LENGTH('a) v"
    using assms(2) by (intro bit_eqI) (auto simp: bit_simps dest: bit_imp_le_length)
  with assms(1) show ?thesis by (simp add: take_bit_inr)
qed

context memory_env
begin

lemma write8_concrete_stores:
  assumes "os_ok S" "a < os_size S" "w = 1 \<or> w = 8" "uint b = v"
  shows "\<exists>S'. write8_concrete a b S = Some S' \<and> stores (\<lambda>\<sigma> m. mem_store (isLittleEndian K) m a w v) S S'"
proof -
  obtain S' where S': "write8_concrete a b S = Some S'" "refines (\<lambda>\<sigma> m. m[a := v]) S S'"
    using write8_concrete_right [OF assms(1,2), of b] assms(4) by blast
  have "inr 8 v" using uint_bounded [of b] by (auto simp: inr_def assms(4) [symmetric])
  then have "take_bit 8 v = v" by (rule take_bit_inr)
  then have "mem_store (isLittleEndian K) m a w v = Some (m[a := v])" if "a < length m" for m
    using assms(3) that
    by (auto simp: mem_store_def Let_def value_bytes_def upd_conv_take_nth_drop)
  then show ?thesis using S' assms(2) by (auto intro!: refines_stores [OF S'(2)])
qed

lemma write_word_stores:
  assumes "os_ok S" "a + n \<le> os_size S" "w = 8 * n" "n \<noteq> 0" "uint v = u"
  shows "\<exists>S'. write_word K n a v S = Some S' \<and> stores (\<lambda>\<sigma> m. mem_store (isLittleEndian K) m a w u) S S'"
proof -
  obtain S' where S': "write_word K n a v S = Some S'"
      "refines (\<lambda>\<sigma> m. fold (\<lambda>i m. m[a + byte_index K n i := take_bit 8 (drop_bit (8 * i) u)]) [0..<n] m) S S'"
    using write_word_right [OF assms(1,2), of v] assms(5) by blast
  have "stores (\<lambda>\<sigma> m. mem_store (isLittleEndian K) m a w u) S S'"
  proof (rule refines_stores [OF S'(2)])
    fix \<sigma> m assume m: "mem_store (isLittleEndian K) (contents \<sigma> S) a w u = Some m"
    have w: "w \<noteq> 1" "n = w div 8" using assms(3,4) by auto
    have "a + n \<le> length (contents \<sigma> S)" using assms(2) by simp
    from m [unfolded store_loop [OF this w]]
    show "m = fold (\<lambda>i m. m[a + byte_index K n i := take_bit 8 (drop_bit (8 * i) u)]) [0..<n] (contents \<sigma> S)"
      by (rule sym [OF option.inject [THEN iffD1]])
  qed
  with S'(1) show ?thesis by blast
qed

lemma write_constant_right:
  assumes ok: "os_ok S" and range: "a + (getBitWidth c + 7) div 8 \<le> os_size S" and c: "wf_ap c"
    and w: "getBitWidth c = 1 \<or> getBitWidth c = 8 \<or> getBitWidth c = 16 \<or> getBitWidth c = 32 \<or> getBitWidth c = 64"
  shows "\<exists>S'. write_constant K a c S = Some S' \<and>
    stores (\<lambda>\<sigma> m. mem_store (isLittleEndian K) m a (getBitWidth c) (getZExtValue c)) S S'"
proof -
  let ?v = "getZExtValue c"
  have v: "inr (getBitWidth c) ?v" using c by (simp add: wf_ap_def)
  consider "getBitWidth c = 1 \<or> getBitWidth c = 8" | "getBitWidth c = 16" | "getBitWidth c = 32" | "getBitWidth c = 64"
    using w by blast
  then show ?thesis
  proof cases
    case 1
    then have "inr 8 ?v" using v by (auto elim: inr_mono)
    moreover have "a < os_size S" using 1 range by auto
    ultimately show ?thesis
      using write8_concrete_stores [OF ok, of a "getBitWidth c" "ucast (word_of_int ?v :: 64 word)" ?v]
        word_of_byte_value [of ?v, where 'a = 8] 1 by (auto simp: write_constant_def Let_def)
  next
    case 2
    then show ?thesis
      using write_word_stores [OF ok, of a 2 "getBitWidth c" "ucast (word_of_int ?v :: 64 word) :: 16 word" ?v]
        word_of_byte_value [of ?v, where 'a = 16] v range by (simp add: write_constant_def write16_def Let_def)
  next
    case 3
    then show ?thesis
      using write_word_stores [OF ok, of a 4 "getBitWidth c" "ucast (word_of_int ?v :: 64 word) :: 32 word" ?v]
        word_of_byte_value [of ?v, where 'a = 32] v range by (simp add: write_constant_def write32_def Let_def)
  next
    case 4
    then show ?thesis
      using write_word_stores [OF ok, of a 8 "getBitWidth c" "word_of_int ?v :: 64 word" ?v]
        word_of_byte_value [of ?v, where 'a = 64] v range by (simp add: write_constant_def write64_def Let_def)
  qed
qed

text \<open>A boolean is written as a byte.\<close>

lemma bool_byte_means:
  assumes "assign_ok \<sigma>" "wt e" "getWidth e = 1"
  shows "means \<sigma> (ZExt_make K e 8) 8 (eval \<sigma> e)"
  using zext_make [OF assms(1,2), of 8] inr_mono [OF eval_inr [OF assms(1,2)], of 8] assms(3) by (simp add: take_bit_inr)

lemma write_general_stores:
  assumes ok: "os_ok S" and e: "wt e" "getWidth e = w" "width_ok w" and range: "a + (w + 7) div 8 \<le> os_size S"
  shows "\<exists>S'. (if w = 1 then write8 a (ZExt_make K e 8) S else write_value K (\<lambda>idx. write8 (uadd a idx)) e S) = Some S' \<and>
    stores (\<lambda>\<sigma> m. mem_store (isLittleEndian K) m a w (eval \<sigma> e)) S S'"
proof (cases "w = 1")
  case True
  then have z: "means \<sigma> (ZExt_make K e 8) 8 (eval \<sigma> e)" if "assign_ok \<sigma>" for \<sigma>
    using bool_byte_means [OF that e(1)] e(2) by simp
  have "a < os_size S" using range True by simp
  then obtain S' where S': "write8 a (ZExt_make K e 8) S = Some S'" "refines (\<lambda>\<sigma> m. m[a := eval \<sigma> (ZExt_make K e 8)]) S S'"
    using write8_right [OF ok, of a "ZExt_make K e 8"] z [OF zero_assign_ok] by (auto simp: means_def)
  have "stores (\<lambda>\<sigma> m. mem_store (isLittleEndian K) m a w (eval \<sigma> e)) S S'"
    using z True by (intro refines_stores [OF S'(2)]) (auto simp: mem_store_def means_def split: if_splits)
  with S'(1) True show ?thesis by auto
next
  case False
  define n where "n = w div 8"
  have w: "w = 8 * n" using False e(3) by (auto simp: width_ok_def n_def)
  have r: "a + n \<le> os_size S" "os_size S < 2 ^ 32" using range w ok by (simp_all add: os_ok_def typed_ok_def)
  have "\<exists>S'. write_value K (\<lambda>idx. write8 (uadd a idx)) e S = Some S' \<and>
    refines (\<lambda>\<sigma> m. fold (\<lambda>i m. m[a + byte_index K n i := take_bit 8 (drop_bit (8 * i) (eval \<sigma> e))]) [0..<n] m) S S'"
  proof (rule write_value_right [OF ok e(1)])
    fix i b S1 assume i: "i < n" and S1: "os_ok S1" "os_size S1 = os_size S" and b: "wt b" "getWidth b = 8"
    have "a + byte_index K n i < os_size S" using byte_index_less [OF i, of K] r(1) by simp
    then show "\<exists>S2. write8 (uadd a (byte_index K n i)) b S1 = Some S2 \<and> refines (\<lambda>\<sigma> m. m[a + byte_index K n i := eval \<sigma> b]) S1 S2"
      using write8_right [OF S1(1) _ b, of "a + byte_index K n i"] r(2) S1(2) by (simp add: uadd_def)
  qed (use e(2) w in simp)
  then obtain S' where S': "write_value K (\<lambda>idx. write8 (uadd a idx)) e S = Some S'"
    "refines (\<lambda>\<sigma> m. fold (\<lambda>i m. m[a + byte_index K n i := take_bit 8 (drop_bit (8 * i) (eval \<sigma> e))]) [0..<n] m) S S'"
    by blast
  have "stores (\<lambda>\<sigma> m. mem_store (isLittleEndian K) m a w (eval \<sigma> e)) S S'"
  proof (rule refines_stores [OF S'(2)])
    fix \<sigma> m assume m: "mem_store (isLittleEndian K) (contents \<sigma> S) a w (eval \<sigma> e) = Some m"
    have "a + n \<le> length (contents \<sigma> S)" using r(1) by simp
    from m [unfolded store_loop [OF this False n_def]]
    show "m = fold (\<lambda>i m. m[a + byte_index K n i := take_bit 8 (drop_bit (8 * i) (eval \<sigma> e))]) [0..<n] (contents \<sigma> S)"
      by (rule sym [OF option.inject [THEN iffD1]])
  qed
  with S'(1) False show ?thesis by auto
qed

lemma write_at_constant_right:
  assumes ok: "os_ok S" and e: "wt e" "getWidth e = w" "width_ok w" and range: "a + (w + 7) div 8 \<le> os_size S"
  shows "\<exists>S'. write_at_constant K a e S = Some S' \<and> stores (\<lambda>\<sigma> m. mem_store (isLittleEndian K) m a w (eval \<sigma> e)) S S'"
proof (cases "\<exists>c. e = ConstantExpr c \<and> getBitWidth c \<le> 64 \<and> isPowerOfTwo (of_nat (getBitWidth c))")
  case True
  then obtain c where c: "e = ConstantExpr c" "getBitWidth c \<le> 64" "isPowerOfTwo (of_nat (getBitWidth c))" by blast
  then show ?thesis
    using write_constant_right [OF ok, of a c] byte_width_cases [OF e(3)] e(1,2) range
    by (simp add: write_at_constant_def Let_def)
next
  case False
  then have "write_at_constant K a e S =
    (if w = 1 then write8 a (ZExt_make K e 8) S else write_value K (\<lambda>idx. write8 (uadd a idx)) e S)"
    using e(2) by (auto simp: write_at_constant_def Let_def split: option.split)
  then show ?thesis using write_general_stores [OF assms] by simp
qed

lemma symbolic_byte_address:
  assumes "assign_ok \<sigma>" "wt off" "getWidth off = 32" "nat (eval \<sigma> off) + n \<le> sz" "sz < 2 ^ 32" "i < n"
  shows "nat (eval \<sigma> (Add_make K off (offset_expr K (byte_index K n i)))) = nat (eval \<sigma> off) + byte_index K n i"
proof -
  have i: "byte_index K n i < n" using byte_index_less [OF assms(6)] .
  have "0 \<le> eval \<sigma> off" using eval_inr [OF assms(1,2)] by (rule inr_nonneg)
  then have "inr 32 (eval \<sigma> off + int (byte_index K n i))" using i assms(4,5) by (auto simp: inr_def)
  then show ?thesis
    using byte_offset_means [OF assms(1-3), of "byte_index K n i"] i assms(4,5) \<open>0 \<le> eval \<sigma> off\<close>
    by (simp add: means_def take_bit_inr nat_add_distrib)
qed

lemma write_symbolic_right:
  assumes ok: "os_ok S" and e: "wt e" "getWidth e = w" "width_ok w"
    and off: "wt off" "getWidth off = 32" "sums_variable off"
  shows "\<exists>S'. (if w = 1 then write8_symbolic K off (ZExt_make K e 8) S
      else write_value K (\<lambda>idx. write8_symbolic K (Add_make K off (offset_expr K idx))) e S) = Some S' \<and>
    stores (\<lambda>\<sigma> m. mem_store (isLittleEndian K) m (nat (eval \<sigma> off)) w (eval \<sigma> e)) S S'"
proof (cases "w = 1")
  case True
  then have z: "means \<sigma> (ZExt_make K e 8) 8 (eval \<sigma> e)" if "assign_ok \<sigma>" for \<sigma>
    using bool_byte_means [OF that e(1)] e(2) by simp
  obtain S' where S': "write8_symbolic K off (ZExt_make K e 8) S = Some S'"
      "refines (\<lambda>\<sigma> m. m[nat (eval \<sigma> off) := eval \<sigma> (ZExt_make K e 8)]) S S'"
    using write8_symbolic_right [OF ok, of "ZExt_make K e 8" off] z [OF zero_assign_ok] off sums_variable_not_constant [OF off(3)]
    by (auto simp: means_def)
  have "stores (\<lambda>\<sigma> m. mem_store (isLittleEndian K) m (nat (eval \<sigma> off)) w (eval \<sigma> e)) S S'"
    using z True by (intro refines_stores [OF S'(2)]) (auto simp: mem_store_def means_def split: if_splits)
  with S'(1) True show ?thesis by auto
next
  case False
  define n where "n = w div 8"
  have w: "w = 8 * n" "n < 2 ^ 32" using False e(3) by (auto simp: width_ok_def n_def)
  have size: "os_size S < 2 ^ 32" using ok by (simp add: os_ok_def typed_ok_def)
  let ?o = "\<lambda>i. Add_make K off (offset_expr K (byte_index K n i))"
  let ?f = "\<lambda>\<sigma> m. fold (\<lambda>i m. m[nat (eval \<sigma> (?o i)) := take_bit 8 (drop_bit (8 * i) (eval \<sigma> e))]) [0..<n] m"
  have "\<exists>S'. write_value K (\<lambda>idx. write8_symbolic K (Add_make K off (offset_expr K idx))) e S = Some S' \<and> refines ?f S S'"
  proof (rule write_value_right [OF ok e(1)])
    fix i b S1 assume i: "i < n" and S1: "os_ok S1" "os_size S1 = os_size S" and b: "wt b" "getWidth b = 8"
    show "\<exists>S2. write8_symbolic K (?o i) b S1 = Some S2 \<and> refines (\<lambda>\<sigma> m. m[nat (eval \<sigma> (?o i)) := eval \<sigma> b]) S1 S2"
      using write8_symbolic_right [OF S1(1) b, of "?o i"] offset_stays_variable [OF off]
        byte_offset_means [OF zero_assign_ok off(1,2), of "byte_index K n i"] byte_index_less [OF i, of K] w(2)
      by (simp add: means_def)
  qed (use e(2) w in simp)
  then obtain S' where S': "write_value K (\<lambda>idx. write8_symbolic K (Add_make K off (offset_expr K idx))) e S = Some S'"
      "refines ?f S S'" by blast
  have "stores (\<lambda>\<sigma> m. mem_store (isLittleEndian K) m (nat (eval \<sigma> off)) w (eval \<sigma> e)) S S'"
  proof (rule refines_stores [OF S'(2)])
    fix \<sigma> m
    assume a: "assign_ok \<sigma>" and m: "mem_store (isLittleEndian K) (contents \<sigma> S) (nat (eval \<sigma> off)) w (eval \<sigma> e) = Some m"
    have r: "nat (eval \<sigma> off) + n \<le> length (contents \<sigma> S)"
      using m False by (auto simp: mem_store_def n_def Let_def split: if_splits)
    have "?f \<sigma> (contents \<sigma> S) = fold (\<lambda>i m. m[nat (eval \<sigma> off) + byte_index K n i := take_bit 8 (drop_bit (8 * i) (eval \<sigma> e))])
        [0..<n] (contents \<sigma> S)"
      using r symbolic_byte_address [OF a off(1,2) _ size, of n] by (intro fold_cong) auto
    then show "m = ?f \<sigma> (contents \<sigma> S)"
      using m [unfolded store_loop [OF r False n_def]] by simp
  qed
  with S'(1) False show ?thesis by auto
qed

lemma os_write_right:
  assumes ok: "os_ok S" and e: "wt e" and acc: "access_ok K S off (getWidth e)"
  shows "\<exists>S'. os_write K off e S = Some S' \<and>
    stores (\<lambda>\<sigma> m. mem_store (isLittleEndian K) m (address \<sigma> off) (getWidth e) (eval \<sigma> e)) S S'"
proof -
  let ?o = "ZExt_make K off 32" and ?w = "getWidth e"
  have "wt off" and w: "width_ok ?w" using acc by (simp_all add: access_ok_def)
  then have o: "means \<sigma> ?o 32 (take_bit 32 (eval \<sigma> off))" if "assign_ok \<sigma>" for \<sigma>
    using zext_make [OF that, of off 32] by simp
  have same: "stores f S S'" if "stores g S S'" "\<And>\<sigma> m. assign_ok \<sigma> \<Longrightarrow> f \<sigma> m = g \<sigma> m" for f g S'
    using that by (simp add: stores_def)
  show ?thesis
  proof (cases "as_const ?o")
    case (Some c)
    have at: "address \<sigma> off = nat (getZExtValue c)" if "assign_ok \<sigma>" for \<sigma>
      using o [OF that] Some by (simp add: means_def address_def)
    obtain S' where "write_at_constant K (nat (getZExtValue c)) e S = Some S'"
      "stores (\<lambda>\<sigma> m. mem_store (isLittleEndian K) m (nat (getZExtValue c)) ?w (eval \<sigma> e)) S S'"
      using write_at_constant_right [OF ok e refl w, of "nat (getZExtValue c)"] acc Some by (auto simp: access_ok_def)
    then show ?thesis using Some at by (auto simp: os_write_def Let_def elim!: same)
  next
    case None
    have at: "address \<sigma> off = nat (eval \<sigma> ?o)" if "assign_ok \<sigma>" for \<sigma>
      using o [OF that] by (simp add: means_def address_def)
    have o': "wt ?o" "getWidth ?o = 32" "sums_variable ?o"
      using o [OF zero_assign_ok] acc None by (simp_all add: means_def access_ok_def)
    obtain S' where S': "(if ?w = 1 then write8_symbolic K ?o (ZExt_make K e 8) S
        else write_value K (\<lambda>idx. write8_symbolic K (Add_make K ?o (offset_expr K idx))) e S) = Some S'"
      "stores (\<lambda>\<sigma> m. mem_store (isLittleEndian K) m (nat (eval \<sigma> ?o)) ?w (eval \<sigma> e)) S S'"
      using write_symbolic_right [OF ok e refl w o'] by blast
    have "os_write K off e S = Some S'" using None S'(1) by (simp add: os_write_def Let_def split del: if_split)
    moreover have "stores (\<lambda>\<sigma> m. mem_store (isLittleEndian K) m (address \<sigma> off) ?w (eval \<sigma> e)) S S'"
      by (rule same [OF S'(2)]) (simp add: at)
    ultimately show ?thesis by blast
  qed
qed

end

subsection \<open>Objects as they are created\<close>

lemma blank_state_ok:
  assumes "sz < 2 ^ 32" "\<And>a. root = Some a \<Longrightarrow> byte_typed_array a"
  shows "os_ok (blank_state sz root)" "coherent \<sigma> (blank_state sz root)"
    "contents \<sigma> (blank_state sz root) = replicate sz 0"
proof -
  let ?S = "blank_state sz root"
  have bits: "isByteConcrete ?S i" "\<not> isByteFlushed ?S i" "known ?S i = None" for i
    by (simp_all add: blank_state_def isByteConcrete_def isByteFlushed_def known_def)
  have "byte_typed_array (os_root ?S)" using assms(2) byte_array_zero by (auto simp: os_root_def blank_state_def split: option.split)
  then show "os_ok ?S"
    using assms(1) bits by (simp add: os_ok_def masks_ok_def typed_ok_def cache_invariant_def) (simp add: blank_state_def)
  show "coherent \<sigma> ?S" using bits by (simp add: coherent_def)
  show "contents \<sigma> ?S = replicate sz 0"
    using bits by (intro nth_equalityI) (auto simp: contents_def byte_value_def cache_value_def blank_state_def)
qed

text \<open>\<^verbatim>\<open>initializeToZero\<close>, \<^verbatim>\<open>initializeToRandom\<close>: whatever the object held, it is concrete afterwards.\<close>

lemma make_concrete_fill:
  fixes b :: "8 word"
  assumes "os_ok S"
  defines "T \<equiv> (makeConcrete S)\<lparr>concreteStore := replicate (os_size S) b\<rparr>"
  shows "os_ok T \<and> coherent \<sigma> T \<and> contents \<sigma> T = replicate (os_size S) (uint b)"
proof -
  have bits: "isByteConcrete T i" "\<not> isByteFlushed T i" "known T i = None" for i
    by (simp_all add: T_def makeConcrete_def isByteConcrete_def isByteFlushed_def known_def)
  have fields: "os_size T = os_size S" "upd_root T = upd_root S" "upd_head T = upd_head S" "os_root T = os_root S"
    by (simp_all add: T_def makeConcrete_def os_root_def split: option.split)
  have "typed_ok T" using assms(1) bits fields by (simp add: os_ok_def typed_ok_def)
  moreover have "masks_ok T" by (simp add: masks_ok_def T_def makeConcrete_def)
  moreover have "contents \<sigma> T = replicate (os_size S) (uint b)"
    using bits by (intro nth_equalityI) (auto simp: contents_def byte_value_def cache_value_def T_def makeConcrete_def)
  ultimately show ?thesis using bits by (simp add: os_ok_def cache_invariant_def coherent_def)
qed

lemma initialize_right:
  assumes "os_ok S"
  shows "os_ok (initializeToZero S) \<and> coherent \<sigma> (initializeToZero S) \<and> contents \<sigma> (initializeToZero S) = replicate (os_size S) 0"
    and "os_ok (initializeToRandom S) \<and> coherent \<sigma> (initializeToRandom S) \<and>
      contents \<sigma> (initializeToRandom S) = replicate (os_size S) 171"
  using make_concrete_fill [OF assms] by (simp_all add: initializeToZero_def initializeToRandom_def)

text \<open>An object made symbolic holds the bytes of its array.\<close>

lemma make_symbolic_steps:
  assumes "k \<le> os_size S" "masks_ok S" "flushMask S = None" "knownSymbolics S = None" "concreteMask S = None"
  shows "let T = fold (\<lambda>i S. markByteFlushed i (setKnownSymbolic i None (markByteSymbolic i S))) [0..<k] S in
    masks_ok T \<and> os_size T = os_size S \<and> upd_root T = upd_root S \<and> upd_head T = upd_head S \<and> os_root T = os_root S \<and>
    concreteStore T = concreteStore S \<and> (0 < k \<longrightarrow> flushing T) \<and> (k = 0 \<longrightarrow> \<not> flushing T) \<and>
    (\<forall>j < os_size S. known T j = None \<and> (isByteConcrete T j \<longleftrightarrow> k \<le> j) \<and> (0 < k \<longrightarrow> isByteFlushed T j))"
  using assms(1)
proof (induction k)
  case 0
  then show ?case using assms by (simp add: flushing_def isByteConcrete_def known_def)
next
  case (Suc k)
  define T where "T = fold (\<lambda>i S. markByteFlushed i (setKnownSymbolic i None (markByteSymbolic i S))) [0..<k] S"
  let ?N = "markByteFlushed k (setKnownSymbolic k None (markByteSymbolic k T))"
  have T: "masks_ok T" "os_size T = os_size S" "upd_root T = upd_root S" "upd_head T = upd_head S" "os_root T = os_root S"
      "concreteStore T = concreteStore S" "0 < k \<longrightarrow> flushing T" "k = 0 \<longrightarrow> \<not> flushing T"
    and bits: "\<And>j. j < os_size S \<Longrightarrow> known T j = None \<and> (isByteConcrete T j \<longleftrightarrow> k \<le> j) \<and> (0 < k \<longrightarrow> isByteFlushed T j)"
    using Suc by (auto simp: T_def Let_def)
  have k: "k < os_size T" using Suc.prems T(2) by simp
  have N: "known ?N j = None" "isByteConcrete ?N j \<longleftrightarrow> Suc k \<le> j" "isByteFlushed ?N j" if "j < os_size S" for j
    using bits [OF that] T(1,2,7,8) k that by (auto simp: byte_simps)
  have "fold (\<lambda>i S. markByteFlushed i (setKnownSymbolic i None (markByteSymbolic i S))) [0..<Suc k] S = ?N"
    by (simp add: T_def)
  then show ?case using N T(1-6) by (simp add: Let_def byte_simps)
qed

lemma new_symbolic_state_right:
  assumes "sz < 2 ^ 32" "byte_typed_array a"
  shows "\<exists>S. new_symbolic_state sz a = Some S \<and> os_ok S \<and> os_size S = sz \<and>
    (\<forall>\<sigma>. coherent \<sigma> S \<and> contents \<sigma> S = map (\<lambda>i. initial_value \<sigma> a (int i)) [0..<sz])"
proof -
  let ?B = "blank_state sz (Some a)"
  define T where "T = fold (\<lambda>i S. markByteFlushed i (setKnownSymbolic i None (markByteSymbolic i S))) [0..<sz] ?B"
  have new: "new_symbolic_state sz a = Some T"
    by (simp add: new_symbolic_state_def makeSymbolic_def T_def) (simp add: blank_state_def)
  have T: "masks_ok T" "os_size T = sz" "upd_root T = Some a" "upd_head T = UpdateNil" "os_root T = a"
    and bits: "\<And>j. j < sz \<Longrightarrow> known T j = None \<and> \<not> isByteConcrete T j \<and> isByteFlushed T j"
    using make_symbolic_steps [of sz ?B] by (auto simp: T_def Let_def blank_state_def masks_ok_def os_root_def)
  have "typed_ok T" using T bits assms by (simp add: typed_ok_def)
  then have "os_ok T" using T(1,2) bits by (auto simp: os_ok_def cache_invariant_def)
  moreover have cache: "cache_value \<sigma> T j = None" if "j < sz" for \<sigma> j using bits [OF that] by (simp add: cache_value_def)
  moreover have "contents \<sigma> T = map (\<lambda>i. initial_value \<sigma> a (int i)) [0..<sz]" for \<sigma>
    using T cache by (simp add: contents_def byte_value_def flushed_value_def)
  ultimately show ?thesis using new T(2) by (auto simp: coherent_def)
qed

text \<open>Copying a writable object changes nothing.\<close>

lemma copy_state_same:
  assumes "os_ok S" "\<not> readOnly S"
  shows "copy_state S = Some S"
proof -
  have "map_option (\<lambda>m. BitArray_copy m (os_size S)) (concreteMask S) = concreteMask S"
    "map_option (\<lambda>m. BitArray_copy m (os_size S)) (flushMask S) = flushMask S"
    "map_option (take (os_size S)) (knownSymbolics S) = knownSymbolics S"
    using assms(1) by (cases "concreteMask S"; cases "flushMask S"; cases "knownSymbolics S"; simp add: os_ok_def masks_ok_def)+
  then show ?thesis using assms(2) by (simp add: copy_state_def)
qed

section \<open>Properties\<close>

text \<open>C34: an object state is the memory that its bytes describe. At any offset expression, a read of one bit or
  of whole bytes returns a well-typed expression of that width that denotes the value loaded in the byte order of
  the context, and changes no byte although it may flush the cache and create the constant array; a write stores
  the value in exactly its bytes. Both keep the cache invariants and succeed: no assertion fails.\<close>

theorem object_access_right:
  assumes "memory_env K" "os_ok S" "array_cache_ok (arrays G)" "access_ok K S off w" "wt e" "getWidth e = w"
  shows "(\<exists>r S' G'. os_read K off w (S, G) = Some (r, (S', G')) \<and> os_ok S' \<and> array_cache_ok (arrays G') \<and>
      wt r \<and> getWidth r = w \<and> (\<forall>\<sigma>. assign_ok \<sigma> \<and> coherent \<sigma> S \<longrightarrow> coherent \<sigma> S' \<and> contents \<sigma> S' = contents \<sigma> S \<and>
        (\<forall>v. mem_load (isLittleEndian K) (contents \<sigma> S) (address \<sigma> off) w = Some v \<longrightarrow> eval \<sigma> r = v))) \<and>
    (\<exists>S'. os_write K off e S = Some S' \<and> os_ok S' \<and> os_size S' = os_size S \<and>
      (\<forall>\<sigma>. assign_ok \<sigma> \<and> coherent \<sigma> S \<longrightarrow> coherent \<sigma> S' \<and>
        (\<forall>m. mem_store (isLittleEndian K) (contents \<sigma> S) (address \<sigma> off) w (eval \<sigma> e) = Some m \<longrightarrow> contents \<sigma> S' = m)))"
proof (rule conjI, goal_cases)
  case 1
  show ?case using memory_env.os_read_right [OF assms(1-4)] unfolding delivers_def refines_def by blast
next
  case 2
  have "access_ok K S off (getWidth e)" using assms(4,6) by simp
  from memory_env.os_write_right [OF assms(1,2,5) this] show ?case unfolding stores_def assms(6) by blast
qed

text \<open>C35: what is written to an object is what is read back. For every value of one bit or of whole bytes, at a
  constant or a symbolic offset, the write succeeds and a read of the same width at the same offset then returns an
  expression that denotes the value, wherever the access is in bounds.\<close>

theorem object_write_read:
  assumes "memory_env K" "os_ok S" "array_cache_ok (arrays G)" "wt e" "access_ok K S off (getWidth e)"
  shows "\<exists>S' r S'' G'. os_write K off e S = Some S' \<and> os_read K off (getWidth e) (S', G) = Some (r, (S'', G')) \<and>
    wt r \<and> getWidth r = getWidth e \<and>
    (\<forall>\<sigma>. assign_ok \<sigma> \<and> coherent \<sigma> S \<and> address \<sigma> off + (getWidth e + 7) div 8 \<le> os_size S \<longrightarrow> eval \<sigma> r = eval \<sigma> e)"
proof -
  obtain S' where S': "os_write K off e S = Some S'"
      "stores (\<lambda>\<sigma> m. mem_store (isLittleEndian K) m (address \<sigma> off) (getWidth e) (eval \<sigma> e)) S S'"
    using memory_env.os_write_right [OF assms(1,2,4,5)] by blast
  then have ok': "os_ok S'" "os_size S' = os_size S" by (simp_all add: stores_def)
  have acc: "access_ok K S' off (getWidth e)" using assms(5) unfolding access_ok_def ok'(2) .
  obtain r S'' G' where r: "os_read K off (getWidth e) (S', G) = Some (r, (S'', G'))" "wt r" "getWidth r = getWidth e"
    and load: "\<And>\<sigma> v. assign_ok \<sigma> \<Longrightarrow> coherent \<sigma> S' \<Longrightarrow>
      mem_load (isLittleEndian K) (contents \<sigma> S') (address \<sigma> off) (getWidth e) = Some v \<Longrightarrow> eval \<sigma> r = v"
    using memory_env.os_read_right [OF assms(1) ok'(1) assms(3) acc] unfolding delivers_def by blast
  have "eval \<sigma> r = eval \<sigma> e"
    if a: "assign_ok \<sigma>" "coherent \<sigma> S" "address \<sigma> off + (getWidth e + 7) div 8 \<le> os_size S" for \<sigma>
  proof -
    have w: "getWidth e = 1 \<or> 8 dvd getWidth e" using assms(5) by (auto simp: access_ok_def width_ok_def)
    obtain m where m: "mem_store (isLittleEndian K) (contents \<sigma> S) (address \<sigma> off) (getWidth e) (eval \<sigma> e) = Some m"
      using a(3) mem_store_in_bounds by (metis contents_length)
    then have "contents \<sigma> S' = m" "coherent \<sigma> S'" using S'(2) a by (simp_all add: stores_def)
    then have "eval \<sigma> r = take_bit (getWidth e) (eval \<sigma> e)"
      using load [OF a(1)] mem_load_store [OF m w] by simp
    then show ?thesis using eval_inr [OF a(1) assms(4)] by (simp add: take_bit_inr)
  qed
  then show ?thesis using S'(1) r by blast
qed

text \<open>Concrete data: an object of eight bytes, a symbolic offset and a 16-bit value made of two reads.\<close>

definition std_mem :: "bool \<Rightarrow> mem_env" where
  "std_mem le = expr_env.extend (std_env False) (mem_env.fields le 64 True (\<lambda>n. replicate n CHR ''1''))"

lemma std_mem_simps [simp]: "isLittleEndian (std_mem le) = le" "ConstArrayOpt (std_mem le) = False"
  by (simp_all add: std_mem_def std_env_def expr_env.extend_def mem_env.fields_def apint_ops.extend_def expr_env.fields_def)

interpretation std_m: memory_env "std_mem le"
  by unfold_locales
    (simp_all add: std_mem_def std_env_def expr_env.extend_def mem_env.fields_def apint_ops.extend_def expr_env.fields_def std_apint_def)

definition sample_offset :: expr where
  "sample_offset = ZExtExpr (rd 0) 32"

definition sample_value :: expr where
  "sample_value = ConcatExpr (rd 1) (rd 2)"

definition empty_globals :: mem_globals where
  "empty_globals = \<lparr>arrays = empty_array_cache, const_arr_id = 0, tmp_arr_id = 0\<rparr>"

lemma sample_access:
  "os_ok (blank_state 8 None)" "coherent \<sigma> (blank_state 8 None)" "array_cache_ok (arrays empty_globals)"
  "wt sample_value" "getWidth sample_value = 16" "eval seq_assignment sample_value = 1029"
  "access_ok (std_mem le) (blank_state 8 None) sample_offset 16"
  "address seq_assignment sample_offset = 3" "os_size (blank_state 8 None) = 8"
  for le
proof -
  show "os_ok (blank_state 8 None)" "coherent \<sigma> (blank_state 8 None)" by (rule blank_state_ok; simp)+
  show "access_ok (std_mem le) (blank_state 8 None) sample_offset 16"
    by (simp add: access_ok_def sample_offset_def width_ok_def ZExt_make_def blank_state_def inr_def)
qed (simp_all add: empty_globals_def array_cache_empty sample_value_def sample_offset_def address_def blank_state_def inr_def
  concat_bit_eq push_bit_eq_mult take_bit_eq_mod del: eval.simps(3))

theorem object_access_right_witness:
  "\<exists>S'. os_write (std_mem False) sample_offset sample_value (blank_state 8 None) = Some S' \<and>
    contents seq_assignment S' = [0, 0, 0, 4, 5, 0, 0, 0]"
proof -
  have "mem_store False (contents seq_assignment (blank_state 8 None)) 3 16 1029 = Some [0, 0, 0, 4, 5, 0, 0, 0]"
    by (subst blank_state_ok(3), simp, simp) code_simp
  then show ?thesis
    using object_access_right [OF std_m.memory_env_axioms sample_access(1,3,7,4,5), of False] sample_access(2,6,8)
    by fastforce
qed

theorem object_write_read_witness:
  "\<exists>S' r S'' G'. os_write (std_mem True) sample_offset sample_value (blank_state 8 None) = Some S' \<and>
    os_read (std_mem True) sample_offset 16 (S', empty_globals) = Some (r, (S'', G')) \<and> eval seq_assignment r = 1029"
proof -
  have "access_ok (std_mem True) (blank_state 8 None) sample_offset (getWidth sample_value)"
    using sample_access(5,7) by simp
  from object_write_read [OF std_m.memory_env_axioms sample_access(1,3,4) this] show ?thesis
    using sample_access(2,5,6,8,9) by fastforce
qed

end
