(* ===== verification/KTest.thy ===== *)
theory KTest
  imports Prelude
begin

text \<open>
  The test case files (\<^verbatim>\<open>lib/Basic/KTest.cpp\<close>): reading and writing of \<^verbatim>\<open>.ktest\<close> files. A file is the list of
  its bytes; a reader returns what it read and the bytes that are left. The C library is modelled as the
  source uses it: \<^verbatim>\<open>fread(p, size, 1, f)\<close> and \<^verbatim>\<open>fwrite(p, size, 1, f)\<close> return 1 when \<open>size\<close> bytes were transferred
  and 0 otherwise, which includes a \<open>size\<close> of zero. The parameter \<open>A\<close> tells for which sizes \<^verbatim>\<open>malloc\<close> and \<^verbatim>\<open>calloc\<close>
  return a pointer; for zero bytes they may or may not. Writing to the device itself does not fail in the model.
\<close>

type_synonym file_data = "8 word list"

datatype ktest_error = Failed | NullWrite | HeapOverflow

text \<open>
  \<open>Failed\<close> is \<^verbatim>\<open>goto error\<close> and the return value 0, \<open>NullWrite\<close> a transfer to the null pointer, \<open>HeapOverflow\<close> one past
  the end of an allocated buffer.
\<close>

type_synonym 'a result = "ktest_error + 'a"
type_synonym 'a reader = "file_data \<Rightarrow> ('a \<times> file_data) result"

definition reads_then :: "'a reader \<Rightarrow> ('a \<Rightarrow> 'b reader) \<Rightarrow> 'b reader" where
  "reads_then r k f = (case r f of Inl e \<Rightarrow> Inl e | Inr (v, f) \<Rightarrow> k v f)"

definition fread :: "nat \<Rightarrow> file_data reader" where
  "fread n f = (if n = 0 \<or> length f < n then Inl Failed else Inr (take n f, drop n f))"

definition fwrite :: "file_data \<Rightarrow> file_data result" where
  "fwrite bs = (if bs = [] then Inl Failed else Inr bs)"

subsection \<open>Numbers and strings\<close>

definition KTEST_VERSION :: "32 word" where
  "KTEST_VERSION = 3"

definition KTEST_MAGIC :: file_data where
  "KTEST_MAGIC = [75, 84, 69, 83, 84]"

definition BOUT_MAGIC :: file_data where
  "BOUT_MAGIC = [66, 79, 85, 84, 10]"

definition read_uint32 :: "32 word reader" where
  "read_uint32 = reads_then (fread 4) (\<lambda>data f.
     Inr (push_bit 8 (push_bit 8 (push_bit 8 (ucast (data ! 0)) + ucast (data ! 1)) + ucast (data ! 2)) + ucast (data ! 3), f))"

definition write_uint32 :: "32 word \<Rightarrow> file_data result" where
  "write_uint32 v = fwrite [ucast (drop_bit 24 v), ucast (drop_bit 16 v), ucast (drop_bit 8 v), ucast v]"

text \<open>A C string is the bytes in front of its terminator; \<^verbatim>\<open>strlen\<close> stops at the first zero byte.\<close>

definition c_string :: "8 word list \<Rightarrow> 8 word list" where
  "c_string s = takeWhile (\<lambda>b. b \<noteq> 0) s"

text \<open>\<^verbatim>\<open>len+1\<close> is computed in 32 bits: for the largest length the buffer has no bytes, and reading any is an overflow.\<close>

definition read_string :: "(nat \<Rightarrow> bool) \<Rightarrow> 8 word list reader" where
  "read_string A = reads_then read_uint32 (\<lambda>len f.
     if \<not> A (unat (len + 1)) then Inl Failed
     else if len + 1 = 0 then Inl (if f = [] then Failed else HeapOverflow)
     else fread (unat len) f)"

text \<open>Two pieces of output, one after the other.\<close>

definition followed_by :: "file_data result \<Rightarrow> file_data result \<Rightarrow> file_data result" where
  "followed_by a b = (case a of Inl e \<Rightarrow> Inl e | Inr x \<Rightarrow> (case b of Inl e \<Rightarrow> Inl e | Inr y \<Rightarrow> Inr (x @ y)))"

text \<open>\<^verbatim>\<open>strlen\<close> is cut to 32 bits.\<close>

definition write_string :: "8 word list \<Rightarrow> file_data result" where
  "write_string v = (let len = of_nat (length (c_string v)) :: 32 word in
     followed_by (write_uint32 len) (fwrite (take (unat len) (c_string v))))"

subsection \<open>Files\<close>

text \<open>
  The counters \<^verbatim>\<open>numArgs\<close>, \<^verbatim>\<open>numObjects\<close> and \<^verbatim>\<open>numBytes\<close> of the C structures, 32-bit numbers, are the lengths of the
  lists: \<open>representable\<close> is what the structures can hold.
\<close>

record ktest_object =
  obj_name :: "8 word list"
  obj_bytes :: "8 word list"

record ktest =
  kt_version :: "32 word"
  kt_args :: "8 word list list"
  symArgvs :: "32 word"
  symArgvLen :: "32 word"
  kt_objects :: "ktest_object list"

definition representable :: "ktest \<Rightarrow> bool" where
  "representable bo \<longleftrightarrow> length (kt_args bo) < 2 ^ 32 \<and> length (kt_objects bo) < 2 ^ 32 \<and>
     (\<forall>x \<in> set (kt_objects bo). length (obj_bytes x) < 2 ^ 32)"

definition kTest_checkHeader :: "unit reader" where
  "kTest_checkHeader = reads_then (fread (length KTEST_MAGIC)) (\<lambda>header f.
     if header \<noteq> KTEST_MAGIC \<and> header \<noteq> BOUT_MAGIC then Inl Failed else Inr ((), f))"

definition kTest_isKTestFile :: "file_data \<Rightarrow> bool" where
  "kTest_isKTestFile f = (case kTest_checkHeader f of Inl e \<Rightarrow> False | Inr v \<Rightarrow> True)"

primrec read_args :: "(nat \<Rightarrow> bool) \<Rightarrow> nat \<Rightarrow> 8 word list list reader" where
  "read_args A 0 f = Inr ([], f)"
| "read_args A (Suc n) f = reads_then (read_string A) (\<lambda>a. reads_then (read_args A n) (\<lambda>as f. Inr (a # as, f))) f"

text \<open>The buffer of an object is not checked: without memory, the bytes are read to the null pointer.\<close>

definition read_object :: "(nat \<Rightarrow> bool) \<Rightarrow> ktest_object reader" where
  "read_object A = reads_then (read_string A) (\<lambda>name. reads_then read_uint32 (\<lambda>n f.
     if A (unat n)
     then reads_then (fread (unat n)) (\<lambda>bs f. Inr (\<lparr>obj_name = name, obj_bytes = bs\<rparr>, f)) f
     else Inl NullWrite))"

primrec read_objects :: "(nat \<Rightarrow> bool) \<Rightarrow> nat \<Rightarrow> ktest_object list reader" where
  "read_objects A 0 f = Inr ([], f)"
| "read_objects A (Suc n) f = reads_then (read_object A) (\<lambda>x. reads_then (read_objects A n) (\<lambda>xs f. Inr (x # xs, f))) f"

text \<open>\<^verbatim>\<open>calloc(n, size)\<close> for the structure (48 bytes), the pointers (8 bytes) and the objects (24 bytes).\<close>

definition allocate :: "(nat \<Rightarrow> bool) \<Rightarrow> nat \<Rightarrow> unit reader" where
  "allocate A n f = (if A n then Inr ((), f) else Inl Failed)"

definition read_symArgv :: "32 word \<Rightarrow> (32 word \<times> 32 word) reader" where
  "read_symArgv version =
     (if 2 \<le> version then reads_then read_uint32 (\<lambda>n. reads_then read_uint32 (\<lambda>l f. Inr ((n, l), f)))
      else (\<lambda>f. Inr ((0, 0), f)))"

definition kTest_fromFile :: "(nat \<Rightarrow> bool) \<Rightarrow> file_data \<Rightarrow> ktest result" where
  "kTest_fromFile A f = map_sum id fst
     (reads_then kTest_checkHeader (\<lambda>_. reads_then (allocate A 48) (\<lambda>_. reads_then read_uint32 (\<lambda>version f.
        if version > KTEST_VERSION then Inl Failed
        else reads_then read_uint32 (\<lambda>numArgs. reads_then (allocate A (unat numArgs * 8)) (\<lambda>_.
          reads_then (read_args A (unat numArgs)) (\<lambda>args. reads_then (read_symArgv version) (\<lambda>(n, l).
          reads_then read_uint32 (\<lambda>numObjects. reads_then (allocate A (unat numObjects * 24)) (\<lambda>_.
          reads_then (read_objects A (unat numObjects)) (\<lambda>objects f.
            Inr (\<lparr>kt_version = version, kt_args = args, symArgvs = n, symArgvLen = l, kt_objects = objects\<rparr>, f)))))))) f))) f)"

primrec write_all :: "('a \<Rightarrow> file_data result) \<Rightarrow> 'a list \<Rightarrow> file_data result" where
  "write_all w [] = Inr []"
| "write_all w (x # xs) = followed_by (w x) (write_all w xs)"

definition write_object :: "ktest_object \<Rightarrow> file_data result" where
  "write_object x = followed_by (write_string (obj_name x))
     (followed_by (write_uint32 (of_nat (length (obj_bytes x)))) (fwrite (obj_bytes x)))"

definition kTest_toFile :: "ktest \<Rightarrow> file_data result" where
  "kTest_toFile bo = followed_by (fwrite KTEST_MAGIC) (followed_by (write_uint32 KTEST_VERSION)
     (followed_by (write_uint32 (of_nat (length (kt_args bo)))) (followed_by (write_all write_string (kt_args bo))
     (followed_by (write_uint32 (symArgvs bo)) (followed_by (write_uint32 (symArgvLen bo))
     (followed_by (write_uint32 (of_nat (length (kt_objects bo)))) (write_all write_object (kt_objects bo))))))))"

definition kTest_numBytes :: "ktest \<Rightarrow> 32 word" where
  "kTest_numBytes bo = fold (\<lambda>x res. res + of_nat (length (obj_bytes x))) (kt_objects bo) 0"

section \<open>Correctness\<close>

text \<open>\<open>parses r bs v\<close>: the reader takes exactly \<open>bs\<close> off the front of any file and returns \<open>v\<close>.\<close>

definition parses :: "'a reader \<Rightarrow> file_data \<Rightarrow> 'a \<Rightarrow> bool" where
  "parses r bs v \<longleftrightarrow> (\<forall>rest. r (bs @ rest) = Inr (v, rest))"

lemma parses_then:
  "parses r as v \<Longrightarrow> parses (k v) bs w \<Longrightarrow> cs = as @ bs \<Longrightarrow> parses (reads_then r k) cs w"
  by (simp add: parses_def reads_then_def)

lemma parses_done: "parses (\<lambda>f. Inr (v, f)) [] v"
  by (simp add: parses_def)

lemma parses_fread: "bs \<noteq> [] \<Longrightarrow> n = length bs \<Longrightarrow> parses (fread n) bs bs"
  by (simp add: parses_def fread_def)

lemma parses_allocate: "A n \<Longrightarrow> parses (allocate A n) [] ()"
  by (simp add: parses_def allocate_def)

lemma followed_by_Inr: "followed_by a b = Inr c \<longleftrightarrow> (\<exists>x y. a = Inr x \<and> b = Inr y \<and> c = x @ y)"
  by (auto simp: followed_by_def split: sum.splits)

lemma fwrite_Inr: "fwrite bs = Inr c \<longleftrightarrow> bs \<noteq> [] \<and> c = bs"
  by (auto simp: fwrite_def)

definition uint32_bytes :: "32 word \<Rightarrow> file_data" where
  "uint32_bytes v = [ucast (drop_bit 24 v), ucast (drop_bit 16 v), ucast (drop_bit 8 v), ucast v]"

lemma write_uint32_Inr [simp]: "write_uint32 v = Inr (uint32_bytes v)"
  by (simp add: write_uint32_def fwrite_def uint32_bytes_def)

lemma low_byte_add:
  fixes x y :: "32 word"
  assumes "\<And>n. bit y n \<Longrightarrow> n < 8"
  shows "push_bit 8 x + y = push_bit 8 x OR y"
proof (rule disjunctive_add)
  show "\<not> bit (push_bit 8 x) n \<or> \<not> bit y n" for n
    using assms [of n] by (auto simp: bit_simps)
qed

lemma byte_bits: "bit (ucast (b :: 8 word) :: 32 word) n \<Longrightarrow> n < 8"
  by (auto simp: bit_simps dest: bit_imp_le_length)

lemma join_bytes:
  fixes v :: "32 word"
  shows "push_bit 8 (push_bit 8 (push_bit 8 (ucast (ucast (drop_bit 24 v) :: 8 word)) + ucast (ucast (drop_bit 16 v) :: 8 word)) +
    ucast (ucast (drop_bit 8 v) :: 8 word)) + ucast (ucast v :: 8 word) = v"
  (is "?l = v")
proof -
  have "?l = push_bit 8 (push_bit 8 (push_bit 8 (ucast (ucast (drop_bit 24 v) :: 8 word)) OR ucast (ucast (drop_bit 16 v) :: 8 word)) OR
    ucast (ucast (drop_bit 8 v) :: 8 word)) OR ucast (ucast v :: 8 word)" (is "_ = ?r")
    by (simp only: low_byte_add [OF byte_bits])
  moreover have "?r = v"
  proof (rule bit_word_eqI)
    fix n assume n: "n < LENGTH(32)"
    then consider "n < 8" | "8 \<le> n" "n < 16" | "16 \<le> n" "n < 24" | "24 \<le> n" "n < 32" by force
    then show "bit ?r n = bit v n"
      by cases (auto simp: bit_simps)
  qed
  ultimately show ?thesis by simp
qed
lemma parses_uint32: "parses read_uint32 (uint32_bytes v) v"
  by (simp add: parses_def read_uint32_def reads_then_def fread_def uint32_bytes_def join_bytes)

text \<open>
  What can be put into a file and read back: no string or object may be empty, and a string needs a byte for its
  terminator within 32 bits. \<open>allocations\<close> are the sizes that the reader asks the allocator for.
\<close>

definition string_ok :: "8 word list \<Rightarrow> bool" where
  "string_ok s \<longleftrightarrow> s \<noteq> [] \<and> 0 \<notin> set s \<and> length s < 2 ^ 32 - 1"

definition object_ok :: "ktest_object \<Rightarrow> bool" where
  "object_ok x \<longleftrightarrow> string_ok (obj_name x) \<and> obj_bytes x \<noteq> [] \<and> length (obj_bytes x) < 2 ^ 32"

definition ktest_ok :: "ktest \<Rightarrow> bool" where
  "ktest_ok bo \<longleftrightarrow> (\<forall>a \<in> set (kt_args bo). string_ok a) \<and> length (kt_args bo) < 2 ^ 32 \<and>
     (\<forall>x \<in> set (kt_objects bo). object_ok x) \<and> length (kt_objects bo) < 2 ^ 32"

definition allocations :: "ktest \<Rightarrow> nat set" where
  "allocations bo = {48, 8 * length (kt_args bo), 24 * length (kt_objects bo)} \<union>
     (\<lambda>s. length s + 1) ` (set (kt_args bo) \<union> obj_name ` set (kt_objects bo)) \<union>
     (\<lambda>x. length (obj_bytes x)) ` set (kt_objects bo)"

lemma c_string_ok: "string_ok s \<Longrightarrow> c_string s = s"
  by (auto simp: c_string_def string_ok_def takeWhile_eq_all_conv)

lemma unat_length: "n < 2 ^ 32 \<Longrightarrow> unat (of_nat n :: 32 word) = n"
  by (simp add: unat_of_nat take_bit_nat_eq_self)

definition string_bytes :: "8 word list \<Rightarrow> file_data" where
  "string_bytes s = uint32_bytes (of_nat (length s)) @ s"

definition ktest_object_bytes :: "ktest_object \<Rightarrow> file_data" where
  "ktest_object_bytes x = string_bytes (obj_name x) @ uint32_bytes (of_nat (length (obj_bytes x))) @ obj_bytes x"

lemma write_string_ok: "string_ok s \<Longrightarrow> write_string s = Inr (string_bytes s)"
  by (simp add: write_string_def Let_def followed_by_def fwrite_def c_string_ok string_bytes_def)
    (simp add: string_ok_def unat_length)

lemma write_object_ok: "object_ok x \<Longrightarrow> write_object x = Inr (ktest_object_bytes x)"
  by (simp add: write_object_def write_string_ok object_ok_def followed_by_def fwrite_def ktest_object_bytes_def)

lemma write_all_ok:
  "(\<And>x. x \<in> set xs \<Longrightarrow> w x = Inr (g x)) \<Longrightarrow> write_all w xs = Inr (concat (map g xs))"
  by (induction xs) (simp_all add: followed_by_def)

text \<open>The length of a C string, as it is written, is not zero.\<close>

definition writable :: "8 word list \<Rightarrow> bool" where
  "writable s \<longleftrightarrow> length (c_string s) mod 2 ^ 32 \<noteq> 0"

lemma write_string_iff: "(\<exists>f. write_string s = Inr f) \<longleftrightarrow> writable s"
  by (auto simp: write_string_def Let_def followed_by_Inr fwrite_Inr writable_def unat_of_nat)

lemma write_object_iff: "(\<exists>f. write_object x = Inr f) \<longleftrightarrow> writable (obj_name x) \<and> obj_bytes x \<noteq> []"
  using write_string_iff [of "obj_name x"] by (auto simp: write_object_def followed_by_Inr fwrite_Inr)

lemma write_all_iff: "(\<exists>f. write_all w xs = Inr f) \<longleftrightarrow> (\<forall>x \<in> set xs. \<exists>b. w x = Inr b)"
  by (induction xs) (auto simp: followed_by_Inr)

lemma toFile_iff:
  "(\<exists>f. kTest_toFile bo = Inr f) \<longleftrightarrow>
     (\<exists>f. write_all write_string (kt_args bo) = Inr f) \<and> (\<exists>f. write_all write_object (kt_objects bo) = Inr f)"
  by (auto simp: kTest_toFile_def followed_by_Inr fwrite_Inr KTEST_MAGIC_def)

lemma parses_string:
  assumes "A (length s + 1)" "string_ok s" shows "parses (read_string A) (string_bytes s) s"
proof -
  let ?n = "of_nat (length s) :: 32 word"
  have n: "unat ?n = length s" using assms(2) by (intro unat_length) (simp add: string_ok_def)
  have n1: "unat (?n + 1) = length s + 1" using assms(2) unat_length [of "length s + 1"] by (simp add: string_ok_def add.commute)
  then have "?n + 1 \<noteq> 0" by force
  with assms parses_fread [of s "length s"]
  have "parses (\<lambda>f. if \<not> A (unat (?n + 1)) then Inl Failed
      else if ?n + 1 = 0 then Inl (if f = [] then Failed else HeapOverflow) else fread (unat ?n) f) s s"
    unfolding n n1 by (simp add: string_ok_def parses_def)
  then show ?thesis
    unfolding read_string_def string_bytes_def by (rule parses_then [OF parses_uint32 _ refl])
qed

lemma parses_args:
  "\<forall>a \<in> set as. string_ok a \<and> A (length a + 1) \<Longrightarrow> parses (read_args A (length as)) (concat (map string_bytes as)) as"
proof (induction "as")
  case (Cons a "as")
  have "parses (read_string A) (string_bytes a) a" using Cons.prems by (intro parses_string) simp_all
  moreover have "parses (read_args A (length as)) (concat (map string_bytes as)) as" using Cons by simp
  ultimately show ?case by (simp add: parses_def reads_then_def)
qed (simp add: parses_def)

lemma parses_object:
  assumes memory: "A (length (obj_name x) + 1)" "A (length (obj_bytes x))" and "object_ok x"
  shows "parses (read_object A) (ktest_object_bytes x) x"
proof -
  let ?n = "of_nat (length (obj_bytes x)) :: 32 word"
  have n: "unat ?n = length (obj_bytes x)" using assms by (intro unat_length) (simp add: object_ok_def)
  have "parses (read_string A) (string_bytes (obj_name x)) (obj_name x)"
    using assms by (intro parses_string) (simp_all add: object_ok_def)
  moreover have "parses (fread (length (obj_bytes x))) (obj_bytes x) (obj_bytes x)"
    using assms by (intro parses_fread) (simp_all add: object_ok_def)
  ultimately show ?thesis
    using parses_uint32 [of ?n] memory
    by (simp add: parses_def read_object_def reads_then_def ktest_object_bytes_def n)
qed

lemma parses_objects:
  "\<forall>x \<in> set xs. object_ok x \<and> A (length (obj_name x) + 1) \<and> A (length (obj_bytes x)) \<Longrightarrow>
    parses (read_objects A (length xs)) (concat (map ktest_object_bytes xs)) xs"
proof (induction xs)
  case (Cons x xs)
  have "parses (read_object A) (ktest_object_bytes x) x" using Cons.prems by (intro parses_object) simp_all
  moreover have "parses (read_objects A (length xs)) (concat (map ktest_object_bytes xs)) xs" using Cons by simp
  ultimately show ?case by (simp add: parses_def reads_then_def)
qed (simp add: parses_def)

lemma parses_symArgv: "parses (read_symArgv KTEST_VERSION) (uint32_bytes n @ uint32_bytes l) (n, l)"
  using parses_uint32 [of n] parses_uint32 [of l]
  by (simp add: parses_def read_symArgv_def reads_then_def KTEST_VERSION_def)

definition file_bytes :: "ktest \<Rightarrow> file_data" where
  "file_bytes bo = KTEST_MAGIC @ uint32_bytes KTEST_VERSION @ uint32_bytes (of_nat (length (kt_args bo))) @
     concat (map string_bytes (kt_args bo)) @ (uint32_bytes (symArgvs bo) @ uint32_bytes (symArgvLen bo)) @
     uint32_bytes (of_nat (length (kt_objects bo))) @ concat (map ktest_object_bytes (kt_objects bo))"

lemma toFile_ok: "ktest_ok bo \<Longrightarrow> kTest_toFile bo = Inr (file_bytes bo)"
  by (simp add: kTest_toFile_def followed_by_def fwrite_def file_bytes_def KTEST_MAGIC_def ktest_ok_def
      write_all_ok [of "kt_args bo" write_string string_bytes] write_string_ok
      write_all_ok [of "kt_objects bo" write_object ktest_object_bytes] write_object_ok)

lemma parses_header: "parses kTest_checkHeader KTEST_MAGIC ()"
  by (simp add: parses_def kTest_checkHeader_def reads_then_def fread_def KTEST_MAGIC_def)

lemma fromFile_ok:
  assumes "ktest_ok bo" "\<forall>n \<in> allocations bo. A n"
  shows "kTest_fromFile A (file_bytes bo) = Inr (bo\<lparr>kt_version := KTEST_VERSION\<rparr>)"
proof -
  have n: "unat (of_nat (length (kt_args bo)) :: 32 word) = length (kt_args bo)"
    "unat (of_nat (length (kt_objects bo)) :: 32 word) = length (kt_objects bo)"
    using assms(1) by (simp_all add: ktest_ok_def unat_length)
  have args: "parses (read_args A (length (kt_args bo))) (concat (map string_bytes (kt_args bo))) (kt_args bo)"
    using assms by (intro parses_args) (auto simp: ktest_ok_def allocations_def)
  have objects: "parses (read_objects A (length (kt_objects bo))) (concat (map ktest_object_bytes (kt_objects bo))) (kt_objects bo)"
    using assms by (intro parses_objects) (auto simp: ktest_ok_def allocations_def)
  have objects': "read_objects A (length (kt_objects bo)) (concat (map ktest_object_bytes (kt_objects bo))) = Inr (kt_objects bo, [])"
    using objects by (auto simp: parses_def dest: spec [of _ "[]"])
  note reads = parses_header [unfolded parses_def, rule_format] parses_uint32 [unfolded parses_def, rule_format]
    args [unfolded parses_def, rule_format] parses_symArgv [unfolded parses_def append_assoc, rule_format]
  have "A 48" "A (length (kt_args bo) * 8)" "A (length (kt_objects bo) * 24)"
    using assms(2) by (simp_all add: allocations_def mult.commute)
  then show ?thesis
    by (simp add: kTest_fromFile_def reads_then_def file_bytes_def reads allocate_def n objects')
qed

section \<open>Properties\<close>

text \<open>C36: what is written to a test case file is what is read back. \<^verbatim>\<open>kTest_toFile\<close> succeeds, on a structure that C can
  hold, exactly when no argument, object name or object contents has length zero (\<^verbatim>\<open>fwrite\<close> of no bytes counts as a
  failure; the length of a string is cut to 32 bits). For strings of less than 2 ^ 32 - 1 bytes the file is then
  recognised, and if the allocator serves the sizes it is asked for, \<^verbatim>\<open>kTest_fromFile\<close> returns the same test case at the
  current version. A string of 2 ^ 32 - 1 bytes overflows its buffer.\<close>

theorem ktest_roundtrip:
  "(representable bo \<longrightarrow> (\<exists>f. kTest_toFile bo = Inr f) =
      ((\<forall>a \<in> set (kt_args bo). writable a) \<and> (\<forall>x \<in> set (kt_objects bo). writable (obj_name x) \<and> obj_bytes x \<noteq> []))) \<and>
   (ktest_ok bo \<and> (\<forall>n \<in> allocations bo. A n) \<longrightarrow> (\<exists>f. kTest_toFile bo = Inr f \<and> kTest_isKTestFile f \<and>
      kTest_fromFile A f = Inr (bo\<lparr>kt_version := KTEST_VERSION\<rparr>))) \<and>
   (A 0 \<and> f \<noteq> [] \<longrightarrow> read_string A (uint32_bytes (2 ^ 32 - 1) @ f) = Inl HeapOverflow)"
proof (intro conjI impI)
  show "(\<exists>f. kTest_toFile bo = Inr f) =
      ((\<forall>a \<in> set (kt_args bo). writable a) \<and> (\<forall>x \<in> set (kt_objects bo). writable (obj_name x) \<and> obj_bytes x \<noteq> []))"
    by (simp only: toFile_iff write_all_iff write_string_iff write_object_iff)
  assume ok: "ktest_ok bo \<and> (\<forall>n \<in> allocations bo. A n)"
  have "kTest_isKTestFile (file_bytes bo)"
    using parses_header by (simp add: kTest_isKTestFile_def file_bytes_def parses_def)
  then show "\<exists>f. kTest_toFile bo = Inr f \<and> kTest_isKTestFile f \<and> kTest_fromFile A f = Inr (bo\<lparr>kt_version := KTEST_VERSION\<rparr>)"
    using ok toFile_ok [of bo] fromFile_ok [of bo A] by blast
next
  assume "A 0 \<and> f \<noteq> []"
  moreover have "read_uint32 (uint32_bytes (2 ^ 32 - 1) @ f) = Inr (2 ^ 32 - 1, f)"
    using parses_uint32 by (simp add: parses_def)
  moreover have "(2 ^ 32 - 1 + 1 :: 32 word) = 0" by simp
  ultimately show "read_string A (uint32_bytes (2 ^ 32 - 1) @ f) = Inl HeapOverflow"
    by (simp only: read_string_def reads_then_def) simp
qed

definition sample_ktest :: ktest where
  "sample_ktest = \<lparr>kt_version = 2, kt_args = [[97, 98]], symArgvs = 1, symArgvLen = 0x1020304,
     kt_objects = [\<lparr>obj_name = [120], obj_bytes = [0, 255]\<rparr>]\<rparr>"

text \<open>An allocator that has a thousand bytes and returns no pointer for none.\<close>

theorem ktest_roundtrip_witness:
  "\<exists>f. kTest_toFile sample_ktest = Inr f \<and>
    kTest_fromFile (\<lambda>n. 0 < n \<and> n \<le> 1000) f = Inr (sample_ktest\<lparr>kt_version := 3\<rparr>)"
proof -
  have "ktest_ok sample_ktest" by (simp add: sample_ktest_def ktest_ok_def string_ok_def object_ok_def)
  moreover have "\<forall>n \<in> allocations sample_ktest. 0 < n \<and> n \<le> 1000" by (simp add: allocations_def sample_ktest_def)
  ultimately show ?thesis
    using ktest_roundtrip [of sample_ktest "\<lambda>n. 0 < n \<and> n \<le> 1000" "[]"] by (auto simp: KTEST_VERSION_def)
qed

end
