(* ===== verification/ExprWeight.thy ===== *)
theory ExprWeight
  imports ExprVisitor
begin

section \<open>What the constructors do to the size of expressions\<close>

text \<open>
  The constructors of \<^verbatim>\<open>lib/Expr/Expr.cpp\<close> may build larger expressions than they are given, but never with
  more parts that are not constant. \<open>weight\<close> counts those; a rewriting that replaces expressions by constants
  makes it smaller, which is why the rewriting of constraints ends (theory \<open>Constraints\<close>). \<open>div_ok P\<close>, every
  divisor satisfies \<open>P\<close>, is kept as well; the two are proved together as \<open>well\<close>.
\<close>

primrec weight :: "expr \<Rightarrow> nat" and weight_updates :: "updates \<Rightarrow> nat" where
  "weight (ConstantExpr c) = 0"
| "weight (NotOptimizedExpr e) = 1 + weight e"
| "weight (ReadExpr a us i) = 1 + weight i + weight_updates us"
| "weight (SelectExpr c t f) = max 1 (weight c + weight t + weight f)"
| "weight (ConcatExpr l r) = max 1 (weight l + weight r)"
| "weight (ExtractExpr e off w) = max 1 (weight e)"
| "weight (ZExtExpr e w) = max 1 (weight e)"
| "weight (SExtExpr e w) = max 1 (weight e)"
| "weight (NotExpr e) = max 1 (weight e)"
| "weight (BinaryExpr k l r) = max 1 (weight l + weight r)"
| "weight_updates UpdateNil = 0"
| "weight_updates (UpdateNode i v n) = weight v + weight_updates n"

primrec div_ok :: "(expr \<Rightarrow> bool) \<Rightarrow> expr \<Rightarrow> bool" and div_ok_updates :: "(expr \<Rightarrow> bool) \<Rightarrow> updates \<Rightarrow> bool" where
  "div_ok P (ConstantExpr c) = True"
| "div_ok P (NotOptimizedExpr e) = div_ok P e"
| "div_ok P (ReadExpr a us i) = (div_ok P i \<and> div_ok_updates P us)"
| "div_ok P (SelectExpr c t f) = (div_ok P c \<and> div_ok P t \<and> div_ok P f)"
| "div_ok P (ConcatExpr l r) = (div_ok P l \<and> div_ok P r)"
| "div_ok P (ExtractExpr e off w) = div_ok P e"
| "div_ok P (ZExtExpr e w) = div_ok P e"
| "div_ok P (SExtExpr e w) = div_ok P e"
| "div_ok P (NotExpr e) = div_ok P e"
| "div_ok P (BinaryExpr k l r) = (div_ok P l \<and> div_ok P r \<and> (is_div k \<longrightarrow> P r))"
| "div_ok_updates P UpdateNil = True"
| "div_ok_updates P (UpdateNode i v n) = (div_ok P v \<and> div_ok_updates P n)"

definition well :: "(expr \<Rightarrow> bool) \<Rightarrow> nat \<Rightarrow> expr \<Rightarrow> bool" where
  "well P m e \<longleftrightarrow> weight e \<le> m \<and> div_ok P e"

lemma weight_pos: "\<not> is_constant e \<Longrightarrow> 1 \<le> weight e"
  by (cases e) auto

lemma weight_0: "weight e = 0 \<longleftrightarrow> is_constant e"
  by (cases e) auto

lemma well_mono: "well P m e \<Longrightarrow> m \<le> n \<Longrightarrow> well P n e"
  by (simp add: well_def)

lemma well_self: "div_ok P e \<longleftrightarrow> well P (weight e) e"
  by (simp add: well_def)

named_theorems well_intros

lemma well_const [well_intros]: "well P m (ConstantExpr c)"
  by (simp add: well_def)

lemma well_binary:
  "\<lbrakk>well P m l; well P n r; \<not> (is_constant l \<and> is_constant r); \<not> is_div k\<rbrakk> \<Longrightarrow> well P (m + n) (BinaryExpr k l r)"
  using weight_pos [of l] weight_pos [of r] by (auto simp: well_def)

text \<open>The forms with a constant operand, or with the operands swapped.\<close>

lemma well_binaryL [well_intros]: "\<lbrakk>well P n r; \<not> is_constant r; \<not> is_div k\<rbrakk> \<Longrightarrow> well P n (BinaryExpr k (ConstantExpr c) r)"
  using well_binary [of P 0 "ConstantExpr c" n r k] well_const by simp

lemma well_binaryR [well_intros]: "\<lbrakk>well P n l; \<not> is_constant l; \<not> is_div k\<rbrakk> \<Longrightarrow> well P n (BinaryExpr k l (ConstantExpr c))"
  using well_binary [of P n l 0 "ConstantExpr c" k] well_const by simp

lemma well_addL: "well P m l \<Longrightarrow> well P (m + n) l" by (simp add: well_def)
lemma well_addR: "well P n r \<Longrightarrow> well P (m + n) r" by (simp add: well_def)

lemma well_BCREATE_R:
  assumes "well P m l" "well P n r"
    and "\<lbrakk>\<not> is_constant l; \<not> is_constant r\<rbrakk> \<Longrightarrow> well P (m + n) (create l r)"
    and "\<And>c. \<not> is_constant l \<Longrightarrow> well P m l \<Longrightarrow> well P m (partialL l c)"
    and "\<And>c. \<not> is_constant r \<Longrightarrow> well P n r \<Longrightarrow> well P n (partialR c r)"
  shows "well P (m + n) (BCREATE_R K k create partialL partialR l r)"
  using assms
  by (auto simp: BCREATE_R_def as_const_None intro: well_const well_addL well_addR split: option.split)

lemma well_BCREATE:
  assumes "well P m l" "well P n r" "\<not> (is_constant l \<and> is_constant r) \<Longrightarrow> well P (m + n) (create l r)"
  shows "well P (m + n) (BCREATE K k create l r)"
  using assms by (auto simp: BCREATE_def as_const_None intro: well_const split: option.split)

lemma And_well: "well P m l \<Longrightarrow> well P n r \<Longrightarrow> well P (m + n) (And_make K l r)"
  unfolding And_make_def
  by (rule well_BCREATE_R)
    (auto simp: AndExpr_create_def AndExpr_createPartial_def AndExpr_createPartialR_def intro: well_intros well_binary)

lemma Or_well: "well P m l \<Longrightarrow> well P n r \<Longrightarrow> well P (m + n) (Or_make K l r)"
  unfolding Or_make_def
  by (rule well_BCREATE_R)
    (auto simp: OrExpr_create_def OrExpr_createPartial_def OrExpr_createPartialR_def intro: well_intros well_binary)

lemma EqExpr_create_well: "well P m l \<Longrightarrow> well P n r \<Longrightarrow> \<not> (is_constant l \<and> is_constant r) \<Longrightarrow>
    well P (m + n) (EqExpr_create K l r)"
  by (auto simp: EqExpr_create_def intro: well_const well_binary)

lemma EqExpr_create_wellL: "well P n r \<Longrightarrow> \<not> is_constant r \<Longrightarrow> well P n (EqExpr_create K (ConstantExpr c) r)"
  using EqExpr_create_well [of P 0 "ConstantExpr c" n r K] well_const by simp

text \<open>The parts of a sum with bounds of their own.\<close>

lemma well_binaryE:
  assumes "well P n (BinaryExpr k l r)"
  obtains "well P (weight l) l" "well P (weight r) r" "weight l + weight r \<le> n" "1 \<le> n"
  using assms by (auto simp: well_def)

lemma well_bin_left: "well P n (BinaryExpr k l r) \<Longrightarrow> well P n l"
  and well_bin_right: "well P n (BinaryExpr k l r) \<Longrightarrow> well P n r"
  by (auto simp: well_def)

lemma Eq_const_well:
  assumes "well P m l" "\<not> is_constant l \<Longrightarrow> well P m (EqExpr_createPartialR K c l)"
  shows "well P m (Eq_make K l (ConstantExpr c))"
  using assms by (auto simp: Eq_make.simps as_const_None intro: well_const split: option.split)

lemma Eq_two_constants_well: "1 \<le> n \<Longrightarrow> well P n (EqExpr_createPartialR K c (ConstantExpr d))"
  by (simp add: EqExpr_createPartialR.simps EqExpr_create_def well_def)

lemma EqExpr_createPartialR_well:
  assumes "\<not> ConstArrayOpt K"
  shows "well P n r \<Longrightarrow> \<not> is_constant r \<Longrightarrow> well P n (EqExpr_createPartialR K cl r)"
proof (induction r arbitrary: cl n rule: measure_induct_rule [where f = size])
  case (less r)
  note create = EqExpr_create_wellL [OF less.prems]
  have zero: "well P m (Eq_make K x (ConstantExpr c))" if "size x < size r" "well P m x" for x c m
    using that less.IH by (intro Eq_const_well) auto
  show ?case
  proof (cases "getBitWidth cl = 1")
    case w: True
    show ?thesis
    proof (cases r)
      case (BinaryExpr k x y)
      show ?thesis
      proof (cases "k = Or")
        case True
        with BinaryExpr less.prems(1) have p: "well P (weight x) x" "well P (weight y) y" "weight x + weight y \<le> n"
          by (auto elim: well_binaryE)
        have "well P (weight x + weight y) (And_make K (Eq_make K x (ConstantExpr (ConstantExpr_alloc K 0 (getWidth x))))
          (Eq_make K y (ConstantExpr (ConstantExpr_alloc K 0 (getWidth y)))))"
          by (rule And_well) (auto intro!: zero p simp: BinaryExpr)
        from well_mono [OF this p(3)] show ?thesis
          using w less.prems BinaryExpr True by (simp add: EqExpr_createPartialR.simps [of K cl])
      next
        case False
        then show ?thesis
          using w less.prems BinaryExpr create well_bin_right [of P n k x y]
          by (auto simp: EqExpr_createPartialR.simps [of K cl] split: option.split binop.split)
      qed
    qed (use w less.prems create in \<open>auto simp: EqExpr_createPartialR.simps [of K cl]\<close>)
  next
    case w: False
    show ?thesis
    proof (cases r)
      case (BinaryExpr k x y)
      have y: "well P n (EqExpr_createPartialR K c y)" for c
      proof (cases "is_constant y")
        case True
        then show ?thesis
          using less.prems BinaryExpr Eq_two_constants_well [of n P K c] by (auto simp: is_constant_iff elim: well_binaryE)
      next
        case False
        then show ?thesis using less.prems BinaryExpr by (intro less.IH) (auto dest: well_bin_right)
      qed
      show ?thesis
        using w less.prems BinaryExpr create y
        by (auto simp: EqExpr_createPartialR.simps [of K cl] split: option.split binop.split)
    next
      case (SExtExpr src v)
      have "well P n src" using less.prems SExtExpr by (simp add: well_def)
      with w create zero [of src n] SExtExpr show ?thesis
        by (simp add: EqExpr_createPartialR.simps [of K cl] Let_def well_const)
    next
      case (ZExtExpr src v)
      have "well P n src" using less.prems ZExtExpr by (simp add: well_def)
      with w create zero [of src n] ZExtExpr show ?thesis
        by (simp add: EqExpr_createPartialR.simps [of K cl] Let_def well_const)
    qed (use w less.prems create assms in \<open>auto simp: EqExpr_createPartialR.simps [of K cl]\<close>)
  qed
qed

lemma Eq_well:
  assumes "\<not> ConstArrayOpt K" "well P m l" "well P n r"
  shows "well P (m + n) (Eq_make K l r)"
  unfolding Eq_make_macro EqExpr_createPartial_def
  by (rule well_BCREATE_R [OF assms(2,3)])
    (use assms in \<open>auto intro: EqExpr_create_well EqExpr_createPartialR_well [OF assms(1)]\<close>)

lemma createIsZero_well: "\<not> ConstArrayOpt K \<Longrightarrow> well P m e \<Longrightarrow> well P m (createIsZero K e)"
  unfolding createIsZero_def by (rule Eq_const_well) (auto intro: EqExpr_createPartialR_well)

text \<open>From here on the option is off.\<close>

lemma XorR_well: "\<not> ConstArrayOpt K \<Longrightarrow> well P n r \<Longrightarrow> \<not> is_constant r \<Longrightarrow> well P n (XorExpr_createPartialR K cl r)"
  by (auto simp: XorExpr_createPartialR_def EqExpr_createPartial_def intro: EqExpr_createPartialR_well well_intros)

lemma XorR_const_well: "1 \<le> n \<Longrightarrow> well P n (XorExpr_createPartialR K cl (ConstantExpr c))"
  by (simp add: XorExpr_createPartialR_def EqExpr_createPartial_def well_const Eq_two_constants_well) (simp add: well_def)

lemma Xor_well:
  assumes "\<not> ConstArrayOpt K" "well P m l" "well P n r"
  shows "well P (m + n) (Xor_make K l r)"
  unfolding Xor_make_def XorExpr_createPartial_def
  by (rule well_BCREATE_R [OF assms(2,3)]) (use assms in \<open>auto simp: XorExpr_create_def intro: XorR_well [OF assms(1)] well_binary\<close>)

lemma const_lhs_well: "const_lhs k r = Some (c, d) \<Longrightarrow> well P n r \<Longrightarrow> well P n d"
  by (auto simp: const_lhs_Some dest: well_bin_right)

lemma Add_Sub_const_well:
  assumes opt: "\<not> ConstArrayOpt K"
  shows "well P n r \<Longrightarrow> \<not> is_constant r \<Longrightarrow> well P n (AddExpr_createPartialR K cl r)"
    and "well P n r \<Longrightarrow> well P n (Add_const K cl r)"
    and "well P n r \<Longrightarrow> \<not> is_constant r \<Longrightarrow> well P n (SubExpr_createPartialR K cl r)"
    and "well P n r \<Longrightarrow> well P n (Sub_const K cl r)"
  using opt
proof (induction K cl r and K cl r and K cl r and K cl r
    rule: AddExpr_createPartialR_Add_const_SubExpr_createPartialR_Sub_const.induct)
  case (1 K cl r)
  note d = const_lhs_well [OF _ "1.prems"(1)]
  show ?case
  proof (cases "getBitWidth cl = 1 \<or> ap_isZero cl")
    case False
    with "1.IH" "1.prems" d show ?thesis
      by (cases "const_lhs Add r"; cases "const_lhs Sub r")
        (auto simp: AddExpr_createPartialR.simps [of K cl r] intro!: well_intros)
  qed (use "1.prems" XorR_well in \<open>auto simp: AddExpr_createPartialR.simps [of K cl r]\<close>)
next
  case (2 K cl r)
  then show ?case by (subst Add_const.simps) (auto simp: as_const_None intro: well_const split: option.split)
next
  case (3 K cl r)
  note d = const_lhs_well [OF _ "3.prems"(1)]
  show ?case
  proof (cases "getBitWidth cl = 1")
    case False
    with "3.IH" "3.prems" d show ?thesis
      by (cases "const_lhs Add r"; cases "const_lhs Sub r")
        (auto simp: SubExpr_createPartialR.simps [of K cl r] intro!: well_intros)
  qed (use "3.prems" XorR_well in \<open>auto simp: SubExpr_createPartialR.simps [of K cl r]\<close>)
next
  case (4 K cl r)
  then show ?case by (subst Sub_const.simps) (auto simp: as_const_None intro: well_const split: option.split)
qed

lemma SubR_well: "\<not> ConstArrayOpt K \<Longrightarrow> well P n r \<Longrightarrow> \<not> is_constant r \<Longrightarrow> well P n (SubExpr_createPartial K r cl)"
  by (auto simp: SubExpr_createPartial_def AddExpr_createPartial_def intro: Add_Sub_const_well)

lemma Sub_constR_well: "\<not> ConstArrayOpt K \<Longrightarrow> well P n r \<Longrightarrow> well P n (Sub_constR K r cl)"
  by (auto simp: Sub_constR_def as_const_None intro: well_const SubR_well split: option.split)

lemma AddExpr_create_well:
  assumes opt: "\<not> ConstArrayOpt K" and l: "well P m l" "\<not> is_constant l" and r: "well P n r" "\<not> is_constant r"
    and add: "\<And>x y p q. \<lbrakk>size x + size y < size l + size r; well P p x; well P q y\<rbrakk> \<Longrightarrow> well P (p + q) (Add_make K x y)"
    and sub: "\<And>x y p q. \<lbrakk>size x + size y < size l + size r; well P p x; well P q y\<rbrakk> \<Longrightarrow> well P (p + q) (Sub_make K x y)"
  shows "well P (m + n) (AddExpr_create K l r)"
proof -
  have alloc: "well P (m + n) (BinaryExpr k l r)" if "\<not> is_div k" for k
    using l r that by (auto intro: well_binary)
  have 1: "well P (m + n) (Add_const K c (Add_make K a r))" if "const_lhs Add l = Some (c, a)" for c a
    using const_lhs_well [OF that l(1)] const_lhs_size [OF that] r(1) by (intro Add_Sub_const_well(2) opt add) auto
  have 2: "well P (m + n) (Add_const K c (Sub_make K r a))" if "const_lhs Sub l = Some (c, a)" for c a
    using sub [OF _ r(1) const_lhs_well [OF that l(1)]] const_lhs_size [OF that]
    by (intro Add_Sub_const_well(2) opt) (simp add: add.commute)
  have 3: "well P (m + n) (Add_const K c (Add_make K l a))" if "const_lhs Add r = Some (c, a)" for c a
    using const_lhs_well [OF that r(1)] const_lhs_size [OF that] l(1) by (intro Add_Sub_const_well(2) opt add) auto
  have 4: "well P (m + n) (Add_const K c (Sub_make K l a))" if "const_lhs Sub r = Some (c, a)" for c a
    using const_lhs_well [OF that r(1)] const_lhs_size [OF that] l(1) by (intro Add_Sub_const_well(2) opt sub) auto
  show ?thesis
    using 1 2 3 4 alloc by (auto simp: AddExpr_create.simps [of K l r] XorExpr_create_def split: option.split)
qed

lemma SubExpr_create_well:
  assumes opt: "\<not> ConstArrayOpt K" and l: "well P m l" "\<not> is_constant l" and r: "well P n r" "\<not> is_constant r"
    and add: "\<And>x y p q. \<lbrakk>size x + size y < size l + size r; well P p x; well P q y\<rbrakk> \<Longrightarrow> well P (p + q) (Add_make K x y)"
    and sub: "\<And>x y p q. \<lbrakk>size x + size y < size l + size r; well P p x; well P q y\<rbrakk> \<Longrightarrow> well P (p + q) (Sub_make K x y)"
  shows "well P (m + n) (SubExpr_create K l r)"
proof -
  have alloc: "well P (m + n) (BinaryExpr k l r)" if "\<not> is_div k" for k
    using l r that by (auto intro: well_binary)
  have 1: "well P (m + n) (Add_const K c (Sub_make K a r))" if "const_lhs Add l = Some (c, a)" for c a
    using const_lhs_well [OF that l(1)] const_lhs_size [OF that] r(1) by (intro Add_Sub_const_well(2) opt sub) auto
  have 2: "well P (m + n) (Sub_const K c (Add_make K a r))" if "const_lhs Sub l = Some (c, a)" for c a
    using const_lhs_well [OF that l(1)] const_lhs_size [OF that] r(1) by (intro Add_Sub_const_well(4) opt add) auto
  have 3: "well P (m + n) (Sub_constR K (Sub_make K l a) c)" if "const_lhs Add r = Some (c, a)" for c a
    using const_lhs_well [OF that r(1)] const_lhs_size [OF that] l(1) by (intro Sub_constR_well opt sub) auto
  have 4: "well P (m + n) (Sub_constR K (Add_make K l a) c)" if "const_lhs Sub r = Some (c, a)" for c a
    using const_lhs_well [OF that r(1)] const_lhs_size [OF that] l(1) by (intro Sub_constR_well opt add) auto
  show ?thesis
    using 1 2 3 4 alloc well_const
    by (auto simp: SubExpr_create.simps [of K l r] XorExpr_create_def split: option.split)
qed

lemma Add_Sub_well:
  assumes opt: "\<not> ConstArrayOpt K"
  shows "well P m l \<Longrightarrow> well P n r \<Longrightarrow> well P (m + n) (Add_make K l r) \<and> well P (m + n) (Sub_make K l r)"
proof (induction "size l + size r" arbitrary: l r m n rule: less_induct)
  case less
  have IH: "well P (p + q) (Add_make K x y)" "well P (p + q) (Sub_make K x y)"
    if "size x + size y < size l + size r" "well P p x" "well P q y" for x y p q
    using less.hyps [OF that] by simp_all
  have "well P (m + n) (Add_make K l r)"
    unfolding Add_make_macro AddExpr_createPartial_def
    by (rule well_BCREATE_R [OF less.prems]) (auto intro: AddExpr_create_well [OF opt] Add_Sub_const_well [OF opt] IH less.prems)
  moreover have "well P (m + n) (Sub_make K l r)"
    unfolding Sub_make_macro
    by (rule well_BCREATE_R [OF less.prems])
      (auto intro: SubExpr_create_well [OF opt] SubR_well [OF opt] Add_Sub_const_well [OF opt] IH less.prems)
  ultimately show ?case ..
qed

lemma Mul_well: "well P m l \<Longrightarrow> well P n r \<Longrightarrow> well P (m + n) (Mul_make K l r)"
  unfolding Mul_make_def MulExpr_createPartial_def
  by (rule well_BCREATE_R)
    (auto simp: MulExpr_create_def MulExpr_createPartialR_def AndExpr_createPartialR_def AndExpr_createPartial_def
      intro: well_intros well_binary)

text \<open>Divisions: the divisor is not zero.\<close>

lemma well_div:
  "\<lbrakk>well P m l; well P n r; \<not> (is_constant l \<and> is_constant r); P r\<rbrakk> \<Longrightarrow> well P (m + n) (BinaryExpr k l r)"
  using weight_pos [of l] weight_pos [of r] by (auto simp: well_def)

lemma Ne_well: "\<not> ConstArrayOpt K \<Longrightarrow> well P m l \<Longrightarrow> well P n r \<Longrightarrow> well P (m + n) (Ne_make K l r)"
  unfolding Ne_make_def using Eq_well [of K P 0 "ConstantExpr (ConstantExpr_alloc K 0 1)" "m + n" "Eq_make K l r"]
  by (simp add: Eq_well well_const)

lemma Binary_well:
  assumes opt: "\<not> ConstArrayOpt K" and l: "well P m l" and r: "well P n r" and d: "is_div k \<longrightarrow> P r"
  shows "well P (m + n) (Binary_make K k l r)"
proof (cases "is_constant l \<and> is_constant r")
  case True
  have "m + n = n + m" by simp
  with True show ?thesis
    by (cases k)
      (auto simp: is_constant_iff BCREATE_def And_make_def Or_make_def Xor_make_def Mul_make_def Add_make_macro Sub_make_macro
        Eq_make_macro Ne_make_def BCREATE_R_def well_const)
next
  case False
  note zero = createIsZero_well [OF opt]
  have alloc: "well P (m + n) (BinaryExpr k' l r)" if "\<not> is_div k'" for k' using l r False that by (rule well_binary)
  have alloc': "well P (m + n) (BinaryExpr k' r l)" if "\<not> is_div k'" for k'
    using well_binary [OF r l _ that] False by (auto simp: add.commute)
  have div: "well P (m + n) (BinaryExpr k' l r)" if "is_div k" for k' using well_div [OF l r False] d that by blast
  have left: "well P (m + n) l" using l by (rule well_addL)
  have ands: "well P (m + n) (And_make K l (createIsZero K r))" "well P (m + n) (And_make K (createIsZero K l) r)"
    "well P (m + n) (Or_make K l (createIsZero K r))" "well P (m + n) (Or_make K (createIsZero K l) r)"
    using l r by (auto intro: And_well Or_well zero)
  have ands': "well P (m + n) (And_make K r (createIsZero K l))" "well P (m + n) (And_make K (createIsZero K r) l)"
    "well P (m + n) (Or_make K r (createIsZero K l))" "well P (m + n) (Or_make K (createIsZero K r) l)"
    using And_well [OF r zero [OF l]] And_well [OF zero [OF r] l] Or_well [OF r zero [OF l]] Or_well [OF zero [OF r] l]
    by (simp_all add: add.commute)
  have macro: "well P (m + n) (BCREATE K k' f l r)" if "well P (m + n) (f l r)" for k' f
    using well_BCREATE [OF l r] that by blast
  have macro': "well P (m + n) (BCREATE K k' f r l)" if "well P (m + n) (f r l)" for k' f
    using well_BCREATE [OF r l, of f K k'] that by (simp add: add.commute)
  show ?thesis
    using alloc alloc' div left ands ands' And_well [OF l r] Or_well [OF l r] Xor_well [OF opt l r] Mul_well [OF l r]
      Eq_well [OF opt l r] Ne_well [OF opt l r] Add_Sub_well [OF opt l r]
    by (cases k)
      (auto intro!: macro macro' simp: UDivExpr_create_def SDivExpr_create_def URemExpr_create_def SRemExpr_create_def
        ShlExpr_create_def LShrExpr_create_def AShrExpr_create_def UltExpr_create_def UleExpr_create_def SltExpr_create_def
        SleExpr_create_def well_const)
qed

lemma well_unary:
  "well P m e \<Longrightarrow> \<not> is_constant e \<Longrightarrow> well P m (ExtractExpr e off w) \<and> well P m (ZExtExpr e w) \<and> well P m (SExtExpr e w) \<and>
     well P m (NotExpr e)"
  using weight_pos [of e] by (auto simp: well_def)

lemma well_concat:
  "well P m l \<Longrightarrow> well P n r \<Longrightarrow> \<not> (is_constant l \<and> is_constant r) \<Longrightarrow> well P (m + n) (ConcatExpr l r)"
  using weight_pos [of l] weight_pos [of r] by (auto simp: well_def)

lemma Extract_Concat_well:
  "well P m e \<Longrightarrow> well P m (Extract_make K e off w)"
  "well P m l \<Longrightarrow> well P n r \<Longrightarrow> well P (m + n) (Concat_make K l r)"
proof (induction K e off w and K l r arbitrary: m and m n rule: Extract_make_Concat_make.induct)
  case (1 K e off w)
  show ?case
  proof (cases "w = getWidth e")
    case w: False
    show ?thesis
    proof (cases e)
      case (ConcatExpr l r)
      then have p: "well P (weight l) l" "well P (weight r) r" "weight l + weight r \<le> m"
        using "1.prems" by (auto simp: well_def)
      then have p': "well P m l" "well P m r" by (auto elim: well_mono)
      note IH = "1.IH" [OF w ConcatExpr]
      consider "getWidth r \<le> off" | "\<not> getWidth r \<le> off" "off + w \<le> getWidth r"
        | "\<not> getWidth r \<le> off" "\<not> off + w \<le> getWidth r" by blast
      then show ?thesis
      proof cases
        case 3
        have "well P (weight l + weight r) (Concat_make K (Extract_make K l 0 (w + off - getWidth r)) (Extract_make K r off (getWidth r - off)))"
          by (rule IH(5) [OF 3]) (rule IH(3,4) [OF 3]; fact p)+
        from well_mono [OF this p(3)] "1.prems" show ?thesis
          using w 3 unfolding ConcatExpr by (simp add: Extract_make.simps [of K "ConcatExpr l r"])
      qed (use w ConcatExpr IH(1,2) p' in \<open>simp_all add: Extract_make.simps [of K "ConcatExpr l r"]\<close>)
    qed (use w "1.prems" well_unary [OF "1.prems"] in \<open>auto simp: Extract_make.simps well_const\<close>)
  qed (use "1.prems" in \<open>simp add: Extract_make.simps [of K e]\<close>)
next
  case (2 K l r)
  show ?case
  proof (cases "is_constant l \<and> is_constant r")
    case True
    then show ?thesis by (auto simp: is_constant_iff Concat_make.simps well_const)
  next
    case False
    note c = well_concat [OF "2.prems" False]
    show ?thesis
    proof (cases "\<exists>el ol wl orr wr. l = ExtractExpr el ol wl \<and> r = ExtractExpr el orr wr \<and> orr + wr = ol")
      case True
      then obtain el ol wl orr wr where e: "l = ExtractExpr el ol wl" "r = ExtractExpr el orr wr" "orr + wr = ol" by blast
      have "well P m el" using "2.prems"(1) by (simp add: e well_def)
      from well_addL [OF "2.IH" [OF refl e(1,2) _ this]] show ?thesis using e by (simp add: Concat_make.simps)
    next
      case False
      with c \<open>\<not> (is_constant l \<and> is_constant r)\<close> show ?thesis
        by (auto simp: Concat_make.simps [of K l r] split: expr.split)
    qed
  qed
qed

lemma casts_well:
  "well P m e \<Longrightarrow> well P m (ZExt_make K e w) \<and> well P m (SExt_make K e w) \<and> well P m (Not_make K e)"
  using well_unary [of P m e]
  by (auto simp: ZExt_make_def SExt_make_def Not_make_def Let_def as_const_None intro: Extract_Concat_well well_const
      split: option.split)

lemma Read_scan_well: "Read_scan K i us = Some v \<Longrightarrow> div_ok_updates P us \<Longrightarrow> well P (weight_updates us) v"
  by (induction K i us rule: Read_scan.induct)
    (auto simp: well_def split: option.splits if_splits)

lemma Read_well: "well P m i \<Longrightarrow> div_ok_updates P us \<Longrightarrow> well P (1 + m + weight_updates us) (Read_make K a us i)"
  using Read_scan_well [of K i us _ P] by (fastforce simp: Read_make_def well_def split: option.split)

lemma Select_well:
  assumes opt: "\<not> ConstArrayOpt K" and "well P m c" "well P n t" "well P p f"
  shows "well P (m + n + p) (Select_make K c t f)"
proof -
  note z = createIsZero_well [OF opt assms(2)]
  have s: "well P (m + n + p) (SelectExpr c t f)" if "\<not> is_constant c"
    using assms(2-) weight_pos [OF that] by (auto simp: well_def)
  have b: "well P (m + n + p) x" if "well P (m + n) x" for x using that by (rule well_mono) simp
  have b': "well P (m + n + p) x" if "well P (m + p) x" for x using that by (rule well_mono) simp
  have a: "well P (m + n + p) t" "well P (m + n + p) f" using assms(3,4) by (auto elim!: well_mono)
  show ?thesis
    using s a b [OF Or_well [OF z assms(3)]] b [OF And_well [OF assms(2,3)]]
      b' [OF Or_well [OF assms(2,4)]] b' [OF And_well [OF z assms(4)]]
    by (auto simp: Select_make_def as_const_None split: option.split)
qed

text \<open>Rebuilding an expression from kids one of which has become lighter makes it lighter.\<close>

definition lighter :: "(expr \<Rightarrow> bool) \<Rightarrow> expr \<Rightarrow> expr \<Rightarrow> bool" where
  "lighter P e e' \<longleftrightarrow> div_ok P e' \<and> (e' = e \<or> weight e' < weight e)"

lemma lighter_refl: "div_ok P e \<Longrightarrow> lighter P e e"
  by (simp add: lighter_def)

lemma lighter_kids:
  assumes "list_all2 (lighter P) es ks"
  shows "(\<Sum>k\<leftarrow>ks. weight k) \<le> (\<Sum>k\<leftarrow>es. weight k) \<and> (ks = es \<or> (\<Sum>k\<leftarrow>ks. weight k) < (\<Sum>k\<leftarrow>es. weight k))"
  using assms by (induction rule: list_all2_induct) (auto simp: lighter_def)

definition own_weight :: "expr \<Rightarrow> nat" where
  "own_weight e = (case e of NotOptimizedExpr x \<Rightarrow> 1 | ReadExpr a us i \<Rightarrow> 1 + weight_updates us | _ \<Rightarrow> 0)"

lemma weight_kids: "own_weight e + (\<Sum>k\<leftarrow>kids e. weight k) \<le> weight e"
  by (cases e) (auto simp: own_weight_def)

lemma div_ok_kids: "div_ok P e \<Longrightarrow> k \<in> set (kids e) \<Longrightarrow> div_ok P k"
  by (cases e) auto

lemma rebuild_weight:
  assumes opt: "\<not> ConstArrayOpt K" and e: "div_ok P e" "\<not> is_constant e" and ks: "length ks = length (kids e)" "\<forall>k \<in> set ks. div_ok P k"
    and d: "\<And>k l r. e = BinaryExpr k l r \<Longrightarrow> is_div k \<Longrightarrow> P (ks ! 1)"
  shows "well P (own_weight e + (\<Sum>k\<leftarrow>ks. weight k)) (rebuild K e ks)"
proof -
  have w: "well P (weight k) k" if "k \<in> set ks" for k using ks(2) that by (simp add: well_def)
  show ?thesis
  proof (cases e)
    case (ReadExpr a us i)
    with ks obtain k where "ks = [k]" by (auto simp: length_Suc_conv)
    with ReadExpr Read_well [OF w [of k], of us K a] e show ?thesis by (simp add: own_weight_def ac_simps)
  next
    case (SelectExpr c t f)
    with ks obtain k1 k2 k3 where "ks = [k1, k2, k3]" by (auto simp: length_Suc_conv)
    with SelectExpr Select_well [OF opt w [of k1] w [of k2] w [of k3]] show ?thesis
      by (simp add: own_weight_def add.assoc)
  next
    case (ConcatExpr l r)
    with ks obtain k1 k2 where "ks = [k1, k2]" by (auto simp: length_Suc_conv)
    with ConcatExpr Extract_Concat_well(2) [OF w [of k1] w [of k2]] show ?thesis by (simp add: own_weight_def)
  next
    case (BinaryExpr k l r)
    with ks obtain k1 k2 where "ks = [k1, k2]" by (auto simp: length_Suc_conv)
    with BinaryExpr Binary_well [OF opt w [of k1] w [of k2], of k] d show ?thesis by (simp add: own_weight_def)
  next
    case (NotOptimizedExpr x)
    with ks obtain k where "ks = [k]" by (auto simp: length_Suc_conv)
    with NotOptimizedExpr ks show ?thesis by (simp add: own_weight_def well_def)
  qed (use e ks w in \<open>auto simp: own_weight_def length_Suc_conv intro: Extract_Concat_well(1)
    conjunct1 [OF casts_well] conjunct1 [OF conjunct2 [OF casts_well]] conjunct2 [OF conjunct2 [OF casts_well]]\<close>)
qed

lemma rebuild_lighter:
  assumes "\<not> ConstArrayOpt K" "div_ok P e" "\<not> is_constant e" "list_all2 (lighter P) (kids e) ks" "ks \<noteq> kids e"
    and "\<And>k l r. e = BinaryExpr k l r \<Longrightarrow> is_div k \<Longrightarrow> P (ks ! 1)"
  shows "weight (rebuild K e ks) < weight e \<and> div_ok P (rebuild K e ks)"
proof -
  have "\<forall>k \<in> set ks. div_ok P k"
    using assms(4) by (auto simp: list_all2_conv_all_nth in_set_conv_nth lighter_def)
  then have "well P (own_weight e + (\<Sum>k\<leftarrow>ks. weight k)) (rebuild K e ks)"
    using assms by (intro rebuild_weight) (auto dest: list_all2_lengthD)
  moreover have "(\<Sum>k\<leftarrow>ks. weight k) < (\<Sum>k\<leftarrow>kids e. weight k)"
    using lighter_kids [OF assms(4)] assms(5) by simp
  ultimately show ?thesis using weight_kids [of e] by (simp add: well_def)
qed

end
