(* ===== verification/Constraints.thy ===== *)
theory Constraints
  imports ExprWeight SolverRange
begin

section \<open>The constraints of a path (lib/Expr/Constraints.cpp)\<close>

text \<open>
  \<^verbatim>\<open>ConstraintManager\<close> keeps the path condition as a list of boolean expressions. A new constraint is first
  simplified under the others; an equality with a constant then rewrites the others, which may lead to further
  equalities. The recursion of \<open>addConstraintInternal\<close>, and that of the visitors, runs on fuel: \<open>None\<close> is its
  end, and theorem \<open>constraints_kept\<close> shows that it does not come. A constraint that folds to false breaks the
  assertion of the code: \<open>InvalidConstraint\<close>. The parameter \<open>rw\<close> is the option \<^verbatim>\<open>RewriteEqualities\<close>.
\<close>

subsection \<open>The visitors\<close>

definition replace_visitor :: "expr \<Rightarrow> expr \<Rightarrow> visitor" where
  "replace_visitor src dst = base_visitor\<lparr>
     v_visitExpr := (\<lambda>visit e vis. Some (if e = src then ChangeTo dst else DoChildren, vis)),
     v_visitExprPost := (\<lambda>e. if e = src then ChangeTo dst else DoChildren)\<rparr>"

definition replace_visitor2 :: "(expr \<Rightarrow> expr option) \<Rightarrow> visitor" where
  "replace_visitor2 replacements = base_visitor\<lparr>
     v_recursive := True,
     v_visitExprPost := (\<lambda>e. case replacements e of Some d \<Rightarrow> ChangeTo d | None \<Rightarrow> DoChildren)\<rparr>"

subsection \<open>ConstraintManager\<close>

datatype constraint_error = InvalidConstraint

text \<open>\<open>equality_of\<close> is the pair that a constraint gives to the map; \<^verbatim>\<open>insert\<close> keeps an entry that is there.\<close>

definition equality_of :: "'z expr_env_scheme \<Rightarrow> expr \<Rightarrow> expr \<times> expr" where
  "equality_of K c =
     (case c of
        BinaryExpr Eq l r \<Rightarrow> if is_constant l then (r, l) else (c, ConstantExpr (ConstantExpr_alloc K 1 1))
      | _ \<Rightarrow> (c, ConstantExpr (ConstantExpr_alloc K 1 1)))"

definition equalities :: "'z expr_env_scheme \<Rightarrow> expr list \<Rightarrow> expr \<Rightarrow> expr option" where
  "equalities K cs = foldl (\<lambda>m c. let (x, d) = equality_of K c in if m x = None then m(x \<mapsto> d) else m) Map.empty cs"

definition simplifyExpr :: "nat \<Rightarrow> 'z expr_env_scheme \<Rightarrow> expr list \<Rightarrow> expr \<Rightarrow> expr option" where
  "simplifyExpr n K cs e =
     (if is_constant e then Some e
      else map_option fst (visit n K (replace_visitor2 (equalities K cs)) e Map.empty))"

type_synonym constraints_result = "(constraint_error + expr list) option"

text \<open>The loop of \<^verbatim>\<open>rewriteConstraints\<close>: \<open>cs\<close> are the new constraints; whether one changed is not used by the caller.\<close>

primrec rewrite_loop ::
  "(expr \<Rightarrow> expr list \<Rightarrow> constraints_result) \<Rightarrow> visit_fun \<Rightarrow> expr list \<Rightarrow> visited \<Rightarrow> expr list \<Rightarrow> constraints_result" where
  "rewrite_loop add vst [] vis cs = Some (Inr cs)"
| "rewrite_loop add vst (ce # old) vis cs = do {
     (e, vis) \<leftarrow> vst ce vis;
     if e \<noteq> ce then do {
       r \<leftarrow> add e cs;
       case r of Inl err \<Rightarrow> Some (Inl err) | Inr cs \<Rightarrow> rewrite_loop add vst old vis cs }
     else rewrite_loop add vst old vis (cs @ [ce]) }"

definition rewriteConstraints ::
  "(expr \<Rightarrow> expr list \<Rightarrow> constraints_result) \<Rightarrow> visit_fun \<Rightarrow> expr list \<Rightarrow> constraints_result" where
  "rewriteConstraints add vst old = rewrite_loop add vst old Map.empty []"

fun addConstraintInternal :: "nat \<Rightarrow> 'z expr_env_scheme \<Rightarrow> bool \<Rightarrow> expr \<Rightarrow> expr list \<Rightarrow> constraints_result" where
  "addConstraintInternal 0 K rw e cs = None"
| "addConstraintInternal (Suc n) K rw e cs =
     (case e of
        ConstantExpr c \<Rightarrow> Some (if ap_isTrue c then Inr cs else Inl InvalidConstraint)
      | BinaryExpr And l r \<Rightarrow> do {
          x \<leftarrow> addConstraintInternal n K rw l cs;
          case x of Inl err \<Rightarrow> Some (Inl err) | Inr cs \<Rightarrow> addConstraintInternal n K rw r cs }
      | BinaryExpr Eq l r \<Rightarrow> do {
          x \<leftarrow> (if rw \<and> is_constant l
                then rewriteConstraints (addConstraintInternal n K rw) (visit n K (replace_visitor r l)) cs
                else Some (Inr cs));
          case x of Inl err \<Rightarrow> Some (Inl err) | Inr cs \<Rightarrow> Some (Inr (cs @ [e])) }
      | _ \<Rightarrow> Some (Inr (cs @ [e])))"

declare addConstraintInternal.simps [simp del]

definition addConstraint :: "nat \<Rightarrow> 'z expr_env_scheme \<Rightarrow> bool \<Rightarrow> expr \<Rightarrow> expr list \<Rightarrow> constraints_result" where
  "addConstraint n K rw e cs = do { e \<leftarrow> simplifyExpr n K cs e; addConstraintInternal n K rw e cs }"

section \<open>Rewriting ends\<close>

text \<open>A visitor that calls no other visit, and only ever replaces by constants.\<close>

locale constant_visitor =
  fixes K :: "'z expr_env_scheme" and V :: visitor and f :: "expr \<Rightarrow> action"
  assumes opt: "\<not> ConstArrayOpt K"
    and visit_expr: "v_visitExpr V = (\<lambda>rec e vis. Some (f e, vis))"
    and visit_kind: "v_visitKind V = (\<lambda>rec e vis. Some (DoChildren, vis))"
    and to_const: "f e = ChangeTo d \<Longrightarrow> is_constant d"
    and no_skip: "f e \<noteq> SkipChildren"
    and post_const: "v_visitExprPost V e = ChangeTo d \<Longrightarrow> is_constant d"
begin

lemma visitActual_eq:
  "visitActual K V rec e vis =
     (if is_constant e then Some (e, vis)
      else case f e of ChangeTo d \<Rightarrow> Some (d, vis) | _ \<Rightarrow> visit_children K V rec e vis)"
  using no_skip [of e] by (auto simp: visitActual_def visit_expr visit_kind split: action.split)

lemma post_lighter: "lighter P e x \<Longrightarrow> lighter P e (visit_post V x)"
  using post_const [of x] weight_pos [of x] weight_0
  by (cases "v_visitExprPost V x") (auto simp: visit_post_def lighter_def is_constant_iff split: action.split)

lemma change_lighter: "\<not> is_constant e \<Longrightarrow> is_constant d \<Longrightarrow> lighter P e d"
  using weight_pos [of e] by (auto simp: lighter_def is_constant_iff)

end

text \<open>Every divisor passes the test \<open>\<lambda>r. True\<close>.\<close>

lemma div_ok_True [simp]: "div_ok (\<lambda>r. True) e" "div_ok_updates (\<lambda>r. True) us"
  by (induction e and us) auto

sublocale constant_visitor \<subseteq> light: visitor_laws K V "lighter (\<lambda>r. True)" "\<lambda>e. True"
proof unfold_locales
  fix rec e vis act vis' assume "\<not> is_constant e" "entries (lighter (\<lambda>r. True)) (\<lambda>e. True) vis"
    "v_visitExpr V rec e vis = Some (act, vis')"
  then show "entries (lighter (\<lambda>r. True)) (\<lambda>e. True) vis' \<and> (act = SkipChildren \<longrightarrow> lighter (\<lambda>r. True) e e) \<and>
      (\<forall>e'. act = ChangeTo e' \<longrightarrow> lighter (\<lambda>r. True) e e')"
    using change_lighter to_const by (auto simp: visit_expr lighter_refl)
next
  fix rec e vis vis0 act vis' assume "entries (lighter (\<lambda>r. True)) (\<lambda>e. True) vis"
    "v_visitKind V rec e vis = Some (act, vis')"
  then show "entries (lighter (\<lambda>r. True)) (\<lambda>e. True) vis' \<and> (act = SkipChildren \<longrightarrow> lighter (\<lambda>r. True) e e) \<and>
      (\<forall>e'. act = ChangeTo e' \<longrightarrow> lighter (\<lambda>r. True) e e')"
    by (auto simp: visit_kind)
next
  fix rec e vis vis0 vis' ks assume "\<not> is_constant e" "list_all2 (lighter (\<lambda>r. True)) (kids e) ks"
  then show "lighter (\<lambda>r. True) e (visit_post V (if ks = kids e then e else rebuild K e ks))"
    using rebuild_lighter [OF opt, of "\<lambda>r. True" e ks] by (intro post_lighter) (auto simp: lighter_def)
next
  fix e ks assume a: "list_all2 (lighter (\<lambda>r. True)) (kids e) ks" "ks \<noteq> kids e"
  then have "\<not> is_constant e" by (auto simp: is_constant_iff)
  with a have "weight (rebuild K e ks) < weight e" using rebuild_lighter [OF opt, of "\<lambda>r. True" e ks] by simp
  then have "lighter (\<lambda>r. True) e r" if "lighter (\<lambda>r. True) (rebuild K e ks) r" for r
    using that by (auto simp: lighter_def)
  then show "True \<and> (\<forall>r. lighter (\<lambda>r. True) (rebuild K e ks) r \<longrightarrow> lighter (\<lambda>r. True) e (visit_post V r))"
    using post_lighter by blast
qed (auto simp: lighter_refl)

text \<open>More fuel changes no result.\<close>

definition extends :: "visit_fun \<Rightarrow> visit_fun \<Rightarrow> bool" where
  "extends v w \<longleftrightarrow> (\<forall>e vis x. v e vis = Some x \<longrightarrow> w e vis = Some x)"

lemma visit_kids_extends:
  assumes "extends v w" shows "visit_kids v es vis = Some x \<Longrightarrow> visit_kids w es vis = Some x"
  using assms by (induction es arbitrary: vis x) (fastforce simp: extends_def split: bind_splits)+

lemma visit_children_extends:
  assumes "extends v w" "visit_children K V v e vis = Some x" shows "visit_children K V w e vis = Some x"
  using assms(2) visit_kids_extends [OF assms(1), of "kids e" vis] assms(1)
  by (fastforce simp: visit_children_def extends_def split: bind_splits if_splits)

context constant_visitor
begin

lemma visit_more: "extends (visit n K V) (visit (Suc n) K V)"
proof (induction n)
  case (Suc n)
  have "visitActual K V (visit (Suc n) K V) e vis = Some x" if "visitActual K V (visit n K V) e vis = Some x" for e vis x
    using that visit_children_extends [OF Suc, of K V e vis x]
    by (cases "f e") (auto simp: visitActual_eq simp del: visit.simps split: if_splits)
  then show ?case
    unfolding extends_def visit.simps(2) [of n] visit.simps(2) [of "Suc n"]
    by (auto split: option.splits bind_splits simp del: visit.simps)
qed (simp add: extends_def)

lemma visit_mono:
  assumes "visit n K V e vis = Some x" "n \<le> m" shows "visit m K V e vis = Some x"
  using assms(2)
proof (induction rule: dec_induct)
  case (step k)
  with visit_more [of k] show ?case unfolding extends_def by blast
qed (rule assms(1))

lemma visit_kids_mono:
  assumes "visit_kids (visit n K V) es vis = Some x" "n \<le> m" shows "visit_kids (visit m K V) es vis = Some x"
proof (rule visit_kids_extends [OF _ assms(1)])
  show "extends (visit n K V) (visit m K V)" unfolding extends_def using visit_mono assms(2) by blast
qed

abbreviation table :: "visited \<Rightarrow> bool" where
  "table \<equiv> entries (lighter (\<lambda>r. True)) (\<lambda>e. True)"

lemma visit_result:
  "visit n K V e vis = Some (r, vis') \<Longrightarrow> table vis \<Longrightarrow> lighter (\<lambda>r. True) e r \<and> table vis'"
  by (rule sound_visitD [OF light.visit_sound TrueI])

lemma kids_return:
  assumes "\<And>k vis. k \<in> set es \<Longrightarrow> table vis \<Longrightarrow> \<exists>n x. visit n K V k vis = Some x" "table vis"
  shows "\<exists>n x. visit_kids (visit n K V) es vis = Some x"
  using assms
proof (induction es arbitrary: vis)
  case (Cons e es)
  obtain n1 r v1 where 1: "visit n1 K V e vis = Some (r, v1)" using Cons.prems(1) [of e vis] Cons.prems(2) by auto
  have "table v1" using visit_result [OF 1 Cons.prems(2)] by simp
  then obtain n2 x where 2: "visit_kids (visit n2 K V) es v1 = Some x"
    using Cons.IH [of v1] Cons.prems(1) by auto
  have "visit (max n1 n2) K V e vis = Some (r, v1)" "visit_kids (visit (max n1 n2) K V) es v1 = Some x"
    using visit_mono [OF 1] visit_kids_mono [OF 2] by auto
  then have "visit_kids (visit (max n1 n2) K V) (e # es) vis = Some (r # fst x, snd x)"
    by (cases x) (simp del: visit.simps)
  then show ?case by blast
qed simp

lemma visit_returns: "table vis \<Longrightarrow> \<exists>n x. visit n K V e vis = Some x"
proof (induction e arbitrary: vis rule: wf_induct_rule [OF wf_measures [of "[weight, size]"]])
  case (1 e)
  have kid: "(k, e) \<in> measures [weight, size]" if "k \<in> set (kids e)" for k
    using that by (cases e) auto
  have "\<exists>n x. visitActual K V (visit n K V) e vis = Some x"
  proof (cases "is_constant e \<or> (\<exists>d. f e = ChangeTo d)")
    case False
    then have eq: "visitActual K V v e vis = visit_children K V v e vis" for v
      using no_skip [of e] by (cases "f e") (auto simp: visitActual_eq)
    obtain n ks v1 where n: "visit_kids (visit n K V) (kids e) vis = Some (ks, v1)"
      using kids_return [of "kids e" vis] "1.IH" [OF kid] "1.prems" by auto
    have k: "list_all2 (lighter (\<lambda>r. True)) (kids e) ks" "table v1"
      using light.kids_sound [OF light.visit_sound _ "1.prems" n] by auto
    show ?thesis
    proof (cases "ks \<noteq> kids e \<and> v_recursive V")
      case True
      then have "(rebuild K e ks, e) \<in> measures [weight, size]"
        using rebuild_lighter [OF opt, of "\<lambda>r. True" e ks] k(1) False by simp
      then obtain m x where m: "visit m K V (rebuild K e ks) v1 = Some x" using "1.IH" k(2) by blast
      have "visit (max n m) K V (rebuild K e ks) v1 = Some x" "visit_kids (visit (max n m) K V) (kids e) vis = Some (ks, v1)"
        using visit_mono [OF m] visit_kids_mono [OF n] by auto
      then show ?thesis using True unfolding eq
        by (intro exI [of _ "max n m"]) (cases x, simp add: visit_children_def del: visit.simps)
    next
      case no: False
      then show ?thesis using n unfolding eq
        by (intro exI [of _ n]) (auto simp: visit_children_def simp del: visit.simps)
    qed
  qed (auto simp: visitActual_eq)
  then obtain n x where "visitActual K V (visit n K V) e vis = Some x" by blast
  then have "\<exists>x. visit (Suc n) K V e vis = Some x" by (cases x) (auto split: option.split)
  then show ?case by blast
qed

end

lemma replace_constant_visitor:
  "\<not> ConstArrayOpt K \<Longrightarrow> is_constant dst \<Longrightarrow>
     constant_visitor K (replace_visitor src dst) (\<lambda>e. if e = src then ChangeTo dst else DoChildren)"
  by unfold_locales (auto simp: replace_visitor_def base_visitor_def split: if_splits)

lemma replace2_constant_visitor:
  "\<not> ConstArrayOpt K \<Longrightarrow> (\<And>e d. m e = Some d \<Longrightarrow> is_constant d) \<Longrightarrow>
     constant_visitor K (replace_visitor2 m) (\<lambda>e. DoChildren)"
  by unfold_locales (auto simp: replace_visitor2_def base_visitor_def split: option.splits)

subsection \<open>Adding a constraint\<close>

lemma constraint_cases:
  obtains (Const) c where "e = ConstantExpr c" | (And) l r where "e = BinaryExpr And l r"
    | (Eq) l r where "e = BinaryExpr Eq l r"
    | (Other) "\<not> is_constant e" "\<And>l r. e \<noteq> BinaryExpr And l r" "\<And>l r. e \<noteq> BinaryExpr Eq l r"
  by (metis is_constant_iff)

lemma add_other:
  assumes "\<not> is_constant e" "\<And>l r. e \<noteq> BinaryExpr And l r" "\<And>l r. e \<noteq> BinaryExpr Eq l r"
  shows "addConstraintInternal (Suc n) K rw e cs = Some (Inr (cs @ [e]))"
proof (cases e)
  case (BinaryExpr k l r)
  then show ?thesis by (cases k) (use assms in \<open>auto simp: addConstraintInternal.simps\<close>)
qed (use assms in \<open>auto simp: addConstraintInternal.simps\<close>)

lemmas add_simps = addConstraintInternal.simps(2) [of _ _ _ "ConstantExpr c"] addConstraintInternal.simps(2) [of _ _ _ "BinaryExpr And l r"]
  addConstraintInternal.simps(2) [of _ _ _ "BinaryExpr Eq l r"] for c l r

lemma rewrite_loop_extends:
  assumes "\<And>e cs x. add e cs = Some x \<Longrightarrow> add' e cs = Some x" "extends v w"
  shows "rewrite_loop add v old vis cs = Some x \<Longrightarrow> rewrite_loop add' w old vis cs = Some x"
proof (induction old arbitrary: vis cs)
  case (Cons ce old)
  then obtain e v1 where v: "v ce vis = Some (e, v1)" by (auto split: bind_splits)
  then have w: "w ce vis = Some (e, v1)" using assms(2) by (simp add: extends_def)
  show ?case
  proof (cases "e = ce")
    case False
    with Cons.prems v obtain r where r: "add e cs = Some r" by (auto split: bind_splits)
    with Cons v w False assms(1) [OF r] show ?thesis by (cases r) auto
  qed (use Cons v w in auto)
qed simp

definition total_weight :: "expr list \<Rightarrow> nat" where
  "total_weight cs = (\<Sum>c\<leftarrow>cs. weight c)"

lemma total_weight_simps [simp]:
  "total_weight [] = 0" "total_weight (c # cs) = weight c + total_weight cs"
  "total_weight (cs @ ds) = total_weight cs + total_weight ds"
  by (simp_all add: total_weight_def)

context default_env
begin

lemma add_more: "addConstraintInternal n K rw e cs = Some x \<Longrightarrow> addConstraintInternal (Suc n) K rw e cs = Some x"
proof (induction n arbitrary: e cs x)
  case (Suc n)
  show ?case
  proof (cases e rule: constraint_cases)
    case (And l r)
    with Suc.prems obtain y where y: "addConstraintInternal n K rw l cs = Some y" by (auto simp: add_simps split: bind_splits)
    with And Suc.prems Suc.IH [OF y] Suc.IH [of r] show ?thesis
      by (cases y) (auto simp: add_simps)
  next
    case (Eq l r)
    show ?thesis
    proof (cases "rw \<and> is_constant l")
      case True
      note more = constant_visitor.visit_more [OF replace_constant_visitor [OF no_opt]]
      have "rewriteConstraints (addConstraintInternal (Suc n) K rw) (visit (Suc n) K (replace_visitor r l)) cs = Some y"
        if "rewriteConstraints (addConstraintInternal n K rw) (visit n K (replace_visitor r l)) cs = Some y" for y
        using that True unfolding rewriteConstraints_def by (intro rewrite_loop_extends [OF Suc.IH more]) auto
      with Eq True Suc.prems show ?thesis
        by (auto simp: add_simps simp del: visit.simps split: bind_splits)
    qed (use Eq Suc.prems in \<open>auto simp: add_simps\<close>)
  qed (use Suc.prems in \<open>auto simp: add_simps add_other\<close>)
qed (simp add: addConstraintInternal.simps)

lemma add_mono:
  assumes "addConstraintInternal n K rw e cs = Some x" "n \<le> m" shows "addConstraintInternal m K rw e cs = Some x"
  using assms(2) by (induction rule: dec_induct) (use assms(1) add_more in auto)

lemma add_weight:
  "addConstraintInternal n K rw e cs = Some (Inr cs') \<Longrightarrow> total_weight cs' \<le> total_weight cs + weight e"
proof (induction n arbitrary: e cs cs')
  case (Suc n)
  show ?case
  proof (cases e rule: constraint_cases)
    case (Const c)
    with Suc.prems show ?thesis by (auto simp: add_simps split: if_splits)
  next
    case (And l r)
    with Suc.prems obtain c1 where "addConstraintInternal n K rw l cs = Some (Inr c1)" "addConstraintInternal n K rw r c1 = Some (Inr cs')"
      by (auto simp: add_simps split: bind_splits sum.splits)
    with Suc.IH [of l cs c1] Suc.IH [of r c1 cs'] And show ?thesis by simp
  next
    case (Eq l r)
    show ?thesis
    proof (cases "rw \<and> is_constant l")
      case True
      let ?V = "replace_visitor r l"
      note visit = constant_visitor.visit_result [OF replace_constant_visitor [OF no_opt, of l r], of n]
      have loop: "total_weight ds' \<le> total_weight ds + total_weight old"
        if "rewrite_loop (addConstraintInternal n K rw) (visit n K ?V) old vis ds = Some (Inr ds')"
          "entries (lighter (\<lambda>r. True)) (\<lambda>e. True) vis" for old vis ds ds'
        using that
      proof (induction old arbitrary: vis ds)
        case (Cons ce old)
        then obtain e v1 where v: "visit n K ?V ce vis = Some (e, v1)" by (auto split: bind_splits)
        with visit Cons.prems(2) True have l: "lighter (\<lambda>r. True) ce e" "entries (lighter (\<lambda>r. True)) (\<lambda>e. True) v1" by blast+
        show ?case
        proof (cases "e = ce")
          case False
          with Cons.prems(1) v obtain ds1 where "addConstraintInternal n K rw e ds = Some (Inr ds1)"
            "rewrite_loop (addConstraintInternal n K rw) (visit n K ?V) old v1 ds1 = Some (Inr ds')"
            by (auto split: bind_splits sum.splits)
          with Cons.IH l Suc.IH [of e ds ds1] False show ?thesis by (fastforce simp: lighter_def)
        qed (use Cons v l in fastforce)
      qed simp
      show ?thesis
        using Eq True Suc.prems loop [of cs Map.empty "[]"]
        by (auto simp: add_simps rewriteConstraints_def split: bind_splits sum.splits)
    qed (use Eq Suc.prems in \<open>auto simp: add_simps\<close>)
  qed (use Suc.prems in \<open>auto simp: add_simps add_other\<close>)
qed (simp add: addConstraintInternal.simps)

text \<open>The loop of the rewriting ends when the additions of lighter constraints do.\<close>

lemma rewrite_loop_returns:
  assumes dst: "is_constant l"
    and add: "\<And>e ds. weight e + total_weight ds < m \<Longrightarrow> \<exists>n x. addConstraintInternal n K rw e ds = Some x"
  shows "\<lbrakk>total_weight ds + total_weight old \<le> m; entries (lighter (\<lambda>r. True)) (\<lambda>e. True) vis\<rbrakk> \<Longrightarrow>
    \<exists>n x. rewrite_loop (addConstraintInternal n K rw) (visit n K (replace_visitor r l)) old vis ds = Some x"
proof (induction old arbitrary: vis ds)
  case (Cons ce old)
  let ?V = "replace_visitor r l" and ?loop = "\<lambda>n. rewrite_loop (addConstraintInternal n K rw) (visit n K (replace_visitor r l))"
  note V = replace_constant_visitor [OF no_opt dst, of r]
  obtain n1 e v1 where v: "visit n1 K ?V ce vis = Some (e, v1)"
    using constant_visitor.visit_returns [OF V Cons.prems(2), of ce] by auto
  have l: "lighter (\<lambda>r. True) ce e" "entries (lighter (\<lambda>r. True)) (\<lambda>e. True) v1"
    using constant_visitor.visit_result [OF V v Cons.prems(2)] by auto
  note v' = constant_visitor.visit_mono [OF V v]
  have loop_mono: "?loop k old v1 ds = Some x" if "?loop n old v1 ds = Some x" "n \<le> k" for n k ds x
  proof (rule rewrite_loop_extends [OF _ _ that(1)])
    show "addConstraintInternal k K rw e cs = Some y" if "addConstraintInternal n K rw e cs = Some y" for e cs y
      using that \<open>n \<le> k\<close> by (rule add_mono)
    show "extends (visit n K ?V) (visit k K ?V)"
      unfolding extends_def using constant_visitor.visit_mono [OF V] \<open>n \<le> k\<close> by blast
  qed
  show ?case
  proof (cases "e = ce")
    case True
    obtain n2 x where "?loop n2 old v1 (ds @ [ce]) = Some x"
      using Cons.IH [of "ds @ [ce]" v1] Cons.prems(1) l(2) by auto
    then have "?loop (max n1 n2) old v1 (ds @ [ce]) = Some x" by (rule loop_mono) simp
    then have "?loop (max n1 n2) (ce # old) vis ds = Some x"
      using v' [of "max n1 n2"] True by (simp del: visit.simps)
    then show ?thesis by blast
  next
    case False
    then have lt: "weight e + total_weight ds < m" using l(1) Cons.prems(1) by (auto simp: lighter_def)
    then obtain n2 x where a: "addConstraintInternal n2 K rw e ds = Some x" using add by blast
    show ?thesis
    proof (cases x)
      case (Inl err)
      then have "?loop (max n1 n2) (ce # old) vis ds = Some (Inl err)"
        using v' [OF max.cobounded1] add_mono [OF a max.cobounded2] False by (simp del: visit.simps)
      then show ?thesis by blast
    next
      case (Inr ds')
      have "total_weight ds' + total_weight old \<le> m"
        using add_weight [OF a [unfolded Inr]] l(1) False Cons.prems(1) by (auto simp: lighter_def)
      then obtain n3 y where b: "?loop n3 old v1 ds' = Some y" using Cons.IH l(2) by blast
      define k where "k = max n1 (max n2 n3)"
      have "visit k K ?V ce vis = Some (e, v1)" by (rule v') (simp add: k_def)
      moreover have "addConstraintInternal k K rw e ds = Some (Inr ds')"
        using a unfolding Inr by (rule add_mono) (simp add: k_def)
      moreover have "?loop k old v1 ds' = Some y" using b by (rule loop_mono) (simp add: k_def)
      ultimately have "?loop k (ce # old) vis ds = Some y" using False by (simp del: visit.simps)
      then show ?thesis by blast
    qed
  qed
qed auto

lemma add_returns: "\<exists>n x. addConstraintInternal n K rw e cs = Some x"
proof (induction "(e, cs)" arbitrary: e cs rule: wf_induct_rule [OF wf_measures [of "[\<lambda>(e, cs). weight e + total_weight cs, \<lambda>(e, cs). size e]"]])
  case (1 e cs)
  have smaller: "\<exists>n x. addConstraintInternal n K rw e' ds = Some x"
    if "weight e' + total_weight ds \<le> weight e + total_weight cs"
      "size e' < size e \<or> weight e' + total_weight ds < weight e + total_weight cs" for e' ds
    by (rule "1"(1)) (use that in auto)
  show ?case
  proof (cases e rule: constraint_cases)
    case (Const c)
    then have "\<exists>x. addConstraintInternal (Suc 0) K rw e cs = Some x" by (simp add: add_simps)
    then show ?thesis by blast
  next
    case (And l r)
    then obtain n1 x where a: "addConstraintInternal n1 K rw l cs = Some x" using smaller [of l cs] by (auto simp: le_max_iff_disj)
    show ?thesis
    proof (cases x)
      case (Inl err)
      with And a have "addConstraintInternal (Suc n1) K rw e cs = Some x" by (simp add: add_simps)
      then show ?thesis by blast
    next
      case (Inr c1)
      have "weight l + weight r \<le> weight e" "size r < size e" using And by simp_all
      with add_weight [OF a [unfolded Inr]] obtain n2 y where b: "addConstraintInternal n2 K rw r c1 = Some y"
        using smaller [of r c1] by auto
      have "addConstraintInternal (Suc (max n1 n2)) K rw e cs = Some y"
        using add_mono [OF a, of "max n1 n2"] add_mono [OF b, of "max n1 n2"] And Inr by (simp add: add_simps)
      then show ?thesis by blast
    qed
  next
    case (Eq l r)
    show ?thesis
    proof (cases "rw \<and> is_constant l")
      case True
      have "1 \<le> weight e" using Eq by simp
      then have "\<exists>n x. addConstraintInternal n K rw e' ds = Some x" if "weight e' + total_weight ds < total_weight cs" for e' ds
        using smaller [of e' ds] that by auto
      then obtain n x where "rewrite_loop (addConstraintInternal n K rw) (visit n K (replace_visitor r l)) cs Map.empty [] = Some x"
        using rewrite_loop_returns [of l "total_weight cs" rw "[]" cs Map.empty r] True by auto
      then have "\<exists>y. addConstraintInternal (Suc n) K rw e cs = Some y"
        using True Eq by (cases x) (simp_all add: add_simps rewriteConstraints_def del: visit.simps)
      then show ?thesis by blast
    next
      case False
      with Eq have "addConstraintInternal (Suc 0) K rw e cs = Some (Inr (cs @ [e]))" by (auto simp: add_simps)
      then show ?thesis by blast
    qed
  next
    case Other
    then show ?thesis using add_other by blast
  qed
qed

end

section \<open>Rewriting is right\<close>

text \<open>
  \<open>kept K R P\<close>: the rebuilding of an expression keeps the relation \<open>R\<close>, and the test \<open>P\<close> of divisors survives
  a replacement. Used for the meaning under one assignment with divisors that are not zero there, and for the typing with
  divisors that are literals.
\<close>

definition kept :: "'z expr_env_scheme \<Rightarrow> (expr \<Rightarrow> expr \<Rightarrow> bool) \<Rightarrow> (expr \<Rightarrow> bool) \<Rightarrow> bool" where
  "kept K R P \<longleftrightarrow> (\<forall>e. wt e \<longrightarrow> R e e) \<and> (\<forall>a b c. R a b \<longrightarrow> R b c \<longrightarrow> R a c) \<and> (\<forall>a b. R a b \<longrightarrow> wt b) \<and>
     (\<forall>e ks. wt e \<longrightarrow> div_ok P e \<longrightarrow> list_all2 R (kids e) ks \<longrightarrow> list_all2 (lighter P) (kids e) ks \<longrightarrow> R e (rebuild K e ks)) \<and>
     (\<forall>r r'. P r \<longrightarrow> R r r' \<longrightarrow> lighter P r r' \<longrightarrow> P r')"

locale relating_visitor = constant_visitor K V f + default_env K for K :: "'z expr_env_scheme" and V f +
  fixes R :: "expr \<Rightarrow> expr \<Rightarrow> bool" and P :: "expr \<Rightarrow> bool"
  assumes kept: "kept K R P"
    and change: "wt e \<Longrightarrow> f e = ChangeTo d \<Longrightarrow> R e d"
    and post: "wt e \<Longrightarrow> v_visitExprPost V e = ChangeTo d \<Longrightarrow> R e d"
begin

lemma refl: "wt e \<Longrightarrow> R e e" and trans: "R a b \<Longrightarrow> R b c \<Longrightarrow> R a c" and typed: "R a b \<Longrightarrow> wt b"
  and rebuilt: "\<lbrakk>wt e; div_ok P e; list_all2 R (kids e) ks; list_all2 (lighter P) (kids e) ks\<rbrakk> \<Longrightarrow> R e (rebuild K e ks)"
  and divisor: "P r \<Longrightarrow> R r r' \<Longrightarrow> lighter P r r' \<Longrightarrow> P r'"
  using kept unfolding kept_def by blast+

abbreviation "Q \<equiv> \<lambda>e r. R e r \<and> lighter P e r"
abbreviation "good \<equiv> \<lambda>e. wt e \<and> div_ok P e"

lemma post_related: "Q e x \<Longrightarrow> Q e (visit_post V x)"
  using post_lighter [of P e x] post [of x] typed [of e x] trans [of e x]
  by (cases "v_visitExprPost V x") (auto simp: visit_post_def split: action.split)

lemma good_kids: "good e \<Longrightarrow> k \<in> set (kids e) \<Longrightarrow> good k"
  using wt_kids div_ok_kids by blast

lemma split_related: "list_all2 Q es ks \<Longrightarrow> list_all2 R es ks \<and> list_all2 (lighter P) es ks"
  by (auto simp: list_all2_conv_all_nth)

lemma rebuild_related:
  assumes "good e" "\<not> is_constant e" "list_all2 Q (kids e) ks" "ks \<noteq> kids e"
  shows "R e (rebuild K e ks) \<and> weight (rebuild K e ks) < weight e \<and> good (rebuild K e ks)"
proof -
  have ks: "list_all2 R (kids e) ks" "list_all2 (lighter P) (kids e) ks" using split_related [OF assms(3)] by auto
  have "P (ks ! 1)" if "e = BinaryExpr k l r" "is_div k" for k l r
  proof -
    from that(1) assms(3) obtain l' r' where "ks = [l', r']" "Q r r'" by (auto simp: list_all2_Cons1)
    with that assms(1) divisor [of r r'] show ?thesis by simp
  qed
  then have "weight (rebuild K e ks) < weight e \<and> div_ok P (rebuild K e ks)"
    using assms ks by (intro rebuild_lighter opt) auto
  with rebuilt [OF _ _ ks] typed assms(1) show ?thesis by blast
qed

end

sublocale relating_visitor \<subseteq> related: visitor_laws K V Q good
proof unfold_locales
  fix rec e vis act vis' assume "good e" "\<not> is_constant e" "entries Q good vis" "v_visitExpr V rec e vis = Some (act, vis')"
  then show "entries Q good vis' \<and> (act = SkipChildren \<longrightarrow> Q e e) \<and> (\<forall>e'. act = ChangeTo e' \<longrightarrow> Q e e')"
    using change_lighter to_const change refl by (auto simp: visit_expr lighter_refl)
next
  fix rec e vis vis0 act vis' assume "good e" "entries Q good vis" "v_visitKind V rec e vis = Some (act, vis')"
  then show "entries Q good vis' \<and> (act = SkipChildren \<longrightarrow> Q e e) \<and> (\<forall>e'. act = ChangeTo e' \<longrightarrow> Q e e')"
    by (auto simp: visit_kind)
next
  fix rec e vis vis0 vis' ks assume a: "good e" "\<not> is_constant e" "list_all2 Q (kids e) ks"
  have "Q e (if ks = kids e then e else rebuild K e ks)"
    using rebuild_related [OF a] a(1) refl by (auto simp: lighter_def)
  then show "Q e (visit_post V (if ks = kids e then e else rebuild K e ks))" by (rule post_related)
next
  fix e ks assume a: "good e" "list_all2 Q (kids e) ks" "ks \<noteq> kids e"
  then have "\<not> is_constant e" by (auto simp: is_constant_iff)
  note r = rebuild_related [OF a(1) this a(2,3)]
  have "Q e x" if "Q (rebuild K e ks) x" for x
    using that r trans [of e "rebuild K e ks" x] by (auto simp: lighter_def)
  with r show "good (rebuild K e ks) \<and> (\<forall>r. Q (rebuild K e ks) r \<longrightarrow> Q e (visit_post V r))"
    using post_related by blast
qed (auto simp: refl lighter_refl dest: good_kids wt_kids div_ok_kids)

context relating_visitor
begin

lemma visit_related:
  "visit n K V e vis = Some (r, vis') \<Longrightarrow> good e \<Longrightarrow> entries Q good vis \<Longrightarrow> Q e r \<and> good r \<and> entries Q good vis'"
  using sound_visitD [OF related.visit_sound [of n], of e vis r vis'] typed [of e r] by (auto simp: lighter_def)

end

subsection \<open>The relations\<close>

definition nonzero :: "assignment \<Rightarrow> expr \<Rightarrow> bool" where
  "nonzero \<sigma> r \<longleftrightarrow> eval \<sigma> r \<noteq> 0"

fun literal :: "expr \<Rightarrow> bool" where
  "literal (ConstantExpr c) = (getZExtValue c \<noteq> 0)"
| "literal _ = False"

definition like :: "expr \<Rightarrow> expr \<Rightarrow> bool" where
  "like e e' \<longleftrightarrow> wt e' \<and> getWidth e' = getWidth e"

lemma same_like: "same \<sigma> e e' \<Longrightarrow> like e e'"
  by (simp add: same_def like_def)

lemma literal_unchanged: "literal r \<Longrightarrow> lighter P r r' \<Longrightarrow> r' = r"
  by (cases r) (auto simp: lighter_def)

lemma literal_nonzero: "literal r \<Longrightarrow> eval \<sigma> r \<noteq> 0"
  by (cases r) auto

lemma div_ok_mono: "(\<And>r. P r \<Longrightarrow> Q r) \<Longrightarrow> div_ok P e \<Longrightarrow> div_ok Q e"
  and "(\<And>r. P r \<Longrightarrow> Q r) \<Longrightarrow> div_ok_updates P us \<Longrightarrow> div_ok_updates Q us"
  by (induction e and us) auto

lemma means_refl_kids: "wt e \<Longrightarrow> list_all2 (\<lambda>k k'. means \<sigma> k' (getWidth k) (eval \<sigma> k)) (kids e) (kids e)"
  using wt_kids [of e] by (auto simp: list_all2_same means_def)

lemma zero_assignment: "assign_ok (\<lambda>a i. 0)"
  by (simp add: assign_ok_def)

fun with_kids :: "expr \<Rightarrow> expr list \<Rightarrow> expr" where
  "with_kids (ConstantExpr c) ks = ConstantExpr c"
| "with_kids (NotOptimizedExpr e) ks = NotOptimizedExpr (ks ! 0)"
| "with_kids (ReadExpr a us i) ks = ReadExpr a us (ks ! 0)"
| "with_kids (SelectExpr c t f) ks = SelectExpr (ks ! 0) (ks ! 1) (ks ! 2)"
| "with_kids (ConcatExpr l r) ks = ConcatExpr (ks ! 0) (ks ! 1)"
| "with_kids (ExtractExpr e off w) ks = ExtractExpr (ks ! 0) off w"
| "with_kids (ZExtExpr e w) ks = ZExtExpr (ks ! 0) w"
| "with_kids (SExtExpr e w) ks = SExtExpr (ks ! 0) w"
| "with_kids (NotExpr e) ks = NotExpr (ks ! 0)"
| "with_kids (BinaryExpr k l r) ks = BinaryExpr k (ks ! 0) (ks ! 1)"

lemma with_kids_facts:
  assumes "wt e" "list_all2 like (kids e) ks"
  shows "wt (with_kids e ks) \<and> getWidth (with_kids e ks) = getWidth e \<and> kids (with_kids e ks) = ks \<and>
    rebuild K (with_kids e ks) ks = rebuild K e ks"
  using assms by (cases e) (auto simp: list_all2_Cons1 like_def)

context default_env
begin

lemma rebuild_meaning:
  assumes "assign_ok \<sigma>" "wt e" "div_ok (nonzero \<sigma>) e" "list_all2 (same \<sigma>) (kids e) ks"
  shows "same \<sigma> e (rebuild K e ks)"
proof -
  have "eval \<sigma> r \<noteq> 0" if "e = BinaryExpr k l r" "is_div k" for k l r using assms(3) that by (simp add: nonzero_def)
  with rebuild_make [OF assms(1,2), of ks] assms(4) show ?thesis by (simp add: same_means [abs_def])
qed

lemma rebuild_typing:
  assumes "wt e" "div_ok literal e" "list_all2 like (kids e) ks" "list_all2 (lighter literal) (kids e) ks"
  shows "like e (rebuild K e ks)"
proof -
  let ?e = "with_kids e ks"
  note f = with_kids_facts [OF assms(1,3), of K]
  have "eval (\<lambda>a i. 0) r \<noteq> 0" if b: "?e = BinaryExpr k l r" "is_div k" for k l r
  proof -
    obtain l' r' where e: "e = BinaryExpr k l' r'" using b(1) by (cases e) auto
    with b(1) assms(4) have "lighter literal r' r" by (auto simp: list_all2_Cons1)
    with e b(2) assms(2) literal_unchanged [of r' literal r] literal_nonzero show ?thesis by auto
  qed
  moreover have "list_all2 (\<lambda>k k'. means (\<lambda>a i. 0) k' (getWidth k) (eval (\<lambda>a i. 0) k)) (kids ?e) ks"
    using means_refl_kids [of ?e] f by simp
  ultimately have "means (\<lambda>a i. 0) (rebuild K ?e ks) (getWidth ?e) (eval (\<lambda>a i. 0) ?e)"
    using f by (intro rebuild_make zero_assignment) auto
  with f show ?thesis by (simp add: means_def like_def)
qed

lemma kept_nonzero: "assign_ok \<sigma> \<Longrightarrow> kept K (same \<sigma>) (nonzero \<sigma>)"
  unfolding kept_def using rebuild_meaning [of \<sigma>] same_refl same_trans by (auto simp: same_def nonzero_def)

lemma kept_meaning: "assign_ok \<sigma> \<Longrightarrow> kept K (same \<sigma>) literal"
  unfolding kept_def using rebuild_meaning [OF _ _ div_ok_mono(1) [of literal "nonzero \<sigma>"]] same_refl same_trans literal_unchanged literal_nonzero
  by (auto simp: same_def nonzero_def) blast+

lemma kept_typing: "kept K like literal"
  unfolding kept_def using rebuild_typing literal_unchanged by (auto simp: like_def) blast+

text \<open>The visitor that replaces one expression and the one with a map.\<close>

lemma replace_relating:
  assumes "is_constant dst" "kept K R P" "R src dst"
  shows "relating_visitor K (replace_visitor src dst) (\<lambda>e. if e = src then ChangeTo dst else DoChildren) R P"
  using assms replace_constant_visitor [OF no_opt assms(1), of src]
  by (intro relating_visitor.intro relating_visitor_axioms.intro default_env_axioms)
    (auto simp: replace_visitor_def base_visitor_def split: if_splits)

lemma replace2_relating:
  assumes "\<And>x d. m x = Some d \<Longrightarrow> is_constant d \<and> R x d" "kept K R P"
  shows "relating_visitor K (replace_visitor2 m) (\<lambda>e. DoChildren) R P"
  using assms replace2_constant_visitor [OF no_opt, of m]
  by (intro relating_visitor.intro relating_visitor_axioms.intro default_env_axioms)
    (auto simp: replace_visitor2_def base_visitor_def split: option.splits)

end

subsection \<open>The path condition keeps its meaning\<close>

definition constraint_ok :: "(expr \<Rightarrow> bool) \<Rightarrow> expr \<Rightarrow> bool" where
  "constraint_ok P c \<longleftrightarrow> wt c \<and> getWidth c = 1 \<and> div_ok P c"

text \<open>Constraints that hold and that the rewriting is right on.\<close>

definition satisfied :: "(expr \<Rightarrow> bool) \<Rightarrow> assignment \<Rightarrow> expr list \<Rightarrow> bool" where
  "satisfied P \<sigma> cs \<longleftrightarrow> holds \<sigma> cs \<and> (\<forall>c \<in> set cs. constraint_ok P c)"

lemma satisfied_simps [simp]:
  "satisfied P \<sigma> []" "satisfied P \<sigma> (c # cs) \<longleftrightarrow> eval \<sigma> c = 1 \<and> constraint_ok P c \<and> satisfied P \<sigma> cs"
  "satisfied P \<sigma> (cs @ ds) \<longleftrightarrow> satisfied P \<sigma> cs \<and> satisfied P \<sigma> ds"
  by (auto simp: satisfied_def holds_def)

lemma bv_and_true:
  assumes "inr 1 x" "inr 1 y" shows "bv_bin And 1 x y = 1 \<longleftrightarrow> x = 1 \<and> y = 1"
proof -
  have "x = 0 \<or> x = 1" "y = 0 \<or> y = 1" using assms inr_Suc0D by auto
  then show ?thesis by (elim disjE) (simp_all add: bv_bin_def)
qed

lemma and_true:
  assumes "assign_ok \<sigma>" "wt l" "wt r" "getWidth l = 1" "getWidth r = 1"
  shows "eval \<sigma> (BinaryExpr And l r) = 1 \<longleftrightarrow> eval \<sigma> l = 1 \<and> eval \<sigma> r = 1"
  using bv_and_true eval_inr [OF assms(1,2)] eval_inr [OF assms(1,3)] assms(4,5) by simp

lemma eq_same:
  assumes "wt (BinaryExpr Eq l r)" "eval \<sigma> (BinaryExpr Eq l r) = 1"
  shows "same \<sigma> r l"
  using assms by (auto simp: same_def bv_bin_def split: if_splits)

lemma and_ok: "constraint_ok P (BinaryExpr And l r) \<Longrightarrow> constraint_ok P l \<and> constraint_ok P r"
  by (simp add: constraint_ok_def bv_width_def)

context relating_visitor
begin

lemma visit_ok:
  assumes "visit n K V c vis = Some (r, vis')" "constraint_ok P c" "entries Q good vis" "\<And>a b. R a b \<Longrightarrow> like a b"
  shows "R c r \<and> constraint_ok P r \<and> entries Q good vis'"
  using visit_related [OF assms(1) _ assms(3)] assms(2,4) by (auto simp: constraint_ok_def like_def)

end

text \<open>The loop of the rewriting, when the additions do what the property says.\<close>

context default_env
begin

lemma loop_keeps:
  assumes \<sigma>: "kept K (same \<sigma>) P" and dst: "is_constant l" "same \<sigma> r l"
    and add: "\<And>e ds x. \<lbrakk>addConstraintInternal n K rw e ds = Some x; satisfied P \<sigma> (e # ds)\<rbrakk> \<Longrightarrow> \<exists>ds'. x = Inr ds' \<and> satisfied P \<sigma> ds'"
  shows "\<lbrakk>rewrite_loop (addConstraintInternal n K rw) (visit n K (replace_visitor r l)) old vis ds = Some x;
      entries (\<lambda>e r. same \<sigma> e r \<and> lighter P e r) (\<lambda>e. wt e \<and> div_ok P e) vis; satisfied P \<sigma> (old @ ds)\<rbrakk> \<Longrightarrow>
    \<exists>ds'. x = Inr ds' \<and> satisfied P \<sigma> ds'"
proof (induction old arbitrary: vis ds)
  case (Cons ce old)
  then obtain e v1 where v: "visit n K (replace_visitor r l) ce vis = Some (e, v1)" by (auto split: bind_splits)
  have e: "same \<sigma> ce e" "constraint_ok P e" "entries (\<lambda>e r. same \<sigma> e r \<and> lighter P e r) (\<lambda>e. wt e \<and> div_ok P e) v1"
    using relating_visitor.visit_ok [OF replace_relating [OF dst(1) \<sigma> dst(2)] v _ _ same_like] Cons.prems(2,3) by auto
  then have h: "satisfied P \<sigma> (e # ds)" using Cons.prems(3) by (simp add: same_def)
  show ?case
  proof (cases "e = ce")
    case False
    with Cons.prems(1) v obtain y where y: "addConstraintInternal n K rw e ds = Some y" by (auto split: bind_splits)
    obtain ds' where ds': "y = Inr ds'" "satisfied P \<sigma> ds'" using add [OF y h] by blast
    with Cons.prems(1) v y False have "rewrite_loop (addConstraintInternal n K rw) (visit n K (replace_visitor r l)) old v1 ds' = Some x"
      by simp
    from Cons.IH [OF this e(3)] ds' Cons.prems(3) show ?thesis by simp
  next
    case True
    with Cons.prems(1) v have "rewrite_loop (addConstraintInternal n K rw) (visit n K (replace_visitor r l)) old v1 (ds @ [ce]) = Some x"
      by simp
    from Cons.IH [OF this e(3)] Cons.prems(3) show ?thesis by simp
  qed
qed auto

lemma add_keeps:
  assumes ok: "assign_ok \<sigma>" and \<sigma>: "kept K (same \<sigma>) P"
  shows "\<lbrakk>addConstraintInternal n K rw e cs = Some x; satisfied P \<sigma> (e # cs)\<rbrakk> \<Longrightarrow> \<exists>cs'. x = Inr cs' \<and> satisfied P \<sigma> cs'"
proof (induction n arbitrary: e cs x)
  case (Suc n)
  have e: "constraint_ok P e" "eval \<sigma> e = 1" and cs: "satisfied P \<sigma> cs" using Suc.prems(2) by auto
  show ?case
  proof (cases e rule: constraint_cases)
    case (Const c)
    with e have "ap_isTrue c" by (simp add: constraint_ok_def ap_isTrue_def)
    with Const Suc.prems(1) cs show ?thesis by (auto simp: add_simps)
  next
    case (And l r)
    with e and_ok [of P l r] have lr: "constraint_ok P l" "constraint_ok P r" by auto
    with e And and_true [OF ok, of l r] have t: "eval \<sigma> l = 1" "eval \<sigma> r = 1" by (auto simp: constraint_ok_def simp del: eval.simps)
    from And Suc.prems(1) obtain y where y: "addConstraintInternal n K rw l cs = Some y" by (auto simp: add_simps split: bind_splits)
    from Suc.IH [OF this] lr(1) t(1) cs obtain c1 where c1: "y = Inr c1" "satisfied P \<sigma> c1" by auto
    with And Suc.prems(1) y have "addConstraintInternal n K rw r c1 = Some x" by (simp add: add_simps)
    from Suc.IH [OF this] lr(2) t(2) c1 show ?thesis by simp
  next
    case (Eq l r)
    show ?thesis
    proof (cases "rw \<and> is_constant l")
      case True
      with Eq Suc.prems(1) obtain y where
        y: "rewrite_loop (addConstraintInternal n K rw) (visit n K (replace_visitor r l)) cs Map.empty [] = Some y"
        and x: "x = (case y of Inl err \<Rightarrow> Inl err | Inr cs \<Rightarrow> Inr (cs @ [e]))"
        by (auto simp: add_simps rewriteConstraints_def split: bind_splits sum.splits)
      have "same \<sigma> r l" using eq_same [of l r \<sigma>] e Eq by (simp add: constraint_ok_def del: eval.simps)
      from True have "is_constant l" ..
      have "\<exists>ds'. y = Inr ds' \<and> satisfied P \<sigma> ds'"
        by (rule loop_keeps [OF \<sigma> \<open>is_constant l\<close> \<open>same \<sigma> r l\<close> _ y]) (erule (1) Suc.IH, use cs in simp_all)
      then obtain c1 where "y = Inr c1" "satisfied P \<sigma> c1" by blast
      with x e show ?thesis by simp
    qed (use Eq Suc.prems e cs in \<open>auto simp: add_simps\<close>)
  next
    case Other
    with Suc.prems e cs show ?thesis by (auto simp: add_other)
  qed
qed (simp add: addConstraintInternal.simps)

text \<open>Whatever the assignment, the constraints stay well typed when divisors are literals.\<close>

lemma loop_typed:
  assumes dst: "is_constant l" "like r l"
    and add: "\<And>e ds ds'. \<lbrakk>addConstraintInternal n K rw e ds = Some (Inr ds'); \<forall>c \<in> set (e # ds). constraint_ok literal c\<rbrakk> \<Longrightarrow>
      \<forall>c \<in> set ds'. constraint_ok literal c"
  shows "\<lbrakk>rewrite_loop (addConstraintInternal n K rw) (visit n K (replace_visitor r l)) old vis ds = Some (Inr ds');
      entries (\<lambda>e r. like e r \<and> lighter literal e r) (\<lambda>e. wt e \<and> div_ok literal e) vis;
      \<forall>c \<in> set (old @ ds). constraint_ok literal c\<rbrakk> \<Longrightarrow> \<forall>c \<in> set ds'. constraint_ok literal c"
proof (induction old arbitrary: vis ds)
  case (Cons ce old)
  then obtain e v1 where v: "visit n K (replace_visitor r l) ce vis = Some (e, v1)" by (auto split: bind_splits)
  have e: "constraint_ok literal e" "entries (\<lambda>e r. like e r \<and> lighter literal e r) (\<lambda>e. wt e \<and> div_ok literal e) v1"
    using relating_visitor.visit_ok [OF replace_relating [OF dst(1) kept_typing dst(2)] v] Cons.prems(2,3) by auto
  show ?case
  proof (cases "e = ce")
    case False
    with Cons.prems(1) v obtain c1 where c1: "addConstraintInternal n K rw e ds = Some (Inr c1)"
      and rest: "rewrite_loop (addConstraintInternal n K rw) (visit n K (replace_visitor r l)) old v1 c1 = Some (Inr ds')"
      by (auto split: bind_splits sum.splits)
    have "\<forall>c \<in> set c1. constraint_ok literal c" using add [OF c1] e(1) Cons.prems(3) by simp
    with Cons.IH [OF rest e(2)] Cons.prems(3) show ?thesis by auto
  next
    case True
    with Cons.prems(1) v have "rewrite_loop (addConstraintInternal n K rw) (visit n K (replace_visitor r l)) old v1 (ds @ [ce]) = Some (Inr ds')"
      by simp
    from Cons.IH [OF this e(2)] Cons.prems(3) show ?thesis by auto
  qed
qed auto

lemma add_typed:
  "\<lbrakk>addConstraintInternal n K rw e cs = Some (Inr cs'); \<forall>c \<in> set (e # cs). constraint_ok literal c\<rbrakk> \<Longrightarrow>
    \<forall>c \<in> set cs'. constraint_ok literal c"
proof (induction n arbitrary: e cs cs')
  case (Suc n)
  show ?case
  proof (cases e rule: constraint_cases)
    case (And l r)
    with Suc.prems(2) and_ok [of literal l r] have lr: "constraint_ok literal l" "constraint_ok literal r" by auto
    from And Suc.prems(1) obtain c1 where c1: "addConstraintInternal n K rw l cs = Some (Inr c1)" "addConstraintInternal n K rw r c1 = Some (Inr cs')"
      by (auto simp: add_simps split: bind_splits sum.splits)
    have "\<forall>c \<in> set (l # cs). constraint_ok literal c" using lr(1) Suc.prems(2) by simp
    from Suc.IH [OF c1(1) this] lr(2) have "\<forall>c \<in> set (r # c1). constraint_ok literal c" by simp
    from Suc.IH [OF c1(2) this] show ?thesis .
  next
    case (Eq l r)
    show ?thesis
    proof (cases "rw \<and> is_constant l")
      case True
      with Eq Suc.prems(1) obtain c1 where
        c1: "rewrite_loop (addConstraintInternal n K rw) (visit n K (replace_visitor r l)) cs Map.empty [] = Some (Inr c1)" "cs' = c1 @ [e]"
        by (auto simp: add_simps rewriteConstraints_def split: bind_splits sum.splits)
      have "like r l" using Eq Suc.prems(2) by (simp add: constraint_ok_def like_def)
      from True have "is_constant l" ..
      have "\<forall>c \<in> set c1. constraint_ok literal c"
        by (rule loop_typed [OF \<open>is_constant l\<close> \<open>like r l\<close> _ c1(1)]) (erule (1) Suc.IH, use Suc.prems(2) in simp_all)
      with c1(2) Suc.prems(2) show ?thesis by simp
    qed (use Eq Suc.prems in \<open>auto simp: add_simps\<close>)
  qed (use Suc.prems in \<open>auto simp: add_simps add_other split: if_splits\<close>)
qed (simp add: addConstraintInternal.simps)

text \<open>No assignment is gained.\<close>

lemma loop_reflects:
  assumes \<sigma>: "assign_ok \<sigma>" and dst: "is_constant l" "same \<sigma> r l"
    and add: "\<And>e ds ds'. \<lbrakk>addConstraintInternal n K rw e ds = Some (Inr ds'); \<forall>c \<in> set (e # ds). constraint_ok literal c; holds \<sigma> ds'\<rbrakk> \<Longrightarrow>
      holds \<sigma> (e # ds)"
  shows "\<lbrakk>rewrite_loop (addConstraintInternal n K rw) (visit n K (replace_visitor r l)) old vis ds = Some (Inr ds');
      entries (\<lambda>e r. same \<sigma> e r \<and> lighter literal e r) (\<lambda>e. wt e \<and> div_ok literal e) vis;
      \<forall>c \<in> set (old @ ds). constraint_ok literal c; holds \<sigma> ds'\<rbrakk> \<Longrightarrow> holds \<sigma> (old @ ds)"
proof (induction old arbitrary: vis ds)
  case (Cons ce old)
  then obtain e v1 where v: "visit n K (replace_visitor r l) ce vis = Some (e, v1)" by (auto split: bind_splits)
  have e: "same \<sigma> ce e" "constraint_ok literal e" "entries (\<lambda>e r. same \<sigma> e r \<and> lighter literal e r) (\<lambda>e. wt e \<and> div_ok literal e) v1"
    using relating_visitor.visit_ok [OF replace_relating [OF dst(1) kept_meaning [OF \<sigma>] dst(2)] v _ _ same_like] Cons.prems(2,3) by auto
  show ?case
  proof (cases "e = ce")
    case False
    with Cons.prems(1) v obtain c1 where c1: "addConstraintInternal n K rw e ds = Some (Inr c1)"
      and rest: "rewrite_loop (addConstraintInternal n K rw) (visit n K (replace_visitor r l)) old v1 c1 = Some (Inr ds')"
      by (auto split: bind_splits sum.splits)
    have ok: "\<forall>c \<in> set (e # ds). constraint_ok literal c" using e(2) Cons.prems(3) by simp
    have "holds \<sigma> (old @ c1)" using Cons.IH [OF rest e(3)] add_typed [OF c1 ok] Cons.prems(3,4) by auto
    with add [OF c1 ok] e(1) show ?thesis by (auto simp: holds_def same_def)
  next
    case True
    with Cons.prems(1) v have "rewrite_loop (addConstraintInternal n K rw) (visit n K (replace_visitor r l)) old v1 (ds @ [ce]) = Some (Inr ds')"
      by simp
    from Cons.IH [OF this e(3)] Cons.prems(3,4) show ?thesis by (auto simp: holds_def)
  qed
qed (auto simp: holds_def)

lemma add_reflects:
  assumes \<sigma>: "assign_ok \<sigma>"
  shows "\<lbrakk>addConstraintInternal n K rw e cs = Some (Inr cs'); \<forall>c \<in> set (e # cs). constraint_ok literal c; holds \<sigma> cs'\<rbrakk> \<Longrightarrow> holds \<sigma> (e # cs)"
proof (induction n arbitrary: e cs cs')
  case (Suc n)
  show ?case
  proof (cases e rule: constraint_cases)
    case (Const c)
    with Suc.prems have "getBitWidth c = 1" "wf_ap c" "getZExtValue c \<noteq> 0" "cs' = cs"
      by (auto simp: constraint_ok_def add_simps ap_isTrue_def split: if_splits)
    then show ?thesis using Const Suc.prems(3) inr_Suc0D [of "getZExtValue c"] by (auto simp: holds_def wf_ap_def)
  next
    case (And l r)
    with Suc.prems(2) and_ok [of literal l r] have lr: "constraint_ok literal l" "constraint_ok literal r" by auto
    from And Suc.prems(1) obtain c1 where c1: "addConstraintInternal n K rw l cs = Some (Inr c1)" "addConstraintInternal n K rw r c1 = Some (Inr cs')"
      by (auto simp: add_simps split: bind_splits sum.splits)
    have ok: "\<forall>c \<in> set (l # cs). constraint_ok literal c" using lr Suc.prems(2) by simp
    have "\<forall>c \<in> set (r # c1). constraint_ok literal c" using add_typed [OF c1(1) ok] lr(2) by simp
    from Suc.IH [OF c1(2) this Suc.prems(3)] have r: "holds \<sigma> (r # c1)" .
    then have "holds \<sigma> c1" by (simp add: holds_def)
    from Suc.IH [OF c1(1) ok this] r show ?thesis
      using and_true [OF \<sigma>, of l r] lr And by (simp add: holds_def constraint_ok_def del: eval.simps)
  next
    case (Eq l r)
    show ?thesis
    proof (cases "rw \<and> is_constant l")
      case True
      with Eq Suc.prems(1) obtain c1 where
        c1: "rewrite_loop (addConstraintInternal n K rw) (visit n K (replace_visitor r l)) cs Map.empty [] = Some (Inr c1)" "cs' = c1 @ [e]"
        by (auto simp: add_simps rewriteConstraints_def split: bind_splits sum.splits)
      have h: "eval \<sigma> e = 1" "holds \<sigma> c1" using Suc.prems(3) c1(2) by (auto simp: holds_def)
      then have "same \<sigma> r l" using eq_same [of l r \<sigma>] Suc.prems(2) Eq by (simp add: constraint_ok_def del: eval.simps)
      from True have "is_constant l" ..
      have "holds \<sigma> (cs @ [])"
        by (rule loop_reflects [OF \<sigma> \<open>is_constant l\<close> \<open>same \<sigma> r l\<close> _ c1(1)]) (erule (2) Suc.IH, use Suc.prems(2) h(2) in simp_all)
      with h(1) show ?thesis by (simp add: holds_def)
    qed (use Eq Suc.prems in \<open>auto simp: add_simps holds_def\<close>)
  qed (use Suc.prems in \<open>auto simp: add_other holds_def\<close>)
qed (simp add: addConstraintInternal.simps)

text \<open>\<open>simplifyExpr\<close> under constraints that hold.\<close>

lemma equalities_from:
  "equalities K cs x = Some d \<Longrightarrow> \<exists>c \<in> set cs. equality_of K c = (x, d)"
proof (induction cs arbitrary: x d rule: rev_induct)
  case (snoc c cs)
  then show ?case by (auto simp: equalities_def Let_def split: prod.splits if_splits)
qed (simp add: equalities_def)

lemma equality_constant: "equality_of K c = (x, d) \<Longrightarrow> is_constant d"
  by (auto simp: equality_of_def split: expr.splits binop.splits if_splits)

lemma true_const: "wt (ConstantExpr (ConstantExpr_alloc K 1 1))" "getWidth (ConstantExpr (ConstantExpr_alloc K 1 1)) = 1"
  "eval \<sigma> (ConstantExpr (ConstantExpr_alloc K 1 1)) = 1"
  by (simp_all add: wf_ap_def inr_def)

lemma equality_cases:
  assumes "equality_of K c = (x, d)"
  shows "x = c \<and> d = ConstantExpr (ConstantExpr_alloc K 1 1) \<or> c = BinaryExpr Eq d x"
  using assms by (auto simp: equality_of_def split: expr.splits binop.splits if_splits)

lemma equality_same:
  assumes "equality_of K c = (x, d)" "constraint_ok P c" "eval \<sigma> c = 1"
  shows "same \<sigma> x d"
  using equality_cases [OF assms(1)] assms(2,3) true_const eq_same [of d x \<sigma>]
  by (auto simp: same_def constraint_ok_def simp del: eval.simps alloc)

lemma equality_like:
  assumes "equality_of K c = (x, d)" "constraint_ok P c" shows "like x d"
  using equality_cases [OF assms(1)] assms(2) true_const
  by (auto simp: like_def constraint_ok_def simp del: alloc)

lemma simplify_related:
  assumes "simplifyExpr n K cs e = Some r" "kept K R P" "wt e" "div_ok P e" "\<And>x d. equalities K cs x = Some d \<Longrightarrow> R x d"
  shows "R e r \<and> lighter P e r \<and> wt r \<and> div_ok P r"
proof (cases "is_constant e")
  case True
  with assms(1-4) show ?thesis by (auto simp: simplifyExpr_def kept_def lighter_refl)
next
  case False
  with assms(1) obtain vis' where v: "visit n K (replace_visitor2 (equalities K cs)) e Map.empty = Some (r, vis')"
    by (auto simp: simplifyExpr_def)
  have "is_constant d \<and> R x d" if "equalities K cs x = Some d" for x d
    using assms(5) [OF that] equalities_from [OF that] equality_constant by blast
  from relating_visitor.visit_related [OF replace2_relating [OF this assms(2)] v] assms(3,4) show ?thesis by simp
qed

lemma simplify_returns: "\<exists>n r. \<forall>m \<ge> n. simplifyExpr m K cs e = Some r"
proof (cases "is_constant e")
  case False
  have V: "constant_visitor K (replace_visitor2 (equalities K cs)) (\<lambda>e. DoChildren)"
    by (rule replace2_constant_visitor [OF no_opt]) (use equalities_from equality_constant in blast)
  obtain n r vis where v: "visit n K (replace_visitor2 (equalities K cs)) e Map.empty = Some (r, vis)"
    using constant_visitor.visit_returns [OF V entries_empty, where e = e] by auto
  from constant_visitor.visit_mono [OF V this] False show ?thesis
    by (intro exI [of _ n] exI [of _ r]) (auto simp: simplifyExpr_def simp del: visit.simps)
qed (simp add: simplifyExpr_def)

lemma simplify_same:
  assumes "simplifyExpr n K cs e = Some r" "assign_ok \<sigma>" "satisfied (nonzero \<sigma>) \<sigma> cs" "wt e" "div_ok (nonzero \<sigma>) e"
  shows "same \<sigma> e r \<and> div_ok (nonzero \<sigma>) r"
proof -
  have "same \<sigma> x d" if "equalities K cs x = Some d" for x d
    using equalities_from [OF that] equality_same [of _ x d "nonzero \<sigma>" \<sigma>] assms(3) by (auto simp: satisfied_def holds_def)
  from simplify_related [OF assms(1) kept_nonzero [OF assms(2)] assms(4,5) this] show ?thesis by simp
qed

lemma simplify_like:
  assumes "simplifyExpr n K cs e = Some r" "\<forall>c \<in> set cs. constraint_ok literal c" "wt e" "div_ok literal e"
  shows "like e r \<and> div_ok literal r"
proof -
  have "like x d" if "equalities K cs x = Some d" for x d
    using equalities_from [OF that] equality_like [of _ x d literal] assms(2) by auto
  from simplify_related [OF assms(1) kept_typing assms(3,4) this] show ?thesis by simp
qed

end

section \<open>Properties\<close>

lemma constraint_ok_literal: "constraint_ok literal c \<Longrightarrow> constraint_ok (nonzero \<sigma>) c"
  using div_ok_mono(1) [of literal "nonzero \<sigma>" c] literal_nonzero by (auto simp: constraint_ok_def nonzero_def)

context default_env
begin

lemma add_constraint_returns: "\<exists>n x. \<forall>m \<ge> n. addConstraint m K rw e cs = Some x"
proof -
  obtain n1 r where r: "\<forall>m \<ge> n1. simplifyExpr m K cs e = Some r" using simplify_returns by blast
  obtain n2 x where x: "addConstraintInternal n2 K rw r cs = Some x" using add_returns by blast
  have "\<forall>m \<ge> max n1 n2. addConstraint m K rw e cs = Some x"
    using r add_mono [OF x] by (auto simp: addConstraint_def)
  then show ?thesis by blast
qed

lemma add_constraint_keeps:
  assumes "addConstraint n K rw e cs = Some x" "assign_ok \<sigma>" "\<forall>c \<in> set (e # cs). constraint_ok (nonzero \<sigma>) c" "holds \<sigma> (e # cs)"
  shows "\<exists>cs'. x = Inr cs' \<and> holds \<sigma> cs' \<and> (\<forall>c \<in> set cs'. constraint_ok (nonzero \<sigma>) c)"
proof -
  from assms(1) obtain r where r: "simplifyExpr n K cs e = Some r" "addConstraintInternal n K rw r cs = Some x"
    by (auto simp: addConstraint_def split: bind_splits)
  have s: "satisfied (nonzero \<sigma>) \<sigma> cs" "constraint_ok (nonzero \<sigma>) e" "eval \<sigma> e = 1"
    using assms(3,4) by (auto simp: satisfied_def holds_def)
  have "same \<sigma> e r \<and> div_ok (nonzero \<sigma>) r"
    using simplify_same [OF r(1) assms(2) s(1)] s(2) by (auto simp: constraint_ok_def)
  then have "satisfied (nonzero \<sigma>) \<sigma> (r # cs)" using s by (simp add: same_def constraint_ok_def)
  from add_keeps [OF assms(2) kept_nonzero [OF assms(2)] r(2) this] show ?thesis by (auto simp: satisfied_def)
qed

lemma add_constraint_reflects:
  assumes "addConstraint n K rw e cs = Some (Inr cs')" "assign_ok \<sigma>" "\<forall>c \<in> set (e # cs). constraint_ok literal c"
  shows "(holds \<sigma> cs' \<longrightarrow> holds \<sigma> (e # cs)) \<and> (\<forall>c \<in> set cs'. constraint_ok literal c)"
proof -
  from assms(1) obtain r where r: "simplifyExpr n K cs e = Some r" "addConstraintInternal n K rw r cs = Some (Inr cs')"
    by (auto simp: addConstraint_def split: bind_splits)
  have "like e r \<and> div_ok literal r" using simplify_like [OF r(1)] assms(3) by (simp add: constraint_ok_def)
  then have ok: "\<forall>c \<in> set (r # cs). constraint_ok literal c" using assms(3) by (simp add: constraint_ok_def like_def)
  have "holds \<sigma> (e # cs)" if "holds \<sigma> cs'"
  proof -
    have h: "holds \<sigma> (r # cs)" using add_reflects [OF assms(2) r(2) ok that] .
    then have "satisfied (nonzero \<sigma>) \<sigma> cs"
      using assms(3) constraint_ok_literal by (auto simp: satisfied_def holds_def)
    moreover have "constraint_ok (nonzero \<sigma>) e" using assms(3) constraint_ok_literal by simp
    ultimately have "same \<sigma> e r" using simplify_same [OF r(1) assms(2)] by (simp add: constraint_ok_def)
    with h show ?thesis by (simp add: holds_def same_def)
  qed
  with add_typed [OF r(2) ok] show ?thesis by blast
qed

end

text \<open>C37: \<^verbatim>\<open>ConstraintManager::addConstraint\<close> returns, whatever equalities the new constraint uncovers, and the path
  condition keeps its meaning: an assignment that satisfies the old constraints and the new one (and makes no divisor
  zero) satisfies the new list, and the assertion does not fail when there is one; where divisors are literals, the new
  list has no other solutions.\<close>

theorem constraints_kept:
  assumes "default_env K"
  shows "\<exists>n x. (\<forall>m \<ge> n. addConstraint m K rw e cs = Some x) \<and>
    (\<forall>\<sigma>. assign_ok \<sigma> \<and> (\<forall>c \<in> set (e # cs). constraint_ok (nonzero \<sigma>) c) \<and> holds \<sigma> (e # cs) \<longrightarrow>
      (\<exists>cs'. x = Inr cs' \<and> holds \<sigma> cs')) \<and>
    ((\<forall>c \<in> set (e # cs). constraint_ok literal c) \<longrightarrow>
      (\<forall>\<sigma> cs'. assign_ok \<sigma> \<and> x = Inr cs' \<and> holds \<sigma> cs' \<longrightarrow> holds \<sigma> (e # cs)))"
proof -
  obtain n x where x: "\<forall>m \<ge> n. addConstraint m K rw e cs = Some x"
    using default_env.add_constraint_returns [OF assms] by blast
  then have a: "addConstraint n K rw e cs = Some x" by blast
  note keeps = default_env.add_constraint_keeps [OF assms a]
    and reflects = default_env.add_constraint_reflects [OF assms, of n rw e cs]
  show ?thesis
  proof (intro exI [of _ n] exI [of _ x] conjI x impI allI)
    fix \<sigma> assume "assign_ok \<sigma> \<and> (\<forall>c \<in> set (e # cs). constraint_ok (nonzero \<sigma>) c) \<and> holds \<sigma> (e # cs)"
    then show "\<exists>cs'. x = Inr cs' \<and> holds \<sigma> cs'" using keeps by blast
  next
    fix \<sigma> cs' assume ok: "\<forall>c \<in> set (e # cs). constraint_ok literal c" and s: "assign_ok \<sigma> \<and> x = Inr cs' \<and> holds \<sigma> cs'"
    then have "addConstraint n K rw e cs = Some (Inr cs')" using a by simp
    from reflects [OF this _ ok] s show "holds \<sigma> (e # cs)" by blast
  qed
qed

definition sample_order :: expr where
  "sample_order = BinaryExpr Ult (rd 1) (rd 2)"

definition sample_equality :: expr where
  "sample_equality = BinaryExpr Eq (ConstantExpr (APInt 8 4)) (rd 1)"

theorem constraints_kept_witness:
  "\<exists>n cs'. addConstraint n (std_env False) True sample_equality [sample_order] = Some (Inr cs') \<and> holds seq_assignment cs'"
proof -
  have "\<forall>c \<in> set [sample_equality, sample_order]. constraint_ok (nonzero seq_assignment) c"
    by (simp add: constraint_ok_def sample_equality_def sample_order_def bv_width_def inr_def)
  moreover have "holds seq_assignment [sample_equality, sample_order]"
    by (simp add: holds_def sample_equality_def sample_order_def bv_bin_def take_bit_eq_mod del: eval.simps(3))
  moreover obtain n x where x: "\<forall>m \<ge> n. addConstraint m (std_env False) True sample_equality [sample_order] = Some x"
    "\<forall>\<sigma>. assign_ok \<sigma> \<and> (\<forall>c \<in> set [sample_equality, sample_order]. constraint_ok (nonzero \<sigma>) c) \<and>
      holds \<sigma> [sample_equality, sample_order] \<longrightarrow> (\<exists>cs'. x = Inr cs' \<and> holds \<sigma> cs')"
    using constraints_kept [OF std_d.default_env_axioms, of True sample_equality "[sample_order]"] by (elim exE conjE) (rule that)
  ultimately obtain cs' where "x = Inr cs'" "holds seq_assignment cs'"
    using x(2) [rule_format, OF conjI [OF seq_assign_ok conjI]] by blast
  moreover have "addConstraint n (std_env False) True sample_equality [sample_order] = Some x" using x(1) by blast
  ultimately show ?thesis by blast
qed

end
