(* ===== verification/AddressSpace.thy ===== *)
theory AddressSpace
  imports ObjectAccess ImmutableTree Solvers
begin

section \<open>Address spaces (lib/Core/AddressSpace.cpp, Memory.h)\<close>

text \<open>
  An execution state owns an address space: a persistent map from memory objects, ordered by address, to
  object states. Forked states share the object states; \<^verbatim>\<open>copyOnWriteOwner\<close> and \<^verbatim>\<open>cowKey\<close>, 32-bit counters,
  decide whether a state may write to one in place. A pointer to an object state is an index into a heap
  that all states share. A result \<open>None\<close> is a failed assertion or an access out of bounds.
\<close>

record object_cell =
  cell_state :: object_state
  copyOnWriteOwner :: "32 word"

type_synonym cells = "object_cell list"
type_synonym memory_map = "(memory_object \<times> nat) node"

record address_space =
  cowKey :: "32 word"
  objects :: memory_map

abbreviation by_address :: "(memory_object, memory_object \<times> nat) tree_ops" where
  "by_address \<equiv> map_ops MemoryObjectLT"

subsection \<open>Bindings\<close>

definition new_space :: address_space where
  "new_space = \<lparr>cowKey = 1, objects = Terminator\<rparr>"

text \<open>The copy constructor takes the next key for the new space and for the one that is copied.\<close>

definition copy_space :: "address_space \<Rightarrow> address_space \<times> address_space" where
  "copy_space b = (let b' = b\<lparr>cowKey := cowKey b + 1\<rparr> in (b', \<lparr>cowKey = cowKey b', objects = objects b'\<rparr>))"

definition bindObject :: "memory_object \<Rightarrow> nat \<Rightarrow> address_space \<times> cells \<Rightarrow> (address_space \<times> cells) option" where
  "bindObject mo os st =
     (case st of (A, H) \<Rightarrow>
        if copyOnWriteOwner (H ! os) \<noteq> 0 then None
        else Some (A\<lparr>objects := tree_replace by_address (mo, os) (objects A)\<rparr>,
          H[os := (H ! os)\<lparr>copyOnWriteOwner := cowKey A\<rparr>]))"

definition unbindObject :: "memory_object \<Rightarrow> address_space \<Rightarrow> address_space" where
  "unbindObject mo A = A\<lparr>objects := tree_remove by_address mo (objects A)\<rparr>"

definition findObject :: "address_space \<Rightarrow> memory_object \<Rightarrow> nat option" where
  "findObject A mo = map_option snd (tree_lookup by_address mo (objects A))"

definition getWriteable ::
  "memory_object \<Rightarrow> nat \<Rightarrow> address_space \<times> cells \<Rightarrow> (nat \<times> address_space \<times> cells) option" where
  "getWriteable mo os st =
     (case st of (A, H) \<Rightarrow>
        if readOnly (cell_state (H ! os)) then None
        else if cowKey A = copyOnWriteOwner (H ! os) then Some (os, A, H)
        else do {
          S \<leftarrow> copy_state (cell_state (H ! os));
          let n = length H;
          Some (n, A\<lparr>objects := tree_replace by_address (mo, n) (objects A)\<rparr>,
            H @ [\<lparr>cell_state = S, copyOnWriteOwner = cowKey A\<rparr>]) })"

subsection \<open>Bounds checks\<close>

definition getBaseExpr :: "'z mem_env_scheme \<Rightarrow> memory_object \<Rightarrow> expr option" where
  "getBaseExpr K mo = ConstantExpr_create K (mo_address mo) (pointerWidth K)"

definition getSizeExpr :: "'z mem_env_scheme \<Rightarrow> memory_object \<Rightarrow> expr option" where
  "getSizeExpr K mo = ConstantExpr_create K (ucast (mo_size mo)) (pointerWidth K)"

definition getOffsetExpr :: "'z mem_env_scheme \<Rightarrow> memory_object \<Rightarrow> expr \<Rightarrow> expr option" where
  "getOffsetExpr K mo pointer = do { b \<leftarrow> getBaseExpr K mo; Some (Binary_make K Sub pointer b) }"

definition getBoundsCheckOffset :: "'z mem_env_scheme \<Rightarrow> memory_object \<Rightarrow> expr \<Rightarrow> expr option" where
  "getBoundsCheckOffset K mo offset =
     (if mo_size mo = 0 then Some (Binary_make K Eq offset (ConstantExpr (ConstantExpr_alloc K 0 (pointerWidth K))))
      else do { n \<leftarrow> getSizeExpr K mo; Some (Binary_make K Ult offset n) })"

definition getBoundsCheckOffset_bytes :: "'z mem_env_scheme \<Rightarrow> memory_object \<Rightarrow> expr \<Rightarrow> 32 word \<Rightarrow> expr" where
  "getBoundsCheckOffset_bytes K mo offset bytes =
     (if bytes \<le> mo_size mo
      then Binary_make K Ult offset
        (ConstantExpr (ConstantExpr_alloc K (uint (mo_size mo - bytes + 1)) (pointerWidth K)))
      else ConstantExpr (ConstantExpr_alloc K 0 1))"

definition getBoundsCheckPointer :: "'z mem_env_scheme \<Rightarrow> memory_object \<Rightarrow> expr \<Rightarrow> expr option" where
  "getBoundsCheckPointer K mo pointer = do { offset \<leftarrow> getOffsetExpr K mo pointer; getBoundsCheckOffset K mo offset }"

definition getBoundsCheckPointer_bytes :: "'z mem_env_scheme \<Rightarrow> memory_object \<Rightarrow> expr \<Rightarrow> 32 word \<Rightarrow> expr option" where
  "getBoundsCheckPointer_bytes K mo pointer bytes =
     do { offset \<leftarrow> getOffsetExpr K mo pointer; Some (getBoundsCheckOffset_bytes K mo offset bytes) }"

subsection \<open>Resolution of a constant\<close>

definition hack_object :: "64 word \<Rightarrow> memory_object" where
  "hack_object a = \<lparr>mo_id = 0, mo_address = a, mo_size = 0, isUserSpecified = False\<rparr>"

definition resolveOne_const :: "address_space \<Rightarrow> apint \<Rightarrow> (memory_object \<times> nat) option option" where
  "resolveOne_const A addr = do {
     address \<leftarrow> CE_getZExtValue addr 64;
     Some (case lookup_previous by_address (hack_object address) (objects A) of
         None \<Rightarrow> None
       | Some (mo, os) \<Rightarrow>
           if mo_size mo = 0 \<and> address = mo_address mo \<or> address - mo_address mo < ucast (mo_size mo)
           then Some (mo, os) else None) }"

subsection \<open>States that share objects\<close>

text \<open>
  The operations of the executor on the memory of its states: \<^verbatim>\<open>bindObjectInState\<close>, the read and the write
  of \<^verbatim>\<open>executeMemoryOperation\<close>, the copy of a state at a fork. \<open>Read\<close> carries the result. A state is a number.
\<close>

record world =
  spaces :: "nat \<Rightarrow> address_space option"
  cells :: cells
  globals :: mem_globals

definition bindObjectInState ::
  "'z mem_env_scheme \<Rightarrow> memory_object \<Rightarrow> address_space \<times> cells \<times> mem_globals \<Rightarrow>
   (nat \<times> address_space \<times> cells \<times> mem_globals) option" where
  "bindObjectInState K mo st =
     (case st of (A, H, G) \<Rightarrow> do {
        (S, G) \<leftarrow> new_state K (unat (mo_size mo)) G;
        let os = length H;
        (A, H) \<leftarrow> bindObject mo os (A, H @ [\<lparr>cell_state = S, copyOnWriteOwner = 0\<rparr>]);
        Some (os, A, H, G) })"

definition memory_read ::
  "'z mem_env_scheme \<Rightarrow> nat \<Rightarrow> expr \<Rightarrow> nat \<Rightarrow> cells \<times> mem_globals \<Rightarrow> (expr \<times> cells \<times> mem_globals) option" where
  "memory_read K os offset type st =
     (case st of (H, G) \<Rightarrow> do {
        (r, S, G) \<leftarrow> os_read K offset type (cell_state (H ! os), G);
        Some (r, H[os := (H ! os)\<lparr>cell_state := S\<rparr>], G) })"

datatype memory_error = ReadOnly

definition memory_write ::
  "'z mem_env_scheme \<Rightarrow> memory_object \<Rightarrow> nat \<Rightarrow> expr \<Rightarrow> expr \<Rightarrow> address_space \<times> cells \<Rightarrow>
   (memory_error + address_space \<times> cells) option" where
  "memory_write K mo os offset v st =
     (case st of (A, H) \<Rightarrow>
        if readOnly (cell_state (H ! os)) then Some (Inl ReadOnly)
        else do {
          (wos, A, H) \<leftarrow> getWriteable mo os (A, H);
          S \<leftarrow> os_write K offset v (cell_state (H ! wos));
          Some (Inr (A, H[wos := (H ! wos)\<lparr>cell_state := S\<rparr>])) })"

datatype mem_event =
    Alloc nat memory_object
  | Unbind nat memory_object
  | SetReadOnly nat memory_object
  | Read nat memory_object expr nat expr
  | Write nat memory_object expr expr
  | WriteFails nat memory_object
  | Fork nat nat
  | Drop nat

inductive mem_step :: "'z mem_env_scheme \<Rightarrow> world \<Rightarrow> mem_event \<Rightarrow> world \<Rightarrow> bool" for K where
  do_alloc: "\<lbrakk>spaces W s = Some A; bindObjectInState K mo (A, cells W, globals W) = Some (os, A', H', G')\<rbrakk> \<Longrightarrow>
    mem_step K W (Alloc s mo) \<lparr>spaces = (spaces W)(s \<mapsto> A'), cells = H', globals = G'\<rparr>"
| do_unbind: "spaces W s = Some A \<Longrightarrow> mem_step K W (Unbind s mo) (W\<lparr>spaces := (spaces W)(s \<mapsto> unbindObject mo A)\<rparr>)"
| do_read_only: "\<lbrakk>spaces W s = Some A; findObject A mo = Some os\<rbrakk> \<Longrightarrow>
    mem_step K W (SetReadOnly s mo)
      (W\<lparr>cells := (cells W)[os := (cells W ! os)\<lparr>cell_state := cell_state (cells W ! os)\<lparr>readOnly := True\<rparr>\<rparr>]\<rparr>)"
| do_read: "\<lbrakk>spaces W s = Some A; findObject A mo = Some os; access_ok K (cell_state (cells W ! os)) off w;
    memory_read K os off w (cells W, globals W) = Some (r, H', G')\<rbrakk> \<Longrightarrow>
    mem_step K W (Read s mo off w r) (W\<lparr>cells := H', globals := G'\<rparr>)"
| do_write: "\<lbrakk>spaces W s = Some A; findObject A mo = Some os; wt v;
    access_ok K (cell_state (cells W ! os)) off (getWidth v); memory_write K mo os off v (A, cells W) = Some (Inr (A', H'))\<rbrakk> \<Longrightarrow>
    mem_step K W (Write s mo off v) (W\<lparr>spaces := (spaces W)(s \<mapsto> A'), cells := H'\<rparr>)"
| do_fail: "\<lbrakk>spaces W s = Some A; findObject A mo = Some os; memory_write K mo os off v (A, cells W) = Some (Inl e)\<rbrakk> \<Longrightarrow>
    mem_step K W (WriteFails s mo) W"
| do_fork: "\<lbrakk>spaces W s = Some A; spaces W t = None; copy_space A = (A', B)\<rbrakk> \<Longrightarrow>
    mem_step K W (Fork s t) (W\<lparr>spaces := (spaces W)(s \<mapsto> A', t \<mapsto> B)\<rparr>)"
| do_drop: "mem_step K W (Drop s) (W\<lparr>spaces := (spaces W)(s := None)\<rparr>)"

inductive mem_run :: "'z mem_env_scheme \<Rightarrow> world \<Rightarrow> mem_event list \<Rightarrow> world \<Rightarrow> bool" for K where
  start: "mem_run K W [] W"
| run: "mem_run K W es W' \<Longrightarrow> mem_step K W' e W'' \<Longrightarrow> mem_run K W (es @ [e]) W''"

definition first_world :: "mem_globals \<Rightarrow> world" where
  "first_world G = \<lparr>spaces = [0 \<mapsto> new_space], cells = [], globals = G\<rparr>"

subsection \<open>Memory without sharing\<close>

text \<open>What the operations do to memories that share nothing: each state has its own map from addresses to bytes. \<open>None\<close>: under the assignment a
  write is out of the bounds of its object.\<close>

type_synonym memories = "nat \<Rightarrow> (64 word \<Rightarrow> int list option) option"

definition update_memory :: "nat \<Rightarrow> memory_object \<Rightarrow> (int list option \<Rightarrow> int list option) \<Rightarrow> memories \<Rightarrow> memories" where
  "update_memory s mo f M = M(s := map_option (\<lambda>m. m(mo_address mo := f (m (mo_address mo)))) (M s))"

fun memory_after :: "bool \<Rightarrow> assignment \<Rightarrow> mem_event \<Rightarrow> memories \<Rightarrow> memories option" where
  "memory_after le \<sigma> (Alloc s mo) M = Some (update_memory s mo (\<lambda>_. Some (replicate (unat (mo_size mo)) 0)) M)"
| "memory_after le \<sigma> (Unbind s mo) M = Some (update_memory s mo (\<lambda>_. None) M)"
| "memory_after le \<sigma> (Write s mo off v) M = do {
     m \<leftarrow> M s;
     b \<leftarrow> m (mo_address mo);
     b' \<leftarrow> mem_store le b (address \<sigma> off) (getWidth v) (eval \<sigma> v);
     Some (update_memory s mo (\<lambda>_. Some b') M) }"
| "memory_after le \<sigma> (Fork s t) M = Some (M(t := M s))"
| "memory_after le \<sigma> (Drop s) M = Some (M(s := None))"
| "memory_after le \<sigma> e M = Some M"

fun memories_after :: "bool \<Rightarrow> assignment \<Rightarrow> mem_event list \<Rightarrow> memories \<Rightarrow> memories option" where
  "memories_after le \<sigma> [] M = Some M"
| "memories_after le \<sigma> (e # es) M = do { M \<leftarrow> memory_after le \<sigma> e M; memories_after le \<sigma> es M }"

definition memory_of :: "assignment \<Rightarrow> world \<Rightarrow> memories" where
  "memory_of \<sigma> W = (\<lambda>s. map_option (\<lambda>A a. map_option (\<lambda>os. contents \<sigma> (cell_state (cells W ! os)))
     (findObject A (hack_object a))) (spaces W s))"

text \<open>A read delivers what the memory of its state holds.\<close>

fun read_right :: "bool \<Rightarrow> assignment \<Rightarrow> mem_event \<Rightarrow> memories \<Rightarrow> bool" where
  "read_right le \<sigma> (Read s mo off w r) M = (case M s of None \<Rightarrow> False
     | Some m \<Rightarrow> (case m (mo_address mo) of None \<Rightarrow> False
       | Some b \<Rightarrow> (case mem_load le b (address \<sigma> off) w of None \<Rightarrow> True | Some v \<Rightarrow> eval \<sigma> r = v)))"
| "read_right le \<sigma> _ M = True"

fun reads_right :: "bool \<Rightarrow> assignment \<Rightarrow> mem_event list \<Rightarrow> memories \<Rightarrow> bool" where
  "reads_right le \<sigma> [] M = True"
| "reads_right le \<sigma> (e # es) M = (read_right le \<sigma> e M \<and>
     (case memory_after le \<sigma> e M of None \<Rightarrow> True | Some M' \<Rightarrow> reads_right le \<sigma> es M'))"

fun forks :: "mem_event list \<Rightarrow> nat" where
  "forks [] = 0"
| "forks (Fork s t # es) = Suc (forks es)"
| "forks (e # es) = forks es"

section \<open>Sharing is not seen\<close>

definition bound :: "address_space \<Rightarrow> 64 word \<Rightarrow> nat option" where
  "bound A a = findObject A (hack_object a)"

definition space_ok :: "address_space \<Rightarrow> bool" where
  "space_ok A \<longleftrightarrow> bst by_address (objects A) \<and> bal (objects A)"

lemma equiv_address: "key_equiv by_address x y \<longleftrightarrow> mo_address x = mo_address y"
  by (auto simp: key_equiv_def map_ops_def MemoryObjectLT_def)

lemma findObject_bound: "findObject A mo = bound A (mo_address mo)"
proof -
  have "tree_lookup by_address mo t = tree_lookup by_address (hack_object (mo_address mo)) t" for t :: memory_map
    by (induction t) (simp_all add: map_ops_def MemoryObjectLT_def hack_object_def)
  then show ?thesis by (simp add: findObject_def bound_def)
qed

lemma space_new: "space_ok (new_space\<lparr>cowKey := k\<rparr>)" "bound (new_space\<lparr>cowKey := k\<rparr>) a = None" "space_ok new_space" "bound new_space a = None"
  by (simp_all add: space_ok_def new_space_def bound_def findObject_def)

lemma bound_cong: "objects A = objects B \<Longrightarrow> bound A = bound B" "objects A = objects B \<Longrightarrow> space_ok A = space_ok B"
  by (simp_all add: bound_def findObject_def space_ok_def fun_eq_iff)

lemma space_replace:
  assumes "space_ok A"
  shows "space_ok (A\<lparr>objects := tree_replace by_address (mo, os) (objects A)\<rparr>)"
    "bound (A\<lparr>objects := tree_replace by_address (mo, os) (objects A)\<rparr>) a = (if a = mo_address mo then Some os else bound A a)"
proof -
  note rep = tree_replace_remove_correct [OF memory_map.tree_order_axioms, of "objects A" "(mo, os)"]
  show "space_ok (A\<lparr>objects := tree_replace by_address (mo, os) (objects A)\<rparr>)"
    using rep assms by (simp add: space_ok_def)
  have "key_of_value by_address (mo, os) = mo" by (simp add: map_ops_def)
  then show "bound (A\<lparr>objects := tree_replace by_address (mo, os) (objects A)\<rparr>) a = (if a = mo_address mo then Some os else bound A a)"
    using rep assms by (auto simp: space_ok_def bound_def findObject_def equiv_address) (simp_all add: hack_object_def)
qed

lemma space_unbind:
  assumes "space_ok A"
  shows "space_ok (unbindObject mo A)" "bound (unbindObject mo A) a = (if a = mo_address mo then None else bound A a)"
    "cowKey (unbindObject mo A) = cowKey A"
proof -
  note rem = tree_replace_remove_correct [OF memory_map.tree_order_axioms, of "objects A" _ mo]
  show "space_ok (unbindObject mo A)" using rem assms by (simp add: space_ok_def unbindObject_def)
  show "bound (unbindObject mo A) a = (if a = mo_address mo then None else bound A a)"
    using rem assms by (auto simp: space_ok_def bound_def findObject_def equiv_address unbindObject_def) (simp_all add: hack_object_def)
qed (simp add: unbindObject_def)

text \<open>
  The invariant, after at most \<open>n\<close> copies: no key has wrapped, an object state that two spaces bind is owned by
  neither, and no space binds one twice.
\<close>

definition world_ok :: "nat \<Rightarrow> world \<Rightarrow> bool" where
  "world_ok n W \<longleftrightarrow>
     (\<forall>s A. spaces W s = Some A \<longrightarrow> space_ok A \<and> unat (cowKey A) \<le> n + 1) \<and>
     (\<forall>s A a os. spaces W s = Some A \<longrightarrow> bound A a = Some os \<longrightarrow>
        os < length (cells W) \<and> copyOnWriteOwner (cells W ! os) \<le> cowKey A) \<and>
     (\<forall>s A a t B b os. spaces W s = Some A \<longrightarrow> spaces W t = Some B \<longrightarrow> bound A a = Some os \<longrightarrow> bound B b = Some os \<longrightarrow>
        a = b \<and> (s \<noteq> t \<longrightarrow> copyOnWriteOwner (cells W ! os) < cowKey A)) \<and>
     (\<forall>c \<in> set (cells W). os_ok (cell_state c)) \<and> array_cache_ok (arrays (globals W))"

lemma world_okD:
  assumes "world_ok n W"
  shows "spaces W s = Some A \<Longrightarrow> space_ok A \<and> unat (cowKey A) \<le> n + 1"
    and "spaces W s = Some A \<Longrightarrow> bound A a = Some os \<Longrightarrow>
      os < length (cells W) \<and> copyOnWriteOwner (cells W ! os) \<le> cowKey A \<and> os_ok (cell_state (cells W ! os))"
    and "spaces W s = Some A \<Longrightarrow> spaces W t = Some B \<Longrightarrow> bound A a = Some os \<Longrightarrow> bound B b = Some os \<Longrightarrow>
      a = b \<and> (s \<noteq> t \<longrightarrow> copyOnWriteOwner (cells W ! os) < cowKey A)"
    and "c \<in> set (cells W) \<Longrightarrow> os_ok (cell_state c)" "array_cache_ok (arrays (globals W))"
  using assms unfolding world_ok_def by (blast, metis nth_mem, blast, blast, blast)

definition coherent_world :: "assignment \<Rightarrow> world \<Rightarrow> bool" where
  "coherent_world \<sigma> W \<longleftrightarrow> (\<forall>c \<in> set (cells W). coherent \<sigma> (cell_state c))"

definition rebinds :: "nat \<Rightarrow> memory_object \<Rightarrow> nat \<Rightarrow> world \<Rightarrow> world \<Rightarrow> bool" where
  "rebinds s mo q W W' \<longleftrightarrow> (\<exists>A A'. spaces W s = Some A \<and> spaces W' = (spaces W)(s \<mapsto> A') \<and> cowKey A' = cowKey A \<and>
     space_ok A' \<and> (\<forall>a. bound A' a = (if a = mo_address mo then Some q else bound A a)) \<and>
     copyOnWriteOwner (cells W' ! q) = cowKey A) \<and>
     length (cells W) \<le> length (cells W') \<and> q < length (cells W') \<and>
     (\<forall>p < length (cells W'). p \<noteq> q \<longrightarrow> p < length (cells W) \<and> cells W' ! p = cells W ! p) \<and>
     (\<forall>t B b. spaces W t = Some B \<longrightarrow> bound B b = Some q \<longrightarrow> t = s \<and> b = mo_address mo)"

lemma rebindsI:
  assumes "spaces W s = Some A" "spaces W' = (spaces W)(s \<mapsto> A')" "cowKey A' = cowKey A" "space_ok A'"
    "\<And>a. bound A' a = (if a = mo_address mo then Some q else bound A a)" "copyOnWriteOwner (cells W' ! q) = cowKey A"
    "length (cells W) \<le> length (cells W')" "q < length (cells W')"
    "\<And>p. p < length (cells W') \<Longrightarrow> p \<noteq> q \<Longrightarrow> p < length (cells W) \<and> cells W' ! p = cells W ! p"
    "\<And>t B b. spaces W t = Some B \<Longrightarrow> bound B b = Some q \<Longrightarrow> t = s \<and> b = mo_address mo"
  shows "rebinds s mo q W W'"
  unfolding rebinds_def using assms by blast

lemma rebinds_memory:
  assumes "world_ok n W" "rebinds s mo q W W'"
  shows "memory_of \<sigma> W' = update_memory s mo (\<lambda>_. Some (contents \<sigma> (cell_state (cells W' ! q)))) (memory_of \<sigma> W)"
proof -
  obtain A A' where A: "spaces W s = Some A" "spaces W' = (spaces W)(s \<mapsto> A')"
      "\<And>a. bound A' a = (if a = mo_address mo then Some q else bound A a)"
    and other: "\<And>p. p < length (cells W') \<Longrightarrow> p \<noteq> q \<Longrightarrow> cells W' ! p = cells W ! p"
    and len: "length (cells W) \<le> length (cells W')"
    and only: "\<And>t B b. spaces W t = Some B \<Longrightarrow> bound B b = Some q \<Longrightarrow> t = s \<and> b = mo_address mo"
    using assms(2) unfolding rebinds_def by blast
  have same: "cells W' ! p = cells W ! p" if "spaces W t = Some B" "bound B b = Some p" "t \<noteq> s \<or> b \<noteq> mo_address mo" for t B b p
    using world_okD(2) [OF assms(1) that(1,2)] other [of p] len only [OF that(1)] that(2,3) by fastforce
  show ?thesis
  proof
    fix t
    show "memory_of \<sigma> W' t = update_memory s mo (\<lambda>_. Some (contents \<sigma> (cell_state (cells W' ! q)))) (memory_of \<sigma> W) t"
    proof (cases "t = s")
      case True
      then show ?thesis using A same [OF A(1)]
        by (auto simp: memory_of_def update_memory_def bound_def [symmetric] fun_eq_iff option.map_comp intro!: map_option_cong)
    next
      case False
      then show ?thesis using A(2) same [OF _ _ disjI1 [OF False]]
        by (auto simp: memory_of_def update_memory_def bound_def [symmetric] fun_eq_iff intro!: map_option_cong)
    qed
  qed
qed

lemma rebinds_ok:
  assumes ok: "world_ok n W" and re: "rebinds s mo q W W'"
    and q: "os_ok (cell_state (cells W' ! q))" and G: "array_cache_ok (arrays (globals W'))"
  shows "world_ok n W'"
proof -
  obtain A A' where A: "spaces W s = Some A" "spaces W' = (spaces W)(s \<mapsto> A')" "cowKey A' = cowKey A" "space_ok A'"
      "\<And>a. bound A' a = (if a = mo_address mo then Some q else bound A a)" "copyOnWriteOwner (cells W' ! q) = cowKey A"
    and len: "length (cells W) \<le> length (cells W')" "q < length (cells W')"
    and other: "\<And>p. p < length (cells W') \<Longrightarrow> p \<noteq> q \<Longrightarrow> p < length (cells W) \<and> cells W' ! p = cells W ! p"
    and only: "\<And>t B b. spaces W t = Some B \<Longrightarrow> bound B b = Some q \<Longrightarrow> t = s \<and> b = mo_address mo"
    using re unfolding rebinds_def by blast
  \<comment> \<open>a binding of the new world is the new one, or was there\<close>
  have split: "t = s \<and> b = mo_address mo \<and> p = q \<or>
      p \<noteq> q \<and> p < length (cells W') \<and> cells W' ! p = cells W ! p \<and>
        (\<exists>B0. spaces W t = Some B0 \<and> bound B0 b = Some p \<and> cowKey B0 = cowKey B)"
    if t: "spaces W' t = Some B" and b: "bound B b = Some p" for t B b p
  proof (cases "t = s \<and> b = mo_address mo")
    case False
    then obtain B0 where B0: "spaces W t = Some B0" "bound B0 b = Some p" "cowKey B0 = cowKey B"
      using t b A by (auto split: if_splits)
    then have "p < length (cells W)" "p \<noteq> q" using world_okD(2) [OF ok B0(1,2)] only [OF B0(1)] B0(2) False by auto
    with B0 other [of p] len(1) show ?thesis by auto
  qed (use t b A in auto)
  have "space_ok B \<and> unat (cowKey B) \<le> n + 1" if "spaces W' t = Some B" for t B
    using that A world_okD(1) [OF ok] by (fastforce split: if_splits)
  moreover have "p < length (cells W') \<and> copyOnWriteOwner (cells W' ! p) \<le> cowKey B"
    if "spaces W' t = Some B" "bound B b = Some p" for t B b p
    using split [OF that] world_okD(2) [OF ok] A len(2) that by fastforce
  moreover have "a = b \<and> (t \<noteq> u \<longrightarrow> copyOnWriteOwner (cells W' ! p) < cowKey B)"
    if "spaces W' t = Some B" "spaces W' u = Some C" "bound B a = Some p" "bound C b = Some p" for t B a u C b p
    using split [OF that(1,3)] split [OF that(2,4)] world_okD(3) [OF ok] by fastforce
  moreover have "os_ok (cell_state c)" if "c \<in> set (cells W')" for c
    using that other q world_okD(4) [OF ok] by (metis in_set_conv_nth)
  ultimately show ?thesis unfolding world_ok_def using G by blast
qed

lemma rebinds_coherent:
  assumes "rebinds s mo q W W'" "coherent_world \<sigma> W" "coherent \<sigma> (cell_state (cells W' ! q))"
  shows "coherent_world \<sigma> W'"
  unfolding coherent_world_def
proof
  fix c assume "c \<in> set (cells W')"
  then obtain p where "p < length (cells W')" "c = cells W' ! p" by (metis in_set_conv_nth)
  moreover have "\<forall>p < length (cells W'). p \<noteq> q \<longrightarrow> p < length (cells W) \<and> cells W' ! p = cells W ! p"
    using assms(1) unfolding rebinds_def by blast
  ultimately show "coherent \<sigma> (cell_state c)" using assms(2,3) unfolding coherent_world_def by (metis nth_mem)
qed

text \<open>A change of object states that keeps their contents.\<close>

lemma same_spaces:
  assumes ok: "world_ok n W" and sp: "spaces W' = spaces W" and p: "p < length (cells W)"
    and H: "cells W' = (cells W)[p := (cells W ! p)\<lparr>cell_state := S\<rparr>]" and S: "os_ok S"
    and G: "array_cache_ok (arrays (globals W'))"
  shows "world_ok n W'"
    and "coherent \<sigma> S \<Longrightarrow> coherent_world \<sigma> W \<Longrightarrow> coherent_world \<sigma> W'"
    and "contents \<sigma> S = contents \<sigma> (cell_state (cells W ! p)) \<Longrightarrow> memory_of \<sigma> W' = memory_of \<sigma> W"
proof -
  have owner: "copyOnWriteOwner (cells W' ! q) = copyOnWriteOwner (cells W ! q)" for q
    using p H by (cases "q = p") simp_all
  have set: "c \<in> set (cells W') \<Longrightarrow> c \<in> set (cells W) \<or> cell_state c = S" for c
    using set_update_subset_insert [of "cells W" p "(cells W ! p)\<lparr>cell_state := S\<rparr>"] H by auto
  have "os_ok (cell_state c)" if "c \<in> set (cells W')" for c using set [OF that] S world_okD(4) [OF ok] by auto
  then show "world_ok n W'" using ok G H unfolding world_ok_def sp owner by simp
  show "coherent \<sigma> S \<Longrightarrow> coherent_world \<sigma> W \<Longrightarrow> coherent_world \<sigma> W'" using set unfolding coherent_world_def by blast
  assume c: "contents \<sigma> S = contents \<sigma> (cell_state (cells W ! p))"
  have "contents \<sigma> (cell_state (cells W' ! q)) = contents \<sigma> (cell_state (cells W ! q))" for q
    using c p H by (cases "q = p") simp_all
  then show "memory_of \<sigma> W' = memory_of \<sigma> W" by (simp add: memory_of_def sp)
qed

lemma rebinds_store:
  assumes "rebinds s mo q W W'"
  shows "rebinds s mo q W (W'\<lparr>cells := (cells W')[q := (cells W' ! q)\<lparr>cell_state := S\<rparr>]\<rparr>)"
  using assms unfolding rebinds_def by (simp add: nth_list_update)

lemma memory_at:
  assumes "spaces W s = Some A" "findObject A mo = Some os"
  shows "\<exists>m. memory_of \<sigma> W s = Some m \<and> m (mo_address mo) = Some (contents \<sigma> (cell_state (cells W ! os)))"
  using assms by (simp add: memory_of_def findObject_bound hack_object_def)

lemma new_cell:
  assumes "spaces W s = Some A" "\<And>t B c. spaces W t = Some B \<Longrightarrow> bound B c \<noteq> Some (length (cells W))"
    and "space_ok (A\<lparr>objects := M\<rparr>)"
    and "\<And>a. bound (A\<lparr>objects := M\<rparr>) a = (if a = mo_address mo then Some (length (cells W)) else bound A a)"
  shows "rebinds s mo (length (cells W)) W
    (W\<lparr>spaces := (spaces W)(s \<mapsto> A\<lparr>objects := M\<rparr>), cells := cells W @ [\<lparr>cell_state = S, copyOnWriteOwner = cowKey A\<rparr>]\<rparr>)"
proof (rule rebindsI [OF assms(1) _ _ assms(3,4)])
  fix t B b assume "spaces W t = Some B" "bound B b = Some (length (cells W))"
  with assms(2) [of t B b] show "t = s \<and> b = mo_address mo" by simp
qed (simp_all add: nth_append less_Suc_eq)

lemma getWriteable_rebinds:
  assumes ok: "world_ok n W" and A: "spaces W s = Some A" and os: "findObject A mo = Some os"
    and w: "\<not> readOnly (cell_state (cells W ! os))"
  shows "\<exists>q A' H'. getWriteable mo os (A, cells W) = Some (q, A', H') \<and> cell_state (H' ! q) = cell_state (cells W ! os) \<and>
    rebinds s mo q W (W\<lparr>spaces := (spaces W)(s \<mapsto> A'), cells := H'\<rparr>)"
proof -
  have b: "bound A (mo_address mo) = Some os" using os by (simp add: findObject_bound)
  note os_in = world_okD(2) [OF ok A b] and sp = world_okD(1) [OF ok A]
  show ?thesis
  proof (cases "cowKey A = copyOnWriteOwner (cells W ! os)")
    case True
    have "rebinds s mo os W (W\<lparr>spaces := (spaces W)(s \<mapsto> A), cells := cells W\<rparr>)"
    proof (rule rebindsI [OF A, where A' = A])
      fix t B c assume "spaces W t = Some B" "bound B c = Some os"
      with world_okD(3) [OF ok A this(1) b this(2)] True show "t = s \<and> c = mo_address mo" by force
    qed (use sp os_in True b in simp_all)
    with True w show ?thesis by (simp add: getWriteable_def)
  next
    case False
    let ?q = "length (cells W)" and ?S = "cell_state (cells W ! os)"
    let ?A = "A\<lparr>objects := tree_replace by_address (mo, ?q) (objects A)\<rparr>"
    let ?H = "cells W @ [\<lparr>cell_state = ?S, copyOnWriteOwner = cowKey A\<rparr>]"
    let ?W = "W\<lparr>spaces := (spaces W)(s \<mapsto> ?A), cells := ?H\<rparr>"
    have "getWriteable mo os (A, cells W) = Some (?q, ?A, ?H)"
      using False w copy_state_same [of ?S] os_in by (simp add: getWriteable_def Let_def)
    moreover have "\<And>t B c. spaces W t = Some B \<Longrightarrow> bound B c \<noteq> Some ?q"
      using world_okD(2) [OF ok] by blast
    then have "rebinds s mo ?q W ?W" by (rule new_cell [OF A _ space_replace [OF conjunct1 [OF sp]]])
    ultimately show ?thesis by simp
  qed
qed

lemma bindObject_rebinds:
  assumes ok: "world_ok n W" and A: "spaces W s = Some A"
  shows "\<exists>A' H'. bindObject mo (length (cells W)) (A, cells W @ [\<lparr>cell_state = S, copyOnWriteOwner = 0\<rparr>]) = Some (A', H') \<and>
    cell_state (H' ! length (cells W)) = S \<and>
    rebinds s mo (length (cells W)) W (W\<lparr>spaces := (spaces W)(s \<mapsto> A'), cells := H'\<rparr>)"
proof -
  have "\<And>t B c. spaces W t = Some B \<Longrightarrow> bound B c \<noteq> Some (length (cells W))" using world_okD(2) [OF ok] by blast
  note new_cell [OF A this space_replace [OF conjunct1 [OF world_okD(1) [OF ok A]]], where mo = mo and S = S]
  then show ?thesis by (simp add: bindObject_def list_update_append)
qed

subsection \<open>Each operation\<close>

definition advances :: "bool \<Rightarrow> nat \<Rightarrow> world \<Rightarrow> mem_event \<Rightarrow> world \<Rightarrow> bool" where
  "advances le n W e W' \<longleftrightarrow> world_ok n W' \<and> (\<forall>\<sigma>. assign_ok \<sigma> \<longrightarrow> coherent_world \<sigma> W \<longrightarrow>
     coherent_world \<sigma> W' \<and> read_right le \<sigma> e (memory_of \<sigma> W) \<and>
     (\<forall>M. memory_after le \<sigma> e (memory_of \<sigma> W) = Some M \<longrightarrow> memory_of \<sigma> W' = M))"

lemma rebinds_advances:
  assumes "world_ok n W" "rebinds s mo q W W'" "os_ok (cell_state (cells W' ! q))" "array_cache_ok (arrays (globals W'))"
    and "\<And>\<sigma>. assign_ok \<sigma> \<Longrightarrow> coherent_world \<sigma> W \<Longrightarrow> coherent \<sigma> (cell_state (cells W' ! q)) \<and>
      read_right le \<sigma> e (memory_of \<sigma> W) \<and> (\<forall>M. memory_after le \<sigma> e (memory_of \<sigma> W) = Some M \<longrightarrow>
        M = update_memory s mo (\<lambda>_. Some (contents \<sigma> (cell_state (cells W' ! q)))) (memory_of \<sigma> W))"
  shows "advances le n W e W'"
  unfolding advances_def
  using rebinds_ok [OF assms(1-4)] rebinds_coherent [OF assms(2)] rebinds_memory [OF assms(1,2)] assms(5) by metis

lemma same_advances:
  assumes ok: "world_ok n W" and b: "spaces W s = Some A" "findObject A mo = Some os"
    and H: "W' = W\<lparr>cells := (cells W)[os := (cells W ! os)\<lparr>cell_state := S\<rparr>], globals := G\<rparr>"
    and S: "os_ok S" "array_cache_ok (arrays G)"
    and c: "\<And>\<sigma>. assign_ok \<sigma> \<Longrightarrow> coherent \<sigma> (cell_state (cells W ! os)) \<Longrightarrow>
      coherent \<sigma> S \<and> contents \<sigma> S = contents \<sigma> (cell_state (cells W ! os)) \<and> read_right le \<sigma> e (memory_of \<sigma> W)"
    and e: "\<And>\<sigma> M. memory_after le \<sigma> e M = Some M"
  shows "advances le n W e W'"
proof -
  have p: "os < length (cells W)" using world_okD(2) [OF ok b(1)] b(2) by (auto simp: findObject_bound)
  have "spaces W' = spaces W" "cells W' = (cells W)[os := (cells W ! os)\<lparr>cell_state := S\<rparr>]" "globals W' = G"
    using H by simp_all
  note same = same_spaces [OF ok this(1) p this(2) S(1)]
  have coh: "coherent \<sigma> (cell_state (cells W ! os))" if "coherent_world \<sigma> W" for \<sigma>
    using that p by (simp add: coherent_world_def)
  show ?thesis unfolding advances_def e using same c coh S(2) \<open>globals W' = G\<close> by auto
qed

lemma memory_of_spaces:
  assumes "\<And>s. map_option bound (spaces W' s) = map_option bound (sp s)" "cells W' = cells W"
  shows "memory_of \<sigma> W' = memory_of \<sigma> (W\<lparr>spaces := sp\<rparr>)"
proof
  fix s show "memory_of \<sigma> W' s = memory_of \<sigma> (W\<lparr>spaces := sp\<rparr>) s"
    using assms(1) [of s] assms(2)
    by (cases "spaces W' s"; cases "sp s") (simp_all add: memory_of_def bound_def [symmetric])
qed

lemma coherent_world_cells: "cells W' = cells W \<Longrightarrow> coherent_world \<sigma> W' = coherent_world \<sigma> W"
  by (simp add: coherent_world_def)

text \<open>Fewer bindings and fewer spaces.\<close>

lemma fewer_ok:
  assumes ok: "world_ok n W" and c: "cells W' = cells W" "globals W' = globals W"
    and old: "\<And>t B. spaces W' t = Some B \<Longrightarrow> \<exists>B0. spaces W t = Some B0 \<and> cowKey B = cowKey B0 \<and> space_ok B \<and>
      (\<forall>b p. bound B b = Some p \<longrightarrow> bound B0 b = Some p)"
  shows "world_ok n W'"
  unfolding world_ok_def c
proof (intro conjI allI impI)
  fix t B assume "spaces W' t = Some B"
  then show "space_ok B" "unat (cowKey B) \<le> n + 1" using old [of t B] world_okD(1) [OF ok, of t] by auto
next
  fix t B b p assume B: "spaces W' t = Some B" "bound B b = Some p"
  then obtain B0 where "spaces W t = Some B0" "cowKey B = cowKey B0" "bound B0 b = Some p" using old by blast
  then show "p < length (cells W)" "copyOnWriteOwner (cells W ! p) \<le> cowKey B" using world_okD(2) [OF ok] by auto
next
  fix t B b t' B' b' p
  assume B: "spaces W' t = Some B" "spaces W' t' = Some B'" "bound B b = Some p" "bound B' b' = Some p"
  obtain B0 where 1: "spaces W t = Some B0" "cowKey B = cowKey B0" "bound B0 b = Some p" using old B(1,3) by blast
  obtain B1 where 2: "spaces W t' = Some B1" "bound B1 b' = Some p" using old B(2,4) by blast
  show "b = b'" "t \<noteq> t' \<Longrightarrow> copyOnWriteOwner (cells W ! p) < cowKey B"
    using world_okD(3) [OF ok 1(1) 2(1) 1(3) 2(2)] 1(2) by auto
qed (use world_okD(4,5) [OF ok] in auto)

lemma unbind_advances:
  assumes ok: "world_ok n W" and A: "spaces W s = Some A"
  shows "advances le n W (Unbind s mo) (W\<lparr>spaces := (spaces W)(s \<mapsto> unbindObject mo A)\<rparr>)" (is "advances le n W ?e ?W")
proof -
  note u = space_unbind [OF conjunct1 [OF world_okD(1) [OF ok A]], of mo]
  have "world_ok n ?W" using u A world_okD(1) [OF ok] by (intro fewer_ok [OF ok]) (auto split: if_splits)
  moreover have "memory_of \<sigma> ?W = update_memory s mo (\<lambda>_. None) (memory_of \<sigma> W)" for \<sigma>
    using A u by (auto simp: memory_of_def update_memory_def bound_def [symmetric] fun_eq_iff)
  ultimately show ?thesis using coherent_world_cells [of ?W W] by (simp add: advances_def)
qed

lemma drop_advances:
  assumes ok: "world_ok n W"
  shows "advances le n W (Drop s) (W\<lparr>spaces := (spaces W)(s := None)\<rparr>)"
proof -
  have "world_ok n (W\<lparr>spaces := (spaces W)(s := None)\<rparr>)"
    using world_okD(1) [OF ok] by (intro fewer_ok [OF ok]) (auto split: if_splits)
  moreover have "memory_of \<sigma> (W\<lparr>spaces := (spaces W)(s := None)\<rparr>) = (memory_of \<sigma> W)(s := None)" for \<sigma>
    by (auto simp: memory_of_def)
  ultimately show ?thesis using coherent_world_cells [of "W\<lparr>spaces := (spaces W)(s := None)\<rparr>" W] by (simp add: advances_def)
qed

lemma write_fails_advances: "world_ok n W \<Longrightarrow> advances le n W (WriteFails s mo) W"
  by (simp add: advances_def)

lemma fork_advances:
  assumes ok: "world_ok n W" and A: "spaces W s = Some A" "spaces W t = None" and n: "n + 2 < 2 ^ 32"
    and c: "copy_space A = (A', B)"
  shows "advances le (Suc n) W (Fork s t) (W\<lparr>spaces := (spaces W)(s \<mapsto> A', t \<mapsto> B)\<rparr>)" (is "advances le _ W _ ?W")
proof -
  have t: "s \<noteq> t" using A by auto
  have key: "cowKey A' = cowKey A + 1" "cowKey B = cowKey A + 1" "bound A' = bound A" "bound B = bound A"
      "space_ok A'" "space_ok B"
    using c world_okD(1) [OF ok A(1)] bound_cong [of A' A] bound_cong [of B A] by (auto simp: copy_space_def Let_def)
  have "unat (cowKey A) + 1 < 2 ^ 32" using world_okD(1) [OF ok A(1)] n by simp
  then have up: "unat (cowKey A + 1) = unat (cowKey A) + 1" "cowKey A < cowKey A + 1"
    using unat_add_lem [of "cowKey A" 1] by (auto simp: word_less_nat_alt)
  \<comment> \<open>a space of the new world binds what one of the old world binds, under a key that is not less\<close>
  have old: "\<exists>u' C0. spaces W u' = Some C0 \<and> bound C = bound C0 \<and> space_ok C \<and> cowKey C0 \<le> cowKey C \<and>
      unat (cowKey C) \<le> Suc n + 1 \<and> (u \<noteq> t \<longrightarrow> u' = u) \<and> (u = t \<longrightarrow> u' = s) \<and> (u = t \<or> u = s \<longrightarrow> cowKey C0 < cowKey C)"
    if "spaces ?W u = Some C" for u C
  proof (cases "u = s \<or> u = t")
    case True
    then have "C = A' \<or> C = B" using that by (auto split: if_splits)
    then show ?thesis using True A key up t world_okD(1) [OF ok A(1)] by (intro exI [of _ s] exI [of _ A]) auto
  next
    case False
    then have "spaces W u = Some C" using that by (simp split: if_splits)
    with False world_okD(1) [OF ok this] show ?thesis by (intro exI [of _ u] exI [of _ C]) auto
  qed
  have "world_ok (Suc n) ?W" unfolding world_ok_def
  proof (intro conjI allI impI)
    fix u C assume "spaces ?W u = Some C"
    from old [OF this] show "space_ok C" "unat (cowKey C) \<le> Suc n + 1" by blast+
  next
    fix u C b p assume C: "spaces ?W u = Some C" "bound C b = Some p"
    then obtain u' C0 where C0: "spaces W u' = Some C0" "bound C0 b = Some p" "cowKey C0 \<le> cowKey C"
      using old [OF C(1)] by force
    then show "p < length (cells ?W)" "copyOnWriteOwner (cells ?W ! p) \<le> cowKey C"
      using world_okD(2) [OF ok C0(1,2)] by auto
  next
    fix u C b v D d p
    assume h: "spaces ?W u = Some C" "spaces ?W v = Some D" "bound C b = Some p" "bound D d = Some p"
    obtain u' C0 where 1: "spaces W u' = Some C0" "bound C0 b = Some p" "cowKey C0 \<le> cowKey C" "u \<noteq> t \<longrightarrow> u' = u"
        "u = t \<longrightarrow> u' = s" "u = t \<or> u = s \<longrightarrow> cowKey C0 < cowKey C"
      using old [OF h(1)] h(3) by force
    obtain v' D0 where 2: "spaces W v' = Some D0" "bound D0 d = Some p" "v \<noteq> t \<longrightarrow> v' = v" "v = t \<longrightarrow> v' = s"
      using old [OF h(2)] h(4) by force
    note w = world_okD(3) [OF ok 1(1) 2(1) 1(2) 2(2)] and owned = world_okD(2) [OF ok 1(1,2)]
    show "b = d" using w by blast
    show "copyOnWriteOwner (cells ?W ! p) < cowKey C" if "u \<noteq> v"
    proof (cases "u = t \<or> u = s")
      case True
      then show ?thesis using 1(6) owned le_less_trans by auto
    next
      case False
      then have "u' \<noteq> v'" using 1(4) 2(3,4) that by blast
      then show ?thesis using w 1(3) less_le_trans by auto
    qed
  qed (use world_okD(4,5) [OF ok] in auto)
  moreover have "memory_of \<sigma> ?W = (memory_of \<sigma> W)(t := memory_of \<sigma> W s)" for \<sigma>
    using A t key by (auto simp: memory_of_def bound_def [symmetric] fun_eq_iff)
  ultimately show ?thesis using coherent_world_cells [of ?W W] by (simp add: advances_def)
qed

context memory_env
begin

lemma alloc_advances:
  assumes ok: "world_ok n W" and A: "spaces W s = Some A" and K: "UseConstantArrays K"
  shows "\<exists>os A' H'. bindObjectInState K mo (A, cells W, globals W) = Some (os, A', H', globals W) \<and>
    advances le n W (Alloc s mo) \<lparr>spaces = (spaces W)(s \<mapsto> A'), cells = H', globals = globals W\<rparr>"
proof -
  let ?S = "blank_state (unat (mo_size mo)) None" and ?p = "length (cells W)"
  have sz: "unat (mo_size mo) < 2 ^ 32" using unsigned_less [of "mo_size mo"] by simp
  note S = blank_state_ok [OF sz, of None, simplified]
  obtain A' H' where b: "bindObject mo ?p (A, cells W @ [\<lparr>cell_state = ?S, copyOnWriteOwner = 0\<rparr>]) = Some (A', H')"
      "cell_state (H' ! ?p) = ?S" "rebinds s mo ?p W (W\<lparr>spaces := (spaces W)(s \<mapsto> A'), cells := H'\<rparr>)"
    using bindObject_rebinds [OF ok A] by blast
  have "advances le n W (Alloc s mo) (W\<lparr>spaces := (spaces W)(s \<mapsto> A'), cells := H'\<rparr>)"
    by (rule rebinds_advances [OF ok b(3)]) (use b(2) S world_okD(5) [OF ok] in auto)
  moreover have "W\<lparr>spaces := sp, cells := H'\<rparr> = \<lparr>spaces = sp, cells = H', globals = globals W\<rparr>" for sp by (cases W) simp
  ultimately show ?thesis using b(1) K by (simp add: bindObjectInState_def new_state_def Let_def)
qed

lemma read_advances:
  assumes ok: "world_ok n W" and b: "spaces W s = Some A" "findObject A mo = Some os"
    and acc: "access_ok K (cell_state (cells W ! os)) off w"
  shows "\<exists>r H' G'. memory_read K os off w (cells W, globals W) = Some (r, H', G') \<and>
    advances (isLittleEndian K) n W (Read s mo off w r) (W\<lparr>cells := H', globals := G'\<rparr>)"
proof -
  have "os_ok (cell_state (cells W ! os))" using world_okD(2) [OF ok b(1)] b(2) by (auto simp: findObject_bound)
  from os_read_right [OF this world_okD(5) [OF ok] acc]
  obtain r S' G' where r: "os_read K off w (cell_state (cells W ! os), globals W) = Some (r, (S', G'))"
      "keeps_contents (cell_state (cells W ! os)) S'" "array_cache_ok (arrays G')"
    and load: "\<And>\<sigma> v. assign_ok \<sigma> \<Longrightarrow> coherent \<sigma> (cell_state (cells W ! os)) \<Longrightarrow>
      mem_load (isLittleEndian K) (contents \<sigma> (cell_state (cells W ! os))) (address \<sigma> off) w = Some v \<Longrightarrow> eval \<sigma> r = v"
    unfolding delivers_def by blast
  have "advances (isLittleEndian K) n W (Read s mo off w r)
      (W\<lparr>cells := (cells W)[os := (cells W ! os)\<lparr>cell_state := S'\<rparr>], globals := G'\<rparr>)"
  proof (rule same_advances [OF ok b refl _ r(3)])
    fix \<sigma> assume a: "assign_ok \<sigma>" "coherent \<sigma> (cell_state (cells W ! os))"
    obtain m where "memory_of \<sigma> W s = Some m" "m (mo_address mo) = Some (contents \<sigma> (cell_state (cells W ! os)))"
      using memory_at [OF b] by blast
    then have "read_right (isLittleEndian K) \<sigma> (Read s mo off w r) (memory_of \<sigma> W)"
      using load [OF a] by (auto split: option.split)
    with a r(2) show "coherent \<sigma> S' \<and> contents \<sigma> S' = contents \<sigma> (cell_state (cells W ! os)) \<and>
        read_right (isLittleEndian K) \<sigma> (Read s mo off w r) (memory_of \<sigma> W)"
      by (simp add: refines_def)
  qed (use r(2) in \<open>simp_all add: refines_def\<close>)
  with r(1) show ?thesis by (simp add: memory_read_def)
qed

lemma write_advances:
  assumes ok: "world_ok n W" and b: "spaces W s = Some A" "findObject A mo = Some os"
    and acc: "access_ok K (cell_state (cells W ! os)) off (getWidth v)" and v: "wt v"
    and w: "\<not> readOnly (cell_state (cells W ! os))"
  shows "\<exists>A' H'. memory_write K mo os off v (A, cells W) = Some (Inr (A', H')) \<and>
    advances (isLittleEndian K) n W (Write s mo off v) (W\<lparr>spaces := (spaces W)(s \<mapsto> A'), cells := H'\<rparr>)"
proof -
  let ?S = "cell_state (cells W ! os)"
  obtain q A' H' where g: "getWriteable mo os (A, cells W) = Some (q, A', H')" "cell_state (H' ! q) = ?S"
      "rebinds s mo q W (W\<lparr>spaces := (spaces W)(s \<mapsto> A'), cells := H'\<rparr>)"
    using getWriteable_rebinds [OF ok b w] by blast
  have p: "os < length (cells W)" "os_ok ?S" using world_okD(2) [OF ok b(1)] b(2) by (auto simp: findObject_bound)
  obtain S' where S': "os_write K off v ?S = Some S'" "os_ok S'"
    and st: "\<And>\<sigma> m. assign_ok \<sigma> \<Longrightarrow> coherent \<sigma> ?S \<Longrightarrow> coherent \<sigma> S' \<and>
      (mem_store (isLittleEndian K) (contents \<sigma> ?S) (address \<sigma> off) (getWidth v) (eval \<sigma> v) = Some m \<longrightarrow> contents \<sigma> S' = m)"
    using os_write_right [OF p(2) v acc] unfolding stores_def by blast
  let ?H = "H'[q := (H' ! q)\<lparr>cell_state := S'\<rparr>]"
  have re: "rebinds s mo q W (W\<lparr>spaces := (spaces W)(s \<mapsto> A'), cells := ?H\<rparr>)"
    using rebinds_store [OF g(3), of S'] by simp
  have q: "q < length H'" using g(3) by (simp add: rebinds_def)
  have "advances (isLittleEndian K) n W (Write s mo off v) (W\<lparr>spaces := (spaces W)(s \<mapsto> A'), cells := ?H\<rparr>)"
  proof (rule rebinds_advances [OF ok re])
    fix \<sigma> assume a: "assign_ok \<sigma>" "coherent_world \<sigma> W"
    then have c: "coherent \<sigma> ?S" using p(1) by (simp add: coherent_world_def)
    obtain m where "memory_of \<sigma> W s = Some m" "m (mo_address mo) = Some (contents \<sigma> ?S)" using memory_at [OF b] by blast
    then show "coherent \<sigma> (cell_state (cells (W\<lparr>spaces := (spaces W)(s \<mapsto> A'), cells := ?H\<rparr>) ! q)) \<and>
      read_right (isLittleEndian K) \<sigma> (Write s mo off v) (memory_of \<sigma> W) \<and>
      (\<forall>M. memory_after (isLittleEndian K) \<sigma> (Write s mo off v) (memory_of \<sigma> W) = Some M \<longrightarrow>
        M = update_memory s mo (\<lambda>_. Some (contents \<sigma> (cell_state (cells (W\<lparr>spaces := (spaces W)(s \<mapsto> A'), cells := ?H\<rparr>) ! q))))
          (memory_of \<sigma> W))"
      using st [OF a(1) c] q by (auto split: bind_splits)
  qed (use q S'(2) world_okD(5) [OF ok] in auto)
  with g(1,2) S'(1) w show ?thesis by (simp add: memory_write_def)
qed

end

lemma read_only_advances:
  assumes ok: "world_ok n W" and b: "spaces W s = Some A" "findObject A mo = Some os"
  shows "advances le n W (SetReadOnly s mo)
    (W\<lparr>cells := (cells W)[os := (cells W ! os)\<lparr>cell_state := cell_state (cells W ! os)\<lparr>readOnly := True\<rparr>\<rparr>]\<rparr>)"
proof -
  let ?S = "cell_state (cells W ! os)\<lparr>readOnly := True\<rparr>"
  have bits: "isByteConcrete (S\<lparr>readOnly := True\<rparr>) = isByteConcrete S" "isByteFlushed (S\<lparr>readOnly := True\<rparr>) = isByteFlushed S"
    "known (S\<lparr>readOnly := True\<rparr>) = known S" "os_root (S\<lparr>readOnly := True\<rparr>) = os_root S" for S
    by (auto simp: fun_eq_iff isByteConcrete_def isByteFlushed_def known_def os_root_def split: option.split)
  have vals: "cache_value \<sigma> (S\<lparr>readOnly := True\<rparr>) = cache_value \<sigma> S"
    "flushed_value \<sigma> (S\<lparr>readOnly := True\<rparr>) = flushed_value \<sigma> S" for S \<sigma>
    by (simp_all add: fun_eq_iff cache_value_def flushed_value_def bits)
  then have byte: "byte_value \<sigma> (S\<lparr>readOnly := True\<rparr>) = byte_value \<sigma> S" for S \<sigma>
    by (auto simp: fun_eq_iff byte_value_def split: option.split)
  have S: "os_ok (S\<lparr>readOnly := True\<rparr>) = os_ok S" "coherent \<sigma> (S\<lparr>readOnly := True\<rparr>) = coherent \<sigma> S"
    "contents \<sigma> (S\<lparr>readOnly := True\<rparr>) = contents \<sigma> S" for S \<sigma>
    by (simp_all add: os_ok_def masks_ok_def typed_ok_def cache_invariant_def coherent_def contents_def
      bits vals byte)
  have "os_ok (cell_state (cells W ! os))" using world_okD(2) [OF ok b(1)] b(2) by (auto simp: findObject_bound)
  then show ?thesis
    by (intro same_advances [OF ok b, where S = ?S and G = "globals W"]) (simp_all add: S world_okD(5) [OF ok])
qed

lemma forks_append [simp]: "forks (es @ fs) = forks es + forks fs"
proof (induction es)
  case (Cons e es)
  then show ?case by (cases e) simp_all
qed simp

lemma memories_after_append:
  "memories_after le \<sigma> (es @ [e]) M = do { M \<leftarrow> memories_after le \<sigma> es M; memory_after le \<sigma> e M }"
  by (induction es arbitrary: M) (auto split: bind_splits)

lemma reads_right_append:
  "memories_after le \<sigma> es M = Some M' \<Longrightarrow> reads_right le \<sigma> (es @ [e]) M \<longleftrightarrow> reads_right le \<sigma> es M \<and> read_right le \<sigma> e M'"
  by (induction es arbitrary: M) (auto split: option.splits bind_splits)

context memory_env
begin

lemma step_advances:
  assumes ok: "world_ok n W" and st: "mem_step K W e W'" and n: "n + forks [e] + 1 < 2 ^ 32" and K: "UseConstantArrays K"
  shows "advances (isLittleEndian K) (n + forks [e]) W e W'"
  using st
proof cases
  case (do_alloc s A mo os A' H' G')
  then show ?thesis using alloc_advances [OF ok do_alloc(3) K, of mo] by auto
next
  case (do_read s A mo os off w r H' G')
  then show ?thesis using read_advances [OF ok do_read(3-5)] by auto
next
  case (do_write s A mo os v off A' H')
  then have "\<not> readOnly (cell_state (cells W ! os))" by (auto simp: memory_write_def)
  then show ?thesis using write_advances [OF ok do_write(3,4,6,5)] do_write by auto
next
  case (do_fork s A t A' B)
  then show ?thesis using fork_advances [OF ok do_fork(3-4) _ do_fork(5)] n by simp
qed (use unbind_advances [OF ok] drop_advances [OF ok] write_fails_advances [OF ok] read_only_advances [OF ok] in auto)

lemma mem_run_right:
  assumes "mem_run K (first_world G) es W" "array_cache_ok (arrays G)" "forks es + 1 < 2 ^ 32" "UseConstantArrays K"
  shows "world_ok (forks es) W \<and> (\<forall>\<sigma>. assign_ok \<sigma> \<longrightarrow> coherent_world \<sigma> W \<and>
    (\<forall>M. memories_after (isLittleEndian K) \<sigma> es (memory_of \<sigma> (first_world G)) = Some M \<longrightarrow>
       memory_of \<sigma> W = M \<and> reads_right (isLittleEndian K) \<sigma> es (memory_of \<sigma> (first_world G))))"
  using assms(1,3)
proof (induction "first_world G" es W)
  case start
  show ?case using assms(2) space_new
    by (auto simp: world_ok_def first_world_def coherent_world_def new_space_def split: if_splits)
next
  case (run es W e W')
  then have ok: "world_ok (forks es) W" by simp
  have "advances (isLittleEndian K) (forks es + forks [e]) W e W'"
    using run.prems by (intro step_advances [OF ok run.hyps(3) _ assms(4)]) simp
  then show ?case using run(2,4)
    by (auto simp: advances_def memories_after_append reads_right_append split: bind_splits)
qed

end

subsection \<open>Properties\<close>

lemma first_memory: "memory_of \<sigma> (first_world G) = [0 \<mapsto> Map.empty]"
  using space_new by (auto simp: memory_of_def first_world_def bound_def [symmetric] fun_eq_iff)

text \<open>C38: forked states never see each other's writes. In any run that starts with one state with an empty memory and makes
  fewer than 2 ^ 32 - 1 forks, in which the states share object states and copy them on write, each state holds under
  every assignment the bytes it would hold with a memory of its own, as far as the writes are in bounds under the
  assignment, and every read delivered them. In every state that is reached a read of a bound object at a fitting offset
  returns, and a write does if the object is not read-only.\<close>

theorem forked_memory_isolated:
  assumes "memory_env K" "UseConstantArrays K" "array_cache_ok (arrays G)"
    and "mem_run K (first_world G) es W" "forks es < 2 ^ 32 - 1"
  shows "(\<forall>\<sigma> M. assign_ok \<sigma> \<and> memories_after (isLittleEndian K) \<sigma> es [0 \<mapsto> Map.empty] = Some M \<longrightarrow>
      memory_of \<sigma> W = M \<and> reads_right (isLittleEndian K) \<sigma> es [0 \<mapsto> Map.empty]) \<and>
    (\<forall>s A mo os off. spaces W s = Some A \<and> findObject A mo = Some os \<longrightarrow>
      (\<forall>w. access_ok K (cell_state (cells W ! os)) off w \<longrightarrow> (\<exists>r W'. mem_step K W (Read s mo off w r) W')) \<and>
      (\<forall>v. wt v \<and> access_ok K (cell_state (cells W ! os)) off (getWidth v) \<longrightarrow>
        (\<exists>W'. mem_step K W (if readOnly (cell_state (cells W ! os)) then WriteFails s mo else Write s mo off v) W')))"
proof -
  have n: "forks es + 1 < 2 ^ 32" using assms(5) by simp
  note run = memory_env.mem_run_right [OF assms(1,4,3) n assms(2)]
  note steps = mem_step.do_read mem_step.do_write mem_step.do_fail
  have "\<exists>r W'. mem_step K W (Read s mo off w r) W'"
    if "spaces W s = Some A" "findObject A mo = Some os" "access_ok K (cell_state (cells W ! os)) off w" for s A mo os off w
    using memory_env.read_advances [OF assms(1) conjunct1 [OF run] that] steps(1) [OF that] by blast
  moreover have "\<exists>W'. mem_step K W (if readOnly (cell_state (cells W ! os)) then WriteFails s mo else Write s mo off v) W'"
    if b: "spaces W s = Some A" "findObject A mo = Some os" and v: "wt v" "access_ok K (cell_state (cells W ! os)) off (getWidth v)"
    for s A mo os off v
  proof (cases "readOnly (cell_state (cells W ! os))")
    case True
    then have "memory_write K mo os off v (A, cells W) = Some (Inl ReadOnly)" by (simp add: memory_write_def)
    from steps(3) [OF b this] True show ?thesis by auto
  next
    case False
    with memory_env.write_advances [OF assms(1) conjunct1 [OF run] b v(2,1)] steps(2) [OF b v] show ?thesis by auto
  qed
  ultimately show ?thesis using run unfolding first_memory by blast
qed

text \<open>An object of eight bytes, a fork, and a write of 16 bits at a symbolic offset by the first state.\<close>

definition sample_object :: memory_object where
  "sample_object = \<lparr>mo_id = 1, mo_address = 4096, mo_size = 8, isUserSpecified = False\<rparr>"

definition sample_space :: "32 word \<Rightarrow> address_space" where
  "sample_space k = \<lparr>cowKey = k, objects = newNode Terminator Terminator (sample_object, 0)\<rparr>"

lemma sample_run:
  defines "W \<equiv> \<lparr>spaces = [0 \<mapsto> sample_space 2, Suc 0 \<mapsto> sample_space 2],
    cells = [\<lparr>cell_state = blank_state 8 None, copyOnWriteOwner = 1\<rparr>], globals = empty_globals\<rparr>"
  shows "\<exists>W'. mem_run (std_mem True) (first_world empty_globals)
    [Alloc 0 sample_object, Fork 0 1, Write 0 sample_object sample_offset sample_value] W'"
proof -
  let ?K = "std_mem True"
  let ?W1 = "\<lparr>spaces = [0 \<mapsto> sample_space 1], cells = [\<lparr>cell_state = blank_state 8 None, copyOnWriteOwner = 1\<rparr>],
    globals = empty_globals\<rparr>"
  have K: "UseConstantArrays ?K"
    by (simp add: std_mem_def expr_env.extend_def mem_env.fields_def std_env_def apint_ops.extend_def expr_env.fields_def)
  have "mem_step ?K (first_world empty_globals) (Alloc 0 sample_object) ?W1"
    using mem_step.do_alloc [of "first_world empty_globals" 0 new_space ?K sample_object 0 "sample_space 1"
        "[\<lparr>cell_state = blank_state 8 None, copyOnWriteOwner = 1\<rparr>]" empty_globals] K
    by (simp add: first_world_def bindObjectInState_def new_state_def bindObject_def new_space_def sample_space_def sample_object_def)
  from mem_run.run [OF mem_run.start this] have r1: "mem_run ?K (first_world empty_globals) [Alloc 0 sample_object] ?W1" by simp
  have "mem_step ?K ?W1 (Fork 0 1) W"
    using mem_step.do_fork [of ?W1 0 "sample_space 1" 1 "sample_space 2" "sample_space 2" ?K]
    by (simp add: copy_space_def sample_space_def W_def Let_def)
  from mem_run.run [OF r1 this] have r2: "mem_run ?K (first_world empty_globals) [Alloc 0 sample_object, Fork 0 1] W" by simp
  have ok: "world_ok 1 W" using std_m.mem_run_right [OF r2 sample_access(3) _ K] by simp
  have "access_ok ?K (cell_state (cells W ! 0)) sample_offset (getWidth sample_value)"
    using sample_access(5,7) by (simp add: W_def)
  moreover have "findObject (sample_space 2) sample_object = Some 0" "spaces W 0 = Some (sample_space 2)"
    "\<not> readOnly (cell_state (cells W ! 0))"
    by (simp_all add: findObject_def sample_space_def map_ops_def MemoryObjectLT_def newNode_def W_def blank_state_def)
  ultimately have "\<exists>W'. mem_step ?K W (Write 0 sample_object sample_offset sample_value) W'"
    using std_m.write_advances [OF ok _ _ _ sample_access(4)] mem_step.do_write [OF _ _ sample_access(4)] by blast
  with mem_run.run [OF r2] show ?thesis by fastforce
qed

theorem forked_memory_isolated_witness:
  "\<exists>W. mem_run (std_mem True) (first_world empty_globals)
      [Alloc 0 sample_object, Fork 0 1, Write 0 sample_object sample_offset sample_value] W \<and>
    memory_of seq_assignment W = [0 \<mapsto> [4096 \<mapsto> [0, 0, 0, 5, 4, 0, 0, 0]], 1 \<mapsto> [4096 \<mapsto> [0, 0, 0, 0, 0, 0, 0, 0]]]"
proof -
  have K: "UseConstantArrays (std_mem True)"
    by (simp add: std_mem_def expr_env.extend_def mem_env.fields_def std_env_def apint_ops.extend_def expr_env.fields_def)
  have "mem_store True [0, 0, 0, 0, 0, 0, 0, 0] 3 16 1029 = Some [0, 0, 0, 5, 4, 0, 0, 0]" by code_simp
  moreover have "replicate (unat (8 :: 32 word)) (0 :: int) = [0, 0, 0, 0, 0, 0, 0, 0]" by code_simp
  ultimately have "memories_after True seq_assignment
      [Alloc 0 sample_object, Fork 0 1, Write 0 sample_object sample_offset sample_value] [0 \<mapsto> Map.empty] =
    Some [0 \<mapsto> [4096 \<mapsto> [0, 0, 0, 5, 4, 0, 0, 0]], 1 \<mapsto> [4096 \<mapsto> [0, 0, 0, 0, 0, 0, 0, 0]]]"
    using sample_access(5,6,8) by (simp add: update_memory_def sample_object_def fun_upd_twist [of 0 "Suc 0"])
  then have mem: "assign_ok seq_assignment \<and> memories_after (isLittleEndian (std_mem True)) seq_assignment
      [Alloc 0 sample_object, Fork 0 1, Write 0 sample_object sample_offset sample_value] [0 \<mapsto> Map.empty] =
    Some [0 \<mapsto> [4096 \<mapsto> [0, 0, 0, 5, 4, 0, 0, 0]], 1 \<mapsto> [4096 \<mapsto> [0, 0, 0, 0, 0, 0, 0, 0]]]"
    using seq_assign_ok by simp
  obtain W where W: "mem_run (std_mem True) (first_world empty_globals)
      [Alloc 0 sample_object, Fork 0 1, Write 0 sample_object sample_offset sample_value] W" using sample_run by blast
  have "forks [Alloc 0 sample_object, Fork 0 1, Write 0 sample_object sample_offset sample_value] < 2 ^ 32 - 1" by simp
  from forked_memory_isolated [OF std_m.memory_env_axioms K sample_access(3) W this] mem W show ?thesis by blast
qed

end
