(* ===== verification/TimingSolver.thy ===== *)
theory TimingSolver
  imports Constraints
begin

section \<open>Queries of a state (lib/Core/TimingSolver.cpp)\<close>

text \<open>
  \<^verbatim>\<open>TimingSolver\<close> asks the solver questions about an expression under the constraints \<open>cs\<close> of a state. A constant
  is answered at once; another expression is first simplified under the constraints, if the option says so. The
  simplification runs on the fuel \<open>n\<close>. Times and statistics are left out. A result is that of the methods of
  \<^verbatim>\<open>Solver\<close>: \<open>None\<close> inside when the C++ method returns false.
\<close>

record 's timing_solver =
  solver :: "'s solver_impl"
  simplifyExprs :: bool

definition query_expr :: "nat \<Rightarrow> 'z expr_env_scheme \<Rightarrow> 's timing_solver \<Rightarrow> expr list \<Rightarrow> expr \<Rightarrow> query option" where
  "query_expr n K T cs e = do {
     e \<leftarrow> (if simplifyExprs T then simplifyExpr n K cs e else Some e);
     Some \<lparr>q_constraints = cs, q_expr = e\<rparr> }"

definition ts_evaluate ::
  "nat \<Rightarrow> 'z expr_env_scheme \<Rightarrow> 's timing_solver \<Rightarrow> expr list \<Rightarrow> expr \<Rightarrow> 's \<Rightarrow> (validity option \<times> 's) option" where
  "ts_evaluate n K T cs e s =
     (case as_const e of
        Some c \<Rightarrow> Some (Some (if ap_isTrue c then VTrue else VFalse), s)
      | None \<Rightarrow> do { q \<leftarrow> query_expr n K T cs e; solver_evaluate (solver T) q s })"

definition ts_mustBeTrue ::
  "nat \<Rightarrow> 'z expr_env_scheme \<Rightarrow> 's timing_solver \<Rightarrow> expr list \<Rightarrow> expr \<Rightarrow> 's \<Rightarrow> (bool option \<times> 's) option" where
  "ts_mustBeTrue n K T cs e s =
     (case as_const e of
        Some c \<Rightarrow> Some (Some (ap_isTrue c), s)
      | None \<Rightarrow> do { q \<leftarrow> query_expr n K T cs e; mustBeTrue (solver T) q s })"

definition ts_mustBeFalse ::
  "nat \<Rightarrow> 'z expr_env_scheme \<Rightarrow> 's timing_solver \<Rightarrow> expr list \<Rightarrow> expr \<Rightarrow> 's \<Rightarrow> (bool option \<times> 's) option" where
  "ts_mustBeFalse n K T cs e s = ts_mustBeTrue n K T cs (createIsZero K e) s"

definition ts_mayBeTrue ::
  "nat \<Rightarrow> 'z expr_env_scheme \<Rightarrow> 's timing_solver \<Rightarrow> expr list \<Rightarrow> expr \<Rightarrow> 's \<Rightarrow> (bool option \<times> 's) option" where
  "ts_mayBeTrue n K T cs e s = do {
     (res, s) \<leftarrow> ts_mustBeFalse n K T cs e s;
     Some (map_option (\<lambda>b. \<not> b) res, s) }"

definition ts_mayBeFalse ::
  "nat \<Rightarrow> 'z expr_env_scheme \<Rightarrow> 's timing_solver \<Rightarrow> expr list \<Rightarrow> expr \<Rightarrow> 's \<Rightarrow> (bool option \<times> 's) option" where
  "ts_mayBeFalse n K T cs e s = do {
     (res, s) \<leftarrow> ts_mustBeTrue n K T cs e s;
     Some (map_option (\<lambda>b. \<not> b) res, s) }"

definition ts_getValue ::
  "nat \<Rightarrow> 'z expr_env_scheme \<Rightarrow> 's timing_solver \<Rightarrow> expr list \<Rightarrow> expr \<Rightarrow> 's \<Rightarrow> (apint option \<times> 's) option" where
  "ts_getValue n K T cs e s =
     (case as_const e of
        Some c \<Rightarrow> Some (Some c, s)
      | None \<Rightarrow> do { q \<leftarrow> query_expr n K T cs e; getValue (solver T) q s })"

definition ts_getInitialValues ::
  "'z expr_env_scheme \<Rightarrow> 's timing_solver \<Rightarrow> expr list \<Rightarrow> array list \<Rightarrow> byte list list \<Rightarrow> 's \<Rightarrow>
   ((bool \<times> byte list list) \<times> 's) option" where
  "ts_getInitialValues K T cs arrs vals s =
     (if arrs = [] then Some ((True, vals), s)
      else getInitialValues (solver T)
        \<lparr>q_constraints = cs, q_expr = ConstantExpr (ConstantExpr_alloc K 0 1)\<rparr> arrs vals s)"

definition ts_getRange ::
  "'z expr_env_scheme \<Rightarrow> 's timing_solver \<Rightarrow> expr list \<Rightarrow> expr \<Rightarrow> 's \<Rightarrow> ((expr \<times> expr) \<times> 's) option" where
  "ts_getRange K T cs e s = getRange K (solver T) \<lparr>q_constraints = cs, q_expr = e\<rparr> s"

subsection \<open>What a state can be asked\<close>

text \<open>The assignments of a state, and the expressions that its solver answers for: no divisor of theirs can be zero.\<close>

definition models :: "expr list \<Rightarrow> assignment set" where
  "models cs = {\<sigma>. assign_ok \<sigma> \<and> holds \<sigma> cs}"

definition path_ok :: "expr list \<Rightarrow> bool" where
  "path_ok cs \<longleftrightarrow> models cs \<noteq> {} \<and> (\<forall>\<sigma> \<in> models cs. \<forall>c \<in> set cs. constraint_ok (nonzero \<sigma>) c)"

definition can_ask ::
  "(query \<Rightarrow> bool) \<Rightarrow> nat \<Rightarrow> 'z expr_env_scheme \<Rightarrow> 's timing_solver \<Rightarrow> expr list \<Rightarrow> expr \<Rightarrow> bool" where
  "can_ask accepts n K T cs e \<longleftrightarrow> wt e \<and> (\<forall>\<sigma> \<in> models cs. div_ok (nonzero \<sigma>) e) \<and>
     (\<exists>q. query_expr n K T cs e = Some q \<and> accepts q)"

locale timing_laws = solver_laws K "solver T" inv accepts
  for K :: "'z expr_env_scheme" and T :: "'s timing_solver" and inv :: "'s \<Rightarrow> bool" and accepts :: "query \<Rightarrow> bool" +
  fixes n :: nat and cs :: "expr list"
  assumes path: "path_ok cs"
begin

abbreviation asks :: "expr \<Rightarrow> bool" where
  "asks \<equiv> can_ask accepts n K T cs"

lemma query_same:
  assumes "asks e" "query_expr n K T cs e = Some q"
  shows "q_constraints q = cs" "\<And>\<sigma>. \<sigma> \<in> models cs \<Longrightarrow> same \<sigma> e (q_expr q)" "accepts q" "satisfiable q"
proof -
  show c: "q_constraints q = cs" using assms(2) by (auto simp: query_expr_def split: bind_splits)
  show "accepts q" using assms by (auto simp: can_ask_def)
  show "satisfiable q" using path by (auto simp: path_ok_def models_def satisfiable_def c)
  show "same \<sigma> e (q_expr q)" if m: "\<sigma> \<in> models cs" for \<sigma>
  proof (cases "simplifyExprs T")
    case True
    then obtain r where r: "simplifyExpr n K cs e = Some r" "q_expr q = r"
      using assms(2) by (auto simp: query_expr_def split: bind_splits)
    have "satisfied (nonzero \<sigma>) \<sigma> cs" using path m by (auto simp: path_ok_def satisfied_def models_def)
    with simplify_same [OF r(1), of \<sigma>] r(2) m assms(1) show ?thesis by (simp add: models_def can_ask_def)
  next
    case False
    then show ?thesis using assms by (auto simp: query_expr_def can_ask_def same_refl)
  qed
qed

lemma some_model: "\<exists>\<sigma>. \<sigma> \<in> models cs"
  using path by (auto simp: path_ok_def)

lemma query_width: "asks e \<Longrightarrow> query_expr n K T cs e = Some q \<Longrightarrow> getWidth (q_expr q) = getWidth e"
  using query_same(2) some_model by (auto simp: same_def)

lemma valid_models: "asks e \<Longrightarrow> query_expr n K T cs e = Some q \<Longrightarrow> valid q \<longleftrightarrow> (\<forall>\<sigma> \<in> models cs. eval \<sigma> e = 1)"
  using query_same(1,2) by (fastforce simp: valid_def models_def same_def)

lemma constant_model: "as_const e = Some c \<Longrightarrow> wt e \<Longrightarrow> getWidth e = 1 \<Longrightarrow> ap_isTrue c \<longleftrightarrow> (\<forall>\<sigma> \<in> models cs. eval \<sigma> e = 1)"
  using some_model bool_eval by (fastforce simp: as_const_Some ap_isTrue_def models_def)

lemma ts_mustBeTrue_right:
  assumes "inv s" "asks e" "getWidth e = 1" "ts_mustBeTrue n K T cs e s = Some (r, s')"
  shows "inv s' \<and> (\<forall>b. r = Some b \<longrightarrow> b = (\<forall>\<sigma> \<in> models cs. eval \<sigma> e = 1))"
proof (cases "as_const e")
  case None
  then obtain q where q: "query_expr n K T cs e = Some q" "mustBeTrue (solver T) q s = Some (r, s')"
    using assms(4) by (auto simp: ts_mustBeTrue_def split: bind_splits)
  with mustBeTrue_sound [OF assms(1) query_same(3,4) [OF assms(2) q(1)] q(2)] valid_models [OF assms(2) q(1)] show ?thesis by simp
next
  case (Some c)
  with constant_model [OF Some] assms show ?thesis by (auto simp: ts_mustBeTrue_def can_ask_def)
qed

lemma ts_mayBeTrue_right:
  assumes "inv s" "wt e" "asks (createIsZero K e)" "getWidth e = 1" "ts_mayBeTrue n K T cs e s = Some (r, s')"
  shows "inv s' \<and> (\<forall>b. r = Some b \<longrightarrow> b = (\<exists>\<sigma> \<in> models cs. eval \<sigma> e = 1))"
proof -
  obtain r0 where r0: "ts_mustBeTrue n K T cs (createIsZero K e) s = Some (r0, s')" "r = map_option (\<lambda>b. \<not> b) r0"
    using assms(5) by (auto simp: ts_mayBeTrue_def ts_mustBeFalse_def split: bind_splits)
  have "eval \<sigma> (createIsZero K e) = 1 \<longleftrightarrow> eval \<sigma> e \<noteq> 1" if "\<sigma> \<in> models cs" for \<sigma>
    using that isZero_means [of \<sigma> e] bool_eval [of \<sigma> e] assms(2,4) by (auto simp: models_def)
  then show ?thesis using ts_mustBeTrue_right [OF assms(1,3) _ r0(1)] isZero_wt [OF assms(2)] r0(2) by auto
qed

lemma ts_getValue_right:
  assumes "inv s" "asks e" "ts_getValue n K T cs e s = Some (r, s')"
  shows "inv s' \<and> (\<forall>c. r = Some c \<longrightarrow> getBitWidth c = getWidth e \<and> (\<exists>\<sigma> \<in> models cs. eval \<sigma> e = getZExtValue c))"
proof (cases "as_const e")
  case None
  then obtain q where q: "query_expr n K T cs e = Some q" "getValue (solver T) q s = Some (r, s')"
    using assms(3) by (auto simp: ts_getValue_def split: bind_splits)
  have "\<exists>\<sigma> \<in> models cs. eval \<sigma> e = getZExtValue c" if "feasible q (ConstantExpr c)" for c
    using that query_same(1,2) [OF assms(2) q(1)] by (auto simp: feasible_def models_def same_def)
  then show ?thesis
    using getValue_sound [OF assms(1) query_same(3,4) [OF assms(2) q(1)] q(2)] query_width [OF assms(2) q(1)]
    by (auto simp: feasible_def)
next
  case (Some c)
  with some_model assms show ?thesis by (auto simp: ts_getValue_def as_const_Some)
qed

end

text \<open>A solver of which no assertion fails; it may still give no answer.\<close>

definition returns_answers :: "'s solver_impl \<Rightarrow> ('s \<Rightarrow> bool) \<Rightarrow> (query \<Rightarrow> bool) \<Rightarrow> bool" where
  "returns_answers S I accepts \<longleftrightarrow> (\<forall>q s. I s \<and> accepts q \<and> satisfiable q \<longrightarrow>
     (getWidth (q_expr q) = 1 \<longrightarrow> computeTruth S q s \<noteq> None) \<and> computeValue S q s \<noteq> None)"

context timing_laws
begin

lemma ts_mustBeTrue_returns:
  assumes "returns_answers (solver T) inv accepts" "inv s" "asks e" "getWidth e = 1"
  shows "\<exists>r s'. ts_mustBeTrue n K T cs e s = Some (r, s')"
proof -
  obtain q where q: "query_expr n K T cs e = Some q" using assms(3) by (auto simp: can_ask_def)
  note f = query_same [OF assms(3) q] query_width [OF assms(3) q]
  have "\<exists>x. computeTruth (solver T) q s = Some x" using assms(1,2,4) f unfolding returns_answers_def by auto
  then show ?thesis using q f(5) assms(4) by (auto simp: ts_mustBeTrue_def mustBeTrue_def split: option.split)
qed

lemma ts_mayBeTrue_returns:
  assumes "returns_answers (solver T) inv accepts" "inv s" "asks (createIsZero K e)" "wt e"
  shows "\<exists>r s'. ts_mayBeTrue n K T cs e s = Some (r, s')"
  using ts_mustBeTrue_returns [OF assms(1-3)] isZero_wt [OF assms(4)] by (auto simp: ts_mayBeTrue_def ts_mustBeFalse_def)

lemma ts_getValue_returns:
  assumes "returns_answers (solver T) inv accepts" "inv s" "asks e"
  shows "\<exists>r s'. ts_getValue n K T cs e s = Some (r, s')"
proof -
  obtain q where q: "query_expr n K T cs e = Some q" using assms(3) by (auto simp: can_ask_def)
  note f = query_same [OF assms(3) q]
  obtain r s' where v: "computeValue (solver T) q s = Some (r, s')" using assms(1,2) f unfolding returns_answers_def by fastforce
  have "\<exists>c. x = ConstantExpr c" if "r = Some x" for x
    using value_ok [OF assms(2) f(3,4) v] that by (auto simp: feasible_def)
  then show ?thesis using q v by (cases r) (auto simp: ts_getValue_def getValue_def split: option.split)
qed

end

end
