(* ===== verification/Resolution.thy ===== *)
theory Resolution
  imports TimingSolver AddressSpace
begin

section \<open>Resolution of pointers (AddressSpace::resolveOne, AddressSpace::resolve)\<close>

text \<open>
  A pointer is an expression; the solver is asked which objects it can point to under the constraints of the
  state. The search starts at an example value and goes down and up through the map until the rest is ruled
  out. \<open>late mo\<close> is the outcome of the time check at an object.
\<close>

type_synonym object_pair = "memory_object \<times> nat"

subsection \<open>Iterators as lists\<close>

text \<open>The elements that \<^verbatim>\<open>while (oi != begin) --oi\<close> and \<^verbatim>\<open>for (; oi != end; ++oi)\<close> meet, at most \<open>k\<close>.\<close>

fun walk_back :: "nat \<Rightarrow> 'v node \<Rightarrow> 'v stack \<Rightarrow> 'v list" where
  "walk_back 0 root oi = []"
| "walk_back (Suc k) root oi =
     (if oi = it_begin root then []
      else let oi = it_prev root oi in
        case it_deref oi of None \<Rightarrow> [] | Some v \<Rightarrow> v # walk_back k root oi)"

fun walk_forward :: "nat \<Rightarrow> 'v stack \<Rightarrow> 'v list" where
  "walk_forward 0 oi = []"
| "walk_forward (Suc k) oi = (case oi of [] \<Rightarrow> [] | n # ns \<Rightarrow> node_value n # walk_forward k (advance n ns))"

lemma push_left_begin: "path t (n # st) \<Longrightarrow> before n st = [] \<Longrightarrow> push_left n st = push_left t []"
proof (induction st arbitrary: n)
  case (Cons p ps)
  then have n: "n = node_left p" "before p ps = []" by (auto split: if_splits)
  have p: "path t (p # ps)" using Cons.prems(1) by (rule path_tl)
  then have "p \<noteq> Terminator" by (cases ps) auto
  then have "push_left n (p # ps) = push_left p ps" using n(1) by (cases p) auto
  with Cons.IH [OF p n(2)] show ?case by simp
qed simp

context tree_order
begin

lemma preceding_begin:
  assumes "path t st" "bst C t"
  shows "preceding t st = [] \<longleftrightarrow> st = it_begin t"
proof
  assume "st = it_begin t"
  with preceding_remaining [OF path_begin assms(2)] remaining_begin [of t] show "preceding t st = []" by simp
next
  assume e: "preceding t st = []"
  show "st = it_begin t"
  proof (cases st)
    case Nil
    with e show ?thesis by (cases t) (simp_all add: it_begin_def)
  next
    case (Cons n ps)
    with e have "before n ps = []" "node_left n = Terminator" by (auto, cases "node_left n", auto)
    moreover have "n \<noteq> Terminator" using assms(1) Cons by (cases ps) auto
    ultimately show ?thesis
      using push_left_begin [of t n ps] assms(1) Cons by (cases n) (simp_all add: it_begin_def)
  qed
qed

lemma walk_back_all:
  assumes "bst C t"
  shows "path t st \<Longrightarrow> length (preceding t st) \<le> k \<Longrightarrow> walk_back k t st = rev (preceding t st)"
proof (induction k arbitrary: st)
  case (Suc k)
  show ?case
  proof (cases "preceding t st = []")
    case True
    then show ?thesis using preceding_begin [OF Suc.prems(1) assms] by simp
  next
    case False
    let ?st = "it_prev t st"
    note p = prev_preceding [OF Suc.prems(1) assms False] and pp = path_prev [OF Suc.prems(1)]
    obtain ys x where x: "preceding t st = ys @ [x]" using False by (cases "preceding t st" rule: rev_cases) auto
    obtain m ps where st: "?st = m # ps" using p by (cases ?st) auto
    have ys: "preceding t ?st = ys" using p x by simp
    have "ys @ remaining ?st = (ys @ [x]) @ remaining st"
      using preceding_remaining [OF pp assms] preceding_remaining [OF Suc.prems(1) assms] unfolding ys x by simp
    then have "it_deref ?st = Some x" using st by simp
    moreover have "walk_back k t ?st = rev ys" using Suc.IH [OF pp] Suc.prems(2) x ys by simp
    moreover have "st \<noteq> it_begin t" using False preceding_begin [OF Suc.prems(1) assms] by blast
    ultimately show ?thesis using x by (simp add: Let_def)
  qed
qed simp

lemma walk_forward_all:
  assumes "bst C t"
  shows "path t st \<Longrightarrow> length (remaining st) \<le> k \<Longrightarrow> walk_forward k st = remaining st"
proof (induction k arbitrary: st)
  case (Suc k)
  show ?case
  proof (cases st)
    case (Cons n ps)
    have "remaining (advance n ps) = tl (remaining (n # ps))" using next_remaining [of t n ps] Suc.prems(1) Cons assms by simp
    moreover have "path t (advance n ps)" using path_advance [of t n ps] Suc.prems(1) Cons by simp
    ultimately show ?thesis using Suc.IH [of "advance n ps"] Suc.prems(2) Cons by simp
  qed simp
qed simp

end

subsection \<open>The searches\<close>

text \<open>An object that may be meant was found: \<open>Some b\<close> is an early return of \<open>b\<close>.\<close>

definition note_found ::
  "nat \<Rightarrow> 'z mem_env_scheme \<Rightarrow> 's timing_solver \<Rightarrow> expr list \<Rightarrow> nat \<Rightarrow> expr \<Rightarrow> object_pair list \<Rightarrow> 's \<Rightarrow> (bool option \<times> 's) option" where
  "note_found n K T cs maxResolutions inBounds rl s =
     (if length rl = 1 then do {
        (r, s) \<leftarrow> ts_mustBeTrue n K T cs inBounds s;
        Some (case r of None \<Rightarrow> Some True | Some mustBe \<Rightarrow> if mustBe then Some False else None, s) }
      else Some (if length rl = maxResolutions then Some True else None, s))"

definition try_object ::
  "nat \<Rightarrow> 'z mem_env_scheme \<Rightarrow> 's timing_solver \<Rightarrow> expr list \<Rightarrow> expr \<Rightarrow> nat \<Rightarrow> object_pair \<Rightarrow> object_pair list \<Rightarrow> 's \<Rightarrow>
   ((bool option \<times> object_pair list) \<times> 's) option" where
  "try_object n K T cs p maxResolutions oi rl s = do {
     inBounds \<leftarrow> getBoundsCheckPointer K (fst oi) p;
     (may, s) \<leftarrow> ts_mayBeTrue n K T cs inBounds s;
     case may of None \<Rightarrow> Some ((Some True, rl), s)
     | Some mayBe \<Rightarrow>
         if mayBe then do {
           (ret, s) \<leftarrow> note_found n K T cs maxResolutions inBounds (rl @ [oi]) s;
           Some ((ret, rl @ [oi]), s) }
         else Some ((None, rl), s) }"

fun resolve_back ::
  "nat \<Rightarrow> 'z mem_env_scheme \<Rightarrow> 's timing_solver \<Rightarrow> expr list \<Rightarrow> expr \<Rightarrow> nat \<Rightarrow> (memory_object \<Rightarrow> bool) \<Rightarrow>
   object_pair list \<Rightarrow> object_pair list \<Rightarrow> 's \<Rightarrow> ((bool option \<times> object_pair list) \<times> 's) option" where
  "resolve_back n K T cs p m late [] rl s = Some ((None, rl), s)"
| "resolve_back n K T cs p m late (oi # ois) rl s =
     (if late (fst oi) then Some ((Some True, rl), s)
      else do {
        ((ret, rl), s) \<leftarrow> try_object n K T cs p m oi rl s;
        if ret \<noteq> None then Some ((ret, rl), s)
        else do {
          base \<leftarrow> getBaseExpr K (fst oi);
          (must, s) \<leftarrow> ts_mustBeTrue n K T cs (Binary_make K Uge p base) s;
          case must of None \<Rightarrow> Some ((Some True, rl), s)
          | Some mustBe \<Rightarrow>
              if mustBe then Some ((None, rl), s) else resolve_back n K T cs p m late ois rl s } })"

fun resolve_forward ::
  "nat \<Rightarrow> 'z mem_env_scheme \<Rightarrow> 's timing_solver \<Rightarrow> expr list \<Rightarrow> expr \<Rightarrow> nat \<Rightarrow> (memory_object \<Rightarrow> bool) \<Rightarrow>
   object_pair list \<Rightarrow> object_pair list \<Rightarrow> 's \<Rightarrow> ((bool option \<times> object_pair list) \<times> 's) option" where
  "resolve_forward n K T cs p m late [] rl s = Some ((None, rl), s)"
| "resolve_forward n K T cs p m late (oi # ois) rl s =
     (if late (fst oi) then Some ((Some True, rl), s)
      else do {
        base \<leftarrow> getBaseExpr K (fst oi);
        (must, s) \<leftarrow> ts_mustBeTrue n K T cs (Binary_make K Ult p base) s;
        case must of None \<Rightarrow> Some ((Some True, rl), s)
        | Some mustBe \<Rightarrow>
            if mustBe then Some ((None, rl), s)
            else do {
              ((ret, rl), s) \<leftarrow> try_object n K T cs p m oi rl s;
              if ret \<noteq> None then Some ((ret, rl), s) else resolve_forward n K T cs p m late ois rl s } })"

text \<open>The result is whether the resolution is incomplete, and what it found.\<close>

definition resolve ::
  "nat \<Rightarrow> 'z mem_env_scheme \<Rightarrow> 's timing_solver \<Rightarrow> expr list \<Rightarrow> address_space \<Rightarrow> expr \<Rightarrow> nat \<Rightarrow> (memory_object \<Rightarrow> bool) \<Rightarrow>
   's \<Rightarrow> ((bool \<times> object_pair list) \<times> 's) option" where
  "resolve n K T cs A p maxResolutions late s =
     (case as_const p of
        Some CE \<Rightarrow> do { res \<leftarrow> resolveOne_const A CE; Some ((False, case res of None \<Rightarrow> [] | Some op \<Rightarrow> [op]), s) }
      | None \<Rightarrow> do {
          (cex, s) \<leftarrow> ts_getValue n K T cs p s;
          case cex of None \<Rightarrow> Some ((True, []), s)
          | Some c \<Rightarrow> do {
              example \<leftarrow> CE_getZExtValue c 64;
              let root = objects A;
              let start = upper_bound by_address (hack_object example) root;
              let k = node_size root;
              ((ret, rl), s) \<leftarrow> resolve_back n K T cs p maxResolutions late (walk_back k root start) [] s;
              case ret of Some b \<Rightarrow> Some ((b, rl), s)
              | None \<Rightarrow> do {
                  ((ret, rl), s) \<leftarrow> resolve_forward n K T cs p maxResolutions late (walk_forward k start) rl s;
                  Some ((case ret of Some b \<Rightarrow> b | None \<Rightarrow> False, rl), s) } } })"

text \<open>\<^verbatim>\<open>resolveOne\<close>: \<open>QueryFailed\<close> is an early \<^verbatim>\<open>return false\<close>; \<open>Searched\<close> goes on after the loop.\<close>

datatype search_result = QueryFailed | Found object_pair | Searched

fun one_back ::
  "nat \<Rightarrow> 'z mem_env_scheme \<Rightarrow> 's timing_solver \<Rightarrow> expr list \<Rightarrow> expr \<Rightarrow> object_pair list \<Rightarrow> 's \<Rightarrow> (search_result \<times> 's) option" where
  "one_back n K T cs p [] s = Some (Searched, s)"
| "one_back n K T cs p (oi # ois) s =
     (let mo = fst oi in do {
        inBounds \<leftarrow> getBoundsCheckPointer K mo p;
        (may, s) \<leftarrow> ts_mayBeTrue n K T cs inBounds s;
        case may of None \<Rightarrow> Some (QueryFailed, s)
        | Some mayBe \<Rightarrow>
            if mayBe then Some (Found oi, s)
            else do {
              base \<leftarrow> getBaseExpr K mo;
              (must, s) \<leftarrow> ts_mustBeTrue n K T cs (Binary_make K Uge p base) s;
              case must of None \<Rightarrow> Some (QueryFailed, s)
              | Some mustBe \<Rightarrow> if mustBe then Some (Searched, s) else one_back n K T cs p ois s } })"

fun one_forward ::
  "nat \<Rightarrow> 'z mem_env_scheme \<Rightarrow> 's timing_solver \<Rightarrow> expr list \<Rightarrow> expr \<Rightarrow> object_pair list \<Rightarrow> 's \<Rightarrow> (search_result \<times> 's) option" where
  "one_forward n K T cs p [] s = Some (Searched, s)"
| "one_forward n K T cs p (oi # ois) s =
     (let mo = fst oi in do {
        base \<leftarrow> getBaseExpr K mo;
        (must, s) \<leftarrow> ts_mustBeTrue n K T cs (Binary_make K Ult p base) s;
        case must of None \<Rightarrow> Some (QueryFailed, s)
        | Some mustBe \<Rightarrow>
            if mustBe then Some (Searched, s)
            else do {
              inBounds \<leftarrow> getBoundsCheckPointer K mo p;
              (may, s) \<leftarrow> ts_mayBeTrue n K T cs inBounds s;
              case may of None \<Rightarrow> Some (QueryFailed, s)
              | Some mayBe \<Rightarrow> if mayBe then Some (Found oi, s) else one_forward n K T cs p ois s } })"

text \<open>The result is \<open>None\<close> when \<^verbatim>\<open>resolveOne\<close> returns false, else the object if \<^verbatim>\<open>success\<close>.\<close>

definition resolveOne ::
  "nat \<Rightarrow> 'z mem_env_scheme \<Rightarrow> 's timing_solver \<Rightarrow> expr list \<Rightarrow> address_space \<Rightarrow> expr \<Rightarrow> 's \<Rightarrow>
   (object_pair option option \<times> 's) option" where
  "resolveOne n K T cs A p s =
     (case as_const p of
        Some CE \<Rightarrow> do { res \<leftarrow> resolveOne_const A CE; Some (Some res, s) }
      | None \<Rightarrow> do {
          (cex, s) \<leftarrow> ts_getValue n K T cs p s;
          case cex of None \<Rightarrow> Some (None, s)
          | Some c \<Rightarrow> do {
              example \<leftarrow> CE_getZExtValue c 64;
              let root = objects A;
              let cheap = (case lookup_previous by_address (hack_object example) root of None \<Rightarrow> None
                    | Some (mo, os) \<Rightarrow> if example - mo_address mo < ucast (mo_size mo) then Some (mo, os) else None);
              let start = upper_bound by_address (hack_object example) root;
              let k = node_size root;
              case cheap of Some op \<Rightarrow> Some (Some (Some op), s)
              | None \<Rightarrow> do {
                  (r, s) \<leftarrow> one_back n K T cs p (walk_back k root start) s;
                  case r of QueryFailed \<Rightarrow> Some (None, s) | Found op \<Rightarrow> Some (Some (Some op), s)
                  | Searched \<Rightarrow> do {
                      (r, s) \<leftarrow> one_forward n K T cs p (walk_forward k start) s;
                      Some (case r of QueryFailed \<Rightarrow> None | Found op \<Rightarrow> Some (Some op) | Searched \<Rightarrow> Some None, s) } } } })"

section \<open>What a resolution finds\<close>

definition in_object :: "memory_object \<Rightarrow> int \<Rightarrow> bool" where
  "in_object mo v \<longleftrightarrow> uint (mo_address mo) \<le> v \<and> v < uint (mo_address mo) + uint (mo_size mo) \<or>
     mo_size mo = 0 \<and> v = uint (mo_address mo)"

text \<open>The objects of a map lie in the memory and one after the other.\<close>

definition objects_apart :: "nat \<Rightarrow> memory_map \<Rightarrow> bool" where
  "objects_apart w t \<longleftrightarrow> (\<forall>u \<in> set_node t. uint (mo_address (fst u)) < 2 ^ w \<and>
       uint (mo_address (fst u)) + uint (mo_size (fst u)) \<le> 2 ^ w) \<and>
     (\<forall>u \<in> set_node t. \<forall>v \<in> set_node t. mo_address (fst u) < mo_address (fst v) \<longrightarrow>
       uint (mo_address (fst u)) + uint (mo_size (fst u)) \<le> uint (mo_address (fst v)))"

definition resolvable ::
  "(query \<Rightarrow> bool) \<Rightarrow> nat \<Rightarrow> 'z mem_env_scheme \<Rightarrow> 's timing_solver \<Rightarrow> expr list \<Rightarrow> address_space \<Rightarrow> expr \<Rightarrow> bool" where
  "resolvable accepts n K T cs A p \<longleftrightarrow> (let asks = can_ask accepts n K T cs in
     asks p \<and> getWidth p = pointerWidth K \<and> pointerWidth K \<le> 64 \<and> space_ok A \<and> objects_apart (pointerWidth K) (objects A) \<and>
     (\<forall>(mo, os) \<in> set_node (objects A). \<exists>b e. getBaseExpr K mo = Some b \<and> getBoundsCheckPointer K mo p = Some e \<and>
        asks e \<and> asks (createIsZero K e) \<and> asks (Binary_make K Uge p b) \<and> asks (Binary_make K Ult p b)))"

definition points :: "expr list \<Rightarrow> expr \<Rightarrow> memory_object \<Rightarrow> bool" where
  "points cs p mo \<longleftrightarrow> (\<exists>\<sigma> \<in> models cs. in_object mo (eval \<sigma> p))"

lemma in_object_word:
  assumes "uint (mo_address mo) + uint (mo_size mo) \<le> 2 ^ 64"
  shows "(mo_size mo = 0 \<and> a = mo_address mo \<or> a - mo_address mo < ucast (mo_size mo)) \<longleftrightarrow> in_object mo (uint a)"
    and "a - mo_address mo < ucast (mo_size mo) \<Longrightarrow> in_object mo (uint a)"
proof -
  let ?b = "mo_address mo" and ?n = "mo_size mo"
  have n: "uint (ucast ?n :: 64 word) = uint ?n" by (simp add: uint_up_ucast is_up)
  have z: "?n = 0 \<longleftrightarrow> uint ?n = 0" by (simp add: uint_0_iff)
  have d: "uint (a - ?b) = (uint a - uint ?b) mod 2 ^ 64" by (simp add: uint_word_ariths)
  have a: "0 \<le> uint a" "uint a < 2 ^ 64" "0 \<le> uint ?b" "0 \<le> uint ?n" "uint ?b < 2 ^ 64"
    using uint_bounded [of a] uint_bounded [of ?b] by simp_all
  have "uint (a - ?b) < uint ?n \<longleftrightarrow> uint ?b \<le> uint a \<and> uint a < uint ?b + uint ?n"
  proof (cases "uint ?b \<le> uint a")
    case True
    then have "(uint a - uint ?b) mod 2 ^ 64 = uint a - uint ?b" using a by (intro mod_pos_pos_trivial) linarith+
    with d True show ?thesis by auto
  next
    case False
    have "(uint a - uint ?b) mod 2 ^ 64 = (uint a - uint ?b + 2 ^ 64) mod 2 ^ 64" by simp
    also have "\<dots> = uint a - uint ?b + 2 ^ 64" using False a by (intro mod_pos_pos_trivial) linarith+
    finally have "\<not> uint (a - ?b) < uint ?n" using d a assms by linarith
    with False show ?thesis by simp
  qed
  then have less: "a - ?b < ucast ?n \<longleftrightarrow> uint ?b \<le> uint a \<and> uint a < uint ?b + uint ?n" by (simp add: word_less_def n)
  show "(?n = 0 \<and> a = ?b \<or> a - ?b < ucast ?n) \<longleftrightarrow> in_object mo (uint a)"
    unfolding in_object_def less by (auto simp: word_uint_eq_iff)
  show "a - ?b < ucast ?n \<Longrightarrow> in_object mo (uint a)" unfolding less in_object_def by simp
qed

text \<open>Two objects that are apart have no value in common.\<close>

lemma apart_unique:
  assumes "objects_apart w t" "u \<in> set_node t" "v \<in> set_node t" "in_object (fst u) x" "in_object (fst v) x"
  shows "mo_address (fst u) = mo_address (fst v)"
proof -
  have "\<not> mo_address (fst u) < mo_address (fst v)"
    if "u \<in> set_node t" "v \<in> set_node t" "in_object (fst u) x" "in_object (fst v) x" for u v
  proof
    assume l: "mo_address (fst u) < mo_address (fst v)"
    then have "uint (mo_address (fst u)) + uint (mo_size (fst u)) \<le> uint (mo_address (fst v))"
      using assms(1) that unfolding objects_apart_def by blast
    with that(3,4) l show False by (auto simp: in_object_def word_less_def)
  qed
  with assms show ?thesis by (metis antisym_conv3)
qed

lemma same_address_same:
  assumes "space_ok A" "u \<in> set_node (objects A)" "v \<in> set_node (objects A)" "mo_address (fst u) = mo_address (fst v)"
  shows "u = v"
  using memory_map.set_unique [of "objects A" u v] assms by (auto simp: space_ok_def equiv_address) (simp add: map_ops_def)

text \<open>The elements of the map by an address.\<close>

lemma map_key: "key_of_value by_address u = fst u" "key_compare by_address x y \<longleftrightarrow> mo_address x < mo_address y"
  by (simp_all add: map_ops_def MemoryObjectLT_def)

lemma hack_address [simp]: "mo_address (hack_object a) = a"
  by (simp add: hack_object_def)

lemma walks:
  fixes a :: "64 word"
  assumes "space_ok A"
  defines "start \<equiv> upper_bound by_address (hack_object a) (objects A)"
  shows "walk_back (node_size (objects A)) (objects A) start = rev (filter (\<lambda>u. mo_address (fst u) \<le> a) (inorder (objects A)))"
    "walk_forward (node_size (objects A)) start = filter (\<lambda>u. a < mo_address (fst u)) (inorder (objects A))"
    "lookup_previous by_address (hack_object a) (objects A) =
      (let us = filter (\<lambda>u. mo_address (fst u) \<le> a) (inorder (objects A)) in if us = [] then None else Some (last us))"
proof -
  let ?t = "objects A"
  have b: "bst by_address ?t" using assms(1) by (simp add: space_ok_def)
  have p: "path ?t start" 
    unfolding start_def upper_bound_def Let_def
    using memory_map.path_lower_bound [of ?t "hack_object a"] path_advance [of ?t]
    by (auto split: list.split)
  have r: "remaining start = filter (\<lambda>u. a < mo_address (fst u)) (inorder ?t)"
    unfolding start_def using memory_map.upper_bound_remaining [OF b, of "hack_object a"] by (simp add: map_key)
  have all: "preceding ?t start @ remaining start = inorder ?t" by (rule memory_map.preceding_remaining [OF p b])
  have sorted: "sorted_wrt (\<lambda>u v. mo_address (fst u) < mo_address (fst v)) (inorder ?t)"
    using memory_map.inorder_sorted [OF b] by (simp add: key_less_def [abs_def] map_key)
  have "filter (\<lambda>u. a < mo_address (fst u)) (preceding ?t start) = []"
  proof -
    have "filter (\<lambda>u. a < mo_address (fst u)) (preceding ?t start @ remaining start) = remaining start"
      using all r by simp
    moreover have "filter (\<lambda>u. a < mo_address (fst u)) (remaining start) = remaining start" using r by simp
    ultimately show ?thesis by simp
  qed
  then have "filter (\<lambda>u. mo_address (fst u) \<le> a) (preceding ?t start) = preceding ?t start"
    by (auto simp: filter_empty_conv not_less intro: filter_True)
  moreover have "filter (\<lambda>u. mo_address (fst u) \<le> a) (remaining start) = []" by (auto simp: r filter_empty_conv)
  ultimately have pre: "preceding ?t start = filter (\<lambda>u. mo_address (fst u) \<le> a) (inorder ?t)"
    unfolding all [symmetric] by simp
  have len: "length (preceding ?t start) \<le> node_size ?t" "length (remaining start) \<le> node_size ?t"
    using length_append [of "preceding ?t start" "remaining start"] unfolding all by (simp_all add: length_inorder)
  show "walk_back (node_size ?t) ?t start = rev (filter (\<lambda>u. mo_address (fst u) \<le> a) (inorder ?t))"
    using memory_map.walk_back_all [OF b p len(1)] pre by simp
  show "walk_forward (node_size ?t) start = filter (\<lambda>u. a < mo_address (fst u)) (inorder ?t)"
    using memory_map.walk_forward_all [OF b p len(2)] r by simp
  show "lookup_previous by_address (hack_object a) ?t =
      (let us = filter (\<lambda>u. mo_address (fst u) \<le> a) (inorder ?t) in if us = [] then None else Some (last us))"
    using memory_map.previous_loop [OF b, of "hack_object a" None]
    by (simp add: lookup_previous_def Let_def map_key not_less)
qed

text \<open>What one of the loops over \<open>ois\<close> does to the list \<open>rl\<close>.\<close>

definition found_right ::
  "expr list \<Rightarrow> address_space \<Rightarrow> expr \<Rightarrow> nat \<Rightarrow> object_pair list \<Rightarrow> object_pair list \<Rightarrow> bool option \<Rightarrow> object_pair list \<Rightarrow> bool" where
  "found_right cs A p m ois rl ret rl' \<longleftrightarrow>
     (\<exists>fs. rl' = rl @ fs \<and> set fs \<subseteq> set ois \<and> (distinct ois \<longrightarrow> distinct fs)) \<and>
     (\<forall>oi \<in> set rl' - set rl. points cs p (fst oi)) \<and>
     (ret = None \<longrightarrow> (\<forall>oi \<in> set ois. points cs p (fst oi) \<longrightarrow> oi \<in> set rl')) \<and>
     (ret = Some False \<longrightarrow> (\<forall>oi \<in> set_node (objects A). points cs p (fst oi) \<longrightarrow> oi \<in> set rl')) \<and>
     (2 \<le> m \<longrightarrow> length rl < m \<longrightarrow> length rl' \<le> m \<and> (ret = None \<longrightarrow> length rl' < m))"

lemma found_rightD:
  assumes "found_right cs A p m ois rl ret rl'"
  shows "distinct ois \<Longrightarrow> \<exists>fs. rl' = rl @ fs \<and> set fs \<subseteq> set ois \<and> distinct fs"
    "u \<in> set rl' \<Longrightarrow> u \<in> set rl \<or> points cs p (fst u)"
    "ret = None \<Longrightarrow> u \<in> set ois \<Longrightarrow> points cs p (fst u) \<Longrightarrow> u \<in> set rl'"
    "ret = Some False \<Longrightarrow> u \<in> set_node (objects A) \<Longrightarrow> points cs p (fst u) \<Longrightarrow> u \<in> set rl'"
    "2 \<le> m \<Longrightarrow> length rl < m \<Longrightarrow> length rl' \<le> m \<and> (ret = None \<longrightarrow> length rl' < m)"
  using assms unfolding found_right_def by blast+

locale resolver = timing_laws K T inv accepts n cs
  for K :: "'z mem_env_scheme" and T :: "'s timing_solver" and inv :: "'s \<Rightarrow> bool" and accepts :: "query \<Rightarrow> bool"
    and n :: nat and cs :: "expr list" +
  fixes A :: address_space and p :: expr
  assumes resolvable: "resolvable accepts n K T cs A p"
begin

abbreviation objs :: "object_pair set" where
  "objs \<equiv> set_node (objects A)"

lemma setting:
  "asks p" "wt p" "getWidth p = pointerWidth K" "0 < pointerWidth K" "pointerWidth K \<le> 64" "space_ok A"
  "objects_apart (pointerWidth K) (objects A)"
  using resolvable wt_width_pos [of p] by (auto simp: resolvable_def Let_def can_ask_def)

lemma value_range: "\<sigma> \<in> models cs \<Longrightarrow> inr (pointerWidth K) (eval \<sigma> p)"
  using eval_inr [of \<sigma> p] setting by (auto simp: models_def)

lemma base_means:
  assumes "getBaseExpr K mo = Some b"
  shows "b = ConstantExpr (APInt (pointerWidth K) (uint (mo_address mo)))" "inr (pointerWidth K) (uint (mo_address mo))"
  using create_cases [OF default_env_axioms setting(4,5), of "mo_address mo" b] assms by (simp_all add: getBaseExpr_def)

lemma bounds_means:
  assumes oi: "oi \<in> objs" and e: "getBoundsCheckPointer K (fst oi) p = Some e" and m: "\<sigma> \<in> models cs"
  shows "means \<sigma> e 1 (of_bool (in_object (fst oi) (eval \<sigma> p)))"
proof -
  let ?w = "pointerWidth K" and ?mo = "fst oi" and ?v = "eval \<sigma> p"
  let ?a = "uint (mo_address ?mo)" and ?n = "uint (mo_size ?mo)"
  obtain b where b: "getBaseExpr K ?mo = Some b" "getBoundsCheckOffset K ?mo (Binary_make K Sub p b) = Some e"
    using e by (auto simp: getBoundsCheckPointer_def getOffsetExpr_def split: bind_splits)
  have ok: "assign_ok \<sigma>" using m by (simp add: models_def)
  note base = base_means [OF b(1)] and v = value_range [OF m]
  have off: "means \<sigma> (Binary_make K Sub p b) ?w (bv_bin Sub ?w ?v ?a)"
    using binary_make [OF ok setting(2), of b Sub] base setting by (simp add: bv_width_def)
  have room: "?a + ?n \<le> 2 ^ ?w" "0 \<le> ?n" using setting(7) oi by (auto simp: objects_apart_def)
  have sub: "bv_bin Sub ?w ?v ?a = (?v - ?a) mod 2 ^ ?w" by (simp add: bv_bin_def take_bit_eq_mod)
  have bds: "0 \<le> ?v" "?v < 2 ^ ?w" "0 \<le> ?a" "?a < 2 ^ ?w" using v base(2) by (simp_all add: inr_def)
  have diff: "(?v - ?a) mod 2 ^ ?w = (if ?a \<le> ?v then ?v - ?a else ?v - ?a + 2 ^ ?w)"
  proof (cases "?a \<le> ?v")
    case True
    then have "(?v - ?a) mod 2 ^ ?w = ?v - ?a" using bds by (intro mod_pos_pos_trivial) linarith+
    with True show ?thesis by simp
  next
    case False
    have "(?v - ?a) mod 2 ^ ?w = (?v - ?a + 2 ^ ?w) mod 2 ^ ?w" by simp
    also have "\<dots> = ?v - ?a + 2 ^ ?w" using False bds by (intro mod_pos_pos_trivial) linarith+
    finally show ?thesis using False by simp
  qed
  show ?thesis
  proof (cases "mo_size ?mo = 0")
    case True
    then have "e = Binary_make K Eq (Binary_make K Sub p b) (ConstantExpr (APInt ?w 0))"
      using b(2) setting(4) by (simp add: getBoundsCheckOffset_def)
    then have "means \<sigma> e 1 (of_bool (bv_bin Sub ?w ?v ?a = 0))"
      using binary_make [OF ok, of "Binary_make K Sub p b" "ConstantExpr (APInt ?w 0)" Eq] off setting(4)
      by (simp add: means_def bv_width_def bv_bin_def)
    moreover have "bv_bin Sub ?w ?v ?a = 0 \<longleftrightarrow> in_object ?mo ?v"
      unfolding sub diff in_object_def using True bds by auto
    ultimately show ?thesis by simp
  next
    case False
    then obtain s where s: "getSizeExpr K ?mo = Some s" "e = Binary_make K Ult (Binary_make K Sub p b) s"
      using b(2) by (auto simp: getBoundsCheckOffset_def split: bind_splits)
    then have "s = ConstantExpr (APInt ?w (uint (ucast (mo_size ?mo) :: 64 word)))" "inr ?w (uint (ucast (mo_size ?mo) :: 64 word))"
      using create_cases [OF default_env_axioms setting(4,5), of "ucast (mo_size ?mo)" s] by (simp_all add: getSizeExpr_def)
    moreover have "uint (ucast (mo_size ?mo) :: 64 word) = ?n" by (simp add: uint_up_ucast is_up)
    ultimately have "means \<sigma> e 1 (of_bool (bv_bin Sub ?w ?v ?a < ?n))"
      using binary_make [OF ok, of "Binary_make K Sub p b" s Ult] off setting(4) s(2)
      by (simp add: means_def bv_width_def bv_bin_def)
    moreover have "bv_bin Sub ?w ?v ?a < ?n \<longleftrightarrow> in_object ?mo ?v"
      unfolding sub diff in_object_def using False bds room by auto
    ultimately show ?thesis by simp
  qed
qed

lemma order_means:
  assumes "getBaseExpr K mo = Some b" "\<sigma> \<in> models cs"
  shows "means \<sigma> (Binary_make K Uge p b) 1 (of_bool (uint (mo_address mo) \<le> eval \<sigma> p))"
    "means \<sigma> (Binary_make K Ult p b) 1 (of_bool (eval \<sigma> p < uint (mo_address mo)))"
  using binary_make [OF _ setting(2), of \<sigma> b Uge] binary_make [OF _ setting(2), of \<sigma> b Ult] base_means [OF assms(1)] setting assms(2)
  by (simp_all add: bv_width_def bv_bin_def models_def)

end

context resolver
begin

lemma object_queries:
  assumes "oi \<in> objs"
  shows "\<exists>b e. getBaseExpr K (fst oi) = Some b \<and> getBoundsCheckPointer K (fst oi) p = Some e \<and>
    asks e \<and> asks (createIsZero K e) \<and> asks (Binary_make K Uge p b) \<and> asks (Binary_make K Ult p b)"
proof -
  have "\<forall>u \<in> objs. \<exists>b e. getBaseExpr K (fst u) = Some b \<and> getBoundsCheckPointer K (fst u) p = Some e \<and>
      asks e \<and> asks (createIsZero K e) \<and> asks (Binary_make K Uge p b) \<and> asks (Binary_make K Ult p b)"
    using resolvable by (simp add: resolvable_def Let_def case_prod_beta)
  with assms show ?thesis by blast
qed

lemma can_asks:
  assumes "oi \<in> objs" "getBoundsCheckPointer K (fst oi) p = Some e"
  shows "asks e" "asks (createIsZero K e)"
    "\<And>b. getBaseExpr K (fst oi) = Some b \<Longrightarrow> asks (Binary_make K Uge p b) \<and> asks (Binary_make K Ult p b)"
  using object_queries [OF assms(1)] assms(2) by auto

lemma may_right:
  assumes "inv s" "oi \<in> objs" "getBoundsCheckPointer K (fst oi) p = Some e" "ts_mayBeTrue n K T cs e s = Some (r, s')"
  shows "inv s' \<and> (\<forall>b. r = Some b \<longrightarrow> b = points cs p (fst oi))"
proof -
  note m = bounds_means [OF assms(2,3)]
  have "wt e" "getWidth e = 1" using m some_model by (auto simp: means_def)
  from ts_mayBeTrue_right [OF assms(1) this(1) can_asks(2) [OF assms(2,3)] this(2) assms(4)] m show ?thesis
    by (auto simp: points_def means_def)
qed

lemma must_in_right:
  assumes "inv s" "oi \<in> objs" "getBoundsCheckPointer K (fst oi) p = Some e" "ts_mustBeTrue n K T cs e s = Some (r, s')"
  shows "inv s' \<and> (\<forall>b. r = Some b \<longrightarrow> b = (\<forall>\<sigma> \<in> models cs. in_object (fst oi) (eval \<sigma> p)))"
proof -
  note m = bounds_means [OF assms(2,3)]
  have "getWidth e = 1" using m some_model by (auto simp: means_def)
  from ts_mustBeTrue_right [OF assms(1) can_asks(1) [OF assms(2,3)] this assms(4)] m show ?thesis by (auto simp: means_def)
qed

lemma must_order_right:
  assumes "inv s" "oi \<in> objs" "getBoundsCheckPointer K (fst oi) p = Some e" "getBaseExpr K (fst oi) = Some b"
  shows "ts_mustBeTrue n K T cs (Binary_make K Uge p b) s = Some (r, s') \<Longrightarrow>
      inv s' \<and> (\<forall>x. r = Some x \<longrightarrow> x = (\<forall>\<sigma> \<in> models cs. uint (mo_address (fst oi)) \<le> eval \<sigma> p))"
    and "ts_mustBeTrue n K T cs (Binary_make K Ult p b) s = Some (r, s') \<Longrightarrow>
      inv s' \<and> (\<forall>x. r = Some x \<longrightarrow> x = (\<forall>\<sigma> \<in> models cs. eval \<sigma> p < uint (mo_address (fst oi))))"
proof -
  note o = order_means [OF assms(4)] and a = can_asks(3) [OF assms(2,3,4)]
  have w: "getWidth (Binary_make K Uge p b) = 1" "getWidth (Binary_make K Ult p b) = 1"
    using o some_model by (auto simp: means_def)
  show "ts_mustBeTrue n K T cs (Binary_make K Uge p b) s = Some (r, s') \<Longrightarrow>
      inv s' \<and> (\<forall>x. r = Some x \<longrightarrow> x = (\<forall>\<sigma> \<in> models cs. uint (mo_address (fst oi)) \<le> eval \<sigma> p))"
    using ts_mustBeTrue_right [OF assms(1) conjunct1 [OF a] w(1)] o(1) by (auto simp: means_def)
  show "ts_mustBeTrue n K T cs (Binary_make K Ult p b) s = Some (r, s') \<Longrightarrow>
      inv s' \<and> (\<forall>x. r = Some x \<longrightarrow> x = (\<forall>\<sigma> \<in> models cs. eval \<sigma> p < uint (mo_address (fst oi))))"
    using ts_mustBeTrue_right [OF assms(1) conjunct2 [OF a] w(2)] o(2) by (auto simp: means_def)
qed

text \<open>What is ruled out by the order.\<close>

lemma below_ruled_out:
  assumes "oi \<in> objs" "u \<in> objs" "mo_address (fst u) < mo_address (fst oi)"
    "\<forall>\<sigma> \<in> models cs. uint (mo_address (fst oi)) \<le> eval \<sigma> p"
  shows "\<not> points cs p (fst u)"
proof -
  have "uint (mo_address (fst u)) + uint (mo_size (fst u)) \<le> uint (mo_address (fst oi))"
    using setting(7) assms(1-3) unfolding objects_apart_def by blast
  with assms(3,4) show ?thesis by (fastforce simp: points_def in_object_def word_less_def)
qed

lemma above_ruled_out:
  assumes "mo_address (fst oi) \<le> mo_address (fst u)" "\<forall>\<sigma> \<in> models cs. eval \<sigma> p < uint (mo_address (fst oi))"
  shows "\<not> points cs p (fst u)"
  using assms by (fastforce simp: points_def in_object_def word_le_def)

lemma only_one:
  assumes "oi \<in> objs" "\<forall>\<sigma> \<in> models cs. in_object (fst oi) (eval \<sigma> p)" "u \<in> objs" "points cs p (fst u)"
  shows "u = oi"
proof -
  obtain \<sigma> where "in_object (fst u) (eval \<sigma> p)" "in_object (fst oi) (eval \<sigma> p)" using assms(2,4) by (auto simp: points_def)
  from apart_unique [OF setting(7) assms(3,1) this] show ?thesis using same_address_same [OF setting(6) assms(3,1)] by blast
qed

text \<open>One element of a loop: \<open>rl1\<close> is the list after it.\<close>

definition noted :: "nat \<Rightarrow> object_pair \<Rightarrow> object_pair list \<Rightarrow> bool option \<Rightarrow> object_pair list \<Rightarrow> bool" where
  "noted m oi rl ret rl1 \<longleftrightarrow>
     (rl1 = rl \<and> (ret = None \<longrightarrow> \<not> points cs p (fst oi)) \<or> rl1 = rl @ [oi] \<and> points cs p (fst oi)) \<and>
     (ret = Some False \<longrightarrow> rl1 = [oi] \<and> (\<forall>u \<in> objs. points cs p (fst u) \<longrightarrow> u = oi)) \<and>
     (2 \<le> m \<longrightarrow> length rl < m \<longrightarrow> length rl1 \<le> m \<and> (ret = None \<longrightarrow> length rl1 < m))"

lemma try_right:
  assumes "inv s" "oi \<in> objs" "try_object n K T cs p m oi rl s = Some ((ret, rl1), s2)"
  shows "inv s2 \<and> noted m oi rl ret rl1"
proof -
  obtain e may s1 where e: "getBoundsCheckPointer K (fst oi) p = Some e" "ts_mayBeTrue n K T cs e s = Some (may, s1)"
    using assms(3) by (auto simp: try_object_def split: bind_splits)
  note s1 = may_right [OF assms(1,2) e]
  show ?thesis
  proof (cases "may = Some True")
    case True
    then have b: "points cs p (fst oi)" "rl1 = rl @ [oi]" and nf: "note_found n K T cs m e (rl @ [oi]) s1 = Some (ret, s2)"
      using s1 assms(3) e by (auto simp: try_object_def split: bind_splits)
    show ?thesis
    proof (cases "rl = []")
      case e': True
      obtain r where "ts_mustBeTrue n K T cs e s1 = Some (r, s2)"
          "ret = (case r of None \<Rightarrow> Some True | Some x \<Rightarrow> if x then Some False else None)"
        using nf e' by (auto simp: note_found_def split: bind_splits)
      moreover from this(1) have "inv s2" "\<forall>x. r = Some x \<longrightarrow> x = (\<forall>\<sigma> \<in> models cs. in_object (fst oi) (eval \<sigma> p))"
        using must_in_right [OF conjunct1 [OF s1] assms(2) e(1)] by auto
      ultimately show ?thesis
        using b e' only_one [OF assms(2)] by (auto simp: noted_def split: option.splits if_splits)
    next
      case False
      with nf b s1 show ?thesis by (auto simp: noted_def note_found_def split: if_splits)
    qed
  next
    case False
    with s1 assms(3) e show ?thesis by (auto simp: try_object_def noted_def split: option.splits)
  qed
qed

text \<open>Putting an element before the rest of a loop.\<close>

lemma found_stop:
  assumes "noted m oi rl ret rl1" "ret \<noteq> None \<or> ret' = Some True" "oi \<in> set ois" "ret' = ret \<or> ret' = Some True"
  shows "found_right cs A p m ois rl ret' rl1"
proof (cases "rl1 = rl")
  case True
  with assms show ?thesis unfolding noted_def found_right_def by auto
next
  case False
  with assms(1) have "rl1 = rl @ [oi]" "points cs p (fst oi)" by (auto simp: noted_def)
  with assms show ?thesis unfolding noted_def found_right_def by auto
qed

lemma found_break:
  assumes "noted m oi rl None rl1" "\<And>u. u \<in> set ois \<Longrightarrow> \<not> points cs p (fst u)"
  shows "found_right cs A p m (oi # ois) rl None rl1"
  using assms by (auto simp: noted_def found_right_def)

lemma found_next:
  assumes "noted m oi rl None rl1" "found_right cs A p m ois rl1 ret rl2" "oi \<notin> set ois"
  shows "found_right cs A p m (oi # ois) rl ret rl2"
proof -
  obtain fs where fs: "rl2 = rl1 @ fs" "set fs \<subseteq> set ois" "distinct ois \<longrightarrow> distinct fs"
    and new: "\<And>u. u \<in> set rl2 \<Longrightarrow> u \<notin> set rl1 \<Longrightarrow> points cs p (fst u)"
    and all: "\<And>u. ret = None \<Longrightarrow> u \<in> set ois \<Longrightarrow> points cs p (fst u) \<Longrightarrow> u \<in> set rl2"
    using assms(2) unfolding found_right_def by blast
  let ?here = "if points cs p (fst oi) then [oi] else []"
  have rl1: "rl1 = rl @ ?here" using assms(1) by (auto simp: noted_def)
  have "\<exists>gs. rl2 = rl @ gs \<and> set gs \<subseteq> set (oi # ois) \<and> (distinct (oi # ois) \<longrightarrow> distinct gs)"
    using fs rl1 assms(3) by (intro exI [of _ "?here @ fs"]) auto
  moreover have "\<forall>u \<in> set rl2 - set rl. points cs p (fst u)"
  proof
    fix u assume u: "u \<in> set rl2 - set rl"
    show "points cs p (fst u)"
    proof (cases "u \<in> set rl1")
      case True
      with u rl1 show ?thesis by (simp split: if_splits)
    qed (use u new in blast)
  qed
  moreover have "ret = None \<longrightarrow> (\<forall>u \<in> set (oi # ois). points cs p (fst u) \<longrightarrow> u \<in> set rl2)"
    using all rl1 fs(1) by simp
  moreover have "ret = Some False \<longrightarrow> (\<forall>u \<in> objs. points cs p (fst u) \<longrightarrow> u \<in> set rl2)"
    using assms(2) unfolding found_right_def by blast
  moreover have "2 \<le> m \<longrightarrow> length rl < m \<longrightarrow> length rl2 \<le> m \<and> (ret = None \<longrightarrow> length rl2 < m)"
    using assms(1,2) unfolding found_right_def noted_def by blast
  ultimately show ?thesis unfolding found_right_def by blast
qed

lemma found_nothing: "found_right cs A p m ois rl (Some True) rl"
  by (auto simp: found_right_def)

lemma try_bounds: "try_object n K T cs p m oi rl s = Some x \<Longrightarrow> \<exists>e. getBoundsCheckPointer K (fst oi) p = Some e"
  by (auto simp: try_object_def split: bind_splits)

lemma back_right:
  assumes "resolve_back n K T cs p m late ois rl s = Some ((ret, rl'), s')" "inv s" "set ois \<subseteq> objs"
    "sorted_wrt (\<lambda>u v. mo_address (fst v) < mo_address (fst u)) ois"
  shows "inv s' \<and> found_right cs A p m ois rl ret rl'"
  using assms
proof (induction ois arbitrary: rl s)
  case Nil
  then show ?case by (simp add: found_right_def)
next
  case (Cons oi ois)
  note run = Cons.prems(1) and inv = Cons.prems(2)
  have oi: "oi \<in> objs" "oi \<notin> set ois" "\<And>u. u \<in> set ois \<Longrightarrow> mo_address (fst u) < mo_address (fst oi)"
    using Cons.prems(3,4) by auto
  show ?case
  proof (cases "late (fst oi)")
    case False
    with run obtain r1 rl1 s1 where t: "try_object n K T cs p m oi rl s = Some ((r1, rl1), s1)"
      by (auto split: bind_splits)
    note nt = try_right [OF inv oi(1) t]
    show ?thesis
    proof (cases "r1 = None")
      case True
      with run False t obtain base must s2 where base: "getBaseExpr K (fst oi) = Some base"
          "ts_mustBeTrue n K T cs (Binary_make K Uge p base) s1 = Some (must, s2)"
        by (auto split: bind_splits)
      obtain e where "getBoundsCheckPointer K (fst oi) p = Some e" using try_bounds [OF t] by blast
      note s2 = must_order_right(1) [OF conjunct1 [OF nt] oi(1) this base]
      have nt': "noted m oi rl None rl1" using nt True by simp
      consider (failed) "must = None" | (below) "must = Some True" | (goes_on) "must = Some False" by (cases must) auto
      then show ?thesis
      proof cases
        case failed
        with run False t True base s2 found_stop [OF nt', of "Some True" "oi # ois"] show ?thesis by auto
      next
        case below
        have "\<not> points cs p (fst u)" if "u \<in> set ois" for u
          using below_ruled_out [OF oi(1), of u] oi(3) [OF that] Cons.prems(3) that s2 below by auto
        with run False t True base s2 below found_break [OF nt', of ois] show ?thesis by auto
      next
        case goes_on
        then have "resolve_back n K T cs p m late ois rl1 s2 = Some ((ret, rl'), s')" using run False t True base by simp
        from Cons.IH [OF this] s2 Cons.prems(3,4) found_next [OF nt' _ oi(2)] show ?thesis by simp
      qed
    qed (use run False t nt found_stop [of m oi rl r1 rl1 r1 "oi # ois"] in auto)
  qed (use run inv found_nothing in auto)
qed

lemma forward_right:
  assumes "resolve_forward n K T cs p m late ois rl s = Some ((ret, rl'), s')" "inv s" "set ois \<subseteq> objs"
    "sorted_wrt (\<lambda>u v. mo_address (fst u) < mo_address (fst v)) ois"
  shows "inv s' \<and> found_right cs A p m ois rl ret rl'"
  using assms
proof (induction ois arbitrary: rl s)
  case Nil
  then show ?case by (simp add: found_right_def)
next
  case (Cons oi ois)
  note run = Cons.prems(1) and inv = Cons.prems(2)
  have oi: "oi \<in> objs" "oi \<notin> set ois" "\<And>u. u \<in> set (oi # ois) \<Longrightarrow> mo_address (fst oi) \<le> mo_address (fst u)"
    using Cons.prems(3,4) by auto
  obtain e where e: "getBoundsCheckPointer K (fst oi) p = Some e" using object_queries [OF oi(1)] by blast
  show ?case
  proof (cases "late (fst oi)")
    case False
    with run obtain base must s1 where base: "getBaseExpr K (fst oi) = Some base"
        "ts_mustBeTrue n K T cs (Binary_make K Ult p base) s = Some (must, s1)"
      by (auto split: bind_splits)
    note s1 = must_order_right(2) [OF inv oi(1) e base]
    consider (failed) "must = None" | (above) "must = Some True" | (goes_on) "must = Some False" by (cases must) auto
    then show ?thesis
    proof cases
      case failed
      with run False base s1 found_nothing show ?thesis by auto
    next
      case above
      have "\<not> points cs p (fst u)" if "u \<in> set (oi # ois)" for u
        using above_ruled_out [OF oi(3) [OF that]] s1 above by auto
      with run False base s1 above show ?thesis by (auto simp: found_right_def)
    next
      case goes_on
      with run False base obtain r1 rl1 s2 where t: "try_object n K T cs p m oi rl s1 = Some ((r1, rl1), s2)"
        by (auto split: bind_splits)
      note nt = try_right [OF conjunct1 [OF s1] oi(1) t]
      show ?thesis
      proof (cases "r1 = None")
        case True
        with run False base goes_on t have "resolve_forward n K T cs p m late ois rl1 s2 = Some ((ret, rl'), s')" by simp
        from Cons.IH [OF this] nt True Cons.prems(3,4) found_next [of m oi rl rl1 ois, OF _ _ oi(2)] show ?thesis by simp
      qed (use run False base goes_on t nt found_stop [of m oi rl r1 rl1 r1 "oi # ois"] in auto)
    qed
  qed (use run inv found_nothing in auto)
qed

end

text \<open>The object before an address.\<close>

lemma sorted_distinct: "sorted_wrt P xs \<Longrightarrow> (\<And>x. \<not> P x x) \<Longrightarrow> distinct xs"
  by (induction xs) auto

lemma last_greatest: "sorted_wrt P xs \<Longrightarrow> x \<in> set xs \<Longrightarrow> x = last xs \<or> P x (last xs)"
  by (induction xs) auto

lemma previous_right:
  assumes "space_ok A" "objects_apart w (objects A)"
  shows "lookup_previous by_address (hack_object a) (objects A) = Some oi \<Longrightarrow> oi \<in> set_node (objects A)"
    and "\<lbrakk>u \<in> set_node (objects A); in_object (fst u) (uint a)\<rbrakk> \<Longrightarrow>
      lookup_previous by_address (hack_object a) (objects A) = Some u"
proof -
  let ?us = "filter (\<lambda>u. mo_address (fst u) \<le> a) (inorder (objects A))"
  note prev = walks(3) [OF assms(1), of a]
  have last: "last ?us \<in> set_node (objects A) \<and> mo_address (fst (last ?us)) \<le> a" if "?us \<noteq> []"
    using last_in_set [OF that] by simp
  show "lookup_previous by_address (hack_object a) (objects A) = Some oi \<Longrightarrow> oi \<in> set_node (objects A)"
    using prev last by (auto simp: Let_def split: if_splits)
  assume u: "u \<in> set_node (objects A)" "in_object (fst u) (uint a)"
  then have ua: "mo_address (fst u) \<le> a" by (auto simp: in_object_def word_le_def)
  then have ne: "u \<in> set ?us" using u(1) by simp
  then have ne': "?us \<noteq> []" by (metis empty_iff list.set(1))
  have "sorted_wrt (\<lambda>u v. mo_address (fst u) < mo_address (fst v)) ?us"
    using memory_map.inorder_sorted [of "objects A"] assms(1) by (simp add: space_ok_def key_less_def [abs_def] map_key sorted_wrt_filter)
  from last_greatest [OF this ne] have le: "u = last ?us \<or> mo_address (fst u) < mo_address (fst (last ?us))" .
  have "\<not> mo_address (fst u) < mo_address (fst (last ?us))"
  proof
    assume l: "mo_address (fst u) < mo_address (fst (last ?us))"
    have la: "last ?us \<in> set_node (objects A)" "mo_address (fst (last ?us)) \<le> a"
      using last [OF ne'] by blast+
    then have "uint (mo_address (fst u)) + uint (mo_size (fst u)) \<le> uint (mo_address (fst (last ?us)))"
      using assms(2) u(1) l unfolding objects_apart_def by blast
    with u(2) l la(2) show False by (auto simp: in_object_def word_le_def word_less_def)
  qed
  with le prev ne' show "lookup_previous by_address (hack_object a) (objects A) = Some u" by (auto simp: Let_def)
qed

context resolver
begin

lemma room: "u \<in> objs \<Longrightarrow> uint (mo_address (fst u)) + uint (mo_size (fst u)) \<le> 2 ^ 64"
proof -
  assume "u \<in> objs"
  then have "uint (mo_address (fst u)) + uint (mo_size (fst u)) \<le> 2 ^ pointerWidth K" using setting(7) by (simp add: objects_apart_def)
  also have "(2 :: int) ^ pointerWidth K \<le> 2 ^ 64" using setting(5) by (intro power_increasing) auto
  finally show ?thesis .
qed

lemma example_value:
  assumes "wf_ap c" "getBitWidth c = pointerWidth K" "CE_getZExtValue c 64 = Some a"
  shows "uint a = getZExtValue c"
proof -
  have "inr (pointerWidth K) (getZExtValue c)" using assms(1,2) by (simp add: wf_ap_def)
  then have "inr 64 (getZExtValue c)" using inr_mono [OF _ setting(5)] by blast
  moreover have "a = word_of_int (getZExtValue c)" using CE_getZExtValue_const [of c] assms setting(5) by simp
  ultimately show ?thesis by (simp add: uint_word_of_int inr_def)
qed

lemma constant_right:
  assumes "as_const p = Some c" "resolveOne_const A c = Some res"
  shows "(\<forall>oi. res = Some oi \<longrightarrow> oi \<in> objs) \<and> (\<forall>u \<in> objs. points cs p (fst u) \<longleftrightarrow> res = Some u)"
proof -
  have p: "p = ConstantExpr c" "wf_ap c" "getBitWidth c = pointerWidth K"
    using assms(1) setting(2,3) by (auto simp: as_const_Some)
  obtain a where a: "CE_getZExtValue c 64 = Some a" using assms(2) by (auto simp: resolveOne_const_def split: bind_splits)
  have v: "uint a = getZExtValue c" using example_value [OF p(2,3) a] .
  have pts: "points cs p (fst u) \<longleftrightarrow> in_object (fst u) (uint a)" for u
    using some_model v p(1) by (auto simp: points_def)
  let ?prev = "lookup_previous by_address (hack_object a) (objects A)"
  have res: "res = (case ?prev of None \<Rightarrow> None | Some oi \<Rightarrow>
      if mo_size (fst oi) = 0 \<and> a = mo_address (fst oi) \<or> a - mo_address (fst oi) < ucast (mo_size (fst oi)) then Some oi else None)"
    using assms(2) a by (auto simp: resolveOne_const_def split: option.splits)
  note prev = previous_right [OF setting(6,7), where a = a]
  have cond: "oi \<in> objs \<Longrightarrow> (mo_size (fst oi) = 0 \<and> a = mo_address (fst oi) \<or> a - mo_address (fst oi) < ucast (mo_size (fst oi))) \<longleftrightarrow>
      in_object (fst oi) (uint a)" for oi
    by (rule in_object_word(1) [OF room])
  have "oi \<in> objs \<and> in_object (fst oi) (uint a)" if "res = Some oi" for oi
    using that res prev(1) [of oi] cond [of oi] by (auto split: option.splits if_splits)
  moreover have "res = Some u" if "u \<in> objs" "in_object (fst u) (uint a)" for u
    using res prev(2) [OF that] cond [OF that(1)] that(2) by simp
  ultimately show ?thesis unfolding pts by blast
qed

lemma resolve_right:
  assumes "inv s" "resolve n K T cs A p m late s = Some ((incomplete, rl), s')"
  shows "inv s' \<and> set rl \<subseteq> objs \<and> distinct rl \<and> (\<forall>u \<in> set rl. points cs p (fst u)) \<and>
    (\<not> incomplete \<longrightarrow> (\<forall>u \<in> objs. points cs p (fst u) \<longrightarrow> u \<in> set rl)) \<and> (2 \<le> m \<longrightarrow> length rl \<le> m)"
proof (cases "as_const p")
  case (Some c)
  then obtain res where "resolveOne_const A c = Some res" "rl = (case res of None \<Rightarrow> [] | Some u \<Rightarrow> [u])" "s' = s"
    using assms(2) by (auto simp: resolve_def split: bind_splits)
  with constant_right [OF Some] assms(1) show ?thesis by (cases res) auto
next
  case None
  then obtain cex s1 where v: "ts_getValue n K T cs p s = Some (cex, s1)"
    using assms(2) by (auto simp: resolve_def split: bind_splits)
  note s1 = ts_getValue_right [OF assms(1) setting(1) v]
  show ?thesis
  proof (cases cex)
    case none: None
    with assms(2) None v s1 show ?thesis by (auto simp: resolve_def)
  next
    case (Some c)
    with assms(2) None v obtain a where a: "CE_getZExtValue c 64 = Some a" by (auto simp: resolve_def split: bind_splits)
    let ?start = "upper_bound by_address (hack_object a) (objects A)"
    let ?all = "inorder (objects A)"
    let ?low = "rev (filter (\<lambda>u. mo_address (fst u) \<le> a) ?all)" and ?high = "filter (\<lambda>u. a < mo_address (fst u)) ?all"
    have sorted: "sorted_wrt (\<lambda>u v. mo_address (fst u) < mo_address (fst v)) ?all"
      using memory_map.inorder_sorted [of "objects A"] setting(6) by (simp add: space_ok_def key_less_def [abs_def] map_key)
    then have "distinct ?all" by (rule sorted_distinct) simp
    obtain r1 rl1 s2 where b: "resolve_back n K T cs p m late ?low [] s1 = Some ((r1, rl1), s2)"
      using assms(2) None v Some a by (auto simp: resolve_def Let_def walks [OF setting(6)] split: bind_splits)
    have low: "inv s2 \<and> found_right cs A p m ?low [] r1 rl1"
      by (rule back_right [OF b conjunct1 [OF s1]]) (use sorted in \<open>auto simp: sorted_wrt_rev sorted_wrt_filter\<close>)
    show ?thesis
    proof (cases r1)
      case (Some x)
      then have "incomplete = x" "rl = rl1" "s' = s2"
        using assms(2) None v \<open>cex = Some c\<close> a b by (auto simp: resolve_def Let_def walks [OF setting(6)])
      with low Some \<open>distinct ?all\<close> show ?thesis by (auto simp: found_right_def)
    next
      case none: None
      obtain r2 where f: "resolve_forward n K T cs p m late ?high rl1 s2 = Some ((r2, rl), s')"
          "incomplete = (case r2 of None \<Rightarrow> False | Some x \<Rightarrow> x)"
        using assms(2) None v Some a b none by (auto simp: resolve_def Let_def walks [OF setting(6)] split: bind_splits)
      have high: "inv s' \<and> found_right cs A p m ?high rl1 r2 rl"
        by (rule forward_right [OF f(1) conjunct1 [OF low]]) (use sorted in \<open>auto simp: sorted_wrt_filter\<close>)
      note lo = found_rightD [OF conjunct2 [OF low]] and hi = found_rightD [OF conjunct2 [OF high]]
      have dist: "distinct ?low" "distinct ?high" using \<open>distinct ?all\<close> by simp_all
      obtain gs fs where fs: "rl1 = gs" "set gs \<subseteq> set ?low" "distinct gs" "rl = gs @ fs" "set fs \<subseteq> set ?high" "distinct fs"
        using lo(1) [OF dist(1)] hi(1) [OF dist(2)] by auto
      have dis: "set ?low \<inter> set ?high = {}" by auto
      have un: "set ?low \<union> set ?high = objs" by auto
      have "set rl = set gs \<union> set fs" using fs(4) by simp
      also have "\<dots> \<subseteq> objs" unfolding un [symmetric] by (rule Un_mono [OF fs(2,5)])
      finally have "set rl \<subseteq> objs" .
      moreover have "distinct rl" unfolding fs(4) distinct_append using fs(2,3,5,6) dis by blast
      moreover have "\<forall>u \<in> set rl. points cs p (fst u)" using lo(2) hi(2) by (metis empty_iff list.set(1))
      moreover have "u \<in> set rl" if "\<not> incomplete" "u \<in> objs" "points cs p (fst u)" for u
      proof (cases r2)
        case None
        have "u \<in> set ?low \<or> u \<in> set ?high" using that(2) un by blast
        then show ?thesis
        proof
          assume "u \<in> set ?low"
          from lo(3) [OF none this that(3)] show ?thesis using fs(1,4) by simp
        qed (rule hi(3) [OF None _ that(3)])
      next
        case (Some x)
        with f(2) that(1) have "r2 = Some False" by simp
        from hi(4) [OF this that(2,3)] show ?thesis .
      qed
      moreover have "2 \<le> m \<longrightarrow> length rl \<le> m" using lo(5) hi(5) none by simp
      ultimately show ?thesis using high by blast
    qed
  qed
qed

end

context resolver
begin

definition one_right :: "object_pair list \<Rightarrow> search_result \<Rightarrow> bool" where
  "one_right ois r \<longleftrightarrow> (case r of QueryFailed \<Rightarrow> True | Found u \<Rightarrow> u \<in> set ois \<and> points cs p (fst u)
     | Searched \<Rightarrow> \<forall>u \<in> set ois. \<not> points cs p (fst u))"

lemma one_back_right:
  assumes "one_back n K T cs p ois s = Some (r, s')" "inv s" "set ois \<subseteq> objs"
    "sorted_wrt (\<lambda>u v. mo_address (fst v) < mo_address (fst u)) ois"
  shows "inv s' \<and> one_right ois r"
  using assms
proof (induction ois arbitrary: s)
  case Nil
  then show ?case by (simp add: one_right_def)
next
  case (Cons oi ois)
  note run = Cons.prems(1) and inv = Cons.prems(2)
  have oi: "oi \<in> objs" using Cons.prems(3) by simp
  obtain e may s1 where e: "getBoundsCheckPointer K (fst oi) p = Some e" "ts_mayBeTrue n K T cs e s = Some (may, s1)"
    using run by (auto simp: Let_def split: bind_splits)
  note s1 = may_right [OF inv oi e]
  show ?case
  proof (cases "may = Some False")
    case True
    then obtain base must s2 where base: "getBaseExpr K (fst oi) = Some base"
        "ts_mustBeTrue n K T cs (Binary_make K Uge p base) s1 = Some (must, s2)"
      using run e by (auto simp: Let_def split: bind_splits)
    note s2 = must_order_right(1) [OF conjunct1 [OF s1] oi e(1) base]
    have no: "\<not> points cs p (fst oi)" using s1 True by blast
    show ?thesis
    proof (cases "must = Some False")
      case goes_on: True
      then have "one_back n K T cs p ois s2 = Some (r, s')" using run e True base by (simp add: Let_def)
      from Cons.IH [OF this] s2 Cons.prems(3,4) no show ?thesis by (auto simp: one_right_def split: search_result.splits)
    next
      case False
      have "\<not> points cs p (fst u)" if "must = Some True" "u \<in> set ois" for u
        using below_ruled_out [OF oi, of u] Cons.prems(3,4) that s2 by auto
      with False run e True base s2 no show ?thesis by (auto simp: Let_def one_right_def split: option.splits)
    qed
  qed (use run e s1 in \<open>auto simp: Let_def one_right_def split: option.splits\<close>)
qed

lemma one_forward_right:
  assumes "one_forward n K T cs p ois s = Some (r, s')" "inv s" "set ois \<subseteq> objs"
    "sorted_wrt (\<lambda>u v. mo_address (fst u) < mo_address (fst v)) ois"
  shows "inv s' \<and> one_right ois r"
  using assms
proof (induction ois arbitrary: s)
  case Nil
  then show ?case by (simp add: one_right_def)
next
  case (Cons oi ois)
  note run = Cons.prems(1) and inv = Cons.prems(2)
  have oi: "oi \<in> objs" "\<And>u. u \<in> set (oi # ois) \<Longrightarrow> mo_address (fst oi) \<le> mo_address (fst u)"
    using Cons.prems(3,4) by auto
  obtain e where e: "getBoundsCheckPointer K (fst oi) p = Some e" using object_queries [OF oi(1)] by blast
  obtain base must s1 where base: "getBaseExpr K (fst oi) = Some base"
      "ts_mustBeTrue n K T cs (Binary_make K Ult p base) s = Some (must, s1)"
    using run by (auto simp: Let_def split: bind_splits)
  note s1 = must_order_right(2) [OF inv oi(1) e base]
  show ?case
  proof (cases "must = Some False")
    case True
    then obtain may s2 where may: "ts_mayBeTrue n K T cs e s1 = Some (may, s2)"
      using run e base by (auto simp: Let_def split: bind_splits)
    note s2 = may_right [OF conjunct1 [OF s1] oi(1) e may]
    show ?thesis
    proof (cases "may = Some False")
      case goes_on: True
      then have "one_forward n K T cs p ois s2 = Some (r, s')" using run e True base may by (simp add: Let_def)
      from Cons.IH [OF this] s2 goes_on Cons.prems(3,4) show ?thesis by (auto simp: one_right_def split: search_result.splits)
    qed (use run e True base may s2 in \<open>auto simp: Let_def one_right_def split: option.splits\<close>)
  next
    case False
    have "\<not> points cs p (fst u)" if "must = Some True" "u \<in> set (oi # ois)" for u
      using above_ruled_out [OF oi(2) [OF that(2)]] s1 that(1) by auto
    with False run base s1 show ?thesis by (auto simp: Let_def one_right_def split: option.splits)
  qed
qed

lemma resolveOne_right:
  assumes "inv s" "resolveOne n K T cs A p s = Some (r, s')"
  shows "inv s' \<and> (\<forall>u. r = Some (Some u) \<longrightarrow> u \<in> objs \<and> points cs p (fst u)) \<and>
    (r = Some None \<longrightarrow> (\<forall>u \<in> objs. \<not> points cs p (fst u)))"
proof (cases "as_const p")
  case (Some c)
  then obtain res where "resolveOne_const A c = Some res" "r = Some res" "s' = s"
    using assms(2) by (auto simp: resolveOne_def split: bind_splits)
  with constant_right [OF Some] assms(1) show ?thesis by (cases res) auto
next
  case None
  then obtain cex s1 where v: "ts_getValue n K T cs p s = Some (cex, s1)"
    using assms(2) by (auto simp: resolveOne_def split: bind_splits)
  note s1 = ts_getValue_right [OF assms(1) setting(1) v]
  show ?thesis
  proof (cases cex)
    case none: None
    with assms(2) None v s1 show ?thesis by (auto simp: resolveOne_def)
  next
    case (Some c)
    with assms(2) None v obtain a where a: "CE_getZExtValue c 64 = Some a" by (auto simp: resolveOne_def split: bind_splits)
    let ?all = "inorder (objects A)"
    let ?prev = "lookup_previous by_address (hack_object a) (objects A)"
    let ?low = "rev (filter (\<lambda>u. mo_address (fst u) \<le> a) ?all)" and ?high = "filter (\<lambda>u. a < mo_address (fst u)) ?all"
    have sorted: "sorted_wrt (\<lambda>u v. mo_address (fst u) < mo_address (fst v)) ?all"
      using memory_map.inorder_sorted [of "objects A"] setting(6) by (simp add: space_ok_def key_less_def [abs_def] map_key)
    define cheap where "cheap = (case ?prev of None \<Rightarrow> None
      | Some (mo, os) \<Rightarrow> if a - mo_address mo < ucast (mo_size mo) then Some (mo, os) else None)"
    show ?thesis
    proof (cases cheap)
      case (Some u)
      then have u: "?prev = Some u" "a - mo_address (fst u) < ucast (mo_size (fst u))"
        by (auto simp: cheap_def split: option.splits if_splits)
      have "u \<in> objs" using previous_right(1) [OF setting(6,7) u(1)] .
      moreover have "points cs p (fst u)"
      proof -
        obtain \<sigma> where \<sigma>: "\<sigma> \<in> models cs" "eval \<sigma> p = getZExtValue c" "getBitWidth c = pointerWidth K"
          using s1 \<open>cex = Some c\<close> setting(3) by auto
        then have "wf_ap c" using value_range [of \<sigma>] setting(4) by (simp add: wf_ap_def)
        from example_value [OF this \<sigma>(3) a] \<sigma>(2) in_object_word(2) [OF room [OF \<open>u \<in> objs\<close>] u(2)]
        have "in_object (fst u) (eval \<sigma> p)" by simp
        with \<sigma>(1) show ?thesis unfolding points_def by blast
      qed
      moreover have "r = Some (Some u)" "s' = s1"
        using assms(2) None v \<open>cex = Some c\<close> a Some by (simp_all add: resolveOne_def Let_def cheap_def)
      ultimately show ?thesis using s1 by simp
    next
      case none: None
      have "(do {
          (r, s) \<leftarrow> one_back n K T cs p (walk_back (node_size (objects A)) (objects A) (upper_bound by_address (hack_object a) (objects A))) s1;
          case r of QueryFailed \<Rightarrow> Some (None, s) | Found op \<Rightarrow> Some (Some (Some op), s)
          | Searched \<Rightarrow> do {
              (r, s) \<leftarrow> one_forward n K T cs p (walk_forward (node_size (objects A)) (upper_bound by_address (hack_object a) (objects A))) s;
              Some (case r of QueryFailed \<Rightarrow> None | Found op \<Rightarrow> Some (Some op) | Searched \<Rightarrow> Some None, s) } }) = Some (r, s')"
        using assms(2) None v Some a none by (simp add: resolveOne_def Let_def cheap_def)
      then have run: "(do {
          (r, s) \<leftarrow> one_back n K T cs p ?low s1;
          case r of QueryFailed \<Rightarrow> Some (None, s) | Found op \<Rightarrow> Some (Some (Some op), s)
          | Searched \<Rightarrow> do {
              (r, s) \<leftarrow> one_forward n K T cs p ?high s;
              Some (case r of QueryFailed \<Rightarrow> None | Found op \<Rightarrow> Some (Some op) | Searched \<Rightarrow> Some None, s) } }) = Some (r, s')"
        unfolding walks(1,2) [OF setting(6)] .
      then obtain r1 s2 where b: "one_back n K T cs p ?low s1 = Some (r1, s2)" by (auto split: bind_splits)
      have low: "inv s2 \<and> one_right ?low r1"
        by (rule one_back_right [OF b conjunct1 [OF s1]]) (use sorted in \<open>auto simp: sorted_wrt_rev sorted_wrt_filter\<close>)
      show ?thesis
      proof (cases r1)
        case Searched
        with run b obtain r2 where f: "one_forward n K T cs p ?high s2 = Some (r2, s')"
            "r = (case r2 of QueryFailed \<Rightarrow> None | Found op \<Rightarrow> Some (Some op) | Searched \<Rightarrow> Some None)"
          by (auto split: bind_splits)
        have high: "inv s' \<and> one_right ?high r2"
          by (rule one_forward_right [OF f(1) conjunct1 [OF low]]) (use sorted in \<open>auto simp: sorted_wrt_filter\<close>)
        have "u \<in> set ?low \<or> u \<in> set ?high" if "u \<in> objs" for u using that by auto
        moreover have "\<forall>u \<in> set ?low. \<not> points cs p (fst u)" using low unfolding Searched one_right_def search_result.case by blast
        moreover have "\<forall>u \<in> set ?high. \<not> points cs p (fst u)" if "r2 = Searched"
          using high unfolding that one_right_def search_result.case by blast
        ultimately have "\<forall>u \<in> objs. \<not> points cs p (fst u)" if "r2 = Searched" using that by blast
        moreover have "u \<in> objs \<and> points cs p (fst u)" if "r2 = Found u" for u
          using high that by (simp add: one_right_def)
        ultimately show ?thesis using high f(2) by (cases r2) simp_all
      qed (use run b low in \<open>auto simp: one_right_def\<close>)
    qed
  qed
qed

end

text \<open>The resolution returns.\<close>

locale returning_resolver = resolver K T inv accepts n cs A p
  for K :: "'z mem_env_scheme" and T :: "'s timing_solver" and inv :: "'s \<Rightarrow> bool" and accepts :: "query \<Rightarrow> bool"
    and n :: nat and cs :: "expr list" and A :: address_space and p :: expr +
  assumes returning: "returns_answers (solver T) inv accepts"
begin

lemma may_returns:
  assumes "inv s" "oi \<in> objs" "getBoundsCheckPointer K (fst oi) p = Some e"
  shows "\<exists>r s'. ts_mayBeTrue n K T cs e s = Some (r, s') \<and> inv s'"
proof -
  have "wt e" using can_asks(1) [OF assms(2,3)] by (simp add: can_ask_def)
  from ts_mayBeTrue_returns [OF returning assms(1) can_asks(2) [OF assms(2,3)] this] may_right [OF assms] show ?thesis by blast
qed

lemma order_returns:
  assumes "inv s" "oi \<in> objs" "getBaseExpr K (fst oi) = Some b"
  shows "\<exists>r s'. ts_mustBeTrue n K T cs (Binary_make K Uge p b) s = Some (r, s') \<and> inv s'"
    "\<exists>r s'. ts_mustBeTrue n K T cs (Binary_make K Ult p b) s = Some (r, s') \<and> inv s'"
proof -
  obtain e where e: "getBoundsCheckPointer K (fst oi) p = Some e" using object_queries [OF assms(2)] by blast
  note a = can_asks(3) [OF assms(2) e assms(3)] and o = order_means [OF assms(3)] and r = must_order_right [OF assms(1,2) e assms(3)]
  have w: "getWidth (Binary_make K Uge p b) = 1" "getWidth (Binary_make K Ult p b) = 1"
    using o some_model by (auto simp: means_def)
  show "\<exists>r s'. ts_mustBeTrue n K T cs (Binary_make K Uge p b) s = Some (r, s') \<and> inv s'"
    using ts_mustBeTrue_returns [OF returning assms(1) conjunct1 [OF a] w(1)] r(1) by blast
  show "\<exists>r s'. ts_mustBeTrue n K T cs (Binary_make K Ult p b) s = Some (r, s') \<and> inv s'"
    using ts_mustBeTrue_returns [OF returning assms(1) conjunct2 [OF a] w(2)] r(2) by blast
qed

lemma try_returns:
  assumes "inv s" "oi \<in> objs"
  shows "\<exists>r rl' s'. try_object n K T cs p m oi rl s = Some ((r, rl'), s') \<and> inv s'"
proof -
  obtain e where e: "getBoundsCheckPointer K (fst oi) p = Some e" using object_queries [OF assms(2)] by blast
  obtain r s1 where r: "ts_mayBeTrue n K T cs e s = Some (r, s1)" "inv s1" using may_returns [OF assms e] by blast
  have "getWidth e = 1" using bounds_means [OF assms(2) e] some_model by (auto simp: means_def)
  from ts_mustBeTrue_returns [OF returning r(2) can_asks(1) [OF assms(2) e] this]
  have "\<exists>x s2. note_found n K T cs m e (rl @ [oi]) s1 = Some (x, s2)" by (auto simp: note_found_def)
  then obtain x s2 where "note_found n K T cs m e (rl @ [oi]) s1 = Some (x, s2)" by blast
  then have "\<exists>x. try_object n K T cs p m oi rl s = Some x"
    using e r(1) by (cases r) (simp_all add: try_object_def)
  then show ?thesis using try_right [OF assms] by fastforce
qed

lemma back_returns: "inv s \<Longrightarrow> set ois \<subseteq> objs \<Longrightarrow> \<exists>r rl' s'. resolve_back n K T cs p m late ois rl s = Some ((r, rl'), s')"
proof (induction ois arbitrary: rl s)
  case (Cons oi ois)
  then have oi: "oi \<in> objs" by simp
  obtain r1 rl1 s1 where t: "try_object n K T cs p m oi rl s = Some ((r1, rl1), s1)" "inv s1"
    using try_returns [OF Cons.prems(1) oi] by blast
  obtain b where b: "getBaseExpr K (fst oi) = Some b" using object_queries [OF oi] by blast
  obtain r2 s2 where r2: "ts_mustBeTrue n K T cs (Binary_make K Uge p b) s1 = Some (r2, s2)" "inv s2"
    using order_returns(1) [OF t(2) oi b] by blast
  then show ?case using Cons.IH [OF r2(2)] Cons.prems(2) t b by (cases r2) auto
qed simp

lemma forward_returns: "inv s \<Longrightarrow> set ois \<subseteq> objs \<Longrightarrow> \<exists>r rl' s'. resolve_forward n K T cs p m late ois rl s = Some ((r, rl'), s')"
proof (induction ois arbitrary: rl s)
  case (Cons oi ois)
  then have oi: "oi \<in> objs" by simp
  obtain b where b: "getBaseExpr K (fst oi) = Some b" using object_queries [OF oi] by blast
  obtain r2 s2 where r2: "ts_mustBeTrue n K T cs (Binary_make K Ult p b) s = Some (r2, s2)" "inv s2"
    using order_returns(2) [OF Cons.prems(1) oi b] by blast
  obtain r1 rl1 s1 where t: "try_object n K T cs p m oi rl s2 = Some ((r1, rl1), s1)" "inv s1"
    using try_returns [OF r2(2) oi] by blast
  then show ?case using Cons.IH [OF t(2)] Cons.prems(2) r2 b by (cases r2) auto
qed simp

lemma one_back_returns: "inv s \<Longrightarrow> set ois \<subseteq> objs \<Longrightarrow> \<exists>r s'. one_back n K T cs p ois s = Some (r, s')"
proof (induction ois arbitrary: s)
  case (Cons oi ois)
  then have oi: "oi \<in> objs" by simp
  obtain b e where b: "getBaseExpr K (fst oi) = Some b" "getBoundsCheckPointer K (fst oi) p = Some e"
    using object_queries [OF oi] by blast
  obtain r1 s1 where t: "ts_mayBeTrue n K T cs e s = Some (r1, s1)" "inv s1" using may_returns [OF Cons.prems(1) oi b(2)] by blast
  obtain r2 s2 where r2: "ts_mustBeTrue n K T cs (Binary_make K Uge p b) s1 = Some (r2, s2)" "inv s2"
    using order_returns(1) [OF t(2) oi b(1)] by blast
  then show ?case using Cons.IH [OF r2(2)] Cons.prems(2) t b by (cases r1; cases r2) (auto simp: Let_def)
qed simp

lemma one_forward_returns: "inv s \<Longrightarrow> set ois \<subseteq> objs \<Longrightarrow> \<exists>r s'. one_forward n K T cs p ois s = Some (r, s')"
proof (induction ois arbitrary: s)
  case (Cons oi ois)
  then have oi: "oi \<in> objs" by simp
  obtain b e where b: "getBaseExpr K (fst oi) = Some b" "getBoundsCheckPointer K (fst oi) p = Some e"
    using object_queries [OF oi] by blast
  obtain r2 s2 where r2: "ts_mustBeTrue n K T cs (Binary_make K Ult p b) s = Some (r2, s2)" "inv s2"
    using order_returns(2) [OF Cons.prems(1) oi b(1)] by blast
  obtain r1 s1 where t: "ts_mayBeTrue n K T cs e s2 = Some (r1, s1)" "inv s1" using may_returns [OF r2(2) oi b(2)] by blast
  then show ?case using Cons.IH [OF t(2)] Cons.prems(2) r2 b by (cases r1; cases r2) (auto simp: Let_def)
qed simp

lemma constant_returns: "as_const p = Some c \<Longrightarrow> \<exists>res. resolveOne_const A c = Some res"
  using setting(2,3,5) CE_getZExtValue_const [of c] by (auto simp: resolveOne_const_def as_const_Some)

lemma example_returns:
  assumes "inv s"
  shows "\<exists>r s'. ts_getValue n K T cs p s = Some (r, s') \<and> inv s' \<and> (\<forall>c. r = Some c \<longrightarrow> (\<exists>a. CE_getZExtValue c 64 = Some a))"
proof -
  obtain r s' where r: "ts_getValue n K T cs p s = Some (r, s')" using ts_getValue_returns [OF returning assms setting(1)] by blast
  note right = ts_getValue_right [OF assms setting(1) r]
  have "\<exists>a. CE_getZExtValue c 64 = Some a" if rc: "r = Some c" for c
  proof -
    obtain \<sigma> where "\<sigma> \<in> models cs" "eval \<sigma> p = getZExtValue c" "getBitWidth c = pointerWidth K"
      using right rc setting(3) by auto
    then have "wf_ap c" "getBitWidth c \<le> 64" using value_range [of \<sigma>] setting(4,5) by (simp_all add: wf_ap_def)
    then show ?thesis using CE_getZExtValue_const [of c] by blast
  qed
  with r right show ?thesis by blast
qed

lemma walks_in:
  "set (walk_back (node_size (objects A)) (objects A) (upper_bound by_address (hack_object a) (objects A))) \<subseteq> objs"
  "set (walk_forward (node_size (objects A)) (upper_bound by_address (hack_object a) (objects A))) \<subseteq> objs"
  unfolding walks [OF setting(6)] by auto

lemma resolve_returns:
  assumes "inv s" shows "\<exists>x. resolve n K T cs A p m late s = Some x"
proof (cases "as_const p")
  case (Some c)
  with constant_returns [OF Some] show ?thesis by (auto simp: resolve_def)
next
  case None
  obtain r s1 where r: "ts_getValue n K T cs p s = Some (r, s1)" "inv s1" "\<And>c. r = Some c \<Longrightarrow> \<exists>a. CE_getZExtValue c 64 = Some a"
    using example_returns [OF assms] by blast
  show ?thesis
  proof (cases r)
    case (Some c)
    then obtain a where a: "CE_getZExtValue c 64 = Some a" using r(3) by blast
    obtain r1 rl1 s2 where b: "resolve_back n K T cs p m late (walk_back (node_size (objects A)) (objects A)
        (upper_bound by_address (hack_object a) (objects A))) [] s1 = Some ((r1, rl1), s2)"
      using back_returns [OF r(2) walks_in(1)] by blast
    have "inv s2" by (rule conjunct1 [OF back_right [OF b r(2) walks_in(1)]])
      (use memory_map.inorder_sorted [of "objects A"] setting(6) in
        \<open>auto simp: walks [OF setting(6)] space_ok_def key_less_def [abs_def] map_key sorted_wrt_rev sorted_wrt_filter\<close>)
    then obtain x where "resolve_forward n K T cs p m late (walk_forward (node_size (objects A))
        (upper_bound by_address (hack_object a) (objects A))) rl1 s2 = Some x"
      using forward_returns [OF _ walks_in(2)] by blast
    then show ?thesis using None r(1) Some a b by (cases r1; cases x) (simp_all add: resolve_def Let_def split_beta)
  qed (use None r(1) in \<open>auto simp: resolve_def\<close>)
qed

lemma resolveOne_returns:
  assumes "inv s" shows "\<exists>x. resolveOne n K T cs A p s = Some x"
proof (cases "as_const p")
  case (Some c)
  with constant_returns [OF Some] show ?thesis by (auto simp: resolveOne_def)
next
  case None
  obtain r s1 where r: "ts_getValue n K T cs p s = Some (r, s1)" "inv s1" "\<And>c. r = Some c \<Longrightarrow> \<exists>a. CE_getZExtValue c 64 = Some a"
    using example_returns [OF assms] by blast
  show ?thesis
  proof (cases r)
    case (Some c)
    then obtain a where a: "CE_getZExtValue c 64 = Some a" using r(3) by blast
    obtain r1 s2 where b: "one_back n K T cs p (walk_back (node_size (objects A)) (objects A)
        (upper_bound by_address (hack_object a) (objects A))) s1 = Some (r1, s2)"
      using one_back_returns [OF r(2) walks_in(1)] by blast
    have "inv s2" by (rule conjunct1 [OF one_back_right [OF b r(2) walks_in(1)]])
      (use memory_map.inorder_sorted [of "objects A"] setting(6) in
        \<open>auto simp: walks [OF setting(6)] space_ok_def key_less_def [abs_def] map_key sorted_wrt_rev sorted_wrt_filter\<close>)
    then obtain x where "one_forward n K T cs p (walk_forward (node_size (objects A))
        (upper_bound by_address (hack_object a) (objects A))) s2 = Some x"
      using one_forward_returns [OF _ walks_in(2)] by blast
    then show ?thesis using None r(1) Some a b
      by (cases r1; cases x) (simp_all add: resolveOne_def Let_def split_beta split: option.split)
  qed (use None r(1) in \<open>auto simp: resolveOne_def\<close>)
qed

end

subsection \<open>Two objects and a pointer that is an input byte\<close>

definition low_object :: memory_object where
  "low_object = \<lparr>mo_id = 1, mo_address = 0, mo_size = 100, isUserSpecified = False\<rparr>"

definition high_object :: memory_object where
  "high_object = \<lparr>mo_id = 2, mo_address = 100, mo_size = 50, isUserSpecified = False\<rparr>"

definition two_objects :: address_space where
  "two_objects = \<lparr>cowKey = 1,
     objects = tree_insert by_address (high_object, 1) (tree_insert by_address (low_object, 0) Terminator)\<rparr>"

abbreviation byte_pointer :: expr where
  "byte_pointer \<equiv> ZExtExpr (rd 0) 64"

definition byte_is_three :: "expr list" where
  "byte_is_three = [BinaryExpr Eq (ConstantExpr (APInt 8 3)) (rd 0)]"

definition fast_mem_solver :: "unit solver_impl" where
  "fast_mem_solver = staged_solver (std_mem True) (fast_cex_solver (std_mem True)) dummy_solver"

definition fast_timing :: "unit timing_solver" where
  "fast_timing = \<lparr>solver = fast_mem_solver, simplifyExprs = False\<rparr>"

text \<open>The queries on which the solver runs into no assertion.\<close>

definition fast_answers :: "query \<Rightarrow> bool" where
  "fast_answers q \<longleftrightarrow> cex_accepts q \<and>
     (getWidth (q_expr q) = 1 \<longrightarrow> computeTruth fast_mem_solver q () \<noteq> None) \<and> computeValue fast_mem_solver q () \<noteq> None"

lemma fast_answers_returns: "returns_answers (solver fast_timing) (\<lambda>s. True) fast_answers"
  by (simp add: returns_answers_def fast_answers_def fast_timing_def)

lemma fast_mem_laws: "solver_laws (std_mem True) fast_mem_solver (\<lambda>s. True) cex_accepts"
  unfolding fast_mem_solver_def
proof (rule staged.laws, rule staged.intro)
  show inc: "incomplete_laws (std_mem True) (fast_cex_solver (std_mem True)) cex_accepts"
    by (rule fast_incomplete_laws) (rule std_m.default_env_axioms)
  show "solver_laws (std_mem True) dummy_solver (\<lambda>s. True) cex_accepts"
    by unfold_locales (auto simp: dummy_solver_def dest: incomplete_laws.accepts_wt [OF inc])
qed

lemma fast_timing_laws: "solver_laws (std_mem True) (solver fast_timing) (\<lambda>s. True) fast_answers"
  using solver_laws.accepts_wt [OF fast_mem_laws] solver_laws.truth_ok [OF fast_mem_laws]
    solver_laws.validity_ok [OF fast_mem_laws] solver_laws.value_ok [OF fast_mem_laws]
    solver_laws.initial_ok [OF fast_mem_laws]
  unfolding fast_timing_def timing_solver.simps
  by unfold_locales (simp_all add: fast_answers_def)

lemma byte_path: "path_ok byte_is_three"
proof -
  have "seq_assignment \<in> models byte_is_three"
    by (simp add: models_def byte_is_three_def holds_def bv_bin_def take_bit_eq_mod del: eval.simps(3))
  then show ?thesis by (auto simp: path_ok_def byte_is_three_def constraint_ok_def inr_def bv_width_def)
qed

lemma div_ok_never:
  "div_ok (\<lambda>_. False) e \<Longrightarrow> div_ok P e" "div_ok_updates (\<lambda>_. False) us \<Longrightarrow> div_ok_updates P us"
  by (induction e and us) auto

definition ask_check :: "expr \<Rightarrow> bool" where
  "ask_check e \<longleftrightarrow> wt e \<and> div_ok (\<lambda>_. False) e \<and> fast_answers \<lparr>q_constraints = byte_is_three, q_expr = e\<rparr>"

lemma ask_check: "ask_check e \<Longrightarrow> can_ask fast_answers n (std_mem True) fast_timing byte_is_three e"
  using div_ok_never(1) by (simp add: can_ask_def ask_check_def query_expr_def fast_timing_def)

definition object_check :: "memory_object \<Rightarrow> bool" where
  "object_check mo \<longleftrightarrow> (case (getBaseExpr (std_mem True) mo, getBoundsCheckPointer (std_mem True) mo byte_pointer) of
     (Some b, Some e) \<Rightarrow> ask_check e \<and> ask_check (createIsZero (std_mem True) e) \<and>
       ask_check (Binary_make (std_mem True) Uge byte_pointer b) \<and> ask_check (Binary_make (std_mem True) Ult byte_pointer b)
   | _ \<Rightarrow> False)"

lemma checks: "ask_check byte_pointer" "object_check low_object" "object_check high_object"
  by code_simp+

lemma two_objects_tree:
  "objects two_objects = Node Terminator (Node Terminator Terminator (high_object, 1) 1) (low_object, 0) 2"
  by (simp add: two_objects_def map_ops_def MemoryObjectLT_def low_object_def high_object_def newNode_def balance_def)

lemma byte_resolvable: "resolvable fast_answers n (std_mem True) fast_timing byte_is_three two_objects byte_pointer"
proof -
  have w: "pointerWidth (std_mem True) = 64"
    by (simp add: std_mem_def expr_env.extend_def mem_env.fields_def std_env_def apint_ops.extend_def expr_env.fields_def)
  have s: "space_ok two_objects"
    by (simp add: space_ok_def two_objects_tree map_ops_def MemoryObjectLT_def low_object_def high_object_def key_less_def)
  have a: "objects_apart 64 (objects two_objects)"
    by (simp add: objects_apart_def two_objects_tree low_object_def high_object_def)
  have o: "\<exists>b e. getBaseExpr (std_mem True) mo = Some b \<and> getBoundsCheckPointer (std_mem True) mo byte_pointer = Some e \<and>
      can_ask fast_answers n (std_mem True) fast_timing byte_is_three e \<and>
      can_ask fast_answers n (std_mem True) fast_timing byte_is_three (createIsZero (std_mem True) e) \<and>
      can_ask fast_answers n (std_mem True) fast_timing byte_is_three (Binary_make (std_mem True) Uge byte_pointer b) \<and>
      can_ask fast_answers n (std_mem True) fast_timing byte_is_three (Binary_make (std_mem True) Ult byte_pointer b)"
    if "object_check mo" for mo
    using that ask_check by (auto simp: object_check_def split: option.splits)
  show ?thesis
    using w s a ask_check [OF checks(1)] o [OF checks(2)] o [OF checks(3)]
    by (simp add: resolvable_def Let_def two_objects_tree)
qed

interpretation byte_search: returning_resolver "std_mem True" fast_timing "\<lambda>s. True" fast_answers n byte_is_three
    two_objects byte_pointer for n
  by (intro returning_resolver.intro resolver.intro timing_laws.intro timing_laws_axioms.intro resolver_axioms.intro
    returning_resolver_axioms.intro fast_timing_laws byte_path byte_resolvable fast_answers_returns)

section \<open>Properties\<close>

lemma resolver_facts:
  assumes "timing_laws K T I accepts cs" "resolvable accepts n K T cs A p" "returns_answers (solver T) I accepts"
  shows "returning_resolver K T I accepts n cs A p"
  using assms by (intro returning_resolver.intro resolver.intro resolver_axioms.intro returning_resolver_axioms.intro)

text \<open>C39: resolution of a pointer in an address space. \<^verbatim>\<open>AddressSpace::resolve\<close> returns, and its list has only objects,
  each once, that the pointer can point into under the constraints of the state; if it does not report the
  resolution as incomplete the list has all of them, and with \<^verbatim>\<open>maxResolutions\<close> at least 2 it is no longer than
  that (a limit of 1 is never checked: the branch for the first object found comes before it).
  \<^verbatim>\<open>AddressSpace::resolveOne\<close> returns, too: an object it finds is one the pointer can point into, and if it finds
  none there is none. This holds for every solver that keeps the contract of solvers and fails no assertion on the
  queries asked (\<open>resolvable\<close>: it accepts them), whether or not it has answers in time, and for objects that lie
  in the memory one after the other.\<close>

theorem resolution_right:
  assumes "timing_laws K T I accepts cs" "resolvable accepts n K T cs A p" "returns_answers (solver T) I accepts" "I s"
  shows "(\<exists>incomplete rl s'. resolve n K T cs A p m late s = Some ((incomplete, rl), s') \<and> I s' \<and>
      set rl \<subseteq> set_node (objects A) \<and> distinct rl \<and> (\<forall>u \<in> set rl. points cs p (fst u)) \<and>
      (\<not> incomplete \<longrightarrow> (\<forall>u \<in> set_node (objects A). points cs p (fst u) \<longrightarrow> u \<in> set rl)) \<and>
      (2 \<le> m \<longrightarrow> length rl \<le> m)) \<and>
    (\<exists>r s'. resolveOne n K T cs A p s = Some (r, s') \<and> I s' \<and>
      (\<forall>u. r = Some (Some u) \<longrightarrow> u \<in> set_node (objects A) \<and> points cs p (fst u)) \<and>
      (r = Some None \<longrightarrow> (\<forall>u \<in> set_node (objects A). \<not> points cs p (fst u))))"
proof -
  note R = resolver_facts [OF assms(1-3)]
  note r = returning_resolver.axioms(1) [OF R]
  obtain i rl s1 where a: "resolve n K T cs A p m late s = Some ((i, rl), s1)"
    using returning_resolver.resolve_returns [OF R assms(4), of m late] by (metis surj_pair)
  obtain x s2 where b: "resolveOne n K T cs A p s = Some (x, s2)"
    using returning_resolver.resolveOne_returns [OF R assms(4)] by (metis surj_pair)
  from a b resolver.resolve_right [OF r assms(4) a] resolver.resolveOne_right [OF r assms(4) b] show ?thesis by blast
qed

theorem resolution_right_witness:
  "\<exists>rl. resolve 9 (std_mem True) fast_timing byte_is_three two_objects byte_pointer 0 (\<lambda>_. False) () = Some ((False, rl), ()) \<and>
     rl = [(low_object, 0)] \<and> points byte_is_three byte_pointer low_object \<and>
     \<not> points byte_is_three byte_pointer high_object"
proof -
  have r: "resolve 9 (std_mem True) fast_timing byte_is_three two_objects byte_pointer 0 (\<lambda>_. False) () =
      Some ((False, [(low_object, 0)]), ())" by code_simp
  have d: "(high_object, 1) \<noteq> (low_object, 0 :: nat)" by simp
  show ?thesis
    using resolution_right [OF byte_search.timing_laws_axioms byte_resolvable fast_answers_returns TrueI, of 9 0 "\<lambda>_. False"] r d
    by (auto simp: two_objects_tree)
qed

end
