(* ===== verification/Spec2Isabelle.thy ===== *)
theory Spec2Isabelle
  imports ExprUtil Bits ImmutableTree MapOfSets ValueRange RangeEvaluator ExprVisitor Assignment FastCex ExprCompare Solvers SolverRange
    Independent
    ExprOrder
    CexCaching
    ExprBuilder
    ObjectAccess
    KTest
    Constraints
    AddressSpace
    TimingSolver
    Resolution
begin

text \<open>
  \<^bold>\<open>KLEE as used by Coppelia: expressions, memory and solvers.\<close>

  Coppelia generates exploits for processor designs by symbolic execution of Verilator models with a modified KLEE.
  All paths below are relative to \<^verbatim>\<open>src/Coppelia/klee\<close>. The core of that program is the pipeline from symbolic
  expressions to answers of satisfiability queries: instructions build expressions over arrays of symbolic bytes,
  objects in memory keep some of their bytes as expressions, and every branch or memory access becomes a query to a
  chain of solvers, each of which tries to answer without the next. This development models that pipeline.

  \<^bold>\<open>Theories, in the order of the code's layers.\<close>
  \<^item> \<open>Prelude\<close>: bit patterns as integers in range, the collections of hints, lemmas on \<open>take_bit\<close>.
  \<^item> \<open>APInt\<close>: the operations of \<^verbatim>\<open>llvm::APInt\<close> the code calls, as a record of parameters with their documented
    laws (locale \<open>apint\<close>), and the reference bit-vector semantics \<open>bv_bin\<close>.
  \<^item> \<open>Expr\<close> (\<^verbatim>\<open>include/klee/Expr.h\<close>): the class hierarchy as a datatype with arrays and update lists, widths, kids,
    typing (\<open>wt\<close>) and the value of an expression under an assignment of bytes (\<open>eval\<close>). \<open>ExprCompare\<close> and
    \<open>ExprOrder\<close>: hashes and \<^verbatim>\<open>Expr::compare\<close>, the order that containers use.
  \<^item> \<open>ExprCreate\<close>, \<open>ExprCreateSound\<close> (\<^verbatim>\<open>lib/Expr/Expr.cpp\<close>): the folding constructors and their correctness.
    \<open>ExprBuilder\<close> (\<^verbatim>\<open>lib/Expr/ExprBuilder.cpp\<close>): the stack of default, folding and simplifying builders.
  \<^item> \<open>ExprVisitor\<close>, \<open>Assignment\<close>, \<open>ExprUtil\<close>: visitors with their memo table, evaluation of an expression under a
    counterexample, the arrays and reads of an expression.
  \<^item> \<open>ExprWeight\<close>, \<open>Constraints\<close> (\<^verbatim>\<open>lib/Expr/Constraints.cpp\<close>): the path condition of a state, which rewrites itself
    and other expressions with the equalities in it, and the measure by which the rewriting ends.
  \<^item> \<open>Bits\<close>, \<open>BitBounds\<close>, \<open>ValueRange\<close>, \<open>RangeEvaluator\<close>: fixed-width integers, the bounds of bitwise operations,
    intervals, the abstract evaluation of expressions.
  \<^item> \<open>ImmutableTree\<close> (\<^verbatim>\<open>ImmutableTree.h\<close>, \<^verbatim>\<open>ImmutableMap.h\<close>, \<^verbatim>\<open>ImmutableSet.h\<close>) and \<open>MapOfSets\<close>: the
    persistent search trees of address spaces and the set trie of the counterexample cache.
  \<^item> \<open>Solvers\<close>, \<open>SolverRange\<close>, \<open>FastCex\<close>, \<open>CexCaching\<close>, \<open>Independent\<close> (\<^verbatim>\<open>lib/Solver\<close>): the interface of solvers,
    its front end, and the incomplete, staged, caching, counterexample-caching and independent-constraint solvers.
  \<^item> \<open>ArrayCache\<close>, \<open>ObjectState\<close>, \<open>ObjectAccess\<close> (\<^verbatim>\<open>lib/Core/Memory.cpp\<close>): arrays of bits, the cache of arrays, the
    contents of a memory object with its concrete bytes, known expressions and pending updates.
    \<open>AddressSpace\<close> (\<^verbatim>\<open>lib/Core/AddressSpace.cpp\<close>): the map from memory objects to contents that a state owns, shared
    between states and copied on write.
  \<^item> \<open>TimingSolver\<close>, \<open>Resolution\<close> (\<^verbatim>\<open>lib/Core/TimingSolver.cpp\<close>, \<^verbatim>\<open>AddressSpace.cpp\<close>): the questions a state asks the
    solver, and the search for the objects a symbolic pointer can point into.
  \<^item> \<open>KTest\<close> (\<^verbatim>\<open>lib/Basic/KTest.cpp\<close>): the files of generated test cases.

  \<^bold>\<open>How code became definitions.\<close> A class is a record or a datatype, a virtual interface a record of functions
  (\<open>visitor\<close>, \<open>value_type\<close>, \<open>incomplete_solver\<close>, \<open>solver_impl\<close>, \<open>builder\<close>), a method that changes its object a function that returns
  the new state. A failing assertion, a cast of the wrong class or a read outside a vector is \<open>None\<close>; a solver's
  own failure is an inner \<open>None\<close>, so that \<open>Some (None, s)\<close> is the C++ return value \<^verbatim>\<open>false\<close>. Machine integers
  that the code computes with are words, so that overflow is that of the code: the 64-bit values of ranges and
  addresses, the 32-bit indices of reads, offsets into objects, lengths in files, keys of address spaces. The fields of an
  expression or an array that are \<^verbatim>\<open>unsigned\<close> in the code (widths, offsets of extractions, sizes of arrays, heights of
  tree nodes) are natural numbers: they are set once and compared, and their sums stay far below \<open>2 ^ 32\<close>. Values of
  bit-vector expressions are integers in range of their width (\<open>inr\<close>), since widths are data. Pointers appear only
  where the code compares them: the address of an array is a field of it, a pointer to an object state is an index.

  \<^bold>\<open>Interfaces.\<close> What several components rely on is a locale, interpreted where a component provides it: \<open>apint\<close> and
  \<open>env\<close> (LLVM's integers), \<open>tree_order\<close> (keys of a tree), \<open>range_domain\<close> (values of the abstract evaluator), \<open>visitor_laws\<close> with
  \<open>constant_visitor\<close>, \<open>relating_visitor\<close>, \<open>evaluator\<close> and \<open>total_evaluator\<close> (visitors), \<open>incomplete_laws\<close> and \<open>solver_laws\<close>
  (solvers), with \<open>staged\<close>, \<open>caching\<close>, \<open>independent\<close> and \<open>cex_caching\<close>, each of which gives \<open>solver_laws\<close> again, \<open>builder_laws\<close> and
  \<open>small_builder\<close> (builders), \<open>memory_env\<close> (object states), \<open>timing_laws\<close> with \<open>resolver\<close> and \<open>returning_resolver\<close> (queries of a
  state).

  \<^bold>\<open>Parameters.\<close> Code that is not in the repository is an argument: the record \<open>K\<close> holds LLVM's \<^verbatim>\<open>APInt\<close> operations
  and the command line options that change the constructors; the hash of an \<^verbatim>\<open>APInt\<close>, \<^verbatim>\<open>llvm::utostr\<close>, the core solver
  (STP, Z3 or metaSMT) and the allocator are parameters too. Hypotheses state what their documentation says; each
  property has a witness in which they are concrete functions.

  \<^bold>\<open>Fuel.\<close> Visitors take a bound on the depth of the recursion, for which \<open>Suc (size e)\<close> is enough for evaluators
  (\<open>evaluate_expr_total\<close>); the stack of builders takes one for which \<open>fold_rank\<close> is enough (\<open>builders_return\<close>). Loops
  over containers recurse on lists, with a measure where that is not structural (\<open>find_reads_loop\<close>,
  \<open>required_loop\<close>, \<open>factor_loop\<close>, \<open>binary_search\<close>). The rewriting of constraints takes a bound on the number of calls, for which
  a function of the weights of the expressions is enough (\<open>constraints_kept\<close>). The walks over a map in \<open>Resolution\<close> get
  the number of its elements.

  \<^bold>\<open>What the lemmas show.\<close> Constructors and builders return well-typed expressions with the value of the operation;
  evaluation computes that value; interval operations contain every value; the trees stay balanced and agree with
  maps; the trie finds a subset or a superset whenever there is one; every solver of the chain answers correctly when the
  solver below it does, over any history of its cache; an object state refines an array of bytes; states
  that share objects behave as if each had a memory of its own; a resolution finds the objects a pointer can point into;
  a written test case is read back. Where the code does not do what it means to, a property shows the failing case
  (\<open>concat_range_misses\<close>, \<open>fast_assertion_fails\<close>, \<open>independent_ground_fails\<close>).

  \<^bold>\<open>Not modelled.\<close> The interpreter of LLVM instructions (\<^verbatim>\<open>lib/Core/Executor*.cpp\<close>) and the passes over modules, since
  their data are LLVM's classes, apart from the binding, the read and the write of an object; the order in which states run; the
  translations to the core solvers, whose libraries are external; printers and
  the parser of queries; logging, statistics, timers and searchers; the POSIX runtime, the tools, and the
  processor designs in Verilog.
\<close>

end
